(* ===== verification/Prelude.thy ===== *)
theory Prelude
  imports Main "HOL-Library.Word" "HOL-Library.Monad_Syntax"
begin

text \<open>
  Shared vocabulary of the development: the C types of the target (a 32-bit Cortex-M3), the
  collections the component theories feed their simplification rules into, and the generic facts
  on options, lists and words that several components use.

  A definition of type \<open>\<dots> option\<close> that models a C function returns \<open>None\<close> where the C function has no
  result: it dereferences \<open>NULL\<close> or a pointer to no object, indexes an array out of range, or its
  loop does not end. A theorem that a call works is therefore always stated as
  \<open>\<exists>s'. f s = Some s' \<and> \<dots>\<close>.
\<close>

named_theorems kstate_simps \<open>reading a kernel state after one of its parts has been written\<close>
named_theorems core_simps \<open>the link-free part of a kernel state after a write\<close>
named_theorems refine_intros \<open>a pointer operation implements its list operation\<close>

type_synonym u32 = "32 word"
type_synonym u8 = "8 word"
type_synonym addr = "32 word"

abbreviation NULL :: addr where
  "NULL \<equiv> 0"

subsection \<open>Options\<close>

lemma bind_SomeI: "m = Some x \<Longrightarrow> f x = r \<Longrightarrow> m \<bind> f = r"
  by simp

lemma ex_Some_bind:
  assumes "m = Some x" and "\<exists>y. f x = Some y \<and> P y"
  shows "\<exists>y. (m \<bind> f) = Some y \<and> P y"
  using assms by simp

text \<open>Composition of two steps that each are known to return: the shape of every refinement proof
  of a C function that calls others.\<close>

lemma ex_bind:
  assumes "\<exists>x. m = Some x \<and> P x" and "\<And>x. P x \<Longrightarrow> \<exists>y. f x = Some y \<and> R y"
  shows "\<exists>y. (m \<bind> f) = Some y \<and> R y"
  using assms by fastforce

subsection \<open>First and last element with a default\<close>

text \<open>The pointer that a list of nodes exposes at either end: the node itself, or the surrounding
  pointer when the list is empty.\<close>

definition first_or :: "'a list \<Rightarrow> 'a \<Rightarrow> 'a" where
  "first_or xs d = (case xs of [] \<Rightarrow> d | x # _ \<Rightarrow> x)"

definition last_or :: "'a \<Rightarrow> 'a list \<Rightarrow> 'a" where
  "last_or d xs = (if xs = [] then d else last xs)"

lemma first_or_simps [simp]:
  "first_or [] d = d" "first_or (x # xs) d = x"
  by (simp_all add: first_or_def)

lemma last_or_simps [simp]:
  "last_or d [] = d" "last_or d (xs @ [x]) = x" "last_or d (x # xs) = last_or x xs"
  by (simp_all add: last_or_def)

lemma first_or_append [simp]: "first_or (xs @ ys) d = first_or xs (first_or ys d)"
  by (cases xs) simp_all

lemma last_or_append [simp]: "last_or d (xs @ ys) = last_or (last_or d xs) ys"
  by (auto simp: last_or_def)

lemma last_or_mem: "last_or d xs = d \<or> last_or d xs \<in> set xs"
  by (auto simp: last_or_def)

lemma first_or_mem: "first_or xs d = d \<or> first_or xs d \<in> set xs"
  by (cases xs) auto

lemma first_or_eq_default: "d \<notin> set xs \<Longrightarrow> first_or xs d = d \<longleftrightarrow> xs = []"
  by (cases xs) auto

lemma last_or_eq_default: "d \<notin> set xs \<Longrightarrow> last_or d xs = d \<longleftrightarrow> xs = []"
  by (auto simp: last_or_def)

lemma first_or_hd: "xs \<noteq> [] \<Longrightarrow> first_or xs d = hd xs"
  by (cases xs) auto

lemma first_or_neqD: "first_or xs d \<noteq> d \<Longrightarrow> \<exists>x ys. xs = x # ys \<and> first_or xs d = x"
  by (cases xs) auto

subsection \<open>Lists\<close>

lemma split_list_mem: "x \<in> set xs \<Longrightarrow> distinct xs \<Longrightarrow>
    \<exists>ys zs. xs = ys @ x # zs \<and> x \<notin> set ys \<and> x \<notin> set zs \<and> remove1 x xs = ys @ zs"
  by (drule split_list, elim exE, rule exI, rule exI, rule conjI, assumption)
    (simp add: remove1_append)

lemma set_takeWhile_subset: "set (takeWhile P xs) \<subseteq> set xs"
  by (auto dest: set_takeWhileD)

lemma set_dropWhile_subset: "set (dropWhile P xs) \<subseteq> set xs"
  by (auto dest: set_dropWhileD)

lemma set_takeWhile_dropWhile: "set (takeWhile P xs) \<union> set (dropWhile P xs) = set xs"
  by (metis set_append takeWhile_dropWhile_id)

lemma sorted_wrt_remove1: "sorted_wrt R xs \<Longrightarrow> sorted_wrt R (remove1 x xs)"
  by (induction xs) (auto dest: in_set_remove1 set_remove1_subset [THEN subsetD])

subsection \<open>Signed arithmetic on 32-bit words\<close>

lemma sint_small:
  assumes "unat (w :: u32) < 2 ^ 31"
  shows "sint w = int (unat w)"
proof -
  from assms have "int (unat w) < int (2 ^ 31)" by (simp only: of_nat_less_iff)
  then have "uint w < 2 ^ 31" by simp
  moreover have "- (2 ^ 31) \<le> uint w" by (rule order_trans [OF _ uint_ge_0]) simp
  ultimately have "signed_take_bit 31 (uint w) = uint w" by (intro signed_take_bit_int_eq_self)
  then show ?thesis by (simp add: sint_uint)
qed

lemma sint_nonneg: "0 \<le> sint (w :: u32) \<longleftrightarrow> unat w < 2 ^ 31"
proof -
  have "0 \<le> sint w \<longleftrightarrow> \<not> bit (uint w) 31" by (simp add: sint_uint)
  also have "\<dots> \<longleftrightarrow> uint w < 2 ^ 31"
  proof -
    have "0 \<le> uint w div 2 ^ 31" by (rule pos_imp_zdiv_nonneg_iff [THEN iffD2]) simp_all
    moreover have "uint w div 2 ^ 31 < 2" using uint_lt2p [of w] by simp
    ultimately have "uint w div 2 ^ 31 = 0 \<or> uint w div 2 ^ 31 = 1" by linarith
    then have "odd (uint w div 2 ^ 31) \<longleftrightarrow> uint w div 2 ^ 31 \<noteq> 0" by auto
    also have "\<dots> \<longleftrightarrow> \<not> uint w < 2 ^ 31" using zdiv_eq_0_iff [of "uint w" "2 ^ 31"] uint_ge_0 [of w] by auto
    finally show ?thesis by (simp add: bit_iff_odd)
  qed
  also have "\<dots> \<longleftrightarrow> unat w < 2 ^ 31" using of_nat_less_iff [of "unat w" "2 ^ 31", where 'a = int] by simp
  finally show ?thesis .
qed

lemma sint_pred:
  assumes "0 < sint (w :: u32)"
  shows "sint (w - 1) = sint w - 1"
proof -
  have "sint w < 2 ^ 31" using sint_lt [of w] by simp
  with assms show ?thesis by (simp add: sint_word_ariths signed_take_bit_int_eq_self)
qed

lemma sint_succ:
  assumes "sint (w :: u32) < 2 ^ 31 - 1"
  shows "sint (w + 1) = sint w + 1"
proof -
  have "- (2 ^ 31) \<le> sint w" using sint_ge [of w] by simp
  with assms show ?thesis by (simp add: sint_word_ariths signed_take_bit_int_eq_self)
qed

subsection \<open>Unsigned arithmetic on 32-bit words\<close>

lemma unat_lt_2p32: "unat (w :: u32) < 4294967296"
  using unsigned_less [of w] by simp

lemma unat_Suc_less:
  assumes "i < (n :: u32)"
  shows "unat (i + 1) = Suc (unat i)"
proof -
  have "Suc (unat i) < 4294967296" using assms unat_lt_2p32 [of n] by (simp add: word_less_nat_alt)
  then show ?thesis by (simp add: unat_word_ariths)
qed

end
