(* ===== verification/Kernel_State.thy ===== *)
theory Kernel_State
  imports Prelude
begin

text \<open>
  The data of the kernel: the structs of \<open>kernel/task.h\<close>, \<open>kernel/scheduler.h\<close>, \<open>include/os/mutex.h\<close>,
  \<open>include/os/semaphore.h\<close> and \<open>kernel/mempool.h\<close>, and the kernel state, one record that holds every
  global variable of the kernel, the objects its pointers lead to (one typed store per struct, with
  pointers as 32-bit addresses and 0 as \<open>NULL\<close>), the interrupt mask and the pending bit of PendSV.

  A \<open>os_task_queue_t *\<close> can point to a ready queue, to the sleep queue, to the waiters of a mutex or to
  the waiters of a semaphore: \<open>queue_ref\<close> names these places, \<open>queue_ref option\<close> is the pointer
  (\<open>None\<close> for \<open>NULL\<close>). The timeout queue is only used through its own static functions.
\<close>

subsection \<open>Structs and enums\<close>

datatype os_task_state_t = OS_TASK_READY | OS_TASK_RUNNING | OS_TASK_BLOCKED

text \<open>\<open>os_task_priority_t\<close> is an unsigned enum; a numerically smaller value is more urgent. Values
  outside the enumerators can reach the kernel, which checks for them.\<close>

type_synonym os_task_priority_t = nat

abbreviation (input) OS_TASK_HIGH :: os_task_priority_t where "OS_TASK_HIGH \<equiv> 0"
abbreviation (input) OS_TASK_MEDIUM :: os_task_priority_t where "OS_TASK_MEDIUM \<equiv> 1"
abbreviation (input) OS_TASK_LOW :: os_task_priority_t where "OS_TASK_LOW \<equiv> 2"
abbreviation (input) OS_TASK_IDLE :: os_task_priority_t where "OS_TASK_IDLE \<equiv> 3"

abbreviation (input) NUM_PRIORITIES :: nat where "NUM_PRIORITIES \<equiv> 4"

definition OS_WAIT_FOREVER :: u32 where
  "OS_WAIT_FOREVER = 0xFFFFFFFF"

record os_task_queue_t =
  q_head :: addr
  q_tail :: addr

datatype queue_ref = ReadyQ nat | SleepQ | MutexQ addr | SemQ addr

record os_tcb_t =
  tcb_sp :: addr
  tcb_base_priority :: os_task_priority_t
  tcb_priority :: os_task_priority_t
  tcb_state :: os_task_state_t
  tcb_next :: addr
  tcb_prev :: addr
  tcb_timeout_next :: addr
  tcb_timeout_prev :: addr
  tcb_wait_queue :: "queue_ref option"
  tcb_owned_mutexes :: addr
  tcb_blocked_on :: addr
  tcb_wake_tick :: u32
  tcb_wait_result :: int

record os_mutex_t =
  mtx_owner :: addr
  mtx_next_mutex :: addr
  mtx_waiters :: os_task_queue_t

record os_sem_t =
  sem_count :: u32
  sem_waiters :: os_task_queue_t

record os_mempool_t =
  mp_free_list :: addr
  mp_pool_start :: addr
  mp_pool_end :: addr
  mp_block_size :: u32
  mp_block_count :: u32
  mp_free_count :: u32

record os_task_create_args_t =
  arg_priority :: os_task_priority_t
  arg_entry :: addr
  arg_arg :: addr
  arg_stack_words :: u32

subsection \<open>The kernel state\<close>

record kstate =
  g_priorities :: "nat \<Rightarrow> os_task_queue_t"
  g_timeout_queue :: os_task_queue_t
  g_sleep_queue :: os_task_queue_t
  g_current :: addr
  g_next :: addr
  g_first_switch :: u32
  g_tick :: u32
  g_debug_step :: u32
  g_debug_value0 :: u32
  g_debug_value1 :: u32
  g_kernel_object_pool :: os_mempool_t
  g_user_stack_pool :: os_mempool_t
  tcbs :: "addr \<rightharpoonup> os_tcb_t"
  mutexes :: "addr \<rightharpoonup> os_mutex_t"
  sems :: "addr \<rightharpoonup> os_sem_t"
  create_args :: "addr \<rightharpoonup> os_task_create_args_t"
  mem :: "addr \<Rightarrow> u32"
  primask :: u32
  pendsv :: bool

text \<open>Dereferencing a pointer: \<open>NULL\<close> never leads to an object.\<close>

definition tcb_at :: "kstate \<Rightarrow> addr \<Rightarrow> os_tcb_t option" where
  "tcb_at s = (tcbs s)(NULL := None)"

definition mutex_at :: "kstate \<Rightarrow> addr \<Rightarrow> os_mutex_t option" where
  "mutex_at s = (mutexes s)(NULL := None)"

definition sem_at :: "kstate \<Rightarrow> addr \<Rightarrow> os_sem_t option" where
  "sem_at s = (sems s)(NULL := None)"

definition put_tcb :: "addr \<Rightarrow> os_tcb_t \<Rightarrow> kstate \<Rightarrow> kstate" where
  "put_tcb p t s = s\<lparr>tcbs := (tcbs s)(p \<mapsto> t)\<rparr>"

definition put_mutex :: "addr \<Rightarrow> os_mutex_t \<Rightarrow> kstate \<Rightarrow> kstate" where
  "put_mutex m x s = s\<lparr>mutexes := (mutexes s)(m \<mapsto> x)\<rparr>"

definition put_sem :: "addr \<Rightarrow> os_sem_t \<Rightarrow> kstate \<Rightarrow> kstate" where
  "put_sem m x s = s\<lparr>sems := (sems s)(m \<mapsto> x)\<rparr>"

text \<open>Assigning fields of the object behind a pointer.\<close>

definition upd_tcb :: "addr \<Rightarrow> (os_tcb_t \<Rightarrow> os_tcb_t) \<Rightarrow> kstate \<Rightarrow> kstate option" where
  "upd_tcb p f s = do { t \<leftarrow> tcb_at s p; Some (put_tcb p (f t) s) }"

definition upd_mutex :: "addr \<Rightarrow> (os_mutex_t \<Rightarrow> os_mutex_t) \<Rightarrow> kstate \<Rightarrow> kstate option" where
  "upd_mutex m f s = do { x \<leftarrow> mutex_at s m; Some (put_mutex m (f x) s) }"

definition upd_sem :: "addr \<Rightarrow> (os_sem_t \<Rightarrow> os_sem_t) \<Rightarrow> kstate \<Rightarrow> kstate option" where
  "upd_sem m f s = do { x \<leftarrow> sem_at s m; Some (put_sem m (f x) s) }"

text \<open>The task queue behind a queue pointer. \<open>g_priorities\<close> has \<open>NUM_PRIORITIES\<close> elements.\<close>

fun get_queue :: "kstate \<Rightarrow> queue_ref \<Rightarrow> os_task_queue_t option" where
  "get_queue s (ReadyQ p) = (if p < NUM_PRIORITIES then Some (g_priorities s p) else None)"
| "get_queue s SleepQ = Some (g_sleep_queue s)"
| "get_queue s (MutexQ m) = map_option mtx_waiters (mutex_at s m)"
| "get_queue s (SemQ m) = map_option sem_waiters (sem_at s m)"

fun put_queue :: "queue_ref \<Rightarrow> os_task_queue_t \<Rightarrow> kstate \<Rightarrow> kstate" where
  "put_queue (ReadyQ p) v s = s\<lparr>g_priorities := (g_priorities s)(p := v)\<rparr>"
| "put_queue SleepQ v s = s\<lparr>g_sleep_queue := v\<rparr>"
| "put_queue (MutexQ m) v s =
     s\<lparr>mutexes := (mutexes s)(m := map_option (\<lambda>x. x\<lparr>mtx_waiters := v\<rparr>) (mutexes s m))\<rparr>"
| "put_queue (SemQ m) v s =
     s\<lparr>sems := (sems s)(m := map_option (\<lambda>x. x\<lparr>sem_waiters := v\<rparr>) (sems s m))\<rparr>"

definition set_head :: "queue_ref \<Rightarrow> addr \<Rightarrow> kstate \<Rightarrow> kstate option" where
  "set_head q v s = do { d \<leftarrow> get_queue s q; Some (put_queue q (d\<lparr>q_head := v\<rparr>) s) }"

definition set_tail :: "queue_ref \<Rightarrow> addr \<Rightarrow> kstate \<Rightarrow> kstate option" where
  "set_tail q v s = do { d \<leftarrow> get_queue s q; Some (put_queue q (d\<lparr>q_tail := v\<rparr>) s) }"

subsection \<open>Interrupt primitives of the port\<close>

text \<open>\<open>os_port_irq_save\<close> reads \<open>PRIMASK\<close> and executes \<open>cpsid i\<close>; \<open>os_port_irq_restore\<close> writes
  \<open>PRIMASK\<close> back; \<open>os_port_pendsv_trigger\<close> sets the pending bit of PendSV in \<open>SCB_ICSR\<close>.\<close>

definition os_port_irq_save :: "kstate \<Rightarrow> u32 \<times> kstate" where
  "os_port_irq_save s = (primask s, s\<lparr>primask := 1\<rparr>)"

definition os_port_irq_restore :: "u32 \<Rightarrow> kstate \<Rightarrow> kstate" where
  "os_port_irq_restore key s = s\<lparr>primask := key\<rparr>"

definition os_port_pendsv_trigger :: "kstate \<Rightarrow> kstate" where
  "os_port_pendsv_trigger s = s\<lparr>pendsv := True\<rparr>"

subsection \<open>Reading after writing\<close>

lemma tcb_at_NULL [simp]: "tcb_at s NULL = None"
  by (simp add: tcb_at_def)

lemma mutex_at_NULL [simp]: "mutex_at s NULL = None"
  by (simp add: mutex_at_def)

lemma sem_at_NULL [simp]: "sem_at s NULL = None"
  by (simp add: sem_at_def)

lemma tcb_at_put_tcb [kstate_simps]:
  "p \<noteq> NULL \<Longrightarrow> tcb_at (put_tcb p t s) = (tcb_at s)(p \<mapsto> t)"
  by (auto simp: tcb_at_def put_tcb_def)

lemma tcb_at_nonnull: "tcb_at s p = Some t \<Longrightarrow> p \<noteq> NULL"
  by auto

lemma tcb_at_put_queue [kstate_simps]: "tcb_at (put_queue q v s) = tcb_at s"
  by (cases q) (simp_all add: tcb_at_def)

lemma get_queue_put_tcb [kstate_simps]: "get_queue (put_tcb p t s) q = get_queue s q"
  by (cases q) (simp_all add: put_tcb_def mutex_at_def sem_at_def)

lemma get_queue_put_queue [kstate_simps]:
  "get_queue s q = Some d \<Longrightarrow> get_queue (put_queue q v s) = (get_queue s)(q \<mapsto> v)"
  by (rule ext, rename_tac r, case_tac q; case_tac r)
    (auto simp: mutex_at_def sem_at_def split: if_splits)

lemma upd_tcb_Some [kstate_simps]:
  "tcb_at s p = Some t \<Longrightarrow> upd_tcb p f s = Some (put_tcb p (f t) s)"
  by (simp add: upd_tcb_def)

lemma set_head_Some [kstate_simps]:
  "get_queue s q = Some d \<Longrightarrow> set_head q v s = Some (put_queue q (d\<lparr>q_head := v\<rparr>) s)"
  by (simp add: set_head_def)

lemma set_tail_Some [kstate_simps]:
  "get_queue s q = Some d \<Longrightarrow> set_tail q v s = Some (put_queue q (d\<lparr>q_tail := v\<rparr>) s)"
  by (simp add: set_tail_def)

lemma g_timeout_queue_writes [kstate_simps]:
  "g_timeout_queue (put_tcb p t s) = g_timeout_queue s"
  "g_timeout_queue (put_queue q v s) = g_timeout_queue s"
  by (simp_all add: put_tcb_def) (cases q, simp_all)

lemma put_queue_put_queue [kstate_simps]:
  "put_queue q v (put_queue q v' s) = put_queue q v s"
  by (cases q) (auto simp: option.map_comp o_def)

lemma put_tcb_put_tcb [kstate_simps]: "put_tcb p t (put_tcb p t' s) = put_tcb p t s"
  by (simp add: put_tcb_def)

text \<open>A write of a field that holds neither tasks nor task queues leaves both alone.\<close>

lemma tcb_at_frame [kstate_simps]:
  "tcb_at (g_priorities_update fgpriorities s) = tcb_at s"
  "tcb_at (g_sleep_queue_update fgsleepqueue s) = tcb_at s"
  "tcb_at (mutexes_update fmutexes s) = tcb_at s"
  "tcb_at (sems_update fsems s) = tcb_at s"
  "tcb_at (g_timeout_queue_update fgtimeoutqueue s) = tcb_at s"
  "tcb_at (g_current_update fgcurrent s) = tcb_at s"
  "tcb_at (g_next_update fgnext s) = tcb_at s"
  "tcb_at (g_first_switch_update fgfirstswitch s) = tcb_at s"
  "tcb_at (g_tick_update fgtick s) = tcb_at s"
  "tcb_at (g_debug_step_update fgdebugstep s) = tcb_at s"
  "tcb_at (g_debug_value0_update fgdebugvalue0 s) = tcb_at s"
  "tcb_at (g_debug_value1_update fgdebugvalue1 s) = tcb_at s"
  "tcb_at (g_kernel_object_pool_update fgkernelobjectpool s) = tcb_at s"
  "tcb_at (g_user_stack_pool_update fguserstackpool s) = tcb_at s"
  "tcb_at (create_args_update fcreateargs s) = tcb_at s"
  "tcb_at (mem_update fmem s) = tcb_at s"
  "tcb_at (primask_update fprimask s) = tcb_at s"
  "tcb_at (pendsv_update fpendsv s) = tcb_at s"
  by (simp_all add: tcb_at_def)

lemma get_queue_frame [kstate_simps]:
  "get_queue (g_timeout_queue_update fgtimeoutqueue s) = get_queue s"
  "get_queue (g_current_update fgcurrent s) = get_queue s"
  "get_queue (g_next_update fgnext s) = get_queue s"
  "get_queue (g_first_switch_update fgfirstswitch s) = get_queue s"
  "get_queue (g_tick_update fgtick s) = get_queue s"
  "get_queue (g_debug_step_update fgdebugstep s) = get_queue s"
  "get_queue (g_debug_value0_update fgdebugvalue0 s) = get_queue s"
  "get_queue (g_debug_value1_update fgdebugvalue1 s) = get_queue s"
  "get_queue (g_kernel_object_pool_update fgkernelobjectpool s) = get_queue s"
  "get_queue (g_user_stack_pool_update fguserstackpool s) = get_queue s"
  "get_queue (create_args_update fcreateargs s) = get_queue s"
  "get_queue (mem_update fmem s) = get_queue s"
  "get_queue (primask_update fprimask s) = get_queue s"
  "get_queue (pendsv_update fpendsv s) = get_queue s"
  "get_queue (tcbs_update ftcbs s) = get_queue s"
  by (rule ext, rename_tac q, case_tac q, simp_all add: mutex_at_def sem_at_def)+

lemma mutex_at_frame [kstate_simps]:
  "mutex_at (g_timeout_queue_update fgtimeoutqueue s) = mutex_at s"
  "mutex_at (g_current_update fgcurrent s) = mutex_at s"
  "mutex_at (g_next_update fgnext s) = mutex_at s"
  "mutex_at (g_first_switch_update fgfirstswitch s) = mutex_at s"
  "mutex_at (g_tick_update fgtick s) = mutex_at s"
  "mutex_at (g_debug_step_update fgdebugstep s) = mutex_at s"
  "mutex_at (g_debug_value0_update fgdebugvalue0 s) = mutex_at s"
  "mutex_at (g_debug_value1_update fgdebugvalue1 s) = mutex_at s"
  "mutex_at (g_kernel_object_pool_update fgkernelobjectpool s) = mutex_at s"
  "mutex_at (g_user_stack_pool_update fguserstackpool s) = mutex_at s"
  "mutex_at (create_args_update fcreateargs s) = mutex_at s"
  "mutex_at (mem_update fmem s) = mutex_at s"
  "mutex_at (primask_update fprimask s) = mutex_at s"
  "mutex_at (pendsv_update fpendsv s) = mutex_at s"
  "mutex_at (tcbs_update ftcbs s) = mutex_at s"
  "mutex_at (sems_update fsems s) = mutex_at s"
  "mutex_at (g_priorities_update fgpriorities s) = mutex_at s"
  "mutex_at (g_sleep_queue_update fgsleepqueue s) = mutex_at s"
  "mutex_at (put_tcb p t s) = mutex_at s"
  "mutex_at (put_sem p y s) = mutex_at s"
  by (simp_all add: mutex_at_def put_tcb_def put_sem_def)

lemma sem_at_frame [kstate_simps]:
  "sem_at (g_timeout_queue_update fgtimeoutqueue s) = sem_at s"
  "sem_at (g_current_update fgcurrent s) = sem_at s"
  "sem_at (g_next_update fgnext s) = sem_at s"
  "sem_at (g_first_switch_update fgfirstswitch s) = sem_at s"
  "sem_at (g_tick_update fgtick s) = sem_at s"
  "sem_at (g_debug_step_update fgdebugstep s) = sem_at s"
  "sem_at (g_debug_value0_update fgdebugvalue0 s) = sem_at s"
  "sem_at (g_debug_value1_update fgdebugvalue1 s) = sem_at s"
  "sem_at (g_kernel_object_pool_update fgkernelobjectpool s) = sem_at s"
  "sem_at (g_user_stack_pool_update fguserstackpool s) = sem_at s"
  "sem_at (create_args_update fcreateargs s) = sem_at s"
  "sem_at (mem_update fmem s) = sem_at s"
  "sem_at (primask_update fprimask s) = sem_at s"
  "sem_at (pendsv_update fpendsv s) = sem_at s"
  "sem_at (tcbs_update ftcbs s) = sem_at s"
  "sem_at (mutexes_update fmutexes s) = sem_at s"
  "sem_at (g_priorities_update fgpriorities s) = sem_at s"
  "sem_at (g_sleep_queue_update fgsleepqueue s) = sem_at s"
  "sem_at (put_tcb p t s) = sem_at s"
  "sem_at (put_mutex p x s) = sem_at s"
  by (simp_all add: sem_at_def put_tcb_def put_mutex_def)

lemma put_tcb_frame [kstate_simps]:
  "g_current (put_tcb p t s) = g_current s"
  "g_next (put_tcb p t s) = g_next s"
  "g_first_switch (put_tcb p t s) = g_first_switch s"
  "g_tick (put_tcb p t s) = g_tick s"
  "g_debug_step (put_tcb p t s) = g_debug_step s"
  "g_debug_value0 (put_tcb p t s) = g_debug_value0 s"
  "g_debug_value1 (put_tcb p t s) = g_debug_value1 s"
  "g_kernel_object_pool (put_tcb p t s) = g_kernel_object_pool s"
  "g_user_stack_pool (put_tcb p t s) = g_user_stack_pool s"
  "create_args (put_tcb p t s) = create_args s"
  "mem (put_tcb p t s) = mem s"
  "primask (put_tcb p t s) = primask s"
  "pendsv (put_tcb p t s) = pendsv s"
  "mutexes (put_tcb p t s) = mutexes s"
  "sems (put_tcb p t s) = sems s"
  by (simp_all add: put_tcb_def)

lemma put_queue_frame [kstate_simps]:
  "g_current (put_queue q v s) = g_current s"
  "g_next (put_queue q v s) = g_next s"
  "g_first_switch (put_queue q v s) = g_first_switch s"
  "g_tick (put_queue q v s) = g_tick s"
  "g_debug_step (put_queue q v s) = g_debug_step s"
  "g_debug_value0 (put_queue q v s) = g_debug_value0 s"
  "g_debug_value1 (put_queue q v s) = g_debug_value1 s"
  "g_kernel_object_pool (put_queue q v s) = g_kernel_object_pool s"
  "g_user_stack_pool (put_queue q v s) = g_user_stack_pool s"
  "create_args (put_queue q v s) = create_args s"
  "mem (put_queue q v s) = mem s"
  "primask (put_queue q v s) = primask s"
  "pendsv (put_queue q v s) = pendsv s"
  "tcbs (put_queue q v s) = tcbs s"
  by (cases q, simp_all)+

declare get_queue.simps [simp del] put_queue.simps [simp del]

end
