(* ===== verification/Linked_Lists.thy ===== *)
theory Linked_Lists
  imports Kernel_State
begin

text \<open>
  Doubly linked lists in the store of task control blocks. The kernel threads two kinds of lists
  through a TCB: the ready and wait queues through \<open>next\<close>/\<open>prev\<close>, the timeout queue through
  \<open>timeout_next\<close>/\<open>timeout_prev\<close>. \<open>dpath\<close> and \<open>dlist\<close> are parametric in the two selectors.
\<close>

fun dpath :: "(os_tcb_t \<Rightarrow> addr) \<Rightarrow> (os_tcb_t \<Rightarrow> addr) \<Rightarrow> (addr \<rightharpoonup> os_tcb_t) \<Rightarrow>
    addr \<Rightarrow> addr list \<Rightarrow> addr \<Rightarrow> bool" where
  "dpath nx pv h p [] n = True"
| "dpath nx pv h p (x # xs) n =
     (x \<noteq> NULL \<and> (\<exists>t. h x = Some t \<and> pv t = p \<and> nx t = first_or xs n) \<and> dpath nx pv h x xs n)"

text \<open>A queue header and the list of nodes it leads to.\<close>

definition dlist :: "(os_tcb_t \<Rightarrow> addr) \<Rightarrow> (os_tcb_t \<Rightarrow> addr) \<Rightarrow> (addr \<rightharpoonup> os_tcb_t) \<Rightarrow>
    os_task_queue_t \<Rightarrow> addr list \<Rightarrow> bool" where
  "dlist nx pv h q xs \<longleftrightarrow>
     dpath nx pv h NULL xs NULL \<and> distinct xs \<and> q_head q = first_or xs NULL \<and> q_tail q = last_or NULL xs"

lemma dpath_append [simp]:
  "dpath nx pv h p (xs @ ys) n \<longleftrightarrow>
     dpath nx pv h p xs (first_or ys n) \<and> dpath nx pv h (last_or p xs) ys n"
  by (induction xs arbitrary: p) auto

lemma dpath_upd_other [simp]:
  "x \<notin> set xs \<Longrightarrow> dpath nx pv (h(x := v)) p xs n = dpath nx pv h p xs n"
  by (induction xs arbitrary: p) auto

lemma dpath_cong:
  assumes "\<And>x. x \<in> set xs \<Longrightarrow> map_option nx (h' x) = map_option nx (h x)"
    and "\<And>x. x \<in> set xs \<Longrightarrow> map_option pv (h' x) = map_option pv (h x)"
  shows "dpath nx pv h' p xs n = dpath nx pv h p xs n"
  using assms
proof (induction xs arbitrary: p)
  case Nil
  then show ?case by simp
next
  case (Cons x xs)
  have "(\<exists>t. h' x = Some t \<and> pv t = p \<and> nx t = first_or xs n) \<longleftrightarrow>
        (\<exists>t. h x = Some t \<and> pv t = p \<and> nx t = first_or xs n)"
    using Cons.prems [of x] by (cases "h x"; cases "h' x") auto
  moreover have "dpath nx pv h' x xs n = dpath nx pv h x xs n"
    using Cons.prems by (intro Cons.IH) auto
  ultimately show ?case by simp
qed

text \<open>Writing fields other than the two links of a node keeps every list.\<close>

lemma dpath_upd_same_links:
  assumes "h x = Some t" and "nx t' = nx t" and "pv t' = pv t"
  shows "dpath nx pv (h(x \<mapsto> t')) p xs n = dpath nx pv h p xs n"
  by (rule dpath_cong) (auto simp: assms)

lemma dlist_upd_same_links:
  assumes "h x = Some t" and "nx t' = nx t" and "pv t' = pv t"
  shows "dlist nx pv (h(x \<mapsto> t')) q xs = dlist nx pv h q xs"
  using assms by (simp add: dlist_def dpath_upd_same_links)

lemma dlist_upd_other:
  "x \<notin> set xs \<Longrightarrow> dlist nx pv (h(x := v)) q xs = dlist nx pv h q xs"
  by (simp add: dlist_def)

lemma dpath_nonnull: "dpath nx pv h p xs n \<Longrightarrow> NULL \<notin> set xs"
  by (induction xs arbitrary: p) auto

lemma dpath_valid: "dpath nx pv h p xs n \<Longrightarrow> x \<in> set xs \<Longrightarrow> \<exists>t. h x = Some t"
  by (induction xs arbitrary: p) auto

lemma dlist_nonnull: "dlist nx pv h q xs \<Longrightarrow> NULL \<notin> set xs"
  by (auto simp: dlist_def dest: dpath_nonnull)

lemma dlist_valid: "dlist nx pv h q xs \<Longrightarrow> x \<in> set xs \<Longrightarrow> \<exists>t. h x = Some t"
  by (auto simp: dlist_def dest: dpath_valid)

lemma dlist_distinct: "dlist nx pv h q xs \<Longrightarrow> distinct xs"
  by (simp add: dlist_def)

lemma dlist_head_NULL: "dlist nx pv h q xs \<Longrightarrow> q_head q = NULL \<longleftrightarrow> xs = []"
  by (auto simp: dlist_def first_or_eq_default dest: dpath_nonnull)

lemma dlist_tail_NULL: "dlist nx pv h q xs \<Longrightarrow> q_tail q = NULL \<longleftrightarrow> xs = []"
  by (auto simp: dlist_def last_or_eq_default dest: dpath_nonnull)

lemma dlist_head: "dlist nx pv h q xs \<Longrightarrow> q_head q = first_or xs NULL"
  by (simp add: dlist_def)

text \<open>The links of a node in the middle of a list.\<close>

lemma dpath_middle:
  "dpath nx pv h p (ys @ x # zs) n \<Longrightarrow>
     \<exists>t. h x = Some t \<and> pv t = last_or p ys \<and> nx t = first_or zs n"
  by auto

end
