(* ===== verification/Kernel_Abstraction.thy ===== *)
theory Kernel_Abstraction
  imports Linked_Lists
begin

text \<open>
  The abstract kernel state: the kernel state with every queue link blanked (\<open>kern\<close>), and the queues
  as lists of tasks. \<open>kernel_rel s a\<close> says that the pointers of \<open>s\<close> represent the lists of \<open>a\<close> and that
  no task is in two ready or wait queues. The scheduler's functions are proved to implement simple
  list functions on \<open>a\<close>; the invariants of the kernel are stated and proved on \<open>a\<close>.
\<close>

record astate =
  kern :: kstate
  waitq :: "queue_ref \<Rightarrow> addr list"
  timeoutq :: "addr list"

definition blank_tcb :: "os_tcb_t \<Rightarrow> os_tcb_t" where
  "blank_tcb t = t\<lparr>tcb_next := NULL, tcb_prev := NULL,
     tcb_timeout_next := NULL, tcb_timeout_prev := NULL\<rparr>"

definition emptyq :: os_task_queue_t where
  "emptyq = \<lparr>q_head = NULL, q_tail = NULL\<rparr>"

text \<open>The link-free part of a kernel state.\<close>

definition core :: "kstate \<Rightarrow> kstate" where
  "core s = s\<lparr>g_priorities := \<lambda>_. emptyq, g_timeout_queue := emptyq, g_sleep_queue := emptyq,
     tcbs := (\<lambda>p. map_option blank_tcb (tcbs s p)),
     mutexes := (\<lambda>m. map_option (\<lambda>x. x\<lparr>mtx_waiters := emptyq\<rparr>) (mutexes s m)),
     sems := (\<lambda>m. map_option (\<lambda>x. x\<lparr>sem_waiters := emptyq\<rparr>) (sems s m))\<rparr>"

definition queue_rel :: "kstate \<Rightarrow> (queue_ref \<Rightarrow> addr list) \<Rightarrow> bool" where
  "queue_rel s Q \<longleftrightarrow>
     (\<forall>q d. get_queue s q = Some d \<longrightarrow> dlist tcb_next tcb_prev (tcb_at s) d (Q q)) \<and>
     (\<forall>q. get_queue s q = None \<longrightarrow> Q q = []) \<and>
     (\<forall>q q'. q \<noteq> q' \<longrightarrow> set (Q q) \<inter> set (Q q') = {})"

definition timeout_rel :: "kstate \<Rightarrow> addr list \<Rightarrow> bool" where
  "timeout_rel s ts \<longleftrightarrow> dlist tcb_timeout_next tcb_timeout_prev (tcb_at s) (g_timeout_queue s) ts"

definition kernel_rel :: "kstate \<Rightarrow> astate \<Rightarrow> bool" where
  "kernel_rel s a \<longleftrightarrow> kern a = core s \<and> queue_rel s (waitq a) \<and> timeout_rel s (timeoutq a)"

subsection \<open>The link-free part after a write\<close>

lemma blank_tcb_links [core_simps]:
  "blank_tcb (t\<lparr>tcb_next := x\<rparr>) = blank_tcb t"
  "blank_tcb (t\<lparr>tcb_prev := x\<rparr>) = blank_tcb t"
  "blank_tcb (t\<lparr>tcb_timeout_next := x\<rparr>) = blank_tcb t"
  "blank_tcb (t\<lparr>tcb_timeout_prev := x\<rparr>) = blank_tcb t"
  by (simp_all add: blank_tcb_def)

lemma blank_tcb_fields [simp]:
  "tcb_sp (blank_tcb t) = tcb_sp t"
  "tcb_base_priority (blank_tcb t) = tcb_base_priority t"
  "tcb_priority (blank_tcb t) = tcb_priority t"
  "tcb_state (blank_tcb t) = tcb_state t"
  "tcb_wait_queue (blank_tcb t) = tcb_wait_queue t"
  "tcb_owned_mutexes (blank_tcb t) = tcb_owned_mutexes t"
  "tcb_blocked_on (blank_tcb t) = tcb_blocked_on t"
  "tcb_wake_tick (blank_tcb t) = tcb_wake_tick t"
  "tcb_wait_result (blank_tcb t) = tcb_wait_result t"
  by (simp_all add: blank_tcb_def)

lemma blank_tcb_idem [simp]: "blank_tcb (blank_tcb t) = blank_tcb t"
  by (simp add: blank_tcb_def)

lemma core_put_queue [core_simps]: "core (put_queue q v s) = core s"
  by (cases q) (auto simp: core_def put_queue.simps fun_eq_iff option.map_comp o_def intro!: kstate.equality)

lemma core_put_tcb [core_simps]: "core (put_tcb p t s) = put_tcb p (blank_tcb t) (core s)"
  by (simp add: core_def put_tcb_def fun_eq_iff)

lemma put_tcb_core_same:
  "tcb_at s p = Some t \<Longrightarrow> put_tcb p (blank_tcb t) (core s) = core s"
  by (auto simp: put_tcb_def core_def tcb_at_def fun_eq_iff split: if_splits intro!: kstate.equality)

lemma tcb_at_core: "tcb_at (core s) p = map_option blank_tcb (tcb_at s p)"
  by (simp add: tcb_at_def core_def)

lemma mutex_at_core:
  "mutex_at (core s) m = map_option (\<lambda>x. x\<lparr>mtx_waiters := emptyq\<rparr>) (mutex_at s m)"
  by (simp add: mutex_at_def core_def)

lemma sem_at_core:
  "sem_at (core s) m = map_option (\<lambda>x. x\<lparr>sem_waiters := emptyq\<rparr>) (sem_at s m)"
  by (simp add: sem_at_def core_def)

lemma get_queue_core: "get_queue (core s) q = map_option (\<lambda>_. emptyq) (get_queue s q)"
  by (cases q) (simp_all add: core_def get_queue.simps mutex_at_def sem_at_def option.map_comp o_def)

lemma core_idem [simp]: "core (core s) = core s"
  by (auto simp: core_def option.map_comp o_def fun_eq_iff intro!: kstate.equality)

lemma core_put_tcb_links:
  "tcb_at s p = Some t \<Longrightarrow> blank_tcb t' = blank_tcb t \<Longrightarrow> core (put_tcb p t' s) = core s"
  by (simp add: core_put_tcb put_tcb_core_same)

subsection \<open>Valid tasks and queues\<close>

definition valid_task :: "astate \<Rightarrow> addr \<Rightarrow> bool" where
  "valid_task a t \<longleftrightarrow> tcb_at (kern a) t \<noteq> None"

definition valid_queue :: "astate \<Rightarrow> queue_ref \<Rightarrow> bool" where
  "valid_queue a q \<longleftrightarrow> get_queue (kern a) q \<noteq> None"

lemma valid_queue_fixed [simp]:
  "valid_queue a SleepQ" "valid_queue a (ReadyQ p) \<longleftrightarrow> p < NUM_PRIORITIES"
  by (simp_all add: valid_queue_def get_queue.simps)

lemma kernel_rel_valid_task: "kernel_rel s a \<Longrightarrow> valid_task a t \<longleftrightarrow> (\<exists>c. tcb_at s t = Some c)"
  by (auto simp: kernel_rel_def valid_task_def tcb_at_core)

lemma kernel_rel_valid_queue: "kernel_rel s a \<Longrightarrow> valid_queue a q \<longleftrightarrow> (\<exists>d. get_queue s q = Some d)"
  by (auto simp: kernel_rel_def valid_queue_def get_queue_core)

lemma kernel_rel_tcb:
  "kernel_rel s a \<Longrightarrow> tcb_at s t = Some c \<Longrightarrow> tcb_at (kern a) t = Some (blank_tcb c)"
  by (simp add: kernel_rel_def tcb_at_core)

lemma kernel_rel_queue:
  "kernel_rel s a \<Longrightarrow> get_queue s q = Some d \<Longrightarrow> dlist tcb_next tcb_prev (tcb_at s) d (waitq a q)"
  by (simp add: kernel_rel_def queue_rel_def)

lemma kernel_rel_disjoint:
  "kernel_rel s a \<Longrightarrow> q \<noteq> q' \<Longrightarrow> set (waitq a q) \<inter> set (waitq a q') = {}"
  by (simp add: kernel_rel_def queue_rel_def)

subsection \<open>Updating the representation of one queue\<close>

text \<open>A write that only touches \<open>next\<close>/\<open>prev\<close> links and queue headers.\<close>

definition timeout_links :: "os_tcb_t \<Rightarrow> addr \<times> addr" where
  "timeout_links t = (tcb_timeout_next t, tcb_timeout_prev t)"

definition wait_links :: "os_tcb_t \<Rightarrow> addr \<times> addr" where
  "wait_links t = (tcb_next t, tcb_prev t)"

lemma timeout_rel_cong:
  assumes "g_timeout_queue s' = g_timeout_queue s"
    and "\<And>x. map_option timeout_links (tcb_at s' x) = map_option timeout_links (tcb_at s x)"
  shows "timeout_rel s' ts = timeout_rel s ts"
proof -
  have "map_option tcb_timeout_next (tcb_at s' x) = map_option tcb_timeout_next (tcb_at s x)"
    and "map_option tcb_timeout_prev (tcb_at s' x) = map_option tcb_timeout_prev (tcb_at s x)" for x
    using assms(2) [of x] by (cases "tcb_at s x"; cases "tcb_at s' x"; simp add: timeout_links_def)+
  then show ?thesis
    unfolding timeout_rel_def dlist_def assms(1) by (simp cong: dpath_cong)
qed

lemma queue_rel_cong:
  assumes "get_queue s' = get_queue s"
    and "\<And>x. map_option wait_links (tcb_at s' x) = map_option wait_links (tcb_at s x)"
  shows "queue_rel s' Q = queue_rel s Q"
proof -
  have "map_option tcb_next (tcb_at s' x) = map_option tcb_next (tcb_at s x)"
    and "map_option tcb_prev (tcb_at s' x) = map_option tcb_prev (tcb_at s x)" for x
    using assms(2) [of x] by (cases "tcb_at s x"; cases "tcb_at s' x"; simp add: wait_links_def)+
  then show ?thesis
    unfolding queue_rel_def dlist_def assms(1) by (simp cong: dpath_cong)
qed

lemma queue_rel_update:
  assumes R: "queue_rel s Q" and q: "get_queue s q = Some d"
    and q': "get_queue s' = (get_queue s)(q \<mapsto> d')"
    and l: "dlist tcb_next tcb_prev (tcb_at s') d' ys"
    and out: "\<And>x. x \<notin> set (Q q) \<Longrightarrow> x \<notin> set ys \<Longrightarrow> tcb_at s' x = tcb_at s x"
    and disj: "\<And>r. r \<noteq> q \<Longrightarrow> set ys \<inter> set (Q r) = {}"
  shows "queue_rel s' (Q(q := ys))"
  unfolding queue_rel_def
proof (intro conjI allI impI)
  fix r e
  assume r: "get_queue s' r = Some e"
  show "dlist tcb_next tcb_prev (tcb_at s') e ((Q(q := ys)) r)"
  proof (cases "r = q")
    case True
    with r q' l show ?thesis by simp
  next
    case False
    with r q' have "get_queue s r = Some e" by simp
    with R have "dlist tcb_next tcb_prev (tcb_at s) e (Q r)" by (simp add: queue_rel_def)
    moreover have "set (Q r) \<inter> set (Q q) = {}"
      using R False by (simp add: queue_rel_def)
    then have "tcb_at s' x = tcb_at s x" if "x \<in> set (Q r)" for x
      using that disj [OF False] by (intro out) blast+
    ultimately have "dlist tcb_next tcb_prev (tcb_at s') e (Q r)"
      unfolding dlist_def by (simp cong: dpath_cong)
    with False show ?thesis by simp
  qed
next
  fix r
  assume "get_queue s' r = None"
  with q' R show "(Q(q := ys)) r = []"
    by (auto simp: queue_rel_def split: if_splits)
next
  fix r r' :: queue_ref
  assume "r \<noteq> r'"
  with R disj show "set ((Q(q := ys)) r) \<inter> set ((Q(q := ys)) r') = {}"
    by (auto simp: queue_rel_def)
qed

end
