(* ===== verification/Task_Queue.thy ===== *)
theory Task_Queue
  imports Kernel_Abstraction
begin

text \<open>
  The generic task queue functions of \<open>kernel/scheduler.c\<close>. Each is translated statement by statement
  over the store of TCBs; a refinement lemma then shows that it implements a list operation:
  \<open>add\<close> appends, \<open>remove\<close> deletes the task, \<open>pop_head\<close> takes the first task and
  \<open>insert_by_priority\<close> inserts behind every task of the same or a more urgent priority.
\<close>

subsection \<open>Model\<close>

definition os_task_queue_init :: "queue_ref option \<Rightarrow> kstate \<Rightarrow> kstate option" where
  "os_task_queue_init queue s = (case queue of
     None \<Rightarrow> Some s
   | Some q \<Rightarrow> do { s \<leftarrow> set_head q NULL s; set_tail q NULL s })"

definition os_task_queue_peek_head :: "queue_ref option \<Rightarrow> kstate \<Rightarrow> addr option" where
  "os_task_queue_peek_head queue s = (case queue of
     None \<Rightarrow> None
   | Some q \<Rightarrow> do {
       d \<leftarrow> get_queue s q;
       if q_head d \<noteq> NULL then Some (q_head d) else Some NULL
     })"

definition os_task_queue_add :: "queue_ref option \<Rightarrow> addr \<Rightarrow> kstate \<Rightarrow> kstate option" where
  "os_task_queue_add queue tcb s = (case queue of
     None \<Rightarrow> Some s
   | Some q \<Rightarrow> if tcb = NULL then Some s else do {
       s \<leftarrow> upd_tcb tcb (\<lambda>t. t\<lparr>tcb_next := NULL\<rparr>) s;
       d \<leftarrow> get_queue s q;
       s \<leftarrow> upd_tcb tcb (\<lambda>t. t\<lparr>tcb_prev := q_tail d\<rparr>) s;
       s \<leftarrow> (if q_tail d \<noteq> NULL then upd_tcb (q_tail d) (\<lambda>t. t\<lparr>tcb_next := tcb\<rparr>) s
             else set_head q tcb s);
       set_tail q tcb s
     })"

definition os_task_queue_remove :: "queue_ref option \<Rightarrow> addr \<Rightarrow> kstate \<Rightarrow> kstate option" where
  "os_task_queue_remove queue tcb s = (case queue of
     None \<Rightarrow> Some s
   | Some q \<Rightarrow> if tcb = NULL then Some s else do {
       t \<leftarrow> tcb_at s tcb;
       s \<leftarrow> (if tcb_prev t \<noteq> NULL then upd_tcb (tcb_prev t) (\<lambda>u. u\<lparr>tcb_next := tcb_next t\<rparr>) s
             else set_head q (tcb_next t) s);
       t \<leftarrow> tcb_at s tcb;
       s \<leftarrow> (if tcb_next t \<noteq> NULL then upd_tcb (tcb_next t) (\<lambda>u. u\<lparr>tcb_prev := tcb_prev t\<rparr>) s
             else set_tail q (tcb_prev t) s);
       upd_tcb tcb (\<lambda>u. u\<lparr>tcb_next := NULL, tcb_prev := NULL\<rparr>) s
     })"

definition os_task_queue_pop_head :: "queue_ref option \<Rightarrow> kstate \<Rightarrow> (addr \<times> kstate) option" where
  "os_task_queue_pop_head queue s = (case queue of
     None \<Rightarrow> None
   | Some q \<Rightarrow> do {
       d \<leftarrow> get_queue s q;
       if q_head d \<noteq> NULL then do {
         s' \<leftarrow> os_task_queue_remove queue (q_head d) s;
         Some (q_head d, s')
       } else Some (NULL, s)
     })"

text \<open>The loop of \<open>os_task_queue_insert_by_priority\<close>: the first task of a less urgent priority.\<close>

partial_function (option) insert_iter :: "kstate \<Rightarrow> os_task_priority_t \<Rightarrow> addr \<Rightarrow> addr option" where
  "insert_iter s pr iter =
     (if iter = NULL then Some NULL
      else do {
        t \<leftarrow> tcb_at s iter;
        if tcb_priority t \<le> pr then insert_iter s pr (tcb_next t) else Some iter
      })"

declare insert_iter.simps [code]

definition os_task_queue_insert_by_priority ::
    "queue_ref option \<Rightarrow> addr \<Rightarrow> kstate \<Rightarrow> kstate option" where
  "os_task_queue_insert_by_priority queue tcb s = (case queue of
     None \<Rightarrow> Some s
   | Some q \<Rightarrow> if tcb = NULL then Some s else do {
       s \<leftarrow> upd_tcb tcb (\<lambda>t. t\<lparr>tcb_next := NULL, tcb_prev := NULL\<rparr>) s;
       d \<leftarrow> get_queue s q;
       if q_head d = NULL then do { s \<leftarrow> set_head q tcb s; set_tail q tcb s }
       else do {
         t \<leftarrow> tcb_at s tcb;
         iter \<leftarrow> insert_iter s (tcb_priority t) (q_head d);
         if iter = NULL then do {
           s \<leftarrow> upd_tcb tcb (\<lambda>t. t\<lparr>tcb_prev := q_tail d\<rparr>) s;
           s \<leftarrow> upd_tcb (q_tail d) (\<lambda>t. t\<lparr>tcb_next := tcb\<rparr>) s;
           set_tail q tcb s
         } else do {
           s \<leftarrow> upd_tcb tcb (\<lambda>t. t\<lparr>tcb_next := iter\<rparr>) s;
           i \<leftarrow> tcb_at s iter;
           s \<leftarrow> upd_tcb tcb (\<lambda>t. t\<lparr>tcb_prev := tcb_prev i\<rparr>) s;
           s \<leftarrow> (if tcb_prev i \<noteq> NULL then upd_tcb (tcb_prev i) (\<lambda>t. t\<lparr>tcb_next := tcb\<rparr>) s
                 else set_head q tcb s);
           upd_tcb iter (\<lambda>t. t\<lparr>tcb_prev := tcb\<rparr>) s
         }
       }
     })"

subsection \<open>List operations\<close>

definition a_set_queue :: "queue_ref \<Rightarrow> addr list \<Rightarrow> astate \<Rightarrow> astate" where
  "a_set_queue q ys a = a\<lparr>waitq := (waitq a)(q := ys)\<rparr>"

definition a_add :: "queue_ref \<Rightarrow> addr \<Rightarrow> astate \<Rightarrow> astate" where
  "a_add q t a = a_set_queue q (waitq a q @ [t]) a"

definition a_remove :: "queue_ref \<Rightarrow> addr \<Rightarrow> astate \<Rightarrow> astate" where
  "a_remove q t a = a_set_queue q (remove1 t (waitq a q)) a"

text \<open>The priority of a task; only used for valid tasks.\<close>

definition task_prio :: "kstate \<Rightarrow> addr \<Rightarrow> os_task_priority_t" where
  "task_prio s t = (case tcb_at s t of None \<Rightarrow> 0 | Some c \<Rightarrow> tcb_priority c)"

abbreviation a_prio :: "astate \<Rightarrow> addr \<Rightarrow> os_task_priority_t" where
  "a_prio a \<equiv> task_prio (kern a)"

definition insert_prio :: "('a \<Rightarrow> nat) \<Rightarrow> 'a \<Rightarrow> 'a list \<Rightarrow> 'a list" where
  "insert_prio f t xs = takeWhile (\<lambda>x. f x \<le> f t) xs @ t # dropWhile (\<lambda>x. f x \<le> f t) xs"

definition a_insert_by_priority :: "queue_ref \<Rightarrow> addr \<Rightarrow> astate \<Rightarrow> astate" where
  "a_insert_by_priority q t a = a_set_queue q (insert_prio (a_prio a) t (waitq a q)) a"

subsection \<open>Refinement\<close>

lemma kernel_rel_set_queue:
  assumes R: "kernel_rel s a" and q: "get_queue s q = Some d"
    and q': "get_queue s' q \<noteq> None" and qo: "\<And>r. r \<noteq> q \<Longrightarrow> get_queue s' r = get_queue s r"
    and l: "dlist tcb_next tcb_prev (tcb_at s') (the (get_queue s' q)) ys"
    and out: "\<And>x. x \<notin> set (waitq a q) \<Longrightarrow> x \<notin> set ys \<Longrightarrow> tcb_at s' x = tcb_at s x"
    and ys: "set ys \<subseteq> set (waitq a q) \<union> {t. \<forall>r. t \<notin> set (waitq a r)}"
    and core: "core s' = core s" and tq: "g_timeout_queue s' = g_timeout_queue s"
    and tl: "\<And>x. map_option timeout_links (tcb_at s' x) = map_option timeout_links (tcb_at s x)"
  shows "kernel_rel s' (a_set_queue q ys a)"
proof -
  have disj: "set ys \<inter> set (waitq a r) = {}" if "r \<noteq> q" for r
    using ys kernel_rel_disjoint [OF R that] by blast
  from R have "queue_rel s (waitq a)" by (simp add: kernel_rel_def)
  moreover have "get_queue s' = (get_queue s)(q \<mapsto> the (get_queue s' q))"
    using q' qo by auto
  ultimately have "queue_rel s' ((waitq a)(q := ys))"
    using q l out disj by (intro queue_rel_update)
  moreover have "timeout_rel s' (timeoutq a) = timeout_rel s (timeoutq a)"
    using tq tl by (rule timeout_rel_cong)
  ultimately show ?thesis
    using R core by (simp add: kernel_rel_def a_set_queue_def)
qed

lemma os_task_queue_add_refines [refine_intros]:
  assumes R: "kernel_rel s a" and vq: "valid_queue a q" and vt: "valid_task a t"
    and fresh: "\<And>r. t \<notin> set (waitq a r)"
  shows "\<exists>s'. os_task_queue_add (Some q) t s = Some s' \<and> kernel_rel s' (a_add q t a)"
proof -
  from R vq obtain d where d: "get_queue s q = Some d" by (auto simp: kernel_rel_valid_queue)
  from R vt obtain c where c: "tcb_at s t = Some c" by (auto simp: kernel_rel_valid_task)
  note nn = tcb_at_nonnull [OF c]
  from R d have l: "dlist tcb_next tcb_prev (tcb_at s) d (waitq a q)" by (rule kernel_rel_queue)
  show ?thesis
  proof (cases "waitq a q" rule: rev_cases)
    case Nil
    with l have "q_tail d = NULL" by (simp add: dlist_def)
    with c d nn show ?thesis
      by (simp add: os_task_queue_add_def a_add_def kstate_simps)
        (rule kernel_rel_set_queue [OF R d];
          simp add: kstate_simps Nil dlist_def fresh core_simps put_tcb_core_same timeout_links_def)
  next
    case (snoc ys y)
    with l obtain e where e: "tcb_at s y = Some e" and y: "y \<noteq> NULL" "q_tail d = y" by (auto simp: dlist_def)
    from fresh [of q] snoc have "t \<noteq> y" "t \<notin> set ys" by auto
    with c d nn e y l [unfolded snoc dlist_def] show ?thesis
      by (simp add: os_task_queue_add_def a_add_def kstate_simps)
        (rule kernel_rel_set_queue [OF R d];
          auto simp: kstate_simps snoc dlist_def fresh core_simps put_tcb_core_same timeout_links_def)
  qed
qed

lemma os_task_queue_remove_refines [refine_intros]:
  assumes R: "kernel_rel s a" and mem: "t \<in> set (waitq a q)"
  shows "\<exists>s'. os_task_queue_remove (Some q) t s = Some s' \<and> kernel_rel s' (a_remove q t a)"
proof -
  from R mem obtain d where d: "get_queue s q = Some d"
    by (cases "get_queue s q") (auto simp: kernel_rel_def queue_rel_def)
  from R d have l: "dlist tcb_next tcb_prev (tcb_at s) d (waitq a q)" by (rule kernel_rel_queue)
  then have "distinct (waitq a q)" by (rule dlist_distinct)
  from split_list_mem [OF mem this] obtain ys zs where
    w: "waitq a q = ys @ t # zs" and out: "t \<notin> set ys" "t \<notin> set zs" and r: "remove1 t (waitq a q) = ys @ zs"
    by blast
  from l [unfolded w dlist_def] obtain c where c: "tcb_at s t = Some c" "t \<noteq> NULL"
    and pv: "tcb_prev c = last_or NULL ys" and nx: "tcb_next c = first_or zs NULL" by auto
  show ?thesis
    using l [unfolded w dlist_def] c d pv nx out
    by (cases ys rule: rev_cases; cases zs;
        clarsimp simp: os_task_queue_remove_def a_remove_def kstate_simps r)
      (rule kernel_rel_set_queue [OF R d];
        auto simp: kstate_simps w dlist_def core_simps put_tcb_core_same timeout_links_def)+
qed

lemma os_task_queue_peek_head_refines:
  assumes R: "kernel_rel s a" and vq: "valid_queue a q"
  shows "os_task_queue_peek_head (Some q) s = Some (first_or (waitq a q) NULL)"
proof -
  from R vq obtain d where d: "get_queue s q = Some d" by (auto simp: kernel_rel_valid_queue)
  with kernel_rel_queue [OF R d] show ?thesis
    by (simp add: os_task_queue_peek_head_def dlist_head)
qed

lemma os_task_queue_pop_head_Nil:
  assumes R: "kernel_rel s a" and vq: "valid_queue a q" and e: "waitq a q = []"
  shows "os_task_queue_pop_head (Some q) s = Some (NULL, s)"
proof -
  from R vq obtain d where d: "get_queue s q = Some d" by (auto simp: kernel_rel_valid_queue)
  with kernel_rel_queue [OF R d] e show ?thesis
    by (simp add: os_task_queue_pop_head_def dlist_head)
qed

lemma os_task_queue_pop_head_Cons:
  assumes R: "kernel_rel s a" and e: "waitq a q = t # ts"
  shows "\<exists>s'. os_task_queue_pop_head (Some q) s = Some (t, s') \<and> kernel_rel s' (a_set_queue q ts a)"
proof -
  from R e obtain d where d: "get_queue s q = Some d"
    by (cases "get_queue s q") (auto simp: kernel_rel_def queue_rel_def)
  from kernel_rel_queue [OF R d] e have h: "q_head d = t" "t \<noteq> NULL"
    by (auto simp: dlist_def)
  from os_task_queue_remove_refines [OF R, of t q] e obtain s' where
    "os_task_queue_remove (Some q) t s = Some s'" "kernel_rel s' (a_remove q t a)" by auto
  with d h e show ?thesis
    by (simp add: os_task_queue_pop_head_def a_remove_def)
qed

subsection \<open>Insertion by priority\<close>

text \<open>The loop stops, and at the first task that is less urgent.\<close>

lemma insert_iter_dpath:
  assumes "dpath tcb_next pv (tcb_at s) p xs NULL"
  shows "insert_iter s pr (first_or xs NULL) =
     Some (first_or (dropWhile (\<lambda>x. task_prio s x \<le> pr) xs) NULL)"
  using assms
proof (induction xs arbitrary: p)
  case Nil
  show ?case by (simp add: insert_iter.simps)
next
  case (Cons x xs)
  then show ?case
    by (auto simp: insert_iter.simps [of s pr x] task_prio_def)
qed

lemma kernel_rel_task_prio: "kernel_rel s a \<Longrightarrow> task_prio s = a_prio a"
  by (auto simp: kernel_rel_def task_prio_def tcb_at_core split: option.splits)

lemma task_prio_put_tcb [kstate_simps]:
  "p \<noteq> NULL \<Longrightarrow> task_prio (put_tcb p t s) = (task_prio s)(p := tcb_priority t)"
  by (auto simp: task_prio_def kstate_simps)

lemma insert_iter_position:
  assumes R: "kernel_rel s a" and d: "get_queue s q = Some d" and c: "tcb_at s t = Some c" and fresh: "t \<notin> set (waitq a q)"
  shows "insert_iter (put_tcb t (c\<lparr>tcb_next := NULL, tcb_prev := NULL\<rparr>) s) (tcb_priority c) (q_head d) =
     Some (first_or (dropWhile (\<lambda>x. a_prio a x \<le> a_prio a t) (waitq a q)) NULL)" (is "insert_iter ?s _ _ = _")
proof -
  note nn = tcb_at_nonnull [OF c]
  from R d have l: "dlist tcb_next tcb_prev (tcb_at s) d (waitq a q)" by (rule kernel_rel_queue)
  have pr: "a_prio a t = tcb_priority c"
    using c by (simp add: kernel_rel_task_prio [OF R, symmetric] task_prio_def)
  have hd: "q_head d = first_or (waitq a q) NULL" using l by (rule dlist_head)
  have "dpath tcb_next tcb_prev (tcb_at ?s) NULL (waitq a q) NULL"
    using l fresh nn by (simp add: dlist_def kstate_simps)
  then have "insert_iter ?s (tcb_priority c) (q_head d) =
      Some (first_or (dropWhile (\<lambda>x. task_prio ?s x \<le> tcb_priority c) (waitq a q)) NULL)"
    unfolding hd by (rule insert_iter_dpath)
  also have "task_prio ?s = a_prio a"
    using nn pr by (simp add: kstate_simps kernel_rel_task_prio [OF R] fun_eq_iff)
  finally show ?thesis by (simp add: pr)
qed

text \<open>The links the routine writes put the task between the two parts the loop separates, at either end or in the
  middle.\<close>

lemma insert_at_position:
  assumes R: "kernel_rel s a" and d: "get_queue s q = Some d" and c: "tcb_at s t = Some c" and fresh: "\<And>r. t \<notin> set (waitq a r)"
    and it: "insert_iter (put_tcb t (c\<lparr>tcb_next := NULL, tcb_prev := NULL\<rparr>) s) (tcb_priority c) (q_head d) = Some (first_or zs NULL)"
    and w: "waitq a q = ys @ zs" and ne: "waitq a q \<noteq> []"
  shows "\<exists>s'. os_task_queue_insert_by_priority (Some q) t s = Some s' \<and> kernel_rel s' (a_set_queue q (ys @ t # zs) a)"
proof -
  note nn = tcb_at_nonnull [OF c]
  from R d have l: "dlist tcb_next tcb_prev (tcb_at s) d (waitq a q)" by (rule kernel_rel_queue)
  from fresh [of q] w have out: "t \<notin> set ys" "t \<notin> set zs" by auto
  from dlist_head_NULL [OF l] ne have h: "q_head d \<noteq> NULL" by simp
  note facts = l [unfolded w dlist_def] c d nn out it h
  note writes = kstate_simps w dlist_def fresh core_simps put_tcb_core_same timeout_links_def
  show ?thesis
  proof (cases zs)
    case Nil
    with ne w obtain us y where us: "ys = us @ [y]" by (cases ys rule: rev_cases) auto
    with facts Nil obtain e where e: "tcb_at s y = Some e" "y \<noteq> NULL" "t \<noteq> y" "q_tail d = y" by auto
    with facts us Nil show ?thesis
      by (simp add: os_task_queue_insert_by_priority_def kstate_simps) (rule kernel_rel_set_queue [OF R d]; auto simp: writes)
  next
    case (Cons z zs')
    with facts obtain e where e: "tcb_at s z = Some e" "z \<noteq> NULL" "t \<noteq> z" "tcb_prev e = last_or NULL ys" by auto
    show ?thesis
    proof (cases ys rule: rev_cases)
      case Nil
      with facts e Cons show ?thesis
        by (simp add: os_task_queue_insert_by_priority_def kstate_simps) (rule kernel_rel_set_queue [OF R d]; auto simp: writes)
    next
      case (snoc us y)
      with facts Cons obtain f where f: "tcb_at s y = Some f" "y \<noteq> NULL" "t \<noteq> y" "y \<noteq> z" by auto
      with facts e Cons snoc show ?thesis
        by (simp add: os_task_queue_insert_by_priority_def kstate_simps) (rule kernel_rel_set_queue [OF R d]; auto simp: writes)
    qed
  qed
qed

lemma os_task_queue_insert_by_priority_refines [refine_intros]:
  assumes R: "kernel_rel s a" and vq: "valid_queue a q" and vt: "valid_task a t"
    and fresh: "\<And>r. t \<notin> set (waitq a r)"
  shows "\<exists>s'. os_task_queue_insert_by_priority (Some q) t s = Some s' \<and>
     kernel_rel s' (a_insert_by_priority q t a)"
proof -
  from R vq obtain d where d: "get_queue s q = Some d" by (auto simp: kernel_rel_valid_queue)
  from R vt obtain c where c: "tcb_at s t = Some c" by (auto simp: kernel_rel_valid_task)
  note nn = tcb_at_nonnull [OF c]
  from R d have l: "dlist tcb_next tcb_prev (tcb_at s) d (waitq a q)" by (rule kernel_rel_queue)
  show ?thesis
  proof (cases "waitq a q = []")
    case True
    with l c d nn show ?thesis
      by (simp add: a_insert_by_priority_def insert_prio_def os_task_queue_insert_by_priority_def kstate_simps dlist_def)
        (rule kernel_rel_set_queue [OF R d];
          simp add: kstate_simps dlist_def fresh core_simps put_tcb_core_same timeout_links_def)
  next
    case False
    from insert_at_position [OF R d c fresh insert_iter_position [OF R d c fresh] _ False]
    show ?thesis by (simp add: a_insert_by_priority_def insert_prio_def)
  qed
qed

subsection \<open>Order of insertion\<close>

lemma set_insert_prio [simp]: "set (insert_prio f t xs) = insert t (set xs)"
  using set_takeWhile_dropWhile [of "\<lambda>x. f x \<le> f t" xs] by (auto simp: insert_prio_def)

lemma distinct_insert_prio: "distinct xs \<Longrightarrow> t \<notin> set xs \<Longrightarrow> distinct (insert_prio f t xs)"
  using set_takeWhile_subset [of "\<lambda>x. f x \<le> f t" xs] set_dropWhile_subset [of "\<lambda>x. f x \<le> f t" xs]
    distinct_append [of "takeWhile (\<lambda>x. f x \<le> f t) xs" "dropWhile (\<lambda>x. f x \<le> f t) xs"]
  by (auto simp: insert_prio_def)

text \<open>First in, first out among tasks of equal priority.\<close>

lemma insert_prio_behind_equals:
  fixes f :: "'a \<Rightarrow> nat"
  assumes "sorted (map f xs)"
  shows "\<exists>ys zs. insert_prio f t xs = ys @ t # zs \<and> xs = ys @ zs \<and>
    (\<forall>x\<in>set ys. f x \<le> f t) \<and> (\<forall>x\<in>set zs. f t < f x)"
proof -
  let ?P = "\<lambda>x. f x \<le> f t"
  have "\<forall>x\<in>set (dropWhile ?P xs). f t < f x"
    using assms
  proof (induction xs)
    case (Cons x xs)
    then show ?case by (cases "f x \<le> f t") (auto intro: less_le_trans)
  qed simp
  moreover have "\<forall>x\<in>set (takeWhile ?P xs). f x \<le> f t"
    by (auto dest: set_takeWhileD)
  ultimately show ?thesis
    by (intro exI [of _ "takeWhile ?P xs"] exI [of _ "dropWhile ?P xs"]) (simp add: insert_prio_def)
qed

lemma sorted_insert_prio:
  fixes f :: "'a \<Rightarrow> nat"
  assumes "sorted (map f xs)"
  shows "sorted (map f (insert_prio f t xs))"
proof -
  from insert_prio_behind_equals [OF assms, of t] obtain ys zs where
    *: "insert_prio f t xs = ys @ t # zs" "xs = ys @ zs"
      "\<forall>x\<in>set ys. f x \<le> f t" "\<forall>x\<in>set zs. f t < f x" by blast
  with assms show ?thesis
    by (fastforce simp: sorted_append)
qed

end
