(* ===== verification/Timeout_Queue.thy ===== *)
theory Timeout_Queue
  imports Task_Queue
begin

text \<open>
  The timeout queue of \<open>kernel/scheduler.c\<close>: blocked tasks with a wake tick, kept in the order in which
  they are due. Ticks are 32-bit counters that wrap around; \<open>os_tick_reached\<close> compares two of them by
  the sign of their difference.
\<close>

subsection \<open>Model\<close>

definition os_tick_reached :: "u32 \<Rightarrow> u32 \<Rightarrow> bool" where
  "os_tick_reached now wake_tick \<longleftrightarrow> 0 \<le> sint (now - wake_tick)"

definition set_timeout_head :: "addr \<Rightarrow> kstate \<Rightarrow> kstate" where
  "set_timeout_head v s = s\<lparr>g_timeout_queue := (g_timeout_queue s)\<lparr>q_head := v\<rparr>\<rparr>"

definition set_timeout_tail :: "addr \<Rightarrow> kstate \<Rightarrow> kstate" where
  "set_timeout_tail v s = s\<lparr>g_timeout_queue := (g_timeout_queue s)\<lparr>q_tail := v\<rparr>\<rparr>"

text \<open>The loop of \<open>os_timeout_queue_insert_sorted\<close>.\<close>

partial_function (option) timeout_iter :: "kstate \<Rightarrow> u32 \<Rightarrow> addr \<Rightarrow> addr option" where
  "timeout_iter s wake iter =
     (if iter = NULL then Some NULL
      else do {
        t \<leftarrow> tcb_at s iter;
        if \<not> os_tick_reached (tcb_wake_tick t) wake then timeout_iter s wake (tcb_timeout_next t)
        else Some iter
      })"

declare timeout_iter.simps [code]

definition os_timeout_queue_insert_sorted :: "addr \<Rightarrow> kstate \<Rightarrow> kstate option" where
  "os_timeout_queue_insert_sorted tcb s =
     (if tcb = NULL then Some s else do {
       s \<leftarrow> upd_tcb tcb (\<lambda>t. t\<lparr>tcb_timeout_next := NULL, tcb_timeout_prev := NULL\<rparr>) s;
       if q_head (g_timeout_queue s) = NULL then Some (set_timeout_tail tcb (set_timeout_head tcb s))
       else do {
         t \<leftarrow> tcb_at s tcb;
         iter \<leftarrow> timeout_iter s (tcb_wake_tick t) (q_head (g_timeout_queue s));
         if iter = NULL then do {
           s \<leftarrow> upd_tcb tcb (\<lambda>t. t\<lparr>tcb_timeout_prev := q_tail (g_timeout_queue s)\<rparr>) s;
           s \<leftarrow> upd_tcb (q_tail (g_timeout_queue s)) (\<lambda>t. t\<lparr>tcb_timeout_next := tcb\<rparr>) s;
           Some (set_timeout_tail tcb s)
         } else do {
           s \<leftarrow> upd_tcb tcb (\<lambda>t. t\<lparr>tcb_timeout_next := iter\<rparr>) s;
           i \<leftarrow> tcb_at s iter;
           s \<leftarrow> upd_tcb tcb (\<lambda>t. t\<lparr>tcb_timeout_prev := tcb_timeout_prev i\<rparr>) s;
           s \<leftarrow> (if tcb_timeout_prev i \<noteq> NULL
                 then upd_tcb (tcb_timeout_prev i) (\<lambda>t. t\<lparr>tcb_timeout_next := tcb\<rparr>) s
                 else Some (set_timeout_head tcb s));
           upd_tcb iter (\<lambda>t. t\<lparr>tcb_timeout_prev := tcb\<rparr>) s
         }
       }
     })"

definition os_timeout_queue_remove :: "addr \<Rightarrow> kstate \<Rightarrow> kstate option" where
  "os_timeout_queue_remove tcb s =
     (if tcb = NULL then Some s else do {
       t \<leftarrow> tcb_at s tcb;
       s \<leftarrow> (if tcb_timeout_prev t \<noteq> NULL
             then upd_tcb (tcb_timeout_prev t) (\<lambda>u. u\<lparr>tcb_timeout_next := tcb_timeout_next t\<rparr>) s
             else if q_head (g_timeout_queue s) = tcb then Some (set_timeout_head (tcb_timeout_next t) s)
             else Some s);
       t \<leftarrow> tcb_at s tcb;
       s \<leftarrow> (if tcb_timeout_next t \<noteq> NULL
             then upd_tcb (tcb_timeout_next t) (\<lambda>u. u\<lparr>tcb_timeout_prev := tcb_timeout_prev t\<rparr>) s
             else if q_tail (g_timeout_queue s) = tcb then Some (set_timeout_tail (tcb_timeout_prev t) s)
             else Some s);
       upd_tcb tcb (\<lambda>u. u\<lparr>tcb_timeout_next := NULL, tcb_timeout_prev := NULL\<rparr>) s
     })"

subsection \<open>List operations\<close>

definition task_wake :: "kstate \<Rightarrow> addr \<Rightarrow> u32" where
  "task_wake s t = (case tcb_at s t of None \<Rightarrow> 0 | Some c \<Rightarrow> tcb_wake_tick c)"

abbreviation a_wake :: "astate \<Rightarrow> addr \<Rightarrow> u32" where
  "a_wake a \<equiv> task_wake (kern a)"

definition insert_wake :: "('a \<Rightarrow> u32) \<Rightarrow> 'a \<Rightarrow> 'a list \<Rightarrow> 'a list" where
  "insert_wake f t xs = takeWhile (\<lambda>x. \<not> os_tick_reached (f x) (f t)) xs @
     t # dropWhile (\<lambda>x. \<not> os_tick_reached (f x) (f t)) xs"

definition a_timeout_insert :: "addr \<Rightarrow> astate \<Rightarrow> astate" where
  "a_timeout_insert t a = a\<lparr>timeoutq := insert_wake (a_wake a) t (timeoutq a)\<rparr>"

definition a_timeout_remove :: "addr \<Rightarrow> astate \<Rightarrow> astate" where
  "a_timeout_remove t a = a\<lparr>timeoutq := remove1 t (timeoutq a)\<rparr>"

subsection \<open>Refinement\<close>

lemma set_timeout_frame [kstate_simps]:
  "tcb_at (set_timeout_head v s) = tcb_at s" "tcb_at (set_timeout_tail v s) = tcb_at s"
  "get_queue (set_timeout_head v s) = get_queue s" "get_queue (set_timeout_tail v s) = get_queue s"
  "g_timeout_queue (set_timeout_head v s) = (g_timeout_queue s)\<lparr>q_head := v\<rparr>"
  "g_timeout_queue (set_timeout_tail v s) = (g_timeout_queue s)\<lparr>q_tail := v\<rparr>"
  by (simp_all add: set_timeout_head_def set_timeout_tail_def kstate_simps)

lemma set_timeout_core [core_simps]:
  "core (set_timeout_head v s) = core s" "core (set_timeout_tail v s) = core s"
  by (simp_all add: set_timeout_head_def set_timeout_tail_def core_def)

lemma kernel_rel_set_timeoutq:
  assumes R: "kernel_rel s a" and q: "get_queue s' = get_queue s"
    and l: "dlist tcb_timeout_next tcb_timeout_prev (tcb_at s') (g_timeout_queue s') ys"
    and core: "core s' = core s"
    and wl: "\<And>x. map_option wait_links (tcb_at s' x) = map_option wait_links (tcb_at s x)"
  shows "kernel_rel s' (a\<lparr>timeoutq := ys\<rparr>)"
  using R l core queue_rel_cong [OF q wl] by (simp add: kernel_rel_def timeout_rel_def)

lemma kernel_rel_timeoutq:
  "kernel_rel s a \<Longrightarrow>
     dlist tcb_timeout_next tcb_timeout_prev (tcb_at s) (g_timeout_queue s) (timeoutq a)"
  by (simp add: kernel_rel_def timeout_rel_def)

lemmas timeout_write_simps =
  kstate_simps dlist_def core_simps put_tcb_core_same wait_links_def

lemma get_queue_put_tcb_fun [kstate_simps]: "get_queue (put_tcb p t s) = get_queue s"
  by (simp add: fun_eq_iff kstate_simps)

lemma os_timeout_queue_remove_refines [refine_intros]:
  assumes R: "kernel_rel s a" and mem: "t \<in> set (timeoutq a)"
  shows "\<exists>s'. os_timeout_queue_remove t s = Some s' \<and> kernel_rel s' (a_timeout_remove t a)"
proof -
  from R have l: "dlist tcb_timeout_next tcb_timeout_prev (tcb_at s) (g_timeout_queue s) (timeoutq a)"
    by (rule kernel_rel_timeoutq)
  then have "distinct (timeoutq a)" by (rule dlist_distinct)
  from split_list_mem [OF mem this] obtain ys zs where
    w: "timeoutq a = ys @ t # zs" and out: "t \<notin> set ys" "t \<notin> set zs" and r: "remove1 t (timeoutq a) = ys @ zs"
    by blast
  from l [unfolded w dlist_def] obtain c where c: "tcb_at s t = Some c" "t \<noteq> NULL"
    and pv: "tcb_timeout_prev c = last_or NULL ys" and nx: "tcb_timeout_next c = first_or zs NULL" by auto
  show ?thesis
    using l [unfolded w dlist_def] c pv nx out
    by (cases ys rule: rev_cases; cases zs;
        clarsimp simp: os_timeout_queue_remove_def a_timeout_remove_def kstate_simps r)
      (rule kernel_rel_set_timeoutq [OF R]; auto simp: timeout_write_simps)+
qed

lemma timeout_iter_dpath:
  assumes "dpath tcb_timeout_next pv (tcb_at s) p xs NULL"
  shows "timeout_iter s wake (first_or xs NULL) =
     Some (first_or (dropWhile (\<lambda>x. \<not> os_tick_reached (task_wake s x) wake) xs) NULL)"
  using assms
proof (induction xs arbitrary: p)
  case Nil
  show ?case by (simp add: timeout_iter.simps)
next
  case (Cons x xs)
  then show ?case
    by (auto simp: timeout_iter.simps [of s wake x] task_wake_def)
qed

lemma kernel_rel_task_wake: "kernel_rel s a \<Longrightarrow> task_wake s = a_wake a"
  by (auto simp: kernel_rel_def task_wake_def tcb_at_core split: option.splits)

lemma task_wake_put_tcb [kstate_simps]:
  "p \<noteq> NULL \<Longrightarrow> task_wake (put_tcb p t s) = (task_wake s)(p := tcb_wake_tick t)"
  by (auto simp: task_wake_def kstate_simps)

lemma timeout_iter_position:
  assumes R: "kernel_rel s a" and c: "tcb_at s t = Some c" and fresh: "t \<notin> set (timeoutq a)"
  shows "timeout_iter (put_tcb t (c\<lparr>tcb_timeout_next := NULL, tcb_timeout_prev := NULL\<rparr>) s) (tcb_wake_tick c)
      (q_head (g_timeout_queue s)) =
     Some (first_or (dropWhile (\<lambda>x. \<not> os_tick_reached (a_wake a x) (a_wake a t)) (timeoutq a)) NULL)" (is "timeout_iter ?s _ _ = _")
proof -
  let ?d = "g_timeout_queue s"
  note nn = tcb_at_nonnull [OF c]
  from R have l: "dlist tcb_timeout_next tcb_timeout_prev (tcb_at s) ?d (timeoutq a)"
    by (rule kernel_rel_timeoutq)
  have wk: "a_wake a t = tcb_wake_tick c"
    using c by (simp add: kernel_rel_task_wake [OF R, symmetric] task_wake_def)
  have hd: "q_head ?d = first_or (timeoutq a) NULL" using l by (rule dlist_head)
  have "dpath tcb_timeout_next tcb_timeout_prev (tcb_at ?s) NULL (timeoutq a) NULL"
    using l fresh nn by (simp add: dlist_def kstate_simps)
  then have "timeout_iter ?s (tcb_wake_tick c) (q_head ?d) =
      Some (first_or (dropWhile (\<lambda>x. \<not> os_tick_reached (task_wake ?s x) (tcb_wake_tick c)) (timeoutq a)) NULL)"
    unfolding hd by (rule timeout_iter_dpath)
  also have "task_wake ?s = a_wake a"
    using nn wk by (simp add: kstate_simps kernel_rel_task_wake [OF R] fun_eq_iff)
  finally show ?thesis by (simp add: wk)
qed

lemma timeout_insert_at_position:
  assumes R: "kernel_rel s a" and c: "tcb_at s t = Some c" and fresh: "t \<notin> set (timeoutq a)" and w: "timeoutq a = ys @ zs"
    and it: "timeout_iter (put_tcb t (c\<lparr>tcb_timeout_next := NULL, tcb_timeout_prev := NULL\<rparr>) s) (tcb_wake_tick c)
      (q_head (g_timeout_queue s)) = Some (first_or zs NULL)"
  shows "\<exists>s'. os_timeout_queue_insert_sorted t s = Some s' \<and> kernel_rel s' (a\<lparr>timeoutq := ys @ t # zs\<rparr>)"
proof -
  let ?d = "g_timeout_queue s"
  note nn = tcb_at_nonnull [OF c]
  from R have l: "dlist tcb_timeout_next tcb_timeout_prev (tcb_at s) ?d (timeoutq a)"
    by (rule kernel_rel_timeoutq)
  from fresh w have out: "t \<notin> set ys" "t \<notin> set zs" by auto
  note facts = l [unfolded w dlist_def] c nn out it
  note defs = os_timeout_queue_insert_sorted_def kstate_simps
  from dlist_head_NULL [OF l] w have h: "ys @ zs \<noteq> [] \<Longrightarrow> q_head ?d \<noteq> NULL" by simp
  show ?thesis
  proof (cases zs)
    case zs: Nil
    show ?thesis
    proof (cases ys rule: rev_cases)
      case Nil
      with facts zs show ?thesis
        by (simp add: defs) (rule kernel_rel_set_timeoutq [OF R]; auto simp: timeout_write_simps)
    next
      case (snoc us y)
      with facts zs obtain e where "tcb_at s y = Some e" "y \<noteq> NULL" "t \<noteq> y" "q_tail ?d = y" by auto
      with facts h snoc zs show ?thesis
        by (simp add: defs) (rule kernel_rel_set_timeoutq [OF R]; auto simp: timeout_write_simps)
    qed
  next
    case zs: (Cons z zs')
    with facts obtain e where e: "tcb_at s z = Some e" "z \<noteq> NULL" "t \<noteq> z" "tcb_timeout_prev e = last_or NULL ys" by auto
    show ?thesis
    proof (cases ys rule: rev_cases)
      case Nil
      with facts e zs h show ?thesis
        by (simp add: defs) (rule kernel_rel_set_timeoutq [OF R]; auto simp: timeout_write_simps)
    next
      case (snoc us y)
      with facts zs obtain f where "tcb_at s y = Some f" "y \<noteq> NULL" "t \<noteq> y" "y \<noteq> z" by auto
      with facts e zs h snoc show ?thesis
        by (simp add: defs) (rule kernel_rel_set_timeoutq [OF R]; auto simp: timeout_write_simps)
    qed
  qed
qed

lemma os_timeout_queue_insert_sorted_refines [refine_intros]:
  assumes R: "kernel_rel s a" and vt: "valid_task a t" and fresh: "t \<notin> set (timeoutq a)"
  shows "\<exists>s'. os_timeout_queue_insert_sorted t s = Some s' \<and> kernel_rel s' (a_timeout_insert t a)"
proof -
  from R vt obtain c where c: "tcb_at s t = Some c" by (auto simp: kernel_rel_valid_task)
  from timeout_insert_at_position [OF R c fresh _ timeout_iter_position [OF R c fresh]]
  show ?thesis by (simp add: a_timeout_insert_def insert_wake_def)
qed

subsection \<open>The order of due times\<close>

text \<open>The number of ticks from \<open>now\<close> until \<open>wake\<close>, counting through a wrap of the tick counter. The
  signed comparison orders wake ticks correctly as long as both are less than \<open>2 ^ 31\<close> ticks ahead.\<close>

definition ticks_until :: "u32 \<Rightarrow> u32 \<Rightarrow> nat" where
  "ticks_until now wake = unat (wake - now)"

lemma os_tick_reached_iff:
  assumes "ticks_until now x < 2 ^ 31" and "ticks_until now y < 2 ^ 31"
  shows "os_tick_reached x y \<longleftrightarrow> ticks_until now y \<le> ticks_until now x"
proof -
  let ?u = "x - now" and ?v = "y - now"
  have s: "sint ?u = int (ticks_until now x)" "sint ?v = int (ticks_until now y)"
    using assms by (simp_all add: sint_small ticks_until_def)
  have "sint (?u - ?v) = signed_take_bit 31 (sint ?u - sint ?v)"
    using sint_word_diff [of ?u ?v] by simp
  also have "\<dots> = sint ?u - sint ?v"
    using assms by (intro signed_take_bit_int_eq_self) (simp_all add: s)
  finally show ?thesis by (simp add: os_tick_reached_def s)
qed

lemma os_tick_reached_now:
  assumes "ticks_until now w < 2 ^ 31"
  shows "os_tick_reached now w \<longleftrightarrow> w = now"
proof -
  have "ticks_until now now = 0" by (simp add: ticks_until_def)
  with os_tick_reached_iff [of now now w] assms have "os_tick_reached now w \<longleftrightarrow> ticks_until now w = 0" by simp
  then show ?thesis by (simp add: ticks_until_def unat_eq_0)
qed

lemma ticks_until_add: "ticks_until now (now + d) = unat d"
  by (simp add: ticks_until_def)

lemma ticks_until_Suc:
  assumes "w \<noteq> now"
  shows "ticks_until (now + 1) w = ticks_until now w - 1"
proof -
  have "w - (now + 1) = (w - now) - 1" by simp
  moreover have "w - now \<noteq> 0" using assms by simp
  then have "unat ((w - now) - 1) = unat (w - now) - 1" by (rule unat_minus_one)
  ultimately show ?thesis by (simp only: ticks_until_def)
qed

end
