(* ===== verification/Scheduler.thy ===== *)
theory Scheduler
  imports Timeout_Queue
begin

text \<open>
  The rest of \<open>kernel/scheduler.c\<close>: ready queues, \<open>os_schedule\<close>, blocking and waking tasks, expiring
  timeouts, changing a priority and committing a context switch. The refinement lemmas show that each
  function, on a state whose pointers represent an abstract state, returns and implements the
  corresponding \<open>a_\<dots>\<close> function on lists.
\<close>

subsection \<open>Model\<close>

definition os_tick_get :: "kstate \<Rightarrow> u32" where
  "os_tick_get s = g_tick s"

definition os_ready_queue_rotate :: "addr \<Rightarrow> kstate \<Rightarrow> kstate option" where
  "os_ready_queue_rotate tcb s =
     (if tcb = NULL then Some s else do {
       t \<leftarrow> tcb_at s tcb;
       let q = ReadyQ (tcb_priority t);
       d \<leftarrow> get_queue s q;
       if q_head d \<noteq> tcb \<or> tcb_next t = NULL then Some s
       else do {
         s \<leftarrow> set_head q (tcb_next t) s;
         s \<leftarrow> upd_tcb (tcb_next t) (\<lambda>u. u\<lparr>tcb_prev := NULL\<rparr>) s;
         s \<leftarrow> upd_tcb tcb (\<lambda>u. u\<lparr>tcb_next := NULL\<rparr>) s;
         s \<leftarrow> upd_tcb tcb (\<lambda>u. u\<lparr>tcb_prev := q_tail d\<rparr>) s;
         s \<leftarrow> upd_tcb (q_tail d) (\<lambda>u. u\<lparr>tcb_next := tcb\<rparr>) s;
         set_tail q tcb s
       }
     })"

definition os_ready_queue_add :: "addr \<Rightarrow> kstate \<Rightarrow> kstate option" where
  "os_ready_queue_add tcb s = do {
     t \<leftarrow> tcb_at s tcb;
     os_task_queue_add (Some (ReadyQ (tcb_priority t))) tcb s
   }"

definition os_ready_queue_remove :: "addr \<Rightarrow> kstate \<Rightarrow> kstate option" where
  "os_ready_queue_remove tcb s = do {
     t \<leftarrow> tcb_at s tcb;
     os_task_queue_remove (Some (ReadyQ (tcb_priority t))) tcb s
   }"

text \<open>The loop of \<open>os_schedule\<close> from priority \<open>p\<close> on.\<close>

function schedule_loop :: "nat \<Rightarrow> kstate \<Rightarrow> kstate option" where
  "schedule_loop p s =
     (if p < NUM_PRIORITIES then do {
        h \<leftarrow> os_task_queue_peek_head (Some (ReadyQ p)) s;
        let s = s\<lparr>g_next := h\<rparr>;
        if h \<noteq> NULL then Some s else schedule_loop (Suc p) s
      } else Some (s\<lparr>g_next := NULL\<rparr>))"
  by pat_completeness auto
termination
  by (relation "measure (\<lambda>(p, s). NUM_PRIORITIES - p)") auto

declare schedule_loop.simps [simp del]

definition os_schedule :: "kstate \<Rightarrow> kstate option" where
  "os_schedule s = schedule_loop 0 s"

text \<open>The statement sequence \<open>os_schedule(); if (g_next != g_current) os_port_pendsv_trigger();\<close>, which
  closes every kernel function that may have made another task the one to run.\<close>

definition schedule_and_pend :: "kstate \<Rightarrow> kstate option" where
  "schedule_and_pend s = do {
     s \<leftarrow> os_schedule s;
     Some (if g_next s \<noteq> g_current s then os_port_pendsv_trigger s else s)
   }"

text \<open>The body of the loop of \<open>os_process_timeouts\<close>: taking an expired task out of the queues and making
  it ready.\<close>

definition set_expired :: "os_tcb_t \<Rightarrow> os_tcb_t" where
  "set_expired t = t\<lparr>tcb_wake_tick := OS_WAIT_FOREVER, tcb_wait_result := -1,
     tcb_state := OS_TASK_READY\<rparr>"

definition leave_wait_queue :: "addr \<Rightarrow> kstate \<Rightarrow> kstate option" where
  "leave_wait_queue tcb s = do {
     t \<leftarrow> tcb_at s tcb;
     if tcb_wait_queue t \<noteq> None then do {
       s \<leftarrow> os_task_queue_remove (tcb_wait_queue t) tcb s;
       upd_tcb tcb (\<lambda>u. u\<lparr>tcb_wait_queue := None\<rparr>) s
     } else Some s
   }"

definition expire_task :: "addr \<Rightarrow> kstate \<Rightarrow> kstate option" where
  "expire_task tcb s = do {
     s \<leftarrow> os_timeout_queue_remove tcb s;
     s \<leftarrow> leave_wait_queue tcb s;
     s \<leftarrow> upd_tcb tcb set_expired s;
     os_ready_queue_add tcb s
   }"

partial_function (option) timeouts_loop :: "u32 \<Rightarrow> addr \<Rightarrow> kstate \<Rightarrow> kstate option" where
  "timeouts_loop now tcb s =
     (if tcb = NULL then Some s
      else do {
        t \<leftarrow> tcb_at s tcb;
        if os_tick_reached now (tcb_wake_tick t) then do {
          let nxt = tcb_timeout_next t;
          s \<leftarrow> expire_task tcb s;
          timeouts_loop now nxt s
        } else Some s
      })"

declare timeouts_loop.simps [code]

definition os_process_timeouts :: "kstate \<Rightarrow> kstate option" where
  "os_process_timeouts s = do {
     let now = os_tick_get s;
     s \<leftarrow> timeouts_loop now (q_head (g_timeout_queue s)) s;
     schedule_and_pend s
   }"

text \<open>The parts of \<open>os_task_block_locked\<close>: the assignments to the blocked task, joining the wait queue in
  priority or arrival order, and entering the timeout queue when there is a timeout.\<close>

definition set_blocked :: "queue_ref option \<Rightarrow> os_tcb_t \<Rightarrow> os_tcb_t" where
  "set_blocked q t = t\<lparr>tcb_state := OS_TASK_BLOCKED, tcb_wait_queue := q,
     tcb_wake_tick := OS_WAIT_FOREVER, tcb_wait_result := 0\<rparr>"

definition join_wait_queue :: "queue_ref option \<Rightarrow> bool \<Rightarrow> addr \<Rightarrow> kstate \<Rightarrow> kstate option" where
  "join_wait_queue wait_queue priority_ordered tcb s =
     (if priority_ordered then os_task_queue_insert_by_priority wait_queue tcb s
      else os_task_queue_add wait_queue tcb s)"

definition arm_timeout :: "u32 \<Rightarrow> addr \<Rightarrow> kstate \<Rightarrow> kstate option" where
  "arm_timeout timeout_ticks tcb s =
     (if timeout_ticks \<noteq> OS_WAIT_FOREVER then do {
        let wake = os_tick_get s + timeout_ticks;
        s \<leftarrow> upd_tcb tcb (\<lambda>t. t\<lparr>tcb_wake_tick := wake\<rparr>) s;
        os_timeout_queue_insert_sorted tcb s
      } else Some s)"

definition os_task_block_locked :: "queue_ref option \<Rightarrow> u32 \<Rightarrow> bool \<Rightarrow> kstate \<Rightarrow> kstate option" where
  "os_task_block_locked wait_queue timeout_ticks priority_ordered s =
     (if wait_queue = None then Some s
      else if g_current s = NULL then Some s
      else do {
        let current = g_current s;
        s \<leftarrow> os_ready_queue_remove current s;
        s \<leftarrow> upd_tcb current (set_blocked wait_queue) s;
        s \<leftarrow> join_wait_queue wait_queue priority_ordered current s;
        s \<leftarrow> arm_timeout timeout_ticks current s;
        schedule_and_pend s
      })"

text \<open>The assignments of \<open>os_task_wake_one_locked\<close> to the woken task.\<close>

definition set_woken :: "os_tcb_t \<Rightarrow> os_tcb_t" where
  "set_woken t = t\<lparr>tcb_wait_queue := None, tcb_wake_tick := OS_WAIT_FOREVER,
     tcb_wait_result := 0, tcb_state := OS_TASK_READY\<rparr>"

definition os_task_wake_one_locked :: "queue_ref option \<Rightarrow> kstate \<Rightarrow> (addr \<times> kstate) option" where
  "os_task_wake_one_locked wait_queue s =
     (if wait_queue = None then Some (NULL, s)
      else do {
        (tcb, s) \<leftarrow> os_task_queue_pop_head wait_queue s;
        if tcb \<noteq> NULL then do {
          t \<leftarrow> tcb_at s tcb;
          s \<leftarrow> (if tcb_wake_tick t \<noteq> OS_WAIT_FOREVER then os_timeout_queue_remove tcb s else Some s);
          s \<leftarrow> upd_tcb tcb set_woken s;
          s \<leftarrow> os_ready_queue_add tcb s;
          Some (tcb, s)
        } else Some (tcb, s)
      })"

text \<open>The two parts of \<open>os_task_set_priority\<close>: the new priority, with a move between ready queues for a
  task that is ready or running, and the new place in the wait queue for a blocked task.\<close>

definition assign_priority :: "addr \<Rightarrow> os_task_priority_t \<Rightarrow> kstate \<Rightarrow> kstate option" where
  "assign_priority tcb new_priority s = do {
     t \<leftarrow> tcb_at s tcb;
     if tcb_state t = OS_TASK_READY \<or> tcb_state t = OS_TASK_RUNNING then do {
       s \<leftarrow> os_ready_queue_remove tcb s;
       s \<leftarrow> upd_tcb tcb (\<lambda>u. u\<lparr>tcb_priority := new_priority\<rparr>) s;
       os_ready_queue_add tcb s
     } else upd_tcb tcb (\<lambda>u. u\<lparr>tcb_priority := new_priority\<rparr>) s
   }"

definition requeue_waiter :: "addr \<Rightarrow> kstate \<Rightarrow> kstate option" where
  "requeue_waiter tcb s = do {
     t \<leftarrow> tcb_at s tcb;
     if tcb_state t = OS_TASK_BLOCKED \<and> tcb_wait_queue t \<noteq> None then do {
       s \<leftarrow> os_task_queue_remove (tcb_wait_queue t) tcb s;
       os_task_queue_insert_by_priority (tcb_wait_queue t) tcb s
     } else Some s
   }"

definition os_task_set_priority :: "addr \<Rightarrow> os_task_priority_t \<Rightarrow> kstate \<Rightarrow> kstate option" where
  "os_task_set_priority tcb new_priority s =
     (if tcb = NULL \<or> new_priority > OS_TASK_IDLE then Some s
      else do {
        s \<leftarrow> assign_priority tcb new_priority s;
        requeue_waiter tcb s
      })"

definition os_commit_switch :: "kstate \<Rightarrow> kstate option" where
  "os_commit_switch s =
     (let prev = g_current s in
      if g_next s = NULL then Some s
      else do {
        s \<leftarrow> (if prev \<noteq> NULL \<and> prev \<noteq> g_next s then do {
                p \<leftarrow> tcb_at s prev;
                if tcb_state p = OS_TASK_RUNNING
                then upd_tcb prev (\<lambda>t. t\<lparr>tcb_state := OS_TASK_READY\<rparr>) s else Some s
              } else Some s);
        let s = s\<lparr>g_current := g_next s\<rparr>;
        upd_tcb (g_current s) (\<lambda>t. t\<lparr>tcb_state := OS_TASK_RUNNING\<rparr>) s
      })"

definition os_current_tcb :: "kstate \<Rightarrow> addr" where
  "os_current_tcb s = g_current s"

definition os_next_tcb :: "kstate \<Rightarrow> addr" where
  "os_next_tcb s = (if g_next s \<noteq> NULL then g_next s else g_current s)"

end
