(* ===== verification/Scheduler_Refinement.thy ===== *)
theory Scheduler_Refinement
  imports Scheduler
begin

text \<open>
  The scheduler on lists. Every function of \<open>Scheduler\<close> has a counterpart \<open>a_\<dots>\<close> on the abstract state
  that says what it does without pointers, and a lemma that the C function implements it.
\<close>

named_theorems astate_simps \<open>reading an abstract state after one of its parts has been written\<close>

subsection \<open>Writing fields of the abstract state\<close>

abbreviation a_tcb :: "astate \<Rightarrow> addr \<Rightarrow> os_tcb_t option" where
  "a_tcb a \<equiv> tcb_at (kern a)"

definition a_upd :: "addr \<Rightarrow> (os_tcb_t \<Rightarrow> os_tcb_t) \<Rightarrow> astate \<Rightarrow> astate" where
  "a_upd p f a = (case a_tcb a p of None \<Rightarrow> a | Some c \<Rightarrow> a\<lparr>kern := put_tcb p (f c) (kern a)\<rparr>)"

definition a_kern :: "(kstate \<Rightarrow> kstate) \<Rightarrow> astate \<Rightarrow> astate" where
  "a_kern f a = a\<lparr>kern := f (kern a)\<rparr>"

lemma a_upd_simps [astate_simps]:
  "waitq (a_upd p f a) = waitq a" "timeoutq (a_upd p f a) = timeoutq a"
  "a_tcb (a_upd p f a) = (a_tcb a)(p := map_option f (a_tcb a p))"
  "get_queue (kern (a_upd p f a)) = get_queue (kern a)"
  "mutex_at (kern (a_upd p f a)) = mutex_at (kern a)"
  "sem_at (kern (a_upd p f a)) = sem_at (kern a)"
  "g_current (kern (a_upd p f a)) = g_current (kern a)"
  "g_next (kern (a_upd p f a)) = g_next (kern a)"
  "g_tick (kern (a_upd p f a)) = g_tick (kern a)"
  "pendsv (kern (a_upd p f a)) = pendsv (kern a)"
  "primask (kern (a_upd p f a)) = primask (kern a)"
  by (cases "a_tcb a p"; cases "p = NULL"; auto simp: a_upd_def kstate_simps)+

lemma a_set_queue_simps [astate_simps]:
  "kern (a_set_queue q ys a) = kern a" "timeoutq (a_set_queue q ys a) = timeoutq a"
  "waitq (a_set_queue q ys a) = (waitq a)(q := ys)"
  by (simp_all add: a_set_queue_def)

lemma a_set_queue_same: "waitq a q = ys \<Longrightarrow> a_set_queue q ys a = a"
  by (auto simp: a_set_queue_def intro: astate.equality)

lemma a_queue_ops_simps [astate_simps]:
  "kern (a_add q t a) = kern a" "timeoutq (a_add q t a) = timeoutq a"
  "waitq (a_add q t a) = (waitq a)(q := waitq a q @ [t])"
  "kern (a_remove q t a) = kern a" "timeoutq (a_remove q t a) = timeoutq a"
  "waitq (a_remove q t a) = (waitq a)(q := remove1 t (waitq a q))"
  "kern (a_insert_by_priority q t a) = kern a" "timeoutq (a_insert_by_priority q t a) = timeoutq a"
  "waitq (a_insert_by_priority q t a) = (waitq a)(q := insert_prio (a_prio a) t (waitq a q))"
  by (simp_all add: a_add_def a_remove_def a_insert_by_priority_def astate_simps)

lemma a_timeout_ops_simps [astate_simps]:
  "kern (a_timeout_insert t a) = kern a" "waitq (a_timeout_insert t a) = waitq a"
  "timeoutq (a_timeout_insert t a) = insert_wake (a_wake a) t (timeoutq a)"
  "kern (a_timeout_remove t a) = kern a" "waitq (a_timeout_remove t a) = waitq a"
  "timeoutq (a_timeout_remove t a) = remove1 t (timeoutq a)"
  by (simp_all add: a_timeout_insert_def a_timeout_remove_def)

lemma a_kern_simps [astate_simps]:
  "kern (a_kern f a) = f (kern a)" "waitq (a_kern f a) = waitq a" "timeoutq (a_kern f a) = timeoutq a"
  by (simp_all add: a_kern_def)

lemma valid_task_iff: "valid_task a t \<longleftrightarrow> (\<exists>c. a_tcb a t = Some c)"
  by (auto simp: valid_task_def)

text \<open>Assigning fields other than the links.\<close>

definition link_free :: "(os_tcb_t \<Rightarrow> os_tcb_t) \<Rightarrow> bool" where
  "link_free f \<longleftrightarrow> (\<forall>c. blank_tcb (f c) = f (blank_tcb c) \<and> wait_links (f c) = wait_links c \<and>
     timeout_links (f c) = timeout_links c)"

lemma upd_tcb_refines [refine_intros]:
  assumes R: "kernel_rel s a" and vt: "valid_task a p" and f: "link_free f"
  shows "\<exists>s'. upd_tcb p f s = Some s' \<and> kernel_rel s' (a_upd p f a)"
proof -
  from R vt obtain c where c: "tcb_at s p = Some c" by (auto simp: kernel_rel_valid_task)
  note nn = tcb_at_nonnull [OF c]
  let ?s = "put_tcb p (f c) s"
  have tcb: "tcb_at ?s = (tcb_at s)(p \<mapsto> f c)" using nn by (simp add: kstate_simps)
  have "queue_rel ?s Q = queue_rel s Q" for Q
    by (rule queue_rel_cong) (use c f in \<open>auto simp: kstate_simps tcb link_free_def\<close>)
  moreover have "timeout_rel ?s ts = timeout_rel s ts" for ts
    by (rule timeout_rel_cong) (use c f in \<open>auto simp: kstate_simps tcb link_free_def\<close>)
  moreover have "kern (a_upd p f a) = core ?s"
    using R f kernel_rel_tcb [OF R c]
    by (auto simp: a_upd_def core_put_tcb link_free_def kernel_rel_def)
  ultimately have "kernel_rel ?s (a_upd p f a)"
    using R by (simp add: kernel_rel_def astate_simps)
  with c show ?thesis by (simp add: kstate_simps)
qed

text \<open>Assigning global variables that are neither tasks nor queues.\<close>

lemma kernel_rel_global:
  assumes R: "kernel_rel s a" and "tcb_at (f s) = tcb_at s" and "get_queue (f s) = get_queue s"
    and "g_timeout_queue (f s) = g_timeout_queue s" and "core (f s) = f (core s)"
  shows "kernel_rel (f s) (a_kern f a)"
  using assms queue_rel_cong [of "f s" s] timeout_rel_cong [of "f s" s]
  by (simp add: kernel_rel_def astate_simps)

lemma kernel_rel_g_next: "kernel_rel s a \<Longrightarrow> kernel_rel (s\<lparr>g_next := x\<rparr>) (a_kern (g_next_update (\<lambda>_. x)) a)"
  by (rule kernel_rel_global) (simp_all add: kstate_simps core_def)

lemma kernel_rel_g_current:
  "kernel_rel s a \<Longrightarrow> kernel_rel (s\<lparr>g_current := x\<rparr>) (a_kern (g_current_update (\<lambda>_. x)) a)"
  by (rule kernel_rel_global) (simp_all add: kstate_simps core_def)

lemma kernel_rel_g_tick:
  "kernel_rel s a \<Longrightarrow> kernel_rel (s\<lparr>g_tick := x\<rparr>) (a_kern (g_tick_update (\<lambda>_. x)) a)"
  by (rule kernel_rel_global) (simp_all add: kstate_simps core_def)

lemma kernel_rel_pendsv:
  "kernel_rel s a \<Longrightarrow> kernel_rel (s\<lparr>pendsv := x\<rparr>) (a_kern (pendsv_update (\<lambda>_. x)) a)"
  by (rule kernel_rel_global) (simp_all add: kstate_simps core_def)

lemma kernel_rel_primask:
  "kernel_rel s a \<Longrightarrow> kernel_rel (s\<lparr>primask := x\<rparr>) (a_kern (primask_update (\<lambda>_. x)) a)"
  by (rule kernel_rel_global) (simp_all add: kstate_simps core_def)

lemma kernel_rel_globals:
  assumes "kernel_rel s a"
  shows "g_current s = g_current (kern a)" "g_next s = g_next (kern a)" "g_tick s = g_tick (kern a)"
    "pendsv s = pendsv (kern a)" "primask s = primask (kern a)" "g_first_switch s = g_first_switch (kern a)"
  using assms by (simp_all add: kernel_rel_def core_def)

subsection \<open>Ready queues\<close>

definition a_ready_add :: "addr \<Rightarrow> astate \<Rightarrow> astate" where
  "a_ready_add t a = a_add (ReadyQ (a_prio a t)) t a"

definition a_ready_remove :: "addr \<Rightarrow> astate \<Rightarrow> astate" where
  "a_ready_remove t a = a_remove (ReadyQ (a_prio a t)) t a"

text \<open>Round robin: the first task of its ready queue goes to the end; any other task stays.\<close>

definition a_rotate :: "addr \<Rightarrow> astate \<Rightarrow> astate" where
  "a_rotate t a =
     (let q = ReadyQ (a_prio a t) in
      if t \<noteq> NULL \<and> first_or (waitq a q) NULL = t then a_set_queue q (tl (waitq a q) @ [t]) a else a)"

lemma os_ready_queue_add_refines [refine_intros]:
  assumes R: "kernel_rel s a" and vt: "valid_task a t" and p: "a_prio a t < NUM_PRIORITIES"
    and fresh: "\<And>r. t \<notin> set (waitq a r)"
  shows "\<exists>s'. os_ready_queue_add t s = Some s' \<and> kernel_rel s' (a_ready_add t a)"
proof -
  from R vt obtain c where c: "tcb_at s t = Some c" by (auto simp: kernel_rel_valid_task)
  moreover from kernel_rel_tcb [OF R c] have "a_prio a t = tcb_priority c" by (simp add: task_prio_def)
  ultimately show ?thesis
    using os_task_queue_add_refines [OF R _ vt fresh, of "ReadyQ (a_prio a t)"] p
    by (simp add: os_ready_queue_add_def a_ready_add_def)
qed

lemma os_ready_queue_remove_refines [refine_intros]:
  assumes R: "kernel_rel s a" and vt: "valid_task a t" and mem: "t \<in> set (waitq a (ReadyQ (a_prio a t)))"
  shows "\<exists>s'. os_ready_queue_remove t s = Some s' \<and> kernel_rel s' (a_ready_remove t a)"
proof -
  from R vt obtain c where c: "tcb_at s t = Some c" by (auto simp: kernel_rel_valid_task)
  moreover from kernel_rel_tcb [OF R c] have "a_prio a t = tcb_priority c" by (simp add: task_prio_def)
  ultimately show ?thesis
    using os_task_queue_remove_refines [OF R mem]
    by (simp add: os_ready_queue_remove_def a_ready_remove_def)
qed

lemma os_ready_queue_rotate_NULL: "os_ready_queue_rotate NULL s = Some s"
  by (simp add: os_ready_queue_rotate_def)

lemma os_ready_queue_rotate_refines [refine_intros]:
  assumes R: "kernel_rel s a" and vt: "valid_task a t" and p: "a_prio a t < NUM_PRIORITIES"
  shows "\<exists>s'. os_ready_queue_rotate t s = Some s' \<and> kernel_rel s' (a_rotate t a)"
proof -
  let ?q = "ReadyQ (a_prio a t)"
  from R vt obtain c where c: "tcb_at s t = Some c" by (auto simp: kernel_rel_valid_task)
  note nn = tcb_at_nonnull [OF c]
  have pr: "tcb_priority c = a_prio a t" using kernel_rel_tcb [OF R c] by (simp add: task_prio_def)
  from kernel_rel_valid_queue [OF R, of ?q] p obtain d where d: "get_queue s ?q = Some d" by auto
  from R d have l: "dlist tcb_next tcb_prev (tcb_at s) d (waitq a ?q)" by (rule kernel_rel_queue)
  show ?thesis
  proof (cases "first_or (waitq a ?q) NULL = t")
    case False
    with c d nn l R pr show ?thesis
      by (simp add: os_ready_queue_rotate_def a_rotate_def dlist_head Let_def)
  next
    case True
    with nn obtain ts where w: "waitq a ?q = t # ts" by (cases "waitq a ?q") auto
    show ?thesis
    proof (cases ts rule: rev_cases)
      case Nil
      with w c l have "tcb_next c = NULL" "q_head d = t" by (simp_all add: dlist_def)
      moreover have "a_set_queue ?q [t] a = a" using w Nil by (simp add: a_set_queue_same)
      ultimately show ?thesis
        using c d nn R w Nil pr by (simp add: os_ready_queue_rotate_def a_rotate_def Let_def)
    next
      case (snoc us y)
      note facts = l [unfolded w snoc dlist_def] c d nn pr
      show ?thesis
      proof (cases us)
        case Nil
        with facts obtain e where "tcb_at s y = Some e" "y \<noteq> NULL" "t \<noteq> y" "tcb_next c = y" "q_tail d = y" by auto
        with facts w snoc Nil show ?thesis
          unfolding a_rotate_def Let_def
          by (simp add: os_ready_queue_rotate_def kstate_simps Let_def)
            (rule kernel_rel_set_queue [OF R d];
              auto simp: kstate_simps dlist_def core_simps put_tcb_core_same timeout_links_def)
      next
        case (Cons x xs)
        with facts obtain e f where "tcb_at s y = Some e" "y \<noteq> NULL" "t \<noteq> y" "tcb_next c = x" "q_tail d = y"
          "tcb_at s x = Some f" "x \<noteq> NULL" "t \<noteq> x" "x \<noteq> y" by auto
        with facts w snoc Cons show ?thesis
          unfolding a_rotate_def Let_def
          by (simp add: os_ready_queue_rotate_def kstate_simps Let_def)
            (rule kernel_rel_set_queue [OF R d];
              auto simp: kstate_simps dlist_def core_simps put_tcb_core_same timeout_links_def)
      qed
    qed
  qed
qed

subsection \<open>Choosing the next task\<close>

text \<open>All ready tasks, most urgent first.\<close>

definition ready_order :: "astate \<Rightarrow> addr list" where
  "ready_order a = concat (map (\<lambda>p. waitq a (ReadyQ p)) [0..<NUM_PRIORITIES])"

definition a_schedule :: "astate \<Rightarrow> astate" where
  "a_schedule a = a_kern (g_next_update (\<lambda>_. first_or (ready_order a) NULL)) a"

definition a_schedule_and_pend :: "astate \<Rightarrow> astate" where
  "a_schedule_and_pend a =
     (let a = a_schedule a in
      if g_next (kern a) \<noteq> g_current (kern a) then a_kern (pendsv_update (\<lambda>_. True)) a else a)"

lemma kernel_rel_waitq_nonnull: "kernel_rel s a \<Longrightarrow> NULL \<notin> set (waitq a q)"
  by (cases "get_queue s q") (auto simp: kernel_rel_def queue_rel_def dest: dlist_nonnull)

lemma schedule_loop_refines:
  assumes R: "kernel_rel s a" and p: "p \<le> NUM_PRIORITIES"
  shows "schedule_loop p s =
     Some (s\<lparr>g_next := first_or (concat (map (\<lambda>p. waitq a (ReadyQ p)) [p..<NUM_PRIORITIES])) NULL\<rparr>)"
  using assms
proof (induction "NUM_PRIORITIES - p" arbitrary: p s a)
  case 0
  then show ?case by (simp add: schedule_loop.simps)
next
  case (Suc n)
  then have p: "p < NUM_PRIORITIES" by simp
  with Suc.prems have h: "os_task_queue_peek_head (Some (ReadyQ p)) s = Some (first_or (waitq a (ReadyQ p)) NULL)"
    by (intro os_task_queue_peek_head_refines) simp_all
  show ?case
  proof (cases "waitq a (ReadyQ p)")
    case Nil
    have "kernel_rel (s\<lparr>g_next := NULL\<rparr>) (a_kern (g_next_update (\<lambda>_. NULL)) a)"
      by (rule kernel_rel_g_next) (rule Suc.prems)
    moreover have "n = NUM_PRIORITIES - Suc p" using Suc.hyps(2) by simp
    ultimately have "schedule_loop (Suc p) (s\<lparr>g_next := NULL\<rparr>) = Some (s\<lparr>g_next :=
        first_or (concat (map (\<lambda>p. waitq a (ReadyQ p)) [Suc p..<NUM_PRIORITIES])) NULL\<rparr>)"
      using p Suc.hyps(1) [of "Suc p" _ "a_kern (g_next_update (\<lambda>_. NULL)) a"] by (simp add: astate_simps)
    with p h Nil show ?thesis
      by (simp add: schedule_loop.simps [of p s] upt_conv_Cons)
  next
    case (Cons t ts)
    with kernel_rel_waitq_nonnull [OF Suc.prems(1), of "ReadyQ p"] have "t \<noteq> NULL" by auto
    with p h Cons show ?thesis
      by (simp add: schedule_loop.simps [of p s] upt_conv_Cons)
  qed
qed

lemma os_schedule_refines [refine_intros]:
  assumes R: "kernel_rel s a"
  shows "\<exists>s'. os_schedule s = Some s' \<and> kernel_rel s' (a_schedule a)"
  using schedule_loop_refines [OF R, of 0] kernel_rel_g_next [OF R]
  by (simp add: os_schedule_def a_schedule_def ready_order_def)

lemma schedule_and_pend_refines [refine_intros]:
  assumes R: "kernel_rel s a"
  shows "\<exists>s'. schedule_and_pend s = Some s' \<and> kernel_rel s' (a_schedule_and_pend a)"
proof -
  from os_schedule_refines [OF R] obtain s1 where
    s1: "os_schedule s = Some s1" and R1: "kernel_rel s1 (a_schedule a)" by blast
  from kernel_rel_pendsv [OF R1, of True] R1 s1 kernel_rel_globals [OF R1] show ?thesis
    by (simp add: schedule_and_pend_def a_schedule_and_pend_def os_port_pendsv_trigger_def Let_def)
qed

subsection \<open>Blocking and waking\<close>

lemma link_free_updates [simp, intro]:
  "link_free (\<lambda>t. t\<lparr>tcb_state := x1\<rparr>)"
  "link_free (\<lambda>t. t\<lparr>tcb_priority := x2\<rparr>)"
  "link_free (\<lambda>t. t\<lparr>tcb_wait_queue := x3\<rparr>)"
  "link_free (\<lambda>t. t\<lparr>tcb_wake_tick := x4\<rparr>)"
  "link_free (\<lambda>t. t\<lparr>tcb_blocked_on := x5\<rparr>)"
  "link_free (\<lambda>t. t\<lparr>tcb_owned_mutexes := x6\<rparr>)"
  "link_free (\<lambda>t. t\<lparr>tcb_sp := x7\<rparr>)"
  by (simp_all add: link_free_def blank_tcb_def wait_links_def timeout_links_def)

lemma link_free_set_blocked [simp, intro]: "link_free (set_blocked q)"
  and link_free_set_woken [simp, intro]: "link_free set_woken"
  and link_free_set_expired [simp, intro]: "link_free set_expired"
  by (simp_all add: link_free_def set_blocked_def set_woken_def set_expired_def
      blank_tcb_def wait_links_def timeout_links_def)

definition a_join :: "queue_ref \<Rightarrow> bool \<Rightarrow> addr \<Rightarrow> astate \<Rightarrow> astate" where
  "a_join q priority_ordered t a = (if priority_ordered then a_insert_by_priority q t a else a_add q t a)"

definition a_arm :: "u32 \<Rightarrow> addr \<Rightarrow> astate \<Rightarrow> astate" where
  "a_arm timeout_ticks t a =
     (if timeout_ticks \<noteq> OS_WAIT_FOREVER
      then a_timeout_insert t (a_upd t (\<lambda>c. c\<lparr>tcb_wake_tick := g_tick (kern a) + timeout_ticks\<rparr>) a)
      else a)"

definition a_block :: "queue_ref \<Rightarrow> u32 \<Rightarrow> bool \<Rightarrow> astate \<Rightarrow> astate" where
  "a_block q timeout_ticks priority_ordered a =
     (let t = g_current (kern a) in
      a_schedule_and_pend (a_arm timeout_ticks t (a_join q priority_ordered t
        (a_upd t (set_blocked (Some q)) (a_ready_remove t a)))))"

lemma kernel_rel_distinct: "kernel_rel s a \<Longrightarrow> distinct (waitq a q)"
  by (cases "get_queue s q") (auto simp: kernel_rel_def queue_rel_def dest: dlist_distinct)

lemma removed_in_no_queue:
  assumes R: "kernel_rel s a" and mem: "t \<in> set (waitq a q)"
  shows "t \<notin> set (waitq (a_remove q t a) r)"
  using kernel_rel_distinct [OF R, of q] kernel_rel_disjoint [OF R, of r q] mem
  by (auto simp: astate_simps)

lemma valid_task_simps [astate_simps]:
  "valid_task (a_upd p f a) t = valid_task a t"
  "valid_task (a_add q x a) t = valid_task a t"
  "valid_task (a_remove q x a) t = valid_task a t"
  "valid_task (a_insert_by_priority q x a) t = valid_task a t"
  "valid_task (a_timeout_insert x a) t = valid_task a t"
  "valid_task (a_timeout_remove x a) t = valid_task a t"
  "valid_task (a_set_queue q ys a) t = valid_task a t"
  by (auto simp: valid_task_def astate_simps)

lemma valid_queue_simps [astate_simps]:
  "valid_queue (a_upd p f a) r = valid_queue a r"
  "valid_queue (a_add q x a) r = valid_queue a r"
  "valid_queue (a_remove q x a) r = valid_queue a r"
  "valid_queue (a_insert_by_priority q x a) r = valid_queue a r"
  "valid_queue (a_timeout_insert x a) r = valid_queue a r"
  "valid_queue (a_timeout_remove x a) r = valid_queue a r"
  "valid_queue (a_set_queue q ys a) r = valid_queue a r"
  by (auto simp: valid_queue_def astate_simps)

lemma join_wait_queue_refines [refine_intros]:
  assumes R: "kernel_rel s a" and vq: "valid_queue a q" and vt: "valid_task a t"
    and fresh: "\<And>r. t \<notin> set (waitq a r)"
  shows "\<exists>s'. join_wait_queue (Some q) po t s = Some s' \<and> kernel_rel s' (a_join q po t a)"
  using os_task_queue_insert_by_priority_refines [OF assms] os_task_queue_add_refines [OF assms]
  by (simp add: join_wait_queue_def a_join_def)

lemma arm_timeout_refines [refine_intros]:
  assumes R: "kernel_rel s a" and vt: "valid_task a t" and out: "t \<notin> set (timeoutq a)"
  shows "\<exists>s'. arm_timeout n t s = Some s' \<and> kernel_rel s' (a_arm n t a)"
proof (cases "n = OS_WAIT_FOREVER")
  case True
  with R show ?thesis by (simp add: arm_timeout_def a_arm_def)
next
  case False
  let ?f = "\<lambda>c :: os_tcb_t. c\<lparr>tcb_wake_tick := g_tick (kern a) + n\<rparr>"
  have "\<exists>s'. (upd_tcb t ?f s \<bind> os_timeout_queue_insert_sorted t) = Some s' \<and>
      kernel_rel s' (a_timeout_insert t (a_upd t ?f a))"
    by (rule ex_bind [OF upd_tcb_refines [OF R vt]])
      (auto intro: os_timeout_queue_insert_sorted_refines simp: astate_simps vt out)
  with False kernel_rel_globals(3) [OF R] show ?thesis
    by (simp add: arm_timeout_def a_arm_def os_tick_get_def Let_def)
qed

lemma a_join_simps [astate_simps]:
  "kern (a_join q po t a) = kern a" "timeoutq (a_join q po t a) = timeoutq a"
  "valid_task (a_join q po t a) = valid_task a"
  by (simp_all add: a_join_def astate_simps fun_eq_iff)

lemma os_task_block_locked_refines:
  assumes R: "kernel_rel s a" and cur: "g_current (kern a) = t" and vt: "valid_task a t"
    and mem: "t \<in> set (waitq a (ReadyQ (a_prio a t)))" and vq: "valid_queue a q"
    and out: "t \<notin> set (timeoutq a)"
  shows "\<exists>s'. os_task_block_locked (Some q) n po s = Some s' \<and> kernel_rel s' (a_block q n po a)"
proof -
  have cs: "g_current s = t" using kernel_rel_globals [OF R] cur by simp
  have nn: "t \<noteq> NULL" using vt by (auto simp: valid_task_def)
  have fresh: "t \<notin> set (waitq (a_ready_remove t a) r)" for r
    unfolding a_ready_remove_def by (rule removed_in_no_queue [OF R mem])
  have v: "valid_task (a_ready_remove t a) t" "valid_queue (a_ready_remove t a) q"
      "timeoutq (a_ready_remove t a) = timeoutq a"
    using vt vq by (simp_all add: a_ready_remove_def astate_simps)
  show ?thesis
    unfolding os_task_block_locked_def a_block_def Let_def cs cur
    using nn by simp (rule ex_bind, rule os_ready_queue_remove_refines [OF R vt mem],
      rule ex_bind, erule upd_tcb_refines, simp add: v, simp,
      rule ex_bind, erule join_wait_queue_refines, simp_all add: v fresh astate_simps,
      rule ex_bind, erule arm_timeout_refines, simp_all add: v out astate_simps,
      erule schedule_and_pend_refines)
qed

lemma kernel_rel_tcbD:
  assumes "kernel_rel s a" and "a_tcb a t = Some c"
  shows "\<exists>d. tcb_at s t = Some d \<and> blank_tcb d = c"
  using assms by (auto simp: kernel_rel_def tcb_at_core)

definition a_unarm :: "addr \<Rightarrow> astate \<Rightarrow> astate" where
  "a_unarm t a = (if a_wake a t \<noteq> OS_WAIT_FOREVER then a_timeout_remove t a else a)"

definition a_wake_one :: "queue_ref \<Rightarrow> astate \<Rightarrow> addr \<times> astate" where
  "a_wake_one q a = (case waitq a q of
     [] \<Rightarrow> (NULL, a)
   | t # ts \<Rightarrow> (t, a_ready_add t (a_upd t set_woken (a_unarm t (a_set_queue q ts a)))))"

lemma a_unarm_simps [astate_simps]:
  "kern (a_unarm t a) = kern a" "waitq (a_unarm t a) = waitq a"
  "timeoutq (a_unarm t a) = (if a_wake a t \<noteq> OS_WAIT_FOREVER then remove1 t (timeoutq a) else timeoutq a)"
  "valid_task (a_unarm t a) = valid_task a"
  by (simp_all add: a_unarm_def astate_simps fun_eq_iff)

lemma task_prio_a_upd [astate_simps]:
  "a_tcb a t = Some c \<Longrightarrow> a_prio (a_upd t f a) = (a_prio a)(t := tcb_priority (f c))"
  by (auto simp: task_prio_def astate_simps)

lemma os_task_wake_one_locked_refines:
  assumes R: "kernel_rel s a" and vq: "valid_queue a q"
    and hd: "\<And>t ts. waitq a q = t # ts \<Longrightarrow> a_prio a t < NUM_PRIORITIES \<and>
      (a_wake a t \<noteq> OS_WAIT_FOREVER \<longrightarrow> t \<in> set (timeoutq a))"
  shows "\<exists>s'. os_task_wake_one_locked (Some q) s = Some (fst (a_wake_one q a), s') \<and>
     kernel_rel s' (snd (a_wake_one q a))"
proof (cases "waitq a q")
  case Nil
  with R os_task_queue_pop_head_Nil [OF R vq] show ?thesis
    by (simp add: os_task_wake_one_locked_def a_wake_one_def)
next
  case (Cons t ts)
  let ?a1 = "a_set_queue q ts a"
  from os_task_queue_pop_head_Cons [OF R Cons] obtain s1 where
    s1: "os_task_queue_pop_head (Some q) s = Some (t, s1)" and R1: "kernel_rel s1 ?a1" by blast
  from R Cons obtain d where "get_queue s q = Some d"
    by (cases "get_queue s q") (auto simp: kernel_rel_def queue_rel_def)
  from dlist_valid [OF kernel_rel_queue [OF R this], of t] Cons
  have vt: "valid_task a t" by (auto simp: kernel_rel_valid_task [OF R])
  then obtain c where c: "a_tcb a t = Some c" by (auto simp: valid_task_def)
  with kernel_rel_tcbD [OF R1, of t] obtain d where d: "tcb_at s1 t = Some d" "blank_tcb d = c"
    by (auto simp: astate_simps)
  then have w: "tcb_wake_tick d = a_wake a t" using c by (auto simp: task_wake_def)
  have nn: "t \<noteq> NULL" using d by auto
  have unarm: "\<exists>s'. (if tcb_wake_tick d \<noteq> OS_WAIT_FOREVER then os_timeout_queue_remove t s1 else Some s1) = Some s'
      \<and> kernel_rel s' (a_unarm t ?a1)"
    using R1 hd [OF Cons] os_timeout_queue_remove_refines [OF R1, of t] w
    by (auto simp: a_unarm_def astate_simps)
  have fresh: "t \<notin> set (waitq ?a1 r)" for r
    using removed_in_no_queue [OF R, of t q r] Cons by (simp add: astate_simps)
  have v: "valid_task ?a1 t" "a_prio a t < NUM_PRIORITIES"
    using vt hd [OF Cons] by (simp_all add: astate_simps)
  let ?a2 = "a_unarm t ?a1"
  from unarm obtain s2 where
    s2: "(if tcb_wake_tick d \<noteq> OS_WAIT_FOREVER then os_timeout_queue_remove t s1 else Some s1) = Some s2"
    and R2: "kernel_rel s2 ?a2" by blast
  from upd_tcb_refines [OF R2, of t set_woken] v obtain s3 where
    s3: "upd_tcb t set_woken s2 = Some s3" and R3: "kernel_rel s3 (a_upd t set_woken ?a2)"
    by (auto simp: astate_simps)
  have "a_prio (a_upd t set_woken ?a2) t = a_prio a t"
    using c by (simp add: task_prio_def astate_simps set_woken_def)
  with os_ready_queue_add_refines [OF R3, of t] v fresh obtain s4 where
    s4: "os_ready_queue_add t s3 = Some s4" "kernel_rel s4 (a_ready_add t (a_upd t set_woken ?a2))"
    by (auto simp: astate_simps)
  show ?thesis
    using s1 d nn Cons s2 s3 s4
    by (simp add: os_task_wake_one_locked_def a_wake_one_def split del: if_split)
qed

subsection \<open>Expiring timeouts\<close>

definition a_leave :: "addr \<Rightarrow> astate \<Rightarrow> astate" where
  "a_leave t a = (case a_tcb a t of None \<Rightarrow> a | Some c \<Rightarrow> (case tcb_wait_queue c of
     None \<Rightarrow> a
   | Some q \<Rightarrow> a_upd t (\<lambda>c. c\<lparr>tcb_wait_queue := None\<rparr>) (a_remove q t a)))"

definition a_expire :: "addr \<Rightarrow> astate \<Rightarrow> astate" where
  "a_expire t a = a_ready_add t (a_upd t set_expired (a_leave t (a_timeout_remove t a)))"

fun a_expire_all :: "u32 \<Rightarrow> addr list \<Rightarrow> astate \<Rightarrow> astate" where
  "a_expire_all now [] a = a"
| "a_expire_all now (t # ts) a =
     (if os_tick_reached now (a_wake a t) then a_expire_all now ts (a_expire t a) else a)"

definition a_process_timeouts :: "astate \<Rightarrow> astate" where
  "a_process_timeouts a = a_schedule_and_pend (a_expire_all (g_tick (kern a)) (timeoutq a) a)"

text \<open>What the loop needs of each task in the timeout queue: it waits in the queue it names.\<close>

definition waits_in_queue :: "astate \<Rightarrow> addr \<Rightarrow> bool" where
  "waits_in_queue a t \<longleftrightarrow> (\<exists>c q. a_tcb a t = Some c \<and> tcb_wait_queue c = Some q \<and>
     t \<in> set (waitq a q) \<and> tcb_priority c < NUM_PRIORITIES)"

lemma leave_wait_queue_refines:
  assumes R: "kernel_rel s a" and c: "a_tcb a t = Some c" and q: "tcb_wait_queue c = Some q"
    and mem: "t \<in> set (waitq a q)"
  shows "\<exists>s'. leave_wait_queue t s = Some s' \<and> kernel_rel s' (a_leave t a)"
proof -
  from kernel_rel_tcbD [OF R c] obtain d where d: "tcb_at s t = Some d" "blank_tcb d = c" by blast
  then have q': "tcb_wait_queue d = Some q" using q by auto
  have vt: "valid_task (a_remove q t a) t" using c by (simp add: valid_task_def astate_simps)
  let ?f = "\<lambda>c :: os_tcb_t. c\<lparr>tcb_wait_queue := None\<rparr>"
  have "\<exists>s'. (os_task_queue_remove (Some q) t s \<bind> upd_tcb t ?f) = Some s' \<and>
      kernel_rel s' (a_upd t ?f (a_remove q t a))"
    by (rule ex_bind, rule os_task_queue_remove_refines [OF R mem], erule upd_tcb_refines)
      (simp_all add: vt)
  with d q' c q show ?thesis by (simp add: leave_wait_queue_def a_leave_def)
qed

lemma expire_task_refines:
  assumes R: "kernel_rel s a" and mem: "t \<in> set (timeoutq a)" and w: "waits_in_queue a t"
  shows "\<exists>s'. expire_task t s = Some s' \<and> kernel_rel s' (a_expire t a)"
proof -
  from w obtain c q where c: "a_tcb a t = Some c" and q: "tcb_wait_queue c = Some q"
    and m: "t \<in> set (waitq a q)" and p: "tcb_priority c < NUM_PRIORITIES" by (auto simp: waits_in_queue_def)
  let ?a1 = "a_timeout_remove t a"
  have l: "a_leave t ?a1 = a_upd t (\<lambda>c. c\<lparr>tcb_wait_queue := None\<rparr>) (a_remove q t ?a1)"
    using c q by (simp add: a_leave_def astate_simps)
  have fresh: "t \<notin> set (waitq (a_remove q t ?a1) r)" for r
    using removed_in_no_queue [OF R m, of r] by (simp add: astate_simps)
  have v: "valid_task a t" using c by (simp add: valid_task_def)
  show ?thesis
    unfolding expire_task_def a_expire_def
    by (rule ex_bind, rule os_timeout_queue_remove_refines [OF R mem],
        rule ex_bind, erule leave_wait_queue_refines [OF _ _ q], simp add: astate_simps c, simp add: astate_simps m,
        rule ex_bind, erule upd_tcb_refines, simp add: l v astate_simps, simp,
        erule os_ready_queue_add_refines)
      (use p v fresh c in \<open>simp_all add: l astate_simps task_prio_def set_expired_def\<close>)
qed

text \<open>Expiring one task leaves the other sleepers alone.\<close>

lemma a_expire_simps:
  assumes "waits_in_queue a t"
  shows "timeoutq (a_expire t a) = remove1 t (timeoutq a)"
    and "a_tcb (a_expire t a) = (a_tcb a)(t := map_option (\<lambda>c. set_expired (c\<lparr>tcb_wait_queue := None\<rparr>)) (a_tcb a t))"
    and "g_current (kern (a_expire t a)) = g_current (kern a)"
    and "g_tick (kern (a_expire t a)) = g_tick (kern a)"
    and "u \<noteq> t \<Longrightarrow> u \<in> set (waitq (a_expire t a) r) \<longleftrightarrow> u \<in> set (waitq a r)"
  using assms
  by (auto simp: waits_in_queue_def a_expire_def a_leave_def a_ready_add_def astate_simps fun_eq_iff
      split: if_splits)

lemma waits_in_queue_expire:
  assumes "waits_in_queue a t" and "waits_in_queue a u" and "u \<noteq> t"
  shows "waits_in_queue (a_expire t a) u"
  using assms(2,3) a_expire_simps [OF assms(1)] by (auto simp: waits_in_queue_def)

lemma timeouts_loop_refines:
  assumes "kernel_rel s a" and "timeoutq a = ts" and "\<And>t. t \<in> set ts \<Longrightarrow> waits_in_queue a t"
  shows "\<exists>s'. timeouts_loop now (first_or ts NULL) s = Some s' \<and> kernel_rel s' (a_expire_all now ts a)"
  using assms
proof (induction ts arbitrary: s a)
  case Nil
  then show ?case by (simp add: timeouts_loop.simps)
next
  case (Cons t ts)
  note R = Cons.prems(1)
  from Cons.prems(3) [of t] have w: "waits_in_queue a t" by simp
  then obtain c where c: "a_tcb a t = Some c" by (auto simp: waits_in_queue_def)
  from kernel_rel_tcbD [OF R c] obtain d where d: "tcb_at s t = Some d" "blank_tcb d = c" by blast
  then have wk: "tcb_wake_tick d = a_wake a t" using c by (auto simp: task_wake_def)
  have l: "dlist tcb_timeout_next tcb_timeout_prev (tcb_at s) (g_timeout_queue s) (t # ts)"
    using kernel_rel_timeoutq [OF R] Cons.prems(2) by simp
  then have nx: "tcb_timeout_next d = first_or ts NULL" "t \<noteq> NULL" and out: "t \<notin> set ts"
    using d by (auto simp: dlist_def)
  show ?case
  proof (cases "os_tick_reached now (a_wake a t)")
    case False
    with R d wk nx show ?thesis by (simp add: timeouts_loop.simps)
  next
    case True
    from expire_task_refines [OF R _ w] Cons.prems(2) obtain s1 where
      s1: "expire_task t s = Some s1" and R1: "kernel_rel s1 (a_expire t a)" by auto
    have "timeoutq (a_expire t a) = ts"
      using a_expire_simps(1) [OF w] Cons.prems(2) by simp
    moreover have "waits_in_queue (a_expire t a) u" if "u \<in> set ts" for u
      using waits_in_queue_expire [OF w, of u] Cons.prems(3) [of u] that out by auto
    ultimately have "\<exists>s'. timeouts_loop now (first_or ts NULL) s1 = Some s' \<and>
        kernel_rel s' (a_expire_all now ts (a_expire t a))"
      by (intro Cons.IH [OF R1])
    with True d wk nx s1 show ?thesis
      by (simp add: timeouts_loop.simps [of now t])
  qed
qed

lemma os_process_timeouts_refines:
  assumes R: "kernel_rel s a" and w: "\<And>t. t \<in> set (timeoutq a) \<Longrightarrow> waits_in_queue a t"
  shows "\<exists>s'. os_process_timeouts s = Some s' \<and> kernel_rel s' (a_process_timeouts a)"
proof -
  have h: "q_head (g_timeout_queue s) = first_or (timeoutq a) NULL"
    using kernel_rel_timeoutq [OF R] by (rule dlist_head)
  show ?thesis
    unfolding os_process_timeouts_def a_process_timeouts_def Let_def h os_tick_get_def kernel_rel_globals(3) [OF R]
    by (rule ex_bind, rule timeouts_loop_refines [OF R refl w]) (simp_all add: schedule_and_pend_refines)
qed

subsection \<open>Changing a priority\<close>

definition a_assign :: "addr \<Rightarrow> os_task_priority_t \<Rightarrow> astate \<Rightarrow> astate" where
  "a_assign t p a = (case a_tcb a t of None \<Rightarrow> a | Some c \<Rightarrow>
     if tcb_state c \<noteq> OS_TASK_BLOCKED
     then a_ready_add t (a_upd t (\<lambda>c. c\<lparr>tcb_priority := p\<rparr>) (a_ready_remove t a))
     else a_upd t (\<lambda>c. c\<lparr>tcb_priority := p\<rparr>) a)"

definition a_requeue :: "addr \<Rightarrow> astate \<Rightarrow> astate" where
  "a_requeue t a = (case a_tcb a t of None \<Rightarrow> a | Some c \<Rightarrow>
     (case tcb_wait_queue c of None \<Rightarrow> a | Some q \<Rightarrow>
       if tcb_state c = OS_TASK_BLOCKED then a_insert_by_priority q t (a_remove q t a) else a))"

definition a_set_priority :: "addr \<Rightarrow> os_task_priority_t \<Rightarrow> astate \<Rightarrow> astate" where
  "a_set_priority t p a =
     (if t = NULL \<or> p > OS_TASK_IDLE then a else a_requeue t (a_assign t p a))"

text \<open>Where the task is: in the ready queue of its priority, or in the wait queue it names.\<close>

definition queued :: "astate \<Rightarrow> addr \<Rightarrow> bool" where
  "queued a t \<longleftrightarrow> (\<exists>c. a_tcb a t = Some c \<and>
     (if tcb_state c = OS_TASK_BLOCKED
      then (\<exists>q. tcb_wait_queue c = Some q \<and> t \<in> set (waitq a q))
      else t \<in> set (waitq a (ReadyQ (tcb_priority c)))))"

lemma assign_priority_refines:
  assumes R: "kernel_rel s a" and q: "queued a t" and p: "p < NUM_PRIORITIES"
  shows "\<exists>s'. assign_priority t p s = Some s' \<and> kernel_rel s' (a_assign t p a)"
proof -
  let ?f = "\<lambda>c :: os_tcb_t. c\<lparr>tcb_priority := p\<rparr>"
  from q obtain c where c: "a_tcb a t = Some c" by (auto simp: queued_def)
  then have v: "valid_task a t" and pr: "a_prio a t = tcb_priority c" by (auto simp: valid_task_def task_prio_def)
  from kernel_rel_tcbD [OF R c] obtain d where d: "tcb_at s t = Some d" "blank_tcb d = c" by blast
  then have st: "tcb_state d = tcb_state c" by auto
  show ?thesis
  proof (cases "tcb_state c = OS_TASK_BLOCKED")
    case True
    with upd_tcb_refines [OF R v, of ?f] c d st show ?thesis
      by (simp add: assign_priority_def a_assign_def)
  next
    case False
    then have mem: "t \<in> set (waitq a (ReadyQ (a_prio a t)))" using q c pr by (auto simp: queued_def)
    have fresh: "t \<notin> set (waitq (a_ready_remove t a) r)" for r
      unfolding a_ready_remove_def by (rule removed_in_no_queue [OF R mem])
    have v': "valid_task (a_ready_remove t a) t" using v by (simp add: a_ready_remove_def astate_simps)
    have "\<exists>s'. do { s \<leftarrow> os_ready_queue_remove t s; s \<leftarrow> upd_tcb t ?f s; os_ready_queue_add t s } = Some s' \<and>
        kernel_rel s' (a_ready_add t (a_upd t ?f (a_ready_remove t a)))"
      by (rule ex_bind, rule os_ready_queue_remove_refines [OF R v mem],
          rule ex_bind, erule upd_tcb_refines [OF _ v'], simp, erule os_ready_queue_add_refines)
        (use v' fresh p c in \<open>simp_all add: astate_simps task_prio_def a_ready_remove_def\<close>)
    moreover from False have "tcb_state d = OS_TASK_READY \<or> tcb_state d = OS_TASK_RUNNING"
      using st by (cases "tcb_state c") auto
    ultimately show ?thesis
      using d c False by (simp add: assign_priority_def a_assign_def)
  qed
qed

lemma queued_assign: "queued a t \<Longrightarrow> queued (a_assign t p a) t"
  by (auto simp: queued_def a_assign_def a_ready_add_def a_ready_remove_def astate_simps task_prio_def
      split: if_splits)

lemma requeue_waiter_refines:
  assumes R: "kernel_rel s a" and q: "queued a t"
  shows "\<exists>s'. requeue_waiter t s = Some s' \<and> kernel_rel s' (a_requeue t a)"
proof -
  from q obtain c where c: "a_tcb a t = Some c" by (auto simp: queued_def)
  from kernel_rel_tcbD [OF R c] obtain d where d: "tcb_at s t = Some d" "blank_tcb d = c" by blast
  then have st: "tcb_state d = tcb_state c" "tcb_wait_queue d = tcb_wait_queue c" by auto
  show ?thesis
  proof (cases "tcb_state c = OS_TASK_BLOCKED")
    case False
    with R c d st show ?thesis
      by (cases "tcb_wait_queue c") (simp_all add: requeue_waiter_def a_requeue_def)
  next
    case True
    with q c obtain r where r: "tcb_wait_queue c = Some r" and mem: "t \<in> set (waitq a r)"
      by (auto simp: queued_def)
    have vq: "valid_queue a r"
      using R mem by (cases "get_queue s r") (auto simp: kernel_rel_valid_queue [OF R] kernel_rel_def queue_rel_def)
    have "\<exists>s'. do { s \<leftarrow> os_task_queue_remove (Some r) t s; os_task_queue_insert_by_priority (Some r) t s } = Some s' \<and>
        kernel_rel s' (a_insert_by_priority r t (a_remove r t a))"
      by (rule ex_bind, rule os_task_queue_remove_refines [OF R mem],
          erule os_task_queue_insert_by_priority_refines)
        (use vq c removed_in_no_queue [OF R mem] in \<open>simp_all add: astate_simps valid_task_def\<close>)
    with d c r True st show ?thesis by (simp add: requeue_waiter_def a_requeue_def)
  qed
qed

lemma os_task_set_priority_refines:
  assumes R: "kernel_rel s a" and q: "t \<noteq> NULL \<Longrightarrow> p < NUM_PRIORITIES \<Longrightarrow> queued a t"
  shows "\<exists>s'. os_task_set_priority t p s = Some s' \<and> kernel_rel s' (a_set_priority t p a)"
proof (cases "t = NULL \<or> p > OS_TASK_IDLE")
  case True
  with R show ?thesis by (auto simp: os_task_set_priority_def a_set_priority_def)
next
  case False
  then have p: "p < NUM_PRIORITIES" and qd: "queued a t" using q by auto
  have "\<exists>s'. (assign_priority t p s \<bind> requeue_waiter t) = Some s' \<and> kernel_rel s' (a_requeue t (a_assign t p a))"
    by (rule ex_bind, rule assign_priority_refines [OF R qd p], erule requeue_waiter_refines)
      (rule queued_assign [OF qd])
  with False show ?thesis by (auto simp: os_task_set_priority_def a_set_priority_def)
qed

subsection \<open>Committing a context switch\<close>

definition a_commit :: "astate \<Rightarrow> astate" where
  "a_commit a =
     (let prev = g_current (kern a); nxt = g_next (kern a) in
      if nxt = NULL then a
      else a_upd nxt (\<lambda>t. t\<lparr>tcb_state := OS_TASK_RUNNING\<rparr>) (a_kern (g_current_update (\<lambda>_. nxt))
        (if prev \<noteq> NULL \<and> prev \<noteq> nxt \<and> map_option tcb_state (a_tcb a prev) = Some OS_TASK_RUNNING
         then a_upd prev (\<lambda>t. t\<lparr>tcb_state := OS_TASK_READY\<rparr>) a else a)))"

lemma os_commit_switch_refines:
  assumes R: "kernel_rel s a" and n: "g_next (kern a) \<noteq> NULL \<Longrightarrow> valid_task a (g_next (kern a))"
    and c: "g_current (kern a) \<noteq> NULL \<Longrightarrow> valid_task a (g_current (kern a))"
  shows "\<exists>s'. os_commit_switch s = Some s' \<and> kernel_rel s' (a_commit a)"
proof (cases "g_next (kern a) = NULL")
  case True
  with R kernel_rel_globals [OF R] show ?thesis by (simp add: os_commit_switch_def a_commit_def)
next
  case False
  let ?p = "g_current (kern a)" and ?n = "g_next (kern a)"
  let ?rdy = "\<lambda>t :: os_tcb_t. t\<lparr>tcb_state := OS_TASK_READY\<rparr>"
  let ?b = "?p \<noteq> NULL \<and> ?p \<noteq> ?n \<and> map_option tcb_state (a_tcb a ?p) = Some OS_TASK_RUNNING"
  let ?a1 = "if ?b then a_upd ?p ?rdy a else a"
  have "\<exists>s1. (if ?p \<noteq> NULL \<and> ?p \<noteq> ?n then do {
        p \<leftarrow> tcb_at s ?p;
        if tcb_state p = OS_TASK_RUNNING then upd_tcb ?p ?rdy s else Some s
      } else Some s) = Some s1 \<and> kernel_rel s1 ?a1"
  proof (cases "?p \<noteq> NULL \<and> ?p \<noteq> ?n")
    case True
    with c obtain d where d: "a_tcb a ?p = Some d" by (auto simp: valid_task_def)
    from kernel_rel_tcbD [OF R d] obtain e where "tcb_at s ?p = Some e" "blank_tcb e = d" by blast
    then show ?thesis
      using True R c d upd_tcb_refines [OF R, of ?p ?rdy] by auto
  qed (use R in auto)
  then obtain s1 where s1: "(if ?p \<noteq> NULL \<and> ?p \<noteq> ?n then do {
        p \<leftarrow> tcb_at s ?p;
        if tcb_state p = OS_TASK_RUNNING then upd_tcb ?p ?rdy s else Some s
      } else Some s) = Some s1" and R1: "kernel_rel s1 ?a1" by blast
  have n1: "g_next s1 = ?n" using kernel_rel_globals(2) [OF R1] by (auto simp: astate_simps)
  have "\<exists>s'. upd_tcb ?n (\<lambda>t. t\<lparr>tcb_state := OS_TASK_RUNNING\<rparr>) (s1\<lparr>g_current := ?n\<rparr>) = Some s' \<and>
      kernel_rel s' (a_upd ?n (\<lambda>t. t\<lparr>tcb_state := OS_TASK_RUNNING\<rparr>) (a_kern (g_current_update (\<lambda>_. ?n)) ?a1))"
    by (rule upd_tcb_refines [OF kernel_rel_g_current [OF R1]])
      (use False n in \<open>auto simp: valid_task_def astate_simps kstate_simps\<close>)
  with s1 n1 False show ?thesis
    by (simp add: os_commit_switch_def a_commit_def kernel_rel_globals [OF R] Let_def split del: if_split)
qed

end
