(* ===== verification/Kernel_Invariant.thy ===== *)
theory Kernel_Invariant
  imports Scheduler_Refinement
begin

text \<open>
  The invariant of the scheduler's data, on the abstract state. Every task is in exactly one queue: a
  ready or running task in the ready queue of its priority, a blocked task in the wait queue it names;
  the timeout queue only holds sleeping tasks; the current task is one of the tasks; the waiters of a
  mutex are in the order of their priorities. That at most one task is marked running is not part of it: a
  tick that interrupts \<open>os_commit_switch\<close> can leave two.
\<close>

definition waitable :: "queue_ref \<Rightarrow> bool" where
  "waitable q \<longleftrightarrow> (\<forall>p. q \<noteq> ReadyQ p)"

definition home :: "os_tcb_t \<Rightarrow> queue_ref option" where
  "home c = (if tcb_state c = OS_TASK_BLOCKED then tcb_wait_queue c else Some (ReadyQ (tcb_priority c)))"

definition tcb_ok :: "os_tcb_t \<Rightarrow> bool" where
  "tcb_ok c \<longleftrightarrow> tcb_priority c < NUM_PRIORITIES \<and> tcb_base_priority c < NUM_PRIORITIES \<and>
     (if tcb_state c = OS_TASK_BLOCKED then \<exists>q. tcb_wait_queue c = Some q \<and> waitable q
      else tcb_wait_queue c = None) \<and>
     (tcb_state c = OS_TASK_BLOCKED \<and> tcb_wait_queue c \<noteq> Some SleepQ \<longrightarrow> tcb_wake_tick c = OS_WAIT_FOREVER)"

definition sleeping :: "os_tcb_t \<Rightarrow> bool" where
  "sleeping c \<longleftrightarrow> tcb_state c = OS_TASK_BLOCKED \<and> tcb_wait_queue c = Some SleepQ"

definition tasks_ok :: "astate \<Rightarrow> bool" where
  "tasks_ok a \<longleftrightarrow> (\<forall>t c. a_tcb a t = Some c \<longrightarrow> tcb_ok c)"

definition queues_ok :: "astate \<Rightarrow> bool" where
  "queues_ok a \<longleftrightarrow> (\<forall>q t. t \<in> set (waitq a q) \<longleftrightarrow> (\<exists>c. a_tcb a t = Some c \<and> home c = Some q)) \<and>
     (\<forall>q. distinct (waitq a q))"

definition timeouts_ok :: "astate \<Rightarrow> bool" where
  "timeouts_ok a \<longleftrightarrow> distinct (timeoutq a) \<and>
     (\<forall>t\<in>set (timeoutq a). \<exists>c. a_tcb a t = Some c \<and> sleeping c)"

definition mutex_queues_sorted :: "astate \<Rightarrow> bool" where
  "mutex_queues_sorted a \<longleftrightarrow> (\<forall>m. sorted (map (a_prio a) (waitq a (MutexQ m))))"

definition current_ok :: "astate \<Rightarrow> bool" where
  "current_ok a \<longleftrightarrow> (g_current (kern a) \<noteq> NULL \<longrightarrow> valid_task a (g_current (kern a)))"

definition next_ok :: "astate \<Rightarrow> bool" where
  "next_ok a \<longleftrightarrow> (g_next (kern a) \<noteq> NULL \<longrightarrow>
     (\<exists>c. a_tcb a (g_next (kern a)) = Some c \<and> tcb_state c \<noteq> OS_TASK_BLOCKED))"

definition lists_inv :: "astate \<Rightarrow> bool" where
  "lists_inv a \<longleftrightarrow> tasks_ok a \<and> queues_ok a \<and> timeouts_ok a \<and> mutex_queues_sorted a \<and> current_ok a"

definition sched_inv :: "astate \<Rightarrow> bool" where
  "sched_inv a \<longleftrightarrow> lists_inv a \<and> next_ok a"

subsection \<open>Consequences\<close>

lemma lists_inv_home:
  "lists_inv a \<Longrightarrow> t \<in> set (waitq a q) \<longleftrightarrow> (\<exists>c. a_tcb a t = Some c \<and> home c = Some q)"
  by (simp add: lists_inv_def queues_ok_def)

lemma lists_inv_distinct: "lists_inv a \<Longrightarrow> distinct (waitq a q)"
  by (simp add: lists_inv_def queues_ok_def)

lemma lists_inv_tcb: "lists_inv a \<Longrightarrow> a_tcb a t = Some c \<Longrightarrow> tcb_ok c"
  by (auto simp: lists_inv_def tasks_ok_def)

lemma lists_inv_has_home: "lists_inv a \<Longrightarrow> a_tcb a t = Some c \<Longrightarrow> \<exists>q. home c = Some q"
  using lists_inv_tcb [of a t c] by (auto simp: tcb_ok_def home_def split: if_splits)

lemma lists_inv_queued: "lists_inv a \<Longrightarrow> valid_task a t \<Longrightarrow> queued a t"
  using lists_inv_tcb [of a t] lists_inv_home [of a t]
  by (fastforce simp: valid_task_iff queued_def home_def tcb_ok_def split: if_splits)

lemma lists_inv_waits:
  assumes "lists_inv a" and "t \<in> set (timeoutq a)"
  shows "waits_in_queue a t"
proof -
  from assms obtain c where c: "a_tcb a t = Some c" "sleeping c"
    by (auto simp: lists_inv_def timeouts_ok_def)
  with lists_inv_tcb [OF assms(1) c(1)] lists_inv_home [OF assms(1), of t SleepQ] show ?thesis
    by (auto simp: waits_in_queue_def sleeping_def home_def tcb_ok_def)
qed

lemma lists_inv_ready:
  assumes "lists_inv a" and "a_tcb a t = Some c" and "tcb_state c \<noteq> OS_TASK_BLOCKED"
  shows "t \<in> set (waitq a (ReadyQ (a_prio a t)))"
  using assms lists_inv_home [OF assms(1), of t "ReadyQ (a_prio a t)"] by (auto simp: home_def task_prio_def)

subsection \<open>Moving one task\<close>

text \<open>Every scheduler operation takes a task out of the queue it is in, changes its fields and puts it
  into the queue it then belongs to.\<close>

lemma set_remove1_home:
  assumes "lists_inv a" and "a_tcb a t = Some c" and "home c = Some q"
  shows "set (waitq (a_remove q t a) r) = set (waitq a r) - {t}"
    and "distinct (waitq (a_remove q t a) r)"
  using assms lists_inv_distinct [OF assms(1)] lists_inv_home [OF assms(1), of t]
  by (auto simp: astate_simps)

lemma sorted_others:
  assumes "lists_inv a" and "a_tcb a t = Some c" and "home c = Some q"
    and same: "\<And>x. x \<noteq> t \<Longrightarrow> f x = a_prio a x"
  shows "sorted (map f (waitq (a_remove q t a) (MutexQ m)))"
proof -
  have "sorted (map (a_prio a) (waitq (a_remove q t a) (MutexQ m)))"
    using assms(1) by (auto simp: lists_inv_def mutex_queues_sorted_def astate_simps sorted_map_remove1)
  moreover have "map f (waitq (a_remove q t a) (MutexQ m)) = map (a_prio a) (waitq (a_remove q t a) (MutexQ m))"
    using set_remove1_home [OF assms(1-3)] same by simp
  ultimately show ?thesis by (simp only:)
qed

lemma lists_inv_move:
  assumes I: "lists_inv a" and c: "a_tcb a t = Some c" "home c = Some q1"
    and tcb: "a_tcb a' = (a_tcb a)(t \<mapsto> c')" and ok: "tcb_ok c'" "home c' = Some q2"
    and cur: "g_current (kern a') = g_current (kern a)"
    and w: "waitq a' = (waitq (a_remove q1 t a))(q2 := ins)"
    and ins: "set ins = insert t (set (waitq (a_remove q1 t a) q2))" "distinct ins"
    and srt: "\<And>m. q2 = MutexQ m \<Longrightarrow> sorted (map (a_prio a') ins)"
    and tq: "distinct (timeoutq a')" "set (timeoutq a') - {t} \<subseteq> set (timeoutq a)"
      "t \<in> set (timeoutq a') \<Longrightarrow> sleeping c'"
  shows "lists_inv a'"
proof -
  note rem = set_remove1_home [OF I c]
  have "tasks_ok a'" using I tcb ok by (auto simp: lists_inv_def tasks_ok_def)
  moreover have "queues_ok a'"
    unfolding queues_ok_def
  proof (intro conjI allI)
    fix r u
    show "u \<in> set (waitq a' r) \<longleftrightarrow> (\<exists>c. a_tcb a' u = Some c \<and> home c = Some r)"
      using rem(1) lists_inv_home [OF I] by (auto simp: w ins tcb ok)
    show "distinct (waitq a' r)" using rem(2) ins(2) by (simp add: w)
  qed
  moreover have "timeouts_ok a'"
    using I tq tcb by (fastforce simp: lists_inv_def timeouts_ok_def)
  moreover have "mutex_queues_sorted a'"
    unfolding mutex_queues_sorted_def
  proof
    fix m
    have "a_prio a' x = a_prio a x" if "x \<noteq> t" for x using that by (simp add: task_prio_def tcb)
    from sorted_others [OF I c this] show "sorted (map (a_prio a') (waitq a' (MutexQ m)))"
      using srt [of m] by (auto simp: w)
  qed
  moreover have "current_ok a'"
    using I by (auto simp: lists_inv_def current_ok_def tcb cur valid_task_def)
  ultimately show ?thesis by (simp add: lists_inv_def)
qed

subsection \<open>The scheduler keeps the invariant\<close>

lemma a_schedule_simps [astate_simps]:
  "waitq (a_schedule_and_pend a) = waitq a" "timeoutq (a_schedule_and_pend a) = timeoutq a"
  "a_tcb (a_schedule_and_pend a) = a_tcb a"
  "g_current (kern (a_schedule_and_pend a)) = g_current (kern a)"
  "g_next (kern (a_schedule_and_pend a)) = first_or (ready_order a) NULL"
  "g_tick (kern (a_schedule_and_pend a)) = g_tick (kern a)"
  "get_queue (kern (a_schedule_and_pend a)) = get_queue (kern a)"
  "mutex_at (kern (a_schedule_and_pend a)) = mutex_at (kern a)"
  "sem_at (kern (a_schedule_and_pend a)) = sem_at (kern a)"
  "primask (kern (a_schedule_and_pend a)) = primask (kern a)"
  "pendsv (kern (a_schedule_and_pend a)) =
     (pendsv (kern a) \<or> first_or (ready_order a) NULL \<noteq> g_current (kern a))"
  "waitq (a_schedule a) = waitq a" "timeoutq (a_schedule a) = timeoutq a"
  "a_tcb (a_schedule a) = a_tcb a"
  "g_current (kern (a_schedule a)) = g_current (kern a)"
  "g_next (kern (a_schedule a)) = first_or (ready_order a) NULL"
  "g_tick (kern (a_schedule a)) = g_tick (kern a)"
  "get_queue (kern (a_schedule a)) = get_queue (kern a)"
  "mutex_at (kern (a_schedule a)) = mutex_at (kern a)"
  "sem_at (kern (a_schedule a)) = sem_at (kern a)"
  "primask (kern (a_schedule a)) = primask (kern a)"
  "pendsv (kern (a_schedule a)) = pendsv (kern a)"
  by (simp_all add: a_schedule_and_pend_def a_schedule_def Let_def astate_simps kstate_simps)

text \<open>The invariant only reads the tasks, the queues and the current task.\<close>

lemma lists_inv_cong:
  assumes "a_tcb a' = a_tcb a" and "waitq a' = waitq a" and "timeoutq a' = timeoutq a"
    and "g_current (kern a') = g_current (kern a)"
  shows "lists_inv a' = lists_inv a"
proof -
  have "a_prio a' = a_prio a" using assms(1) by (simp add: task_prio_def fun_eq_iff)
  with assms show ?thesis
    by (simp add: lists_inv_def tasks_ok_def queues_ok_def timeouts_ok_def mutex_queues_sorted_def
        current_ok_def valid_task_def)
qed

lemma lists_inv_schedule [simp]:
  "lists_inv (a_schedule_and_pend a) = lists_inv a" "lists_inv (a_schedule a) = lists_inv a"
  by (rule lists_inv_cong; simp add: astate_simps)+

lemma mem_ready_order: "t \<in> set (ready_order a) \<longleftrightarrow> (\<exists>p < NUM_PRIORITIES. t \<in> set (waitq a (ReadyQ p)))"
  by (auto simp: ready_order_def)

lemma ready_order_iff:
  assumes "lists_inv a"
  shows "t \<in> set (ready_order a) \<longleftrightarrow> (\<exists>c. a_tcb a t = Some c \<and> tcb_state c \<noteq> OS_TASK_BLOCKED)"
  using lists_inv_home [OF assms, of t] lists_inv_tcb [OF assms, of t]
  by (fastforce simp: mem_ready_order home_def tcb_ok_def waitable_def split: if_splits)

lemma next_ok_schedule: "lists_inv a \<Longrightarrow> next_ok (a_schedule_and_pend a) \<and> next_ok (a_schedule a)"
  using ready_order_iff [of a "first_or (ready_order a) NULL"] first_or_mem [of "ready_order a" NULL]
  by (auto simp: next_ok_def astate_simps)

lemma sched_inv_schedule:
  "lists_inv a \<Longrightarrow> sched_inv (a_schedule_and_pend a)" "lists_inv a \<Longrightarrow> sched_inv (a_schedule a)"
  by (simp_all add: sched_inv_def next_ok_schedule)

subsubsection \<open>Blocking\<close>

text \<open>What a caller of \<open>os_task_block_locked\<close> guarantees: the current task is not blocked, the queue is a
  wait queue, mutexes use priority order, and only the sleep queue is used with a timeout.\<close>

definition block_pre :: "queue_ref \<Rightarrow> u32 \<Rightarrow> bool \<Rightarrow> astate \<Rightarrow> bool" where
  "block_pre q n po a \<longleftrightarrow>
     (\<exists>c. a_tcb a (g_current (kern a)) = Some c \<and> tcb_state c \<noteq> OS_TASK_BLOCKED) \<and>
     waitable q \<and> valid_queue a q \<and> (n \<noteq> OS_WAIT_FOREVER \<longrightarrow> q = SleepQ) \<and>
     ((\<exists>m. q = MutexQ m) \<longrightarrow> po)"

lemma not_sleeping:
  assumes "lists_inv a" and "a_tcb a t = Some c" and "tcb_state c \<noteq> OS_TASK_BLOCKED"
  shows "t \<notin> set (timeoutq a)"
  using assms by (auto simp: lists_inv_def timeouts_ok_def sleeping_def)

lemma distinct_insert_wake: "distinct xs \<Longrightarrow> t \<notin> set xs \<Longrightarrow> distinct (insert_wake f t xs)"
  using set_takeWhile_subset [of "\<lambda>x. \<not> os_tick_reached (f x) (f t)" xs]
    set_dropWhile_subset [of "\<lambda>x. \<not> os_tick_reached (f x) (f t)" xs]
    distinct_append [of "takeWhile (\<lambda>x. \<not> os_tick_reached (f x) (f t)) xs"
      "dropWhile (\<lambda>x. \<not> os_tick_reached (f x) (f t)) xs"]
  by (auto simp: insert_wake_def)

lemma set_insert_wake [simp]: "set (insert_wake f t xs) = insert t (set xs)"
  using set_takeWhile_dropWhile [of "\<lambda>x. \<not> os_tick_reached (f x) (f t)" xs] by (auto simp: insert_wake_def)

lemma block_pre_refines:
  assumes R: "kernel_rel s a" and I: "lists_inv a" and pre: "block_pre q n po a"
  shows "\<exists>s'. os_task_block_locked (Some q) n po s = Some s' \<and> kernel_rel s' (a_block q n po a)"
proof -
  from pre obtain c where c: "a_tcb a (g_current (kern a)) = Some c" "tcb_state c \<noteq> OS_TASK_BLOCKED"
    by (auto simp: block_pre_def)
  with pre lists_inv_ready [OF I c] not_sleeping [OF I c] show ?thesis
    by (intro os_task_block_locked_refines [OF R refl]) (auto simp: block_pre_def valid_task_def)
qed

lemma a_block_inv:
  assumes I: "lists_inv a" and pre: "block_pre q n po a"
  shows "sched_inv (a_block q n po a)"
proof -
  let ?t = "g_current (kern a)"
  from pre obtain c where c: "a_tcb a ?t = Some c" "tcb_state c \<noteq> OS_TASK_BLOCKED"
    and q: "waitable q" "n \<noteq> OS_WAIT_FOREVER \<longrightarrow> q = SleepQ" "\<forall>m. q = MutexQ m \<longrightarrow> po"
    by (auto simp: block_pre_def)
  have h: "home c = Some (ReadyQ (tcb_priority c))" using c by (simp add: home_def)
  have pr: "a_prio a ?t = tcb_priority c" using c by (simp add: task_prio_def)
  let ?c = "(if n \<noteq> OS_WAIT_FOREVER then set_blocked (Some q) c\<lparr>tcb_wake_tick := g_tick (kern a) + n\<rparr>
    else set_blocked (Some q) c)"
  let ?r = "a_remove (ReadyQ (tcb_priority c)) ?t a"
  let ?b = "a_arm n ?t (a_join q po ?t (a_upd ?t (set_blocked (Some q)) (a_ready_remove ?t a)))"
  let ?ins = "if po then insert_prio (a_prio a) ?t (waitq ?r q) else waitq ?r q @ [?t]"
  have rem: "?t \<notin> set (waitq ?r q)" "distinct (waitq ?r q)"
    using set_remove1_home [OF I c(1) h, of q] by simp_all
  have tcb: "a_tcb ?b = (a_tcb a)(?t \<mapsto> ?c)"
    using c by (auto simp: a_arm_def a_ready_remove_def astate_simps fun_eq_iff)
  have prio: "a_prio ?b = a_prio a"
    using c by (auto simp: task_prio_def tcb set_blocked_def fun_eq_iff)
  have "lists_inv ?b"
  proof (rule lists_inv_move [OF I c(1) h tcb, where ?q2.0 = q and ins = ?ins])
    show "tcb_ok ?c" "home ?c = Some q"
      using lists_inv_tcb [OF I c(1)] q by (auto simp: tcb_ok_def home_def set_blocked_def)
    have "a_prio (a_upd ?t (set_blocked (Some q)) (a_ready_remove ?t a)) = a_prio a"
      using c by (auto simp: task_prio_def astate_simps set_blocked_def a_ready_remove_def fun_eq_iff)
    then show "waitq ?b = (waitq ?r)(q := ?ins)"
      by (simp add: a_arm_def a_join_def a_ready_remove_def astate_simps pr)
    show "set ?ins = insert ?t (set (waitq ?r q))" by simp
    show "distinct ?ins" using rem by (simp add: distinct_insert_prio)
    show "sorted (map (a_prio ?b) ?ins)" if "q = MutexQ m" for m
      unfolding prio using that q(3) sorted_others [OF I c(1) h, of "a_prio a" m]
      by (simp add: sorted_insert_prio)
    show "distinct (timeoutq ?b)" "set (timeoutq ?b) - {?t} \<subseteq> set (timeoutq a)"
      "?t \<in> set (timeoutq ?b) \<Longrightarrow> sleeping ?c"
      using I not_sleeping [OF I c] q(2)
      by (auto simp: a_arm_def astate_simps a_ready_remove_def distinct_insert_wake lists_inv_def timeouts_ok_def
          sleeping_def set_blocked_def)
  qed (auto simp: a_arm_def a_ready_remove_def astate_simps set_blocked_def)
  then show ?thesis by (simp add: a_block_def Let_def sched_inv_schedule)
qed

subsubsection \<open>Waking\<close>

text \<open>A task that goes to the end of the ready queue of its priority.\<close>

lemma lists_inv_make_ready:
  assumes I: "lists_inv a" and c: "a_tcb a t = Some c" "home c = Some q"
    and tcb: "a_tcb a' = (a_tcb a)(t \<mapsto> c')" and ok: "tcb_ok c'" "tcb_state c' = OS_TASK_READY"
    and cur: "g_current (kern a') = g_current (kern a)"
    and w: "waitq a' = (waitq (a_remove q t a))
      (ReadyQ (tcb_priority c') := waitq (a_remove q t a) (ReadyQ (tcb_priority c')) @ [t])"
    and tq: "timeoutq a' = remove1 t (timeoutq a) \<or> (timeoutq a' = timeoutq a \<and> t \<notin> set (timeoutq a))"
  shows "lists_inv a'"
proof (rule lists_inv_move [OF I c tcb ok(1) _ cur w])
  show "distinct (waitq (a_remove q t a) (ReadyQ (tcb_priority c')) @ [t])"
    using set_remove1_home [OF I c] by simp
  have "distinct (timeoutq a)" using I by (simp add: lists_inv_def timeouts_ok_def)
  then show "distinct (timeoutq a')" "set (timeoutq a') - {t} \<subseteq> set (timeoutq a)"
    "t \<in> set (timeoutq a') \<Longrightarrow> sleeping c'"
    using tq by auto
qed (use ok in \<open>auto simp: home_def\<close>)

lemma wake_one_pre:
  assumes I: "lists_inv a" and q: "waitable q" "q \<noteq> SleepQ" and w: "waitq a q = t # ts"
  shows "\<exists>c. a_tcb a t = Some c \<and> home c = Some q \<and> tcb_state c = OS_TASK_BLOCKED \<and>
    tcb_wake_tick c = OS_WAIT_FOREVER \<and> tcb_priority c < NUM_PRIORITIES \<and> t \<notin> set (timeoutq a)"
proof -
  from lists_inv_home [OF I, of t q] w obtain c where c: "a_tcb a t = Some c" "home c = Some q" by auto
  with q have b: "tcb_state c = OS_TASK_BLOCKED" "tcb_wait_queue c = Some q"
    by (auto simp: home_def waitable_def split: if_splits)
  moreover have "t \<notin> set (timeoutq a)"
    using I c b q by (auto simp: lists_inv_def timeouts_ok_def sleeping_def)
  ultimately show ?thesis
    using c q lists_inv_tcb [OF I c(1)] by (auto simp: tcb_ok_def)
qed

lemma wake_one_refines:
  assumes R: "kernel_rel s a" and I: "lists_inv a" and q: "waitable q" "q \<noteq> SleepQ" and vq: "valid_queue a q"
  shows "\<exists>s'. os_task_wake_one_locked (Some q) s = Some (fst (a_wake_one q a), s') \<and>
     kernel_rel s' (snd (a_wake_one q a))"
  by (rule os_task_wake_one_locked_refines [OF R vq])
    (use wake_one_pre [OF I q] in \<open>fastforce simp: task_prio_def task_wake_def\<close>)

lemma a_wake_one_Cons:
  assumes I: "lists_inv a" and q: "waitable q" "q \<noteq> SleepQ" and w: "waitq a q = t # ts"
    and c: "a_tcb a t = Some c"
  shows "fst (a_wake_one q a) = t"
    and "a_tcb (snd (a_wake_one q a)) = (a_tcb a)(t \<mapsto> set_woken c)"
    and "waitq (snd (a_wake_one q a)) =
      (waitq a)(q := ts, ReadyQ (tcb_priority c) := waitq a (ReadyQ (tcb_priority c)) @ [t])"
    and "timeoutq (snd (a_wake_one q a)) = timeoutq a"
  using wake_one_pre [OF I q w] c w q
  by (auto simp: a_wake_one_def a_ready_add_def astate_simps task_wake_def task_prio_def set_woken_def
      waitable_def fun_eq_iff)

lemma a_wake_one_globals [astate_simps]:
  "g_current (kern (snd (a_wake_one q a))) = g_current (kern a)"
  "g_next (kern (snd (a_wake_one q a))) = g_next (kern a)"
  "g_tick (kern (snd (a_wake_one q a))) = g_tick (kern a)"
  "pendsv (kern (snd (a_wake_one q a))) = pendsv (kern a)"
  "primask (kern (snd (a_wake_one q a))) = primask (kern a)"
  "get_queue (kern (snd (a_wake_one q a))) = get_queue (kern a)"
  "mutex_at (kern (snd (a_wake_one q a))) = mutex_at (kern a)"
  "sem_at (kern (snd (a_wake_one q a))) = sem_at (kern a)"
  by (cases "waitq a q"; simp add: a_wake_one_def a_ready_add_def astate_simps)+

lemma a_wake_one_inv:
  assumes I: "lists_inv a" and q: "waitable q" "q \<noteq> SleepQ"
  shows "lists_inv (snd (a_wake_one q a))"
proof (cases "waitq a q")
  case Nil
  with I show ?thesis by (simp add: a_wake_one_def)
next
  case (Cons t ts)
  from wake_one_pre [OF I q Cons] obtain c where c: "a_tcb a t = Some c" "home c = Some q"
    "tcb_priority c < NUM_PRIORITIES" "t \<notin> set (timeoutq a)" by blast
  note simps = a_wake_one_Cons [OF I q Cons c(1)]
  show ?thesis
    by (rule lists_inv_make_ready [OF I c(1,2) simps(2)])
      (use c q Cons lists_inv_tcb [OF I c(1)] in
        \<open>auto simp: simps astate_simps set_woken_def tcb_ok_def waitable_def\<close>)
qed

lemma a_wake_one_next_ok:
  assumes I: "lists_inv a" and q: "waitable q" "q \<noteq> SleepQ" and n: "next_ok a"
  shows "next_ok (snd (a_wake_one q a))"
proof (cases "waitq a q")
  case Nil
  with n show ?thesis by (simp add: a_wake_one_def)
next
  case (Cons t ts)
  from wake_one_pre [OF I q Cons] obtain c where c: "a_tcb a t = Some c" by blast
  from n a_wake_one_Cons(2) [OF I q Cons c] show ?thesis
    by (auto simp: next_ok_def astate_simps set_woken_def)
qed

subsubsection \<open>Expiring timeouts\<close>

lemma a_expire_inv:
  assumes I: "lists_inv a" and t: "t \<in> set (timeoutq a)"
  shows "lists_inv (a_expire t a)"
proof -
  from I t obtain c where c: "a_tcb a t = Some c" "sleeping c" by (auto simp: lists_inv_def timeouts_ok_def)
  then have h: "home c = Some SleepQ" and wq: "tcb_wait_queue c = Some SleepQ" by (auto simp: home_def sleeping_def)
  let ?c = "set_expired (c\<lparr>tcb_wait_queue := None\<rparr>)"
  note simps = a_expire_simps [OF lists_inv_waits [OF I t]]
  have "tcb_ok ?c" using lists_inv_tcb [OF I c(1)] by (auto simp: tcb_ok_def set_expired_def)
  then show ?thesis
    by (rule lists_inv_make_ready [OF I c(1) h, where c' = ?c, rotated])
      (use c wq in \<open>auto simp: simps set_expired_def a_expire_def a_leave_def a_ready_add_def astate_simps
        task_prio_def fun_eq_iff\<close>)
qed

lemma a_expire_all_inv:
  assumes "lists_inv a" and "timeoutq a = ts"
  shows "lists_inv (a_expire_all now ts a)"
  using assms
proof (induction ts arbitrary: a)
  case (Cons t ts)
  then have "lists_inv (a_expire t a)" by (intro a_expire_inv) simp_all
  moreover have "timeoutq (a_expire t a) = ts"
    using a_expire_simps(1) [OF lists_inv_waits, of a t] Cons.prems by simp
  ultimately show ?case using Cons by simp
qed simp

lemma a_process_timeouts_inv: "lists_inv a \<Longrightarrow> sched_inv (a_process_timeouts a)"
  by (simp add: a_process_timeouts_def sched_inv_schedule a_expire_all_inv)

lemma process_timeouts_refines:
  assumes "kernel_rel s a" and "lists_inv a"
  shows "\<exists>s'. os_process_timeouts s = Some s' \<and> kernel_rel s' (a_process_timeouts a)"
  using assms by (intro os_process_timeouts_refines) (auto intro: lists_inv_waits)

subsubsection \<open>Changing a priority\<close>

lemma a_set_priority_ready:
  assumes c: "a_tcb a t = Some c" and st: "tcb_state c \<noteq> OS_TASK_BLOCKED" and p: "t \<noteq> NULL" "p < NUM_PRIORITIES"
    and wq: "tcb_wait_queue c = None"
  shows "a_tcb (a_set_priority t p a) = (a_tcb a)(t \<mapsto> c\<lparr>tcb_priority := p\<rparr>)"
    and "waitq (a_set_priority t p a) = (waitq (a_remove (ReadyQ (tcb_priority c)) t a))
      (ReadyQ p := waitq (a_remove (ReadyQ (tcb_priority c)) t a) (ReadyQ p) @ [t])"
    and "timeoutq (a_set_priority t p a) = timeoutq a"
  using assms
  by (auto simp: a_set_priority_def a_assign_def a_requeue_def a_ready_add_def a_ready_remove_def astate_simps
      task_prio_def fun_eq_iff split: option.splits)

lemma a_set_priority_blocked:
  assumes c: "a_tcb a t = Some c" and st: "tcb_state c = OS_TASK_BLOCKED" and p: "t \<noteq> NULL" "p < NUM_PRIORITIES"
    and wq: "tcb_wait_queue c = Some q"
  shows "a_tcb (a_set_priority t p a) = (a_tcb a)(t \<mapsto> c\<lparr>tcb_priority := p\<rparr>)"
    and "waitq (a_set_priority t p a) =
      (waitq (a_remove q t a))(q := insert_prio ((a_prio a)(t := p)) t (waitq (a_remove q t a) q))"
    and "timeoutq (a_set_priority t p a) = timeoutq a"
  using assms
  by (auto simp: a_set_priority_def a_assign_def a_requeue_def astate_simps task_prio_a_upd
      fun_eq_iff split: option.splits)

lemma a_set_priority_globals [astate_simps]:
  "g_current (kern (a_set_priority t p a)) = g_current (kern a)"
  "g_next (kern (a_set_priority t p a)) = g_next (kern a)"
  "g_tick (kern (a_set_priority t p a)) = g_tick (kern a)"
  "pendsv (kern (a_set_priority t p a)) = pendsv (kern a)"
  "primask (kern (a_set_priority t p a)) = primask (kern a)"
  "get_queue (kern (a_set_priority t p a)) = get_queue (kern a)"
  "mutex_at (kern (a_set_priority t p a)) = mutex_at (kern a)"
  "sem_at (kern (a_set_priority t p a)) = sem_at (kern a)"
  "timeoutq (a_set_priority t p a) = timeoutq a"
  by (simp add: a_set_priority_def a_assign_def a_requeue_def a_ready_add_def a_ready_remove_def astate_simps
      split: option.splits)+

lemma a_set_priority_inv:
  assumes I: "lists_inv a" and v: "valid_task a t"
  shows "lists_inv (a_set_priority t p a)"
proof (cases "t = NULL \<or> \<not> p < NUM_PRIORITIES")
  case True
  with I show ?thesis by (auto simp: a_set_priority_def)
next
  case False
  from v obtain c where c: "a_tcb a t = Some c" by (auto simp: valid_task_def)
  note ok = lists_inv_tcb [OF I c]
  let ?c = "c\<lparr>tcb_priority := p\<rparr>"
  have tq: "distinct (timeoutq a)" "t \<in> set (timeoutq a) \<Longrightarrow> sleeping ?c"
    using I c by (auto simp: lists_inv_def timeouts_ok_def sleeping_def)
  show ?thesis
  proof (cases "tcb_state c = OS_TASK_BLOCKED")
    case b: True
    with ok obtain q where q: "tcb_wait_queue c = Some q" by (auto simp: tcb_ok_def)
    with b have h: "home c = Some q" by (simp add: home_def)
    note simps = a_set_priority_blocked [OF c b _ _ q, of p]
    have f: "a_prio (a_set_priority t p a) = (a_prio a)(t := p)"
      using simps(1) False by (auto simp: task_prio_def fun_eq_iff)
    show ?thesis
    proof (rule lists_inv_move [OF I c h simps(1) _ _ _ simps(2)])
      show "distinct (insert_prio ((a_prio a)(t := p)) t (waitq (a_remove q t a) q))"
        using set_remove1_home [OF I c h, of q] by (intro distinct_insert_prio) auto
      show "sorted (map (a_prio (a_set_priority t p a)) (insert_prio ((a_prio a)(t := p)) t (waitq (a_remove q t a) q)))"
        if "q = MutexQ m" for m
        unfolding f using sorted_others [OF I c h, of "(a_prio a)(t := p)" m] that
        by (intro sorted_insert_prio) simp
    qed (use False ok b q tq in \<open>auto simp: astate_simps tcb_ok_def home_def\<close>)
  next
    case b: False
    with ok have wq: "tcb_wait_queue c = None" by (auto simp: tcb_ok_def)
    from b have h: "home c = Some (ReadyQ (tcb_priority c))" by (simp add: home_def)
    note simps = a_set_priority_ready [OF c b _ _ wq, of p]
    show ?thesis
    proof (rule lists_inv_move [OF I c h simps(1) _ _ _ simps(2)])
      show "distinct (waitq (a_remove (ReadyQ (tcb_priority c)) t a) (ReadyQ p) @ [t])"
        using set_remove1_home [OF I c h, of "ReadyQ p"] by simp
    qed (use False ok b wq tq in \<open>auto simp: astate_simps tcb_ok_def home_def\<close>)
  qed
qed

lemma a_set_priority_tcb:
  assumes I: "lists_inv a" and c: "a_tcb a t = Some c"
  shows "a_tcb (a_set_priority t p a) =
    (if p < NUM_PRIORITIES then (a_tcb a)(t \<mapsto> c\<lparr>tcb_priority := p\<rparr>) else a_tcb a)"
proof (cases "tcb_state c = OS_TASK_BLOCKED")
  case True
  with lists_inv_tcb [OF I c] obtain q where "tcb_wait_queue c = Some q" by (auto simp: tcb_ok_def)
  with a_set_priority_blocked(1) [OF c True] c show ?thesis by (auto simp: a_set_priority_def)
next
  case False
  with lists_inv_tcb [OF I c] have "tcb_wait_queue c = None" by (auto simp: tcb_ok_def)
  with a_set_priority_ready(1) [OF c False] c show ?thesis by (auto simp: a_set_priority_def)
qed

lemma a_set_priority_next_ok:
  assumes I: "lists_inv a" and v: "valid_task a t" and n: "next_ok a"
  shows "next_ok (a_set_priority t p a)"
proof -
  from v obtain c where c: "a_tcb a t = Some c" by (auto simp: valid_task_def)
  from n c a_set_priority_tcb [OF I c, of p] show ?thesis by (auto simp: next_ok_def astate_simps)
qed

lemma set_priority_refines:
  assumes "kernel_rel s a" and "lists_inv a" and "valid_task a t"
  shows "\<exists>s'. os_task_set_priority t p s = Some s' \<and> kernel_rel s' (a_set_priority t p a)"
  using assms by (intro os_task_set_priority_refines) (auto intro: lists_inv_queued)

subsubsection \<open>Round robin and context switch\<close>

lemma a_rotate_simps [astate_simps]:
  "kern (a_rotate t a) = kern a" "timeoutq (a_rotate t a) = timeoutq a"
  by (simp_all add: a_rotate_def Let_def astate_simps)

lemma a_rotate_inv:
  assumes I: "lists_inv a"
  shows "lists_inv (a_rotate t a)"
proof (cases "t \<noteq> NULL \<and> first_or (waitq a (ReadyQ (a_prio a t))) NULL = t")
  case False
  then show ?thesis using I by (auto simp: a_rotate_def Let_def)
next
  case True
  let ?q = "ReadyQ (a_prio a t)"
  from True obtain ts where w: "waitq a ?q = t # ts" by (cases "waitq a ?q") auto
  with lists_inv_home [OF I, of t ?q] obtain c where c: "a_tcb a t = Some c" "home c = Some ?q" by auto
  have "t \<notin> set ts" "distinct ts" using lists_inv_distinct [OF I, of ?q] w by auto
  then show ?thesis
    by (intro lists_inv_move [OF I c, where c' = c and ?q2.0 = ?q and ins = "ts @ [t]"])
      (use True w c I lists_inv_tcb [OF I c(1)] in
        \<open>auto simp: a_rotate_def Let_def astate_simps lists_inv_def timeouts_ok_def current_ok_def fun_eq_iff\<close>)
qed

lemma rotate_refines:
  assumes R: "kernel_rel s a" and I: "lists_inv a" and v: "t \<noteq> NULL \<Longrightarrow> valid_task a t"
  shows "\<exists>s'. os_ready_queue_rotate t s = Some s' \<and> kernel_rel s' (a_rotate t a)"
proof (cases "t = NULL")
  case True
  with R show ?thesis by (simp add: os_ready_queue_rotate_NULL a_rotate_def)
next
  case False
  with v obtain c where c: "a_tcb a t = Some c" by (auto simp: valid_task_def)
  with lists_inv_tcb [OF I c] v [OF False] show ?thesis
    by (intro os_ready_queue_rotate_refines [OF R]) (simp_all add: task_prio_def tcb_ok_def)
qed

lemma home_not_blocked:
  "tcb_state c \<noteq> OS_TASK_BLOCKED \<Longrightarrow> x \<noteq> OS_TASK_BLOCKED \<Longrightarrow> home (c\<lparr>tcb_state := x\<rparr>) = home c"
  by (simp add: home_def)

text \<open>Exchanging ready for running, or back, moves no task.\<close>

lemma a_upd_state_inv:
  assumes I: "lists_inv a" and c: "a_tcb a t = Some c" "tcb_state c \<noteq> OS_TASK_BLOCKED" and x: "x \<noteq> OS_TASK_BLOCKED"
  shows "lists_inv (a_upd t (\<lambda>c. c\<lparr>tcb_state := x\<rparr>) a)"
proof -
  let ?a = "a_upd t (\<lambda>c. c\<lparr>tcb_state := x\<rparr>) a"
  have p: "a_prio ?a = a_prio a" using c by (simp add: astate_simps task_prio_a_upd fun_eq_iff) (simp add: task_prio_def)
  have h: "home (c\<lparr>tcb_state := x\<rparr>) = home c" using c x by (simp add: home_not_blocked)
  have ns: "t \<notin> set (timeoutq a)" by (rule not_sleeping [OF I c])
  have "queues_ok ?a"
    using I c h by (auto simp: lists_inv_def queues_ok_def astate_simps)
  moreover have "tasks_ok ?a"
    using I c x by (auto simp: lists_inv_def tasks_ok_def tcb_ok_def astate_simps)
  moreover have "timeouts_ok ?a"
    using I ns by (auto simp: lists_inv_def timeouts_ok_def astate_simps)
  moreover have "mutex_queues_sorted ?a"
    using I by (simp add: lists_inv_def mutex_queues_sorted_def p astate_simps)
  moreover have "current_ok ?a"
    using I by (simp add: lists_inv_def current_ok_def astate_simps)
  ultimately show ?thesis by (simp add: lists_inv_def)
qed

text \<open>A switch to a ready task: the old task becomes ready unless it has blocked, the new one runs.\<close>

lemma a_commit_inv:
  assumes I: "sched_inv a"
  shows "sched_inv (a_commit a)"
proof (cases "g_next (kern a) = NULL")
  case True
  with I show ?thesis by (simp add: a_commit_def)
next
  case False
  let ?p = "g_current (kern a)" and ?n = "g_next (kern a)"
  let ?rdy = "\<lambda>c :: os_tcb_t. c\<lparr>tcb_state := OS_TASK_READY\<rparr>"
  let ?b = "?p \<noteq> NULL \<and> ?p \<noteq> ?n \<and> map_option tcb_state (a_tcb a ?p) = Some OS_TASK_RUNNING"
  let ?a1 = "if ?b then a_upd ?p ?rdy a else a"
  let ?a2 = "a_kern (g_current_update (\<lambda>_. ?n)) ?a1"
  from I have L: "lists_inv a" by (simp add: sched_inv_def)
  from I False obtain n where n: "a_tcb a ?n = Some n" "tcb_state n \<noteq> OS_TASK_BLOCKED"
    by (auto simp: sched_inv_def next_ok_def)
  have L1: "lists_inv ?a1"
    using L by (auto intro!: a_upd_state_inv)
  have n1: "a_tcb ?a1 ?n = Some n" using n by (auto simp: astate_simps)
  have "a_prio ?a2 = a_prio ?a1" by (simp add: task_prio_def astate_simps kstate_simps fun_eq_iff)
  then have "tasks_ok ?a2" "queues_ok ?a2" "timeouts_ok ?a2" "mutex_queues_sorted ?a2"
    using L1 by (simp_all add: lists_inv_def tasks_ok_def queues_ok_def timeouts_ok_def
        mutex_queues_sorted_def astate_simps kstate_simps split del: if_split)
  moreover have "current_ok ?a2"
    using n1 by (fastforce simp: current_ok_def astate_simps kstate_simps valid_task_def split del: if_split)
  ultimately have L2: "lists_inv ?a2" by (simp add: lists_inv_def)
  have "lists_inv (a_upd ?n (\<lambda>c. c\<lparr>tcb_state := OS_TASK_RUNNING\<rparr>) ?a2)"
    by (rule a_upd_state_inv [OF L2, of _ n])
      (use n n1 in \<open>simp_all add: astate_simps kstate_simps split del: if_split\<close>)
  moreover have "next_ok (a_upd ?n (\<lambda>c. c\<lparr>tcb_state := OS_TASK_RUNNING\<rparr>) ?a2)"
    using n1 by (auto simp: next_ok_def astate_simps kstate_simps)
  ultimately show ?thesis
    using False by (simp add: a_commit_def sched_inv_def Let_def)
qed

lemma commit_refines:
  assumes R: "kernel_rel s a" and I: "sched_inv a"
  shows "\<exists>s'. os_commit_switch s = Some s' \<and> kernel_rel s' (a_commit a)"
  by (rule os_commit_switch_refines [OF R])
    (use I in \<open>auto simp: sched_inv_def next_ok_def lists_inv_def current_ok_def valid_task_def\<close>)

end
