(* ===== verification/Kernel_Ok.thy ===== *)
theory Kernel_Ok
  imports Kernel_Invariant
begin

text \<open>
  The invariant of the whole kernel: the scheduler's invariant, what it says about semaphores (a
  positive count means that nobody waits) and mutexes (a free mutex has no waiters, an owner is a
  task and does not wait for its own mutex), and \<open>kernel_ok\<close>, the statement that the pointers of a
  concrete kernel state represent an abstract state with these properties.
\<close>

definition sems_ok :: "astate \<Rightarrow> bool" where
  "sems_ok a \<longleftrightarrow> (\<forall>m x. sem_at (kern a) m = Some x \<and> 0 < sint (sem_count x) \<longrightarrow> waitq a (SemQ m) = [])"

definition mutexes_ok :: "astate \<Rightarrow> bool" where
  "mutexes_ok a \<longleftrightarrow> (\<forall>m x. mutex_at (kern a) m = Some x \<longrightarrow>
     (if mtx_owner x = NULL then waitq a (MutexQ m) = []
      else valid_task a (mtx_owner x) \<and> mtx_owner x \<notin> set (waitq a (MutexQ m))))"

definition no_blocked_on :: "astate \<Rightarrow> bool" where
  "no_blocked_on a \<longleftrightarrow> (\<forall>t c. a_tcb a t = Some c \<longrightarrow> tcb_blocked_on c = NULL)"

definition objects_inv :: "astate \<Rightarrow> bool" where
  "objects_inv a \<longleftrightarrow> sched_inv a \<and> sems_ok a \<and> mutexes_ok a"

definition kernel_inv :: "astate \<Rightarrow> bool" where
  "kernel_inv a \<longleftrightarrow> objects_inv a \<and> no_blocked_on a"

definition kernel_ok :: "kstate \<Rightarrow> bool" where
  "kernel_ok s \<longleftrightarrow> (\<exists>a. kernel_rel s a \<and> kernel_inv a)"

subsection \<open>Empty queues\<close>

lemma waitq_Nil_iff:
  "lists_inv a \<Longrightarrow> waitq a q = [] \<longleftrightarrow> (\<forall>t c. a_tcb a t = Some c \<longrightarrow> home c \<noteq> Some q)"
  using lists_inv_home [of a _ q] by (metis list.set_intros(1) neq_Nil_conv empty_iff empty_set)

text \<open>The effect of an operation that changes one task, as far as semaphores and mutexes are concerned.\<close>

lemma sems_ok_cong:
  assumes "sems_ok a" and "lists_inv a" and "lists_inv a'" and "sem_at (kern a') = sem_at (kern a)"
    and "\<And>t c' m. a_tcb a' t = Some c' \<Longrightarrow> home c' = Some (SemQ m) \<Longrightarrow>
      (\<exists>c. a_tcb a t = Some c \<and> home c = Some (SemQ m)) \<or>
      (\<exists>x. sem_at (kern a) m = Some x \<and> \<not> 0 < sint (sem_count x))"
  shows "sems_ok a'"
  unfolding sems_ok_def
proof (intro allI impI)
  fix m x
  assume x: "sem_at (kern a') m = Some x \<and> 0 < sint (sem_count x)"
  with assms(1,4) have "waitq a (SemQ m) = []" by (auto simp: sems_ok_def)
  then have "\<forall>t c. a_tcb a t = Some c \<longrightarrow> home c \<noteq> Some (SemQ m)"
    by (simp add: waitq_Nil_iff [OF assms(2)])
  with assms(4,5) x show "waitq a' (SemQ m) = []"
    by (fastforce simp: waitq_Nil_iff [OF assms(3)])
qed

lemma mutexes_ok_cong:
  assumes ok: "mutexes_ok a" and L: "lists_inv a" and L': "lists_inv a'"
    and m: "mutex_at (kern a') = mutex_at (kern a)" and v: "\<And>t. valid_task a t \<Longrightarrow> valid_task a' t"
    and h: "\<And>t c' m. a_tcb a' t = Some c' \<Longrightarrow> home c' = Some (MutexQ m) \<Longrightarrow>
      (\<exists>c. a_tcb a t = Some c \<and> home c = Some (MutexQ m)) \<or>
      (\<exists>x. mutex_at (kern a) m = Some x \<and> mtx_owner x \<noteq> NULL \<and> mtx_owner x \<noteq> t)"
  shows "mutexes_ok a'"
  unfolding mutexes_ok_def
proof (intro allI impI)
  fix k x
  assume "mutex_at (kern a') k = Some x"
  with m have x: "mutex_at (kern a) k = Some x" by simp
  have new: "t \<in> set (waitq a k') \<or> (\<exists>x. mutex_at (kern a) k = Some x \<and> mtx_owner x \<noteq> NULL \<and> mtx_owner x \<noteq> t)"
    if "t \<in> set (waitq a' (MutexQ k))" "k' = MutexQ k" for t k'
    using that h [of t _ k] by (auto simp: lists_inv_home [OF L] lists_inv_home [OF L'])
  show "if mtx_owner x = NULL then waitq a' (MutexQ k) = []
      else valid_task a' (mtx_owner x) \<and> mtx_owner x \<notin> set (waitq a' (MutexQ k))"
  proof (cases "mtx_owner x = NULL")
    case True
    with ok x have "waitq a (MutexQ k) = []" by (auto simp: mutexes_ok_def)
    then have "set (waitq a' (MutexQ k)) = {}" using new True x by fastforce
    with True show ?thesis by simp
  next
    case False
    with ok x have "valid_task a (mtx_owner x)" "mtx_owner x \<notin> set (waitq a (MutexQ k))"
      by (auto simp: mutexes_ok_def)
    with False new x v show ?thesis by auto
  qed
qed

text \<open>Operations that write none of the parts the invariant reads.\<close>

lemma objects_inv_cong:
  assumes "a_tcb a' = a_tcb a" and "waitq a' = waitq a" and "timeoutq a' = timeoutq a"
    and "g_current (kern a') = g_current (kern a)" and "g_next (kern a') = g_next (kern a)"
    and "sem_at (kern a') = sem_at (kern a)" and "mutex_at (kern a') = mutex_at (kern a)"
  shows "objects_inv a' = objects_inv a"
  using assms lists_inv_cong [of a' a]
  by (simp add: objects_inv_def sched_inv_def next_ok_def sems_ok_def mutexes_ok_def valid_task_def)

lemma kernel_inv_cong:
  assumes "a_tcb a' = a_tcb a" and "waitq a' = waitq a" and "timeoutq a' = timeoutq a"
    and "g_current (kern a') = g_current (kern a)" and "g_next (kern a') = g_next (kern a)"
    and "sem_at (kern a') = sem_at (kern a)" and "mutex_at (kern a') = mutex_at (kern a)"
  shows "kernel_inv a' = kernel_inv a"
  using assms objects_inv_cong [of a' a] by (simp add: kernel_inv_def no_blocked_on_def)

lemma kernel_inv_primask [simp]: "kernel_inv (a_kern (primask_update f) a) = kernel_inv a"
  and kernel_inv_pendsv [simp]: "kernel_inv (a_kern (pendsv_update g) a) = kernel_inv a"
  and kernel_inv_tick [simp]: "kernel_inv (a_kern (g_tick_update h) a) = kernel_inv a"
  by (rule kernel_inv_cong; simp add: astate_simps kstate_simps)+

lemma objects_invD:
  assumes "objects_inv a"
  shows "sched_inv a" "lists_inv a" "next_ok a" "sems_ok a" "mutexes_ok a"
  using assms by (simp_all add: objects_inv_def sched_inv_def)

lemma kernel_invD:
  assumes "kernel_inv a"
  shows "sched_inv a" "lists_inv a" "next_ok a" "sems_ok a" "mutexes_ok a" "no_blocked_on a" "objects_inv a"
  using assms by (simp_all add: kernel_inv_def objects_inv_def sched_inv_def)

text \<open>\<open>schedule_and_pend\<close> only writes \<open>g_next\<close> and the pending bit.\<close>

lemma valid_task_schedule [simp]:
  "valid_task (a_schedule_and_pend a) = valid_task a" "valid_task (a_schedule a) = valid_task a"
  by (simp_all add: valid_task_def fun_eq_iff astate_simps)

lemma objects_inv_schedule:
  assumes "lists_inv a" and "sems_ok a" and "mutexes_ok a"
  shows "objects_inv (a_schedule_and_pend a)" and "objects_inv (a_schedule a)"
  using assms sched_inv_schedule [OF assms(1)]
  by (simp_all add: objects_inv_def sems_ok_def mutexes_ok_def astate_simps)

lemma kernel_inv_schedule:
  assumes "lists_inv a" and "sems_ok a" and "mutexes_ok a" and "no_blocked_on a"
  shows "kernel_inv (a_schedule_and_pend a)" and "kernel_inv (a_schedule a)"
  using objects_inv_schedule [OF assms(1-3)] assms(4)
  by (simp_all add: kernel_inv_def no_blocked_on_def astate_simps)

subsection \<open>Blocking and waking keep the invariant\<close>

lemma a_block_tcb:
  assumes "a_tcb a (g_current (kern a)) = Some c"
  shows "\<exists>k. a_tcb (a_block q n po a) =
    (a_tcb a)(g_current (kern a) \<mapsto> (set_blocked (Some q) c)\<lparr>tcb_wake_tick := k\<rparr>)"
proof (cases "n = OS_WAIT_FOREVER")
  case True
  have "set_blocked (Some q) c = (set_blocked (Some q) c)\<lparr>tcb_wake_tick := OS_WAIT_FOREVER\<rparr>"
    by (simp add: set_blocked_def)
  with True assms show ?thesis
    by (simp add: a_block_def Let_def a_arm_def a_ready_remove_def astate_simps) metis
next
  case False
  with assms show ?thesis
    by (intro exI [of _ "g_tick (kern a) + n"])
      (simp add: a_block_def Let_def a_arm_def a_ready_remove_def astate_simps)
qed

lemma a_block_globals [astate_simps]:
  "g_current (kern (a_block q n po a)) = g_current (kern a)"
  "g_tick (kern (a_block q n po a)) = g_tick (kern a)"
  "primask (kern (a_block q n po a)) = primask (kern a)"
  "get_queue (kern (a_block q n po a)) = get_queue (kern a)"
  "mutex_at (kern (a_block q n po a)) = mutex_at (kern a)"
  "sem_at (kern (a_block q n po a)) = sem_at (kern a)"
  by (simp_all add: a_block_def Let_def a_arm_def a_ready_remove_def astate_simps)

text \<open>A task may block on a semaphore that has no units left, and on a mutex another task owns.\<close>

definition may_block :: "queue_ref \<Rightarrow> astate \<Rightarrow> bool" where
  "may_block q a \<longleftrightarrow> (case q of
     SemQ m \<Rightarrow> \<exists>x. sem_at (kern a) m = Some x \<and> \<not> 0 < sint (sem_count x)
   | MutexQ m \<Rightarrow> \<exists>x. mutex_at (kern a) m = Some x \<and> mtx_owner x \<noteq> NULL \<and> mtx_owner x \<noteq> g_current (kern a)
   | _ \<Rightarrow> True)"

lemma no_blocked_on_upd:
  assumes "no_blocked_on a" and "a_tcb a t = Some c" and "a_tcb a' = (a_tcb a)(t \<mapsto> c')"
    and "tcb_blocked_on c' = tcb_blocked_on c"
  shows "no_blocked_on a'"
  using assms by (auto simp: no_blocked_on_def)

lemma objects_inv_block:
  assumes I: "objects_inv a" and pre: "block_pre q n po a" and m: "may_block q a"
  shows "objects_inv (a_block q n po a)"
proof -
  note D = objects_invD [OF I]
  let ?a = "a_block q n po a"
  from pre obtain c where c: "a_tcb a (g_current (kern a)) = Some c" by (auto simp: block_pre_def)
  from a_block_tcb [OF c] obtain k where
    tcb: "a_tcb ?a = (a_tcb a)(g_current (kern a) \<mapsto> (set_blocked (Some q) c)\<lparr>tcb_wake_tick := k\<rparr>)" by blast
  have S: "sched_inv ?a" by (rule a_block_inv [OF D(2) pre])
  then have L: "lists_inv ?a" by (simp add: sched_inv_def)
  have "sems_ok ?a"
    by (rule sems_ok_cong [OF D(4,2) L])
      (use m in \<open>auto simp: astate_simps tcb home_def set_blocked_def may_block_def split: if_splits\<close>)
  moreover have "mutexes_ok ?a"
    by (rule mutexes_ok_cong [OF D(5,2) L])
      (use m in \<open>auto simp: astate_simps tcb home_def set_blocked_def may_block_def valid_task_def split: if_splits\<close>)
  ultimately show ?thesis using S by (simp add: objects_inv_def)
qed

lemma kernel_inv_block:
  assumes I: "kernel_inv a" and pre: "block_pre q n po a" and m: "may_block q a"
  shows "kernel_inv (a_block q n po a)"
proof -
  from pre obtain c where c: "a_tcb a (g_current (kern a)) = Some c" by (auto simp: block_pre_def)
  from a_block_tcb [OF c, of q n po] have "no_blocked_on (a_block q n po a)"
    using no_blocked_on_upd [OF kernel_invD(6) [OF I] c] by (auto simp: set_blocked_def)
  with objects_inv_block [OF kernel_invD(7) [OF I] pre m] show ?thesis by (simp add: kernel_inv_def)
qed

text \<open>A change of one task after which it is where it was, or in a ready queue.\<close>

lemma objects_inv_upd:
  assumes I: "objects_inv a" and L: "lists_inv a'" and n: "next_ok a'" and c: "a_tcb a t = Some c"
    and tcb: "a_tcb a' = (a_tcb a)(t \<mapsto> c')" and h: "home c' = home c \<or> (\<exists>p. home c' = Some (ReadyQ p))"
    and k: "sem_at (kern a') = sem_at (kern a)" "mutex_at (kern a') = mutex_at (kern a)"
  shows "objects_inv a'"
proof -
  note D = objects_invD [OF I]
  have "sems_ok a'"
    by (rule sems_ok_cong [OF D(4,2) L k(1)]) (use h c in \<open>auto simp: tcb split: if_splits\<close>)
  moreover have "mutexes_ok a'"
    by (rule mutexes_ok_cong [OF D(5,2) L k(2)]) (use h c in \<open>auto simp: tcb valid_task_def split: if_splits\<close>)
  ultimately show ?thesis
    using L n by (simp add: objects_inv_def sched_inv_def)
qed

lemma objects_inv_wake_one:
  assumes I: "objects_inv a" and q: "waitable q" "q \<noteq> SleepQ"
  shows "objects_inv (snd (a_wake_one q a))"
proof (cases "waitq a q")
  case Nil
  with I show ?thesis by (simp add: a_wake_one_def)
next
  case (Cons t ts)
  note D = objects_invD [OF I]
  from wake_one_pre [OF D(2) q Cons] obtain c where c: "a_tcb a t = Some c" by blast
  show ?thesis
    by (rule objects_inv_upd [OF I a_wake_one_inv [OF D(2) q] a_wake_one_next_ok [OF D(2) q D(3)] c
          a_wake_one_Cons(2) [OF D(2) q Cons c]])
      (simp_all add: astate_simps set_woken_def home_def)
qed

lemma kernel_inv_wake_one:
  assumes I: "kernel_inv a" and q: "waitable q" "q \<noteq> SleepQ"
  shows "kernel_inv (snd (a_wake_one q a))"
proof -
  note D = kernel_invD [OF I]
  have "no_blocked_on (snd (a_wake_one q a))"
  proof (cases "waitq a q")
    case Nil
    with D show ?thesis by (simp add: a_wake_one_def)
  next
    case (Cons t ts)
    from wake_one_pre [OF D(2) q Cons] obtain c where c: "a_tcb a t = Some c" by blast
    show ?thesis
      by (rule no_blocked_on_upd [OF D(6) c a_wake_one_Cons(2) [OF D(2) q Cons c]]) (simp add: set_woken_def)
  qed
  with objects_inv_wake_one [OF D(7) q] show ?thesis by (simp add: kernel_inv_def)
qed

lemma objects_inv_set_priority:
  assumes I: "objects_inv a" and v: "valid_task a t"
  shows "objects_inv (a_set_priority t p a)"
proof (cases "p < NUM_PRIORITIES")
  case False
  with I show ?thesis by (simp add: a_set_priority_def)
next
  case True
  note D = objects_invD [OF I]
  from v obtain c where c: "a_tcb a t = Some c" by (auto simp: valid_task_def)
  show ?thesis
    by (rule objects_inv_upd [OF I a_set_priority_inv [OF D(2) v] a_set_priority_next_ok [OF D(2) v D(3)] c])
      (use a_set_priority_tcb [OF D(2) c, of p] True in \<open>auto simp: astate_simps home_def\<close>)
qed

lemma kernel_inv_set_priority:
  assumes I: "kernel_inv a" and v: "valid_task a t"
  shows "kernel_inv (a_set_priority t p a)"
proof -
  from v obtain c where c: "a_tcb a t = Some c" by (auto simp: valid_task_def)
  with a_set_priority_tcb [OF kernel_invD(2) [OF I] c, of p] kernel_invD(6) [OF I]
  have "no_blocked_on (a_set_priority t p a)" by (auto simp: no_blocked_on_def)
  with objects_inv_set_priority [OF kernel_invD(7) [OF I] v] show ?thesis by (simp add: kernel_inv_def)
qed

text \<open>Assigning fields the invariant does not read.\<close>

definition keeps_sched :: "(os_tcb_t \<Rightarrow> os_tcb_t) \<Rightarrow> bool" where
  "keeps_sched f \<longleftrightarrow> (\<forall>c. tcb_priority (f c) = tcb_priority c \<and> tcb_base_priority (f c) = tcb_base_priority c \<and>
     tcb_state (f c) = tcb_state c \<and> tcb_wait_queue (f c) = tcb_wait_queue c \<and> tcb_wake_tick (f c) = tcb_wake_tick c)"

lemma keeps_sched_fields [simp, intro]:
  "keeps_sched (\<lambda>c. c\<lparr>tcb_owned_mutexes := x1\<rparr>)" "keeps_sched (\<lambda>c. c\<lparr>tcb_blocked_on := x2\<rparr>)"
  "keeps_sched (\<lambda>c. c\<lparr>tcb_sp := x3\<rparr>)"
  by (simp_all add: keeps_sched_def)

lemma keeps_sched_preds:
  assumes "keeps_sched f"
  shows "tcb_ok (f c) = tcb_ok c" "home (f c) = home c" "sleeping (f c) = sleeping c"
  using assms by (simp_all add: keeps_sched_def tcb_ok_def home_def sleeping_def)

lemma a_prio_keeps: "keeps_sched f \<Longrightarrow> a_prio (a_upd t f a) = a_prio a"
  by (auto simp: task_prio_def astate_simps keeps_sched_def fun_eq_iff split: option.splits)

lemma lists_inv_upd:
  assumes f: "keeps_sched f" and I: "lists_inv a"
  shows "lists_inv (a_upd t f a)"
proof -
  have "tasks_ok (a_upd t f a)" "queues_ok (a_upd t f a)" "timeouts_ok (a_upd t f a)"
    using I by (auto simp: lists_inv_def tasks_ok_def queues_ok_def timeouts_ok_def astate_simps keeps_sched_preds [OF f])
  moreover have "mutex_queues_sorted (a_upd t f a)"
    using I by (simp add: lists_inv_def mutex_queues_sorted_def astate_simps a_prio_keeps [OF f])
  moreover have "current_ok (a_upd t f a)"
    using I f by (auto simp: lists_inv_def current_ok_def astate_simps keeps_sched_def)
  ultimately show ?thesis by (simp add: lists_inv_def)
qed

lemma objects_inv_keeps:
  assumes f: "keeps_sched f" and I: "objects_inv a"
  shows "objects_inv (a_upd t f a)"
proof (cases "a_tcb a t")
  case None
  with I show ?thesis by (simp add: a_upd_def)
next
  case (Some c)
  note D = objects_invD [OF I]
  have "next_ok (a_upd t f a)" using D(3) f by (auto simp: next_ok_def astate_simps keeps_sched_def)
  with Some show ?thesis
    by (intro objects_inv_upd [OF I lists_inv_upd [OF f D(2)] _ Some])
      (auto simp: astate_simps keeps_sched_preds [OF f])
qed

lemma ready_order_schedule [astate_simps]:
  "ready_order (a_schedule_and_pend a) = ready_order a" "ready_order (a_schedule a) = ready_order a"
  by (simp_all add: ready_order_def astate_simps)

lemma a_block_schedules:
  "\<exists>b. a_block q n po a = a_schedule_and_pend b \<and> g_current (kern b) = g_current (kern a)"
  by (simp add: a_block_def Let_def, rule exI, rule conjI, rule refl)
    (simp add: a_arm_def a_ready_remove_def astate_simps)

text \<open>A blocked task leaves the choice to another one.\<close>

lemma a_block_switches:
  assumes I: "lists_inv a" and pre: "block_pre q n po a"
  shows "g_next (kern (a_block q n po a)) \<noteq> g_current (kern a)" "pendsv (kern (a_block q n po a))"
proof -
  let ?a = "a_block q n po a" and ?t = "g_current (kern a)"
  from pre obtain c where c: "a_tcb a ?t = Some c" by (auto simp: block_pre_def)
  from a_block_tcb [OF c, of q n po] obtain k where "a_tcb ?a ?t = Some ((set_blocked (Some q) c)\<lparr>tcb_wake_tick := k\<rparr>)"
    by auto
  moreover have "lists_inv ?a" using a_block_inv [OF I pre] by (simp add: sched_inv_def)
  ultimately have "?t \<notin> set (ready_order ?a)" by (auto simp: ready_order_iff set_blocked_def)
  moreover have "?t \<noteq> NULL" using c by auto
  ultimately have "first_or (ready_order ?a) NULL \<noteq> ?t" using first_or_mem [of "ready_order ?a" NULL] by auto
  moreover from a_block_schedules [of q n po a] obtain b where
    "?a = a_schedule_and_pend b" "g_current (kern b) = ?t" by blast
  ultimately show "g_next (kern ?a) \<noteq> ?t" "pendsv (kern ?a)"
    by (simp_all add: astate_simps)
qed

lemma a_block_waitq:
  assumes "\<And>p. q \<noteq> ReadyQ p"
  shows "waitq (a_block q n False a) q = waitq a q @ [g_current (kern a)]"
  using assms by (simp add: a_block_def Let_def a_arm_def a_join_def a_ready_remove_def astate_simps)

end
