(* ===== verification/Sample_Kernel.thy ===== *)
theory Sample_Kernel
  imports Kernel_Ok
begin

text \<open>
  A kernel state with a task in every situation: the idle task is ready, a low task runs and owns a mutex
  another low task waits for, a high task waits for a semaphore, a medium task sleeps for one more tick. The
  objects of a message queue at \<open>0x3000\<close> are there too, not yet in use.
  The theorems about arbitrary kernel states are applied to it.
\<close>

definition task0 :: os_tcb_t where
  "task0 = \<lparr>tcb_sp = 0, tcb_base_priority = 2, tcb_priority = 2, tcb_state = OS_TASK_READY,
     tcb_next = NULL, tcb_prev = NULL, tcb_timeout_next = NULL, tcb_timeout_prev = NULL,
     tcb_wait_queue = None, tcb_owned_mutexes = NULL, tcb_blocked_on = NULL,
     tcb_wake_tick = OS_WAIT_FOREVER, tcb_wait_result = 0\<rparr>"

definition sample_idle :: os_tcb_t where
  "sample_idle = task0\<lparr>tcb_base_priority := 3, tcb_priority := 3\<rparr>"

definition sample_low :: os_tcb_t where
  "sample_low = task0\<lparr>tcb_state := OS_TASK_RUNNING, tcb_owned_mutexes := 0x1000\<rparr>"

definition sample_high :: os_tcb_t where
  "sample_high = task0\<lparr>tcb_base_priority := 0, tcb_priority := 0, tcb_state := OS_TASK_BLOCKED,
     tcb_wait_queue := Some (SemQ 0x2000)\<rparr>"

definition sample_medium :: os_tcb_t where
  "sample_medium = task0\<lparr>tcb_base_priority := 1, tcb_priority := 1, tcb_state := OS_TASK_BLOCKED,
     tcb_wait_queue := Some SleepQ, tcb_wake_tick := 10\<rparr>"

definition sample_waiter :: os_tcb_t where
  "sample_waiter = task0\<lparr>tcb_state := OS_TASK_BLOCKED, tcb_wait_queue := Some (MutexQ 0x1000)\<rparr>"

definition no_pool :: os_mempool_t where
  "no_pool = \<lparr>mp_free_list = NULL, mp_pool_start = 0, mp_pool_end = 0, mp_block_size = 0,
     mp_block_count = 0, mp_free_count = 0\<rparr>"

definition single :: "addr \<Rightarrow> os_task_queue_t" where
  "single t = \<lparr>q_head = t, q_tail = t\<rparr>"

definition sample :: kstate where
  "sample = \<lparr>g_priorities = (\<lambda>p. if p = 2 then single 0x200 else if p = 3 then single 0x100 else emptyq),
     g_timeout_queue = single 0x400, g_sleep_queue = single 0x400,
     g_current = 0x200, g_next = 0x200, g_first_switch = 0, g_tick = 9,
     g_debug_step = 0, g_debug_value0 = 0, g_debug_value1 = 0,
     g_kernel_object_pool = no_pool, g_user_stack_pool = no_pool,
     tcbs = [0x100 \<mapsto> sample_idle, 0x200 \<mapsto> sample_low, 0x300 \<mapsto> sample_high, 0x400 \<mapsto> sample_medium,
       0x500 \<mapsto> sample_waiter],
     mutexes = [0x1000 \<mapsto> \<lparr>mtx_owner = 0x200, mtx_next_mutex = NULL, mtx_waiters = single 0x500\<rparr>,
       0x1100 \<mapsto> \<lparr>mtx_owner = NULL, mtx_next_mutex = NULL, mtx_waiters = emptyq\<rparr>,
       0x3014 \<mapsto> \<lparr>mtx_owner = NULL, mtx_next_mutex = NULL, mtx_waiters = emptyq\<rparr>],
     sems = [0x2000 \<mapsto> \<lparr>sem_count = 0, sem_waiters = single 0x300\<rparr>,
       0x2100 \<mapsto> \<lparr>sem_count = 2, sem_waiters = emptyq\<rparr>,
       0x3024 \<mapsto> \<lparr>sem_count = 0, sem_waiters = emptyq\<rparr>, 0x3030 \<mapsto> \<lparr>sem_count = 0, sem_waiters = emptyq\<rparr>],
     create_args = Map.empty, mem = (\<lambda>_. 0), primask = 0, pendsv = False\<rparr>"

definition sample_queue :: "queue_ref \<Rightarrow> addr list" where
  "sample_queue q = (case q of
     ReadyQ p \<Rightarrow> if p = 2 then [0x200] else if p = 3 then [0x100] else []
   | SleepQ \<Rightarrow> [0x400]
   | MutexQ m \<Rightarrow> if m = 0x1000 then [0x500] else []
   | SemQ m \<Rightarrow> if m = 0x2000 then [0x300] else [])"

definition sample_a :: astate where
  "sample_a = \<lparr>kern = core sample, waitq = sample_queue, timeoutq = [0x400]\<rparr>"

lemmas sample_task_defs = task0_def sample_idle_def sample_low_def sample_high_def sample_medium_def
  sample_waiter_def

lemma sample_tcb:
  "tcb_at sample = [0x100 \<mapsto> sample_idle, 0x200 \<mapsto> sample_low, 0x300 \<mapsto> sample_high, 0x400 \<mapsto> sample_medium,
     0x500 \<mapsto> sample_waiter]"
  by (auto simp: tcb_at_def sample_def fun_eq_iff)

lemma sample_fields [simp]:
  "g_timeout_queue sample = single 0x400" "g_current sample = 0x200" "g_next sample = 0x200" "g_tick sample = 9" "primask sample = 0"
  "pendsv sample = False" "waitq sample_a = sample_queue" "timeoutq sample_a = [0x400]"
  "kern sample_a = core sample"
  by (simp_all add: sample_def sample_a_def)

lemma sample_sem:
  "sem_at sample = [0x2000 \<mapsto> \<lparr>sem_count = 0, sem_waiters = single 0x300\<rparr>,
     0x2100 \<mapsto> \<lparr>sem_count = 2, sem_waiters = emptyq\<rparr>,
       0x3024 \<mapsto> \<lparr>sem_count = 0, sem_waiters = emptyq\<rparr>, 0x3030 \<mapsto> \<lparr>sem_count = 0, sem_waiters = emptyq\<rparr>]"
  by (auto simp: sem_at_def sample_def fun_eq_iff)

lemma sample_mutex:
  "mutex_at sample = [0x1000 \<mapsto> \<lparr>mtx_owner = 0x200, mtx_next_mutex = NULL, mtx_waiters = single 0x500\<rparr>,
     0x1100 \<mapsto> \<lparr>mtx_owner = NULL, mtx_next_mutex = NULL, mtx_waiters = emptyq\<rparr>,
       0x3014 \<mapsto> \<lparr>mtx_owner = NULL, mtx_next_mutex = NULL, mtx_waiters = emptyq\<rparr>]"
  by (auto simp: mutex_at_def sample_def fun_eq_iff)

lemma sample_queues:
  "get_queue sample (ReadyQ p) = (if p = 2 then Some (single 0x200) else if p = 3 then Some (single 0x100)
     else if p < 2 then Some emptyq else None)"
  "get_queue sample SleepQ = Some (single 0x400)"
  "get_queue sample (MutexQ m) = (if m = 0x1000 then Some (single 0x500) else if m \<in> {0x1100, 0x3014} then Some emptyq else None)"
  "get_queue sample (SemQ m) = (if m = 0x2000 then Some (single 0x300) else if m \<in> {0x2100, 0x3024, 0x3030} then Some emptyq else None)"
  by (auto simp: get_queue.simps mutex_at_def sem_at_def sample_def)

lemma dlist_single:
  "dlist nx pv h (single t) [t] \<longleftrightarrow> t \<noteq> NULL \<and> (\<exists>c. h t = Some c \<and> nx c = NULL \<and> pv c = NULL)"
  by (auto simp: dlist_def single_def)

lemma dlist_emptyq: "dlist nx pv h emptyq []"
  by (simp add: dlist_def emptyq_def)

lemma sample_rel: "kernel_rel sample sample_a"
proof -
  have "dlist tcb_next tcb_prev (tcb_at sample) d (sample_queue q)" if "get_queue sample q = Some d" for q d
    using that by (cases q)
      (auto simp: sample_queue_def sample_queues dlist_single dlist_emptyq sample_tcb sample_task_defs split: if_splits)
  moreover have "sample_queue q = []" if "get_queue sample q = None" for q
    using that by (cases q) (auto simp: sample_queue_def sample_queues split: if_splits)
  moreover have "set (sample_queue q) \<inter> set (sample_queue q') = {}" if "q \<noteq> q'" for q q'
    using that by (cases q; cases q') (auto simp: sample_queue_def)
  moreover have "timeout_rel sample [0x400]"
    by (simp add: timeout_rel_def dlist_single sample_tcb sample_task_defs)
  ultimately show ?thesis
    by (simp add: kernel_rel_def queue_rel_def)
qed

lemma sample_a_tcb:
  "tcb_at (core sample) = [0x100 \<mapsto> sample_idle, 0x200 \<mapsto> sample_low, 0x300 \<mapsto> sample_high, 0x400 \<mapsto> sample_medium,
     0x500 \<mapsto> sample_waiter]"
  by (auto simp: tcb_at_core sample_tcb fun_eq_iff blank_tcb_def sample_task_defs)

lemma sample_core_fields [simp]:
  "g_current (core sample) = 0x200" "g_next (core sample) = 0x200" "g_tick (core sample) = 9"
  "primask (core sample) = 0" "pendsv (core sample) = False"
  by (simp_all add: core_def)

lemma sample_sems:
  "sem_at (core sample) = [0x2000 \<mapsto> \<lparr>sem_count = 0, sem_waiters = emptyq\<rparr>,
     0x2100 \<mapsto> \<lparr>sem_count = 2, sem_waiters = emptyq\<rparr>,
       0x3024 \<mapsto> \<lparr>sem_count = 0, sem_waiters = emptyq\<rparr>, 0x3030 \<mapsto> \<lparr>sem_count = 0, sem_waiters = emptyq\<rparr>]"
  by (auto simp: core_def sem_at_def sample_def fun_eq_iff)

lemma sample_mutexes:
  "mutex_at (core sample) = [0x1000 \<mapsto> \<lparr>mtx_owner = 0x200, mtx_next_mutex = NULL, mtx_waiters = emptyq\<rparr>,
     0x1100 \<mapsto> \<lparr>mtx_owner = NULL, mtx_next_mutex = NULL, mtx_waiters = emptyq\<rparr>,
       0x3014 \<mapsto> \<lparr>mtx_owner = NULL, mtx_next_mutex = NULL, mtx_waiters = emptyq\<rparr>]"
  by (auto simp: core_def mutex_at_def sample_def fun_eq_iff)

lemma sample_lists_inv: "lists_inv sample_a"
proof -
  have "tasks_ok sample_a"
    by (auto simp: tasks_ok_def sample_a_tcb tcb_ok_def waitable_def sample_task_defs split: if_splits)
  moreover have "queues_ok sample_a"
    unfolding queues_ok_def sample_a_tcb sample_fields(9)
  proof (intro conjI allI)
    fix q t
    show "t \<in> set (waitq sample_a q) \<longleftrightarrow> (\<exists>c. [0x100 \<mapsto> sample_idle, 0x200 \<mapsto> sample_low, 0x300 \<mapsto> sample_high,
        0x400 \<mapsto> sample_medium, 0x500 \<mapsto> sample_waiter] t = Some c \<and> home c = Some q)"
      by (cases q) (auto simp: sample_queue_def home_def sample_task_defs)
    show "distinct (waitq sample_a q)" by (cases q) (simp_all add: sample_queue_def)
  qed
  moreover have "timeouts_ok sample_a"
    by (simp add: timeouts_ok_def sample_a_tcb sleeping_def sample_task_defs)
  moreover have "mutex_queues_sorted sample_a"
    by (simp add: mutex_queues_sorted_def sample_queue_def)
  moreover have "current_ok sample_a"
    by (auto simp: current_ok_def sample_a_tcb valid_task_def sample_task_defs split: if_splits)
  ultimately show ?thesis by (simp add: lists_inv_def)
qed

lemma sample_inv: "kernel_inv sample_a"
proof -
  have "sems_ok sample_a" by (auto simp: sems_ok_def sample_sems sample_queue_def split: if_splits)
  moreover have "mutexes_ok sample_a"
    using sample_a_tcb by (auto simp: mutexes_ok_def sample_mutexes sample_queue_def valid_task_def split: if_splits)
  moreover have "no_blocked_on sample_a"
    using sample_a_tcb by (auto simp: no_blocked_on_def sample_task_defs split: if_splits)
  moreover have "next_ok sample_a"
    using sample_a_tcb by (simp add: next_ok_def sample_task_defs)
  ultimately show ?thesis
    using sample_lists_inv by (simp add: kernel_inv_def objects_inv_def sched_inv_def)
qed

lemma sample_ok: "kernel_ok sample"
  using sample_rel sample_inv by (auto simp: kernel_ok_def)

end
