(* ===== verification/Critical_Section.thy ===== *)
theory Critical_Section
  imports Sample_Kernel
begin

text \<open>
  The shape shared by the kernel's services: check the argument, save \<open>PRIMASK\<close> and mask interrupts, do
  the work, restore \<open>PRIMASK\<close>. The locale states what the work in the middle has to guarantee: it
  keeps the kernel's invariant and does what an abstract specification says. From this follows the
  contract of the whole service: it keeps the invariant, does what the specification says and leaves the
  interrupt mask as it found it. \<open>critical_service\<close> adds that the work returns.
\<close>

text \<open>The task that executes a service: the current task, which is not blocked.\<close>

definition current_runnable :: "astate \<Rightarrow> bool" where
  "current_runnable a \<longleftrightarrow> (\<exists>c. a_tcb a (g_current (kern a)) = Some c \<and> tcb_state c \<noteq> OS_TASK_BLOCKED)"

lemma sample_runnable: "current_runnable sample_a"
  using sample_a_tcb by (simp add: current_runnable_def sample_task_defs)

definition masked :: "astate \<Rightarrow> astate" where
  "masked a = a_kern (primask_update (\<lambda>_. 1)) a"

definition unmasked :: "u32 \<Rightarrow> astate \<Rightarrow> astate" where
  "unmasked key a = a_kern (primask_update (\<lambda>_. key)) a"

lemma masked_simps [astate_simps]:
  "waitq (masked a) = waitq a" "timeoutq (masked a) = timeoutq a" "a_tcb (masked a) = a_tcb a"
  "g_current (kern (masked a)) = g_current (kern a)" "g_next (kern (masked a)) = g_next (kern a)"
  "g_tick (kern (masked a)) = g_tick (kern a)" "pendsv (kern (masked a)) = pendsv (kern a)"
  "mutex_at (kern (masked a)) = mutex_at (kern a)" "sem_at (kern (masked a)) = sem_at (kern a)"
  "get_queue (kern (masked a)) = get_queue (kern a)"
  "kernel_inv (masked a) = kernel_inv a" "current_runnable (masked a) = current_runnable a"
  by (simp_all add: masked_def astate_simps kstate_simps current_runnable_def)

lemma unmasked_simps [astate_simps]:
  "waitq (unmasked k a) = waitq a" "timeoutq (unmasked k a) = timeoutq a" "a_tcb (unmasked k a) = a_tcb a"
  "g_current (kern (unmasked k a)) = g_current (kern a)" "g_next (kern (unmasked k a)) = g_next (kern a)"
  "g_tick (kern (unmasked k a)) = g_tick (kern a)" "pendsv (kern (unmasked k a)) = pendsv (kern a)"
  "mutex_at (kern (unmasked k a)) = mutex_at (kern a)" "sem_at (kern (unmasked k a)) = sem_at (kern a)"
  "get_queue (kern (unmasked k a)) = get_queue (kern a)" "primask (kern (unmasked k a)) = k"
  "kernel_inv (unmasked k a) = kernel_inv a" "current_runnable (unmasked k a) = current_runnable a"
  by (simp_all add: unmasked_def astate_simps kstate_simps current_runnable_def)

lemma kernel_rel_masked: "kernel_rel s a \<Longrightarrow> kernel_rel (s\<lparr>primask := 1\<rparr>) (masked a)"
  unfolding masked_def by (rule kernel_rel_primask)

lemma kernel_rel_unmasked: "kernel_rel s a \<Longrightarrow> kernel_rel (os_port_irq_restore k s) (unmasked k a)"
  unfolding unmasked_def os_port_irq_restore_def by (rule kernel_rel_primask)

text \<open>\<open>accepts\<close> is the check of the argument, \<open>call\<close> the whole service, \<open>body\<close> the work between save and
  restore, \<open>spec x a r a'\<close> the abstract effect.\<close>

locale critical_section =
  fixes accepts :: "'x \<Rightarrow> bool"
    and call :: "'x \<Rightarrow> kstate \<Rightarrow> (int \<times> kstate) option"
    and body :: "'x \<Rightarrow> kstate \<Rightarrow> (int \<times> kstate) option"
    and spec :: "'x \<Rightarrow> astate \<Rightarrow> int \<Rightarrow> astate \<Rightarrow> bool"
  assumes bracket: "accepts x \<Longrightarrow> call x s = do {
      let (key, s) = os_port_irq_save s;
      (r, s) \<leftarrow> body x s;
      Some (r, os_port_irq_restore key s)
    }"
    and body_keeps: "accepts x \<Longrightarrow> kernel_rel s a \<Longrightarrow> kernel_inv a \<Longrightarrow> current_runnable a \<Longrightarrow>
      body x s = Some (r, s') \<Longrightarrow> \<exists>a'. kernel_rel s' a' \<and> kernel_inv a' \<and> spec x a r a'"
begin

lemma call_body:
  assumes "accepts x"
  shows "call x s = map_option (\<lambda>(r, s'). (r, os_port_irq_restore (primask s) s')) (body x (s\<lparr>primask := 1\<rparr>))"
  by (cases "body x (s\<lparr>primask := 1\<rparr>)")
    (simp_all add: bracket [OF assms] os_port_irq_save_def split: prod.split)

lemma call_keeps:
  assumes x: "accepts x" and R: "kernel_rel s a" and I: "kernel_inv a" and c: "current_runnable a"
    and call: "call x s = Some (r, s')"
  shows "\<exists>a'. kernel_rel s' (unmasked (primask s) a') \<and> kernel_inv a' \<and> spec x (masked a) r a' \<and>
    primask s' = primask s"
proof -
  from call obtain s1 where s1: "body x (s\<lparr>primask := 1\<rparr>) = Some (r, s1)"
    and s': "s' = os_port_irq_restore (primask s) s1"
    by (auto simp: call_body [OF x])
  from body_keeps [OF x kernel_rel_masked [OF R] _ _ s1] I c obtain a' where
    "kernel_rel s1 a'" "kernel_inv a'" "spec x (masked a) r a'" by (auto simp: astate_simps)
  with kernel_rel_unmasked [of s1 a' "primask s"] s' show ?thesis
    by (auto simp: os_port_irq_restore_def)
qed

lemma call_kernel_ok:
  assumes "accepts x" and "kernel_rel s a" and "kernel_inv a" and "current_runnable a"
    and "call x s = Some (r, s')"
  shows "kernel_ok s'" "primask s' = primask s"
  using call_keeps [OF assms] by (auto simp: kernel_ok_def unmasked_def)

end

locale critical_service = critical_section +
  fixes pre :: "'x \<Rightarrow> astate \<Rightarrow> bool"
  assumes body_returns: "accepts x \<Longrightarrow> kernel_rel s a \<Longrightarrow> kernel_inv a \<Longrightarrow> current_runnable a \<Longrightarrow>
      pre x a \<Longrightarrow> body x s \<noteq> None"
    and pre_masked: "pre x (masked a) = pre x a"
begin

lemma call_returns:
  assumes x: "accepts x" and R: "kernel_rel s a" and I: "kernel_inv a" and c: "current_runnable a"
    and p: "pre x a"
  shows "\<exists>r s' a'. call x s = Some (r, s') \<and> kernel_rel s' (unmasked (primask s) a') \<and> kernel_inv a' \<and>
    spec x (masked a) r a' \<and> primask s' = primask s"
proof -
  from body_returns [OF x kernel_rel_masked [OF R], of] I c p
  obtain r s1 where "body x (s\<lparr>primask := 1\<rparr>) = Some (r, s1)"
    by (auto simp: astate_simps pre_masked)
  then have "call x s = Some (r, os_port_irq_restore (primask s) s1)"
    by (simp add: call_body [OF x])
  with call_keeps [OF x R I c this] show ?thesis by blast
qed

end

end
