(* ===== verification/Semaphore.thy ===== *)
theory Semaphore
  imports Critical_Section
begin

text \<open>
  \<open>kernel/semaphore.c\<close>: counting semaphores. \<open>int32_t count\<close> is a 32-bit word that is read as a signed
  number; a positive count means that units are available and nobody waits.
\<close>

subsection \<open>Model\<close>

definition os_sem_init :: "addr \<Rightarrow> u32 \<Rightarrow> kstate \<Rightarrow> (int \<times> kstate) option" where
  "os_sem_init sem initial_count s =
     (if sem = NULL \<or> sint initial_count < 0 then Some (-1, s)
      else do {
        s \<leftarrow> upd_sem sem (\<lambda>x. x\<lparr>sem_count := initial_count, sem_waiters := \<lparr>q_head = NULL, q_tail = NULL\<rparr>\<rparr>) s;
        Some (0, s)
      })"

definition os_kernel_sem_take :: "addr \<Rightarrow> kstate \<Rightarrow> (int \<times> kstate) option" where
  "os_kernel_sem_take sem s =
     (if sem = NULL then Some (-1, s)
      else do {
        let (key, s) = os_port_irq_save s;
        x \<leftarrow> sem_at s sem;
        if 0 < sint (sem_count x) then do {
          s \<leftarrow> upd_sem sem (\<lambda>x. x\<lparr>sem_count := sem_count x - 1\<rparr>) s;
          Some (0, os_port_irq_restore key s)
        } else do {
          s \<leftarrow> os_task_block_locked (Some (SemQ sem)) OS_WAIT_FOREVER False s;
          Some (0, os_port_irq_restore key s)
        }
      })"

definition os_kernel_sem_give :: "addr \<Rightarrow> kstate \<Rightarrow> (int \<times> kstate) option" where
  "os_kernel_sem_give sem s =
     (if sem = NULL then Some (-1, s)
      else do {
        let (key, s) = os_port_irq_save s;
        (task, s) \<leftarrow> os_task_wake_one_locked (Some (SemQ sem)) s;
        s \<leftarrow> (if task \<noteq> NULL then schedule_and_pend s
             else upd_sem sem (\<lambda>x. x\<lparr>sem_count := sem_count x + 1\<rparr>) s);
        Some (0, os_port_irq_restore key s)
      })"

subsection \<open>Semaphores on the abstract state\<close>

definition set_count :: "addr \<Rightarrow> (u32 \<Rightarrow> u32) \<Rightarrow> kstate \<Rightarrow> kstate" where
  "set_count m f s = s\<lparr>sems := (sems s)(m := map_option (sem_count_update f) (sems s m))\<rparr>"

lemma upd_sem_count: "sem_at s m = Some x \<Longrightarrow> upd_sem m (\<lambda>x. x\<lparr>sem_count := f (sem_count x)\<rparr>) s = Some (set_count m f s)"
  by (cases x) (auto simp: upd_sem_def put_sem_def set_count_def sem_at_def split: if_splits)

lemma sem_at_set_count [kstate_simps]:
  "sem_at (set_count m f s) = (sem_at s)(m := map_option (sem_count_update f) (sem_at s m))"
  by (auto simp: sem_at_def set_count_def fun_eq_iff)

lemma set_count_frame [kstate_simps]:
  "tcb_at (set_count m f s) = tcb_at s" "mutex_at (set_count m f s) = mutex_at s"
  "g_current (set_count m f s) = g_current s" "g_next (set_count m f s) = g_next s"
  "g_timeout_queue (set_count m f s) = g_timeout_queue s" "primask (set_count m f s) = primask s"
  "g_tick (set_count m f s) = g_tick s" "pendsv (set_count m f s) = pendsv s"
  by (simp_all add: set_count_def kstate_simps)

lemma get_queue_set_count [kstate_simps]: "get_queue (set_count m f s) = get_queue s"
proof
  fix q
  have "g_priorities (set_count m f s) = g_priorities s" "g_sleep_queue (set_count m f s) = g_sleep_queue s"
    by (simp_all add: set_count_def)
  then show "get_queue (set_count m f s) q = get_queue s q"
    by (cases q) (auto simp: get_queue.simps kstate_simps option.map_comp o_def)
qed

lemma kernel_rel_set_count: "kernel_rel s a \<Longrightarrow> kernel_rel (set_count m f s) (a_kern (set_count m f) a)"
proof (rule kernel_rel_global)
  have "(\<lambda>k. map_option (sem_waiters_update (\<lambda>_. emptyq)) (((sems s)(m := map_option (sem_count_update f) (sems s m))) k)) =
      (\<lambda>k. map_option (sem_waiters_update (\<lambda>_. emptyq)) (sems s k))
        (m := map_option (sem_count_update f) (map_option (sem_waiters_update (\<lambda>_. emptyq)) (sems s m)))"
    by (cases "sems s m") (auto simp: fun_eq_iff)
  then show "core (set_count m f s) = set_count m f (core s)"
    by (simp add: core_def set_count_def)
qed (simp_all add: kstate_simps)

text \<open>What taking and giving do: a unit is taken, or the task joins the end of the waiters and another
  task is chosen; the first waiter gets the unit, or the count grows.\<close>

definition a_count :: "astate \<Rightarrow> addr \<Rightarrow> int" where
  "a_count a m = (case sem_at (kern a) m of None \<Rightarrow> 0 | Some x \<Rightarrow> sint (sem_count x))"

definition a_sem_take :: "addr \<Rightarrow> astate \<Rightarrow> astate" where
  "a_sem_take m a =
     (if 0 < a_count a m then a_kern (set_count m (\<lambda>n. n - 1)) a
      else a_block (SemQ m) OS_WAIT_FOREVER False a)"

definition a_sem_give :: "addr \<Rightarrow> astate \<Rightarrow> astate" where
  "a_sem_give m a =
     (if waitq a (SemQ m) \<noteq> [] then a_schedule_and_pend (snd (a_wake_one (SemQ m) a))
      else a_kern (set_count m (\<lambda>n. n + 1)) a)"

lemma current_runnable_block_pre:
  assumes "current_runnable a" and "waitable q" and "valid_queue a q" and "n \<noteq> OS_WAIT_FOREVER \<Longrightarrow> q = SleepQ"
    and "\<And>m. q = MutexQ m \<Longrightarrow> po"
  shows "block_pre q n po a"
  using assms by (auto simp: current_runnable_def block_pre_def)

lemma a_count_eq: "sem_at (kern a) m = Some x \<Longrightarrow> a_count a m = sint (sem_count x)"
  by (simp add: a_count_def)

lemma kernel_rel_sem:
  assumes "kernel_rel s a"
  shows "sem_at s m = None \<longleftrightarrow> sem_at (kern a) m = None"
    and "sem_at s m = Some x \<Longrightarrow> \<exists>y. sem_at (kern a) m = Some y \<and> sem_count y = sem_count x"
  using assms by (auto simp: kernel_rel_def sem_at_core)

lemma valid_queue_sem: "valid_queue a (SemQ m) \<longleftrightarrow> sem_at (kern a) m \<noteq> None"
  by (simp add: valid_queue_def get_queue.simps)

lemma waitable_simps [simp]: "waitable (SemQ m)" "waitable (MutexQ m)" "waitable SleepQ"
  by (simp_all add: waitable_def)

text \<open>A unit taken from a positive count, or added when nobody waits.\<close>

lemma kernel_inv_set_count:
  assumes "kernel_inv a" and "\<And>x. sem_at (kern a) m = Some x \<Longrightarrow>
    0 < sint (f (sem_count x)) \<Longrightarrow> 0 < sint (sem_count x) \<or> waitq a (SemQ m) = []"
  shows "kernel_inv (a_kern (set_count m f) a)"
proof -
  let ?a = "a_kern (set_count m f) a"
  note D = kernel_invD [OF assms(1)]
  have "lists_inv ?a = lists_inv a"
    by (rule lists_inv_cong) (simp_all add: astate_simps kstate_simps)
  moreover have "sems_ok ?a"
    using D(4) assms(2) by (auto simp: sems_ok_def astate_simps kstate_simps split: if_splits)
  moreover have "valid_task ?a = valid_task a" by (simp add: valid_task_def astate_simps kstate_simps fun_eq_iff)
  ultimately show ?thesis
    using D by (simp add: kernel_inv_def objects_inv_def sched_inv_def next_ok_def mutexes_ok_def no_blocked_on_def
        astate_simps kstate_simps)
qed

subsection \<open>The two services\<close>

definition sem_take_body :: "addr \<Rightarrow> kstate \<Rightarrow> (int \<times> kstate) option" where
  "sem_take_body m s = do {
     x \<leftarrow> sem_at s m;
     s \<leftarrow> (if 0 < sint (sem_count x) then upd_sem m (\<lambda>x. x\<lparr>sem_count := sem_count x - 1\<rparr>) s
          else os_task_block_locked (Some (SemQ m)) OS_WAIT_FOREVER False s);
     Some (0, s)
   }"

definition sem_give_body :: "addr \<Rightarrow> kstate \<Rightarrow> (int \<times> kstate) option" where
  "sem_give_body m s = do {
     (task, s) \<leftarrow> os_task_wake_one_locked (Some (SemQ m)) s;
     s \<leftarrow> (if task \<noteq> NULL then schedule_and_pend s
          else upd_sem m (\<lambda>x. x\<lparr>sem_count := sem_count x + 1\<rparr>) s);
     Some (0, s)
   }"

lemma sem_take_body_refines:
  assumes R: "kernel_rel s a" and I: "kernel_inv a" and c: "current_runnable a" and m: "sem_at (kern a) m \<noteq> None"
  shows "\<exists>s'. sem_take_body m s = Some (0, s') \<and> kernel_rel s' (a_sem_take m a)"
proof -
  note D = kernel_invD [OF I]
  from m kernel_rel_sem(1) [OF R] obtain x where x: "sem_at s m = Some x" by fastforce
  with kernel_rel_sem(2) [OF R] have n: "a_count a m = sint (sem_count x)" by (fastforce simp: a_count_def)
  have pre: "block_pre (SemQ m) OS_WAIT_FOREVER False a"
    using c m by (intro current_runnable_block_pre) (simp_all add: valid_queue_sem)
  show ?thesis
    using x n upd_sem_count [OF x, of "\<lambda>n. n - 1"] kernel_rel_set_count [OF R, of m "\<lambda>n. n - 1"]
      block_pre_refines [OF R D(2) pre]
    by (auto simp: sem_take_body_def a_sem_take_def)
qed

lemma a_sem_take_inv:
  assumes I: "kernel_inv a" and c: "current_runnable a" and m: "sem_at (kern a) m \<noteq> None"
  shows "kernel_inv (a_sem_take m a)"
proof -
  from m obtain x where x: "sem_at (kern a) m = Some x" by blast
  have "kernel_inv (a_kern (set_count m (\<lambda>n. n - 1)) a)" if "0 < sint (sem_count x)"
    using that x by (intro kernel_inv_set_count [OF I]) simp
  moreover have "kernel_inv (a_block (SemQ m) OS_WAIT_FOREVER False a)" if "\<not> 0 < sint (sem_count x)"
    using that x c by (intro kernel_inv_block [OF I] current_runnable_block_pre)
      (simp_all add: valid_queue_sem may_block_def)
  ultimately show ?thesis using x by (simp add: a_sem_take_def a_count_def)
qed

lemma sem_give_body_refines:
  assumes R: "kernel_rel s a" and I: "kernel_inv a" and m: "sem_at (kern a) m \<noteq> None"
  shows "\<exists>s'. sem_give_body m s = Some (0, s') \<and> kernel_rel s' (a_sem_give m a)"
proof -
  note D = kernel_invD [OF I]
  from m kernel_rel_sem(1) [OF R] obtain x where x: "sem_at s m = Some x" by fastforce
  from wake_one_refines [OF R D(2), of "SemQ m"] m obtain s1 where
    s1: "os_task_wake_one_locked (Some (SemQ m)) s = Some (fst (a_wake_one (SemQ m) a), s1)"
    and R1: "kernel_rel s1 (snd (a_wake_one (SemQ m) a))" by (auto simp: valid_queue_sem)
  show ?thesis
  proof (cases "waitq a (SemQ m)")
    case Nil
    then have w: "a_wake_one (SemQ m) a = (NULL, a)" by (simp add: a_wake_one_def)
    with R1 m kernel_rel_sem(1) [OF R1] obtain y where "sem_at s1 m = Some y" by fastforce
    from upd_sem_count [OF this, of "\<lambda>n. n + 1"] kernel_rel_set_count [OF R1, of m "\<lambda>n. n + 1"] s1 w Nil
    show ?thesis by (simp add: sem_give_body_def a_sem_give_def)
  next
    case (Cons t ts)
    then have "fst (a_wake_one (SemQ m) a) \<noteq> NULL"
      using kernel_rel_waitq_nonnull [OF R, of "SemQ m"] by (simp add: a_wake_one_def)
    with schedule_and_pend_refines [OF R1] s1 Cons show ?thesis
      by (auto simp: sem_give_body_def a_sem_give_def)
  qed
qed

lemma a_sem_give_inv:
  assumes I: "kernel_inv a"
  shows "kernel_inv (a_sem_give m a)"
proof (cases "waitq a (SemQ m) = []")
  case True
  with I show ?thesis by (simp add: a_sem_give_def kernel_inv_set_count)
next
  case False
  have "kernel_inv (snd (a_wake_one (SemQ m) a))" by (rule kernel_inv_wake_one [OF I]) simp_all
  with False show ?thesis
    by (simp add: a_sem_give_def kernel_inv_schedule kernel_invD)
qed

lemma sem_body_None: 
  assumes "kernel_rel s a" and "sem_at (kern a) m = None"
  shows "sem_take_body m s = None" "sem_give_body m s = None"
  using kernel_rel_sem(1) [OF assms(1), of m] assms(2)
  by (simp_all add: sem_take_body_def sem_give_body_def os_task_wake_one_locked_def os_task_queue_pop_head_def
      get_queue.simps)

interpretation sem_take: critical_service "\<lambda>m. m \<noteq> NULL" os_kernel_sem_take sem_take_body
  "\<lambda>m a r a'. r = 0 \<and> a' = a_sem_take m a" "\<lambda>m a. sem_at (kern a) m \<noteq> None"
proof (unfold_locales, goal_cases)
  case (1 m s)
  then show ?case
    by (cases "sem_at (s\<lparr>primask := 1\<rparr>) m") (simp_all add: os_kernel_sem_take_def sem_take_body_def os_port_irq_save_def)
next
  case (2 m s a r s')
  with sem_body_None(1) [of s a m] have "sem_at (kern a) m \<noteq> None" by auto
  with 2 sem_take_body_refines [of s a m] a_sem_take_inv [of a m] show ?case by auto
next
  case (3 m s a)
  with sem_take_body_refines [of s a m] show ?case by auto
qed (simp add: astate_simps)

interpretation sem_give: critical_service "\<lambda>m. m \<noteq> NULL" os_kernel_sem_give sem_give_body
  "\<lambda>m a r a'. r = 0 \<and> a' = a_sem_give m a" "\<lambda>m a. sem_at (kern a) m \<noteq> None"
proof (unfold_locales, goal_cases)
  case (1 m s)
  then show ?case
    by (simp add: os_kernel_sem_give_def sem_give_body_def os_port_irq_save_def Let_def split_def)
next
  case (2 m s a r s')
  with sem_body_None(2) [of s a m] have "sem_at (kern a) m \<noteq> None" by auto
  with 2 sem_give_body_refines [of s a m] a_sem_give_inv [of a m] show ?case by auto
next
  case (3 m s a)
  with sem_give_body_refines [of s a m] show ?case by auto
qed (simp add: astate_simps)

subsection \<open>What the services do to units, waiters and tasks\<close>

lemma a_count_simps [astate_simps]:
  "a_count (masked a) m = a_count a m" "a_count (unmasked k a) m = a_count a m"
  "a_count (a_schedule_and_pend a) m = a_count a m" "a_count (snd (a_wake_one q a)) m = a_count a m"
  "a_count (a_block q n po a) m = a_count a m"
  by (simp_all add: a_count_def astate_simps)

lemma a_count_set_count:
  "a_count (a_kern (set_count m f) a) k =
    (if k = m then (case sem_at (kern a) m of None \<Rightarrow> 0 | Some x \<Rightarrow> sint (f (sem_count x))) else a_count a k)"
  by (simp add: a_count_def astate_simps kstate_simps split: option.split)

lemma a_sem_take_effect:
  assumes I: "kernel_inv a" and c: "current_runnable a" and m: "sem_at (kern a) m = Some x"
  shows "0 < a_count a m \<Longrightarrow> a_count (a_sem_take m a) m = a_count a m - 1 \<and>
      waitq (a_sem_take m a) = waitq a \<and> a_tcb (a_sem_take m a) = a_tcb a"
    and "\<not> 0 < a_count a m \<Longrightarrow> a_count (a_sem_take m a) m = a_count a m \<and>
      waitq (a_sem_take m a) (SemQ m) = waitq a (SemQ m) @ [g_current (kern a)] \<and>
      g_next (kern (a_sem_take m a)) \<noteq> g_current (kern a) \<and> pendsv (kern (a_sem_take m a))"
proof -
  assume "0 < a_count a m"
  then show "a_count (a_sem_take m a) m = a_count a m - 1 \<and>
      waitq (a_sem_take m a) = waitq a \<and> a_tcb (a_sem_take m a) = a_tcb a"
    using m by (simp add: a_sem_take_def a_count_set_count a_count_eq sint_pred astate_simps kstate_simps)
next
  assume n: "\<not> 0 < a_count a m"
  have "block_pre (SemQ m) OS_WAIT_FOREVER False a"
    using c m by (intro current_runnable_block_pre) (simp_all add: valid_queue_sem)
  from n a_block_switches [OF kernel_invD(2) [OF I] this]
  show "a_count (a_sem_take m a) m = a_count a m \<and>
      waitq (a_sem_take m a) (SemQ m) = waitq a (SemQ m) @ [g_current (kern a)] \<and>
      g_next (kern (a_sem_take m a)) \<noteq> g_current (kern a) \<and> pendsv (kern (a_sem_take m a))"
    by (simp add: a_sem_take_def astate_simps a_block_waitq)
qed

lemma a_sem_give_effect:
  assumes I: "kernel_inv a" and m: "sem_at (kern a) m = Some x"
  shows "waitq a (SemQ m) = t # ts \<Longrightarrow> a_count (a_sem_give m a) m = a_count a m \<and>
      waitq (a_sem_give m a) (SemQ m) = ts \<and>
      waitq (a_sem_give m a) (ReadyQ (a_prio a t)) = waitq a (ReadyQ (a_prio a t)) @ [t] \<and>
      g_next (kern (a_sem_give m a)) = first_or (ready_order (a_sem_give m a)) NULL"
    and "waitq a (SemQ m) = [] \<Longrightarrow> a_count a m < 2 ^ 31 - 1 \<Longrightarrow> a_count (a_sem_give m a) m = a_count a m + 1 \<and>
      waitq (a_sem_give m a) = waitq a \<and> a_tcb (a_sem_give m a) = a_tcb a"
proof -
  assume w: "waitq a (SemQ m) = t # ts"
  note L = kernel_invD(2) [OF I]
  from wake_one_pre [OF L _ _ w] obtain c where c: "a_tcb a t = Some c" by auto
  from a_wake_one_Cons(3) [OF L _ _ w c] c w
  show "a_count (a_sem_give m a) m = a_count a m \<and> waitq (a_sem_give m a) (SemQ m) = ts \<and>
      waitq (a_sem_give m a) (ReadyQ (a_prio a t)) = waitq a (ReadyQ (a_prio a t)) @ [t] \<and>
      g_next (kern (a_sem_give m a)) = first_or (ready_order (a_sem_give m a)) NULL"
    by (simp add: a_sem_give_def astate_simps task_prio_def)
next
  assume "waitq a (SemQ m) = []" and "a_count a m < 2 ^ 31 - 1"
  then show "a_count (a_sem_give m a) m = a_count a m + 1 \<and>
      waitq (a_sem_give m a) = waitq a \<and> a_tcb (a_sem_give m a) = a_tcb a"
    using m by (simp add: a_sem_give_def a_count_set_count a_count_eq sint_succ astate_simps kstate_simps)
qed

text \<open>\<open>os_sem_init\<close> on a semaphore nobody waits for.\<close>

lemma sem_at_put_sem: "m \<noteq> NULL \<Longrightarrow> sem_at (put_sem m x s) = (sem_at s)(m \<mapsto> x)"
  by (auto simp: sem_at_def put_sem_def)

lemma put_sem_fresh_rel:
  assumes R: "kernel_rel s a" and x: "sem_at s m = Some x" and w: "waitq a (SemQ m) = []"
  shows "kernel_rel (put_sem m (x\<lparr>sem_count := n, sem_waiters := emptyq\<rparr>) s) (a_kern (set_count m (\<lambda>_. n)) a)"
proof -
  have "sem_waiters x = emptyq"
    using kernel_rel_queue [OF R, of "SemQ m" "sem_waiters x"] x w
    by (cases "sem_waiters x") (simp add: get_queue.simps dlist_def emptyq_def)
  then have "put_sem m (x\<lparr>sem_count := n, sem_waiters := emptyq\<rparr>) s = set_count m (\<lambda>_. n) s"
    using x by (cases x) (auto simp: put_sem_def set_count_def sem_at_def split: if_splits)
  then show ?thesis using kernel_rel_set_count [OF R] by simp
qed

lemma sem_init_refines:
  assumes R: "kernel_rel s a" and I: "kernel_inv a" and x: "sem_at s m = Some x" and w: "waitq a (SemQ m) = []"
    and n: "\<not> sint n < 0"
  shows "\<exists>s'. os_sem_init m n s = Some (0, s') \<and> kernel_rel s' (a_kern (set_count m (\<lambda>_. n)) a)"
    and "kernel_inv (a_kern (set_count m (\<lambda>_. n)) a)"
proof -
  have "m \<noteq> NULL" using x by auto
  moreover have "upd_sem m (\<lambda>x. x\<lparr>sem_count := n, sem_waiters := \<lparr>q_head = NULL, q_tail = NULL\<rparr>\<rparr>) s =
      Some (put_sem m (x\<lparr>sem_count := n, sem_waiters := emptyq\<rparr>) s)"
    using x by (simp add: upd_sem_def emptyq_def)
  ultimately show "\<exists>s'. os_sem_init m n s = Some (0, s') \<and> kernel_rel s' (a_kern (set_count m (\<lambda>_. n)) a)"
    using n put_sem_fresh_rel [OF R x w, of n] by (simp add: os_sem_init_def)
  show "kernel_inv (a_kern (set_count m (\<lambda>_. n)) a)" using I w by (intro kernel_inv_set_count) simp_all
qed

text \<open>
  Initialising a semaphore that nobody waits for: a negative count or a null pointer is refused and
  nothing changes; otherwise the count is the given one, nobody waits, and the kernel's invariant holds.
\<close>

theorem sem_init_correct:
  assumes "kernel_rel s a" and "kernel_inv a" and "sem_at s m = Some x" and "waitq a (SemQ m) = []"
  shows "\<exists>r s' a'. os_sem_init m n s = Some (r, s') \<and> kernel_rel s' a' \<and> kernel_inv a' \<and>
    (if sint n < 0 then r = -1 \<and> s' = s else r = 0 \<and> a_count a' m = sint n \<and> waitq a' = waitq a)"
proof (cases "sint n < 0")
  case True
  with assms show ?thesis by (auto simp: os_sem_init_def)
next
  case False
  have "sem_at (kern a) m \<noteq> None" using assms(1,3) by (auto simp: kernel_rel_def sem_at_core)
  then have "a_count (a_kern (set_count m (\<lambda>_. n)) a) m = sint n" by (auto simp: a_count_set_count)
  moreover have "waitq (a_kern (set_count m (\<lambda>_. n)) a) = waitq a" by (simp add: astate_simps)
  ultimately show ?thesis using False sem_init_refines [OF assms False] by metis
qed

theorem sem_init_correct_witness:
  "\<exists>r s' a'. os_sem_init 0x2100 5 sample = Some (r, s') \<and> kernel_rel s' a' \<and> kernel_inv a' \<and>
    (if sint (5 :: u32) < 0 then r = -1 \<and> s' = sample
     else r = 0 \<and> a_count a' 0x2100 = sint (5 :: u32) \<and> waitq a' = waitq sample_a)"
proof (rule sem_init_correct [OF sample_rel sample_inv])
  show "sem_at sample 0x2100 = Some \<lparr>sem_count = 2, sem_waiters = emptyq\<rparr>"
    by (simp add: sample_sem)
qed (simp add: sample_queue_def)

text \<open>
  C7: Taking a semaphore. A service call on an existing semaphore by a task that is not blocked always
  returns 0, keeps the kernel's invariant and leaves the interrupt mask as it was. With a positive count
  exactly one unit is taken and no task or queue changes; otherwise the count stays, the calling task is
  appended to the waiters (first come, first served), another task is chosen and a context switch is
  pending.
\<close>

theorem sem_take_correct:
  assumes "kernel_rel s a" and "kernel_inv a" and "current_runnable a" and "sem_at s m = Some x"
  shows "\<exists>s' a'. os_kernel_sem_take m s = Some (0, s') \<and> kernel_rel s' a' \<and> kernel_inv a' \<and>
    primask s' = primask s \<and>
    (if 0 < sint (sem_count x)
     then a_count a' m = sint (sem_count x) - 1 \<and> waitq a' = waitq a \<and> a_tcb a' = a_tcb a
     else a_count a' m = sint (sem_count x) \<and> waitq a' (SemQ m) = waitq a (SemQ m) @ [g_current s] \<and>
       g_next s' \<noteq> g_current s \<and> pendsv s')"
proof -
  from kernel_rel_sem [OF assms(1), of m] assms(4) obtain y where
    y: "sem_at (kern a) m = Some y" "sem_count y = sem_count x" and nn: "m \<noteq> NULL" by fastforce
  from sem_take.call_returns [of m, OF nn assms(1-3)] y obtain s' where
    s': "os_kernel_sem_take m s = Some (0, s')" "primask s' = primask s"
    "kernel_rel s' (unmasked (primask s) (a_sem_take m (masked a)))" "kernel_inv (a_sem_take m (masked a))" by auto
  have "kernel_inv (masked a)" "current_runnable (masked a)" "sem_at (kern (masked a)) m = Some y"
    using assms y by (simp_all add: astate_simps)
  note eff = a_sem_take_effect [OF this]
  have n: "a_count a m = sint (sem_count x)" using y by (simp add: a_count_eq)
  show ?thesis
    using s' eff n kernel_rel_globals [OF assms(1)] kernel_rel_globals [OF s'(3)]
    by (intro exI [of _ s'] exI [of _ "unmasked (primask s) (a_sem_take m (masked a))"])
      (auto simp: astate_simps)
qed

theorem sem_take_correct_witness:
  "\<exists>s' a'. os_kernel_sem_take 0x2000 sample = Some (0, s') \<and> kernel_rel s' a' \<and> kernel_inv a' \<and>
    primask s' = 0 \<and> a_count a' 0x2000 = 0 \<and> waitq a' (SemQ 0x2000) = [0x300, 0x200] \<and>
    g_next s' \<noteq> 0x200 \<and> pendsv s'"
  using sem_take_correct [OF sample_rel sample_inv sample_runnable, of "0x2000"]
  by (simp add: sample_sem sample_queue_def)

text \<open>
  C9: Giving a semaphore. A call on an existing semaphore always returns 0, keeps the kernel's invariant
  and leaves the interrupt mask as it was. When tasks wait, the unit goes to the first of them: it leaves
  the waiters, joins the end of the ready queue of its priority, the count does not change and the
  scheduler has chosen among the ready tasks; when nobody waits, the count grows by one (below the largest
  \<open>int32_t\<close>) and nothing else changes.
\<close>

theorem sem_give_correct:
  assumes "kernel_rel s a" and "kernel_inv a" and "current_runnable a" and "sem_at s m = Some x"
  shows "\<exists>s' a'. os_kernel_sem_give m s = Some (0, s') \<and> kernel_rel s' a' \<and> kernel_inv a' \<and>
    primask s' = primask s \<and>
    (case waitq a (SemQ m) of
       [] \<Rightarrow> sint (sem_count x) < 2 ^ 31 - 1 \<longrightarrow>
         a_count a' m = sint (sem_count x) + 1 \<and> waitq a' = waitq a \<and> a_tcb a' = a_tcb a
     | t # ts \<Rightarrow> a_count a' m = sint (sem_count x) \<and> waitq a' (SemQ m) = ts \<and>
         waitq a' (ReadyQ (task_prio s t)) = waitq a (ReadyQ (task_prio s t)) @ [t] \<and>
         g_next s' = first_or (ready_order a') NULL)"
proof -
  from kernel_rel_sem [OF assms(1), of m] assms(4) obtain y where
    y: "sem_at (kern a) m = Some y" "sem_count y = sem_count x" and nn: "m \<noteq> NULL" by fastforce
  from sem_give.call_returns [of m, OF nn assms(1-3)] y obtain s' where
    s': "os_kernel_sem_give m s = Some (0, s')" "primask s' = primask s"
    "kernel_rel s' (unmasked (primask s) (a_sem_give m (masked a)))" "kernel_inv (a_sem_give m (masked a))" by auto
  have "kernel_inv (masked a)" "sem_at (kern (masked a)) m = Some y"
    using assms y by (simp_all add: astate_simps)
  note eff = a_sem_give_effect [OF this]
  have n: "a_count a m = sint (sem_count x)" using y by (simp add: a_count_eq)
  have pr: "a_prio (masked a) = task_prio s"
    using kernel_rel_task_prio [OF assms(1)] by (simp add: task_prio_def fun_eq_iff astate_simps)
  have ro: "ready_order (unmasked k b) = ready_order b" for k b by (simp add: ready_order_def astate_simps)
  show ?thesis
    using s' eff n kernel_rel_globals [OF s'(3)]
    by (intro exI [of _ s'] exI [of _ "unmasked (primask s) (a_sem_give m (masked a))"])
      (auto simp: astate_simps ro pr split: list.split)
qed

theorem sem_give_correct_witness:
  "\<exists>s' a'. os_kernel_sem_give 0x2000 sample = Some (0, s') \<and> kernel_rel s' a' \<and> kernel_inv a' \<and>
    primask s' = 0 \<and> a_count a' 0x2000 = 0 \<and> waitq a' (SemQ 0x2000) = [] \<and>
    waitq a' (ReadyQ 0) = [0x300] \<and> g_next s' = first_or (ready_order a') NULL"
  using sem_give_correct [OF sample_rel sample_inv sample_runnable, of "0x2000"]
  by (simp add: sample_sem sample_queue_def task_prio_def sample_tcb sample_task_defs)

end
