(* ===== verification/Mutex.thy ===== *)
theory Mutex
  imports Critical_Section
begin

text \<open>
  \<open>kernel/mutex.c\<close>: mutexes with an owner, a priority-ordered queue of waiters and priority inheritance.
  Every task keeps a singly linked list of mutexes (\<open>owned_mutexes\<close>, linked by \<open>next_mutex\<close>); the loops
  over it, and over the chain of owners that \<open>os_kernel_mutex_lock\<close> boosts, are partial functions: the
  code does not return when the list is cyclic.
\<close>

subsection \<open>Model\<close>

definition os_mutex_init :: "addr \<Rightarrow> kstate \<Rightarrow> (int \<times> kstate) option" where
  "os_mutex_init mutex s =
     (if mutex = NULL then Some (-1, s)
      else do {
        s \<leftarrow> upd_mutex mutex (\<lambda>x. x\<lparr>mtx_owner := NULL, mtx_waiters := \<lparr>q_head = NULL, q_tail = NULL\<rparr>\<rparr>) s;
        Some (0, s)
      })"

definition os_mutex_add_to_owned :: "addr \<Rightarrow> addr \<Rightarrow> kstate \<Rightarrow> kstate option" where
  "os_mutex_add_to_owned tcb mutex s = do {
     t \<leftarrow> tcb_at s tcb;
     s \<leftarrow> upd_mutex mutex (\<lambda>x. x\<lparr>mtx_next_mutex := tcb_owned_mutexes t\<rparr>) s;
     upd_tcb tcb (\<lambda>t. t\<lparr>tcb_owned_mutexes := mutex\<rparr>) s
   }"

text \<open>The loop of \<open>os_mutex_remove_from_owned\<close>.\<close>

partial_function (option) remove_owned_loop :: "addr \<Rightarrow> addr \<Rightarrow> addr \<Rightarrow> addr \<Rightarrow> kstate \<Rightarrow> kstate option" where
  "remove_owned_loop tcb mutex prev cur s =
     (if cur = NULL then Some s
      else do {
        c \<leftarrow> mutex_at s cur;
        if cur = mutex then do {
          s \<leftarrow> (if prev = NULL then upd_tcb tcb (\<lambda>t. t\<lparr>tcb_owned_mutexes := mtx_next_mutex c\<rparr>) s
               else upd_mutex prev (\<lambda>x. x\<lparr>mtx_next_mutex := mtx_next_mutex c\<rparr>) s);
          upd_mutex cur (\<lambda>x. x\<lparr>mtx_next_mutex := NULL\<rparr>) s
        } else remove_owned_loop tcb mutex cur (mtx_next_mutex c) s
      })"

declare remove_owned_loop.simps [code]

definition os_mutex_remove_from_owned :: "addr \<Rightarrow> addr \<Rightarrow> kstate \<Rightarrow> kstate option" where
  "os_mutex_remove_from_owned tcb mutex s = do {
     t \<leftarrow> tcb_at s tcb;
     remove_owned_loop tcb mutex NULL (tcb_owned_mutexes t) s
   }"

text \<open>The loop of \<open>os_mutex_recompute_priority\<close>.\<close>

partial_function (option) recompute_loop :: "addr \<Rightarrow> os_task_priority_t \<Rightarrow> kstate \<Rightarrow> os_task_priority_t option" where
  "recompute_loop m result s =
     (if m = NULL then Some result
      else do {
        x \<leftarrow> mutex_at s m;
        result \<leftarrow> (if q_head (mtx_waiters x) \<noteq> NULL then do {
            h \<leftarrow> tcb_at s (q_head (mtx_waiters x));
            Some (if tcb_priority h < result then tcb_priority h else result)
          } else Some result);
        recompute_loop (mtx_next_mutex x) result s
      })"

declare recompute_loop.simps [code]

definition os_mutex_recompute_priority :: "addr \<Rightarrow> kstate \<Rightarrow> os_task_priority_t option" where
  "os_mutex_recompute_priority tcb s = do {
     t \<leftarrow> tcb_at s tcb;
     recompute_loop (tcb_owned_mutexes t) (tcb_base_priority t) s
   }"

text \<open>The loop of \<open>os_kernel_mutex_lock\<close> that raises the priorities along the chain of owners.\<close>

partial_function (option) boost_loop :: "addr \<Rightarrow> kstate \<Rightarrow> kstate option" where
  "boost_loop owner s =
     (if owner = NULL then Some s
      else do {
        current \<leftarrow> tcb_at s (g_current s);
        t \<leftarrow> tcb_at s owner;
        if tcb_priority current < tcb_priority t then do {
          s \<leftarrow> os_task_set_priority owner (tcb_priority current) s;
          t \<leftarrow> tcb_at s owner;
          if tcb_state t = OS_TASK_BLOCKED \<and> tcb_blocked_on t \<noteq> NULL then do {
            m \<leftarrow> mutex_at s (tcb_blocked_on t);
            boost_loop (mtx_owner m) s
          } else Some s
        } else Some s
      })"

declare boost_loop.simps [code]

definition os_kernel_mutex_lock :: "addr \<Rightarrow> kstate \<Rightarrow> (int \<times> kstate) option" where
  "os_kernel_mutex_lock mutex s =
     (if mutex = NULL then Some (-1, s)
      else do {
        let (key, s) = os_port_irq_save s;
        x \<leftarrow> mutex_at s mutex;
        if mtx_owner x = NULL then do {
          s \<leftarrow> upd_mutex mutex (\<lambda>x. x\<lparr>mtx_owner := g_current s\<rparr>) s;
          s \<leftarrow> os_mutex_add_to_owned (g_current s) mutex s;
          Some (0, os_port_irq_restore key s)
        } else if mtx_owner x = g_current s then Some (-1, os_port_irq_restore key s)
        else do {
          s \<leftarrow> upd_tcb (g_current s) (\<lambda>t. t\<lparr>tcb_blocked_on := mutex\<rparr>) s;
          s \<leftarrow> boost_loop (mtx_owner x) s;
          s \<leftarrow> os_task_block_locked (Some (MutexQ mutex)) OS_WAIT_FOREVER True s;
          s \<leftarrow> upd_tcb (g_current s) (\<lambda>t. t\<lparr>tcb_blocked_on := NULL\<rparr>) s;
          s \<leftarrow> os_mutex_add_to_owned (g_current s) mutex s;
          Some (0, os_port_irq_restore key s)
        }
      })"

definition os_kernel_mutex_unlock :: "addr \<Rightarrow> kstate \<Rightarrow> (int \<times> kstate) option" where
  "os_kernel_mutex_unlock mutex s =
     (if mutex = NULL then Some (-1, s)
      else do {
        let (key, s) = os_port_irq_save s;
        x \<leftarrow> mutex_at s mutex;
        if mtx_owner x \<noteq> g_current s then Some (-1, os_port_irq_restore key s)
        else do {
          s \<leftarrow> os_mutex_remove_from_owned (g_current s) mutex s;
          p \<leftarrow> os_mutex_recompute_priority (g_current s) s;
          s \<leftarrow> os_task_set_priority (g_current s) p s;
          (next_owner, s) \<leftarrow> os_task_wake_one_locked (Some (MutexQ mutex)) s;
          s \<leftarrow> (if next_owner \<noteq> NULL then do {
              s \<leftarrow> upd_mutex mutex (\<lambda>x. x\<lparr>mtx_owner := next_owner\<rparr>) s;
              schedule_and_pend s
            } else upd_mutex mutex (\<lambda>x. x\<lparr>mtx_owner := NULL\<rparr>) s);
          Some (0, os_port_irq_restore key s)
        }
      })"

subsection \<open>Fields of a mutex on the abstract state\<close>

definition map_mutex :: "addr \<Rightarrow> (os_mutex_t \<Rightarrow> os_mutex_t) \<Rightarrow> kstate \<Rightarrow> kstate" where
  "map_mutex m f s = s\<lparr>mutexes := (mutexes s)(m := map_option f (mutexes s m))\<rparr>"

definition queue_free :: "(os_mutex_t \<Rightarrow> os_mutex_t) \<Rightarrow> bool" where
  "queue_free f \<longleftrightarrow> (\<forall>x v. mtx_waiters (f x) = mtx_waiters x \<and> f (x\<lparr>mtx_waiters := v\<rparr>) = (f x)\<lparr>mtx_waiters := v\<rparr>)"

lemma queue_free_fields [simp, intro]:
  "queue_free (\<lambda>x. x\<lparr>mtx_owner := v\<rparr>)" "queue_free (\<lambda>x. x\<lparr>mtx_next_mutex := w\<rparr>)"
  by (simp_all add: queue_free_def)

lemma upd_mutex_map: "mutex_at s m = Some x \<Longrightarrow> upd_mutex m f s = Some (map_mutex m f s)"
  by (auto simp: upd_mutex_def put_mutex_def map_mutex_def mutex_at_def split: if_splits)

lemma upd_mutex_eq: "upd_mutex m f s = (if mutex_at s m = None then None else Some (map_mutex m f s))"
  by (cases "mutex_at s m") (simp_all add: upd_mutex_map, simp add: upd_mutex_def)

lemma mutex_at_map_mutex [kstate_simps]:
  "mutex_at (map_mutex m f s) = (mutex_at s)(m := map_option f (mutex_at s m))"
  by (auto simp: mutex_at_def map_mutex_def fun_eq_iff)

lemma map_mutex_frame [kstate_simps]:
  "tcb_at (map_mutex m f s) = tcb_at s" "sem_at (map_mutex m f s) = sem_at s"
  "g_current (map_mutex m f s) = g_current s" "g_next (map_mutex m f s) = g_next s"
  "g_timeout_queue (map_mutex m f s) = g_timeout_queue s" "primask (map_mutex m f s) = primask s"
  "g_tick (map_mutex m f s) = g_tick s" "pendsv (map_mutex m f s) = pendsv s"
  by (simp_all add: map_mutex_def kstate_simps)

lemma get_queue_map_mutex: "queue_free f \<Longrightarrow> get_queue (map_mutex m f s) = get_queue s"
proof
  fix q
  assume "queue_free f"
  moreover have "g_priorities (map_mutex m f s) = g_priorities s" "g_sleep_queue (map_mutex m f s) = g_sleep_queue s"
    by (simp_all add: map_mutex_def)
  ultimately show "get_queue (map_mutex m f s) q = get_queue s q"
    by (cases q; cases "mutex_at s m") (auto simp: get_queue.simps kstate_simps queue_free_def)
qed

lemma kernel_rel_map_mutex:
  assumes R: "kernel_rel s a" and f: "queue_free f"
  shows "kernel_rel (map_mutex m f s) (a_kern (map_mutex m f) a)"
proof (rule kernel_rel_global [OF R])
  have "(\<lambda>k. map_option (mtx_waiters_update (\<lambda>_. emptyq)) (((mutexes s)(m := map_option f (mutexes s m))) k)) =
      (\<lambda>k. map_option (mtx_waiters_update (\<lambda>_. emptyq)) (mutexes s k))
        (m := map_option f (map_option (mtx_waiters_update (\<lambda>_. emptyq)) (mutexes s m)))"
    using f by (cases "mutexes s m") (auto simp: fun_eq_iff queue_free_def)
  then show "core (map_mutex m f s) = map_mutex m f (core s)"
    by (simp add: core_def map_mutex_def)
qed (simp_all add: kstate_simps get_queue_map_mutex [OF f])

lemma upd_mutex_refines:
  assumes R: "kernel_rel s a" and m: "mutex_at (kern a) m \<noteq> None" and f: "queue_free f"
  shows "\<exists>s'. upd_mutex m f s = Some s' \<and> kernel_rel s' (a_kern (map_mutex m f) a)"
proof -
  from R m have "mutex_at s m \<noteq> None" by (auto simp: kernel_rel_def mutex_at_core)
  with kernel_rel_map_mutex [OF R f, of m] show ?thesis by (auto simp: upd_mutex_map)
qed

lemma kernel_rel_mutex:
  assumes "kernel_rel s a"
  shows "mutex_at s m = None \<longleftrightarrow> mutex_at (kern a) m = None"
    and "mutex_at s m = Some x \<Longrightarrow> mutex_at (kern a) m = Some (x\<lparr>mtx_waiters := emptyq\<rparr>)"
  using assms by (auto simp: kernel_rel_def mutex_at_core)

lemma valid_queue_mutex: "valid_queue a (MutexQ m) \<longleftrightarrow> mutex_at (kern a) m \<noteq> None"
  by (simp add: valid_queue_def get_queue.simps)

lemma a_map_mutex_simps [astate_simps]:
  "a_tcb (a_kern (map_mutex m f) a) = a_tcb a" "waitq (a_kern (map_mutex m f) a) = waitq a"
  "g_current (kern (a_kern (map_mutex m f) a)) = g_current (kern a)"
  "g_next (kern (a_kern (map_mutex m f) a)) = g_next (kern a)"
  "mutex_at (kern (a_kern (map_mutex m f) a)) = (mutex_at (kern a))(m := map_option f (mutex_at (kern a) m))"
  "lists_inv (a_kern (map_mutex m f) a) = lists_inv a"
  "valid_task (a_kern (map_mutex m f) a) = valid_task a"
  by (simp_all add: astate_simps kstate_simps valid_task_def fun_eq_iff)
    (rule lists_inv_cong, simp_all add: astate_simps kstate_simps)

text \<open>A new owner must be a task that does not wait for the mutex; no owner means no waiters.\<close>

lemma objects_inv_map_mutex:
  assumes I: "objects_inv a" and x: "mutex_at (kern a) m = Some x"
    and own: "mtx_owner (f x) = mtx_owner x \<or>
      (if mtx_owner (f x) = NULL then waitq a (MutexQ m) = []
       else valid_task a (mtx_owner (f x)) \<and> mtx_owner (f x) \<notin> set (waitq a (MutexQ m)))"
  shows "objects_inv (a_kern (map_mutex m f) a)"
proof -
  note D = objects_invD [OF I]
  have "mutexes_ok (a_kern (map_mutex m f) a)"
    using D(5) x own D(5) [unfolded mutexes_ok_def, rule_format, OF x]
    by (auto simp: mutexes_ok_def astate_simps kstate_simps split: if_splits)
  with D show ?thesis
    by (simp add: objects_inv_def sched_inv_def next_ok_def sems_ok_def astate_simps kstate_simps)
qed

lemma a_upd_link_mutex [astate_simps]:
  "mutex_at (kern (a_upd t f a)) m = mutex_at (kern a) m"
  by (simp add: astate_simps)

subsection \<open>Locking\<close>

definition a_add_owned :: "addr \<Rightarrow> addr \<Rightarrow> astate \<Rightarrow> astate" where
  "a_add_owned t m a = (case a_tcb a t of None \<Rightarrow> a | Some c \<Rightarrow>
     a_upd t (\<lambda>c. c\<lparr>tcb_owned_mutexes := m\<rparr>)
       (a_kern (map_mutex m (\<lambda>x. x\<lparr>mtx_next_mutex := tcb_owned_mutexes c\<rparr>)) a))"

definition a_boost :: "addr \<Rightarrow> os_task_priority_t \<Rightarrow> astate \<Rightarrow> astate" where
  "a_boost t p a = (if p < a_prio a t then a_set_priority t p a else a)"

definition a_lock_wait :: "addr \<Rightarrow> addr \<Rightarrow> astate \<Rightarrow> astate" where
  "a_lock_wait m owner a =
     (let t = g_current (kern a);
          a1 = a_upd t (\<lambda>c. c\<lparr>tcb_blocked_on := m\<rparr>) a;
          a2 = a_block (MutexQ m) OS_WAIT_FOREVER True (a_boost owner (a_prio a t) a1)
      in a_add_owned t m (a_upd t (\<lambda>c. c\<lparr>tcb_blocked_on := NULL\<rparr>) a2))"

definition a_lock :: "addr \<Rightarrow> astate \<Rightarrow> int \<times> astate" where
  "a_lock m a = (case mutex_at (kern a) m of None \<Rightarrow> (-1, a) | Some x \<Rightarrow>
     if mtx_owner x = NULL
     then (0, a_add_owned (g_current (kern a)) m
       (a_kern (map_mutex m (\<lambda>x. x\<lparr>mtx_owner := g_current (kern a)\<rparr>)) a))
     else if mtx_owner x = g_current (kern a) then (-1, a)
     else (0, a_lock_wait m (mtx_owner x) a))"

lemma os_mutex_add_to_owned_refines:
  assumes R: "kernel_rel s a" and t: "valid_task a t" and m: "mutex_at (kern a) m \<noteq> None"
  shows "\<exists>s'. os_mutex_add_to_owned t m s = Some s' \<and> kernel_rel s' (a_add_owned t m a)"
proof -
  from t obtain c where c: "a_tcb a t = Some c" by (auto simp: valid_task_def)
  from kernel_rel_tcbD [OF R c] obtain d where d: "tcb_at s t = Some d" "blank_tcb d = c" by blast
  then have o: "tcb_owned_mutexes d = tcb_owned_mutexes c" by auto
  let ?f = "\<lambda>x :: os_mutex_t. x\<lparr>mtx_next_mutex := tcb_owned_mutexes c\<rparr>"
  have "\<exists>s'. (upd_mutex m ?f s \<bind> upd_tcb t (\<lambda>t. t\<lparr>tcb_owned_mutexes := m\<rparr>)) = Some s' \<and>
      kernel_rel s' (a_upd t (\<lambda>c. c\<lparr>tcb_owned_mutexes := m\<rparr>) (a_kern (map_mutex m ?f) a))"
    by (rule ex_bind, rule upd_mutex_refines [OF R m], simp, erule upd_tcb_refines)
      (use t in \<open>simp_all add: astate_simps\<close>)
  with d c o show ?thesis by (simp add: os_mutex_add_to_owned_def a_add_owned_def)
qed

lemma boost_loop_refines:
  assumes R: "kernel_rel s a" and L: "lists_inv a" and cur: "valid_task a (g_current (kern a))"
    and o: "a_tcb a u = Some c" and nb: "tcb_blocked_on c = NULL"
  shows "\<exists>s'. boost_loop u s = Some s' \<and> kernel_rel s' (a_boost u (a_prio a (g_current (kern a))) a)"
proof -
  let ?p = "a_prio a (g_current (kern a))"
  from cur obtain k where k: "a_tcb a (g_current (kern a)) = Some k" by (auto simp: valid_task_def)
  from kernel_rel_tcbD [OF R k] obtain ck where ck: "tcb_at s (g_current s) = Some ck" "blank_tcb ck = k"
    using kernel_rel_globals [OF R] by auto
  from kernel_rel_tcbD [OF R o] obtain d where d: "tcb_at s u = Some d" "blank_tcb d = c" by blast
  have pr: "tcb_priority ck = ?p" "tcb_priority d = a_prio a u"
    using ck d k o by (auto simp: task_prio_def)
  have vu: "valid_task a u" using o by (simp add: valid_task_def)
  from set_priority_refines [OF R L vu, of ?p] obtain s1 where
    s1: "os_task_set_priority u ?p s = Some s1" and R1: "kernel_rel s1 (a_set_priority u ?p a)" by blast
  have "\<exists>c'. a_tcb (a_set_priority u ?p a) u = Some c' \<and> tcb_blocked_on c' = NULL"
    using a_set_priority_tcb [OF L o, of ?p] o nb by auto
  then obtain c' where c': "a_tcb (a_set_priority u ?p a) u = Some c'" "tcb_blocked_on c' = NULL" by blast
  from kernel_rel_tcbD [OF R1 c'(1)] c'(2) obtain e where e: "tcb_at s1 u = Some e" "tcb_blocked_on e = NULL" by fastforce
  have "u \<noteq> NULL" using o by auto
  with R ck d pr s1 R1 e show ?thesis
    by (simp add: boost_loop.simps [of u s] a_boost_def)
qed

lemma objects_inv_boost: "objects_inv a \<Longrightarrow> valid_task a t \<Longrightarrow> objects_inv (a_boost t p a)"
  by (simp add: a_boost_def objects_inv_set_priority)

lemma a_boost_globals [astate_simps]:
  "g_current (kern (a_boost t p a)) = g_current (kern a)"
  "mutex_at (kern (a_boost t p a)) = mutex_at (kern a)" "sem_at (kern (a_boost t p a)) = sem_at (kern a)"
  "primask (kern (a_boost t p a)) = primask (kern a)" "g_tick (kern (a_boost t p a)) = g_tick (kern a)"
  by (simp_all add: a_boost_def astate_simps)

lemma a_boost_tcb:
  assumes "lists_inv a" and "a_tcb a u = Some c"
  shows "\<exists>p'. a_tcb (a_boost u p a) = (a_tcb a)(u \<mapsto> c\<lparr>tcb_priority := p'\<rparr>) \<and>
    (p < NUM_PRIORITIES \<longrightarrow> p' = min p (tcb_priority c))"
proof (cases "p < a_prio a u \<and> p < NUM_PRIORITIES")
  case True
  with a_set_priority_tcb [OF assms, of p] assms show ?thesis
    by (intro exI [of _ p]) (simp add: a_boost_def task_prio_def)
next
  case False
  moreover from this have "a_tcb (a_boost u p a) = a_tcb a"
    by (auto simp: a_boost_def a_set_priority_def)
  ultimately show ?thesis
    using assms by (intro exI [of _ "tcb_priority c"]) (auto simp: task_prio_def fun_eq_iff)
qed

lemma a_add_owned_simps:
  "waitq (a_add_owned t m a) = waitq a" "timeoutq (a_add_owned t m a) = timeoutq a"
  "g_current (kern (a_add_owned t m a)) = g_current (kern a)"
  "g_next (kern (a_add_owned t m a)) = g_next (kern a)"
  "pendsv (kern (a_add_owned t m a)) = pendsv (kern a)"
  "sem_at (kern (a_add_owned t m a)) = sem_at (kern a)"
  "a_tcb (a_add_owned t m a) = (a_tcb a)(t := map_option (\<lambda>c. c\<lparr>tcb_owned_mutexes := m\<rparr>) (a_tcb a t))"
  "k \<noteq> m \<Longrightarrow> mutex_at (kern (a_add_owned t m a)) k = mutex_at (kern a) k"
  "map_option mtx_owner (mutex_at (kern (a_add_owned t m a)) m) = map_option mtx_owner (mutex_at (kern a) m)"
  by (cases "a_tcb a t"; auto simp: a_add_owned_def astate_simps kstate_simps option.map_comp o_def fun_eq_iff)+

lemma objects_inv_add_owned:
  assumes I: "objects_inv a" and m: "mutex_at (kern a) m \<noteq> None"
  shows "objects_inv (a_add_owned t m a)"
  using assms by (auto simp: a_add_owned_def intro!: objects_inv_keeps objects_inv_map_mutex split: option.split)

text \<open>The work between saving and restoring the interrupt mask.\<close>

definition lock_body :: "addr \<Rightarrow> kstate \<Rightarrow> (int \<times> kstate) option" where
  "lock_body mutex s = do {
     x \<leftarrow> mutex_at s mutex;
     if mtx_owner x = NULL then do {
       s \<leftarrow> upd_mutex mutex (\<lambda>x. x\<lparr>mtx_owner := g_current s\<rparr>) s;
       s \<leftarrow> os_mutex_add_to_owned (g_current s) mutex s;
       Some (0, s)
     } else if mtx_owner x = g_current s then Some (-1, s)
     else do {
       s \<leftarrow> upd_tcb (g_current s) (\<lambda>t. t\<lparr>tcb_blocked_on := mutex\<rparr>) s;
       s \<leftarrow> boost_loop (mtx_owner x) s;
       s \<leftarrow> os_task_block_locked (Some (MutexQ mutex)) OS_WAIT_FOREVER True s;
       s \<leftarrow> upd_tcb (g_current s) (\<lambda>t. t\<lparr>tcb_blocked_on := NULL\<rparr>) s;
       s \<leftarrow> os_mutex_add_to_owned (g_current s) mutex s;
       Some (0, s)
     }
   }"

lemma lock_free_refines:
  assumes R: "kernel_rel s a" and c: "current_runnable a" and m: "mutex_at (kern a) m \<noteq> None"
  shows "\<exists>s'. do {
      s \<leftarrow> upd_mutex m (\<lambda>x. x\<lparr>mtx_owner := g_current s\<rparr>) s;
      s \<leftarrow> os_mutex_add_to_owned (g_current s) m s;
      Some (0 :: int, s)
    } = Some (0, s') \<and>
    kernel_rel s' (a_add_owned (g_current (kern a)) m (a_kern (map_mutex m (\<lambda>x. x\<lparr>mtx_owner := g_current (kern a)\<rparr>)) a))"
proof -
  let ?f = "\<lambda>x :: os_mutex_t. x\<lparr>mtx_owner := g_current (kern a)\<rparr>"
  from upd_mutex_refines [OF R m, of ?f] obtain s1 where
    s1: "upd_mutex m ?f s = Some s1" and R1: "kernel_rel s1 (a_kern (map_mutex m ?f) a)" by auto
  have "valid_task (a_kern (map_mutex m ?f) a) (g_current (kern a))"
    and "mutex_at (kern (a_kern (map_mutex m ?f) a)) m \<noteq> None"
    using c m by (auto simp: current_runnable_def valid_task_def astate_simps kstate_simps)
  from os_mutex_add_to_owned_refines [OF R1 this] s1 kernel_rel_globals [OF R] kernel_rel_globals [OF R1]
  show ?thesis by (auto simp: astate_simps kstate_simps)
qed

text \<open>The state in which the current task has recorded the mutex and the owner has been boosted.\<close>

lemma lock_wait_boosted:
  assumes I: "kernel_inv a" and c: "current_runnable a" and m: "mutex_at (kern a) m = Some x"
    and o: "mtx_owner x \<noteq> NULL" "mtx_owner x \<noteq> g_current (kern a)"
  defines "a1 \<equiv> a_upd (g_current (kern a)) (\<lambda>c. c\<lparr>tcb_blocked_on := m\<rparr>) a"
  defines "a2 \<equiv> a_boost (mtx_owner x) (a_prio a (g_current (kern a))) a1"
  shows "objects_inv a1" "objects_inv a2" "current_runnable a2" "mutex_at (kern a2) m = Some x"
    "block_pre (MutexQ m) OS_WAIT_FOREVER True a2" "may_block (MutexQ m) a2"
    "valid_task a1 (mtx_owner x)" "g_current (kern a2) = g_current (kern a)"
    "\<And>u d. a_tcb a2 u = Some d \<Longrightarrow> u \<noteq> g_current (kern a) \<Longrightarrow> tcb_blocked_on d = NULL"
proof -
  note D = kernel_invD [OF I]
  show O1: "objects_inv a1" unfolding a1_def by (rule objects_inv_keeps) (simp_all add: D)
  have vo: "valid_task a (mtx_owner x)" using D(5) m o by (auto simp: mutexes_ok_def)
  then show v1: "valid_task a1 (mtx_owner x)" by (simp add: a1_def astate_simps)
  show O2: "objects_inv a2" unfolding a2_def by (rule objects_inv_boost [OF O1 v1])
  from vo obtain d where d: "a_tcb a1 (mtx_owner x) = Some d" "tcb_blocked_on d = NULL"
    using D(6) o by (auto simp: valid_task_def a1_def astate_simps no_blocked_on_def)
  from a_boost_tcb [OF objects_invD(2) [OF O1] d(1)] obtain p' where
    tcb2: "a_tcb a2 = (a_tcb a1)(mtx_owner x \<mapsto> d\<lparr>tcb_priority := p'\<rparr>)" unfolding a2_def by blast
  show g2: "g_current (kern a2) = g_current (kern a)" by (simp add: a2_def a1_def astate_simps)
  show c2: "current_runnable a2"
    using c o unfolding current_runnable_def g2 by (auto simp: tcb2 a1_def astate_simps)
  show m2: "mutex_at (kern a2) m = Some x" using m by (simp add: a2_def a1_def astate_simps)
  show "block_pre (MutexQ m) OS_WAIT_FOREVER True a2"
    using c2 m2 by (auto simp: block_pre_def current_runnable_def waitable_def valid_queue_mutex)
  show "may_block (MutexQ m) a2" using m2 o g2 by (simp add: may_block_def)
  show "tcb_blocked_on e = NULL" if "a_tcb a2 u = Some e" "u \<noteq> g_current (kern a)" for u e
    using that D(6) d by (auto simp: tcb2 a1_def astate_simps no_blocked_on_def split: if_splits)
qed

lemma lock_wait_refines:
  assumes R: "kernel_rel s a" and I: "kernel_inv a" and c: "current_runnable a" and m: "mutex_at (kern a) m = Some x"
    and o: "mtx_owner x \<noteq> NULL" "mtx_owner x \<noteq> g_current (kern a)"
  shows "\<exists>s'. do {
       s \<leftarrow> upd_tcb (g_current s) (\<lambda>t. t\<lparr>tcb_blocked_on := m\<rparr>) s;
       s \<leftarrow> boost_loop (mtx_owner x) s;
       s \<leftarrow> os_task_block_locked (Some (MutexQ m)) OS_WAIT_FOREVER True s;
       s \<leftarrow> upd_tcb (g_current s) (\<lambda>t. t\<lparr>tcb_blocked_on := NULL\<rparr>) s;
       s \<leftarrow> os_mutex_add_to_owned (g_current s) m s;
       Some (0 :: int, s)
     } = Some (0, s') \<and> kernel_rel s' (a_lock_wait m (mtx_owner x) a)"
proof -
  let ?t = "g_current (kern a)"
  let ?a1 = "a_upd ?t (\<lambda>c. c\<lparr>tcb_blocked_on := m\<rparr>) a"
  let ?a2 = "a_boost (mtx_owner x) (a_prio a ?t) ?a1"
  let ?a3 = "a_block (MutexQ m) OS_WAIT_FOREVER True ?a2"
  let ?a4 = "a_upd ?t (\<lambda>c. c\<lparr>tcb_blocked_on := NULL\<rparr>) ?a3"
  note B = lock_wait_boosted [OF I c m o]
  have vt: "valid_task a ?t" using c by (auto simp: current_runnable_def valid_task_def)
  from upd_tcb_refines [OF R vt, of "\<lambda>c. c\<lparr>tcb_blocked_on := m\<rparr>"] obtain s1 where
    s1: "upd_tcb ?t (\<lambda>c. c\<lparr>tcb_blocked_on := m\<rparr>) s = Some s1" and R1: "kernel_rel s1 ?a1" by auto
  from B(7) kernel_invD(6) [OF I] o obtain d where d: "a_tcb ?a1 (mtx_owner x) = Some d" "tcb_blocked_on d = NULL"
    by (auto simp: valid_task_def astate_simps no_blocked_on_def)
  have p1: "a_prio ?a1 (g_current (kern ?a1)) = a_prio a ?t" by (simp add: a_prio_keeps astate_simps)
  have "valid_task ?a1 (g_current (kern ?a1))" using vt by (simp add: astate_simps)
  from boost_loop_refines [OF R1 objects_invD(2) [OF B(1)] this d] obtain s2 where
    s2: "boost_loop (mtx_owner x) s1 = Some s2" and R2: "kernel_rel s2 ?a2" unfolding p1 by auto
  from block_pre_refines [OF R2 objects_invD(2) [OF B(2)] B(5)] obtain s3 where
    s3: "os_task_block_locked (Some (MutexQ m)) OS_WAIT_FOREVER True s2 = Some s3" and R3: "kernel_rel s3 ?a3" by auto
  have g3: "g_current (kern ?a3) = ?t" by (simp add: astate_simps)
  from B(3) obtain e where e: "a_tcb ?a2 ?t = Some e" by (auto simp: current_runnable_def B(8))
  from a_block_tcb [of ?a2 e "MutexQ m" OS_WAIT_FOREVER True] e B(8) have v3: "valid_task ?a3 ?t"
    by (auto simp: valid_task_def)
  from upd_tcb_refines [OF R3 v3, of "\<lambda>c. c\<lparr>tcb_blocked_on := NULL\<rparr>"] obtain s4 where
    s4: "upd_tcb ?t (\<lambda>c. c\<lparr>tcb_blocked_on := NULL\<rparr>) s3 = Some s4" and R4: "kernel_rel s4 ?a4" by auto
  have "valid_task ?a4 ?t" "mutex_at (kern ?a4) m \<noteq> None"
    using v3 B(4) by (simp_all add: astate_simps)
  from os_mutex_add_to_owned_refines [OF R4 this] obtain s5 where
    s5: "os_mutex_add_to_owned ?t m s4 = Some s5" "kernel_rel s5 (a_add_owned ?t m ?a4)" by auto
  have g: "g_current s = ?t" "g_current s3 = ?t" "g_current s4 = ?t"
    using kernel_rel_globals [OF R] kernel_rel_globals [OF R3] kernel_rel_globals [OF R4] by (simp_all add: astate_simps)
  show ?thesis
    using s1 s2 s3 s4 s5 g by (simp add: a_lock_wait_def Let_def)
qed

lemma a_lock_wait_inv:
  assumes I: "kernel_inv a" and c: "current_runnable a" and m: "mutex_at (kern a) m = Some x"
    and o: "mtx_owner x \<noteq> NULL" "mtx_owner x \<noteq> g_current (kern a)"
  shows "kernel_inv (a_lock_wait m (mtx_owner x) a)"
proof -
  let ?t = "g_current (kern a)"
  let ?a2 = "a_boost (mtx_owner x) (a_prio a ?t) (a_upd ?t (\<lambda>c. c\<lparr>tcb_blocked_on := m\<rparr>) a)"
  let ?a3 = "a_block (MutexQ m) OS_WAIT_FOREVER True ?a2"
  let ?a4 = "a_upd ?t (\<lambda>c. c\<lparr>tcb_blocked_on := NULL\<rparr>) ?a3"
  note B = lock_wait_boosted [OF I c m o]
  have "objects_inv ?a4"
    by (rule objects_inv_keeps) (simp_all add: objects_inv_block [OF B(2,5,6)])
  then have "objects_inv (a_add_owned ?t m ?a4)"
    using B(4) by (intro objects_inv_add_owned) (simp_all add: astate_simps)
  moreover from B(3) obtain e where e: "a_tcb ?a2 ?t = Some e" by (auto simp: current_runnable_def B(8))
  with a_block_tcb [of ?a2 e "MutexQ m" OS_WAIT_FOREVER True] B(8,9)
  have "no_blocked_on (a_add_owned ?t m ?a4)"
    by (auto simp: no_blocked_on_def a_add_owned_simps astate_simps split: if_splits)
  ultimately show ?thesis by (simp add: kernel_inv_def a_lock_wait_def Let_def)
qed

lemma lock_body_refines:
  assumes R: "kernel_rel s a" and I: "kernel_inv a" and c: "current_runnable a" and m: "mutex_at (kern a) m \<noteq> None"
  shows "\<exists>s'. lock_body m s = Some (fst (a_lock m a), s') \<and> kernel_rel s' (snd (a_lock m a))"
proof -
  from m obtain x where x: "mutex_at (kern a) m = Some x" by blast
  from m kernel_rel_mutex(1) [OF R] obtain y where y: "mutex_at s m = Some y" by fastforce
  then have o: "mtx_owner y = mtx_owner x" using kernel_rel_mutex(2) [OF R y] x by simp
  have g: "g_current s = g_current (kern a)" using kernel_rel_globals [OF R] by simp
  consider "mtx_owner x = NULL" | "mtx_owner x \<noteq> NULL" "mtx_owner x = g_current (kern a)"
    | "mtx_owner x \<noteq> NULL" "mtx_owner x \<noteq> g_current (kern a)" by blast
  then show ?thesis
  proof cases
    case 1
    with lock_free_refines [OF R c m] x y o show ?thesis by (simp add: lock_body_def a_lock_def)
  next
    case 2
    with R x y o g show ?thesis by (simp add: lock_body_def a_lock_def)
  next
    case 3
    from lock_wait_refines [OF R I c x 3] 3 x y o g show ?thesis by (auto simp: lock_body_def a_lock_def)
  qed
qed

lemma a_lock_inv:
  assumes I: "kernel_inv a" and c: "current_runnable a"
  shows "kernel_inv (snd (a_lock m a))"
proof (cases "mutex_at (kern a) m")
  case None
  with I show ?thesis by (simp add: a_lock_def)
next
  case (Some x)
  note D = kernel_invD [OF I]
  let ?t = "g_current (kern a)"
  let ?a1 = "a_kern (map_mutex m (\<lambda>x. x\<lparr>mtx_owner := ?t\<rparr>)) a"
  have "kernel_inv (a_add_owned ?t m ?a1)" if o: "mtx_owner x = NULL"
  proof -
    have "waitq a (MutexQ m) = []" using D(5) Some o by (auto simp: mutexes_ok_def)
    then have "objects_inv ?a1"
      using c by (intro objects_inv_map_mutex [OF D(7) Some]) (auto simp: current_runnable_def valid_task_def)
    then have "objects_inv (a_add_owned ?t m ?a1)"
      using Some by (intro objects_inv_add_owned) (simp_all add: astate_simps kstate_simps)
    moreover have "no_blocked_on (a_add_owned ?t m ?a1)"
      using D(6) by (auto simp: no_blocked_on_def a_add_owned_simps astate_simps kstate_simps split: if_splits)
    ultimately show ?thesis by (simp add: kernel_inv_def)
  qed
  with Some I a_lock_wait_inv [OF I c Some] show ?thesis by (simp add: a_lock_def)
qed

lemma lock_body_None: "kernel_rel s a \<Longrightarrow> mutex_at (kern a) m = None \<Longrightarrow> lock_body m s = None"
  using kernel_rel_mutex(1) [of s a m] by (simp add: lock_body_def)

interpretation mutex_lock: critical_service "\<lambda>m. m \<noteq> NULL" os_kernel_mutex_lock lock_body
  "\<lambda>m a r a'. (r, a') = a_lock m a" "\<lambda>m a. mutex_at (kern a) m \<noteq> None"
proof (unfold_locales, goal_cases)
  case (1 m s)
  then show ?case
    by (cases "mutex_at (s\<lparr>primask := 1\<rparr>) m") (simp_all add: os_kernel_mutex_lock_def lock_body_def os_port_irq_save_def)
next
  case (2 m s a r s')
  with lock_body_None [of s a m] have "mutex_at (kern a) m \<noteq> None" by auto
  with 2 lock_body_refines [of s a m] a_lock_inv [of a m] show ?case by fastforce
next
  case (3 m s a)
  with lock_body_refines [of s a m] show ?case by auto
qed (simp add: astate_simps)

subsection \<open>Unlocking\<close>

text \<open>The loop over the owned mutexes only writes the links of that list.\<close>

inductive relinked :: "astate \<Rightarrow> astate \<Rightarrow> bool" where
  relinked_refl: "relinked a a"
| relinked_owned: "relinked a b \<Longrightarrow> relinked a (a_upd t (\<lambda>c. c\<lparr>tcb_owned_mutexes := v\<rparr>) b)"
| relinked_next: "relinked a b \<Longrightarrow> mutex_at (kern b) m \<noteq> None \<Longrightarrow>
    relinked a (a_kern (map_mutex m (\<lambda>x. x\<lparr>mtx_next_mutex := v\<rparr>)) b)"

lemma relinked_objects_inv: "relinked a b \<Longrightarrow> objects_inv a \<Longrightarrow> objects_inv b"
  by (induction rule: relinked.induct) (auto intro: objects_inv_keeps objects_inv_map_mutex)

lemma relinked_no_blocked_on: "relinked a b \<Longrightarrow> no_blocked_on a \<Longrightarrow> no_blocked_on b"
  by (induction rule: relinked.induct) (auto simp: no_blocked_on_def astate_simps kstate_simps)

lemma relinked_kernel_inv: "relinked a b \<Longrightarrow> kernel_inv a \<Longrightarrow> kernel_inv b"
  by (simp add: kernel_inv_def relinked_objects_inv relinked_no_blocked_on)

lemma relinked_same:
  assumes "relinked a b"
  shows "waitq b = waitq a" "g_current (kern b) = g_current (kern a)" "sem_at (kern b) = sem_at (kern a)"
    "a_prio b = a_prio a" "valid_task b = valid_task a"
    "map_option tcb_base_priority (a_tcb b t) = map_option tcb_base_priority (a_tcb a t)"
    "map_option mtx_owner (mutex_at (kern b) m) = map_option mtx_owner (mutex_at (kern a) m)"
  using assms
  by (induction rule: relinked.induct)
    (auto simp: astate_simps kstate_simps a_prio_keeps fun_eq_iff option.map_comp o_def task_prio_def)

lemma upd_tcb_Some_refines:
  assumes "kernel_rel s a" and "upd_tcb t f s = Some s'" and "link_free f"
  shows "kernel_rel s' (a_upd t f a)"
proof -
  have "valid_task a t"
    using assms(1,2) by (cases "tcb_at s t") (auto simp: upd_tcb_def kernel_rel_valid_task)
  from upd_tcb_refines [OF assms(1) this assms(3)] assms(2) show ?thesis by auto
qed

lemma upd_mutex_Some_refines:
  assumes "kernel_rel s a" and "upd_mutex m f s = Some s'" and "queue_free f"
  shows "kernel_rel s' (a_kern (map_mutex m f) a)" "mutex_at (kern a) m \<noteq> None"
proof -
  have m: "mutex_at s m \<noteq> None" using assms(2) by (cases "mutex_at s m") (auto simp: upd_mutex_def)
  then show "mutex_at (kern a) m \<noteq> None" using kernel_rel_mutex(1) [OF assms(1)] by auto
  from upd_mutex_refines [OF assms(1) this assms(3)] assms(2) show "kernel_rel s' (a_kern (map_mutex m f) a)" by auto
qed

lemma relink_owned:
  assumes "kernel_rel s b" and "relinked a b" and "upd_tcb t (\<lambda>c. c\<lparr>tcb_owned_mutexes := v\<rparr>) s = Some s'"
  shows "\<exists>c. kernel_rel s' c \<and> relinked a c"
  using upd_tcb_Some_refines [OF assms(1,3)] relinked_owned [OF assms(2), of t v] by auto

lemma relink_next:
  assumes "kernel_rel s b" and "relinked a b" and "upd_mutex m (\<lambda>x. x\<lparr>mtx_next_mutex := v\<rparr>) s = Some s'"
  shows "\<exists>c. kernel_rel s' c \<and> relinked a c"
  using upd_mutex_Some_refines [OF assms(1,3)] relinked_next [OF assms(2), of m v] by auto

lemma remove_owned_loop_relinks:
  assumes "remove_owned_loop tcb mutex prev cur s = Some s'" and "kernel_rel s a"
  shows "\<exists>a'. kernel_rel s' a' \<and> relinked a a'"
  using assms
proof (induction rule: remove_owned_loop.raw_induct [rotated, consumes 1])
  case (1 loop tcb mutex prev cur s s')
  show ?case
  proof (cases "cur = NULL")
    case True
    with 1(2,3) show ?thesis by (auto intro: relinked_refl)
  next
    case False
    with 1(2) obtain c where c: "mutex_at s cur = Some c" by (auto split: bind_splits)
    show ?thesis
    proof (cases "cur = mutex")
      case False
      with c \<open>cur \<noteq> NULL\<close> 1(2) have "loop tcb mutex cur (mtx_next_mutex c) s = Some s'" by simp
      from 1(1) [OF this 1(3)] show ?thesis .
    next
      case True
      with c \<open>cur \<noteq> NULL\<close> 1(2) obtain s1 where
        s1: "(if prev = NULL then upd_tcb tcb (\<lambda>t. t\<lparr>tcb_owned_mutexes := mtx_next_mutex c\<rparr>) s
             else upd_mutex prev (\<lambda>x. x\<lparr>mtx_next_mutex := mtx_next_mutex c\<rparr>) s) = Some s1"
        and s2: "upd_mutex cur (\<lambda>x. x\<lparr>mtx_next_mutex := NULL\<rparr>) s1 = Some s'"
        by (auto split: bind_splits if_splits)
      from s1 relink_owned [OF 1(3) relinked_refl] relink_next [OF 1(3) relinked_refl]
      obtain a1 where a1: "kernel_rel s1 a1" "relinked a a1" by (cases "prev = NULL") force+
      from relink_next [OF this s2] show ?thesis .
    qed
  qed
qed

text \<open>Handing the mutex over: the first waiter becomes the owner and is made ready, or nobody owns it.\<close>

definition a_hand_over :: "addr \<Rightarrow> astate \<Rightarrow> astate" where
  "a_hand_over m a = (case waitq a (MutexQ m) of
     [] \<Rightarrow> a_kern (map_mutex m (\<lambda>x. x\<lparr>mtx_owner := NULL\<rparr>)) a
   | t # _ \<Rightarrow> a_schedule_and_pend (a_kern (map_mutex m (\<lambda>x. x\<lparr>mtx_owner := t\<rparr>)) (snd (a_wake_one (MutexQ m) a))))"

definition hand_over :: "addr \<Rightarrow> kstate \<Rightarrow> kstate option" where
  "hand_over m s = do {
     (next_owner, s) \<leftarrow> os_task_wake_one_locked (Some (MutexQ m)) s;
     if next_owner \<noteq> NULL then do {
       s \<leftarrow> upd_mutex m (\<lambda>x. x\<lparr>mtx_owner := next_owner\<rparr>) s;
       schedule_and_pend s
     } else upd_mutex m (\<lambda>x. x\<lparr>mtx_owner := NULL\<rparr>) s
   }"

lemma hand_over_bind:
  "(os_task_wake_one_locked (Some (MutexQ m)) s \<bind> (\<lambda>(next_owner, s).
      (if next_owner \<noteq> NULL then upd_mutex m (\<lambda>x. x\<lparr>mtx_owner := next_owner\<rparr>) s \<bind> schedule_and_pend
       else upd_mutex m (\<lambda>x. x\<lparr>mtx_owner := NULL\<rparr>) s) \<bind> f)) = (hand_over m s \<bind> f)"
  by (cases "os_task_wake_one_locked (Some (MutexQ m)) s") (auto simp: hand_over_def)

lemma hand_over_refines:
  assumes R: "kernel_rel s a" and I: "objects_inv a" and m: "mutex_at (kern a) m \<noteq> None"
  shows "\<exists>s'. hand_over m s = Some s' \<and> kernel_rel s' (a_hand_over m a)"
proof -
  note D = objects_invD [OF I]
  from wake_one_refines [OF R D(2), of "MutexQ m"] m obtain s1 where
    s1: "os_task_wake_one_locked (Some (MutexQ m)) s = Some (fst (a_wake_one (MutexQ m) a), s1)"
    and R1: "kernel_rel s1 (snd (a_wake_one (MutexQ m) a))" by (auto simp: valid_queue_mutex waitable_def)
  show ?thesis
  proof (cases "waitq a (MutexQ m)")
    case Nil
    then have w: "a_wake_one (MutexQ m) a = (NULL, a)" by (simp add: a_wake_one_def)
    with upd_mutex_refines [OF R1, of m] s1 m Nil show ?thesis by (simp add: hand_over_def a_hand_over_def)
  next
    case (Cons t ts)
    then have t: "fst (a_wake_one (MutexQ m) a) = t" "t \<noteq> NULL"
      using kernel_rel_waitq_nonnull [OF R, of "MutexQ m"] by (auto simp: a_wake_one_def)
    have "\<exists>s'. (upd_mutex m (\<lambda>x. x\<lparr>mtx_owner := t\<rparr>) s1 \<bind> schedule_and_pend) = Some s' \<and>
        kernel_rel s' (a_schedule_and_pend (a_kern (map_mutex m (\<lambda>x. x\<lparr>mtx_owner := t\<rparr>)) (snd (a_wake_one (MutexQ m) a))))"
      by (rule ex_bind, rule upd_mutex_refines [OF R1]) (use m in \<open>simp_all add: astate_simps schedule_and_pend_refines\<close>)
    with s1 t Cons show ?thesis by (simp add: hand_over_def a_hand_over_def)
  qed
qed

lemma a_hand_over_inv:
  assumes I: "kernel_inv a" and m: "mutex_at (kern a) m = Some x"
  shows "kernel_inv (a_hand_over m a)"
proof (cases "waitq a (MutexQ m)")
  case Nil
  note D = kernel_invD [OF I]
  have "objects_inv (a_hand_over m a)"
    using Nil by (simp add: a_hand_over_def objects_inv_map_mutex [OF D(7) m])
  with D(6) Nil show ?thesis by (simp add: kernel_inv_def no_blocked_on_def a_hand_over_def astate_simps kstate_simps)
next
  case (Cons t ts)
  note D = kernel_invD [OF I]
  let ?w = "snd (a_wake_one (MutexQ m) a)" and ?f = "\<lambda>x :: os_mutex_t. x\<lparr>mtx_owner := t\<rparr>"
  have W: "kernel_inv ?w" by (rule kernel_inv_wake_one [OF I]) (simp_all add: waitable_def)
  note DW = kernel_invD [OF W]
  have q: "waitable (MutexQ m)" "MutexQ m \<noteq> SleepQ" by (simp_all add: waitable_def)
  from wake_one_pre [OF D(2) q Cons] obtain c where c: "a_tcb a t = Some c" by blast
  note wc = a_wake_one_Cons [OF D(2) q Cons c]
  have "t \<notin> set ts" using lists_inv_distinct [OF D(2), of "MutexQ m"] Cons by simp
  moreover have "valid_task ?w t" using wc(2) by (simp add: valid_task_def)
  moreover have "t \<noteq> NULL" using c by auto
  ultimately have O: "objects_inv (a_kern (map_mutex m ?f) ?w)"
    using m by (intro objects_inv_map_mutex [OF DW(7)]) (simp_all add: astate_simps wc)
  have "no_blocked_on (a_kern (map_mutex m ?f) ?w)"
    using DW(6) by (simp add: no_blocked_on_def astate_simps kstate_simps)
  with objects_invD [OF O] Cons show ?thesis
    by (simp add: a_hand_over_def kernel_inv_schedule)
qed

subsection \<open>Chains of owned mutexes\<close>

fun owned_chain :: "kstate \<Rightarrow> addr \<Rightarrow> addr list \<Rightarrow> addr \<Rightarrow> bool" where
  "owned_chain s p [] q = (p = q)"
| "owned_chain s p (x # xs) q =
     (p = x \<and> x \<noteq> q \<and> (\<exists>c. mutex_at s x = Some c \<and> owned_chain s (mtx_next_mutex c) xs q))"

lemma owned_chain_first: "owned_chain s p xs NULL \<Longrightarrow> p = first_or xs NULL"
  by (cases xs) auto

lemma owned_chain_nonnull: "owned_chain s p xs NULL \<Longrightarrow> NULL \<notin> set xs"
  by (induction xs arbitrary: p) auto

lemma owned_chain_mutex: "owned_chain s p xs NULL \<Longrightarrow> m \<in> set xs \<Longrightarrow> mutex_at s m \<noteq> None"
  by (induction xs arbitrary: p) auto

lemma owned_chain_unique: "owned_chain s p xs NULL \<Longrightarrow> owned_chain s p ys NULL \<Longrightarrow> xs = ys"
  by (induction xs arbitrary: p ys; rename_tac ys, case_tac ys) auto

lemma owned_chain_suffix: "owned_chain s p (xs @ ys) NULL \<Longrightarrow> owned_chain s (first_or ys NULL) ys NULL"
  by (induction xs arbitrary: p) (auto dest: owned_chain_first)

text \<open>A chain that ends has no cycle.\<close>

lemma owned_chain_distinct: "owned_chain s p xs NULL \<Longrightarrow> distinct xs"
proof (induction xs arbitrary: p)
  case (Cons x xs)
  have "x \<notin> set xs"
  proof
    assume "x \<in> set xs"
    then obtain us vs where xs: "xs = us @ x # vs" by (meson split_list)
    with Cons.prems have "owned_chain s x (x # vs) NULL"
      using owned_chain_suffix [of s p "x # us" "x # vs"] by simp
    moreover have "owned_chain s x (x # xs) NULL" using Cons.prems by simp
    ultimately have "x # vs = x # xs" by (rule owned_chain_unique)
    with xs show False by simp
  qed
  with Cons show ?case by auto
qed simp

lemma owned_chain_cong:
  "(\<And>x. x \<in> set xs \<Longrightarrow> map_option mtx_next_mutex (mutex_at s' x) = map_option mtx_next_mutex (mutex_at s x)) \<Longrightarrow>
    owned_chain s' p xs q = owned_chain s p xs q"
proof (induction xs arbitrary: p)
  case (Cons x xs)
  then have "map_option mtx_next_mutex (mutex_at s' x) = map_option mtx_next_mutex (mutex_at s x)" by simp
  with Cons show ?case by (cases "mutex_at s x"; cases "mutex_at s' x") auto
qed simp

lemma owned_chain_core: "owned_chain (core s) = owned_chain s"
proof (intro ext)
  fix p xs q
  show "owned_chain (core s) p xs q = owned_chain s p xs q"
    by (rule owned_chain_cong) (simp add: mutex_at_core option.map_comp o_def)
qed

lemma remove_owned_loop_absent:
  "owned_chain s cur xs NULL \<Longrightarrow> m \<notin> set xs \<Longrightarrow> remove_owned_loop tcb m prev cur s = Some s"
  by (induction xs arbitrary: prev cur) (auto simp: remove_owned_loop.simps)

lemma remove_owned_loop_found:
  "owned_chain s cur (ys @ m # zs) NULL \<Longrightarrow> m \<notin> set ys \<Longrightarrow>
    remove_owned_loop tcb m prev cur s = do {
      s \<leftarrow> (if last_or prev ys = NULL then upd_tcb tcb (\<lambda>t. t\<lparr>tcb_owned_mutexes := first_or zs NULL\<rparr>) s
           else upd_mutex (last_or prev ys) (\<lambda>x. x\<lparr>mtx_next_mutex := first_or zs NULL\<rparr>) s);
      upd_mutex m (\<lambda>x. x\<lparr>mtx_next_mutex := NULL\<rparr>) s
    }"
proof (induction ys arbitrary: prev cur)
  case Nil
  then obtain c where "mutex_at s m = Some c" "mtx_next_mutex c = first_or zs NULL" "m \<noteq> NULL" "cur = m"
    by (auto dest: owned_chain_first)
  then show ?case by (subst remove_owned_loop.simps) simp
next
  case (Cons y ys)
  then obtain c where c: "mutex_at s y = Some c" "owned_chain s (mtx_next_mutex c) (ys @ m # zs) NULL" "y \<noteq> NULL" "cur = y"
    by auto
  moreover have "y \<noteq> m" using Cons.prems by auto
  ultimately show ?case
    using Cons.IH [OF c(2), of y] Cons.prems
    by (simp add: remove_owned_loop.simps [of tcb m prev y s])
qed

text \<open>What remains after unlinking.\<close>

lemma owned_chain_splice:
  assumes "owned_chain s p (us @ k # vs) NULL"
    and "\<And>x. x \<in> set us \<Longrightarrow> mutex_at s' x = mutex_at s x"
    and "mutex_at s' k = Some c" and "mtx_next_mutex c = first_or zs NULL" and "owned_chain s' (first_or zs NULL) zs NULL"
  shows "owned_chain s' p (us @ k # zs) NULL"
  using assms by (induction us arbitrary: p) auto

lemma remove_from_owned_chain:
  assumes t: "tcb_at s t = Some c" and ch: "owned_chain s (tcb_owned_mutexes c) xs NULL"
  shows "\<exists>s' c'. os_mutex_remove_from_owned t m s = Some s' \<and> tcb_at s' t = Some c' \<and>
    owned_chain s' (tcb_owned_mutexes c') (remove1 m xs) NULL"
proof (cases "m \<in> set xs")
  case False
  with remove_owned_loop_absent [OF ch False] t ch show ?thesis
    by (simp add: os_mutex_remove_from_owned_def remove1_idem)
next
  case True
  from split_list_mem [OF this owned_chain_distinct [OF ch]] obtain ys zs where
    xs: "xs = ys @ m # zs" "m \<notin> set ys" "m \<notin> set zs" "remove1 m xs = ys @ zs" by blast
  note nn = owned_chain_nonnull [OF ch]
  have t0: "t \<noteq> NULL" and m0: "m \<noteq> NULL" using t nn xs by auto
  from owned_chain_suffix [of s "tcb_owned_mutexes c" "ys @ [m]" zs] ch xs
  have zs: "owned_chain s (first_or zs NULL) zs NULL" by simp
  from owned_chain_mutex [OF ch, of m] xs obtain x where x: "mutex_at s m = Some x" by auto
  have loop: "os_mutex_remove_from_owned t m s = remove_owned_loop t m NULL (tcb_owned_mutexes c) s"
    using t by (simp add: os_mutex_remove_from_owned_def)
  note found = remove_owned_loop_found [OF ch [unfolded xs(1)] xs(2), of t NULL]
  show ?thesis
  proof (cases ys rule: rev_cases)
    case Nil
    let ?s = "map_mutex m (\<lambda>x. x\<lparr>mtx_next_mutex := NULL\<rparr>) (put_tcb t (c\<lparr>tcb_owned_mutexes := first_or zs NULL\<rparr>) s)"
    have "remove_owned_loop t m NULL (tcb_owned_mutexes c) s = Some ?s"
      using found Nil t x by (simp add: kstate_simps upd_mutex_map)
    moreover have "owned_chain ?s (first_or zs NULL) zs NULL = owned_chain s (first_or zs NULL) zs NULL"
      using xs(3) by (intro owned_chain_cong) (auto simp: kstate_simps)
    ultimately show ?thesis
      using loop xs(4) Nil zs t0 by (simp add: kstate_simps)
  next
    case (snoc us k)
    let ?s = "map_mutex m (\<lambda>x. x\<lparr>mtx_next_mutex := NULL\<rparr>) (map_mutex k (\<lambda>x. x\<lparr>mtx_next_mutex := first_or zs NULL\<rparr>) s)"
    from owned_chain_mutex [OF ch, of k] xs snoc obtain y where y: "mutex_at s k = Some y" by auto
    have d: "distinct (us @ k # m # zs)" using owned_chain_distinct [OF ch] xs(1) snoc by simp
    have k0: "k \<noteq> NULL" using nn xs(1) snoc by auto
    have "remove_owned_loop t m NULL (tcb_owned_mutexes c) s = Some ?s"
      using found snoc k0 x y d by (auto simp: kstate_simps upd_mutex_eq)
    moreover have "owned_chain ?s (tcb_owned_mutexes c) (us @ k # zs) NULL"
    proof (rule owned_chain_splice)
      show "owned_chain s (tcb_owned_mutexes c) (us @ k # m # zs) NULL" using ch xs(1) snoc by simp
      show "mutex_at ?s z = mutex_at s z" if "z \<in> set us" for z using that d by (auto simp: kstate_simps)
      show "mutex_at ?s k = Some (y\<lparr>mtx_next_mutex := first_or zs NULL\<rparr>)" using y d by (simp add: kstate_simps)
      have "owned_chain ?s (first_or zs NULL) zs NULL = owned_chain s (first_or zs NULL) zs NULL"
        using d by (intro owned_chain_cong) (auto simp: kstate_simps)
      with zs show "owned_chain ?s (first_or zs NULL) zs NULL" by simp
    qed simp
    ultimately show ?thesis
      using loop xs(4) snoc t by (simp add: kstate_simps)
  qed
qed

text \<open>The priority a task inherits from the first waiters of a list of mutexes.\<close>

fun inherited :: "astate \<Rightarrow> addr list \<Rightarrow> os_task_priority_t \<Rightarrow> os_task_priority_t" where
  "inherited a [] r = r"
| "inherited a (m # ms) r = inherited a ms (case waitq a (MutexQ m) of [] \<Rightarrow> r | h # _ \<Rightarrow> min r (a_prio a h))"

lemma recompute_loop_chain:
  assumes R: "kernel_rel s a" and ch: "owned_chain s p ms NULL"
  shows "recompute_loop p r s = Some (inherited a ms r)"
  using ch
proof (induction ms arbitrary: p r)
  case Nil
  then show ?case by (simp add: recompute_loop.simps)
next
  case (Cons m ms)
  then obtain x where x: "mutex_at s m = Some x" "owned_chain s (mtx_next_mutex x) ms NULL" "m \<noteq> NULL" "p = m" by auto
  have d: "dlist tcb_next tcb_prev (tcb_at s) (mtx_waiters x) (waitq a (MutexQ m))"
    using kernel_rel_queue [OF R, of "MutexQ m"] x by (simp add: get_queue.simps)
  show ?case
  proof (cases "waitq a (MutexQ m)")
    case Nil
    with d have "q_head (mtx_waiters x) = NULL" by (simp add: dlist_def)
    with x Nil Cons.IH [OF x(2)] show ?thesis by (simp add: recompute_loop.simps [of m])
  next
    case (Cons h hs)
    with d obtain t where "q_head (mtx_waiters x) = h" "h \<noteq> NULL" "tcb_at s h = Some t" by (auto simp: dlist_def)
    moreover from this have "tcb_priority t = a_prio a h"
      using kernel_rel_task_prio [OF R, symmetric] by (simp add: task_prio_def)
    ultimately show ?thesis
      using x Cons Cons.IH [OF x(2)] by (simp add: recompute_loop.simps [of m] min_def)
  qed
qed

text \<open>Because the waiters of a mutex are sorted, this is the most urgent priority among the given one and
  all waiters.\<close>

lemma inherited_le: "inherited a ms r \<le> r"
proof (induction ms arbitrary: r)
  case (Cons m ms)
  show ?case
    by (cases "waitq a (MutexQ m)") (auto intro: order_trans [OF Cons.IH])
qed simp

lemma inherited_le_waiter:
  assumes "mutex_queues_sorted a" and "m \<in> set ms" and "t \<in> set (waitq a (MutexQ m))"
  shows "inherited a ms r \<le> a_prio a t"
  using assms(2)
proof (induction ms arbitrary: r)
  case (Cons k ms)
  show ?case
  proof (cases "k = m")
    case True
    with assms(3) obtain h hs where q: "waitq a (MutexQ k) = h # hs" by (cases "waitq a (MutexQ k)") auto
    from assms(1) have "sorted (map (a_prio a) (waitq a (MutexQ k)))" by (simp add: mutex_queues_sorted_def)
    with q True assms(3) have "a_prio a h \<le> a_prio a t" by auto
    with q inherited_le [of a ms "min r (a_prio a h)"] show ?thesis by simp
  next
    case False
    with Cons show ?thesis by simp
  qed
qed simp

lemma inherited_attained:
  "inherited a ms r = r \<or> (\<exists>m\<in>set ms. \<exists>t\<in>set (waitq a (MutexQ m)). inherited a ms r = a_prio a t)"
proof (induction ms arbitrary: r)
  case (Cons m ms)
  show ?case
  proof (cases "waitq a (MutexQ m)")
    case Nil
    with Cons [of r] show ?thesis by auto
  next
    case (Cons h hs)
    with Cons.IH [of "min r (a_prio a h)"] show ?thesis by (auto simp: min_def split: if_splits)
  qed
qed simp

subsection \<open>The unlock service\<close>

definition unlock_body :: "addr \<Rightarrow> kstate \<Rightarrow> (int \<times> kstate) option" where
  "unlock_body mutex s = do {
     x \<leftarrow> mutex_at s mutex;
     if mtx_owner x \<noteq> g_current s then Some (-1, s)
     else do {
       s \<leftarrow> os_mutex_remove_from_owned (g_current s) mutex s;
       p \<leftarrow> os_mutex_recompute_priority (g_current s) s;
       s \<leftarrow> os_task_set_priority (g_current s) p s;
       s \<leftarrow> hand_over mutex s;
       Some (0, s)
     }
   }"

definition unlock_spec :: "addr \<Rightarrow> astate \<Rightarrow> int \<Rightarrow> astate \<Rightarrow> bool" where
  "unlock_spec m a r a' \<longleftrightarrow> (\<exists>x. mutex_at (kern a) m = Some x \<and>
     (if mtx_owner x \<noteq> g_current (kern a) then r = -1 \<and> a' = a
      else r = 0 \<and> (\<exists>b p. relinked a b \<and> a' = a_hand_over m (a_set_priority (g_current (kern a)) p b))))"

lemma remove_from_owned_relinks:
  assumes "os_mutex_remove_from_owned t m s = Some s'" and "kernel_rel s a"
  shows "\<exists>a'. kernel_rel s' a' \<and> relinked a a'"
proof -
  from assms(1) obtain v where "remove_owned_loop t m NULL v s = Some s'"
    by (cases "tcb_at s t") (auto simp: os_mutex_remove_from_owned_def)
  from remove_owned_loop_relinks [OF this assms(2)] show ?thesis .
qed

text \<open>From the removal on: for any priority that the loop over the owned mutexes computes.\<close>

lemma unlock_rest:
  assumes R: "kernel_rel s b" and I: "kernel_inv b" and v: "valid_task b t" and m: "mutex_at (kern b) m \<noteq> None"
  shows "\<exists>s'. (os_task_set_priority t p s \<bind> hand_over m) = Some s' \<and>
      kernel_rel s' (a_hand_over m (a_set_priority t p b))"
    and "kernel_inv (a_hand_over m (a_set_priority t p b))"
proof -
  have K: "kernel_inv (a_set_priority t p b)" by (rule kernel_inv_set_priority [OF I v])
  have m': "mutex_at (kern (a_set_priority t p b)) m \<noteq> None" using m by (simp add: astate_simps)
  then show "kernel_inv (a_hand_over m (a_set_priority t p b))" using a_hand_over_inv [OF K] by auto
  show "\<exists>s'. (os_task_set_priority t p s \<bind> hand_over m) = Some s' \<and>
      kernel_rel s' (a_hand_over m (a_set_priority t p b))"
    by (rule ex_bind, rule set_priority_refines [OF R kernel_invD(2) [OF I] v],
        erule hand_over_refines [OF _ kernel_invD(7) [OF K] m'])
qed

lemma relinked_mutex: "relinked a b \<Longrightarrow> mutex_at (kern b) m = None \<longleftrightarrow> mutex_at (kern a) m = None"
  using relinked_same(7) [of a b m] by auto

lemma unlock_body_keeps:
  assumes R: "kernel_rel s a" and I: "kernel_inv a" and c: "current_runnable a" and u: "unlock_body m s = Some (r, s')"
  shows "\<exists>a'. kernel_rel s' a' \<and> kernel_inv a' \<and> unlock_spec m a r a'"
proof -
  from u obtain y where y: "mutex_at s m = Some y" by (cases "mutex_at s m") (auto simp: unlock_body_def)
  note x = kernel_rel_mutex(2) [OF R y]
  have g: "g_current s = g_current (kern a)" using kernel_rel_globals [OF R] by simp
  show ?thesis
  proof (cases "mtx_owner y = g_current s")
    case False
    with u y x g R I show ?thesis by (auto simp: unlock_body_def unlock_spec_def)
  next
    case True
    let ?t = "g_current (kern a)"
    from True u y obtain s1 where s1: "os_mutex_remove_from_owned (g_current s) m s = Some s1"
      by (cases "os_mutex_remove_from_owned (g_current s) m s") (auto simp: unlock_body_def)
    from remove_from_owned_relinks [OF s1 R] obtain b where b: "kernel_rel s1 b" "relinked a b" by blast
    have g1: "g_current s1 = ?t" using kernel_rel_globals [OF b(1)] relinked_same [OF b(2)] by simp
    from True u y s1 obtain p where p: "os_mutex_recompute_priority (g_current s1) s1 = Some p"
      by (cases "os_mutex_recompute_priority (g_current s1) s1") (auto simp: unlock_body_def)
    have K: "kernel_inv b" by (rule relinked_kernel_inv [OF b(2) I])
    have v: "valid_task b ?t" using c relinked_same(5) [OF b(2)] by (auto simp: current_runnable_def valid_task_def)
    have m: "mutex_at (kern b) m \<noteq> None" using x relinked_mutex [OF b(2)] by simp
    from unlock_rest [OF b(1) K v m, of p] obtain s2 where
      s2: "(os_task_set_priority ?t p s1 \<bind> hand_over m) = Some s2"
      "kernel_rel s2 (a_hand_over m (a_set_priority ?t p b))" "kernel_inv (a_hand_over m (a_set_priority ?t p b))" by blast
    have g2: "g_current s = ?t" by (rule g)
    from u True y s1 p s2(1) have "r = 0" "s' = s2"
      by (auto simp: unlock_body_def g1 split: bind_splits)
    with s2 b x True g show ?thesis by (auto simp: unlock_spec_def)
  qed
qed

text \<open>With a chain of owned mutexes that ends, the service returns, and the new priority of the task is the
  one it inherits from the waiters of the mutexes it still owns.\<close>

definition owns :: "astate \<Rightarrow> addr \<Rightarrow> addr list \<Rightarrow> bool" where
  "owns a t ms \<longleftrightarrow> (\<exists>c. a_tcb a t = Some c \<and> owned_chain (kern a) (tcb_owned_mutexes c) ms NULL)"

lemma unlock_body_returns:
  assumes R: "kernel_rel s a" and I: "kernel_inv a" and c: "current_runnable a" and m: "mutex_at (kern a) m = Some x"
    and o: "owns a (g_current (kern a)) ms" and own: "mtx_owner x = g_current (kern a)"
  shows "\<exists>s' b k. unlock_body m s = Some (0, s') \<and> relinked a b \<and> a_tcb a (g_current (kern a)) = Some k \<and>
    kernel_rel s' (a_hand_over m (a_set_priority (g_current (kern a))
      (inherited a (remove1 m ms) (tcb_base_priority k)) b)) \<and>
    kernel_inv (a_hand_over m (a_set_priority (g_current (kern a))
      (inherited a (remove1 m ms) (tcb_base_priority k)) b))"
proof -
  let ?t = "g_current (kern a)"
  have g: "g_current s = ?t" using kernel_rel_globals [OF R] by simp
  from m kernel_rel_mutex(1) [OF R] obtain y where y: "mutex_at s m = Some y" by fastforce
  with kernel_rel_mutex(2) [OF R y] m own g have yo: "mtx_owner y = g_current s" by simp
  from o obtain k where k: "a_tcb a ?t = Some k" "owned_chain (kern a) (tcb_owned_mutexes k) ms NULL"
    by (auto simp: owns_def)
  from kernel_rel_tcbD [OF R k(1)] obtain d where d: "tcb_at s ?t = Some d" "blank_tcb d = k" by blast
  then have ch: "owned_chain s (tcb_owned_mutexes d) ms NULL"
    using k(2) R by (auto simp: kernel_rel_def owned_chain_core)
  from remove_from_owned_chain [OF d(1) ch, of m] obtain s1 e where
    s1: "os_mutex_remove_from_owned ?t m s = Some s1" and e: "tcb_at s1 ?t = Some e"
    and ch1: "owned_chain s1 (tcb_owned_mutexes e) (remove1 m ms) NULL" by blast
  from remove_from_owned_relinks [OF s1 R] obtain b where b: "kernel_rel s1 b" "relinked a b" by blast
  note same = relinked_same [OF b(2)]
  have g1: "g_current s1 = ?t" using kernel_rel_globals [OF b(1)] same by simp
  have base: "tcb_base_priority e = tcb_base_priority k"
    using same(6) [of ?t] k(1) kernel_rel_tcb [OF b(1) e] by simp
  have inh: "inherited b ks r = inherited a ks r" for ks r
    by (induction ks arbitrary: r) (simp_all add: same split: list.split)
  have p: "os_mutex_recompute_priority ?t s1 = Some (inherited a (remove1 m ms) (tcb_base_priority k))"
    using recompute_loop_chain [OF b(1) ch1] e base inh by (simp add: os_mutex_recompute_priority_def)
  have K: "kernel_inv b" by (rule relinked_kernel_inv [OF b(2) I])
  have v: "valid_task b ?t" using c same(5) by (auto simp: current_runnable_def valid_task_def)
  have mb: "mutex_at (kern b) m \<noteq> None" using m relinked_mutex [OF b(2)] by simp
  note rest = unlock_rest [OF b(1) K v mb, of "inherited a (remove1 m ms) (tcb_base_priority k)"]
  then obtain s2 where "(os_task_set_priority ?t (inherited a (remove1 m ms) (tcb_base_priority k)) s1 \<bind> hand_over m) = Some s2"
    "kernel_rel s2 (a_hand_over m (a_set_priority ?t (inherited a (remove1 m ms) (tcb_base_priority k)) b))" by blast
  then show ?thesis
    using y yo s1 g g1 p b(2) k(1) rest(2)
    by (intro exI [of _ s2] exI [of _ b] exI [of _ k]) (auto simp: unlock_body_def split: bind_splits)
qed

interpretation mutex_unlock: critical_service "\<lambda>m. m \<noteq> NULL" os_kernel_mutex_unlock unlock_body
  unlock_spec "\<lambda>m a. mutex_at (kern a) m \<noteq> None \<and> (\<exists>ms. owns a (g_current (kern a)) ms)"
proof (unfold_locales, goal_cases)
  case (1 m s)
  then show ?case
    by (cases "mutex_at (s\<lparr>primask := 1\<rparr>) m")
      (simp_all add: os_kernel_mutex_unlock_def unlock_body_def hand_over_bind os_port_irq_save_def)
next
  case (2 m s a r s')
  with unlock_body_keeps [of s a m r s'] show ?case by blast
next
  case (3 m s a)
  then obtain x ms where x: "mutex_at (kern a) m = Some x" "owns a (g_current (kern a)) ms" by blast
  show ?case
  proof (cases "mtx_owner x = g_current (kern a)")
    case True
    with unlock_body_returns [of s a m x ms] 3 x show ?thesis by auto
  next
    case False
    from x 3 kernel_rel_mutex [of s a m] obtain y where "mutex_at s m = Some y" by fastforce
    with False kernel_rel_mutex(2) [of s a m y] x 3 kernel_rel_globals [of s a] show ?thesis
      by (simp add: unlock_body_def)
  qed
next
  case (4 m a)
  have "owned_chain (kern (masked a)) = owned_chain (kern a)"
    by (intro ext owned_chain_cong) (simp add: astate_simps)
  then show ?case by (simp add: astate_simps owns_def)
qed

end
