(* ===== verification/Mutex_Properties.thy ===== *)
theory Mutex_Properties
  imports Mutex
begin

text \<open>
  What locking and unlocking do to owners, waiters and priorities.
\<close>

lemma insert_prio_cong:
  assumes "\<And>x. x \<in> insert t (set xs) \<Longrightarrow> f x = g x"
  shows "insert_prio f t xs = insert_prio g t xs"
proof -
  have "takeWhile (\<lambda>x. f x \<le> f t) xs = takeWhile (\<lambda>x. g x \<le> g t) xs"
    and "dropWhile (\<lambda>x. f x \<le> f t) xs = dropWhile (\<lambda>x. g x \<le> g t) xs"
    using assms by (auto intro!: takeWhile_cong dropWhile_cong)
  then show ?thesis by (simp add: insert_prio_def)
qed

text \<open>Changing a priority only touches the queue the task is in.\<close>

lemma a_set_priority_waitq_other:
  assumes L: "lists_inv a" and v: "valid_task a u" and q: "waitable q" "u \<notin> set (waitq a q)"
  shows "waitq (a_set_priority u p a) q = waitq a q"
proof (cases "u \<noteq> NULL \<and> p < NUM_PRIORITIES")
  case False
  then show ?thesis by (auto simp: a_set_priority_def)
next
  case True
  from v obtain c where c: "a_tcb a u = Some c" by (auto simp: valid_task_def)
  note ok = lists_inv_tcb [OF L c]
  show ?thesis
  proof (cases "tcb_state c = OS_TASK_BLOCKED")
    case b: True
    with ok obtain r where r: "tcb_wait_queue c = Some r" by (auto simp: tcb_ok_def)
    then have "q \<noteq> r" using q(2) c b lists_inv_home [OF L, of u q] by (auto simp: home_def)
    with a_set_priority_blocked(2) [OF c b _ _ r, of p] True show ?thesis by (simp add: astate_simps)
  next
    case b: False
    with ok have "tcb_wait_queue c = None" by (auto simp: tcb_ok_def)
    with a_set_priority_ready(2) [OF c b _ _, of p] True q(1) show ?thesis by (simp add: astate_simps waitable_def)
  qed
qed

lemma a_boost_waitq_other:
  "lists_inv a \<Longrightarrow> valid_task a u \<Longrightarrow> waitable q \<Longrightarrow> u \<notin> set (waitq a q) \<Longrightarrow> waitq (a_boost u p a) q = waitq a q"
  by (simp add: a_boost_def a_set_priority_waitq_other)

lemma a_prio_tcb: "a_tcb a t = Some c \<Longrightarrow> a_prio a t = tcb_priority c"
  by (simp add: task_prio_def)

lemma a_prio_le:
  assumes "lists_inv a" and "a_tcb a t = Some c"
  shows "a_prio a t < NUM_PRIORITIES"
  using lists_inv_tcb [OF assms] assms(2) by (simp add: a_prio_tcb tcb_ok_def)

lemma a_boost_prio:
  assumes L: "lists_inv a" and u: "valid_task a u" and p: "p < NUM_PRIORITIES"
  shows "a_prio (a_boost u p a) = (a_prio a)(u := min p (a_prio a u))"
proof -
  from u obtain c where c: "a_tcb a u = Some c" by (auto simp: valid_task_def)
  from a_boost_tcb [OF L c, of p] p c show ?thesis by (auto simp: task_prio_def fun_eq_iff)
qed

lemma a_block_prio: "a_tcb a (g_current (kern a)) = Some c \<Longrightarrow> a_prio (a_block q n po a) = a_prio a"
  using a_block_tcb [of a c q n po] by (auto simp: task_prio_def fun_eq_iff set_blocked_def)

lemma a_add_owned_prio: "a_prio (a_add_owned t m a) = a_prio a"
  by (auto simp: task_prio_def a_add_owned_simps fun_eq_iff split: option.splits)

lemma a_block_waitq_prio:
  assumes "\<And>p. q \<noteq> ReadyQ p" and c: "a_tcb a (g_current (kern a)) = Some c"
  shows "waitq (a_block q n True a) q = insert_prio (a_prio a) (g_current (kern a)) (waitq a q)"
proof -
  let ?t = "g_current (kern a)"
  have "a_prio (a_upd ?t (set_blocked (Some q)) (a_ready_remove ?t a)) = a_prio a"
    using c by (auto simp: task_prio_def astate_simps set_blocked_def a_ready_remove_def fun_eq_iff)
  with assms show ?thesis
    by (simp add: a_block_def Let_def a_arm_def a_join_def a_ready_remove_def astate_simps)
qed

lemma a_lock_wait_effect:
  assumes I: "kernel_inv a" and c: "current_runnable a" and m: "mutex_at (kern a) m = Some x"
    and o: "mtx_owner x \<noteq> NULL" "mtx_owner x \<noteq> g_current (kern a)"
  defines "a' \<equiv> a_lock_wait m (mtx_owner x) a" and "t \<equiv> g_current (kern a)"
  shows "waitq a' (MutexQ m) = insert_prio (a_prio a) t (waitq a (MutexQ m))"
    and "a_prio a' = (a_prio a)(mtx_owner x := min (a_prio a t) (a_prio a (mtx_owner x)))"
    and "g_next (kern a') \<noteq> t" and "pendsv (kern a')"
    and "map_option mtx_owner (mutex_at (kern a') m) = Some (mtx_owner x)"
    and "map_option tcb_owned_mutexes (a_tcb a' t) = Some m"
    and "map_option mtx_next_mutex (mutex_at (kern a') m) = map_option tcb_owned_mutexes (a_tcb a t)"
    and "map_option tcb_state (a_tcb a' t) = Some OS_TASK_BLOCKED"
proof -
  let ?a1 = "a_upd t (\<lambda>c. c\<lparr>tcb_blocked_on := m\<rparr>) a"
  let ?a2 = "a_boost (mtx_owner x) (a_prio a t) ?a1"
  let ?a3 = "a_block (MutexQ m) OS_WAIT_FOREVER True ?a2"
  note B = lock_wait_boosted [OF I c m o, folded t_def]
  have a': "a' = a_add_owned t m (a_upd t (\<lambda>c. c\<lparr>tcb_blocked_on := NULL\<rparr>) ?a3)"
    by (simp add: a'_def a_lock_wait_def Let_def t_def)
  note L1 = objects_invD(2) [OF B(1)]
  have p1: "a_prio ?a1 = a_prio a" by (simp add: a_prio_keeps)
  from c obtain k where k: "a_tcb a t = Some k" by (auto simp: current_runnable_def t_def)
  have p: "a_prio a t < NUM_PRIORITIES" by (rule a_prio_le [OF kernel_invD(2) [OF I] k])
  have out: "mtx_owner x \<notin> set (waitq a (MutexQ m))" using kernel_invD(5) [OF I] m o by (auto simp: mutexes_ok_def)
  have w2: "waitq ?a2 (MutexQ m) = waitq a (MutexQ m)"
    using a_boost_waitq_other [OF L1 B(7), of "MutexQ m"] out by (simp add: astate_simps waitable_def)
  have p2: "a_prio ?a2 = (a_prio a)(mtx_owner x := min (a_prio a t) (a_prio a (mtx_owner x)))"
    using a_boost_prio [OF L1 B(7) p] p1 by simp
  from B(3) obtain e where e: "a_tcb ?a2 (g_current (kern ?a2)) = Some e" by (auto simp: current_runnable_def)
  have "waitq ?a3 (MutexQ m) = insert_prio (a_prio ?a2) t (waitq ?a2 (MutexQ m))"
    using a_block_waitq_prio [OF _ e, of "MutexQ m"] B(8) by simp
  also have "\<dots> = insert_prio (a_prio a) t (waitq a (MutexQ m))"
    unfolding w2 by (rule insert_prio_cong) (use out o [folded t_def] in \<open>auto simp: p2\<close>)
  finally show "waitq a' (MutexQ m) = insert_prio (a_prio a) t (waitq a (MutexQ m))"
    by (simp add: a' a_add_owned_simps astate_simps)
  show "a_prio a' = (a_prio a)(mtx_owner x := min (a_prio a t) (a_prio a (mtx_owner x)))"
    by (simp add: a' a_add_owned_prio a_prio_keeps a_block_prio [OF e] p2)
  show "g_next (kern a') \<noteq> t" "pendsv (kern a')"
    using a_block_switches [OF objects_invD(2) [OF B(2)] B(5)] B(8)
    by (simp_all add: a' a_add_owned_simps astate_simps)
  show "map_option mtx_owner (mutex_at (kern a') m) = Some (mtx_owner x)"
    using B(4) by (simp add: a' a_add_owned_simps astate_simps)
  from B(7) obtain d where d: "a_tcb ?a1 (mtx_owner x) = Some d" by (auto simp: valid_task_def)
  from a_boost_tcb [OF L1 d] obtain p' where "a_tcb ?a2 = (a_tcb ?a1)(mtx_owner x \<mapsto> d\<lparr>tcb_priority := p'\<rparr>)" by blast
  then have e': "e = k\<lparr>tcb_blocked_on := m\<rparr>" using e k B(8) o [folded t_def] by (simp add: astate_simps)
  from a_block_tcb [OF e, of "MutexQ m" OS_WAIT_FOREVER True] obtain f where
    t3: "a_tcb ?a3 t = Some ((set_blocked (Some (MutexQ m)) e)\<lparr>tcb_wake_tick := f\<rparr>)" using B(8) by auto
  show "map_option tcb_owned_mutexes (a_tcb a' t) = Some m" "map_option tcb_state (a_tcb a' t) = Some OS_TASK_BLOCKED"
    using t3 by (simp_all add: a' a_add_owned_simps astate_simps set_blocked_def)
  show "map_option mtx_next_mutex (mutex_at (kern a') m) = map_option tcb_owned_mutexes (a_tcb a t)"
    using t3 k B(4) by (simp add: a' a_add_owned_def e' astate_simps kstate_simps set_blocked_def)
qed

lemma a_lock_free_effect:
  assumes m: "mutex_at (kern a) m = Some x" and c: "current_runnable a"
  defines "t \<equiv> g_current (kern a)"
  defines "a' \<equiv> a_add_owned t m (a_kern (map_mutex m (\<lambda>x. x\<lparr>mtx_owner := t\<rparr>)) a)"
  shows "waitq a' = waitq a" and "a_prio a' = a_prio a" and "g_next (kern a') = g_next (kern a)"
    and "map_option mtx_owner (mutex_at (kern a') m) = Some t"
    and "map_option tcb_owned_mutexes (a_tcb a' t) = Some m"
    and "map_option mtx_next_mutex (mutex_at (kern a') m) = map_option tcb_owned_mutexes (a_tcb a t)"
proof -
  from c obtain k where k: "a_tcb a t = Some k" by (auto simp: current_runnable_def t_def)
  show "waitq a' = waitq a" "g_next (kern a') = g_next (kern a)"
    by (simp_all add: a'_def a_add_owned_simps astate_simps kstate_simps)
  show "a_prio a' = a_prio a"
    by (simp add: a'_def a_add_owned_prio) (simp add: task_prio_def astate_simps kstate_simps fun_eq_iff)
  show "map_option mtx_owner (mutex_at (kern a') m) = Some t"
    using m by (simp add: a'_def a_add_owned_simps astate_simps kstate_simps)
  show "map_option tcb_owned_mutexes (a_tcb a' t) = Some m"
    using k by (simp add: a'_def a_add_owned_simps astate_simps kstate_simps)
  show "map_option mtx_next_mutex (mutex_at (kern a') m) = map_option tcb_owned_mutexes (a_tcb a t)"
    using k m by (simp add: a'_def a_add_owned_def astate_simps kstate_simps)
qed

lemma a_prio_masked: "a_prio (masked a) = a_prio a" "a_prio (unmasked k a) = a_prio a"
  by (simp_all add: task_prio_def astate_simps fun_eq_iff)

lemma kernel_rel_fields:
  assumes "kernel_rel s a"
  shows "map_option mtx_owner (mutex_at s m) = map_option mtx_owner (mutex_at (kern a) m)"
    and "map_option mtx_next_mutex (mutex_at s m) = map_option mtx_next_mutex (mutex_at (kern a) m)"
    and "map_option tcb_owned_mutexes (tcb_at s t) = map_option tcb_owned_mutexes (a_tcb a t)"
    and "map_option tcb_base_priority (tcb_at s t) = map_option tcb_base_priority (a_tcb a t)"
    and "map_option tcb_state (tcb_at s t) = map_option tcb_state (a_tcb a t)"
  using assms by (simp_all add: kernel_rel_def mutex_at_core tcb_at_core option.map_comp o_def)

text \<open>A task that is blocked in the queue of a mutex.\<close>

definition waits_for_mutex :: "kstate \<Rightarrow> addr \<Rightarrow> bool" where
  "waits_for_mutex s t \<longleftrightarrow> (\<exists>c m. tcb_at s t = Some c \<and> tcb_state c = OS_TASK_BLOCKED \<and> tcb_wait_queue c = Some (MutexQ m))"

text \<open>
  C3: Locking a mutex that exists always returns, keeps the kernel's invariant and leaves the interrupt
  mask as it was. A free mutex gets the caller as its owner and becomes the first of the caller's owned
  mutexes, and no queue or priority changes; locking one's own mutex is refused with -1 and changes no
  queue, priority or owner. A mutex another task owns keeps its owner; the caller is blocked and joins the waiters behind
  all waiters that are at least as urgent, the mutex becomes the first of the caller's list of owned mutexes, a switch to
  another task is pending, and the owner's priority becomes the more urgent of its own and the caller's. When the owner does
  not itself wait for a mutex, no other task's priority changes.
\<close>

theorem mutex_lock_correct:
  assumes "kernel_rel s a" and "kernel_inv a" and "current_runnable a" and "mutex_at s m = Some x"
  shows "\<exists>r s' a'. os_kernel_mutex_lock m s = Some (r, s') \<and> kernel_rel s' a' \<and> kernel_inv a' \<and>
    primask s' = primask s \<and>
    (if mtx_owner x = NULL then
       r = 0 \<and> map_option mtx_owner (mutex_at s' m) = Some (g_current s) \<and>
       map_option tcb_owned_mutexes (tcb_at s' (g_current s)) = Some m \<and>
       map_option mtx_next_mutex (mutex_at s' m) = map_option tcb_owned_mutexes (tcb_at s (g_current s)) \<and>
       waitq a' = waitq a \<and> task_prio s' = task_prio s
     else if mtx_owner x = g_current s then
       r = -1 \<and> waitq a' = waitq a \<and> task_prio s' = task_prio s \<and>
       map_option mtx_owner (mutex_at s' m) = Some (mtx_owner x)
     else
       r = 0 \<and> map_option mtx_owner (mutex_at s' m) = Some (mtx_owner x) \<and>
       waitq a' (MutexQ m) = insert_prio (task_prio s) (g_current s) (waitq a (MutexQ m)) \<and>
       map_option tcb_state (tcb_at s' (g_current s)) = Some OS_TASK_BLOCKED \<and>
       map_option tcb_owned_mutexes (tcb_at s' (g_current s)) = Some m \<and>
       map_option mtx_next_mutex (mutex_at s' m) = map_option tcb_owned_mutexes (tcb_at s (g_current s)) \<and>
       task_prio s' (mtx_owner x) = min (task_prio s (g_current s)) (task_prio s (mtx_owner x)) \<and>
       (\<not> waits_for_mutex s (mtx_owner x) \<longrightarrow> (\<forall>u. u \<noteq> mtx_owner x \<longrightarrow> task_prio s' u = task_prio s u)) \<and>
       g_next s' \<noteq> g_current s \<and> pendsv s')"
proof -
  let ?b = "masked a" and ?t = "g_current (kern a)"
  have nn: "m \<noteq> NULL" using assms(4) by auto
  from kernel_rel_mutex(2) [OF assms(1,4)] have y: "mutex_at (kern a) m = Some (x\<lparr>mtx_waiters := emptyq\<rparr>)" .
  from mutex_lock.call_returns [of m, OF nn assms(1-3)] y obtain r s' where
    s': "os_kernel_mutex_lock m s = Some (r, s')" "primask s' = primask s"
    "kernel_rel s' (unmasked (primask s) (snd (a_lock m ?b)))" "kernel_inv (snd (a_lock m ?b))"
    "r = fst (a_lock m ?b)" by (auto simp: prod_eq_iff)
  have b: "kernel_inv ?b" "current_runnable ?b" "mutex_at (kern ?b) m = Some (x\<lparr>mtx_waiters := emptyq\<rparr>)"
    "g_current (kern ?b) = ?t" using assms y by (simp_all add: astate_simps)
  have pr: "task_prio s = a_prio a" "task_prio s' = a_prio (snd (a_lock m ?b))"
    using kernel_rel_task_prio [OF assms(1)] kernel_rel_task_prio [OF s'(3)] by (simp_all add: a_prio_masked)
  have g: "g_current s = ?t" "g_next s' = g_next (kern (snd (a_lock m ?b)))" "pendsv s' = pendsv (kern (snd (a_lock m ?b)))"
    using kernel_rel_globals [OF assms(1)] kernel_rel_globals [OF s'(3)] by (simp_all add: astate_simps)
  note own = kernel_rel_fields(1-3,5) [OF s'(3), unfolded unmasked_simps] kernel_rel_fields(3) [OF assms(1)]
  let ?y = "x\<lparr>mtx_waiters := emptyq\<rparr>"
  have case_free: ?thesis if o: "mtx_owner x = NULL"
  proof -
    have l: "a_lock m ?b = (0, a_add_owned (g_current (kern ?b)) m
        (a_kern (map_mutex m (\<lambda>x. x\<lparr>mtx_owner := g_current (kern ?b)\<rparr>)) ?b))"
      using o b(3) by (simp add: a_lock_def)
    note eff = a_lock_free_effect [OF b(3,2)]
    show ?thesis
      using s' o eff by (intro exI [of _ r] exI [of _ s'] exI [of _ "unmasked (primask s) (snd (a_lock m ?b))"])
        (simp add: own pr g l b(4) astate_simps a_prio_masked del: map_option_eq_Some)
  qed
  have case_own: ?thesis if o: "mtx_owner x \<noteq> NULL" "mtx_owner x = ?t"
  proof -
    have l: "a_lock m ?b = (-1, ?b)" using o b(3,4) by (simp add: a_lock_def)
    show ?thesis
      using s' o b by (intro exI [of _ r] exI [of _ s'] exI [of _ "unmasked (primask s) (snd (a_lock m ?b))"])
        (simp add: own pr g l astate_simps a_prio_masked del: map_option_eq_Some)
  qed
  have case_wait: ?thesis if o: "mtx_owner x \<noteq> NULL" "mtx_owner x \<noteq> ?t"
  proof -
    have l: "a_lock m ?b = (0, a_lock_wait m (mtx_owner x) ?b)" using o b(3,4) by (simp add: a_lock_def)
    have o': "mtx_owner ?y \<noteq> NULL" "mtx_owner ?y \<noteq> g_current (kern ?b)" using o b(4) by simp_all
    note eff = a_lock_wait_effect [OF b(1-3) o']
    show ?thesis
      using s' o eff by (intro exI [of _ r] exI [of _ s'] exI [of _ "unmasked (primask s) (snd (a_lock m ?b))"])
        (simp add: own pr g l b(4) astate_simps a_prio_masked del: map_option_eq_Some)
  qed
  show ?thesis using case_free case_own case_wait by blast
qed

theorem mutex_lock_correct_witness:
  "\<exists>r s' a'. os_kernel_mutex_lock 0x1100 sample = Some (r, s') \<and> kernel_rel s' a' \<and> kernel_inv a' \<and>
    primask s' = 0 \<and> r = 0 \<and> map_option mtx_owner (mutex_at s' 0x1100) = Some 0x200 \<and>
    map_option tcb_owned_mutexes (tcb_at s' 0x200) = Some 0x1100 \<and>
    map_option mtx_next_mutex (mutex_at s' 0x1100) = Some 0x1000 \<and>
    waitq a' = waitq sample_a \<and> task_prio s' = task_prio sample"
  using mutex_lock_correct [OF sample_rel sample_inv sample_runnable, of "0x1100"]
  by (simp add: sample_mutex sample_tcb sample_low_def del: map_option_eq_Some)

subsection \<open>Unlocking\<close>

lemma inherited_Min:
  assumes "mutex_queues_sorted a"
  shows "inherited a ms r = Min (insert r (a_prio a ` (\<Union>m\<in>set ms. set (waitq a (MutexQ m)))))"
  using inherited_le [of a ms r] inherited_le_waiter [OF assms, of _ ms] inherited_attained [of a ms r]
  by (intro Min_eqI [symmetric]) auto

lemma a_hand_over_effect:
  assumes I: "kernel_inv a" and m: "mutex_at (kern a) m = Some x"
  shows "map_option mtx_owner (mutex_at (kern (a_hand_over m a)) m) = Some (first_or (waitq a (MutexQ m)) NULL)"
    and "waitq (a_hand_over m a) (MutexQ m) = tl (waitq a (MutexQ m))"
    and "a_prio (a_hand_over m a) = a_prio a"
    and "waitq a (MutexQ m) = t # ts \<Longrightarrow> waitq (a_hand_over m a) (ReadyQ (a_prio a t)) = waitq a (ReadyQ (a_prio a t)) @ [t] \<and>
      g_next (kern (a_hand_over m a)) = first_or (ready_order (a_hand_over m a)) NULL"
proof -
  note D = kernel_invD [OF I]
  have q: "waitable (MutexQ m)" "MutexQ m \<noteq> SleepQ" by (simp_all add: waitable_def)
  show "map_option mtx_owner (mutex_at (kern (a_hand_over m a)) m) = Some (first_or (waitq a (MutexQ m)) NULL)"
    using m by (simp add: a_hand_over_def astate_simps kstate_simps split: list.split)
  have wake: "waitq (a_hand_over m a) (MutexQ m) = ts' \<and> a_prio (a_hand_over m a) = a_prio a \<and>
      waitq (a_hand_over m a) (ReadyQ (a_prio a t')) = waitq a (ReadyQ (a_prio a t')) @ [t'] \<and>
      g_next (kern (a_hand_over m a)) = first_or (ready_order (a_hand_over m a)) NULL"
    if w: "waitq a (MutexQ m) = t' # ts'" for t' ts'
  proof -
    from wake_one_pre [OF D(2) q w] obtain c where c: "a_tcb a t' = Some c" by blast
    note wc = a_wake_one_Cons [OF D(2) q w c]
    have "a_prio (snd (a_wake_one (MutexQ m) a)) = a_prio a"
      using c by (auto simp: task_prio_def wc set_woken_def fun_eq_iff)
    moreover have "a_prio (a_kern (map_mutex m (\<lambda>x. x\<lparr>mtx_owner := t'\<rparr>)) b) = a_prio b" for b
      by (simp add: task_prio_def astate_simps kstate_simps fun_eq_iff)
    moreover have "a_prio (a_schedule_and_pend b) = a_prio b" for b
      by (simp add: task_prio_def astate_simps fun_eq_iff)
    ultimately show ?thesis
      using w c by (simp add: a_hand_over_def astate_simps wc(3) a_prio_tcb)
  qed
  show "waitq (a_hand_over m a) (MutexQ m) = tl (waitq a (MutexQ m))"
    using wake by (cases "waitq a (MutexQ m)") (auto simp: a_hand_over_def astate_simps)
  show "a_prio (a_hand_over m a) = a_prio a"
    using wake by (cases "waitq a (MutexQ m)")
      (auto simp: a_hand_over_def task_prio_def astate_simps kstate_simps fun_eq_iff)
  show "waitq (a_hand_over m a) (ReadyQ (a_prio a t)) = waitq a (ReadyQ (a_prio a t)) @ [t] \<and>
      g_next (kern (a_hand_over m a)) = first_or (ready_order (a_hand_over m a)) NULL"
    if "waitq a (MutexQ m) = t # ts" using wake [OF that] by blast
qed

text \<open>
  Only the owner can unlock: a call by any other task returns -1 and leaves the whole kernel state as
  it was.
\<close>

theorem mutex_unlock_only_owner:
  assumes "mutex_at s m = Some x" and "mtx_owner x \<noteq> g_current s"
  shows "os_kernel_mutex_unlock m s = Some (-1, s)"
proof -
  have "m \<noteq> NULL" using assms by auto
  with assms show ?thesis
    by (simp add: os_kernel_mutex_unlock_def os_port_irq_save_def os_port_irq_restore_def kstate_simps)
qed

theorem mutex_unlock_only_owner_witness: "os_kernel_mutex_unlock 0x1100 sample = Some (-1, sample)"
  by (rule mutex_unlock_only_owner [of sample "0x1100" "\<lparr>mtx_owner = NULL, mtx_next_mutex = NULL, mtx_waiters = emptyq\<rparr>"])
    (simp_all add: sample_mutex)

text \<open>The state in which the list of the caller has been relinked and its priority has been set.\<close>

lemma relinked_set_priority:
  assumes b: "kernel_inv b" "current_runnable b" "g_current (kern b) = t" "a_tcb b t = Some k" "mutex_at (kern b) m = Some y"
    and c: "relinked b c" and p: "p < NUM_PRIORITIES"
  shows "kernel_inv (a_set_priority t p c)" "\<exists>z. mutex_at (kern (a_set_priority t p c)) m = Some z"
    and "waitq (a_set_priority t p c) (MutexQ m) = waitq b (MutexQ m)" "a_prio (a_set_priority t p c) = (a_prio b)(t := p)"
proof -
  note same = relinked_same [OF c]
  have Ic: "kernel_inv c" by (rule relinked_kernel_inv [OF c b(1)])
  note L = kernel_invD(2) [OF Ic]
  have vt: "valid_task c t" using b(4) by (simp add: same(5)) (simp add: valid_task_def)
  then obtain d where d: "a_tcb c t = Some d" by (auto simp: valid_task_def)
  show "kernel_inv (a_set_priority t p c)" by (rule kernel_inv_set_priority [OF Ic vt])
  show "\<exists>z. mutex_at (kern (a_set_priority t p c)) m = Some z" using b(5) relinked_mutex [OF c, of m] by (auto simp: astate_simps)
  have "t \<notin> set (waitq c (MutexQ m))"
    using b(2-4) lists_inv_home [OF kernel_invD(2) [OF b(1)], of t "MutexQ m"] by (auto simp: same current_runnable_def home_def)
  then show "waitq (a_set_priority t p c) (MutexQ m) = waitq b (MutexQ m)"
    using a_set_priority_waitq_other [OF L vt, of "MutexQ m"] by (simp add: same waitable_def)
  show "a_prio (a_set_priority t p c) = (a_prio b)(t := p)"
    using a_set_priority_tcb [OF L d, of p] p same(4) by (auto simp: task_prio_def fun_eq_iff)
qed

text \<open>
  C4: Unlocking by the owner, when the list of mutexes it owns ends, returns 0, keeps the kernel's
  invariant and leaves the interrupt mask as it was. The first waiter, which is one of the most urgent,
  becomes the owner and leaves the waiters; without waiters nobody owns the mutex. The priority of the
  caller becomes the most urgent among its base priority and those of all waiters of the mutexes it still
  owns: priority inheritance ends with the mutex it was inherited through.
\<close>

theorem mutex_unlock_correct:
  assumes "kernel_rel s a" and "kernel_inv a" and "current_runnable a" and "mutex_at s m = Some x"
    and "mtx_owner x = g_current s" and "tcb_at s (g_current s) = Some k"
    and "owned_chain s (tcb_owned_mutexes k) ms NULL"
  shows "\<exists>s' a'. os_kernel_mutex_unlock m s = Some (0, s') \<and> kernel_rel s' a' \<and> kernel_inv a' \<and>
    primask s' = primask s \<and>
    map_option mtx_owner (mutex_at s' m) = Some (first_or (waitq a (MutexQ m)) NULL) \<and>
    waitq a' (MutexQ m) = tl (waitq a (MutexQ m)) \<and>
    (\<forall>w\<in>set (waitq a (MutexQ m)). task_prio s (first_or (waitq a (MutexQ m)) NULL) \<le> task_prio s w) \<and>
    task_prio s' = (task_prio s)(g_current s :=
      Min (insert (tcb_base_priority k)
        (task_prio s ` (\<Union>n\<in>set (remove1 m ms). set (waitq a (MutexQ n))))))"
proof -
  let ?b = "masked a" and ?t = "g_current (kern a)" and ?y = "x\<lparr>mtx_waiters := emptyq\<rparr>"
  have nn: "m \<noteq> NULL" using assms(4) by auto
  have g: "g_current s = ?t" using kernel_rel_globals [OF assms(1)] by simp
  have b: "kernel_inv ?b" "current_runnable ?b" "mutex_at (kern ?b) m = Some ?y" "g_current (kern ?b) = ?t"
    "mtx_owner ?y = g_current (kern ?b)" "a_tcb ?b ?t = Some (blank_tcb k)"
    using assms kernel_rel_mutex(2) [OF assms(1,4)] kernel_rel_tcb [OF assms(1), of ?t k] g by (simp_all add: astate_simps)
  have "owned_chain (kern ?b) = owned_chain s"
    using assms(1) by (intro ext owned_chain_cong) (simp add: astate_simps kernel_rel_def mutex_at_core option.map_comp o_def)
  then have o: "owns ?b (g_current (kern ?b)) ms" using b assms(7) by (simp add: owns_def)
  let ?p = "inherited ?b (remove1 m ms) (tcb_base_priority k)"
  from unlock_body_returns [OF kernel_rel_masked [OF assms(1)] b(1,2,3) o b(5)] b obtain s1 c where
    s1: "unlock_body m (s\<lparr>primask := 1\<rparr>) = Some (0, s1)" and c: "relinked ?b c"
    and R1: "kernel_rel s1 (a_hand_over m (a_set_priority ?t ?p c))"
    and I1: "kernel_inv (a_hand_over m (a_set_priority ?t ?p c))" by auto
  let ?e = "a_set_priority ?t ?p c"
  have "?p < NUM_PRIORITIES"
    using inherited_le [of ?b "remove1 m ms" "tcb_base_priority k"] lists_inv_tcb [OF kernel_invD(2) [OF b(1)] b(6)]
    by (simp add: tcb_ok_def)
  note E = relinked_set_priority [OF b(1,2,4,6,3) c this]
  from E(2) obtain z where "mutex_at (kern ?e) m = Some z" ..
  note eff = a_hand_over_effect [OF E(1) this]
  have sorted: "mutex_queues_sorted ?b" using kernel_invD(2) [OF b(1)] by (simp add: lists_inv_def)
  have pa: "task_prio s = a_prio a" using kernel_rel_task_prio [OF assms(1)] .
  have first: "a_prio a (first_or (waitq a (MutexQ m)) NULL) \<le> a_prio a w" if "w \<in> set (waitq a (MutexQ m))" for w
    using that kernel_invD(2) [OF assms(2)]
    by (cases "waitq a (MutexQ m)") (auto simp: lists_inv_def mutex_queues_sorted_def dest: spec [of _ m])
  let ?s = "os_port_irq_restore (primask s) s1" and ?a = "unmasked (primask s) (a_hand_over m ?e)"
  have call: "os_kernel_mutex_unlock m s = Some (0, ?s)"
    using s1 by (simp add: mutex_unlock.call_body [OF nn])
  have pm: "primask ?s = primask s" by (simp add: os_port_irq_restore_def)
  have R: "kernel_rel ?s ?a" by (rule kernel_rel_unmasked [OF R1])
  note fields = kernel_rel_fields(1) [OF R, of m] kernel_rel_task_prio [OF R]
  have pmin: "Min (insert (tcb_base_priority k) (a_prio a ` (\<Union>n\<in>set (remove1 m ms). set (waitq a (MutexQ n))))) = ?p"
    using inherited_Min [OF sorted, of "remove1 m ms" "tcb_base_priority k"] by (simp add: a_prio_masked astate_simps)
  show ?thesis
    by (intro exI [of _ ?s] exI [of _ ?a])
      (use call R I1 eff(1-3) first pm in \<open>simp add: fields a_prio_masked astate_simps E(3,4) g pa pmin
        del: map_option_eq_Some\<close>)
qed

theorem mutex_unlock_correct_witness:
  "\<exists>s' a'. os_kernel_mutex_unlock 0x1000 sample = Some (0, s') \<and> kernel_rel s' a' \<and> kernel_inv a' \<and>
    primask s' = 0 \<and> map_option mtx_owner (mutex_at s' 0x1000) = Some 0x500 \<and> waitq a' (MutexQ 0x1000) = [] \<and>
    task_prio s' = task_prio sample"
proof -
  have "task_prio sample = (task_prio sample)(0x200 := 2)"
    by (auto simp: fun_eq_iff task_prio_def sample_tcb sample_low_def task0_def)
  with mutex_unlock_correct [OF sample_rel sample_inv sample_runnable, of "0x1000" _ sample_low "[0x1000]"]
  show ?thesis
    by (simp add: sample_mutex sample_tcb sample_low_def task0_def sample_queue_def del: map_option_eq_Some)
qed

subsection \<open>Initialisation\<close>

text \<open>On a mutex nobody waits for, the reset of the wait queue changes nothing.\<close>

lemma mutex_init_refines:
  assumes R: "kernel_rel s a" and I: "kernel_inv a" and x: "mutex_at s m = Some x" and w: "waitq a (MutexQ m) = []"
  shows "\<exists>s'. os_mutex_init m s = Some (0, s') \<and> kernel_rel s' (a_kern (map_mutex m (\<lambda>x. x\<lparr>mtx_owner := NULL\<rparr>)) a)"
    and "kernel_inv (a_kern (map_mutex m (\<lambda>x. x\<lparr>mtx_owner := NULL\<rparr>)) a)"
proof -
  let ?f = "\<lambda>x. x\<lparr>mtx_owner := NULL, mtx_waiters := \<lparr>q_head = NULL, q_tail = NULL\<rparr>\<rparr>" and ?g = "\<lambda>x. x\<lparr>mtx_owner := NULL\<rparr>"
  have nn: "m \<noteq> NULL" using x by auto
  have "mtx_waiters x = \<lparr>q_head = NULL, q_tail = NULL\<rparr>"
    using kernel_rel_queue [OF R, of "MutexQ m" "mtx_waiters x"] x w
    by (cases "mtx_waiters x") (simp add: get_queue.simps dlist_def emptyq_def)
  then have "?f x = ?g x" by (cases x) simp
  then have "map_mutex m ?f s = map_mutex m ?g s" using x nn by (auto simp: map_mutex_def mutex_at_def)
  with x nn kernel_rel_map_mutex [OF R, of ?g m]
  show "\<exists>s'. os_mutex_init m s = Some (0, s') \<and> kernel_rel s' (a_kern (map_mutex m ?g) a)"
    by (simp add: os_mutex_init_def upd_mutex_map queue_free_def)
  from x R obtain y where y: "mutex_at (kern a) m = Some y" by (auto simp: kernel_rel_def mutex_at_core)
  have "objects_inv (a_kern (map_mutex m ?g) a)"
    by (rule objects_inv_map_mutex [OF kernel_invD(7) [OF I] y]) (simp add: w)
  then show "kernel_inv (a_kern (map_mutex m ?g) a)"
    using kernel_invD(6) [OF I] by (simp add: kernel_inv_def no_blocked_on_def astate_simps kstate_simps)
qed

end
