(* ===== verification/Tick.thy ===== *)
theory Tick
  imports Critical_Section
begin

text \<open>
  \<open>kernel/tick.c\<close> and \<open>os_kernel_yield\<close> of \<open>kernel/task.c\<close>: the tick interrupt, sleeping for a number of
  ticks and giving up the processor. The tick counter wraps; the theorems about wake-up times cover
  delays below \<open>2 ^ 31\<close> ticks, which is what the signed comparison of \<open>os_tick_reached\<close> can tell apart.
\<close>

subsection \<open>Model\<close>

definition os_ticks_from_ms :: "u32 \<Rightarrow> u32" where
  "os_ticks_from_ms ms = ms"

definition os_kernel_yield :: "kstate \<Rightarrow> kstate option" where
  "os_kernel_yield s = do {
     s \<leftarrow> os_ready_queue_rotate (g_current s) s;
     s \<leftarrow> os_schedule s;
     Some (os_port_pendsv_trigger s)
   }"

definition os_kernel_delay_ticks :: "u32 \<Rightarrow> kstate \<Rightarrow> kstate option" where
  "os_kernel_delay_ticks ticks s =
     (if ticks = 0 then os_kernel_yield s
      else do {
        let (key, s) = os_port_irq_save s;
        s \<leftarrow> os_task_block_locked (Some SleepQ) ticks False s;
        Some (os_port_irq_restore key s)
      })"

definition SysTick_Handler :: "kstate \<Rightarrow> kstate option" where
  "SysTick_Handler s = do {
     let s = s\<lparr>g_tick := g_tick s + 1\<rparr>;
     s \<leftarrow> os_process_timeouts s;
     s \<leftarrow> (if g_current s \<noteq> NULL then os_ready_queue_rotate (g_current s) s else Some s);
     s \<leftarrow> os_schedule s;
     Some (if g_current s \<noteq> g_next s then os_port_pendsv_trigger s else s)
   }"

subsection \<open>Round robin keeps the kernel's invariant\<close>

lemma a_rotate_waitq: "waitable q \<Longrightarrow> waitq (a_rotate t a) q = waitq a q"
  by (simp add: a_rotate_def Let_def astate_simps waitable_def)

lemma kernel_inv_rotate:
  assumes I: "kernel_inv a"
  shows "kernel_inv (a_rotate t a)"
proof -
  note D = kernel_invD [OF I]
  have "valid_task (a_rotate t a) = valid_task a" by (simp add: valid_task_def astate_simps fun_eq_iff)
  with D a_rotate_inv [OF D(2)] show ?thesis
    by (simp add: kernel_inv_def objects_inv_def sched_inv_def next_ok_def sems_ok_def mutexes_ok_def
        no_blocked_on_def a_rotate_waitq waitable_def astate_simps)
qed

lemma kernel_inv_a_schedule: "kernel_inv a \<Longrightarrow> kernel_inv (a_schedule a) \<and> kernel_inv (a_schedule_and_pend a)"
  using kernel_invD [of a] by (simp add: kernel_inv_schedule)

lemma kernel_rel_current_valid:
  "kernel_inv a \<Longrightarrow> g_current (kern a) \<noteq> NULL \<Longrightarrow> valid_task a (g_current (kern a))"
  using kernel_invD(2) [of a] by (auto simp: lists_inv_def current_ok_def)

definition a_yield :: "astate \<Rightarrow> astate" where
  "a_yield a = a_kern (pendsv_update (\<lambda>_. True)) (a_schedule (a_rotate (g_current (kern a)) a))"

lemma os_kernel_yield_refines:
  assumes R: "kernel_rel s a" and I: "kernel_inv a"
  shows "\<exists>s'. os_kernel_yield s = Some s' \<and> kernel_rel s' (a_yield a)"
proof -
  have g: "g_current s = g_current (kern a)" using kernel_rel_globals [OF R] by simp
  show ?thesis
    unfolding os_kernel_yield_def a_yield_def g os_port_pendsv_trigger_def
    by (rule ex_bind, rule rotate_refines [OF R kernel_invD(2) [OF I] kernel_rel_current_valid [OF I]], assumption,
        rule ex_bind, erule os_schedule_refines) (auto intro: kernel_rel_pendsv)
qed

lemma a_yield_inv: "kernel_inv a \<Longrightarrow> kernel_inv (a_yield a)"
  by (simp add: a_yield_def kernel_inv_a_schedule kernel_inv_rotate)

subsection \<open>Sleeping\<close>

definition delay_body :: "u32 \<Rightarrow> kstate \<Rightarrow> (int \<times> kstate) option" where
  "delay_body n s = map_option (Pair 0) (os_task_block_locked (Some SleepQ) n False s)"

definition delay_call :: "u32 \<Rightarrow> kstate \<Rightarrow> (int \<times> kstate) option" where
  "delay_call n s = map_option (Pair 0) (os_kernel_delay_ticks n s)"

lemma delay_block_pre:
  assumes "current_runnable a"
  shows "block_pre SleepQ n False a"
  using assms by (auto simp: current_runnable_def block_pre_def waitable_def)

interpretation delay: critical_service "\<lambda>n. n \<noteq> 0" delay_call delay_body
  "\<lambda>n a r a'. r = 0 \<and> a' = a_block SleepQ n False a" "\<lambda>n a. True"
proof (unfold_locales, goal_cases)
  case (1 n s)
  then show ?case
    by (cases "os_task_block_locked (Some SleepQ) n False (s\<lparr>primask := 1\<rparr>)")
      (simp_all add: delay_call_def delay_body_def os_kernel_delay_ticks_def os_port_irq_save_def)
next
  case (2 n s a r s')
  with block_pre_refines [of s a SleepQ n False] delay_block_pre [of a n] kernel_invD(2) [of a]
    kernel_inv_block [of a SleepQ n False]
  show ?case by (auto simp: delay_body_def may_block_def)
next
  case (3 n s a)
  with block_pre_refines [of s a SleepQ n False] delay_block_pre [of a n] kernel_invD(2) [of a]
  show ?case by (auto simp: delay_body_def)
qed simp

subsection \<open>The tick\<close>

definition a_tick :: "astate \<Rightarrow> astate" where
  "a_tick a =
     (let b = a_process_timeouts (a_kern (g_tick_update (\<lambda>_. g_tick (kern a) + 1)) a) in
      a_schedule_and_pend (if g_current (kern b) \<noteq> NULL then a_rotate (g_current (kern b)) b else b))"

lemma a_expire_globals:
  assumes "waits_in_queue a t"
  shows "g_next (kern (a_expire t a)) = g_next (kern a)"
    and "sem_at (kern (a_expire t a)) = sem_at (kern a)" and "mutex_at (kern (a_expire t a)) = mutex_at (kern a)"
  using assms by (auto simp: waits_in_queue_def a_expire_def a_leave_def a_ready_add_def astate_simps)

lemma kernel_inv_expire:
  assumes I: "kernel_inv a" and t: "t \<in> set (timeoutq a)"
  shows "kernel_inv (a_expire t a)"
proof -
  note D = kernel_invD [OF I]
  note w = lists_inv_waits [OF D(2) t]
  then obtain c where c: "a_tcb a t = Some c" by (auto simp: waits_in_queue_def)
  let ?c = "set_expired (c\<lparr>tcb_wait_queue := None\<rparr>)"
  have tcb: "a_tcb (a_expire t a) = (a_tcb a)(t \<mapsto> ?c)" using a_expire_simps(2) [OF w] c by simp
  have n: "next_ok (a_expire t a)"
    using D(3) by (auto simp: next_ok_def tcb a_expire_globals [OF w] set_expired_def)
  have "objects_inv (a_expire t a)"
    by (rule objects_inv_upd [OF D(7) a_expire_inv [OF D(2) t] n c tcb])
      (simp_all add: home_def set_expired_def a_expire_globals [OF w])
  moreover have "no_blocked_on (a_expire t a)"
    by (rule no_blocked_on_upd [OF D(6) c tcb]) (simp add: set_expired_def)
  ultimately show ?thesis by (simp add: kernel_inv_def)
qed

lemma kernel_inv_expire_all:
  assumes "kernel_inv a" and "timeoutq a = ts"
  shows "kernel_inv (a_expire_all now ts a)"
  using assms
proof (induction ts arbitrary: a)
  case (Cons t ts)
  then have "kernel_inv (a_expire t a)" by (intro kernel_inv_expire) simp_all
  moreover have "timeoutq (a_expire t a) = ts"
    using a_expire_simps(1) [OF lists_inv_waits [OF kernel_invD(2)], of a t] Cons.prems by simp
  ultimately show ?case using Cons by simp
qed simp

lemma a_process_timeouts_kernel_inv: "kernel_inv a \<Longrightarrow> kernel_inv (a_process_timeouts a)"
  by (simp add: a_process_timeouts_def kernel_inv_a_schedule kernel_inv_expire_all)

lemma a_tick_inv: "kernel_inv a \<Longrightarrow> kernel_inv (a_tick a)"
  by (simp add: a_tick_def Let_def kernel_inv_a_schedule kernel_inv_rotate a_process_timeouts_kernel_inv)

lemma SysTick_Handler_refines:
  assumes R: "kernel_rel s a" and I: "kernel_inv a"
  shows "\<exists>s'. SysTick_Handler s = Some s' \<and> kernel_rel s' (a_tick a)"
proof -
  let ?a1 = "a_kern (g_tick_update (\<lambda>_. g_tick (kern a) + 1)) a"
  let ?a2 = "a_process_timeouts ?a1"
  let ?a3 = "if g_current (kern ?a2) \<noteq> NULL then a_rotate (g_current (kern ?a2)) ?a2 else ?a2"
  have t: "g_tick s = g_tick (kern a)" using kernel_rel_globals [OF R] by simp
  have R1: "kernel_rel (s\<lparr>g_tick := g_tick (kern a) + 1\<rparr>) ?a1" by (rule kernel_rel_g_tick [OF R])
  have I1: "kernel_inv ?a1" using I by simp
  from process_timeouts_refines [OF R1 kernel_invD(2) [OF I1]] obtain s2 where
    s2: "os_process_timeouts (s\<lparr>g_tick := g_tick (kern a) + 1\<rparr>) = Some s2" and R2: "kernel_rel s2 ?a2" by blast
  have I2: "kernel_inv ?a2" by (rule a_process_timeouts_kernel_inv [OF I1])
  have g2: "g_current s2 = g_current (kern ?a2)" using kernel_rel_globals [OF R2] by simp
  have "\<exists>s3. (if g_current s2 \<noteq> NULL then os_ready_queue_rotate (g_current s2) s2 else Some s2) = Some s3 \<and>
      kernel_rel s3 ?a3"
    using rotate_refines [OF R2 kernel_invD(2) [OF I2] kernel_rel_current_valid [OF I2]] R2 by (simp add: g2)
  then obtain s3 where
    s3: "(if g_current s2 \<noteq> NULL then os_ready_queue_rotate (g_current s2) s2 else Some s2) = Some s3"
    and R3: "kernel_rel s3 ?a3" by blast
  from schedule_and_pend_refines [OF R3] obtain s4 where
    s4: "schedule_and_pend s3 = Some s4" and R4: "kernel_rel s4 (a_schedule_and_pend ?a3)" by blast
  from s4 obtain s5 where s5: "os_schedule s3 = Some s5"
    "s4 = (if g_current s5 \<noteq> g_next s5 then os_port_pendsv_trigger s5 else s5)"
    by (cases "os_schedule s3") (auto simp: schedule_and_pend_def)
  have "SysTick_Handler s = Some s4"
    unfolding SysTick_Handler_def Let_def t s2 bind.bind_lunit s3 s5 by (simp add: s5)
  with R4 show ?thesis by (simp add: a_tick_def Let_def)
qed

subsection \<open>A context switch keeps the kernel's invariant\<close>

lemma a_commit_simps [astate_simps]:
  "waitq (a_commit a) = waitq a" "timeoutq (a_commit a) = timeoutq a"
  "mutex_at (kern (a_commit a)) = mutex_at (kern a)" "sem_at (kern (a_commit a)) = sem_at (kern a)"
  by (simp_all add: a_commit_def Let_def astate_simps kstate_simps)

lemma valid_task_commit: "valid_task a t \<Longrightarrow> valid_task (a_commit a) t"
  by (auto simp: valid_task_def a_commit_def Let_def astate_simps kstate_simps)

lemma kernel_inv_commit:
  assumes "kernel_inv a"
  shows "kernel_inv (a_commit a)"
proof -
  note D = kernel_invD [OF assms]
  have "sems_ok (a_commit a)" using D(4) by (simp add: sems_ok_def astate_simps)
  moreover have "mutexes_ok (a_commit a)" using D(5) valid_task_commit [of a] by (auto simp: mutexes_ok_def astate_simps)
  moreover have "no_blocked_on (a_commit a)"
    using D(6) by (auto simp: no_blocked_on_def a_commit_def Let_def astate_simps kstate_simps split: if_splits)
  ultimately show ?thesis
    using a_commit_inv [OF D(1)] by (simp add: kernel_inv_def objects_inv_def)
qed

end
