(* ===== verification/Timing.thy ===== *)
theory Timing
  imports Tick
begin

text \<open>
  When sleeping tasks wake up. \<open>timely a\<close> says that the timeout queue is sorted by the time that is left
  and that every deadline is in the future and less than \<open>2 ^ 31\<close> ticks away. Sleeping for fewer than
  \<open>2 ^ 31\<close> ticks keeps it, and so does a tick, which wakes exactly the tasks whose deadline it reaches.
\<close>

abbreviation ticks_left :: "astate \<Rightarrow> addr \<Rightarrow> nat" where
  "ticks_left a t \<equiv> ticks_until (g_tick (kern a)) (a_wake a t)"

definition timely :: "astate \<Rightarrow> bool" where
  "timely a \<longleftrightarrow> (\<forall>t\<in>set (timeoutq a). 0 < ticks_left a t \<and> ticks_left a t < 2 ^ 31) \<and>
     sorted (map (ticks_left a) (timeoutq a))"

lemma insert_wake_sorted:
  assumes b: "\<And>x. x \<in> insert t (set xs) \<Longrightarrow> ticks_until now (f x) < 2 ^ 31"
    and s: "sorted (map (\<lambda>x. ticks_until now (f x)) xs)"
  shows "sorted (map (\<lambda>x. ticks_until now (f x)) (insert_wake f t xs))"
proof -
  let ?u = "\<lambda>x. ticks_until now (f x)"
  have eq: "\<not> os_tick_reached (f x) (f t) \<longleftrightarrow> ?u x < ?u t" if "x \<in> set xs" for x
    using os_tick_reached_iff [of now "f x" "f t"] b that by auto
  let ?ys = "takeWhile (\<lambda>x. ?u x < ?u t) xs" and ?zs = "dropWhile (\<lambda>x. ?u x < ?u t) xs"
  have i: "insert_wake f t xs = ?ys @ t # ?zs"
    unfolding insert_wake_def using eq by (simp cong: takeWhile_cong dropWhile_cong)
  have ge: "?u t \<le> ?u z" if "z \<in> set ?zs" for z
  proof -
    from that obtain h hs where h: "?zs = h # hs" by (cases ?zs) auto
    then have "\<not> ?u h < ?u t" using hd_dropWhile [of "\<lambda>x. ?u x < ?u t" xs] by simp
    moreover have "sorted (map ?u ?zs)"
      using s sorted_append [of "map ?u ?ys" "map ?u ?zs"] by (metis map_append takeWhile_dropWhile_id)
    ultimately show ?thesis using that h by auto
  qed
  have lt: "?u y < ?u t" if "y \<in> set ?ys" for y using set_takeWhileD [OF that] by simp
  have "?u y \<le> ?u z" if "y \<in> set ?ys" "z \<in> set ?zs" for y z
    using ge [OF that(2)] lt [OF that(1)] by simp
  moreover have "sorted (map ?u ?ys)" "sorted (map ?u ?zs)"
    using s sorted_append [of "map ?u ?ys" "map ?u ?zs"] by (metis map_append takeWhile_dropWhile_id)+
  ultimately show ?thesis using ge lt by (auto simp: i sorted_append intro: less_imp_le)
qed

lemma a_block_timeoutq:
  assumes "n \<noteq> OS_WAIT_FOREVER" and "a_tcb a (g_current (kern a)) = Some c"
  shows "timeoutq (a_block q n po a) =
      insert_wake ((a_wake a)(g_current (kern a) := g_tick (kern a) + n)) (g_current (kern a)) (timeoutq a)"
    and "a_wake (a_block q n po a) = (a_wake a)(g_current (kern a) := g_tick (kern a) + n)"
proof -
  let ?t = "g_current (kern a)"
  let ?b = "a_join q po ?t (a_upd ?t (set_blocked (Some q)) (a_ready_remove ?t a))"
  have w: "a_wake (a_upd ?t (\<lambda>c. c\<lparr>tcb_wake_tick := g_tick (kern ?b) + n\<rparr>) ?b) = (a_wake a)(?t := g_tick (kern a) + n)"
    using assms by (auto simp: task_wake_def astate_simps a_ready_remove_def set_blocked_def fun_eq_iff)
  then show "timeoutq (a_block q n po a) =
      insert_wake ((a_wake a)(?t := g_tick (kern a) + n)) ?t (timeoutq a)"
    using assms by (simp add: a_block_def Let_def a_arm_def astate_simps a_ready_remove_def)
  from a_block_tcb [OF assms(2), of q n po] show "a_wake (a_block q n po a) = (a_wake a)(?t := g_tick (kern a) + n)"
    using w assms by (simp add: a_block_def Let_def a_arm_def task_wake_def astate_simps fun_eq_iff)
qed

lemma timely_delay:
  assumes T: "timely a" and I: "lists_inv a" and c: "current_runnable a" and n: "0 < n" "unat n < 2 ^ 31"
  shows "timely (a_block SleepQ n False a)"
proof -
  let ?t = "g_current (kern a)" and ?now = "g_tick (kern a)"
  let ?f = "(a_wake a)(?t := ?now + n)"
  from c obtain k where k: "a_tcb a ?t = Some k" "tcb_state k \<noteq> OS_TASK_BLOCKED" by (auto simp: current_runnable_def)
  have out: "?t \<notin> set (timeoutq a)" by (rule not_sleeping [OF I k])
  have nf: "n \<noteq> OS_WAIT_FOREVER" using n by (auto simp: OS_WAIT_FOREVER_def)
  note eff = a_block_timeoutq [OF nf k(1), of SleepQ False]
  have b: "0 < ticks_until ?now (?f x) \<and> ticks_until ?now (?f x) < 2 ^ 31" if "x \<in> insert ?t (set (timeoutq a))" for x
    using that T n out by (auto simp: timely_def ticks_until_add word_less_nat_alt)
  have "map (\<lambda>x. ticks_until ?now (?f x)) (timeoutq a) = map (ticks_left a) (timeoutq a)"
    using out by auto
  then have "sorted (map (\<lambda>x. ticks_until ?now (?f x)) (timeoutq a))" using T by (simp only: timely_def)
  from insert_wake_sorted [OF _ this, of ?t] b
  have "sorted (map (\<lambda>x. ticks_until ?now (?f x)) (insert_wake ?f ?t (timeoutq a)))" by blast
  with b show ?thesis by (simp add: timely_def eff astate_simps del: fun_upd_apply)
qed

subsection \<open>Expiring\<close>

lemma a_wake_expire:
  assumes "waits_in_queue a t" and "u \<noteq> t"
  shows "a_wake (a_expire t a) u = a_wake a u"
  using assms by (simp add: task_wake_def a_expire_simps)

definition expired_tcb :: "os_tcb_t \<Rightarrow> os_tcb_t" where
  "expired_tcb c = set_expired (c\<lparr>tcb_wait_queue := None\<rparr>)"

lemma a_expire_all_effect:
  assumes "lists_inv a" and "timeoutq a = ts"
    and "\<And>t. t \<in> set ts \<Longrightarrow> ticks_until now (a_wake a t) < 2 ^ 31"
    and "sorted (map (\<lambda>t. ticks_until now (a_wake a t)) ts)"
  shows "timeoutq (a_expire_all now ts a) = filter (\<lambda>t. a_wake a t \<noteq> now) ts \<and>
    a_tcb (a_expire_all now ts a) =
      (\<lambda>u. if u \<in> set ts \<and> a_wake a u = now then map_option expired_tcb (a_tcb a u) else a_tcb a u) \<and>
    g_current (kern (a_expire_all now ts a)) = g_current (kern a) \<and>
    g_tick (kern (a_expire_all now ts a)) = g_tick (kern a)"
  using assms
proof (induction ts arbitrary: a)
  case (Cons t ts)
  let ?u = "\<lambda>t. ticks_until now (a_wake a t)"
  from Cons.prems have t: "t \<in> set (timeoutq a)" by simp
  note w = lists_inv_waits [OF Cons.prems(1) t]
  have d: "t \<notin> set ts" using Cons.prems(1,2) by (auto simp: lists_inv_def timeouts_ok_def)
  have r: "os_tick_reached now (a_wake a t) \<longleftrightarrow> a_wake a t = now"
    using Cons.prems(3) [of t] by (intro os_tick_reached_now) simp
  show ?case
  proof (cases "a_wake a t = now")
    case False
    have "a_wake a u \<noteq> now" if "u \<in> set ts" for u
    proof
      assume "a_wake a u = now"
      with that Cons.prems(4) have "?u t \<le> 0" by (auto simp: ticks_until_def)
      then show False using False by (simp add: ticks_until_def unat_eq_0)
    qed
    with False r Cons.prems(2) show ?thesis by (auto simp: fun_eq_iff)
  next
    case True
    let ?a = "a_expire t a"
    have wk: "a_wake ?a u = a_wake a u" if "u \<in> set ts" for u
      using a_wake_expire [OF w, of u] that d by auto
    have tq: "timeoutq ?a = ts" using a_expire_simps(1) [OF w] Cons.prems(2) by simp
    have "sorted (map (\<lambda>t. ticks_until now (a_wake ?a t)) ts)"
      using Cons.prems(4) wk by (simp cong: map_cong)
    with Cons.IH [OF a_expire_inv [OF Cons.prems(1) t] tq] wk Cons.prems(3)
    have IH: "timeoutq (a_expire_all now ts ?a) = filter (\<lambda>t. a_wake ?a t \<noteq> now) ts"
      "a_tcb (a_expire_all now ts ?a) =
        (\<lambda>u. if u \<in> set ts \<and> a_wake ?a u = now then map_option expired_tcb (a_tcb ?a u) else a_tcb ?a u)"
      "g_current (kern (a_expire_all now ts ?a)) = g_current (kern ?a)"
      "g_tick (kern (a_expire_all now ts ?a)) = g_tick (kern ?a)" by auto
    have "filter (\<lambda>t. a_wake ?a t \<noteq> now) ts = filter (\<lambda>t. a_wake a t \<noteq> now) ts"
      using wk by (auto intro: filter_cong)
    moreover have "a_tcb ?a = (a_tcb a)(t := map_option expired_tcb (a_tcb a t))"
      using a_expire_simps(2) [OF w] by (simp add: expired_tcb_def [abs_def])
    ultimately show ?thesis
      using True r IH d wk a_expire_simps(3,4) [OF w] by (auto simp: fun_eq_iff)
  qed
qed simp

subsection \<open>A tick\<close>

text \<open>The tasks whose deadline the next tick reaches.\<close>

definition due :: "astate \<Rightarrow> addr set" where
  "due a = {t \<in> set (timeoutq a). a_wake a t = g_tick (kern a) + 1}"

lemma a_tick_effect:
  assumes T: "timely a" and L: "lists_inv a"
  shows "timeoutq (a_tick a) = filter (\<lambda>t. t \<notin> due a) (timeoutq a)"
    and "a_tcb (a_tick a) = (\<lambda>u. if u \<in> due a then map_option expired_tcb (a_tcb a u) else a_tcb a u)"
    and "g_current (kern (a_tick a)) = g_current (kern a)"
    and "g_tick (kern (a_tick a)) = g_tick (kern a) + 1"
proof -
  let ?now = "g_tick (kern a) + 1"
  let ?a1 = "a_kern (g_tick_update (\<lambda>_. ?now)) a"
  have w: "a_wake ?a1 = a_wake a" by (simp add: task_wake_def astate_simps kstate_simps fun_eq_iff)
  have L1: "lists_inv ?a1" using L lists_inv_cong [of ?a1 a] by (simp add: astate_simps kstate_simps)
  have left: "ticks_until ?now (a_wake a t) = ticks_left a t - 1" if "t \<in> set (timeoutq a)" for t
    using T that by (intro ticks_until_Suc) (auto simp: timely_def ticks_until_def)
  have bound: "ticks_until ?now (a_wake ?a1 t) < 2 ^ 31" if "t \<in> set (timeoutq a)" for t
    using left [OF that] T that by (auto simp: w timely_def dest: bspec)
  have "sorted (map (\<lambda>t. ticks_left a t - 1) (timeoutq a))"
    using T by (auto simp: timely_def sorted_wrt_map intro: sorted_wrt_mono_rel [of _ "\<lambda>x y. ticks_left a x \<le> ticks_left a y"])
  moreover have "map (\<lambda>t. ticks_until ?now (a_wake ?a1 t)) (timeoutq a) = map (\<lambda>t. ticks_left a t - 1) (timeoutq a)"
    using left by (simp add: w)
  ultimately have srt: "sorted (map (\<lambda>t. ticks_until ?now (a_wake ?a1 t)) (timeoutq a))" by (simp only:)
  have "timeoutq ?a1 = timeoutq a" by (simp add: astate_simps)
  note eff0 = a_expire_all_effect [OF L1 this bound srt]
  have k: "a_tcb ?a1 = a_tcb a" "g_current (kern ?a1) = g_current (kern a)" "g_tick (kern ?a1) = ?now"
    by (simp_all add: astate_simps kstate_simps)
  note eff = eff0 [unfolded w k]
  have p: "timeoutq (a_process_timeouts ?a1) = filter (\<lambda>t. a_wake a t \<noteq> ?now) (timeoutq a)"
    "a_tcb (a_process_timeouts ?a1) = (\<lambda>u. if u \<in> due a then map_option expired_tcb (a_tcb a u) else a_tcb a u)"
    "g_current (kern (a_process_timeouts ?a1)) = g_current (kern a)"
    "g_tick (kern (a_process_timeouts ?a1)) = ?now"
    using eff by (simp_all add: a_process_timeouts_def astate_simps due_def)
  have "filter (\<lambda>t. a_wake a t \<noteq> ?now) (timeoutq a) = filter (\<lambda>t. t \<notin> due a) (timeoutq a)"
    by (auto simp: due_def intro: filter_cong)
  with p show "timeoutq (a_tick a) = filter (\<lambda>t. t \<notin> due a) (timeoutq a)"
    "a_tcb (a_tick a) = (\<lambda>u. if u \<in> due a then map_option expired_tcb (a_tcb a u) else a_tcb a u)"
    "g_current (kern (a_tick a)) = g_current (kern a)" "g_tick (kern (a_tick a)) = ?now"
    by (simp_all add: a_tick_def Let_def astate_simps)
qed

lemma timely_tick:
  assumes T: "timely a" and L: "lists_inv a"
  shows "timely (a_tick a)"
proof -
  note eff = a_tick_effect [OF assms]
  let ?ts = "filter (\<lambda>t. t \<notin> due a) (timeoutq a)"
  have w: "a_wake (a_tick a) t = a_wake a t" if "t \<notin> due a" for t
    using that by (simp add: task_wake_def eff)
  have left: "ticks_left (a_tick a) t = ticks_left a t - 1 \<and> 1 < ticks_left a t" if "t \<in> set ?ts" for t
  proof -
    have t: "0 < ticks_left a t" "a_wake a t \<noteq> g_tick (kern a) + 1" using that T by (auto simp: timely_def due_def)
    then have "a_wake a t \<noteq> g_tick (kern a)" by (auto simp: ticks_until_def)
    note s = ticks_until_Suc [OF this]
    have "ticks_until (g_tick (kern a) + 1) (a_wake a t) \<noteq> 0" using t(2) by (simp add: ticks_until_def unat_eq_0)
    with s that w show ?thesis by (simp add: eff)
  qed
  have "sorted (map (ticks_left a) ?ts)" using T by (simp add: timely_def sorted_filter)
  then have "sorted (map (\<lambda>t. ticks_left a t - 1) ?ts)"
    by (auto simp: sorted_wrt_map intro: sorted_wrt_mono_rel [of _ "\<lambda>x y. ticks_left a x \<le> ticks_left a y"])
  moreover have "map (ticks_left (a_tick a)) ?ts = map (\<lambda>t. ticks_left a t - 1) ?ts" using left by simp
  ultimately have "sorted (map (ticks_left (a_tick a)) ?ts)" by (simp only:)
  moreover have "0 < ticks_left (a_tick a) t \<and> ticks_left (a_tick a) t < 2 ^ 31" if "t \<in> set ?ts" for t
  proof -
    have "ticks_left a t < 2 ^ 31" using that T by (auto simp: timely_def)
    with left [OF that] show ?thesis by simp
  qed
  ultimately show ?thesis unfolding timely_def eff(1) by simp
qed

subsection \<open>Properties\<close>

text \<open>
  C10: The tick interrupt always returns, keeps the kernel's invariant and advances the tick counter by one
  (modulo \<open>2 ^ 32\<close>). It wakes exactly the sleeping tasks whose wake-up tick is the new tick: these leave the
  timeout queue and become ready with the result -1, all other tasks keep their state, and the timeout
  queue stays sorted with all its deadlines in the future. The task to run next is the first of the most
  urgent ready queue, and a context switch is pending if that is not the current task.
\<close>

theorem tick_wakes_exactly_due:
  assumes "kernel_rel s a" and "kernel_inv a" and "timely a"
  shows "\<exists>s' a'. SysTick_Handler s = Some s' \<and> kernel_rel s' a' \<and> kernel_inv a' \<and> timely a' \<and>
    g_tick s' = g_tick s + 1 \<and>
    timeoutq a' = filter (\<lambda>t. task_wake s t \<noteq> g_tick s + 1) (timeoutq a) \<and>
    (\<forall>t c. a_tcb a t = Some c \<longrightarrow> a_tcb a' t = Some
       (if t \<in> set (timeoutq a) \<and> task_wake s t = g_tick s + 1
        then c\<lparr>tcb_wait_queue := None, tcb_wake_tick := OS_WAIT_FOREVER, tcb_wait_result := -1,
          tcb_state := OS_TASK_READY\<rparr> else c)) \<and>
    g_next s' = first_or (ready_order a') NULL \<and> (g_next s' \<noteq> g_current s' \<longrightarrow> pendsv s')"
proof -
  from SysTick_Handler_refines [OF assms(1,2)] obtain s' where
    s': "SysTick_Handler s = Some s'" "kernel_rel s' (a_tick a)" by blast
  note eff = a_tick_effect [OF assms(3) kernel_invD(2) [OF assms(2)]]
  note inv = a_tick_inv [OF assms(2)] timely_tick [OF assms(3) kernel_invD(2) [OF assms(2)]]
  have k: "g_tick s = g_tick (kern a)" "task_wake s = a_wake a"
    using kernel_rel_globals [OF assms(1)] kernel_rel_task_wake [OF assms(1)] by simp_all
  have d: "t \<in> due a \<longleftrightarrow> t \<in> set (timeoutq a) \<and> task_wake s t = g_tick s + 1" for t by (simp add: due_def k)
  have e: "expired_tcb c = c\<lparr>tcb_wait_queue := None, tcb_wake_tick := OS_WAIT_FOREVER, tcb_wait_result := -1,
      tcb_state := OS_TASK_READY\<rparr>" for c by (simp add: expired_tcb_def set_expired_def)
  have tq: "timeoutq (a_tick a) = filter (\<lambda>t. task_wake s t \<noteq> g_tick s + 1) (timeoutq a)"
    unfolding eff(1) by (rule filter_cong) (auto simp: d)
  have n: "g_next (kern (a_tick a)) = first_or (ready_order (a_tick a)) NULL"
    "g_next (kern (a_tick a)) \<noteq> g_current (kern (a_tick a)) \<longrightarrow> pendsv (kern (a_tick a))"
    by (simp_all add: a_tick_def Let_def astate_simps)
  show ?thesis
    by (intro exI [of _ s'] exI [of _ "a_tick a"])
      (use s' inv n in \<open>auto simp: tq kernel_rel_globals [OF s'(2)] eff(2,4) k(1) d e [symmetric]\<close>)
qed

lemma sample_timely: "timely sample_a"
  by (simp add: timely_def task_wake_def sample_a_tcb sample_medium_def task0_def ticks_until_def)

theorem tick_wakes_exactly_due_witness:
  "\<exists>s' a'. SysTick_Handler sample = Some s' \<and> kernel_rel s' a' \<and> kernel_inv a' \<and> g_tick s' = 10 \<and>
    timeoutq a' = [] \<and> map_option tcb_state (a_tcb a' 0x400) = Some OS_TASK_READY"
proof -
  from tick_wakes_exactly_due [OF sample_rel sample_inv sample_timely] obtain s' a' where
    "SysTick_Handler sample = Some s'" "kernel_rel s' a'" "kernel_inv a'" "g_tick s' = g_tick sample + 1"
    "timeoutq a' = filter (\<lambda>t. task_wake sample t \<noteq> g_tick sample + 1) (timeoutq sample_a)"
    and T: "\<forall>t c. a_tcb sample_a t = Some c \<longrightarrow> a_tcb a' t = Some
       (if t \<in> set (timeoutq sample_a) \<and> task_wake sample t = g_tick sample + 1
        then c\<lparr>tcb_wait_queue := None, tcb_wake_tick := OS_WAIT_FOREVER, tcb_wait_result := -1,
          tcb_state := OS_TASK_READY\<rparr> else c)" by blast
  moreover have w: "task_wake sample 0x400 = 10" by (simp add: task_wake_def sample_tcb sample_medium_def)
  moreover have "map_option tcb_state (a_tcb a' 0x400) = Some OS_TASK_READY"
    using T [rule_format, of "0x400" sample_medium] w by (simp add: sample_a_tcb)
  ultimately show ?thesis by (intro exI [of _ s'] exI [of _ a']) simp
qed

text \<open>
  C29: A task that sleeps for \<open>n\<close> ticks, \<open>0 < n < 2 ^ 31\<close>: the call returns, keeps the kernel's invariant and
  the interrupt mask, puts the task into the sleep queue and into the timeout queue with the wake-up tick
  \<open>n\<close> ticks after the current one, keeps the timeout queue sorted, and leaves a switch to another task
  pending.
\<close>

theorem delay_sleeps:
  assumes "kernel_rel s a" and "kernel_inv a" and "current_runnable a" and "timely a"
    and "0 < n" and "unat n < 2 ^ 31"
  shows "\<exists>s' a'. os_kernel_delay_ticks n s = Some s' \<and> kernel_rel s' a' \<and> kernel_inv a' \<and> timely a' \<and>
    primask s' = primask s \<and> waitq a' SleepQ = waitq a SleepQ @ [g_current s] \<and>
    set (timeoutq a') = insert (g_current s) (set (timeoutq a)) \<and>
    task_wake s' = (task_wake s)(g_current s := g_tick s + n) \<and>
    g_next s' \<noteq> g_current s \<and> pendsv s'"
proof -
  let ?b = "masked a" and ?t = "g_current (kern a)"
  have b: "kernel_inv ?b" "current_runnable ?b" "lists_inv ?b" "timely ?b" "g_current (kern ?b) = ?t"
    using assms kernel_invD(2) [of ?b] by (simp_all add: astate_simps timely_def task_wake_def)
  have n0: "n \<noteq> 0" and nf: "n \<noteq> OS_WAIT_FOREVER" using assms(5,6) by (auto simp: OS_WAIT_FOREVER_def)
  from delay.call_returns [OF n0 assms(1-3)] obtain s' where
    s': "os_kernel_delay_ticks n s = Some s'" "kernel_rel s' (unmasked (primask s) (a_block SleepQ n False ?b))"
    "kernel_inv (a_block SleepQ n False ?b)" "primask s' = primask s" by (auto simp: delay_call_def)
  from b(2) obtain c where c: "a_tcb ?b (g_current (kern ?b)) = Some c" by (auto simp: current_runnable_def)
  note tq = a_block_timeoutq [OF nf c, of SleepQ False]
  note sw = a_block_switches [OF b(3) delay_block_pre [OF b(2)], of n]
  have T: "timely (a_block SleepQ n False ?b)" by (rule timely_delay [OF b(4,3,2) assms(5,6)])
  have w: "a_wake (unmasked k z) = a_wake z" "a_wake (masked z) = a_wake z" for k z
    by (simp_all add: task_wake_def astate_simps fun_eq_iff)
  note g = kernel_rel_globals [OF assms(1)] kernel_rel_globals [OF s'(2)]
    kernel_rel_task_wake [OF assms(1)] kernel_rel_task_wake [OF s'(2)]
  show ?thesis
    by (intro exI [of _ s'] exI [of _ "unmasked (primask s) (a_block SleepQ n False ?b)"])
      (use s' T sw in \<open>simp add: g w tq timely_def astate_simps a_block_waitq\<close>)
qed

theorem delay_sleeps_witness:
  "\<exists>s' a'. os_kernel_delay_ticks 5 sample = Some s' \<and> kernel_rel s' a' \<and> kernel_inv a' \<and> timely a' \<and>
    primask s' = 0 \<and> waitq a' SleepQ = [0x400, 0x200] \<and> set (timeoutq a') = {0x200, 0x400} \<and>
    task_wake s' = (task_wake sample)(0x200 := 14) \<and> g_next s' \<noteq> 0x200 \<and> pendsv s'"
  using delay_sleeps [OF sample_rel sample_inv sample_runnable sample_timely, of 5]
  by (simp add: sample_queue_def)

end
