(* ===== verification/Mempool.thy ===== *)
theory Mempool
  imports Kernel_State
begin

unbundle bit_operations_syntax

text \<open>
  \<open>kernel/mempool.c\<close> and \<open>kernel/kalloc.c\<close>: pools of equal blocks, with the free blocks linked through
  their first word. The two pools of the kernel, for kernel objects and for task stacks, are the places a
  \<open>os_mempool_t *\<close> can point to. Memory is a store of 32-bit words by their addresses; it stands for the bytes of the
  memory as long as the words that are accessed do not overlap, so the properties ask for blocks of at least four
  bytes, which hold the link (the kernel's pools have blocks of 64 and of 1024 bytes). A block that is in use as a task
  control block is an object of the store of task control blocks.
\<close>

subsection \<open>Model of mempool.c\<close>

datatype pool_ref = KernelObjectPool | UserStackPool

fun get_pool :: "kstate \<Rightarrow> pool_ref \<Rightarrow> os_mempool_t" where
  "get_pool s KernelObjectPool = g_kernel_object_pool s"
| "get_pool s UserStackPool = g_user_stack_pool s"

fun upd_pool :: "pool_ref \<Rightarrow> (os_mempool_t \<Rightarrow> os_mempool_t) \<Rightarrow> kstate \<Rightarrow> kstate" where
  "upd_pool KernelObjectPool f s = s\<lparr>g_kernel_object_pool := f (g_kernel_object_pool s)\<rparr>"
| "upd_pool UserStackPool f s = s\<lparr>g_user_stack_pool := f (g_user_stack_pool s)\<rparr>"

definition store_word :: "addr \<Rightarrow> u32 \<Rightarrow> kstate \<Rightarrow> kstate" where
  "store_word p v s = s\<lparr>mem := (mem s)(p := v)\<rparr>"

definition os_mempool_align_up :: "u32 \<Rightarrow> u32 \<Rightarrow> u32" where
  "os_mempool_align_up value align = (value + (align - 1)) AND NOT (align - 1)"

text \<open>The loop of \<open>os_mempool_init\<close> from block \<open>i\<close> on.\<close>

function mempool_init_loop :: "pool_ref \<Rightarrow> addr \<Rightarrow> u32 \<Rightarrow> u32 \<Rightarrow> u32 \<Rightarrow> kstate \<Rightarrow> kstate" where
  "mempool_init_loop pool base block_size block_count i s =
     (if i < block_count then
        let node = base + i * block_size;
            s = store_word node (mp_free_list (get_pool s pool)) s;
            s = upd_pool pool (\<lambda>m. m\<lparr>mp_free_list := node\<rparr>) s
        in mempool_init_loop pool base block_size block_count (i + 1) s
      else s)"
  by pat_completeness auto
termination
  by (relation "measure (\<lambda>(pool, base, bs, n, i, s). unat n - unat i)")
    (auto simp: unat_Suc_less word_less_nat_alt)

declare mempool_init_loop.simps [simp del]

definition os_mempool_init :: "pool_ref option \<Rightarrow> addr \<Rightarrow> u32 \<Rightarrow> u32 \<Rightarrow> kstate \<Rightarrow> kstate" where
  "os_mempool_init pool buffer block_size block_count s = (case pool of
     None \<Rightarrow> s
   | Some p \<Rightarrow>
       if buffer = NULL \<or> block_size = 0 \<or> block_count = 0 then s
       else mempool_init_loop p buffer block_size block_count 0
         (upd_pool p (\<lambda>_. \<lparr>mp_free_list = NULL, mp_pool_start = buffer,
            mp_pool_end = buffer + block_size * block_count, mp_block_size = block_size,
            mp_block_count = block_count, mp_free_count = block_count\<rparr>) s))"

definition os_mempool_alloc :: "pool_ref option \<Rightarrow> kstate \<Rightarrow> addr \<times> kstate" where
  "os_mempool_alloc pool s = (case pool of
     None \<Rightarrow> (NULL, s)
   | Some p \<Rightarrow>
       (let (primask, s) = os_port_irq_save s;
            node = mp_free_list (get_pool s p);
            s = (if node \<noteq> NULL
                 then upd_pool p (\<lambda>m. m\<lparr>mp_free_list := mem s node, mp_free_count := mp_free_count m - 1\<rparr>) s
                 else s)
        in (node, os_port_irq_restore primask s)))"

definition os_mempool_free :: "pool_ref option \<Rightarrow> addr \<Rightarrow> kstate \<Rightarrow> int \<times> kstate" where
  "os_mempool_free pool ptr s = (case pool of
     None \<Rightarrow> (-1, s)
   | Some p \<Rightarrow>
       if ptr = NULL then (-1, s)
       else if ptr < mp_pool_start (get_pool s p) \<or> mp_pool_end (get_pool s p) \<le> ptr then (-1, s)
       else if (ptr - mp_pool_start (get_pool s p)) mod mp_block_size (get_pool s p) \<noteq> 0 then (-1, s)
       else
         (let (primask, s) = os_port_irq_save s;
              s = store_word ptr (mp_free_list (get_pool s p)) s;
              s = upd_pool p (\<lambda>m. m\<lparr>mp_free_list := ptr, mp_free_count := mp_free_count m + 1\<rparr>) s
          in (0, os_port_irq_restore primask s)))"

subsection \<open>Model of kalloc.c\<close>

definition OS_KERNEL_OBJECT_BLOCK_SIZE :: u32 where "OS_KERNEL_OBJECT_BLOCK_SIZE = 64"
definition OS_KERNEL_OBJECT_COUNT :: u32 where "OS_KERNEL_OBJECT_COUNT = 32"
definition OS_TASK_STACK_WORDS :: u32 where "OS_TASK_STACK_WORDS = 256"
definition OS_TASK_STACK_COUNT :: u32 where "OS_TASK_STACK_COUNT = 8"

text \<open>\<open>os_kalloc_init\<close>; the linker decides where the two storage arrays are. \<open>os_task_stack_block_t\<close> is an
  array of \<open>OS_TASK_STACK_WORDS\<close> 32-bit words and \<open>sizeof(void *)\<close> is 4.\<close>

definition os_kalloc_init :: "addr \<Rightarrow> addr \<Rightarrow> kstate \<Rightarrow> kstate" where
  "os_kalloc_init object_storage stack_storage s =
     (let kernel_block_size = os_mempool_align_up OS_KERNEL_OBJECT_BLOCK_SIZE 4;
          stack_block_size = os_mempool_align_up (4 * OS_TASK_STACK_WORDS) 4;
          s = os_mempool_init (Some KernelObjectPool) object_storage kernel_block_size OS_KERNEL_OBJECT_COUNT s
      in os_mempool_init (Some UserStackPool) stack_storage stack_block_size OS_TASK_STACK_COUNT s)"

definition os_kobj_alloc :: "u32 \<Rightarrow> kstate \<Rightarrow> addr \<times> kstate" where
  "os_kobj_alloc sz s =
     (if sz = 0 \<or> OS_KERNEL_OBJECT_BLOCK_SIZE < sz then (NULL, s)
      else os_mempool_alloc (Some KernelObjectPool) s)"

definition os_kobj_free :: "addr \<Rightarrow> kstate \<Rightarrow> int \<times> kstate" where
  "os_kobj_free ptr s = os_mempool_free (Some KernelObjectPool) ptr s"

definition os_kstack_alloc :: "u32 \<Rightarrow> kstate \<Rightarrow> addr \<times> kstate" where
  "os_kstack_alloc stack_words s =
     (if stack_words = 0 \<or> OS_TASK_STACK_WORDS < stack_words then (NULL, s)
      else os_mempool_alloc (Some UserStackPool) s)"

definition os_kstack_free :: "addr \<Rightarrow> kstate \<Rightarrow> int \<times> kstate" where
  "os_kstack_free stack_mem s = os_mempool_free (Some UserStackPool) stack_mem s"

subsection \<open>Frame\<close>

lemma pool_simps [simp]:
  "get_pool (upd_pool p f s) q = (if q = p then f (get_pool s q) else get_pool s q)"
  "mem (upd_pool p f s) = mem s"
  "primask (upd_pool p f s) = primask s"
  "get_pool (store_word x v s) q = get_pool s q"
  "mem (store_word x v s) = (mem s)(x := v)"
  "primask (store_word x v s) = primask s"
  "get_pool (s\<lparr>primask := k\<rparr>) q = get_pool s q"
  by (cases p; cases q; simp add: store_word_def)+

lemma get_pool_store [simp]: "get_pool (s\<lparr>mem := M\<rparr>) q = get_pool s q"
  by (cases q) simp_all

subsection \<open>The contract of an allocator\<close>

text \<open>Successive allocations.\<close>

fun alloc_many :: "(kstate \<Rightarrow> addr \<times> kstate) \<Rightarrow> nat \<Rightarrow> kstate \<Rightarrow> addr list \<times> kstate" where
  "alloc_many alloc 0 s = ([], s)"
| "alloc_many alloc (Suc n) s = (let (x, s) = alloc s; (xs, s) = alloc_many alloc n s in (x # xs, s))"

text \<open>An allocator manages a set of blocks; \<open>rep s xs\<close> says that \<open>xs\<close> are the free ones.\<close>

locale allocator =
  fixes rep :: "kstate \<Rightarrow> addr list \<Rightarrow> bool"
    and blocks :: "addr set"
    and alloc :: "kstate \<Rightarrow> addr \<times> kstate"
    and free :: "addr \<Rightarrow> kstate \<Rightarrow> int \<times> kstate"
  assumes rep_blocks: "rep s xs \<Longrightarrow> set xs \<subseteq> blocks \<and> distinct xs \<and> NULL \<notin> blocks"
    and alloc_Nil: "rep s [] \<Longrightarrow> alloc s = (NULL, s)"
    and alloc_Cons: "rep s (x # xs) \<Longrightarrow> \<exists>s'. alloc s = (x, s') \<and> rep s' xs"
    and free_block: "rep s xs \<Longrightarrow> x \<in> blocks \<Longrightarrow> x \<notin> set xs \<Longrightarrow> \<exists>s'. free x s = (0, s') \<and> rep s' (x # xs)"
    and free_other: "rep s xs \<Longrightarrow> x \<notin> blocks \<Longrightarrow> free x s = (-1, s)"
begin

lemma alloc_fresh:
  assumes "rep s xs" and "alloc s = (x, s')" and "x \<noteq> NULL"
  shows "x \<in> set xs \<and> (\<exists>ys. rep s' ys \<and> xs = x # ys \<and> x \<notin> set ys)"
proof (cases xs)
  case Nil
  with assms alloc_Nil show ?thesis by auto
next
  case (Cons y ys)
  with assms alloc_Cons [of s y ys] rep_blocks [of s xs] show ?thesis by auto
qed

lemma alloc_NULL_iff:
  assumes "rep s xs"
  shows "fst (alloc s) = NULL \<longleftrightarrow> xs = []"
proof (cases xs)
  case Nil
  with assms alloc_Nil show ?thesis by auto
next
  case (Cons y ys)
  with assms alloc_Cons [of s y ys] rep_blocks [of s xs] show ?thesis by auto
qed

text \<open>A block that is allocated and freed is free again, and it is the next one allocated.\<close>

lemma free_alloc:
  assumes "rep s (x # xs)" and "alloc s = (x, s1)"
  shows "\<exists>s2 s3. free x s1 = (0, s2) \<and> rep s2 (x # xs) \<and> alloc s2 = (x, s3) \<and> rep s3 xs"
proof -
  from alloc_Cons [OF assms(1)] assms(2) have "rep s1 xs" by auto
  moreover have "x \<in> blocks" "x \<notin> set xs" using rep_blocks [OF assms(1)] by auto
  ultimately obtain s2 where "free x s1 = (0, s2)" "rep s2 (x # xs)" using free_block by blast
  with alloc_Cons [of s2 x xs] show ?thesis by auto
qed

lemma alloc_many_take:
  "rep s xs \<Longrightarrow> n \<le> length xs \<Longrightarrow> \<exists>s'. alloc_many alloc n s = (take n xs, s') \<and> rep s' (drop n xs)"
proof (induction n arbitrary: s xs)
  case (Suc n)
  then obtain x ys where xs: "xs = x # ys" by (cases xs) auto
  with Suc.prems alloc_Cons obtain s1 where s1: "alloc s = (x, s1)" "rep s1 ys" by blast
  from Suc.IH [OF s1(2)] Suc.prems xs obtain s2 where "alloc_many alloc n s1 = (take n ys, s2)" "rep s2 (drop n ys)" by auto
  with s1 xs show ?case by simp
qed simp

text \<open>As many allocations succeed as there are free blocks; they give distinct blocks of the pool, and the
  next one is refused.\<close>

lemma alloc_exhausts:
  assumes "rep s xs"
  shows "\<exists>ys s'. alloc_many alloc (length xs) s = (ys, s') \<and> distinct ys \<and> set ys \<subseteq> blocks \<and>
    length ys = length xs \<and> alloc s' = (NULL, s')"
  using alloc_many_take [OF assms, of "length xs"] rep_blocks [OF assms] alloc_Nil by fastforce

end

subsection \<open>The blocks of a pool\<close>

text \<open>A pool that does not wrap around the address space, with blocks of at least four bytes: every block holds a link, and
  the links of different blocks do not overlap.\<close>

definition pool_fits :: "addr \<Rightarrow> u32 \<Rightarrow> u32 \<Rightarrow> bool" where
  "pool_fits base bs n \<longleftrightarrow> base \<noteq> NULL \<and> 4 \<le> unat bs \<and> n \<noteq> 0 \<and> unat base + unat bs * unat n < 2 ^ 32"

lemma pool_fits_size: "pool_fits base bs n \<Longrightarrow> bs \<noteq> 0"
  by (auto simp: pool_fits_def)

definition pool_block :: "addr \<Rightarrow> u32 \<Rightarrow> nat \<Rightarrow> addr" where
  "pool_block base bs i = base + of_nat i * bs"

definition pool_blocks :: "addr \<Rightarrow> u32 \<Rightarrow> u32 \<Rightarrow> addr set" where
  "pool_blocks base bs n = pool_block base bs ` {..<unat n}"

lemma unat_pool_block:
  assumes f: "pool_fits base bs n" and i: "i \<le> unat n"
  shows "unat (pool_block base bs i) = unat base + i * unat bs"
proof -
  have "unat base + i * unat bs \<le> unat base + unat n * unat bs" by (intro add_left_mono mult_le_mono1 i)
  also have "\<dots> < 4294967296" using f by (simp add: pool_fits_def mult.commute)
  finally have lt: "unat base + i * unat bs < 4294967296" .
  have "i < 4294967296" using i unat_lt_2p32 [of n] by simp
  then have "unat (of_nat i * bs) = i * unat bs"
    using lt by (simp add: unat_word_ariths unat_of_nat mod_mult_left_eq)
  with lt show ?thesis by (simp add: pool_block_def unat_word_ariths)
qed

lemma pool_end: "base + bs * n = pool_block base bs (unat n)"
  by (simp add: pool_block_def mult.commute)

lemma inj_pool_block:
  assumes f: "pool_fits base bs n" and i: "i < unat n" "j < unat n" and e: "pool_block base bs i = pool_block base bs j"
  shows "i = j"
proof -
  have "unat base + i * unat bs = unat base + j * unat bs"
    using unat_pool_block [OF f, of i] unat_pool_block [OF f, of j] i e by auto
  moreover have "0 < unat bs" using pool_fits_size [OF f] by (simp add: unat_gt_0)
  ultimately show ?thesis by auto
qed

lemma pool_links_apart:
  assumes f: "pool_fits base bs n" and i: "i < j" "j < unat n"
  shows "unat (pool_block base bs i) + 4 \<le> unat (pool_block base bs j)"
proof -
  have "Suc i * unat bs \<le> j * unat bs" using i(1) by (intro mult_le_mono1) simp
  then have "i * unat bs + 4 \<le> j * unat bs" using f by (simp add: pool_fits_def)
  then show ?thesis using i unat_pool_block [OF f, of i] unat_pool_block [OF f, of j] by simp
qed

lemma NULL_notin_pool_blocks: "pool_fits base bs n \<Longrightarrow> NULL \<notin> pool_blocks base bs n"
proof
  assume f: "pool_fits base bs n" and "NULL \<in> pool_blocks base bs n"
  then obtain i where "i < unat n" "pool_block base bs i = NULL" by (auto simp: pool_blocks_def)
  with unat_pool_block [OF f, of i] have "unat base = 0" by simp
  with f show False by (simp add: pool_fits_def unat_eq_0)
qed

text \<open>The checks of \<open>os_mempool_free\<close> accept exactly the blocks of the pool.\<close>

lemma pool_blocks_iff:
  assumes f: "pool_fits base bs n"
  shows "x \<in> pool_blocks base bs n \<longleftrightarrow> base \<le> x \<and> x < base + bs * n \<and> (x - base) mod bs = 0"
proof -
  have e: "unat (base + bs * n) = unat base + unat n * unat bs"
    unfolding pool_end using unat_pool_block [OF f, of "unat n"] by simp
  have bs: "0 < unat bs" using pool_fits_size [OF f] by (simp add: unat_gt_0)
  show ?thesis
  proof
    assume "x \<in> pool_blocks base bs n"
    then obtain i where i: "i < unat n" "x = pool_block base bs i" by (auto simp: pool_blocks_def)
    then have x: "unat x = unat base + i * unat bs" using unat_pool_block [OF f, of i] by simp
    moreover have "i * unat bs < unat n * unat bs" using i(1) bs by simp
    ultimately have "base \<le> x" "x < base + bs * n" by (simp_all add: word_le_nat_alt word_less_nat_alt e)
    moreover from this x have "unat (x - base) = i * unat bs" by (simp add: unat_sub)
    then have "unat ((x - base) mod bs) = 0" by (simp add: unat_mod_distrib)
    ultimately show "base \<le> x \<and> x < base + bs * n \<and> (x - base) mod bs = 0" by (simp add: unat_eq_0)
  next
    assume x: "base \<le> x \<and> x < base + bs * n \<and> (x - base) mod bs = 0"
    then have d: "unat (x - base) = unat x - unat base" by (simp add: unat_sub)
    from x have "unat ((x - base) mod bs) = 0" by simp
    then have "(unat x - unat base) mod unat bs = 0" by (simp add: unat_mod_distrib d)
    then obtain i where i: "unat x - unat base = i * unat bs" by (metis mod_0_imp_dvd dvdE mult.commute)
    have "unat base \<le> unat x" "unat x < unat base + unat n * unat bs" using x by (simp_all add: word_le_nat_alt word_less_nat_alt e)
    with i have "i * unat bs < unat n * unat bs" by linarith
    then have "i < unat n" by simp
    moreover from this i \<open>unat base \<le> unat x\<close> have "unat x = unat (pool_block base bs i)"
      using unat_pool_block [OF f, of i] by simp
    then have "x = pool_block base bs i" by (simp add: word_unat_eq_iff)
    ultimately show "x \<in> pool_blocks base bs n" by (auto simp: pool_blocks_def)
  qed
qed

subsection \<open>The free list\<close>

fun free_chain :: "(addr \<Rightarrow> u32) \<Rightarrow> addr \<Rightarrow> addr list \<Rightarrow> bool" where
  "free_chain M p [] = (p = NULL)"
| "free_chain M p (x # xs) = (p = x \<and> x \<noteq> NULL \<and> free_chain M (M x) xs)"

lemma free_chain_upd [simp]: "x \<notin> set xs \<Longrightarrow> free_chain (M(x := v)) p xs = free_chain M p xs"
  by (induction xs arbitrary: p) auto

definition pool_rep :: "pool_ref \<Rightarrow> addr \<Rightarrow> u32 \<Rightarrow> u32 \<Rightarrow> kstate \<Rightarrow> addr list \<Rightarrow> bool" where
  "pool_rep p base bs n s xs \<longleftrightarrow> pool_fits base bs n \<and>
     mp_pool_start (get_pool s p) = base \<and> mp_pool_end (get_pool s p) = base + bs * n \<and>
     mp_block_size (get_pool s p) = bs \<and> mp_block_count (get_pool s p) = n \<and>
     free_chain (mem s) (mp_free_list (get_pool s p)) xs \<and> distinct xs \<and> set xs \<subseteq> pool_blocks base bs n \<and>
     unat (mp_free_count (get_pool s p)) = length xs"

lemma primask_back [simp]: "s\<lparr>primask := k\<rparr>\<lparr>primask := primask s\<rparr> = s"
  by simp

lemma card_pool_blocks: "pool_fits base bs n \<Longrightarrow> card (pool_blocks base bs n) = unat n"
  unfolding pool_blocks_def by (subst card_image) (auto simp: inj_on_def dest: inj_pool_block)

lemma pool_rep_length:
  assumes "pool_rep p base bs n s xs" shows "length xs \<le> unat n"
proof -
  have "finite (pool_blocks base bs n)" by (simp add: pool_blocks_def)
  then have "card (set xs) \<le> card (pool_blocks base bs n)" using assms by (intro card_mono) (auto simp: pool_rep_def)
  then show ?thesis using assms by (simp add: pool_rep_def card_pool_blocks distinct_card)
qed

interpretation pool: allocator "pool_rep p base bs n" "pool_blocks base bs n"
  "os_mempool_alloc (Some p)" "os_mempool_free (Some p)" for p base bs n
proof (unfold_locales, goal_cases)
  case (1 s xs)
  then show ?case by (auto simp: pool_rep_def NULL_notin_pool_blocks)
next
  case (2 s)
  then show ?case
    by (simp add: pool_rep_def os_mempool_alloc_def os_port_irq_save_def os_port_irq_restore_def)
next
  case (3 s x xs)
  then have c: "mp_free_count (get_pool s p) \<noteq> 0" by (auto simp: pool_rep_def)
  from 3 show ?case
    by (auto simp: pool_rep_def os_mempool_alloc_def os_port_irq_save_def os_port_irq_restore_def Let_def
        unat_minus_one [OF c])
next
  case (4 s xs x)
  have f: "pool_fits base bs n" using 4(1) by (simp add: pool_rep_def)
  from 4(2) have x: "base \<le> x \<and> x < base + bs * n \<and> (x - base) mod bs = 0" by (simp add: pool_blocks_iff [OF f])
  have nn: "x \<noteq> NULL" using NULL_notin_pool_blocks [OF f] 4(2) by auto
  have "finite (pool_blocks base bs n)" by (simp add: pool_blocks_def)
  then have "card (insert x (set xs)) \<le> unat n"
    using 4 card_pool_blocks [OF f] card_mono [of "pool_blocks base bs n" "insert x (set xs)"] by (auto simp: pool_rep_def)
  then have "Suc (length xs) < 4294967296"
    using 4 unat_lt_2p32 [of n] by (simp add: pool_rep_def distinct_card)
  then have "unat (mp_free_count (get_pool s p) + 1) = Suc (length xs)"
    using 4(1) by (simp add: unat_word_ariths pool_rep_def)
  with 4 x nn show ?case
    by (auto simp: pool_rep_def os_mempool_free_def os_port_irq_save_def os_port_irq_restore_def Let_def not_le not_less)
next
  case (5 s xs x)
  have f: "pool_fits base bs n" using 5(1) by (simp add: pool_rep_def)
  have m: "mp_pool_start (get_pool s p) = base" "mp_pool_end (get_pool s p) = base + bs * n"
    "mp_block_size (get_pool s p) = bs" using 5(1) by (simp_all add: pool_rep_def)
  from 5(2) consider "x < base \<or> base + bs * n \<le> x" | "(x - base) mod bs \<noteq> 0"
    unfolding pool_blocks_iff [OF f] by (meson not_le)
  then show ?case unfolding os_mempool_free_def option.case m by cases simp_all
qed

subsection \<open>Initialisation\<close>

definition all_blocks :: "addr \<Rightarrow> u32 \<Rightarrow> nat \<Rightarrow> addr list" where
  "all_blocks base bs k = rev (map (pool_block base bs) [0..<k])"

lemma set_all_blocks: "k \<le> unat n \<Longrightarrow> set (all_blocks base bs k) \<subseteq> pool_blocks base bs n"
  by (auto simp: all_blocks_def pool_blocks_def)

lemma distinct_all_blocks:
  assumes "pool_fits base bs n" and "k \<le> unat n"
  shows "distinct (all_blocks base bs k)"
  using inj_pool_block [OF assms(1)] assms(2) by (auto simp: all_blocks_def distinct_map inj_on_def)

lemma mempool_init_loop_chain:
  assumes "pool_fits base bs n" and "i \<le> n"
    and "free_chain (mem s) (mp_free_list (get_pool s p)) (all_blocks base bs (unat i))"
  shows "\<exists>v. free_chain (mem (mempool_init_loop p base bs n i s)) v (all_blocks base bs (unat n)) \<and>
    get_pool (mempool_init_loop p base bs n i s) p = (get_pool s p)\<lparr>mp_free_list := v\<rparr>"
  using assms
proof (induction p base bs n i s rule: mempool_init_loop.induct)
  case (1 p base bs n i s)
  show ?case
  proof (cases "i < n")
    case False
    with 1(3) have "i = n" by simp
    with 1(4) show ?thesis
      by (intro exI [of _ "mp_free_list (get_pool s p)"]) (simp add: mempool_init_loop.simps [of p base bs n n])
  next
    case True
    let ?node = "base + i * bs"
    let ?s = "upd_pool p (\<lambda>m. m\<lparr>mp_free_list := ?node\<rparr>) (store_word ?node (mp_free_list (get_pool s p)) s)"
    have node: "?node = pool_block base bs (unat i)" by (simp add: pool_block_def)
    have lt: "unat i < unat n" using True by (simp add: word_less_nat_alt)
    then have "?node \<in> pool_blocks base bs n" by (simp add: node pool_blocks_def)
    then have nn: "?node \<noteq> NULL" using NULL_notin_pool_blocks [OF 1(2)] by auto
    have "distinct (all_blocks base bs (Suc (unat i)))" using distinct_all_blocks [OF 1(2)] lt by simp
    then have "?node \<notin> set (all_blocks base bs (unat i))" by (simp add: all_blocks_def node)
    then have chain: "free_chain (mem ?s) (mp_free_list (get_pool ?s p)) (all_blocks base bs (unat (i + 1)))"
      using 1(4) nn unat_Suc_less [OF True] by (simp add: all_blocks_def node)
    have le: "i + 1 \<le> n" using True unat_Suc_less [OF True] by (simp add: word_le_nat_alt word_less_nat_alt)
    from 1(1) [OF True refl refl refl 1(2) le chain] True show ?thesis
      by (simp add: mempool_init_loop.simps [of p base bs n i s] Let_def)
  qed
qed

lemma os_mempool_init_rep:
  assumes f: "pool_fits base bs n"
  shows "pool_rep p base bs n (os_mempool_init (Some p) base bs n s) (all_blocks base bs (unat n))"
proof -
  let ?s = "upd_pool p (\<lambda>_. \<lparr>mp_free_list = NULL, mp_pool_start = base, mp_pool_end = base + bs * n,
      mp_block_size = bs, mp_block_count = n, mp_free_count = n\<rparr>) s"
  have "free_chain (mem ?s) (mp_free_list (get_pool ?s p)) (all_blocks base bs (unat 0))"
    by (simp add: all_blocks_def)
  note loop = mempool_init_loop_chain [OF f _ this]
  have "os_mempool_init (Some p) base bs n s = mempool_init_loop p base bs n 0 ?s"
    using f pool_fits_size [OF f] by (simp add: os_mempool_init_def pool_fits_def)
  with loop f show ?thesis
    using set_all_blocks [of "unat n" n base bs] distinct_all_blocks [OF f, of "unat n"]
    by (auto simp: pool_rep_def all_blocks_def)
qed

subsection \<open>The kernel's two pools\<close>

interpretation kobj: allocator
  "\<lambda>s xs. 0 < sz \<and> sz \<le> OS_KERNEL_OBJECT_BLOCK_SIZE \<and> pool_rep KernelObjectPool base bs n s xs"
  "pool_blocks base bs n" "os_kobj_alloc sz" os_kobj_free for sz base bs n
  by unfold_locales
    (auto simp: os_kobj_alloc_def os_kobj_free_def pool.alloc_Nil pool.free_other not_less
      dest: pool.rep_blocks pool.alloc_Cons pool.free_block)

interpretation kstack: allocator
  "\<lambda>s xs. 0 < words \<and> words \<le> OS_TASK_STACK_WORDS \<and> pool_rep UserStackPool base bs n s xs"
  "pool_blocks base bs n" "os_kstack_alloc words" os_kstack_free for words base bs n
  by unfold_locales
    (auto simp: os_kstack_alloc_def os_kstack_free_def pool.alloc_Nil pool.free_other not_less
      dest: pool.rep_blocks pool.alloc_Cons pool.free_block)

text \<open>Writing into one pool leaves a disjoint pool alone.\<close>

lemma free_chain_cong: "(\<And>x. x \<in> set xs \<Longrightarrow> M' x = M x) \<Longrightarrow> free_chain M' p xs = free_chain M p xs"
  by (induction xs arbitrary: p) auto

lemma pool_rep_frame:
  assumes "pool_rep p base bs n s xs" and "get_pool s' p = get_pool s p"
    and "\<And>x. x \<in> pool_blocks base bs n \<Longrightarrow> mem s' x = mem s x"
  shows "pool_rep p base bs n s' xs"
proof -
  have "free_chain (mem s') q xs = free_chain (mem s) q xs" for q
    using assms by (intro free_chain_cong) (auto simp: pool_rep_def)
  with assms show ?thesis by (simp add: pool_rep_def)
qed

lemma mempool_init_loop_frame:
  assumes "pool_fits base bs n" and "q \<noteq> p"
  shows "get_pool (mempool_init_loop p base bs n i s) q = get_pool s q"
    and "x \<notin> pool_blocks base bs n \<Longrightarrow> mem (mempool_init_loop p base bs n i s) x = mem s x"
  using assms
proof (induction p base bs n i s rule: mempool_init_loop.induct)
  case (1 p base bs n i s)
  {
    case 1
    from "1.IH"(1) [OF _ refl refl refl] 1 show ?case
      by (cases "i < n") (simp_all add: mempool_init_loop.simps [of p base bs n i s] Let_def)
  next
    case 2
    have "base + i * bs \<in> pool_blocks base bs n" if "i < n"
      using that by (auto simp: pool_blocks_def pool_block_def word_less_nat_alt intro!: image_eqI [of _ _ "unat i"])
    with "1.IH"(2) [OF _ refl refl refl] 2 show ?case
      by (cases "i < n") (auto simp: mempool_init_loop.simps [of p base bs n i s] Let_def)
  }
qed

lemma align_up_kalloc:
  "os_mempool_align_up OS_KERNEL_OBJECT_BLOCK_SIZE 4 = 64"
  "os_mempool_align_up (4 * OS_TASK_STACK_WORDS) 4 = 1024"
  by (simp_all add: os_mempool_align_up_def OS_KERNEL_OBJECT_BLOCK_SIZE_def OS_TASK_STACK_WORDS_def)

subsection \<open>Clearing the low bits of a word\<close>

lemma and_not_mask: "(x :: u32) AND NOT (2 ^ k - 1) = push_bit k (drop_bit k x)"
proof -
  have "x AND NOT (mask k) = push_bit k (drop_bit k x)"
    by (rule bit_word_eqI) (auto simp: bit_simps)
  then show ?thesis by (simp add: mask_eq_exp_minus_1)
qed

lemma unat_and_not_mask: "unat ((x :: u32) AND NOT (2 ^ k - 1)) = unat x div 2 ^ k * 2 ^ k"
proof -
  have "unat (drop_bit k x) = unat x div 2 ^ k" unfolding unat_drop_bit_eq by (rule drop_bit_eq_div)
  moreover have "drop_bit k x = of_nat (unat (drop_bit k x))" by simp
  ultimately have d: "drop_bit k x = of_nat (unat x div 2 ^ k)" by (simp only:)
  have e: "push_bit k (drop_bit k x) = of_nat (unat x div 2 ^ k * 2 ^ k)"
    unfolding d by (simp add: push_bit_eq_mult)
  have "unat x div 2 ^ k * 2 ^ k < 2 ^ 32"
    by (rule le_less_trans [of _ "unat x"]) (simp, use unat_lt_2p32 [of x] in simp)
  then show ?thesis unfolding and_not_mask e by (simp add: unat_of_nat del: of_nat_mult)
qed

end
