(* ===== verification/Mempool_Properties.thy ===== *)
theory Mempool_Properties
  imports Mempool Sample_Kernel
begin

text \<open>
  What the pool allocator promises: initialisation, allocation and freeing, alignment, and the start-up of
  the two kernel pools.
\<close>

unbundle bit_operations_syntax

text \<open>
  C26: A freshly initialised pool of blocks of at least four bytes that fit into the address space serves exactly \<open>block_count\<close>
  allocations: they return every block of the pool exactly once, and the next one returns \<open>NULL\<close> and
  changes nothing.
\<close>

theorem mempool_init_serves_all_blocks:
  assumes "pool_fits base bs n"
  shows "\<exists>xs s'. alloc_many (os_mempool_alloc (Some p)) (unat n) (os_mempool_init (Some p) base bs n s) = (xs, s') \<and>
    distinct xs \<and> set xs = pool_blocks base bs n \<and> os_mempool_alloc (Some p) s' = (NULL, s')"
proof -
  have "length (all_blocks base bs (unat n)) = unat n" by (simp add: all_blocks_def)
  with pool.alloc_exhausts [OF os_mempool_init_rep [OF assms, of p s]] obtain xs s' where
    xs: "alloc_many (os_mempool_alloc (Some p)) (unat n) (os_mempool_init (Some p) base bs n s) = (xs, s')"
    "distinct xs" "set xs \<subseteq> pool_blocks base bs n" "length xs = unat n" "os_mempool_alloc (Some p) s' = (NULL, s')"
    by auto
  have "finite (pool_blocks base bs n)" by (simp add: pool_blocks_def)
  then have "set xs = pool_blocks base bs n"
    using xs card_pool_blocks [OF assms] by (intro card_subset_eq) (simp_all add: distinct_card)
  with xs show ?thesis by blast
qed

theorem mempool_init_serves_all_blocks_witness:
  "\<exists>xs s'. alloc_many (os_mempool_alloc (Some UserStackPool)) 8
      (os_mempool_init (Some UserStackPool) 0x20002000 1024 8 sample) = (xs, s') \<and>
    distinct xs \<and> set xs = pool_blocks 0x20002000 1024 8 \<and> os_mempool_alloc (Some UserStackPool) s' = (NULL, s')"
  using mempool_init_serves_all_blocks [of "0x20002000" 1024 8 UserStackPool sample] by (simp add: pool_fits_def)

text \<open>
  C27: In a pool with blocks of at least four bytes and free blocks \<open>xs\<close>, allocation returns the first free block and removes it from the free
  ones, or \<open>NULL\<close> when there is none. Freeing a block of the pool that is in use succeeds and makes it the
  first free block; freeing anything that is not the start of a block of the pool (outside the pool, or
  inside a block) is refused with -1 and changes nothing.
\<close>

theorem mempool_alloc_free_correct:
  assumes "pool_rep p base bs n s xs"
  shows "(case xs of
      [] \<Rightarrow> os_mempool_alloc (Some p) s = (NULL, s)
    | y # ys \<Rightarrow> \<exists>s'. os_mempool_alloc (Some p) s = (y, s') \<and> pool_rep p base bs n s' ys) \<and>
    (x \<in> pool_blocks base bs n - set xs \<longrightarrow>
      (\<exists>s'. os_mempool_free (Some p) x s = (0, s') \<and> pool_rep p base bs n s' (x # xs))) \<and>
    (x \<notin> pool_blocks base bs n \<longrightarrow> os_mempool_free (Some p) x s = (-1, s))"
  using assms pool.alloc_Nil [of p base bs n s] pool.alloc_Cons [of p base bs n s]
    pool.free_block [of p base bs n s xs x] pool.free_other [of p base bs n s xs x]
  by (auto split: list.split)

definition two_blocks :: kstate where
  "two_blocks = sample\<lparr>g_user_stack_pool := \<lparr>mp_free_list = 0x100, mp_pool_start = 0x100, mp_pool_end = 0x120,
     mp_block_size = 0x10, mp_block_count = 2, mp_free_count = 1\<rparr>\<rparr>"

lemma two_blocks_rep: "pool_rep UserStackPool 0x100 0x10 2 two_blocks [0x100]"
proof -
  have "{..<2 :: nat} = {0, 1}" by auto
  then show ?thesis
    by (simp add: pool_rep_def two_blocks_def pool_fits_def pool_blocks_def pool_block_def) (simp add: sample_def)
qed

theorem mempool_alloc_free_correct_witness:
  "(\<exists>s'. os_mempool_alloc (Some UserStackPool) two_blocks = (0x100, s') \<and> pool_rep UserStackPool 0x100 0x10 2 s' []) \<and>
    (\<exists>s'. os_mempool_free (Some UserStackPool) 0x110 two_blocks = (0, s') \<and>
       pool_rep UserStackPool 0x100 0x10 2 s' [0x110, 0x100]) \<and>
    os_mempool_free (Some UserStackPool) 0x108 two_blocks = (-1, two_blocks)"
proof -
  have "{..<2 :: nat} = {0, 1}" by auto
  then have b: "pool_blocks 0x100 0x10 2 = {0x100, 0x110}" by (simp add: pool_blocks_def pool_block_def)
  show ?thesis
    using mempool_alloc_free_correct [OF two_blocks_rep, of "0x110"] mempool_alloc_free_correct [OF two_blocks_rep, of "0x108"]
    by (simp add: b)
qed

text \<open>
  Freeing is not protected against freeing twice. Freeing the first free block once more is accepted with
  result 0 and makes the block its own successor in the free list: from then on every allocation returns
  this same block.
\<close>

theorem mempool_double_free:
  assumes "pool_rep p base bs n s (x # xs)"
  shows "\<exists>s'. os_mempool_free (Some p) x s = (0, s') \<and> mp_free_list (get_pool s' p) = x \<and> mem s' x = x \<and>
    (\<exists>s''. alloc_many (os_mempool_alloc (Some p)) 2 s' = ([x, x], s''))"
proof -
  have f: "pool_fits base bs n" and x: "x \<in> pool_blocks base bs n" and h: "mp_free_list (get_pool s p) = x"
    using assms by (simp_all add: pool_rep_def)
  have m: "mp_pool_start (get_pool s p) = base" "mp_pool_end (get_pool s p) = base + bs * n"
    "mp_block_size (get_pool s p) = bs" using assms by (simp_all add: pool_rep_def)
  from x have c: "base \<le> x" "x < base + bs * n" "(x - base) mod bs = 0" by (simp_all add: pool_blocks_iff [OF f])
  have nn: "x \<noteq> NULL" using NULL_notin_pool_blocks [OF f] x by auto
  from c nn m have "os_mempool_free (Some p) x s = (0, os_port_irq_restore (primask s)
      (upd_pool p (\<lambda>m. m\<lparr>mp_free_list := x, mp_free_count := mp_free_count m + 1\<rparr>)
        (store_word x x (s\<lparr>primask := 1\<rparr>))))"
    unfolding os_mempool_free_def option.case m by (simp add: h os_port_irq_save_def Let_def not_le not_less)
  with nn show ?thesis
    by (simp add: os_port_irq_restore_def numeral_2_eq_2 os_mempool_alloc_def os_port_irq_save_def Let_def)
qed

theorem mempool_double_free_witness:
  "\<exists>s'. os_mempool_free (Some UserStackPool) 0x100 two_blocks = (0, s') \<and>
    mp_free_list (get_pool s' UserStackPool) = 0x100 \<and> mem s' 0x100 = 0x100 \<and>
    (\<exists>s''. alloc_many (os_mempool_alloc (Some UserStackPool)) 2 s' = ([0x100, 0x100], s''))"
  by (rule mempool_double_free [OF two_blocks_rep])

subsection \<open>Alignment\<close>

text \<open>
  Aligning up to a power of two: the result is the least multiple of the alignment that is not below the
  value, as long as that multiple fits into 32 bits.
\<close>

theorem align_up_least_multiple:
  assumes "k < 32" and "unat value + (2 ^ k - 1) < 2 ^ 32"
  shows "2 ^ k dvd unat (os_mempool_align_up value (2 ^ k)) \<and>
    unat value \<le> unat (os_mempool_align_up value (2 ^ k)) \<and>
    unat (os_mempool_align_up value (2 ^ k)) < unat value + 2 ^ k"
proof -
  let ?m = "unat value + (2 ^ k - 1)"
  have "(2 :: nat) ^ k < 2 ^ 32" using assms(1) by (intro power_strict_increasing) simp_all
  then have "unat ((2 :: u32) ^ k) = 2 ^ k"
    using unat_of_nat [of "2 ^ k", where 'a = 32] by simp
  moreover have "(2 :: u32) ^ k \<noteq> 0" using calculation by (metis unat_0 power_not_zero zero_neq_numeral)
  ultimately have "unat ((2 :: u32) ^ k - 1) = 2 ^ k - 1" by (simp add: unat_minus_one)
  then have "unat (value + (2 ^ k - 1)) = ?m" using assms(2) by (simp add: unat_word_ariths)
  then have e: "unat (os_mempool_align_up value (2 ^ k)) = ?m div 2 ^ k * 2 ^ k"
    by (simp add: os_mempool_align_up_def unat_and_not_mask)
  have "?m div 2 ^ k * 2 ^ k + ?m mod 2 ^ k = ?m" by (rule div_mult_mod_eq)
  moreover have "?m mod 2 ^ k < 2 ^ k" by simp
  moreover have "(0 :: nat) < 2 ^ k" by simp
  ultimately have "unat value \<le> ?m div 2 ^ k * 2 ^ k" "?m div 2 ^ k * 2 ^ k < unat value + 2 ^ k" by linarith+
  then show ?thesis by (simp add: e)
qed

theorem align_up_least_multiple_witness:
  "2 ^ 2 dvd unat (os_mempool_align_up 61 (2 ^ 2)) \<and> unat (61 :: u32) \<le> unat (os_mempool_align_up 61 (2 ^ 2)) \<and>
    unat (os_mempool_align_up 61 (2 ^ 2)) < unat (61 :: u32) + 2 ^ 2"
  by (rule align_up_least_multiple) simp_all

end
