(* ===== verification/Task.thy ===== *)
theory Task
  imports Mempool Critical_Section
begin

text \<open>
  Task creation of \<open>kernel/task.c\<close>. The addresses of \<open>os_task_start_trampoline\<close> and \<open>os_task_exit_trap\<close> are
  chosen by the linker and are parameters. The stack is a part of the store of words; the new task control
  block is written as a whole, because \<open>os_task_create_internal\<close> assigns every field.
\<close>

unbundle bit_operations_syntax

subsection \<open>Model\<close>

text \<open>\<open>*(--sp) = v\<close>\<close>

definition push_word :: "u32 \<Rightarrow> addr \<times> kstate \<Rightarrow> addr \<times> kstate" where
  "push_word v = (\<lambda>(sp, s). (sp - 4, store_word (sp - 4) v s))"

text \<open>The words of the initial frame in the order in which they are pushed: xPSR, PC, LR, R12, R3, R2, R1,
  R0, then R11 to R4.\<close>

definition initial_frame :: "addr \<Rightarrow> addr \<Rightarrow> addr \<Rightarrow> addr \<Rightarrow> u32 list" where
  "initial_frame trampoline exit_trap entry arg =
     [0x01000000, trampoline, exit_trap, 0, 0, 0, entry, arg, 0, 0, 0, 0, 0, 0, 0, 0]"

definition os_task_create_internal ::
    "addr \<Rightarrow> addr \<Rightarrow> addr \<Rightarrow> os_task_priority_t \<Rightarrow> addr \<Rightarrow> addr \<Rightarrow> addr \<Rightarrow> u32 \<Rightarrow> kstate \<Rightarrow> (int \<times> kstate) option" where
  "os_task_create_internal trampoline exit_trap tcb priority entry arg stack_mem stack_words s =
     (let sp = (stack_mem + 4 * stack_words) AND NOT 7;
          (sp, s) = fold push_word (initial_frame trampoline exit_trap entry arg) (sp, s)
      in if tcb = NULL then None
      else Some (0, put_tcb tcb \<lparr>tcb_sp = sp, tcb_base_priority = priority, tcb_priority = priority,
        tcb_state = OS_TASK_READY, tcb_next = NULL, tcb_prev = NULL, tcb_timeout_next = NULL,
        tcb_timeout_prev = NULL, tcb_wait_queue = None, tcb_owned_mutexes = NULL, tcb_blocked_on = NULL,
        tcb_wake_tick = 0, tcb_wait_result = 0\<rparr> s))"

text \<open>\<open>sizeof(os_tcb_t)\<close>: ten members of four bytes and three enumerations of one byte each, padded to four.\<close>

definition sizeof_os_tcb_t :: u32 where
  "sizeof_os_tcb_t = 44"

definition os_kernel_task_create :: "addr \<Rightarrow> addr \<Rightarrow> addr \<Rightarrow> kstate \<Rightarrow> (int \<times> kstate) option" where
  "os_kernel_task_create trampoline exit_trap args s =
     (if args = NULL then Some (-1, s)
      else do {
        r \<leftarrow> create_args s args;
        if arg_entry r = NULL then Some (-1, s)
        else if arg_priority r > OS_TASK_IDLE then Some (-1, s)
        else do {
          let s = s\<lparr>g_debug_step := 1\<rparr>;
          let (tcb, s) = os_kobj_alloc sizeof_os_tcb_t s;
          if tcb = NULL then Some (-1, s)
          else do {
            let s = s\<lparr>g_debug_step := 2, g_debug_value0 := tcb\<rparr>;
            let (stack_mem, s) = os_kstack_alloc (arg_stack_words r) s;
            if stack_mem = NULL then Some (-1, snd (os_kobj_free tcb s))
            else do {
              let s = s\<lparr>g_debug_step := 3, g_debug_value1 := stack_mem\<rparr>;
              (ret, s) \<leftarrow> os_task_create_internal trampoline exit_trap tcb (arg_priority r) (arg_entry r)
                (arg_arg r) stack_mem (arg_stack_words r) s;
              if ret \<noteq> 0 then Some (ret, snd (os_kobj_free tcb (snd (os_kstack_free stack_mem s))))
              else do {
                let (primask, s) = os_port_irq_save s;
                s \<leftarrow> os_ready_queue_add tcb s;
                s \<leftarrow> os_schedule s;
                let s = (if g_current s \<noteq> NULL \<and> g_next s \<noteq> g_current s then os_port_pendsv_trigger s else s);
                Some (0, os_port_irq_restore primask s)
              }
            }
          }
        }
      })"

subsection \<open>The initial stack\<close>

lemma fold_initial_frame:
  "fold push_word (initial_frame tr ex entry arg) (sp, s) = (sp - 64, s\<lparr>mem := (mem s)
     (sp - 4 := 0x01000000, sp - 8 := tr, sp - 12 := ex, sp - 16 := 0, sp - 20 := 0, sp - 24 := 0,
      sp - 28 := entry, sp - 32 := arg, sp - 36 := 0, sp - 40 := 0, sp - 44 := 0, sp - 48 := 0,
      sp - 52 := 0, sp - 56 := 0, sp - 60 := 0, sp - 64 := 0)\<rparr>)"
  by (simp add: initial_frame_def push_word_def store_word_def)

definition new_task :: "addr \<Rightarrow> os_task_priority_t \<Rightarrow> os_tcb_t" where
  "new_task sp priority = \<lparr>tcb_sp = sp, tcb_base_priority = priority, tcb_priority = priority,
     tcb_state = OS_TASK_READY, tcb_next = NULL, tcb_prev = NULL, tcb_timeout_next = NULL,
     tcb_timeout_prev = NULL, tcb_wait_queue = None, tcb_owned_mutexes = NULL, tcb_blocked_on = NULL,
     tcb_wake_tick = 0, tcb_wait_result = 0\<rparr>"

text \<open>The words above the new stack pointer, in ascending order.\<close>

definition words_at :: "kstate \<Rightarrow> addr \<Rightarrow> nat \<Rightarrow> u32 list" where
  "words_at s p n = map (\<lambda>i. mem s (p + 4 * of_nat i)) [0..<n]"

lemma upt_16: "[0..<16] = [0, 1, 2, 3, 4, 5, 6, 7, 8, 9, 10, 11, 12, 13, 14, 15]"
  by (simp add: upt_rec)

lemma create_internal_frame:
  assumes "t \<noteq> NULL" and sp_def: "sp = ((stk + 4 * n) AND NOT 7) - 64"
  shows "\<exists>s'. os_task_create_internal tr ex t p entry arg stk n s = Some (0, put_tcb t (new_task sp p) s') \<and>
    (\<exists>M. s' = s\<lparr>mem := M\<rparr>) \<and>
    words_at s' sp 16 = [0, 0, 0, 0, 0, 0, 0, 0, arg, entry, 0, 0, 0, ex, tr, 0x01000000] \<and>
    (\<forall>x. (\<forall>i<16. x \<noteq> sp + 4 * of_nat i) \<longrightarrow> mem s' x = mem s x)"
proof -
  let ?top = "(stk + 4 * n) AND NOT 7"
  let ?s = "snd (fold push_word (initial_frame tr ex entry arg) (?top, s))"
  have "os_task_create_internal tr ex t p entry arg stk n s = Some (0, put_tcb t (new_task sp p) ?s)"
    using assms(1) by (simp add: os_task_create_internal_def fold_initial_frame sp_def new_task_def Let_def)
  moreover have "\<exists>M. ?s = s\<lparr>mem := M\<rparr>" by (auto simp: fold_initial_frame)
  moreover have "words_at ?s sp 16 = [0, 0, 0, 0, 0, 0, 0, 0, arg, entry, 0, 0, 0, ex, tr, 0x01000000]"
    by (simp add: words_at_def upt_16 fold_initial_frame sp_def)
  moreover have "mem ?s x = mem s x" if "\<forall>i<16. x \<noteq> sp + 4 * of_nat i" for x
  proof -
    have "list_all (\<lambda>i. x \<noteq> sp + 4 * of_nat i) [0..<16]" using that by (simp add: list_all_iff)
    then show ?thesis unfolding upt_16 by (simp add: fold_initial_frame sp_def)
  qed
  ultimately show ?thesis by blast
qed

text \<open>With at least 16 words, a frame on a stack that is aligned to 8 bytes stays inside the stack.\<close>

lemma and_not_7: "unat ((x :: u32) AND NOT 7) = unat x div 8 * 8"
  using unat_and_not_mask [of x 3] by simp

lemma initial_sp_bounds:
  fixes stk n :: u32
  assumes "unat stk mod 8 = 0" and "16 \<le> unat n" and "unat stk + 4 * unat n < 2 ^ 32"
  defines "sp \<equiv> ((stk + 4 * n) AND NOT 7) - 64"
  shows "unat stk \<le> unat sp" and "unat sp + 64 \<le> unat stk + 4 * unat n" and "unat sp mod 8 = 0"
proof -
  have "unat (4 * n) = 4 * unat n" using assms(3) by (simp add: unat_word_ariths)
  then have top: "unat (stk + 4 * n) = unat stk + 4 * unat n" using assms(3) by (simp add: unat_word_ariths)
  define t where "t = (stk + 4 * n) AND NOT 7"
  have t: "unat t = (unat stk + 4 * unat n) div 8 * 8" by (simp only: t_def and_not_7 top)
  have le: "unat t \<le> unat stk + 4 * unat n" unfolding t by simp
  have "unat stk + 64 = (unat stk + 64) div 8 * 8" using assms(1) by presburger
  also have "\<dots> \<le> unat t" unfolding t using assms(2) by (intro mult_le_mono1 div_le_mono) simp
  finally have ge: "unat stk + 64 \<le> unat t" .
  then have "unat (t - 64) = unat t - 64" by (simp add: unat_sub word_le_nat_alt)
  then have s: "unat sp = unat t - 64" by (simp only: sp_def t_def)
  show "unat stk \<le> unat sp" "unat sp + 64 \<le> unat stk + 4 * unat n" using s ge le by simp_all
  have "unat t mod 8 = 0" by (simp add: t)
  then show "unat sp mod 8 = 0" using s ge by presburger
qed

lemma initial_sp_in_stack:
  fixes stk n :: u32
  assumes "unat stk mod 8 = 0" and "16 \<le> unat n" and "unat stk + 4 * unat n < 2 ^ 32" and "i < 16"
  shows "unat stk \<le> unat ((((stk + 4 * n) AND NOT 7) - 64) + 4 * of_nat i)"
    and "unat ((((stk + 4 * n) AND NOT 7) - 64) + 4 * of_nat i) + 4 \<le> unat stk + 4 * unat n"
proof -
  note B = initial_sp_bounds [OF assms(1-3)]
  have "unat (4 * of_nat i :: u32) = 4 * i" using assms(4) by (simp add: unat_word_ariths unat_of_nat)
  then have "unat ((((stk + 4 * n) AND NOT 7) - 64) + 4 * of_nat i) = unat (((stk + 4 * n) AND NOT 7) - 64) + 4 * i"
    using B assms(3,4) by (simp add: unat_word_ariths)
  then show "unat stk \<le> unat ((((stk + 4 * n) AND NOT 7) - 64) + 4 * of_nat i)"
    and "unat ((((stk + 4 * n) AND NOT 7) - 64) + 4 * of_nat i) + 4 \<le> unat stk + 4 * unat n"
    using B assms(4) by linarith+
qed

subsection \<open>Writes outside the scheduler's data\<close>

definition sched_same :: "kstate \<Rightarrow> kstate \<Rightarrow> bool" where
  "sched_same s s' \<longleftrightarrow> tcb_at s' = tcb_at s \<and> get_queue s' = get_queue s \<and> g_timeout_queue s' = g_timeout_queue s \<and>
     mutex_at s' = mutex_at s \<and> sem_at s' = sem_at s \<and> g_current s' = g_current s \<and> g_next s' = g_next s \<and>
     g_tick s' = g_tick s \<and> primask s' = primask s \<and> pendsv s' = pendsv s"

lemma sched_same_refl [simp]: "sched_same s s"
  by (simp add: sched_same_def)

lemma sched_same_trans: "sched_same s t \<Longrightarrow> sched_same t u \<Longrightarrow> sched_same s u"
  by (simp add: sched_same_def)

lemma sched_same_fields [simp]:
  "sched_same s (s\<lparr>mem := M\<rparr>)" "sched_same s (s\<lparr>g_debug_step := a\<rparr>)"
  "sched_same s (s\<lparr>g_debug_step := a, g_debug_value0 := b\<rparr>)" "sched_same s (s\<lparr>g_debug_step := a, g_debug_value1 := b\<rparr>)"
  "sched_same s (store_word p v s)"
  by (simp_all add: sched_same_def kstate_simps store_word_def)

lemma sched_same_pool: "sched_same s (upd_pool p f s)"
  by (cases p) (simp_all add: sched_same_def kstate_simps)

lemma sched_same_locked:
  assumes "sched_same (s\<lparr>primask := 1\<rparr>) s'"
  shows "sched_same s (os_port_irq_restore (primask s) s')"
  using assms by (simp add: sched_same_def os_port_irq_restore_def kstate_simps)

lemma sched_same_alloc: "sched_same s (snd (os_mempool_alloc p s))"
  by (auto simp: os_mempool_alloc_def os_port_irq_save_def Let_def split: option.split
      intro!: sched_same_locked sched_same_pool)

lemma sched_same_free: "sched_same s (snd (os_mempool_free p x s))"
  by (auto simp: os_mempool_free_def os_port_irq_save_def Let_def split: option.split
      intro!: sched_same_locked intro: sched_same_trans [OF _ sched_same_pool])

lemma sched_same_kalloc:
  "sched_same s (snd (os_kobj_alloc n s))" "sched_same s (snd (os_kstack_alloc n s))"
  "sched_same s (snd (os_kobj_free x s))" "sched_same s (snd (os_kstack_free x s))"
  by (simp_all add: os_kobj_alloc_def os_kstack_alloc_def os_kobj_free_def os_kstack_free_def
      sched_same_alloc sched_same_free)

lemma kernel_rel_same:
  assumes R: "kernel_rel s a" and S: "sched_same s s'"
  shows "kernel_rel s' (a\<lparr>kern := core s'\<rparr>)"
    and "kernel_inv (a\<lparr>kern := core s'\<rparr>) = kernel_inv a"
proof -
  have "queue_rel s' Q = queue_rel s Q" for Q by (rule queue_rel_cong) (use S in \<open>simp_all add: sched_same_def\<close>)
  moreover have "timeout_rel s' ts = timeout_rel s ts" for ts
    by (rule timeout_rel_cong) (use S in \<open>simp_all add: sched_same_def\<close>)
  ultimately show "kernel_rel s' (a\<lparr>kern := core s'\<rparr>)" using R by (simp add: kernel_rel_def)
  have "kern a = core s" using R by (simp add: kernel_rel_def)
  then show "kernel_inv (a\<lparr>kern := core s'\<rparr>) = kernel_inv a"
    using S by (intro kernel_inv_cong)
      (auto simp: sched_same_def tcb_at_core mutex_at_core sem_at_core fun_eq_iff, simp_all add: core_def)
qed

subsection \<open>A new task\<close>

text \<open>A task control block appears at an address where there was none.\<close>

definition a_new :: "addr \<Rightarrow> os_tcb_t \<Rightarrow> astate \<Rightarrow> astate" where
  "a_new t c a = a\<lparr>kern := put_tcb t c (kern a)\<rparr>"

lemma a_new_simps [astate_simps]:
  "waitq (a_new t c a) = waitq a" "timeoutq (a_new t c a) = timeoutq a"
  "t \<noteq> NULL \<Longrightarrow> a_tcb (a_new t c a) = (a_tcb a)(t \<mapsto> c)"
  "g_current (kern (a_new t c a)) = g_current (kern a)" "g_next (kern (a_new t c a)) = g_next (kern a)"
  "mutex_at (kern (a_new t c a)) = mutex_at (kern a)" "sem_at (kern (a_new t c a)) = sem_at (kern a)"
  "primask (kern (a_new t c a)) = primask (kern a)" "g_tick (kern (a_new t c a)) = g_tick (kern a)"
  "pendsv (kern (a_new t c a)) = pendsv (kern a)"
  by (simp_all add: a_new_def kstate_simps)

lemma queued_valid:
  assumes "kernel_rel s a" and "t \<in> set (waitq a q)"
  shows "tcb_at s t \<noteq> None"
proof -
  obtain d where "get_queue s q = Some d"
    using assms by (cases "get_queue s q") (auto simp: kernel_rel_def queue_rel_def)
  from dlist_valid [OF kernel_rel_queue [OF assms(1) this] assms(2)] show ?thesis by auto
qed

lemma timeout_valid: "kernel_rel s a \<Longrightarrow> t \<in> set (timeoutq a) \<Longrightarrow> tcb_at s t \<noteq> None"
  using dlist_valid [OF kernel_rel_timeoutq] by fastforce

lemma put_new_refines:
  assumes R: "kernel_rel s a" and t: "t \<noteq> NULL" "tcb_at s t = None"
  shows "kernel_rel (put_tcb t c s) (a_new t (blank_tcb c) a)"
proof -
  have tcb: "tcb_at (put_tcb t c s) x = tcb_at s x" if "x \<noteq> t" for x using that t by (simp add: kstate_simps)
  have q: "t \<notin> set (waitq a r)" for r using queued_valid [OF R, of t r] t by auto
  have "queue_rel (put_tcb t c s) (waitq a)"
    unfolding queue_rel_def
  proof (intro conjI allI impI)
    fix r d
    assume "get_queue (put_tcb t c s) r = Some d"
    then have "dlist tcb_next tcb_prev (tcb_at s) d (waitq a r)" using kernel_rel_queue [OF R] by (simp add: kstate_simps)
    then show "dlist tcb_next tcb_prev (tcb_at (put_tcb t c s)) d (waitq a r)"
      using q [of r] t by (simp add: dlist_def kstate_simps)
  qed (use R in \<open>auto simp: kernel_rel_def queue_rel_def kstate_simps\<close>)
  moreover have "t \<notin> set (timeoutq a)" using timeout_valid [OF R, of t] t by auto
  then have "timeout_rel (put_tcb t c s) (timeoutq a)"
    using R t by (simp add: kernel_rel_def timeout_rel_def dlist_def kstate_simps)
  ultimately show ?thesis
    using R by (simp add: kernel_rel_def a_new_def core_put_tcb)
qed

lemma lists_inv_new:
  assumes I: "lists_inv a" and t: "t \<noteq> NULL" "a_tcb a t = None" and c: "tcb_ok c" "tcb_state c = OS_TASK_READY"
  shows "lists_inv (a_ready_add t (a_new t c a))"
proof -
  let ?a = "a_ready_add t (a_new t c a)"
  have tcb: "a_tcb ?a = (a_tcb a)(t \<mapsto> c)" using t by (simp add: a_ready_add_def astate_simps)
  have w: "waitq ?a = (waitq a)(ReadyQ (tcb_priority c) := waitq a (ReadyQ (tcb_priority c)) @ [t])"
    using t by (simp add: a_ready_add_def astate_simps task_prio_def)
  have q: "t \<notin> set (waitq a r)" for r using lists_inv_home [OF I, of t r] t by auto
  have h: "home c = Some (ReadyQ (tcb_priority c))" using c by (simp add: home_def)
  have "tasks_ok ?a" using I c by (auto simp: lists_inv_def tasks_ok_def tcb)
  moreover have "queues_ok ?a"
    unfolding queues_ok_def
  proof (intro conjI allI)
    fix r u
    show "u \<in> set (waitq ?a r) \<longleftrightarrow> (\<exists>d. a_tcb ?a u = Some d \<and> home d = Some r)"
      using lists_inv_home [OF I, of u r] q [of r] h by (auto simp: w tcb)
    show "distinct (waitq ?a r)" using lists_inv_distinct [OF I] q by (simp add: w)
  qed
  moreover have "timeouts_ok ?a"
    using I t by (auto simp: lists_inv_def timeouts_ok_def tcb a_ready_add_def astate_simps)
  moreover have "mutex_queues_sorted ?a"
    unfolding mutex_queues_sorted_def
  proof
    fix m
    have e: "map (a_prio ?a) (waitq ?a (MutexQ m)) = map (a_prio a) (waitq a (MutexQ m))"
      using q [of "MutexQ m"] by (auto simp: task_prio_def tcb w)
    show "sorted (map (a_prio ?a) (waitq ?a (MutexQ m)))"
      unfolding e using I by (simp add: lists_inv_def mutex_queues_sorted_def)
  qed
  moreover have "g_current (kern ?a) = g_current (kern a)" by (simp add: a_ready_add_def astate_simps)
  then have "current_ok ?a"
    using I c by (auto simp: lists_inv_def current_ok_def tcb valid_task_def split: if_splits)
  ultimately show ?thesis by (simp add: lists_inv_def)
qed

lemma kernel_inv_new:
  assumes I: "kernel_inv a" and t: "t \<noteq> NULL" "a_tcb a t = None" and c: "tcb_ok c" "tcb_state c = OS_TASK_READY"
    "tcb_blocked_on c = NULL"
  shows "kernel_inv (a_ready_add t (a_new t c a))"
proof -
  let ?a = "a_ready_add t (a_new t c a)"
  note D = kernel_invD [OF I]
  have tcb: "a_tcb ?a = (a_tcb a)(t \<mapsto> c)" using t by (simp add: a_ready_add_def astate_simps)
  have w: "waitq ?a q = waitq a q" if "waitable q" for q
    using that by (simp add: a_ready_add_def astate_simps waitable_def)
  have k: "sem_at (kern ?a) = sem_at (kern a)" "mutex_at (kern ?a) = mutex_at (kern a)" "g_next (kern ?a) = g_next (kern a)"
    by (simp_all add: a_ready_add_def astate_simps)
  have L: "lists_inv ?a" by (rule lists_inv_new [OF D(2) t c(1,2)])
  moreover have "next_ok ?a" using D(3) t by (auto simp: next_ok_def tcb k)
  moreover have "sems_ok ?a" using D(4) by (simp add: sems_ok_def k w waitable_def)
  moreover have "valid_task a u \<Longrightarrow> valid_task ?a u" for u by (auto simp: valid_task_def tcb)
  then have "mutexes_ok ?a"
    using D(5) by (auto simp: mutexes_ok_def k w waitable_def)
  moreover have "no_blocked_on ?a" using D(6) c by (simp add: no_blocked_on_def tcb)
  ultimately show ?thesis by (simp add: kernel_inv_def objects_inv_def sched_inv_def)
qed

text \<open>The end of \<open>os_kernel_task_create\<close>: the new task joins its ready queue.\<close>

definition a_admit :: "addr \<Rightarrow> astate \<Rightarrow> astate" where
  "a_admit t a = (let b = a_schedule (a_ready_add t a) in
     if g_current (kern b) \<noteq> NULL \<and> g_next (kern b) \<noteq> g_current (kern b)
     then a_kern (pendsv_update (\<lambda>_. True)) b else b)"

lemma admit_refines:
  assumes R: "kernel_rel s a" and v: "valid_task a t" and p: "a_prio a t < NUM_PRIORITIES"
    and fresh: "\<And>r. t \<notin> set (waitq a r)"
  shows "\<exists>s'. do {
      s \<leftarrow> os_ready_queue_add t s;
      s \<leftarrow> os_schedule s;
      let s = (if g_current s \<noteq> NULL \<and> g_next s \<noteq> g_current s then os_port_pendsv_trigger s else s);
      Some (0 :: int, os_port_irq_restore k s)
    } = Some (0, s') \<and> kernel_rel s' (unmasked k (a_admit t a))"
proof -
  from os_ready_queue_add_refines [OF R v p fresh] obtain s1 where
    s1: "os_ready_queue_add t s = Some s1" and R1: "kernel_rel s1 (a_ready_add t a)" by blast
  from os_schedule_refines [OF R1] obtain s2 where
    s2: "os_schedule s1 = Some s2" and R2: "kernel_rel s2 (a_schedule (a_ready_add t a))" by blast
  let ?s = "if g_current s2 \<noteq> NULL \<and> g_next s2 \<noteq> g_current s2 then os_port_pendsv_trigger s2 else s2"
  have "kernel_rel ?s (a_admit t a)"
    using R2 kernel_rel_pendsv [OF R2, of True] kernel_rel_globals [OF R2]
    by (simp add: a_admit_def Let_def os_port_pendsv_trigger_def)
  from kernel_rel_unmasked [OF this, of k] s1 s2 show ?thesis by (simp add: Let_def)
qed

lemma kernel_inv_admit: "kernel_inv (a_ready_add t a) \<Longrightarrow> kernel_inv (a_admit t a)"
  using kernel_invD [of "a_ready_add t a"] by (simp add: a_admit_def Let_def kernel_inv_schedule)

end
