(* ===== verification/Task_Properties.thy ===== *)
theory Task_Properties
  imports Task
begin

unbundle bit_operations_syntax

text \<open>
  What \<open>os_kernel_task_create\<close> promises: on success a new task that is ready to run its entry function, on
  failure a kernel that is unchanged but for two debugging variables. The initial frame stays inside the stack when the stack has at least sixteen
  words, and is written below it otherwise.
\<close>

subsection \<open>The allocations\<close>

lemma sizeof_tcb_fits: "0 < sizeof_os_tcb_t" "sizeof_os_tcb_t \<le> OS_KERNEL_OBJECT_BLOCK_SIZE"
  by (simp_all add: sizeof_os_tcb_t_def OS_KERNEL_OBJECT_BLOCK_SIZE_def)

lemma alloc_frame:
  assumes "os_mempool_alloc (Some p) s = (x, s')"
  shows "mem s' = mem s" "q \<noteq> p \<Longrightarrow> get_pool s' q = get_pool s q" "create_args s' = create_args s"
    "g_first_switch s' = g_first_switch s"
  using assms by (auto simp: os_mempool_alloc_def os_port_irq_save_def os_port_irq_restore_def Let_def
      split: if_splits) (cases p; simp)+

lemma kobj_alloc_frame:
  assumes "os_kobj_alloc n s = (x, s')"
  shows "pool_rep UserStackPool base bs m s xs \<Longrightarrow> pool_rep UserStackPool base bs m s' xs" "sched_same s s'"
proof -
  show "sched_same s s'" using sched_same_kalloc(1) [of s n] assms by simp
  assume P: "pool_rep UserStackPool base bs m s xs"
  show "pool_rep UserStackPool base bs m s' xs"
  proof (cases "n = 0 \<or> n > OS_KERNEL_OBJECT_BLOCK_SIZE")
    case True
    with assms P show ?thesis by (simp add: os_kobj_alloc_def split: if_splits)
  next
    case False
    with assms have "os_mempool_alloc (Some KernelObjectPool) s = (x, s')" by (simp add: os_kobj_alloc_def split: if_splits)
    from alloc_frame(2) [OF this, of UserStackPool] alloc_frame(1) [OF this] show ?thesis
      by (intro pool_rep_frame [OF P]) simp_all
  qed
qed

lemma kernel_rel_mem: "kernel_rel s a \<Longrightarrow> mem s = mem (kern a)"
  by (simp add: kernel_rel_def core_def)

lemma kernel_rel_pools: "kernel_rel s a \<Longrightarrow> get_pool s = get_pool (kern a)"
  by (rule ext, rename_tac q, case_tac q) (simp_all add: kernel_rel_def core_def)

lemma pools_core:
  "mem (core s) = mem s" "get_pool (core s) = get_pool s" "mem (kern (unmasked k a)) = mem (kern a)"
  "get_pool (kern (unmasked k a)) = get_pool (kern a)"
  by (simp_all add: core_def unmasked_def a_kern_def, (rule ext, rename_tac q, case_tac q; simp)+)

lemma ready_order_unmasked: "ready_order (unmasked k a) = ready_order a" "ready_order (masked a) = ready_order a"
  by (simp_all add: ready_order_def astate_simps)

subsection \<open>Success\<close>

text \<open>The words of the initial frame from the new stack pointer up: R4 to R11, then what the processor loads on
  exception return.\<close>

definition frame_words :: "addr \<Rightarrow> addr \<Rightarrow> addr \<Rightarrow> addr \<Rightarrow> u32 list" where
  "frame_words tr ex entry arg = [0, 0, 0, 0, 0, 0, 0, 0, arg, entry, 0, 0, 0, ex, tr, 0x01000000]"

lemma admit_new:
  assumes R: "kernel_rel s a" and I: "kernel_inv a" and t: "t \<noteq> NULL" "tcb_at s t = None"
    and c: "c = new_task sp p" and p: "p \<le> OS_TASK_IDLE" and b_def: "b = a_admit t (masked (a_new t (blank_tcb c) a))"
  shows "\<exists>s'. do {
      s \<leftarrow> os_ready_queue_add t ((put_tcb t c s)\<lparr>primask := 1\<rparr>);
      s \<leftarrow> os_schedule s;
      let s = (if g_current s \<noteq> NULL \<and> g_next s \<noteq> g_current s then os_port_pendsv_trigger s else s);
      Some (0 :: int, os_port_irq_restore k s)
    } = Some (0, s') \<and> kernel_rel s' (unmasked k b)" and "kernel_inv b"
proof -
  let ?a = "masked (a_new t (blank_tcb c) a)"
  have at: "a_tcb a t = None" using R t by (simp add: kernel_rel_def tcb_at_core)
  have tcb: "a_tcb ?a t = Some (blank_tcb c)" using t by (simp add: astate_simps)
  have "kernel_rel ((put_tcb t c s)\<lparr>primask := 1\<rparr>) ?a"
    by (rule kernel_rel_masked [OF put_new_refines [OF R t]])
  moreover have "valid_task ?a t" using tcb by (auto simp: valid_task_def)
  moreover have "a_prio ?a t < NUM_PRIORITIES" using tcb c p by (simp add: task_prio_def new_task_def)
  moreover have "t \<notin> set (waitq ?a r)" for r
    using queued_valid [OF R, of t r] t by (auto simp: astate_simps)
  ultimately show "\<exists>s'. do {
      s \<leftarrow> os_ready_queue_add t ((put_tcb t c s)\<lparr>primask := 1\<rparr>);
      s \<leftarrow> os_schedule s;
      let s = (if g_current s \<noteq> NULL \<and> g_next s \<noteq> g_current s then os_port_pendsv_trigger s else s);
      Some (0 :: int, os_port_irq_restore k s)
    } = Some (0, s') \<and> kernel_rel s' (unmasked k b)"
    unfolding b_def by (rule admit_refines)
  have "?a = a_new t (blank_tcb c) (masked a)" by (simp add: masked_def a_new_def a_kern_def put_tcb_def)
  moreover have "kernel_inv (a_ready_add t (a_new t (blank_tcb c) (masked a)))"
    using I at t c p
    by (intro kernel_inv_new) (simp_all add: astate_simps new_task_def tcb_ok_def blank_tcb_def)
  ultimately show "kernel_inv b" unfolding b_def using kernel_inv_admit by metis
qed

lemma a_admit_effect:
  assumes "t \<noteq> NULL" and "c = new_task sp p" and b_def: "b = a_admit t (masked (a_new t (blank_tcb c) a))"
  shows "waitq b = (waitq a)(ReadyQ p := waitq a (ReadyQ p) @ [t])" "a_tcb b = (a_tcb a)(t \<mapsto> c)"
    "g_current (kern b) = g_current (kern a)" "g_next (kern b) = first_or (ready_order b) NULL"
    "g_current (kern b) \<noteq> NULL \<Longrightarrow> g_next (kern b) \<noteq> g_current (kern b) \<Longrightarrow> pendsv (kern b)"
    "mem (kern b) = mem (kern a)" "get_pool (kern b) = get_pool (kern a)" "create_args (kern b) = create_args (kern a)"
    "g_first_switch (kern b) = g_first_switch (kern a)" "pendsv (kern a) \<Longrightarrow> pendsv (kern b)"
proof -
  let ?a = "masked (a_new t (blank_tcb c) a)"
  have c: "blank_tcb c = c" "tcb_priority c = p" using assms(2) by (simp_all add: new_task_def blank_tcb_def)
  have pr: "a_prio ?a t = p" using assms(1) c by (simp add: task_prio_def astate_simps)
  have ro: "ready_order (a_kern (pendsv_update f) x) = ready_order x" for f x by (simp add: ready_order_def astate_simps)
  show "waitq b = (waitq a)(ReadyQ p := waitq a (ReadyQ p) @ [t])" "a_tcb b = (a_tcb a)(t \<mapsto> c)"
    "g_current (kern b) = g_current (kern a)"
    using assms(1) c pr by (simp_all add: b_def a_admit_def Let_def astate_simps kstate_simps a_ready_add_def)
  show "g_next (kern b) = first_or (ready_order b) NULL"
    "g_current (kern b) \<noteq> NULL \<Longrightarrow> g_next (kern b) \<noteq> g_current (kern b) \<Longrightarrow> pendsv (kern b)"
    by (auto simp: b_def a_admit_def Let_def astate_simps ro split: if_splits)
  show "mem (kern b) = mem (kern a)" "create_args (kern b) = create_args (kern a)"
    "g_first_switch (kern b) = g_first_switch (kern a)" "pendsv (kern a) \<Longrightarrow> pendsv (kern b)"
    by (simp_all add: b_def a_admit_def Let_def a_schedule_def a_ready_add_def masked_def a_new_def a_kern_def
        put_tcb_def a_add_def a_set_queue_def)
  show "get_pool (kern b) = get_pool (kern a)"
    by (rule ext, rename_tac q, case_tac q) (simp_all add: b_def a_admit_def Let_def a_schedule_def a_ready_add_def
        masked_def a_new_def a_kern_def put_tcb_def a_add_def a_set_queue_def)
qed

text \<open>The two allocations of a request that can be served.\<close>

lemma create_allocs:
  assumes "0 < n" and "n \<le> OS_TASK_STACK_WORDS"
    and "pool_rep KernelObjectPool kbase kbs kn s (t # ts)" and "pool_rep UserStackPool ubase ubs un s (stk # stks)"
  obtains s2 s3 where "os_kobj_alloc sizeof_os_tcb_t (s\<lparr>g_debug_step := 1\<rparr>) = (t, s2)"
    "os_kstack_alloc n (s2\<lparr>g_debug_step := 2, g_debug_value0 := t\<rparr>) = (stk, s3)"
    "pool_rep KernelObjectPool kbase kbs kn s3 ts" "pool_rep UserStackPool ubase ubs un s3 stks"
    "sched_same s s3" "mem s3 = mem s" "create_args s3 = create_args s" "g_first_switch s3 = g_first_switch s"
    "t \<noteq> NULL" "stk \<noteq> NULL"
proof -
  let ?s1 = "s\<lparr>g_debug_step := 1\<rparr>"
  have P1: "pool_rep KernelObjectPool kbase kbs kn ?s1 (t # ts)" "pool_rep UserStackPool ubase ubs un ?s1 (stk # stks)"
    using assms(3,4) by (simp_all add: pool_rep_def)
  from kobj.alloc_Cons [of sizeof_os_tcb_t kbase kbs kn ?s1 t ts] P1 sizeof_tcb_fits obtain s2 where
    s2: "os_kobj_alloc sizeof_os_tcb_t ?s1 = (t, s2)" "pool_rep KernelObjectPool kbase kbs kn s2 ts" by blast
  let ?s2 = "s2\<lparr>g_debug_step := 2, g_debug_value0 := t\<rparr>"
  have P2: "pool_rep KernelObjectPool kbase kbs kn ?s2 ts" "pool_rep UserStackPool ubase ubs un ?s2 (stk # stks)"
    using s2(2) kobj_alloc_frame(1) [OF s2(1) P1(2)] by (simp_all add: pool_rep_def)
  from kstack.alloc_Cons [of n ubase ubs un ?s2 stk stks] P2 assms(1,2) obtain s3 where
    s3: "os_kstack_alloc n ?s2 = (stk, s3)" "pool_rep UserStackPool ubase ubs un s3 stks" by blast
  have nn: "t \<noteq> NULL" "stk \<noteq> NULL"
    using pool.rep_blocks [OF P1(1)] pool.rep_blocks [OF P1(2)] by auto
  have a2: "os_mempool_alloc (Some KernelObjectPool) ?s1 = (t, s2)"
    and a3: "os_mempool_alloc (Some UserStackPool) ?s2 = (stk, s3)"
    using s2(1) s3(1) nn by (simp_all add: os_kobj_alloc_def os_kstack_alloc_def split: if_splits)
  have P3: "pool_rep KernelObjectPool kbase kbs kn s3 ts"
    using alloc_frame(1) [OF a3] alloc_frame(2) [OF a3, of KernelObjectPool] by (intro pool_rep_frame [OF P2(1)]) simp_all
  have S: "sched_same s s3"
    using sched_same_kalloc(1) [of ?s1 sizeof_os_tcb_t] sched_same_kalloc(2) [of ?s2 n] s2 s3
    by (simp add: sched_same_def kstate_simps)
  have "mem s3 = mem s" "create_args s3 = create_args s" "g_first_switch s3 = g_first_switch s"
    using alloc_frame [OF a2] alloc_frame [OF a3] by simp_all
  with that [OF s2(1) s3(1) P3 s3(2) S] nn show ?thesis by blast
qed

lemma task_create_success:
  assumes R: "kernel_rel s a" and I: "kernel_inv a" and "args \<noteq> NULL" and "create_args s args = Some r"
    and "arg_entry r \<noteq> NULL" and p: "arg_priority r \<le> OS_TASK_IDLE"
    and n: "0 < arg_stack_words r" "arg_stack_words r \<le> OS_TASK_STACK_WORDS"
    and P: "pool_rep KernelObjectPool kbase kbs kn s (t # ts)" "pool_rep UserStackPool ubase ubs un s (stk # stks)"
    and t: "tcb_at s t = None" and sp_def: "sp = ((stk + 4 * arg_stack_words r) AND NOT 7) - 64"
  obtains s3 s4 s' b where "os_kernel_task_create tr ex args s = Some (0, s')"
    "kernel_rel s' (unmasked (primask s) b)" "kernel_inv b" "b = a_admit t (masked (a_new t (new_task sp (arg_priority r)) (a\<lparr>kern := core s4\<rparr>)))"
    "t \<noteq> NULL" "sched_same s s4" "words_at s4 sp 16 = frame_words tr ex (arg_entry r) (arg_arg r)"
    "\<forall>x. (\<forall>i<16. x \<noteq> sp + 4 * of_nat i) \<longrightarrow> mem s4 x = mem s x" "get_pool s4 = get_pool s3"
    "pool_rep KernelObjectPool kbase kbs kn s3 ts" "pool_rep UserStackPool ubase ubs un s3 stks" "mem s3 = mem s"
    "create_args s4 = create_args s" "g_first_switch s4 = g_first_switch s"
proof -
  from n P obtain s2 s3 where A: "os_kobj_alloc sizeof_os_tcb_t (s\<lparr>g_debug_step := 1\<rparr>) = (t, s2)"
    "os_kstack_alloc (arg_stack_words r) (s2\<lparr>g_debug_step := 2, g_debug_value0 := t\<rparr>) = (stk, s3)"
    "pool_rep KernelObjectPool kbase kbs kn s3 ts" "pool_rep UserStackPool ubase ubs un s3 stks"
    "sched_same s s3" "mem s3 = mem s" "create_args s3 = create_args s" "g_first_switch s3 = g_first_switch s"
    "t \<noteq> NULL" "stk \<noteq> NULL" by (rule create_allocs)
  let ?s3 = "s3\<lparr>g_debug_step := 3, g_debug_value1 := stk\<rparr>" and ?c = "new_task sp (arg_priority r)"
  from create_internal_frame [OF A(9) sp_def, of tr ex "arg_priority r" "arg_entry r" "arg_arg r" ?s3] obtain M where
    s4: "os_task_create_internal tr ex t (arg_priority r) (arg_entry r) (arg_arg r) stk (arg_stack_words r) ?s3 =
      Some (0, put_tcb t ?c (?s3\<lparr>mem := M\<rparr>))"
    and M: "words_at (?s3\<lparr>mem := M\<rparr>) sp 16 = frame_words tr ex (arg_entry r) (arg_arg r)"
    and out: "\<And>x. \<forall>i<16. x \<noteq> sp + 4 * of_nat i \<Longrightarrow> M x = mem s x"
    unfolding frame_words_def using A(6) by auto
  let ?s4 = "?s3\<lparr>mem := M\<rparr>"
  have same: "sched_same s ?s4" using A(5) by (simp add: sched_same_def kstate_simps)
  note R4 = kernel_rel_same [OF R same]
  have I4: "kernel_inv (a\<lparr>kern := core ?s4\<rparr>)" using R4(2) I by simp
  have f4: "tcb_at ?s4 t = None" using same t by (simp add: sched_same_def)
  define b where "b = a_admit t (masked (a_new t (blank_tcb ?c) (a\<lparr>kern := core ?s4\<rparr>)))"
  note adm = admit_new [OF R4(1) I4 A(9) f4 refl p b_def]
  define key where "key = primask s"
  from adm(1) [of key] obtain s' where R': "kernel_rel s' (unmasked key b)" and s':
    "do {
      s \<leftarrow> os_ready_queue_add t ((put_tcb t ?c ?s4)\<lparr>primask := 1\<rparr>);
      s \<leftarrow> os_schedule s;
      let s = (if g_current s \<noteq> NULL \<and> g_next s \<noteq> g_current s then os_port_pendsv_trigger s else s);
      Some (0 :: int, os_port_irq_restore key s)
    } = Some (0, s')" by blast
  have key: "primask (put_tcb t ?c ?s4) = key" using same by (simp add: sched_same_def key_def kstate_simps)
  have "os_kernel_task_create tr ex args s = Some (0, s')"
    using assms(3-6) A(9,10) s'
    by (simp add: os_kernel_task_create_def A(1,2) s4 os_port_irq_save_def key Let_def not_less)
  moreover have "get_pool ?s4 = get_pool s3" by (rule ext, rename_tac q, case_tac q) simp_all
  moreover have "blank_tcb ?c = ?c" by (simp add: new_task_def blank_tcb_def)
  ultimately show ?thesis
    using R' adm(2) A same M out by (intro that [of s' b ?s4 s3]) (simp_all add: key_def b_def)
qed

text \<open>Blocks of a pool are apart by at least their size, and a block ends inside the address space.\<close>

lemma pool_blocks_apart:
  assumes f: "pool_fits base bs n" and x: "x \<in> pool_blocks base bs n" and y: "y \<in> pool_blocks base bs n" "x \<noteq> y"
  shows "unat x + unat bs \<le> unat y \<or> unat y + unat bs \<le> unat x"
proof -
  from x y(1) obtain i j where i: "i < unat n" "x = pool_block base bs i" and j: "j < unat n" "y = pool_block base bs j"
    by (auto simp: pool_blocks_def)
  have "Suc k * unat bs \<le> l * unat bs" if "k < l" for k l using that by (intro mult_le_mono1) simp
  note m = this [of i j] this [of j i]
  have "i \<noteq> j" using i j y(2) by auto
  then consider "i < j" | "j < i" by linarith
  then show ?thesis using m unat_pool_block [OF f, of i] unat_pool_block [OF f, of j] i j by cases simp_all
qed

lemma pool_block_end:
  assumes f: "pool_fits base bs n" and x: "x \<in> pool_blocks base bs n"
  shows "unat x + unat bs < 2 ^ 32"
proof -
  from x obtain i where i: "i < unat n" "x = pool_block base bs i" by (auto simp: pool_blocks_def)
  have "Suc i * unat bs \<le> unat n * unat bs" using i(1) by (intro mult_le_mono1) simp
  then show ?thesis using unat_pool_block [OF f, of i] i f by (simp add: pool_fits_def mult.commute)
qed

text \<open>The pools after the first frame of a task has been written into the block that was taken for its stack.\<close>

lemma frame_keeps_pools:
  fixes stk n :: u32
  assumes P: "pool_rep KernelObjectPool kbase kbs kn s3 ts" "pool_rep UserStackPool ubase ubs un s3 stks"
    and stk: "stk \<in> pool_blocks ubase ubs un" "stk \<notin> set stks" and n: "4 * unat n \<le> unat ubs"
    and ts: "\<forall>x\<in>set ts. unat x < unat stk \<or> unat stk + unat ubs \<le> unat x" and g: "get_pool s' = get_pool s3"
    and m: "\<And>x. unat x < unat stk \<or> unat stk + 4 * unat n \<le> unat x \<Longrightarrow> mem s' x = mem s3 x"
  shows "pool_rep KernelObjectPool kbase kbs kn s' ts" "pool_rep UserStackPool ubase ubs un s' stks"
proof -
  have cong: "pool_rep p b bs k s' xs" if "pool_rep p b bs k s3 xs" "\<And>x. x \<in> set xs \<Longrightarrow> mem s' x = mem s3 x" for p b bs k xs
    using that g free_chain_cong [of xs "mem s'" "mem s3"] by (simp add: pool_rep_def)
  show "pool_rep KernelObjectPool kbase kbs kn s' ts" by (rule cong [OF P(1)]) (use ts n in \<open>auto intro!: m\<close>)
  have f: "pool_fits ubase ubs un" and sub: "set stks \<subseteq> pool_blocks ubase ubs un" using P(2) by (auto simp: pool_rep_def)
  have "unat x + unat ubs \<le> unat stk \<or> unat stk + unat ubs \<le> unat x" if "x \<in> set stks" for x
    using that sub stk by (intro pool_blocks_apart [OF f]) auto
  moreover have "0 < unat ubs" using pool_fits_size [OF f] by (simp add: unat_gt_0)
  ultimately show "pool_rep UserStackPool ubase ubs un s' stks"
    by (intro cong [OF P(2)] m) (use n in fastforce)
qed

text \<open>
  C23: Creating a task with a valid request for a stack of at least sixteen words, while a kernel object and a stack are
  free, succeeds: the call returns 0, keeps the kernel's invariant and the interrupt mask. The task's control block is the
  first free kernel object and its stack the first free stack, and both are free no longer; the other free blocks stay
  free. The task is ready with the requested priority at the end of the ready queue of that priority, no other task
  changes, and its saved stack pointer is that of the frame from which it starts in the trampoline with the entry function
  and the argument in R1 and R0. The frame lies inside the requested words of the stack, and no word outside them
  changes. The scheduler has chosen again, and a switch is pending when its choice is not the current task. The stack is
  aligned to eight bytes, the request fits into a block, and the free kernel objects are not inside the stack.
\<close>

theorem task_create_correct:
  assumes "kernel_rel s a" and "kernel_inv a" and "args \<noteq> NULL" and "create_args s args = Some r"
    and "arg_entry r \<noteq> NULL" and "arg_priority r \<le> OS_TASK_IDLE"
    and "16 \<le> unat (arg_stack_words r)" and "arg_stack_words r \<le> OS_TASK_STACK_WORDS"
    and "pool_rep KernelObjectPool kbase kbs kn s (t # ts)" and "pool_rep UserStackPool ubase ubs un s (stk # stks)"
    and "tcb_at s t = None" and "unat stk mod 8 = 0" and "4 * unat (arg_stack_words r) \<le> unat ubs"
    and "\<forall>x\<in>set ts. unat x < unat stk \<or> unat stk + unat ubs \<le> unat x"
  shows "\<exists>s' a' sp. os_kernel_task_create tr ex args s = Some (0, s') \<and> kernel_rel s' a' \<and> kernel_inv a' \<and>
    primask s' = primask s \<and> sp = ((stk + 4 * arg_stack_words r) AND NOT 7) - 64 \<and>
    a_tcb a' = (a_tcb a)(t \<mapsto> new_task sp (arg_priority r)) \<and>
    waitq a' = (waitq a)(ReadyQ (arg_priority r) := waitq a (ReadyQ (arg_priority r)) @ [t]) \<and>
    words_at s' sp 16 = frame_words tr ex (arg_entry r) (arg_arg r) \<and>
    unat stk \<le> unat sp \<and> unat sp + 64 \<le> unat stk + 4 * unat (arg_stack_words r) \<and>
    (\<forall>x. unat x < unat stk \<or> unat stk + 4 * unat (arg_stack_words r) \<le> unat x \<longrightarrow> mem s' x = mem s x) \<and>
    pool_rep KernelObjectPool kbase kbs kn s' ts \<and> pool_rep UserStackPool ubase ubs un s' stks \<and>
    g_current s' = g_current s \<and> g_next s' = first_or (ready_order a') NULL \<and>
    (g_current s' \<noteq> NULL \<and> g_next s' \<noteq> g_current s' \<longrightarrow> pendsv s')"
proof -
  let ?n = "arg_stack_words r"
  define sp where "sp = ((stk + 4 * ?n) AND NOT 7) - 64"
  have n0: "0 < ?n" using assms(7) by (cases "?n = 0") (simp_all add: word_neq_0_conv)
  from assms(1-6) n0 assms(8-11) sp_def obtain s3 s4 s' b where S: "os_kernel_task_create tr ex args s = Some (0, s')"
    "kernel_rel s' (unmasked (primask s) b)" "kernel_inv b"
    "b = a_admit t (masked (a_new t (new_task sp (arg_priority r)) (a\<lparr>kern := core s4\<rparr>)))" "t \<noteq> NULL" "sched_same s s4"
    "words_at s4 sp 16 = frame_words tr ex (arg_entry r) (arg_arg r)"
    and O: "\<forall>x. (\<forall>i<16. x \<noteq> sp + 4 * of_nat i) \<longrightarrow> mem s4 x = mem s x" "get_pool s4 = get_pool s3"
    "pool_rep KernelObjectPool kbase kbs kn s3 ts" "pool_rep UserStackPool ubase ubs un s3 stks" "mem s3 = mem s"
    by (rule task_create_success)
  have c: "blank_tcb (new_task sp (arg_priority r)) = new_task sp (arg_priority r)" by (simp add: new_task_def blank_tcb_def)
  note eff = a_admit_effect [OF S(5) refl, of b sp "arg_priority r" "a\<lparr>kern := core s4\<rparr>", unfolded c, OF S(4)]
  have m4: "mem s' = mem s4"
    using kernel_rel_mem [OF S(2)] eff(6) by (simp add: unmasked_def a_kern_def core_def)
  then have w: "words_at s' sp 16 = words_at s4 sp 16" by (simp only: words_at_def)
  have stk: "stk \<in> pool_blocks ubase ubs un" "stk \<notin> set stks" and f: "pool_fits ubase ubs un"
    using assms(10) by (auto simp: pool_rep_def)
  have e: "unat stk + 4 * unat ?n < 2 ^ 32" using pool_block_end [OF f stk(1)] assms(13) by simp
  note I = initial_sp_in_stack [OF assms(12,7) e, folded sp_def]
  have out: "mem s' x = mem s x" if "unat x < unat stk \<or> unat stk + 4 * unat ?n \<le> unat x" for x
    unfolding m4 using that I by (intro O(1) [rule_format]) fastforce
  have "get_pool s' = get_pool s3" using kernel_rel_pools [OF S(2)] eff(7) O(2) by (simp add: pools_core)
  from frame_keeps_pools [OF O(3,4) stk assms(13,14) this] out O(5)
  have P: "pool_rep KernelObjectPool kbase kbs kn s' ts" "pool_rep UserStackPool ubase ubs un s' stks" by simp_all
  have "a_tcb (a\<lparr>kern := core s4\<rparr>) = a_tcb a" "g_current (kern (a\<lparr>kern := core s4\<rparr>)) = g_current s"
    using assms(1) S(6) by (simp_all add: kernel_rel_def sched_same_def tcb_at_core fun_eq_iff) (simp add: core_def)
  moreover have "unat stk \<le> unat sp" "unat sp + 64 \<le> unat stk + 4 * unat ?n" 
    using initial_sp_bounds [OF assms(12,7) e] by (simp_all add: sp_def)
  ultimately show ?thesis
    using S(1-3,7) eff(1-5) kernel_rel_globals [OF S(2)] P out w
    by (intro exI [of _ s'] exI [of _ "unmasked (primask s) b"] exI [of _ sp])
      (simp add: astate_simps sp_def ready_order_unmasked)
qed

text \<open>The sample kernel with one free kernel object, one free stack, a request for a task and one whose stack is too large.\<close>

definition sample_request :: os_task_create_args_t where
  "sample_request = \<lparr>arg_priority = 1, arg_entry = 0x801, arg_arg = 7, arg_stack_words = 128\<rparr>"

definition sample_pools :: kstate where
  "sample_pools = sample\<lparr>
     g_kernel_object_pool := \<lparr>mp_free_list = 0x3000, mp_pool_start = 0x3000, mp_pool_end = 0x3080,
       mp_block_size = 0x40, mp_block_count = 2, mp_free_count = 1\<rparr>,
     g_user_stack_pool := \<lparr>mp_free_list = 0x8000, mp_pool_start = 0x8000, mp_pool_end = 0x8800,
       mp_block_size = 0x400, mp_block_count = 2, mp_free_count = 1\<rparr>,
     create_args := [0x6000 \<mapsto> sample_request, 0x6100 \<mapsto> sample_request\<lparr>arg_stack_words := 300\<rparr>]\<rparr>"

definition sample_pools_a :: astate where
  "sample_pools_a = sample_a\<lparr>kern := core sample_pools\<rparr>"

lemma sample_pools_rep:
  "pool_rep KernelObjectPool 0x3000 0x40 2 sample_pools [0x3000]"
  "pool_rep UserStackPool 0x8000 0x400 2 sample_pools [0x8000]"
proof -
  have "{..<2 :: nat} = {0, 1}" by auto
  then show "pool_rep KernelObjectPool 0x3000 0x40 2 sample_pools [0x3000]"
    "pool_rep UserStackPool 0x8000 0x400 2 sample_pools [0x8000]"
    by (simp_all add: pool_rep_def sample_pools_def pool_fits_def pool_blocks_def pool_block_def) (simp_all add: sample_def)
qed

lemma sample_pools_same: "sched_same sample sample_pools"
  by (simp add: sched_same_def sample_pools_def kstate_simps)

lemmas sample_pools_rel = kernel_rel_same(1) [OF sample_rel sample_pools_same, folded sample_pools_a_def]
lemmas sample_pools_inv = kernel_rel_same(2) [OF sample_rel sample_pools_same, folded sample_pools_a_def, THEN iffD2, OF sample_inv]

lemma sample_pools_tcb: "tcb_at sample_pools = tcb_at sample" "a_tcb sample_pools_a = a_tcb sample_a"
  using sample_pools_same by (simp_all add: sched_same_def sample_pools_a_def tcb_at_core fun_eq_iff)

lemma sample_pools_args:
  "create_args sample_pools 0x6000 = Some sample_request"
  "create_args sample_pools 0x6100 = Some (sample_request\<lparr>arg_stack_words := 300\<rparr>)"
  by (simp_all add: sample_pools_def)

theorem task_create_correct_witness:
  "\<exists>s' a' sp. os_kernel_task_create 0x901 0xA01 0x6000 sample_pools = Some (0, s') \<and> kernel_rel s' a' \<and>
    kernel_inv a' \<and> primask s' = primask sample_pools \<and> sp = ((0x8000 + 4 * 128) AND NOT 7) - 64 \<and>
    a_tcb a' = (a_tcb sample_pools_a)(0x3000 \<mapsto> new_task sp 1) \<and>
    waitq a' = (waitq sample_pools_a)(ReadyQ 1 := waitq sample_pools_a (ReadyQ 1) @ [0x3000]) \<and>
    words_at s' sp 16 = frame_words 0x901 0xA01 0x801 7 \<and> 0x8000 \<le> unat sp \<and> unat sp + 64 \<le> 0x8200 \<and>
    (\<forall>x. unat x < 0x8000 \<or> 0x8200 \<le> unat x \<longrightarrow> mem s' x = mem sample_pools x) \<and>
    pool_rep KernelObjectPool 0x3000 0x40 2 s' [] \<and> pool_rep UserStackPool 0x8000 0x400 2 s' [] \<and>
    g_current s' = g_current sample_pools \<and> g_next s' = first_or (ready_order a') NULL \<and>
    (g_current s' \<noteq> NULL \<and> g_next s' \<noteq> g_current s' \<longrightarrow> pendsv s')"
  using task_create_correct [OF sample_pools_rel sample_pools_inv _ sample_pools_args(1) _ _ _ _ sample_pools_rep,
      where tr = "0x901" and ex = "0xA01"]
  by (simp add: sample_request_def OS_TASK_STACK_WORDS_def sample_pools_tcb sample_tcb)

subsection \<open>Errors\<close>

lemma task_create_no_object:
  assumes "args \<noteq> NULL" and "create_args s args = Some r" and "arg_entry r \<noteq> NULL" and "arg_priority r \<le> OS_TASK_IDLE"
    and P: "pool_rep KernelObjectPool kbase kbs kn s []"
  shows "os_kernel_task_create tr ex args s = Some (-1, s\<lparr>g_debug_step := 1\<rparr>)"
proof -
  have "pool_rep KernelObjectPool kbase kbs kn (s\<lparr>g_debug_step := 1\<rparr>) []" using P by (simp add: pool_rep_def)
  with kobj.alloc_Nil [of sizeof_os_tcb_t kbase kbs kn] sizeof_tcb_fits
  have "os_kobj_alloc sizeof_os_tcb_t (s\<lparr>g_debug_step := 1\<rparr>) = (NULL, s\<lparr>g_debug_step := 1\<rparr>)" by blast
  with assms(1-4) show ?thesis by (simp add: os_kernel_task_create_def not_less Let_def)
qed

text \<open>Freeing the block that has just been allocated restores the pool and the link in the block.\<close>

lemma alloc_free_restores:
  assumes P: "pool_rep KernelObjectPool kbase kbs kn s (t # ts)"
  shows "\<exists>s2. os_kobj_alloc sizeof_os_tcb_t (s\<lparr>g_debug_step := 1\<rparr>) = (t, s2) \<and>
    get_pool s2 UserStackPool = get_pool s UserStackPool \<and> mem s2 = mem s \<and>
    os_kobj_free t (s2\<lparr>g_debug_step := 2, g_debug_value0 := t\<rparr>) = (0, s\<lparr>g_debug_step := 2, g_debug_value0 := t\<rparr>)"
proof -
  let ?p = "g_kernel_object_pool s"
  let ?q = "?p\<lparr>mp_free_list := mem s t, mp_free_count := mp_free_count ?p - 1\<rparr>"
  have f: "pool_fits kbase kbs kn" and t: "t \<in> pool_blocks kbase kbs kn" and h: "mp_free_list ?p = t"
    and m: "mp_pool_start ?p = kbase" "mp_pool_end ?p = kbase + kbs * kn" "mp_block_size ?p = kbs"
    using P by (simp_all add: pool_rep_def)
  from t have c: "kbase \<le> t" "t < kbase + kbs * kn" "(t - kbase) mod kbs = 0" by (simp_all add: pool_blocks_iff [OF f])
  have nn: "t \<noteq> NULL" using NULL_notin_pool_blocks [OF f] t by auto
  have "os_kobj_alloc sizeof_os_tcb_t (s\<lparr>g_debug_step := 1\<rparr>) = (t, s\<lparr>g_debug_step := 1, g_kernel_object_pool := ?q\<rparr>)"
    using sizeof_tcb_fits nn h
    by (simp add: os_kobj_alloc_def os_mempool_alloc_def os_port_irq_save_def os_port_irq_restore_def Let_def not_less)
  moreover have "os_kobj_free t (s\<lparr>g_kernel_object_pool := ?q, g_debug_step := 2, g_debug_value0 := t\<rparr>) =
      (0, s\<lparr>g_debug_step := 2, g_debug_value0 := t\<rparr>)"
    using nn h m c
    by (simp add: os_kobj_free_def os_mempool_free_def os_port_irq_save_def os_port_irq_restore_def store_word_def Let_def
        not_less not_le)
  ultimately show ?thesis by simp
qed

lemma task_create_no_stack_state:
  assumes "args \<noteq> NULL" and "create_args s args = Some r" and "arg_entry r \<noteq> NULL" and "arg_priority r \<le> OS_TASK_IDLE"
    and P: "pool_rep KernelObjectPool kbase kbs kn s (t # ts)" and U: "pool_rep UserStackPool ubase ubs un s stks"
    and w: "arg_stack_words r = 0 \<or> arg_stack_words r > OS_TASK_STACK_WORDS \<or> stks = []"
  shows "os_kernel_task_create tr ex args s = Some (-1, s\<lparr>g_debug_step := 2, g_debug_value0 := t\<rparr>)"
proof -
  from alloc_free_restores [OF P] obtain s2 where s2: "os_kobj_alloc sizeof_os_tcb_t (s\<lparr>g_debug_step := 1\<rparr>) = (t, s2)"
    "get_pool s2 UserStackPool = get_pool s UserStackPool" "mem s2 = mem s"
    "os_kobj_free t (s2\<lparr>g_debug_step := 2, g_debug_value0 := t\<rparr>) = (0, s\<lparr>g_debug_step := 2, g_debug_value0 := t\<rparr>)" by blast
  let ?s2 = "s2\<lparr>g_debug_step := 2, g_debug_value0 := t\<rparr>"
  have "pool_rep UserStackPool ubase ubs un ?s2 stks" using U s2(2,3) by (simp add: pool_rep_def)
  then have "os_kstack_alloc (arg_stack_words r) ?s2 = (NULL, ?s2)"
    using w kstack.alloc_Nil [of "arg_stack_words r" ubase ubs un ?s2]
    by (cases "arg_stack_words r = 0 \<or> arg_stack_words r > OS_TASK_STACK_WORDS")
      (auto simp: os_kstack_alloc_def not_less word_neq_0_conv)
  moreover have "t \<noteq> NULL" using pool.rep_blocks [OF P] by auto
  ultimately show ?thesis using assms(1-4) s2(1,4) by (simp add: os_kernel_task_create_def not_less Let_def)
qed

lemma task_create_no_stack:
  assumes "args \<noteq> NULL" and "create_args s args = Some r" and "arg_entry r \<noteq> NULL" and "arg_priority r \<le> OS_TASK_IDLE"
    and P: "pool_rep KernelObjectPool kbase kbs kn s (t # ts)" and U: "pool_rep UserStackPool ubase ubs un s stks"
    and w: "arg_stack_words r = 0 \<or> arg_stack_words r > OS_TASK_STACK_WORDS \<or> stks = []"
  shows "\<exists>s'. os_kernel_task_create tr ex args s = Some (-1, s') \<and> sched_same s s' \<and>
    pool_rep KernelObjectPool kbase kbs kn s' (t # ts) \<and> (\<forall>x. x \<noteq> t \<longrightarrow> mem s' x = mem s x) \<and>
    get_pool s' UserStackPool = get_pool s UserStackPool \<and> g_first_switch s' = g_first_switch s"
  using task_create_no_stack_state [OF assms] P by (simp add: sched_same_def kstate_simps pool_rep_def)

text \<open>
  C24: A request that is refused. A null request, a null entry function and a priority outside the enumeration
  are refused with -1 before anything is written. When no kernel object is free the call returns -1 and has only set
  \<open>g_debug_step\<close> to 1. When the stack is empty, too large or not available it returns -1 and has only set \<open>g_debug_step\<close> to 2
  and \<open>g_debug_value0\<close> to the control block it had taken and given back: the pools, the memory, the tasks, the queues and
  the choice of the next task are what they were.
\<close>

theorem task_create_refused:
  assumes "create_args s args = Some r"
    and "pool_rep KernelObjectPool kbase kbs kn s ts" and "pool_rep UserStackPool ubase ubs un s stks"
  shows "(args = NULL \<or> arg_entry r = NULL \<or> arg_priority r > OS_TASK_IDLE \<longrightarrow>
      os_kernel_task_create tr ex args s = Some (-1, s)) \<and>
    (args \<noteq> NULL \<and> arg_entry r \<noteq> NULL \<and> arg_priority r \<le> OS_TASK_IDLE \<longrightarrow>
      (ts = [] \<longrightarrow> os_kernel_task_create tr ex args s = Some (-1, s\<lparr>g_debug_step := 1\<rparr>)) \<and>
      (ts \<noteq> [] \<and> (arg_stack_words r = 0 \<or> arg_stack_words r > OS_TASK_STACK_WORDS \<or> stks = []) \<longrightarrow>
        os_kernel_task_create tr ex args s = Some (-1, s\<lparr>g_debug_step := 2, g_debug_value0 := hd ts\<rparr>)))"
proof (intro conjI impI)
  assume "args = NULL \<or> arg_entry r = NULL \<or> arg_priority r > OS_TASK_IDLE"
  with assms(1) show "os_kernel_task_create tr ex args s = Some (-1, s)"
    by (auto simp: os_kernel_task_create_def)
next
  assume v: "args \<noteq> NULL \<and> arg_entry r \<noteq> NULL \<and> arg_priority r \<le> OS_TASK_IDLE"
  show "os_kernel_task_create tr ex args s = Some (-1, s\<lparr>g_debug_step := 1\<rparr>)" if "ts = []"
    using task_create_no_object [OF _ assms(1)] v assms(2) that by blast
  show "os_kernel_task_create tr ex args s = Some (-1, s\<lparr>g_debug_step := 2, g_debug_value0 := hd ts\<rparr>)"
    if "ts \<noteq> [] \<and> (arg_stack_words r = 0 \<or> arg_stack_words r > OS_TASK_STACK_WORDS \<or> stks = [])"
  proof (cases ts)
    case (Cons t us)
    with that v assms(2) task_create_no_stack_state [OF _ assms(1) _ _ _ assms(3), of kbase kbs kn t us tr ex] show ?thesis by simp
  qed (use that in simp)
qed

theorem task_create_refused_witness:
  "os_kernel_task_create 0x901 0xA01 0x6100 sample_pools = Some (-1, sample_pools\<lparr>g_debug_step := 2, g_debug_value0 := 0x3000\<rparr>)"
  using task_create_refused [OF sample_pools_args(2) sample_pools_rep, of "0x901" "0xA01"]
  by (simp add: sample_request_def OS_TASK_STACK_WORDS_def)

subsection \<open>The frame and the stack\<close>

text \<open>
  C39: With a stack of at least sixteen words that starts at a multiple of eight, the stack pointer that task creation saves in
  the control block lies inside the stack, is a multiple of eight and points to the initial frame of sixteen words, which
  ends inside the stack; every word outside the stack keeps its value.
\<close>

theorem task_frame_in_stack:
  fixes stk n :: u32
  assumes "unat stk mod 8 = 0" and "16 \<le> unat n" and "unat stk + 4 * unat n < 2 ^ 32" and "t \<noteq> NULL"
  shows "\<exists>s' c. os_task_create_internal tr ex t p entry arg stk n s = Some (0, s') \<and> tcb_at s' t = Some c \<and>
    unat stk \<le> unat (tcb_sp c) \<and> unat (tcb_sp c) + 64 \<le> unat stk + 4 * unat n \<and> unat (tcb_sp c) mod 8 = 0 \<and>
    words_at s' (tcb_sp c) 16 = frame_words tr ex entry arg \<and>
    (\<forall>x. unat x < unat stk \<or> unat stk + 4 * unat n \<le> unat x \<longrightarrow> mem s' x = mem s x)"
proof -
  define sp where "sp = ((stk + 4 * n) AND NOT 7) - 64"
  from create_internal_frame [OF assms(4) sp_def, of tr ex p entry arg s] obtain s' where
    s': "os_task_create_internal tr ex t p entry arg stk n s = Some (0, put_tcb t (new_task sp p) s')"
    and w: "words_at s' sp 16 = frame_words tr ex entry arg"
    and out: "\<And>x. \<forall>i<16. x \<noteq> sp + 4 * of_nat i \<Longrightarrow> mem s' x = mem s x" unfolding frame_words_def by blast
  note I = initial_sp_in_stack [OF assms(1-3), folded sp_def]
  have "mem s' x = mem s x" if "unat x < unat stk \<or> unat stk + 4 * unat n \<le> unat x" for x
    using that I by (intro out) fastforce
  moreover have "words_at (put_tcb t (new_task sp p) s') sp 16 = words_at s' sp 16" by (simp add: words_at_def kstate_simps)
  moreover have "unat stk \<le> unat sp" "unat sp + 64 \<le> unat stk + 4 * unat n" "unat sp mod 8 = 0"
    using initial_sp_bounds [OF assms(1-3)] by (simp_all add: sp_def)
  ultimately show ?thesis
    using s' w assms(4) by (intro exI [of _ "put_tcb t (new_task sp p) s'"] exI [of _ "new_task sp p"]) (simp add: kstate_simps new_task_def)
qed

theorem task_frame_in_stack_witness:
  "\<exists>s' c. os_task_create_internal 0x901 0xA01 0x3000 1 0x801 7 0x8000 128 sample_pools = Some (0, s') \<and> tcb_at s' 0x3000 = Some c \<and>
    unat (0x8000 :: u32) \<le> unat (tcb_sp c) \<and> unat (tcb_sp c) + 64 \<le> unat (0x8000 :: u32) + 4 * unat (128 :: u32) \<and>
    unat (tcb_sp c) mod 8 = 0 \<and> words_at s' (tcb_sp c) 16 = frame_words 0x901 0xA01 0x801 7 \<and>
    (\<forall>x. unat x < unat (0x8000 :: u32) \<or> unat (0x8000 :: u32) + 4 * unat (128 :: u32) \<le> unat x \<longrightarrow>
      mem s' x = mem sample_pools x)"
  by (rule task_frame_in_stack) simp_all

text \<open>
  \<open>os_kstack_alloc\<close> accepts every positive number of words up to the size of a block, but a stack of fewer
  than sixteen words is too small for the initial frame: the new stack pointer lies below the stack, and the
  word there, which belongs to the neighbouring block, is overwritten.
\<close>

theorem small_stack_frame_below_stack:
  fixes stk n :: u32
  assumes "unat n < 16" and "64 \<le> unat stk" and "unat stk + 64 < 2 ^ 32" and "t \<noteq> NULL"
  shows "\<exists>s' c. os_task_create_internal tr ex t p entry arg stk n s = Some (0, s') \<and> tcb_at s' t = Some c \<and>
    tcb_sp c < stk \<and> mem s' (tcb_sp c) = 0"
proof -
  define sp where "sp = ((stk + 4 * n) AND NOT 7) - 64"
  from create_internal_frame [OF assms(4) sp_def, of tr ex p entry arg s] obtain s' where
    s': "os_task_create_internal tr ex t p entry arg stk n s = Some (0, put_tcb t (new_task sp p) s')"
    and w: "words_at s' sp 16 = [0, 0, 0, 0, 0, 0, 0, 0, arg, entry, 0, 0, 0, ex, tr, 0x01000000]" by blast
  have "words_at s' sp 16 ! 0 = 0" by (simp add: w)
  then have m: "mem s' sp = 0" by (simp add: words_at_def)
  have "unat (stk + 4 * n) = unat stk + 4 * unat n" using assms(1,3) by (simp add: unat_word_ariths)
  then have "unat ((stk + 4 * n) AND NOT 7) = (unat stk + 4 * unat n) div 8 * 8" by (simp only: and_not_7)
  moreover have "64 div 8 * 8 \<le> (unat stk + 4 * unat n) div 8 * 8"
    using assms(2) by (intro mult_le_mono1 div_le_mono) simp
  ultimately have "unat sp < unat stk" using assms(1) by (simp add: sp_def unat_sub word_le_nat_alt)
  with s' m assms(4) show ?thesis by (simp add: kstate_simps new_task_def word_less_nat_alt)
qed

theorem small_stack_frame_below_stack_witness:
  "\<exists>s' c. os_task_create_internal 0x901 0xA01 0x3000 1 0x801 7 0x8400 8 sample_pools = Some (0, s') \<and>
    tcb_at s' 0x3000 = Some c \<and> tcb_sp c < 0x8400 \<and> mem s' (tcb_sp c) = 0"
  by (rule small_stack_frame_below_stack) simp_all

end
