(* ===== verification/Port.thy ===== *)
theory Port
  imports Tick Mutex Semaphore Task
begin

text \<open>
  The processor port of \<open>arch/arm_cm/port.c\<close> and \<open>port.h\<close>: the supervisor call with its dispatcher, the
  context switch of PendSV, and the user-side wrappers of \<open>task.c\<close>, \<open>tick.c\<close>, \<open>semaphore.c\<close> and \<open>mutex.c\<close>,
  which are supervisor calls. The processor is a record with the kernel state, the callee-saved registers
  R4 to R11, the two stack pointers, \<open>CONTROL\<close> and the memory-mapped registers. The assembly of the handlers
  is translated instruction by instruction, with the registers R0 to R3 as local names.
\<close>

unbundle bit_operations_syntax

subsection \<open>The processor\<close>

record cpu =
  kst :: kstate
  r4_r11 :: "u32 list"
  psp :: addr
  msp :: addr
  control :: u32
  io :: "addr \<Rightarrow> u32"
  io_log :: "(addr \<times> u32) list"

text \<open>A volatile write to a memory-mapped register; the log records the order of the writes.\<close>

definition io_write :: "addr \<Rightarrow> u32 \<Rightarrow> cpu \<Rightarrow> cpu" where
  "io_write a v c = c\<lparr>io := (io c)(a := v), io_log := io_log c @ [(a, v)]\<rparr>"

text \<open>\<open>stmdb r!, {\<dots>}\<close> stores the registers below the address, the first register lowest; \<open>ldmia r!, {\<dots>}\<close>
  loads them from the address upwards. Both write the moved address back.\<close>

fun store_words :: "addr \<Rightarrow> u32 list \<Rightarrow> kstate \<Rightarrow> kstate" where
  "store_words p [] s = s"
| "store_words p (v # vs) s = store_words (p + 4) vs (store_word p v s)"

definition stmdb :: "addr \<Rightarrow> u32 list \<Rightarrow> kstate \<Rightarrow> addr \<times> kstate" where
  "stmdb p vs s = (let p = p - 4 * of_nat (length vs) in (p, store_words p vs s))"

definition ldmia :: "addr \<Rightarrow> nat \<Rightarrow> kstate \<Rightarrow> u32 list \<times> addr" where
  "ldmia p n s = (words_at s p n, p + 4 * of_nat n)"

subsection \<open>Supervisor calls\<close>

datatype os_syscall_id_t = OS_SYSCALL_YIELD | OS_SYSCALL_DELAY_TICKS | OS_SYSCALL_SEM_TAKE | OS_SYSCALL_SEM_GIVE
  | OS_SYSCALL_MUTEX_LOCK | OS_SYSCALL_MUTEX_UNLOCK | OS_SYSCALL_TASK_CREATE

fun syscall_number :: "os_syscall_id_t \<Rightarrow> u32" where
  "syscall_number OS_SYSCALL_YIELD = 0"
| "syscall_number OS_SYSCALL_DELAY_TICKS = 1"
| "syscall_number OS_SYSCALL_SEM_TAKE = 2"
| "syscall_number OS_SYSCALL_SEM_GIVE = 3"
| "syscall_number OS_SYSCALL_MUTEX_LOCK = 4"
| "syscall_number OS_SYSCALL_MUTEX_UNLOCK = 5"
| "syscall_number OS_SYSCALL_TASK_CREATE = 6"

text \<open>The frame the processor stacks on exception entry.\<close>

record os_exc_frame_t =
  exc_r0 :: u32
  exc_r1 :: u32
  exc_r2 :: u32
  exc_r3 :: u32
  exc_r12 :: u32
  exc_lr :: u32
  exc_pc :: u32
  exc_xpsr :: u32

definition exc_frame_at :: "kstate \<Rightarrow> addr \<Rightarrow> os_exc_frame_t" where
  "exc_frame_at s p = \<lparr>exc_r0 = mem s p, exc_r1 = mem s (p + 4), exc_r2 = mem s (p + 8), exc_r3 = mem s (p + 12),
     exc_r12 = mem s (p + 16), exc_lr = mem s (p + 20), exc_pc = mem s (p + 24), exc_xpsr = mem s (p + 28)\<rparr>"

text \<open>The \<open>switch\<close> of the dispatcher. A function without result gives 0, an unknown number gives -1. The cast to
  \<open>os_syscall_id_t\<close> keeps the low eight bits: the ABI of \<open>arm-none-eabi\<close> gives an enumeration the smallest integer type that
  holds its values.\<close>

definition syscall_switch :: "addr \<Rightarrow> addr \<Rightarrow> u32 \<Rightarrow> u32 \<Rightarrow> kstate \<Rightarrow> (int \<times> kstate) option" where
  "syscall_switch tr ex r0 r1 s =
     (let syscall_id = take_bit 8 r0 in
      if syscall_id = syscall_number OS_SYSCALL_YIELD then do { s \<leftarrow> os_kernel_yield s; Some (0, s) }
      else if syscall_id = syscall_number OS_SYSCALL_DELAY_TICKS then do { s \<leftarrow> os_kernel_delay_ticks r1 s; Some (0, s) }
      else if syscall_id = syscall_number OS_SYSCALL_SEM_TAKE then os_kernel_sem_take r1 s
      else if syscall_id = syscall_number OS_SYSCALL_SEM_GIVE then os_kernel_sem_give r1 s
      else if syscall_id = syscall_number OS_SYSCALL_MUTEX_LOCK then os_kernel_mutex_lock r1 s
      else if syscall_id = syscall_number OS_SYSCALL_MUTEX_UNLOCK then os_kernel_mutex_unlock r1 s
      else if syscall_id = syscall_number OS_SYSCALL_TASK_CREATE then os_kernel_task_create tr ex r1 s
      else Some (-1, s))"

definition os_port_svc_dispatch :: "addr \<Rightarrow> addr \<Rightarrow> addr \<Rightarrow> kstate \<Rightarrow> kstate option" where
  "os_port_svc_dispatch tr ex frame s =
     (if frame = NULL then Some s
      else do {
        let f = exc_frame_at s frame;
        (ret, s) \<leftarrow> syscall_switch tr ex (exc_r0 f) (exc_r1 f) s;
        Some (store_word frame (of_int ret) s)
      })"

text \<open>\<open>SVC_Handler\<close> finds the frame on the process stack or the main stack, by bit 2 of \<open>EXC_RETURN\<close>.\<close>

definition SVC_Handler :: "addr \<Rightarrow> addr \<Rightarrow> u32 \<Rightarrow> cpu \<Rightarrow> cpu option" where
  "SVC_Handler tr ex lr c = do {
     let r0 = (if lr AND 4 = 0 then msp c else psp c);
     s \<leftarrow> os_port_svc_dispatch tr ex r0 (kst c);
     Some (c\<lparr>kst := s\<rparr>)
   }"

text \<open>\<open>svc 0\<close> executed in thread mode: exception entry stacks R0 to R3, R12, LR, PC and xPSR on the stack that
  bit 1 of \<open>CONTROL\<close> selects, the process stack of a task or the main stack during start-up, and the handler runs
  with the corresponding \<open>EXC_RETURN\<close>. The result is the state at the end of the handler: the frame is still on
  the stack, and the exception return, at once or after other tasks have run, pops it. \<open>rest\<close> are the stacked
  registers from R2 on, which the call does not use.\<close>

definition svc :: "addr \<Rightarrow> addr \<Rightarrow> u32 \<Rightarrow> u32 \<Rightarrow> u32 list \<Rightarrow> cpu \<Rightarrow> cpu option" where
  "svc tr ex r0 r1 rest c =
     (if control c AND 2 = 0
      then let (p, s) = stmdb (msp c) (r0 # r1 # rest) (kst c) in SVC_Handler tr ex 0xFFFFFFF9 (c\<lparr>kst := s, msp := p\<rparr>)
      else let (p, s) = stmdb (psp c) (r0 # r1 # rest) (kst c) in SVC_Handler tr ex 0xFFFFFFFD (c\<lparr>kst := s, psp := p\<rparr>))"

text \<open>Exception return to the code that made the call: R0, the result of the inline functions, and the popped frame.\<close>

definition svc_result :: "cpu \<Rightarrow> u32" where
  "svc_result c = mem (kst c) (if control c AND 2 = 0 then msp c else psp c)"

definition exception_return :: "cpu \<Rightarrow> cpu" where
  "exception_return c = (if control c AND 2 = 0 then c\<lparr>msp := msp c + 32\<rparr> else c\<lparr>psp := psp c + 32\<rparr>)"

definition os_port_svc_call0 :: "addr \<Rightarrow> addr \<Rightarrow> os_syscall_id_t \<Rightarrow> u32 \<Rightarrow> u32 list \<Rightarrow> cpu \<Rightarrow> cpu option" where
  "os_port_svc_call0 tr ex syscall_id r1 rest c = svc tr ex (syscall_number syscall_id) r1 rest c"

definition os_port_svc_call1 :: "addr \<Rightarrow> addr \<Rightarrow> os_syscall_id_t \<Rightarrow> u32 \<Rightarrow> u32 list \<Rightarrow> cpu \<Rightarrow> cpu option" where
  "os_port_svc_call1 tr ex syscall_id arg1 rest c = svc tr ex (syscall_number syscall_id) arg1 rest c"

text \<open>No service takes a second argument so far; it is in the stacked R2, and \<open>rest\<close> are the registers from R3 on.\<close>

definition os_port_svc_call2 :: "addr \<Rightarrow> addr \<Rightarrow> os_syscall_id_t \<Rightarrow> u32 \<Rightarrow> u32 \<Rightarrow> u32 list \<Rightarrow> cpu \<Rightarrow> cpu option" where
  "os_port_svc_call2 tr ex syscall_id arg1 arg2 rest c = svc tr ex (syscall_number syscall_id) arg1 (arg2 # rest) c"

definition os_yield :: "addr \<Rightarrow> addr \<Rightarrow> u32 \<Rightarrow> u32 list \<Rightarrow> cpu \<Rightarrow> cpu option" where
  "os_yield tr ex r1 rest c = os_port_svc_call0 tr ex OS_SYSCALL_YIELD r1 rest c"

definition os_delay_ticks :: "addr \<Rightarrow> addr \<Rightarrow> u32 \<Rightarrow> u32 list \<Rightarrow> cpu \<Rightarrow> cpu option" where
  "os_delay_ticks tr ex ticks rest c = os_port_svc_call1 tr ex OS_SYSCALL_DELAY_TICKS ticks rest c"

definition os_sem_take :: "addr \<Rightarrow> addr \<Rightarrow> addr \<Rightarrow> u32 list \<Rightarrow> cpu \<Rightarrow> cpu option" where
  "os_sem_take tr ex sem rest c = os_port_svc_call1 tr ex OS_SYSCALL_SEM_TAKE sem rest c"

definition os_sem_give :: "addr \<Rightarrow> addr \<Rightarrow> addr \<Rightarrow> u32 list \<Rightarrow> cpu \<Rightarrow> cpu option" where
  "os_sem_give tr ex sem rest c = os_port_svc_call1 tr ex OS_SYSCALL_SEM_GIVE sem rest c"

definition os_mutex_lock :: "addr \<Rightarrow> addr \<Rightarrow> addr \<Rightarrow> u32 list \<Rightarrow> cpu \<Rightarrow> cpu option" where
  "os_mutex_lock tr ex mutex rest c = os_port_svc_call1 tr ex OS_SYSCALL_MUTEX_LOCK mutex rest c"

definition os_mutex_unlock :: "addr \<Rightarrow> addr \<Rightarrow> addr \<Rightarrow> u32 list \<Rightarrow> cpu \<Rightarrow> cpu option" where
  "os_mutex_unlock tr ex mutex rest c = os_port_svc_call1 tr ex OS_SYSCALL_MUTEX_UNLOCK mutex rest c"

text \<open>\<open>os_task_create\<close> builds the request in its stack frame, at the address \<open>args\<close>, and passes its address.\<close>

definition os_task_create ::
    "addr \<Rightarrow> addr \<Rightarrow> os_task_priority_t \<Rightarrow> addr \<Rightarrow> addr \<Rightarrow> u32 \<Rightarrow> addr \<Rightarrow> u32 list \<Rightarrow> cpu \<Rightarrow> cpu option" where
  "os_task_create tr ex priority entry arg stack_words args rest c =
     os_port_svc_call1 tr ex OS_SYSCALL_TASK_CREATE args rest (c\<lparr>kst := (kst c)\<lparr>create_args := (create_args (kst c))
       (args \<mapsto> \<lparr>arg_priority = priority, arg_entry = entry, arg_arg = arg, arg_stack_words = stack_words\<rparr>)\<rparr>\<rparr>)"

subsection \<open>Context switch\<close>

definition PendSV_Handler :: "cpu \<Rightarrow> cpu option" where
  "PendSV_Handler c = do {
     let r0 = psp c;
     s \<leftarrow> (if g_first_switch (kst c) = 0 then do {
             let (r0, s) = stmdb r0 (r4_r11 c) (kst c);
             let r1 = r0;
             upd_tcb (os_current_tcb s) (\<lambda>t. t\<lparr>tcb_sp := r1\<rparr>) s
           } else Some ((kst c)\<lparr>g_first_switch := 0\<rparr>));
     s \<leftarrow> os_commit_switch s;
     t \<leftarrow> tcb_at s (os_current_tcb s);
     let (regs, r0) = ldmia (tcb_sp t) 8 s;
     Some (c\<lparr>kst := s, r4_r11 := regs, psp := r0, control := 3\<rparr>)
   }"

text \<open>Exception return loads R0 to R3, R12, LR, PC and xPSR from the frame at the process stack pointer. The
  trampoline then sets R2 and LR to \<open>os_task_exit_trap\<close> and jumps to R1.\<close>

definition os_task_start_trampoline :: "addr \<Rightarrow> os_exc_frame_t \<Rightarrow> os_exc_frame_t" where
  "os_task_start_trampoline ex r = (let r = r\<lparr>exc_r2 := ex\<rparr>; r = r\<lparr>exc_lr := exc_r2 r\<rparr> in r\<lparr>exc_pc := exc_r1 r\<rparr>)"

subsection \<open>Memory\<close>

text \<open>The addresses of \<open>n\<close> words from \<open>p\<close> on.\<close>

definition word_addrs :: "addr \<Rightarrow> nat \<Rightarrow> addr set" where
  "word_addrs p n = (\<lambda>i. p + 4 * of_nat i) ` {..<n}"

lemma store_words_frame: "\<exists>M. store_words p vs s = s\<lparr>mem := M\<rparr>"
proof (induction vs arbitrary: p s)
  case Nil
  show ?case by (auto intro: exI [of _ "mem s"])
next
  case (Cons v vs)
  from Cons [of "p + 4" "store_word p v s"] show ?case by (auto simp: store_word_def)
qed

lemma word_addrs_Suc: "word_addrs p (Suc n) = insert p (word_addrs (p + 4) n)"
  by (auto simp: word_addrs_def lessThan_Suc_eq_insert_0 image_image algebra_simps)

lemma mem_store_words_other: "x \<notin> word_addrs p (length vs) \<Longrightarrow> mem (store_words p vs s) x = mem s x"
  by (induction vs arbitrary: p s) (auto simp: word_addrs_Suc store_word_def)

lemma word_addrs_fresh: "n < 2 ^ 30 \<Longrightarrow> p \<notin> word_addrs (p + 4) n"
proof
  assume n: "n < 2 ^ 30" and "p \<in> word_addrs (p + 4) n"
  then obtain i where i: "i < n" "p = p + 4 + 4 * of_nat i" by (auto simp: word_addrs_def)
  then have "of_nat (4 + 4 * i) = (0 :: u32)" by simp
  then have "(2 :: nat) ^ 32 dvd 4 + 4 * i" using word_of_nat_eq_0_iff [of "4 + 4 * i", where 'a = 32] by simp
  then have "2 ^ 32 \<le> 4 + 4 * i" by (rule dvd_imp_le) simp
  with i n show False by simp
qed

lemma words_at_Suc: "words_at s p (Suc n) = mem s p # words_at s (p + 4) n"
  by (simp add: words_at_def upt_conv_Cons map_Suc_upt [symmetric] algebra_simps del: upt_Suc)

lemma words_at_store_words: "length vs < 2 ^ 30 \<Longrightarrow> words_at (store_words p vs s) p (length vs) = vs"
proof (induction vs arbitrary: p s)
  case (Cons v vs)
  then have "mem (store_words (p + 4) vs (store_word p v s)) p = v"
    using word_addrs_fresh [of "length vs" p] by (simp add: mem_store_words_other store_word_def)
  with Cons show ?case by (simp add: words_at_Suc)
qed (simp add: words_at_def)

lemma words_at_cong: "(\<And>x. x \<in> word_addrs p n \<Longrightarrow> mem s' x = mem s x) \<Longrightarrow> words_at s' p n = words_at s p n"
  by (auto simp: words_at_def word_addrs_def)

lemma sched_same_store_words: "sched_same s (store_words p vs s)"
  using store_words_frame [of p vs s] by auto

end
