(* ===== verification/Port_Properties.thy ===== *)
theory Port_Properties
  imports Port Task_Properties
begin

text \<open>
  What the port promises: the context switch saves and restores the callee-saved registers and the stack
  pointer of every task, a new task starts in its entry function, and a supervisor call has the effect and
  the result of the kernel service it names.
\<close>

unbundle bit_operations_syntax

subsection \<open>Committing a switch\<close>

lemma commit_cases:
  assumes "os_commit_switch s = Some s'"
  obtains "g_next s = NULL" "s' = s"
  | s1 c where "g_next s \<noteq> NULL" "s1 = s \<or> (\<exists>p. tcb_at s (g_current s) = Some p \<and>
      s1 = put_tcb (g_current s) (p\<lparr>tcb_state := OS_TASK_READY\<rparr>) s)"
    "tcb_at s1 (g_next s) = Some c" "s' = put_tcb (g_next s) (c\<lparr>tcb_state := OS_TASK_RUNNING\<rparr>) (s1\<lparr>g_current := g_next s\<rparr>)"
proof (cases "g_next s = NULL")
  case True
  with assms have "s' = s" by (simp add: os_commit_switch_def)
  with True show ?thesis by (rule that(1))
next
  case False
  let ?prev = "g_current s"
  let ?A = "if ?prev \<noteq> NULL \<and> ?prev \<noteq> g_next s then do {
        p \<leftarrow> tcb_at s ?prev;
        if tcb_state p = OS_TASK_RUNNING then upd_tcb ?prev (\<lambda>t. t\<lparr>tcb_state := OS_TASK_READY\<rparr>) s else Some s
      } else Some s"
  have "Option.bind ?A (\<lambda>s. upd_tcb (g_next s) (\<lambda>t. t\<lparr>tcb_state := OS_TASK_RUNNING\<rparr>) (s\<lparr>g_current := g_next s\<rparr>)) = Some s'"
    using assms False by (simp add: os_commit_switch_def Let_def)
  then obtain s1 where s1: "?A = Some s1"
    and s': "upd_tcb (g_next s1) (\<lambda>t. t\<lparr>tcb_state := OS_TASK_RUNNING\<rparr>) (s1\<lparr>g_current := g_next s1\<rparr>) = Some s'"
    unfolding bind_eq_Some_conv by blast
  have d: "s1 = s \<or> (\<exists>p. tcb_at s ?prev = Some p \<and> s1 = put_tcb ?prev (p\<lparr>tcb_state := OS_TASK_READY\<rparr>) s)"
    using s1 by (auto simp: upd_tcb_def bind_eq_Some_conv split: if_splits)
  then have "g_next s1 = g_next s" by (auto simp: kstate_simps)
  with s' obtain c where "tcb_at s1 (g_next s) = Some c"
    "s' = put_tcb (g_next s) (c\<lparr>tcb_state := OS_TASK_RUNNING\<rparr>) (s1\<lparr>g_current := g_next s\<rparr>)"
    by (auto simp: upd_tcb_def bind_eq_Some_conv kstate_simps)
  then show ?thesis by (rule that(2) [OF False d])
qed

lemma commit_fields:
  assumes "os_commit_switch s = Some s'"
  shows "mem s' = mem s" "g_current s' = (if g_next s = NULL then g_current s else g_next s)"
    "map_option tcb_sp (tcb_at s' x) = map_option tcb_sp (tcb_at s x)" "g_first_switch s' = g_first_switch s"
    "pendsv s' = pendsv s" "primask s' = primask s" "g_next s' = g_next s"
proof -
  have p: "map_option tcb_sp (tcb_at (put_tcb t c' r) x) = map_option tcb_sp (tcb_at r x)"
    if "tcb_at r t = Some c" "tcb_sp c' = tcb_sp c" for r t c c'
    using that tcb_at_nonnull [OF that(1)] by (simp add: kstate_simps)
  show "mem s' = mem s" "g_current s' = (if g_next s = NULL then g_current s else g_next s)" "g_first_switch s' = g_first_switch s"
    "pendsv s' = pendsv s" "primask s' = primask s" "g_next s' = g_next s"
    by (rule commit_cases [OF assms], simp, fastforce simp: kstate_simps)+
  show "map_option tcb_sp (tcb_at s' x) = map_option tcb_sp (tcb_at s x)"
  proof (rule commit_cases [OF assms])
    fix s1 c
    assume s1: "s1 = s \<or> (\<exists>p. tcb_at s (g_current s) = Some p \<and> s1 = put_tcb (g_current s) (p\<lparr>tcb_state := OS_TASK_READY\<rparr>) s)"
      and c: "tcb_at s1 (g_next s) = Some c" and s': "s' = put_tcb (g_next s) (c\<lparr>tcb_state := OS_TASK_RUNNING\<rparr>) (s1\<lparr>g_current := g_next s\<rparr>)"
    have "map_option tcb_sp (tcb_at s' x) = map_option tcb_sp (tcb_at s1 x)"
      unfolding s' using c by (subst p) (simp_all add: kstate_simps)
    also have "\<dots> = map_option tcb_sp (tcb_at s x)" using s1 p by fastforce
    finally show ?thesis .
  qed simp
qed

lemma kernel_inv_sp: "kernel_inv a \<Longrightarrow> kernel_inv (a_upd t (\<lambda>c. c\<lparr>tcb_sp := x\<rparr>) a)"
  using objects_inv_keeps [of "\<lambda>c. c\<lparr>tcb_sp := x\<rparr>" a t]
  by (auto simp: kernel_inv_def no_blocked_on_def astate_simps)

lemma link_free_sp [simp, intro]: "link_free (\<lambda>c. c\<lparr>tcb_sp := x\<rparr>)"
  by (simp add: link_free_def blank_tcb_def wait_links_def timeout_links_def)

text \<open>Saving the registers of the current task.\<close>

definition save_context :: "cpu \<Rightarrow> kstate option" where
  "save_context c = (if g_first_switch (kst c) = 0 then do {
       let (r0, s) = stmdb (psp c) (r4_r11 c) (kst c);
       upd_tcb (g_current s) (\<lambda>t. t\<lparr>tcb_sp := r0\<rparr>) s
     } else Some ((kst c)\<lparr>g_first_switch := 0\<rparr>))"

lemma PendSV_Handler_eq:
  "PendSV_Handler c = do {
     s \<leftarrow> save_context c;
     s \<leftarrow> os_commit_switch s;
     t \<leftarrow> tcb_at s (g_current s);
     Some (c\<lparr>kst := s, r4_r11 := words_at s (tcb_sp t) 8, psp := tcb_sp t + 32, control := 3\<rparr>)
   }"
  by (simp add: PendSV_Handler_def save_context_def os_current_tcb_def ldmia_def Let_def case_prod_unfold)

lemma stmdb_fields:
  "g_current (snd (stmdb p vs s)) = g_current s" "g_next (snd (stmdb p vs s)) = g_next s"
  "g_first_switch (snd (stmdb p vs s)) = g_first_switch s" "sched_same s (snd (stmdb p vs s))"
  using store_words_frame [of "p - 4 * of_nat (length vs)" vs s] by (auto simp: stmdb_def Let_def)

lemma save_context_refines:
  assumes R: "kernel_rel (kst c) a" and I: "kernel_inv a" and len: "length (r4_r11 c) = 8"
    and cur: "g_first_switch (kst c) = 0 \<Longrightarrow> g_current (kst c) \<noteq> NULL"
  shows "\<exists>s b. save_context c = Some s \<and> kernel_rel s b \<and> kernel_inv b \<and> waitq b = waitq a \<and>
    timeoutq b = timeoutq a \<and> g_current s = g_current (kst c) \<and> g_next s = g_next (kst c) \<and> g_first_switch s = 0 \<and>
    (if g_first_switch (kst c) = 0
     then words_at s (psp c - 32) 8 = r4_r11 c \<and> map_option tcb_sp (tcb_at s (g_current s)) = Some (psp c - 32)
     else mem s = mem (kst c))"
proof (cases "g_first_switch (kst c) = 0")
  case False
  let ?s = "(kst c)\<lparr>g_first_switch := 0\<rparr>"
  have "sched_same (kst c) ?s" by (simp add: sched_same_def kstate_simps)
  from kernel_rel_same [OF R this] I False show ?thesis
    by (intro exI [of _ ?s] exI [of _ "a\<lparr>kern := core ?s\<rparr>"]) (simp add: save_context_def)
next
  case True
  let ?p = "psp c - 32" and ?t = "g_current (kst c)"
  let ?s = "store_words ?p (r4_r11 c) (kst c)"
  have st: "stmdb (psp c) (r4_r11 c) (kst c) = (?p, ?s)" by (simp add: stmdb_def len Let_def)
  note S = sched_same_store_words [where s = "kst c" and p = ?p and vs = "r4_r11 c"]
  note R1 = kernel_rel_same [OF R S]
  have I1: "kernel_inv (a\<lparr>kern := core ?s\<rparr>)" using R1(2) I by simp
  have f: "g_current ?s = ?t" "g_next ?s = g_next (kst c)" "g_first_switch ?s = 0"
    using stmdb_fields [where p = "psp c" and vs = "r4_r11 c" and s = "kst c"] True by (simp_all add: st)
  have "g_current (kern a) = ?t" using kernel_rel_globals [OF R] by simp
  then have "valid_task a ?t" using cur [OF True] kernel_invD(2) [OF I] by (auto simp: lists_inv_def current_ok_def)
  then have v: "valid_task (a\<lparr>kern := core ?s\<rparr>) ?t"
    using R S by (auto simp: valid_task_def kernel_rel_def tcb_at_core sched_same_def)
  from upd_tcb_refines [OF R1(1) v, of "\<lambda>t. t\<lparr>tcb_sp := ?p\<rparr>"] obtain s where
    s: "upd_tcb ?t (\<lambda>t. t\<lparr>tcb_sp := ?p\<rparr>) ?s = Some s"
    and Rs: "kernel_rel s (a_upd ?t (\<lambda>t. t\<lparr>tcb_sp := ?p\<rparr>) (a\<lparr>kern := core ?s\<rparr>))" by blast
  have "words_at ?s ?p 8 = r4_r11 c" using words_at_store_words [of "r4_r11 c" ?p "kst c"] len by simp
  moreover have "mem s = mem ?s" "map_option tcb_sp (tcb_at s ?t) = Some ?p" "g_current s = ?t"
    "g_next s = g_next (kst c)" "g_first_switch s = 0"
    using s f tcb_at_nonnull [of ?s ?t] by (auto simp: upd_tcb_def kstate_simps bind_eq_Some_conv)
  moreover have "save_context c = Some s" using True s f by (simp add: save_context_def st)
  ultimately show ?thesis
    using True Rs kernel_inv_sp [OF I1] by (intro exI [of _ s] exI) (auto simp: words_at_def astate_simps)
qed

lemma a_commit_running:
  assumes "g_next (kern a) \<noteq> NULL" and "next_ok a"
  shows "\<exists>c. a_tcb (a_commit a) (g_next (kern a)) = Some c \<and> tcb_state c = OS_TASK_RUNNING"
  using assms by (auto simp: a_commit_def Let_def next_ok_def astate_simps kstate_simps)

text \<open>
  C22: The context switch. When a task has been chosen, the PendSV handler returns and keeps the kernel's
  invariant and all queues. Except for the very first switch it pushes R4 to R11 on the stack of the task that
  was running and records the resulting stack pointer in its control block. The chosen task becomes the
  current one and is running; its R4 to R11 are loaded from the stack pointer in its control block, the
  process stack pointer is left just above them, and thread mode is unprivileged from then on.
\<close>

theorem PendSV_switches:
  assumes "kernel_rel (kst c) a" and "kernel_inv a" and "length (r4_r11 c) = 8" and "g_next (kst c) \<noteq> NULL"
    and "g_first_switch (kst c) = 0 \<Longrightarrow> g_current (kst c) \<noteq> NULL"
  shows "\<exists>c' a' n. PendSV_Handler c = Some c' \<and> kernel_rel (kst c') a' \<and> kernel_inv a' \<and>
    waitq a' = waitq a \<and> timeoutq a' = timeoutq a \<and> g_first_switch (kst c') = 0 \<and>
    (g_first_switch (kst c) = 0 \<longrightarrow> words_at (kst c') (psp c - 32) 8 = r4_r11 c \<and>
      map_option tcb_sp (tcb_at (kst c') (g_current (kst c))) = Some (psp c - 32)) \<and>
    g_current (kst c') = g_next (kst c) \<and> tcb_at (kst c') (g_next (kst c)) = Some n \<and>
    tcb_state n = OS_TASK_RUNNING \<and> r4_r11 c' = words_at (kst c') (tcb_sp n) 8 \<and> psp c' = tcb_sp n + 32 \<and>
    control c' = 3"
proof -
  from save_context_refines [OF assms(1-3,5)] obtain s b where
    s: "save_context c = Some s" "kernel_rel s b" "kernel_inv b" "waitq b = waitq a" "timeoutq b = timeoutq a"
      "g_current s = g_current (kst c)" "g_next s = g_next (kst c)" "g_first_switch s = 0"
    and sv: "g_first_switch (kst c) = 0 \<Longrightarrow> words_at s (psp c - 32) 8 = r4_r11 c \<and>
      map_option tcb_sp (tcb_at s (g_current s)) = Some (psp c - 32)" by (metis (no_types, lifting))
  from commit_refines [OF s(2) kernel_invD(1) [OF s(3)]] obtain s' where
    s': "os_commit_switch s = Some s'" "kernel_rel s' (a_commit b)" by blast
  note f = commit_fields [OF s'(1)]
  have nx: "g_next (kern b) = g_next (kst c)" using kernel_rel_globals [OF s(2)] s by simp
  from a_commit_running [of b] kernel_invD(3) [OF s(3)] assms(4) obtain d where
    d: "a_tcb (a_commit b) (g_next (kst c)) = Some d" "tcb_state d = OS_TASK_RUNNING" by (auto simp: nx)
  from kernel_rel_tcbD [OF s'(2) d(1)] obtain n where n: "tcb_at s' (g_next (kst c)) = Some n" "blank_tcb n = d" by blast
  have "tcb_state n = OS_TASK_RUNNING" using d(2) n(2) by auto
  moreover have "g_current s' = g_next (kst c)" "g_first_switch s' = 0" using f s assms(4) by simp_all
  moreover have "words_at s' p 8 = words_at s p 8" for p using f(1) by (simp only: words_at_def)
  ultimately show ?thesis
    using s s' f(3) [of "g_current (kst c)"] n sv kernel_inv_commit [OF s(3)]
    by (simp add: PendSV_Handler_eq del: map_option_eq_Some)
      (intro exI [of _ "a_commit b"], simp add: astate_simps del: map_option_eq_Some)
qed

lemma kernel_inv_next:
  assumes I: "kernel_inv a" and c: "a_tcb a t = Some c" "tcb_state c \<noteq> OS_TASK_BLOCKED"
  shows "kernel_inv (a_kern (g_next_update (\<lambda>_. t)) a)"
proof -
  let ?a = "a_kern (g_next_update (\<lambda>_. t)) a"
  note D = kernel_invD [OF I]
  have "lists_inv ?a = lists_inv a" by (rule lists_inv_cong) (simp_all add: astate_simps kstate_simps)
  moreover have "next_ok ?a" using c by (auto simp: next_ok_def astate_simps kstate_simps)
  moreover have "valid_task ?a = valid_task a" by (simp add: valid_task_def fun_eq_iff astate_simps kstate_simps)
  ultimately show ?thesis
    using D by (simp add: kernel_inv_def objects_inv_def sched_inv_def sems_ok_def mutexes_ok_def no_blocked_on_def
        astate_simps kstate_simps)
qed

text \<open>The sample kernel about to switch from the low task to the idle task.\<close>

definition sample_cpu :: cpu where
  "sample_cpu = \<lparr>kst = sample\<lparr>g_next := 0x100, pendsv := True\<rparr>, r4_r11 = [4, 5, 6, 7, 8, 9, 10, 11], psp = 0x9000,
     msp = 0x20008000, control = 3, io = (\<lambda>_. 0), io_log = []\<rparr>"

definition sample_cpu_a :: astate where
  "sample_cpu_a = a_kern (pendsv_update (\<lambda>_. True)) (a_kern (g_next_update (\<lambda>_. 0x100)) sample_a)"

lemma sample_cpu_rel: "kernel_rel (kst sample_cpu) sample_cpu_a"
  using kernel_rel_pendsv [OF kernel_rel_g_next [OF sample_rel, of "0x100"], of True]
  by (simp add: sample_cpu_def sample_cpu_a_def)

lemma sample_cpu_inv: "kernel_inv sample_cpu_a"
  using kernel_inv_next [OF sample_inv, of "0x100"] sample_a_tcb by (simp add: sample_cpu_a_def sample_task_defs)

theorem PendSV_switches_witness:
  "\<exists>c' a' n. PendSV_Handler sample_cpu = Some c' \<and> kernel_rel (kst c') a' \<and> kernel_inv a' \<and>
    waitq a' = waitq sample_cpu_a \<and> timeoutq a' = timeoutq sample_cpu_a \<and> g_first_switch (kst c') = 0 \<and>
    (g_first_switch (kst sample_cpu) = 0 \<longrightarrow> words_at (kst c') (psp sample_cpu - 32) 8 = r4_r11 sample_cpu \<and>
      map_option tcb_sp (tcb_at (kst c') (g_current (kst sample_cpu))) = Some (psp sample_cpu - 32)) \<and>
    g_current (kst c') = g_next (kst sample_cpu) \<and> tcb_at (kst c') (g_next (kst sample_cpu)) = Some n \<and>
    tcb_state n = OS_TASK_RUNNING \<and> r4_r11 c' = words_at (kst c') (tcb_sp n) 8 \<and> psp c' = tcb_sp n + 32 \<and>
    control c' = 3"
  by (rule PendSV_switches [OF sample_cpu_rel sample_cpu_inv]) (simp_all add: sample_cpu_def)

lemma save_context_saves:
  assumes "save_context c = Some s" and "g_first_switch (kst c) = 0" and "length (r4_r11 c) = 8"
  shows "words_at s (psp c - 32) 8 = r4_r11 c" "map_option tcb_sp (tcb_at s (g_current (kst c))) = Some (psp c - 32)"
    "x \<notin> word_addrs (psp c - 32) 8 \<Longrightarrow> mem s x = mem (kst c) x" "t \<noteq> g_current (kst c) \<Longrightarrow> tcb_at s t = tcb_at (kst c) t"
    "g_current s = g_current (kst c)" "g_next s = g_next (kst c)"
proof -
  let ?s = "store_words (psp c - 32) (r4_r11 c) (kst c)"
  have st: "stmdb (psp c) (r4_r11 c) (kst c) = (psp c - 32, ?s)" by (simp add: stmdb_def assms(3) Let_def)
  have f: "g_current ?s = g_current (kst c)" "g_next ?s = g_next (kst c)" "tcb_at ?s = tcb_at (kst c)"
    using store_words_frame [of "psp c - 32" "r4_r11 c" "kst c"] by (auto simp: kstate_simps)
  from assms(1,2) obtain k where k: "tcb_at ?s (g_current (kst c)) = Some k"
    and s: "s = put_tcb (g_current (kst c)) (k\<lparr>tcb_sp := psp c - 32\<rparr>) ?s"
    by (auto simp: save_context_def st f upd_tcb_def bind_eq_Some_conv)
  note nn = tcb_at_nonnull [OF k]
  have m: "mem s = mem ?s" by (simp add: s kstate_simps)
  show "words_at s (psp c - 32) 8 = r4_r11 c"
    using words_at_store_words [of "r4_r11 c" "psp c - 32" "kst c"] assms(3) m by (simp add: words_at_def)
  show "map_option tcb_sp (tcb_at s (g_current (kst c))) = Some (psp c - 32)" using nn by (simp add: s kstate_simps)
  show "mem s x = mem (kst c) x" if "x \<notin> word_addrs (psp c - 32) 8"
    using that mem_store_words_other [of x "psp c - 32" "r4_r11 c" "kst c"] assms(3) m by simp
  show "tcb_at s t = tcb_at (kst c) t" if "t \<noteq> g_current (kst c)" using that nn f by (simp add: s kstate_simps)
  show "g_current s = g_current (kst c)" "g_next s = g_next (kst c)" using f by (simp_all add: s kstate_simps)
qed

lemma PendSV_Handler_Some:
  assumes "PendSV_Handler c = Some c'"
  obtains s s' t where "save_context c = Some s" "os_commit_switch s = Some s'" "tcb_at s' (g_current s') = Some t"
    "c' = c\<lparr>kst := s', r4_r11 := words_at s' (tcb_sp t) 8, psp := tcb_sp t + 32, control := 3\<rparr>"
  using assms by (auto simp: PendSV_Handler_eq bind_eq_Some_conv)

text \<open>
  C8: Context switches are transparent to a task. If a running task is switched out, and at a later switch
  back to it its saved stack pointer and the eight words there are what the first switch left, and the task
  switched out by the second switch has its stack elsewhere, then R4 to R11 and the process stack
  pointer are again exactly what they were.
\<close>

theorem context_switch_round_trip:
  assumes "PendSV_Handler c = Some c1" and "g_first_switch (kst c) = 0" and "length (r4_r11 c) = 8"
    and "PendSV_Handler c2 = Some c3" and "g_first_switch (kst c2) = 0" and "length (r4_r11 c2) = 8"
    and "g_next (kst c2) = g_current (kst c)" and "g_current (kst c2) \<noteq> g_current (kst c)"
    and "map_option tcb_sp (tcb_at (kst c2) (g_current (kst c))) = map_option tcb_sp (tcb_at (kst c1) (g_current (kst c)))"
    and "words_at (kst c2) (psp c - 32) 8 = words_at (kst c1) (psp c - 32) 8"
    and "word_addrs (psp c - 32) 8 \<inter> word_addrs (psp c2 - 32) 8 = {}"
  shows "r4_r11 c3 = r4_r11 c \<and> psp c3 = psp c"
proof -
  let ?t = "g_current (kst c)" and ?p = "psp c - 32"
  from assms(1) obtain s s' k where s: "save_context c = Some s" "os_commit_switch s = Some s'" "kst c1 = s'"
    by (rule PendSV_Handler_Some) simp
  note v = save_context_saves [OF s(1) assms(2,3)] and f = commit_fields [OF s(2)]
  have w1: "words_at (kst c1) ?p 8 = r4_r11 c" "map_option tcb_sp (tcb_at (kst c1) ?t) = Some ?p"
    using v(1,2) f(1,3) s(3) by (simp_all add: words_at_def)
  from v(2) have nn: "?t \<noteq> NULL" by auto
  from assms(4) obtain r r' n where r: "save_context c2 = Some r" "os_commit_switch r = Some r'"
    "tcb_at r' (g_current r') = Some n" "r4_r11 c3 = words_at r' (tcb_sp n) 8" "psp c3 = tcb_sp n + 32"
    by (rule PendSV_Handler_Some) simp
  note v2 = save_context_saves [OF r(1) assms(5,6)] and f2 = commit_fields [OF r(2)]
  have "g_current r' = ?t" using f2(2) v2(6) assms(7) nn by simp
  then have "Some (tcb_sp n) = map_option tcb_sp (tcb_at r ?t)" using r(3) f2(3) [of ?t] by simp
  also have "\<dots> = Some ?p" using v2(4) [of ?t] assms(8,9) w1(2) by simp
  finally have n: "tcb_sp n = ?p" by simp
  have "words_at r' ?p 8 = words_at r ?p 8" using f2(1) by (simp only: words_at_def)
  also have "\<dots> = words_at (kst c2) ?p 8" using v2(3) assms(11) by (intro words_at_cong) blast
  finally show ?thesis using r(4,5) n w1(1) assms(10) by simp
qed

definition sample_cpu1 :: cpu where
  "sample_cpu1 = the (PendSV_Handler sample_cpu)"

text \<open>Later the low task is chosen again.\<close>

definition sample_cpu2 :: cpu where
  "sample_cpu2 = sample_cpu1\<lparr>kst := (kst sample_cpu1)\<lparr>g_next := 0x200\<rparr>\<rparr>"

definition sample_cpu3 :: cpu where
  "sample_cpu3 = the (PendSV_Handler sample_cpu2)"

lemma sample_switches:
  "PendSV_Handler sample_cpu = Some sample_cpu1" "PendSV_Handler sample_cpu2 = Some sample_cpu3"
proof -
  have "map_option psp (PendSV_Handler sample_cpu) \<noteq> None" "map_option psp (PendSV_Handler sample_cpu2) \<noteq> None"
    by code_simp+
  then show "PendSV_Handler sample_cpu = Some sample_cpu1" "PendSV_Handler sample_cpu2 = Some sample_cpu3"
    by (auto simp: sample_cpu1_def sample_cpu3_def)
qed

theorem context_switch_round_trip_witness:
  "r4_r11 sample_cpu3 = r4_r11 sample_cpu \<and> psp sample_cpu3 = psp sample_cpu"
  by (rule context_switch_round_trip [OF sample_switches(1) _ _ sample_switches(2)]) code_simp+

lemma save_context_frame:
  assumes "save_context c = Some s" and "length (r4_r11 c) = 8"
  shows "g_first_switch (kst c) \<noteq> 0 \<or> x \<notin> word_addrs (psp c - 32) 8 \<Longrightarrow> mem s x = mem (kst c) x"
    "g_first_switch (kst c) \<noteq> 0 \<or> t \<noteq> g_current (kst c) \<Longrightarrow> tcb_at s t = tcb_at (kst c) t" "g_next s = g_next (kst c)"
  using assms save_context_saves(3,4,6) [OF assms(1) _ assms(2)]
  by (cases "g_first_switch (kst c) = 0", auto simp: save_context_def kstate_simps)+

text \<open>
  C25: A new task starts in its entry function. When PendSV switches to a task whose stack holds the frame
  built at its creation, exception return enters the trampoline in Thumb state, and the trampoline jumps to
  the entry function with the argument in R0 and with \<open>os_task_exit_trap\<close> as the return address; R4 to R11
  are zero, and \<open>CONTROL\<close> is 3: the task runs unprivileged on the process stack.
\<close>

theorem new_task_starts_at_entry:
  assumes "PendSV_Handler c = Some c'" and "length (r4_r11 c) = 8" and "g_next (kst c) = t" and "t \<noteq> NULL"
    and "tcb_at (kst c) t = Some k" and "words_at (kst c) (tcb_sp k) 16 = frame_words tr ex entry arg"
    and "g_first_switch (kst c) \<noteq> 0 \<or> t \<noteq> g_current (kst c) \<and> word_addrs (tcb_sp k) 16 \<inter> word_addrs (psp c - 32) 8 = {}"
  shows "exc_pc (exc_frame_at (kst c') (psp c')) = tr \<and> exc_xpsr (exc_frame_at (kst c') (psp c')) = 0x01000000 \<and>
    r4_r11 c' = replicate 8 0 \<and> control c' = 3 \<and>
    (let r = os_task_start_trampoline ex (exc_frame_at (kst c') (psp c'))
     in exc_pc r = entry \<and> exc_r0 r = arg \<and> exc_lr r = ex)"
proof -
  from assms(1) obtain s s' n where s: "save_context c = Some s" "os_commit_switch s = Some s'"
    "tcb_at s' (g_current s') = Some n" "kst c' = s'" "r4_r11 c' = words_at s' (tcb_sp n) 8" "psp c' = tcb_sp n + 32"
    "control c' = 3" by (rule PendSV_Handler_Some) simp
  note v = save_context_frame [OF s(1) assms(2)] and f = commit_fields [OF s(2)]
  have "g_current s' = t" using f(2) v(3) assms(3,4) by simp
  then have "Some (tcb_sp n) = Some (tcb_sp k)"
    using s(3) f(3) [of t] v(2) [of t] assms(5,7) by auto
  then have n: "tcb_sp n = tcb_sp k" by simp
  have "words_at s' (tcb_sp k) 16 = words_at (kst c) (tcb_sp k) 16"
    using f(1) v(1) assms(7) by (intro words_at_cong) auto
  with assms(6) have w: "words_at s' (tcb_sp k) 16 = frame_words tr ex entry arg" by simp
  have 8: "[0..<8] = [0, 1, 2, 3, 4, 5, 6, 7]" by (simp add: upt_rec)
  from w have "words_at s' (tcb_sp k) 8 = replicate 8 0"
    by (simp add: words_at_def frame_words_def upt_16 8 numeral_eq_Suc)
  moreover from w have "exc_frame_at s' (tcb_sp k + 32) = \<lparr>exc_r0 = arg, exc_r1 = entry, exc_r2 = 0, exc_r3 = 0,
      exc_r12 = 0, exc_lr = ex, exc_pc = tr, exc_xpsr = 0x01000000\<rparr>"
    by (simp add: words_at_def frame_words_def upt_16 exc_frame_at_def add.commute)
  ultimately show ?thesis
    unfolding s(4-7) n by (simp add: os_task_start_trampoline_def Let_def)
qed

text \<open>The sample kernel after it has created a task of medium priority, which it has chosen to run.\<close>

definition sample_started :: cpu where
  "sample_started = sample_cpu\<lparr>kst := snd (the (os_kernel_task_create 0x901 0xA01 0x6000 sample_pools))\<rparr>"

theorem new_task_starts_at_entry_witness:
  "let c' = the (PendSV_Handler sample_started) in
    exc_pc (exc_frame_at (kst c') (psp c')) = 0x901 \<and> exc_xpsr (exc_frame_at (kst c') (psp c')) = 0x01000000 \<and>
    r4_r11 c' = replicate 8 0 \<and> control c' = 3 \<and>
    (let r = os_task_start_trampoline 0xA01 (exc_frame_at (kst c') (psp c'))
     in exc_pc r = 0x801 \<and> exc_r0 r = 7 \<and> exc_lr r = 0xA01)"
proof -
  have "map_option psp (PendSV_Handler sample_started) \<noteq> None" by code_simp
  then have p: "PendSV_Handler sample_started = Some (the (PendSV_Handler sample_started))" by auto
  have "map_option tcb_sp (tcb_at (kst sample_started) 0x3000) = Some 0x81C0" by code_simp
  then obtain k where k: "tcb_at (kst sample_started) 0x3000 = Some k" "tcb_sp k = 0x81C0" by auto
  show ?thesis
    unfolding Let_def
    by (rule new_task_starts_at_entry [OF p _ _ _ k(1), unfolded k(2) Let_def]) code_simp+
qed

subsection \<open>Supervisor calls\<close>

text \<open>The kernel service behind each number.\<close>

fun kernel_service :: "addr \<Rightarrow> addr \<Rightarrow> os_syscall_id_t \<Rightarrow> u32 \<Rightarrow> kstate \<Rightarrow> (int \<times> kstate) option" where
  "kernel_service tr ex OS_SYSCALL_YIELD x s = map_option (Pair 0) (os_kernel_yield s)"
| "kernel_service tr ex OS_SYSCALL_DELAY_TICKS x s = map_option (Pair 0) (os_kernel_delay_ticks x s)"
| "kernel_service tr ex OS_SYSCALL_SEM_TAKE x s = os_kernel_sem_take x s"
| "kernel_service tr ex OS_SYSCALL_SEM_GIVE x s = os_kernel_sem_give x s"
| "kernel_service tr ex OS_SYSCALL_MUTEX_LOCK x s = os_kernel_mutex_lock x s"
| "kernel_service tr ex OS_SYSCALL_MUTEX_UNLOCK x s = os_kernel_mutex_unlock x s"
| "kernel_service tr ex OS_SYSCALL_TASK_CREATE x s = os_kernel_task_create tr ex x s"

lemma syscall_number_byte [simp]: "take_bit 8 (syscall_number k) = syscall_number k"
  by (cases k) simp_all

lemma syscall_switch_id:
  "take_bit 8 r0 = syscall_number k \<Longrightarrow> syscall_switch tr ex r0 x s = kernel_service tr ex k x s"
  by (cases k) (simp_all add: syscall_switch_def Let_def map_conv_bind_option o_def)

lemma syscall_switch_service: "syscall_switch tr ex (syscall_number k) x s = kernel_service tr ex k x s"
  by (simp add: syscall_switch_id)

lemma syscall_switch_unknown:
  assumes "\<And>k. take_bit 8 n \<noteq> syscall_number k"
  shows "syscall_switch tr ex n x s = Some (-1, s)"
  using assms [of OS_SYSCALL_YIELD] assms [of OS_SYSCALL_DELAY_TICKS] assms [of OS_SYSCALL_SEM_TAKE]
    assms [of OS_SYSCALL_SEM_GIVE] assms [of OS_SYSCALL_MUTEX_LOCK] assms [of OS_SYSCALL_MUTEX_UNLOCK]
    assms [of OS_SYSCALL_TASK_CREATE]
  by (simp add: syscall_switch_def Let_def)

text \<open>The dispatcher on a frame that has just been pushed.\<close>

lemma dispatch_frame:
  assumes "p \<noteq> NULL" and "length rest = 6"
  shows "os_port_svc_dispatch tr ex p (store_words p (r0 # r1 # rest) s) =
    map_option (\<lambda>(r, s'). store_word p (of_int r) s') (syscall_switch tr ex r0 r1 (store_words p (r0 # r1 # rest) s))"
proof -
  let ?s = "store_words p (r0 # r1 # rest) s"
  have "words_at ?s p (Suc (Suc 6)) = r0 # r1 # rest"
    using words_at_store_words [of "r0 # r1 # rest" p s] assms(2) by simp
  then have "mem ?s p = r0" "mem ?s (p + 4) = r1" by (simp_all only: words_at_Suc list.inject)
  with assms(1) show ?thesis
    by (simp add: os_port_svc_dispatch_def exc_frame_at_def map_conv_bind_option o_def case_prod_unfold Let_def
        del: store_words.simps)
qed

text \<open>A supervisor call of a task, on its process stack, and one during start-up, on the main stack.\<close>

lemma svc_eq:
  assumes "control c AND 2 \<noteq> 0" and "psp c \<noteq> 32" and "length rest = 6"
  shows "svc tr ex r0 r1 rest c = map_option (\<lambda>(r, s). c\<lparr>psp := psp c - 32, kst := store_word (psp c - 32) (of_int r) s\<rparr>)
    (syscall_switch tr ex r0 r1 (store_words (psp c - 32) (r0 # r1 # rest) (kst c)))"
  using assms
  by (simp add: svc_def stmdb_def SVC_Handler_def dispatch_frame map_conv_bind_option o_def case_prod_unfold Let_def
      del: store_words.simps)

lemma svc_main_eq:
  assumes "control c AND 2 = 0" and "msp c \<noteq> 32" and "length rest = 6"
  shows "svc tr ex r0 r1 rest c = map_option (\<lambda>(r, s). c\<lparr>msp := msp c - 32, kst := store_word (msp c - 32) (of_int r) s\<rparr>)
    (syscall_switch tr ex r0 r1 (store_words (msp c - 32) (r0 # r1 # rest) (kst c)))"
  using assms
  by (simp add: svc_def stmdb_def SVC_Handler_def dispatch_frame map_conv_bind_option o_def case_prod_unfold Let_def
      del: store_words.simps)

text \<open>
  C21: A supervisor call runs exactly the kernel service its number names, on the kernel state with the
  exception frame pushed on the task's stack, and the task finds the result of the service in R0.
\<close>

theorem svc_call_runs_service:
  assumes "control c AND 2 \<noteq> 0" and "psp c \<noteq> 32" and "length rest = 6"
  shows "os_port_svc_call1 tr ex k x rest c = map_option
      (\<lambda>(r, s'). c\<lparr>psp := psp c - 32, kst := store_word (psp c - 32) (of_int r) s'\<rparr>)
      (kernel_service tr ex k x (store_words (psp c - 32) (syscall_number k # x # rest) (kst c))) \<and>
    (\<forall>r s'. kernel_service tr ex k x (store_words (psp c - 32) (syscall_number k # x # rest) (kst c)) = Some (r, s') \<longrightarrow>
      map_option svc_result (os_port_svc_call1 tr ex k x rest c) = Some (of_int r))"
  using assms
  by (auto simp: os_port_svc_call1_def svc_eq syscall_switch_service svc_result_def store_word_def simp del: store_words.simps)

theorem svc_call_runs_service_witness:
  "os_port_svc_call1 0x901 0xA01 OS_SYSCALL_SEM_TAKE 0x2100 [0, 0, 0, 0, 0, 0] sample_cpu = map_option
      (\<lambda>(r, s'). sample_cpu\<lparr>psp := psp sample_cpu - 32, kst := store_word (psp sample_cpu - 32) (of_int r) s'\<rparr>)
      (kernel_service 0x901 0xA01 OS_SYSCALL_SEM_TAKE 0x2100 (store_words (psp sample_cpu - 32)
        (syscall_number OS_SYSCALL_SEM_TAKE # 0x2100 # [0, 0, 0, 0, 0, 0]) (kst sample_cpu)))"
  using svc_call_runs_service [of sample_cpu "[0, 0, 0, 0, 0, 0]"] by (simp add: sample_cpu_def)

text \<open>
  A call whose number is unknown in its low eight bits is refused: R0 of the caller becomes -1 and the kernel state is otherwise
  what it was; a null frame is ignored.
\<close>

theorem svc_unknown_refused:
  assumes "\<And>k. take_bit 8 (mem s frame) \<noteq> syscall_number k"
  shows "os_port_svc_dispatch tr ex frame s = Some (if frame = NULL then s else store_word frame (- 1) s)"
  using syscall_switch_unknown [OF assms]
  by (simp add: os_port_svc_dispatch_def exc_frame_at_def Let_def)

theorem svc_unknown_refused_witness:
  "os_port_svc_dispatch 0x901 0xA01 0x9000 (store_word 0x9000 7 sample) =
    Some (if (0x9000 :: addr) = NULL then store_word 0x9000 7 sample else store_word 0x9000 (- 1) (store_word 0x9000 7 sample))"
proof (rule svc_unknown_refused)
  fix k
  show "take_bit 8 (mem (store_word 0x9000 7 sample) 0x9000) \<noteq> syscall_number k" by (cases k) (simp_all add: store_word_def)
qed

end
