(* ===== verification/Scheduler_Properties.thy ===== *)
theory Scheduler_Properties
  imports Tick "HOL-Library.Multiset"
begin

text \<open>
  What the scheduler of \<open>kernel/scheduler.c\<close> promises to its callers: the most urgent ready task is chosen,
  tasks of equal priority take turns, a priority queue is a stable sort of the order of arrival, a context
  switch leaves exactly one running task, and the comparison of ticks survives the wrap of the counter.
\<close>

subsection \<open>The choice\<close>

lemma first_ready:
  assumes I: "lists_inv a" and u: "runs \<in> set (ready_order a)"
  shows "\<exists>t p ts. first_or (ready_order a) NULL = t \<and> p < NUM_PRIORITIES \<and> waitq a (ReadyQ p) = t # ts \<and>
    (\<forall>q<p. waitq a (ReadyQ q) = [])"
proof -
  define p where "p = (LEAST p. waitq a (ReadyQ p) \<noteq> [])"
  from u obtain q where q: "q < NUM_PRIORITIES" "waitq a (ReadyQ q) \<noteq> []" using mem_ready_order [of runs a] by fastforce
  have p: "waitq a (ReadyQ p) \<noteq> []" "p \<le> q" unfolding p_def by (rule LeastI [of _ q], rule q(2), rule Least_le [of _ q], rule q(2))
  have less: "waitq a (ReadyQ r) = []" if "r < p" for r using not_less_Least [OF that [unfolded p_def]] by simp
  from p obtain t ts where t: "waitq a (ReadyQ p) = t # ts" by (cases "waitq a (ReadyQ p)") auto
  have split: "[0..<NUM_PRIORITIES] = [0..<p] @ p # [Suc p..<NUM_PRIORITIES]"
    using p(2) q(1) upt_add_eq_append [of 0 p "NUM_PRIORITIES - p"] upt_conv_Cons [of p NUM_PRIORITIES] by simp
  have empty: "concat (map (\<lambda>p. waitq a (ReadyQ p)) [0..<p]) = []" using less by simp
  have "first_or (ready_order a) NULL = t" unfolding ready_order_def split map_append concat_append empty by (simp add: t)
  moreover have "p < NUM_PRIORITIES" using p(2) q(1) by simp
  ultimately show ?thesis using t less by blast
qed

lemma ready_prio:
  assumes I: "lists_inv a" and t: "t \<in> set (waitq a (ReadyQ p))"
  shows "a_prio a t = p"
  using lists_inv_home [OF I, of t "ReadyQ p"] lists_inv_tcb [OF I, of t] t
  by (auto simp: home_def task_prio_def tcb_ok_def waitable_def split: if_splits)

text \<open>
  C18: \<open>os_schedule\<close> returns and chooses the first of the most urgent ready tasks: whenever some task is not blocked, the
  chosen one is not blocked, no task that is not blocked is more urgent, and it heads the ready queue of its
  priority. Nothing else changes.
\<close>

theorem schedule_most_urgent:
  assumes "kernel_rel s a" and "kernel_inv a" and "tcb_at s u = Some c" and "tcb_state c \<noteq> OS_TASK_BLOCKED"
  shows "\<exists>t d ts. os_schedule s = Some (s\<lparr>g_next := t\<rparr>) \<and> tcb_at s t = Some d \<and> tcb_state d \<noteq> OS_TASK_BLOCKED \<and>
    waitq a (ReadyQ (task_prio s t)) = t # ts \<and>
    (\<forall>v e. tcb_at s v = Some e \<and> tcb_state e \<noteq> OS_TASK_BLOCKED \<longrightarrow> task_prio s t \<le> task_prio s v)"
proof -
  note D = kernel_invD [OF assms(2)]
  have pr: "task_prio s = a_prio a" by (rule kernel_rel_task_prio [OF assms(1)])
  have ready: "v \<in> set (ready_order a)" if "tcb_at s v = Some e" "tcb_state e \<noteq> OS_TASK_BLOCKED" for v e
    using kernel_rel_tcb [OF assms(1) that(1)] that(2) by (simp add: ready_order_iff [OF D(2)])
  from first_ready [OF D(2) ready [OF assms(3,4)]] obtain t p ts where
    t: "first_or (ready_order a) NULL = t" "waitq a (ReadyQ p) = t # ts" "\<forall>q<p. waitq a (ReadyQ q) = []" by blast
  have tp: "a_prio a t = p" by (rule ready_prio [OF D(2)]) (simp add: t(2))
  from lists_inv_ready [OF D(2)] obtain d where d: "tcb_at s t = Some d" "tcb_state d \<noteq> OS_TASK_BLOCKED"
  proof -
    from t(2) lists_inv_home [OF D(2), of t "ReadyQ p"] obtain d where "a_tcb a t = Some d" "home d = Some (ReadyQ p)" by auto
    with kernel_rel_tcbD [OF assms(1)] lists_inv_tcb [OF D(2), of t] show thesis
      by (fastforce simp: home_def tcb_ok_def waitable_def split: if_splits intro: that)
  qed
  have "p \<le> a_prio a v" if "tcb_at s v = Some e" "tcb_state e \<noteq> OS_TASK_BLOCKED" for v e
  proof -
    from ready [OF that] obtain q where q: "v \<in> set (waitq a (ReadyQ q))" by (auto simp: mem_ready_order)
    then have "a_prio a v = q" by (rule ready_prio [OF D(2)])
    moreover have "\<not> q < p" using q t(3) by auto
    ultimately show ?thesis by simp
  qed
  moreover have "os_schedule s = Some (s\<lparr>g_next := t\<rparr>)"
    using schedule_loop_refines [OF assms(1), of 0] t(1) by (simp add: os_schedule_def ready_order_def)
  ultimately show ?thesis using d t(2) tp unfolding pr by blast
qed

theorem schedule_most_urgent_witness:
  "\<exists>t d ts. os_schedule sample = Some (sample\<lparr>g_next := t\<rparr>) \<and> tcb_at sample t = Some d \<and> tcb_state d \<noteq> OS_TASK_BLOCKED \<and>
    waitq sample_a (ReadyQ (task_prio sample t)) = t # ts \<and>
    (\<forall>v e. tcb_at sample v = Some e \<and> tcb_state e \<noteq> OS_TASK_BLOCKED \<longrightarrow> task_prio sample t \<le> task_prio sample v)"
  by (rule schedule_most_urgent [OF sample_rel sample_inv, of "0x200" sample_low]) (simp_all add: sample_tcb sample_task_defs)

subsection \<open>Priority queues\<close>

text \<open>Insertion behind the equals is the stable sort of the queue with the new task at its end.\<close>

lemma insert_prio_sort_key:
  fixes f :: "'a \<Rightarrow> nat"
  assumes "sorted (map f xs)"
  shows "insert_prio f t xs = sort_key f (xs @ [t])"
proof -
  from insert_prio_behind_equals [OF assms, of t] obtain ys zs where
    e: "insert_prio f t xs = ys @ t # zs" "xs = ys @ zs" "\<forall>x\<in>set zs. f t < f x" by blast
  have "filter (\<lambda>x. f k = f x) (ys @ t # zs) = filter (\<lambda>x. f k = f x) ((ys @ zs) @ [t])" for k
  proof (cases "f k = f t")
    case True
    then have "filter (\<lambda>x. f k = f x) zs = []" using e(3) by (auto simp: filter_empty_conv)
    with True show ?thesis by simp
  qed simp
  then show ?thesis
    using sorted_insert_prio [OF assms, of t] unfolding e(1) unfolding e(2)
    by (intro properties_for_sort_key [symmetric]) (simp_all only: mset_append mset.simps union_assoc, simp)
qed

text \<open>
  C28: \<open>os_task_queue_insert_by_priority\<close>, a search through the linked list and a splice, is equivalent to a stable sort: it returns, and
  the queue of a mutex afterwards is the stable sort by priority of the old queue with the new task behind it, so
  that waiters are served by urgency and, among equals, in the order of arrival. No other queue changes.
\<close>

theorem insert_by_priority_stable_sort:
  assumes "kernel_rel s a" and "sorted (map (task_prio s) (waitq a (MutexQ m)))" and "mutex_at s m \<noteq> None"
    and "tcb_at s t \<noteq> None" and "\<And>q. t \<notin> set (waitq a q)"
  shows "\<exists>s'. os_task_queue_insert_by_priority (Some (MutexQ m)) t s = Some s' \<and>
    kernel_rel s' (a\<lparr>waitq := (waitq a)(MutexQ m := sort_key (task_prio s) (waitq a (MutexQ m) @ [t]))\<rparr>)"
proof -
  note pr = kernel_rel_task_prio [OF assms(1)]
  have e: "insert_prio (a_prio a) t (waitq a (MutexQ m)) = sort_key (a_prio a) (waitq a (MutexQ m) @ [t])"
    using assms(2) unfolding pr by (rule insert_prio_sort_key)
  have "valid_queue a (MutexQ m)" "valid_task a t"
    using assms(1,3,4) kernel_rel_valid_queue [OF assms(1), of "MutexQ m"] kernel_rel_valid_task [OF assms(1), of t]
    by (simp_all add: get_queue.simps)
  from os_task_queue_insert_by_priority_refines [OF assms(1) this assms(5)] show ?thesis
    unfolding a_insert_by_priority_def a_set_queue_def e pr .
qed

text \<open>The running task of the sample state leaves its ready queue and joins the waiters of the mutex.\<close>

theorem insert_by_priority_stable_sort_witness:
  "\<exists>s s' a. os_task_queue_remove (Some (ReadyQ 2)) 0x200 sample = Some s \<and>
    os_task_queue_insert_by_priority (Some (MutexQ 0x1000)) 0x200 s = Some s' \<and> kernel_rel s' a \<and>
    waitq a (MutexQ 0x1000) = [0x500, 0x200]"
proof -
  let ?a = "a_remove (ReadyQ 2) 0x200 sample_a"
  have m: "0x200 \<in> set (waitq sample_a (ReadyQ 2))" by (simp add: sample_queue_def)
  have "\<exists>s. os_task_queue_remove (Some (ReadyQ 2)) 0x200 sample = Some s \<and> kernel_rel s ?a"
    by (rule os_task_queue_remove_refines [OF sample_rel m])
  then obtain s where s: "os_task_queue_remove (Some (ReadyQ 2)) 0x200 sample = Some s" "kernel_rel s ?a" by blast
  have k: "kern ?a = core sample" by (simp add: a_remove_def astate_simps)
  have pr: "task_prio s x = task_prio (core sample) x" for x using kernel_rel_task_prio [OF s(2)] k by simp
  have "\<exists>s'. os_task_queue_insert_by_priority (Some (MutexQ 0x1000)) 0x200 s = Some s' \<and>
      kernel_rel s' (?a\<lparr>waitq := (waitq ?a)(MutexQ 0x1000 := sort_key (task_prio s) (waitq ?a (MutexQ 0x1000) @ [0x200]))\<rparr>)"
  proof (rule insert_by_priority_stable_sort [OF s(2)])
    show "sorted (map (task_prio s) (waitq ?a (MutexQ 0x1000)))" by (simp add: astate_simps a_remove_def sample_queue_def)
    show "mutex_at s 0x1000 \<noteq> None" 
    proof -
      have "mutex_at (core s) = mutex_at (core sample)" using s(2) k by (simp add: kernel_rel_def)
      then show ?thesis using mutex_at_core [of s "0x1000"] by (cases "mutex_at s 0x1000") (auto simp: sample_mutexes)
    qed
    show "tcb_at s 0x200 \<noteq> None" using kernel_rel_valid_task [OF s(2), of "0x200"] k by (simp add: valid_task_def sample_a_tcb)
    show "0x200 \<notin> set (waitq ?a q)" for q by (rule removed_in_no_queue [OF sample_rel m])
  qed
  moreover have "sort_key (task_prio s) (waitq ?a (MutexQ 0x1000) @ [0x200]) = [0x500, 0x200]"
    by (simp add: a_remove_def astate_simps sample_queue_def pr) (simp add: task_prio_def sample_a_tcb sample_task_defs)
  ultimately show ?thesis using s(1) by fastforce
qed

subsection \<open>Turns\<close>

lemma yield_effect:
  assumes I: "lists_inv a" and w: "waitq a (ReadyQ p) = t # ts" "p < NUM_PRIORITIES" and c: "g_current (kern a) = t"
    and top: "\<And>q. q < p \<Longrightarrow> waitq a (ReadyQ q) = []"
  shows "waitq (a_yield a) = (waitq a)(ReadyQ p := ts @ [t])"
    and "g_next (kern (a_yield a)) = hd (ts @ [t])" and "pendsv (kern (a_yield a))"
proof -
  have pt: "a_prio a t = p" by (rule ready_prio [OF I]) (simp add: w(1))
  have nn: "t \<noteq> NULL" using lists_inv_home [OF I, of t "ReadyQ p"] w(1) by (auto simp: tcb_at_def split: if_splits)
  have r: "a_rotate (g_current (kern a)) a = a_set_queue (ReadyQ p) (ts @ [t]) a"
    using w(1) nn by (simp add: a_rotate_def Let_def c pt)
  show wy: "waitq (a_yield a) = (waitq a)(ReadyQ p := ts @ [t])" "pendsv (kern (a_yield a))"
    unfolding a_yield_def r by (simp_all add: astate_simps kstate_simps)
  let ?b = "a_set_queue (ReadyQ p) (ts @ [t]) a"
  have L: "lists_inv ?b" using a_rotate_inv [OF I, of "g_current (kern a)"] unfolding r .
  have "t \<in> set (ready_order ?b)" using w(2) by (auto simp: mem_ready_order astate_simps)
  from first_ready [OF L this] obtain u q us where
    u: "first_or (ready_order ?b) NULL = u" "waitq ?b (ReadyQ q) = u # us" "\<forall>r<q. waitq ?b (ReadyQ r) = []" by blast
  have "q = p"
  proof (rule ccontr)
    assume "q \<noteq> p"
    then consider "q < p" | "p < q" by linarith
    then show False using top [of q] u(2,3) by cases (auto simp: astate_simps)
  qed
  then have "u = hd (ts @ [t])" using u(2) by (simp add: astate_simps)
  then show "g_next (kern (a_yield a)) = hd (ts @ [t])"
    unfolding a_yield_def r using u(1) by (simp add: astate_simps kstate_simps a_schedule_def)
qed

text \<open>One turn: the running task yields and the pending context switch takes place.\<close>

definition turn :: "kstate \<Rightarrow> kstate option" where
  "turn s = do { s \<leftarrow> os_kernel_yield s; os_commit_switch (s\<lparr>pendsv := False\<rparr>) }"

fun turns :: "nat \<Rightarrow> kstate \<Rightarrow> kstate option" where
  "turns 0 s = Some s"
| "turns (Suc n) s = do { s \<leftarrow> turn s; turns n s }"

definition my_turn :: "nat \<Rightarrow> addr list \<Rightarrow> astate \<Rightarrow> bool" where
  "my_turn p ts a \<longleftrightarrow> kernel_inv a \<and> p < NUM_PRIORITIES \<and> waitq a (ReadyQ p) = ts \<and> ts \<noteq> [] \<and> g_current (kern a) = hd ts \<and>
     (\<forall>q<p. waitq a (ReadyQ q) = [])"

lemma turn_rotates:
  assumes R: "kernel_rel s a" and I: "my_turn p ts a"
  shows "\<exists>s' a'. turn s = Some s' \<and> kernel_rel s' a' \<and> my_turn p (rotate1 ts) a'"
proof -
  let ?b = "a_yield a" and ?c = "a_kern (pendsv_update (\<lambda>_. False)) (a_yield a)"
  from I obtain t us where t: "ts = t # us" by (cases ts) (auto simp: my_turn_def)
  note D = I [unfolded my_turn_def]
  from D have K: "kernel_inv ?b" by (simp add: a_yield_inv)
  from D t have y: "waitq ?b = (waitq a)(ReadyQ p := us @ [t])" "g_next (kern ?b) = hd (us @ [t])"
    using yield_effect [OF kernel_invD(2), of a p t us] by auto
  from os_kernel_yield_refines [OF R] D obtain s1 where s1: "os_kernel_yield s = Some s1" "kernel_rel s1 ?b" by auto
  have R2: "kernel_rel (s1\<lparr>pendsv := False\<rparr>) ?c" by (rule kernel_rel_pendsv [OF s1(2)])
  have K2: "kernel_inv ?c" using K by (subst kernel_inv_cong [of _ ?b]) (simp_all add: astate_simps kstate_simps)
  from commit_refines [OF R2] K2 obtain s' where s': "os_commit_switch (s1\<lparr>pendsv := False\<rparr>) = Some s'" "kernel_rel s' (a_commit ?c)"
    using kernel_invD(1) by blast
  have n: "g_next (kern ?c) = hd (us @ [t])" using y(2) by (simp add: astate_simps kstate_simps)
  obtain d where "a_tcb ?c (hd (us @ [t])) = Some d"
    using lists_inv_home [OF kernel_invD(2) [OF K2], of "hd (us @ [t])" "ReadyQ p"] y(1)
    by (cases us) (auto simp: astate_simps)
  then have nn: "hd (us @ [t]) \<noteq> NULL" by auto
  have "my_turn p (us @ [t]) (a_commit ?c)"
    unfolding my_turn_def
  proof (intro conjI)
    show "kernel_inv (a_commit ?c)" by (rule kernel_inv_commit [OF K2])
    show "g_current (kern (a_commit ?c)) = hd (us @ [t])"
      using n nn by (simp add: a_commit_def Let_def astate_simps kstate_simps)
  qed (use D y(1) in \<open>simp_all add: astate_simps\<close>)
  then show ?thesis using s1(1) s' t by (auto simp: turn_def)
qed

lemma turns_rotate:
  assumes "kernel_rel s a" and "my_turn p ts a"
  shows "\<exists>s' a'. turns n s = Some s' \<and> kernel_rel s' a' \<and> my_turn p (rotate n ts) a'"
  using assms
proof (induction n arbitrary: s a ts)
  case (Suc n)
  from turn_rotates [OF Suc.prems] obtain s1 a1 where
    1: "turn s = Some s1" "kernel_rel s1 a1" "my_turn p (rotate1 ts) a1" by blast
  from Suc.IH [OF 1(2,3)] 1(1) show ?case by (simp add: rotate1_rotate_swap)
qed auto

text \<open>
  C19: Tasks of equal priority take turns. When the running task is the first of the most urgent ready queue, then after
  \<open>n\<close> turns, in each of which the running task yields and the context switch takes place, the kernel has returned
  every time, its invariant holds and the task that runs is the one \<open>n\<close> places behind it in the queue, cyclically:
  every ready task of that priority runs again after as many turns as there are such tasks.
\<close>

theorem round_robin:
  assumes "kernel_rel s a" and "kernel_inv a" and "p < NUM_PRIORITIES" and "waitq a (ReadyQ p) = ts"
    and "ts \<noteq> []" and "g_current s = hd ts" and "\<forall>q<p. waitq a (ReadyQ q) = []"
  shows "\<exists>s' a'. turns n s = Some s' \<and> kernel_rel s' a' \<and> kernel_inv a' \<and> g_current s' = ts ! (n mod length ts)"
proof -
  have "my_turn p ts a" using assms kernel_rel_globals [OF assms(1)] by (simp add: my_turn_def)
  from turns_rotate [OF assms(1) this, of n] obtain s' a' where
    s': "turns n s = Some s'" "kernel_rel s' a'" "my_turn p (rotate n ts) a'" by blast
  then have "g_current s' = ts ! (n mod length ts)"
    using kernel_rel_globals [OF s'(2)] assms(5) by (simp add: my_turn_def hd_rotate_conv_nth)
  with s' show ?thesis unfolding my_turn_def by blast
qed

text \<open>The waiter of the sample state is made ready and takes turns with the running task.\<close>

theorem round_robin_witness:
  "\<exists>s s'. os_task_wake_one_locked (Some (MutexQ 0x1000)) sample = Some (0x500, s) \<and> turns 7 s = Some s' \<and> g_current s' = 0x500"
proof -
  let ?a = "snd (a_wake_one (MutexQ 0x1000) sample_a)"
  note L = kernel_invD(2) [OF sample_inv]
  have c: "a_tcb sample_a 0x500 = Some sample_waiter" by (simp add: sample_a_tcb)
  have w: "waitq sample_a (MutexQ 0x1000) = 0x500 # []" by (simp add: sample_queue_def)
  note W = a_wake_one_Cons [OF L _ _ w c, simplified waitable_def, simplified]
  have "valid_queue sample_a (MutexQ 0x1000)" by (simp add: valid_queue_def get_queue.simps sample_mutexes)
  then obtain s where s: "os_task_wake_one_locked (Some (MutexQ 0x1000)) sample = Some (0x500, s)" "kernel_rel s ?a"
    using wake_one_refines [OF sample_rel L, of "MutexQ 0x1000"] W(1) by (auto simp: waitable_def)
  have "\<exists>s' a'. turns 7 s = Some s' \<and> kernel_rel s' a' \<and> kernel_inv a' \<and> g_current s' = [0x200, 0x500] ! (7 mod length [0x200, 0x500 :: addr])"
  proof (rule round_robin [OF s(2), of 2])
    show "kernel_inv ?a" by (rule kernel_inv_wake_one [OF sample_inv]) (simp_all add: waitable_def)
    show "waitq ?a (ReadyQ 2) = [0x200, 0x500]" by (simp add: W(3) sample_queue_def sample_task_defs)
    show "g_current s = hd [0x200, 0x500]" using kernel_rel_globals [OF s(2)] by (simp add: astate_simps)
  qed (simp_all add: W(3) sample_queue_def sample_task_defs)
  moreover have "7 mod length [0x200, 0x500 :: addr] = 1" by (simp add: numeral_2_eq_2 [symmetric])
  ultimately show ?thesis using s(1) by auto
qed

subsection \<open>The context switch\<close>

text \<open>
  \<open>os_commit_switch\<close>, when no tick interrupts it, returns and makes the chosen task current. When no other task than the
  current one is marked running, it leaves the chosen task the only running one: a task that was running becomes ready, a
  task that has blocked stays blocked, and no queue changes. The kernel's invariant is kept.
\<close>

theorem commit_switch_correct:
  assumes "kernel_rel s a" and "kernel_inv a" and "g_next s \<noteq> NULL"
    and sole: "\<forall>t c. tcb_at s t = Some c \<and> tcb_state c = OS_TASK_RUNNING \<longrightarrow> t = g_current s"
  shows "\<exists>s' a'. os_commit_switch s = Some s' \<and> kernel_rel s' a' \<and> kernel_inv a' \<and> waitq a' = waitq a \<and>
    g_current s' = g_next s \<and>
    (\<forall>t c. tcb_at s' t = Some c \<longrightarrow> (tcb_state c = OS_TASK_RUNNING \<longleftrightarrow> t = g_next s) \<and>
      (\<exists>d. tcb_at s t = Some d \<and> (tcb_state c = OS_TASK_BLOCKED \<longleftrightarrow> tcb_state d = OS_TASK_BLOCKED)))"
proof -
  note D = kernel_invD [OF assms(2)] and g = kernel_rel_globals [OF assms(1)]
  from commit_refines [OF assms(1) D(1)] obtain s' where s': "os_commit_switch s = Some s'" "kernel_rel s' (a_commit a)" by blast
  have nn: "g_next (kern a) \<noteq> NULL" using assms(3) g by simp
  have cur: "g_current (kern (a_commit a)) = g_next (kern a)"
    using nn by (simp add: a_commit_def Let_def astate_simps kstate_simps)
  from D(3) nn obtain n where n: "a_tcb a (g_next (kern a)) = Some n" "tcb_state n \<noteq> OS_TASK_BLOCKED" by (auto simp: next_ok_def)
  have "(tcb_state c = OS_TASK_RUNNING \<longleftrightarrow> t = g_next s) \<and>
      (\<exists>d. tcb_at s t = Some d \<and> (tcb_state c = OS_TASK_BLOCKED \<longleftrightarrow> tcb_state d = OS_TASK_BLOCKED))"
    if c: "tcb_at s' t = Some c" for t c
  proof -
    obtain e where ac: "a_tcb (a_commit a) t = Some e" and e: "tcb_state e = tcb_state c"
      using kernel_rel_tcb [OF s'(2) c] by simp
    have "t = g_current (kern a)" if "a_tcb a t = Some d" "tcb_state d = OS_TASK_RUNNING" for d
      using sole kernel_rel_tcbD [OF assms(1) that(1)] that(2) g by fastforce
    then have run: "tcb_state c = OS_TASK_RUNNING \<Longrightarrow> t = g_next (kern a)"
      using ac nn unfolding e [symmetric] by (auto simp: a_commit_def Let_def astate_simps kstate_simps split: if_splits)
    have "\<exists>d. a_tcb a t = Some d \<and> (tcb_state c = OS_TASK_BLOCKED \<longleftrightarrow> tcb_state d = OS_TASK_BLOCKED) \<and>
        (t = g_next (kern a) \<longrightarrow> tcb_state c = OS_TASK_RUNNING)"
      using ac nn n unfolding e [symmetric] by (auto simp: a_commit_def Let_def astate_simps kstate_simps split: if_splits)
    then show ?thesis using run g kernel_rel_tcbD [OF assms(1)] by fastforce
  qed
  then show ?thesis
    using s' kernel_inv_commit [OF assms(2)] cur g kernel_rel_globals [OF s'(2)]
    by (intro exI [of _ s'] exI [of _ "a_commit a"]) (simp add: astate_simps)
qed

theorem commit_switch_correct_witness:
  "\<exists>s' a'. os_commit_switch sample = Some s' \<and> kernel_rel s' a' \<and> kernel_inv a' \<and> waitq a' = waitq sample_a \<and> g_current s' = 0x200"
proof -
  have "\<forall>t c. tcb_at sample t = Some c \<and> tcb_state c = OS_TASK_RUNNING \<longrightarrow> t = g_current sample"
    by (auto simp: sample_tcb sample_task_defs split: if_splits)
  from commit_switch_correct [OF sample_rel sample_inv _ this] show ?thesis by auto
qed

subsection \<open>Ticks\<close>

text \<open>
  C40: The comparison of ticks. A tick \<open>d\<close> ahead of now counts as reached exactly when \<open>d\<close> is zero or more than \<open>2 ^ 31\<close>, whatever the
  value of the counter and across its wrap: delays up to \<open>2 ^ 31\<close> ticks are ordered correctly, and longer ones count as over
  at once.
\<close>

theorem tick_reached_window: "os_tick_reached now (now + d) \<longleftrightarrow> d = 0 \<or> 2 ^ 31 < unat d"
proof (cases "d = 0")
  case False
  have "uint (- d) = (- uint d) mod 2 ^ 32" by (simp add: uint_word_ariths(4))
  also have "\<dots> = 2 ^ 32 - uint d"
    using False uint_lt2p [of d] by (simp add: zmod_zminus1_eq_if uint_0_iff)
  finally have "uint (- d) < 2 ^ 31 \<longleftrightarrow> 2 ^ 31 < uint d" by simp
  then have "unat (- d) < 2 ^ 31 \<longleftrightarrow> 2 ^ 31 < unat d"
    using of_nat_less_iff [of "unat (- d)" "2 ^ 31", where 'a = int] of_nat_less_iff [of "2 ^ 31" "unat d", where 'a = int] by simp
  with False show ?thesis by (simp add: os_tick_reached_def sint_nonneg)
qed (simp add: os_tick_reached_def)

end
