(* ===== verification/Hardware.thy ===== *)
theory Hardware
  imports Port
begin

text \<open>
  Set-up of the processor and of the chip: the priority of PendSV and the memory protection unit of
  \<open>arch/arm_cm/port.c\<close>, the tick timer of \<open>bsp/stm32f103/systick.c\<close>, the clock tree of \<open>bsp/stm32f103/clock.c\<close>
  and the cycle counter of \<open>benchmark/bench_clock.c\<close>. All of it writes memory-mapped registers, in an order that
  matters; the log of the writes records it. What the memory protection unit does with its registers is
  stated as in the ARMv7-M architecture.
\<close>

unbundle bit_operations_syntax

subsection \<open>Registers\<close>

abbreviation (input) SCB_SHPR3 :: addr where "SCB_SHPR3 \<equiv> 0xE000ED20"
abbreviation (input) SCB_SHCSR :: addr where "SCB_SHCSR \<equiv> 0xE000ED24"
abbreviation (input) MPU_TYPE :: addr where "MPU_TYPE \<equiv> 0xE000ED90"
abbreviation (input) MPU_CTRL :: addr where "MPU_CTRL \<equiv> 0xE000ED94"
abbreviation (input) MPU_RNR :: addr where "MPU_RNR \<equiv> 0xE000ED98"
abbreviation (input) MPU_RBAR :: addr where "MPU_RBAR \<equiv> 0xE000ED9C"
abbreviation (input) MPU_RASR :: addr where "MPU_RASR \<equiv> 0xE000EDA0"
abbreviation (input) SYST_CSR :: addr where "SYST_CSR \<equiv> 0xE000E010"
abbreviation (input) SYST_RVR :: addr where "SYST_RVR \<equiv> 0xE000E014"
abbreviation (input) SYST_CVR :: addr where "SYST_CVR \<equiv> 0xE000E018"
abbreviation (input) RCC_CR :: addr where "RCC_CR \<equiv> 0x40021000"
abbreviation (input) RCC_CFGR :: addr where "RCC_CFGR \<equiv> 0x40021004"
abbreviation (input) FLASH_ACR :: addr where "FLASH_ACR \<equiv> 0x40022000"
abbreviation (input) DEMCR :: addr where "DEMCR \<equiv> 0xE000EDFC"
abbreviation (input) DWT_CTRL :: addr where "DWT_CTRL \<equiv> 0xE0001000"
abbreviation (input) DWT_CYCCNT :: addr where "DWT_CYCCNT \<equiv> 0xE0001004"

text \<open>\<open>REG |= v\<close>.\<close>

definition io_or :: "addr \<Rightarrow> u32 \<Rightarrow> cpu \<Rightarrow> cpu" where
  "io_or a v c = io_write a (io c a OR v) c"

definition os_port_set_pendsv_priority_lowest :: "cpu \<Rightarrow> cpu" where
  "os_port_set_pendsv_priority_lowest c =
     (let v = io c SCB_SHPR3;
          v = v AND NOT (push_bit 16 0xFF);
          v = v OR push_bit 16 0xFF
      in io_write SCB_SHPR3 v c)"

subsection \<open>Memory protection unit\<close>

abbreviation (input) SHCSR_MEMFAULTENA :: u32 where "SHCSR_MEMFAULTENA \<equiv> push_bit 16 1"
abbreviation (input) MPU_CTRL_ENABLE :: u32 where "MPU_CTRL_ENABLE \<equiv> push_bit 0 1"
abbreviation (input) MPU_CTRL_PRIVDEFENA :: u32 where "MPU_CTRL_PRIVDEFENA \<equiv> push_bit 2 1"
abbreviation (input) MPU_RASR_XN :: u32 where "MPU_RASR_XN \<equiv> push_bit 28 1"
abbreviation (input) MPU_AP_PRIV_RW :: u32 where "MPU_AP_PRIV_RW \<equiv> push_bit 24 1"
abbreviation (input) MPU_AP_FULL_ACCESS :: u32 where "MPU_AP_FULL_ACCESS \<equiv> push_bit 24 3"
abbreviation (input) MPU_AP_PRIV_RO :: u32 where "MPU_AP_PRIV_RO \<equiv> push_bit 24 5"
abbreviation (input) MPU_AP_RO_ALL :: u32 where "MPU_AP_RO_ALL \<equiv> push_bit 24 6"
abbreviation (input) MPU_ATTR_FLASH :: u32 where "MPU_ATTR_FLASH \<equiv> push_bit 17 1"
abbreviation (input) MPU_ATTR_SRAM :: u32 where "MPU_ATTR_SRAM \<equiv> push_bit 17 1 OR push_bit 16 1"
abbreviation (input) MPU_ATTR_DEVICE :: u32 where "MPU_ATTR_DEVICE \<equiv> push_bit 16 1"
abbreviation (input) MPU_REGION_ENABLE :: u32 where "MPU_REGION_ENABLE \<equiv> push_bit 0 1"

abbreviation (input) DWT_PERIPH_REGION_BASE :: addr where "DWT_PERIPH_REGION_BASE \<equiv> 0xE0001000"
abbreviation (input) DWT_PERIPH_REGION_SIZE :: u32 where "DWT_PERIPH_REGION_SIZE \<equiv> 32"

text \<open>The loop of \<open>os_port_mpu_size_encode\<close>.\<close>

function mpu_size_loop :: "u32 \<Rightarrow> u32 \<Rightarrow> u32" where
  "mpu_size_loop size_bytes encode =
     (if 1 < size_bytes then mpu_size_loop (drop_bit 1 size_bytes) (encode + 1) else encode)"
  by pat_completeness auto
termination
  by (relation "measure (\<lambda>(n, e). unat n)")
    (auto simp: word_less_nat_alt unat_div drop_bit_Suc)

declare mpu_size_loop.simps [simp del]

definition os_port_mpu_size_encode :: "u32 \<Rightarrow> u32" where
  "os_port_mpu_size_encode size_bytes = push_bit 1 (mpu_size_loop size_bytes 0 - 1)"

definition os_port_mpu_region_configure :: "u32 \<Rightarrow> addr \<Rightarrow> u32 \<Rightarrow> u32 \<Rightarrow> cpu \<Rightarrow> cpu" where
  "os_port_mpu_region_configure region base size_bytes attr c =
     (let c = io_write MPU_RNR region c;
          c = io_write MPU_RBAR base c
      in io_write MPU_RASR (attr OR os_port_mpu_size_encode size_bytes OR MPU_REGION_ENABLE) c)"

text \<open>The addresses of the linker script.\<close>

record layout =
  user_flash_region_start :: addr
  user_flash_region_end :: addr
  kernel_flash_region_start :: addr
  kernel_flash_region_end :: addr
  user_ram_region_start :: addr
  user_ram_region_end :: addr
  kernel_ram_region_start :: addr
  kernel_ram_region_end :: addr

definition os_port_mpu_init :: "layout \<Rightarrow> cpu \<Rightarrow> cpu" where
  "os_port_mpu_init l c =
     (let user_flash_size = user_flash_region_end l - user_flash_region_start l;
          kernel_flash_size = kernel_flash_region_end l - kernel_flash_region_start l;
          user_ram_size = user_ram_region_end l - user_ram_region_start l;
          kernel_ram_size = kernel_ram_region_end l - kernel_ram_region_start l
      in
        if drop_bit 8 (io c MPU_TYPE) AND 0xFF = 0 then c
        else
          let c = io_write MPU_CTRL 0 c;
              c = io_or SCB_SHCSR SHCSR_MEMFAULTENA c;
              c = os_port_mpu_region_configure 0 (user_flash_region_start l) user_flash_size
                    (MPU_AP_RO_ALL OR MPU_ATTR_FLASH) c;
              c = os_port_mpu_region_configure 1 (kernel_flash_region_start l) kernel_flash_size
                    (MPU_AP_PRIV_RO OR MPU_ATTR_FLASH) c;
              c = os_port_mpu_region_configure 2 (user_ram_region_start l) user_ram_size
                    (MPU_AP_FULL_ACCESS OR MPU_ATTR_SRAM OR MPU_RASR_XN) c;
              c = os_port_mpu_region_configure 3 (kernel_ram_region_start l) kernel_ram_size
                    (MPU_AP_PRIV_RW OR MPU_ATTR_SRAM OR MPU_RASR_XN) c;
              c = os_port_mpu_region_configure 4 DWT_PERIPH_REGION_BASE DWT_PERIPH_REGION_SIZE
                    (MPU_AP_RO_ALL OR MPU_ATTR_DEVICE OR MPU_RASR_XN) c
          in io_write MPU_CTRL (MPU_CTRL_ENABLE OR MPU_CTRL_PRIVDEFENA) c)"

subsection \<open>Tick timer and cycle counter\<close>

definition systick_init :: "u32 \<Rightarrow> u32 \<Rightarrow> cpu \<Rightarrow> cpu" where
  "systick_init cpu_hz tick_hz c =
     (let reload = cpu_hz div tick_hz - 1;
          c = io_write SYST_CSR 0 c;
          c = io_write SYST_RVR reload c;
          c = io_write SYST_CVR 0 c
      in io_write SYST_CSR (push_bit 2 1 OR push_bit 0 1) c)"

definition systick_enable :: "cpu \<Rightarrow> cpu" where
  "systick_enable c = io_or SYST_CSR (push_bit 1 1) c"

definition os_bench_clock_init :: "cpu \<Rightarrow> cpu" where
  "os_bench_clock_init c =
     (let c = io_or DEMCR (push_bit 24 1) c;
          c = io_write DWT_CYCCNT 0 c
      in io_or DWT_CTRL (push_bit 0 1) c)"

definition os_bench_clock_now :: "cpu \<Rightarrow> u32" where
  "os_bench_clock_now c = io c DWT_CYCCNT"

subsection \<open>Clock tree\<close>

text \<open>The status bits of the clock registers are set by the chip. \<open>hw h a\<close> is what register \<open>a\<close> shows when it is read after the
  accesses \<open>h\<close>, reads and writes from the oldest to the newest; it is a parameter. \<open>poll\<close> is the loop
  \<open>while (!ready) {}\<close>; its value is the history with the reads it has made.\<close>

datatype bus_access = Rd addr u32 | Wr addr u32

type_synonym clock_hw = "bus_access list \<Rightarrow> addr \<Rightarrow> u32"

abbreviation (input) RCC_CR_HSEON :: u32 where "RCC_CR_HSEON \<equiv> push_bit 16 1"
abbreviation (input) RCC_CR_HSERDY :: u32 where "RCC_CR_HSERDY \<equiv> push_bit 17 1"
abbreviation (input) RCC_CR_PLLON :: u32 where "RCC_CR_PLLON \<equiv> push_bit 24 1"
abbreviation (input) RCC_CR_PLLRDY :: u32 where "RCC_CR_PLLRDY \<equiv> push_bit 25 1"
abbreviation (input) RCC_CFGR_SW_PLL :: u32 where "RCC_CFGR_SW_PLL \<equiv> push_bit 0 2"
abbreviation (input) RCC_CFGR_SWS_MASK :: u32 where "RCC_CFGR_SWS_MASK \<equiv> push_bit 2 3"
abbreviation (input) RCC_CFGR_SWS_PLL :: u32 where "RCC_CFGR_SWS_PLL \<equiv> push_bit 2 2"
abbreviation (input) RCC_CFGR_PPRE1_DIV2 :: u32 where "RCC_CFGR_PPRE1_DIV2 \<equiv> push_bit 8 4"
abbreviation (input) RCC_CFGR_PLLSRC_HSE :: u32 where "RCC_CFGR_PLLSRC_HSE \<equiv> push_bit 16 1"
abbreviation (input) RCC_CFGR_PLLMUL_X9 :: u32 where "RCC_CFGR_PLLMUL_X9 \<equiv> push_bit 18 7"
abbreviation (input) FLASH_ACR_LATENCY_2WS :: u32 where "FLASH_ACR_LATENCY_2WS \<equiv> push_bit 0 2"
abbreviation (input) FLASH_ACR_PRFTBE :: u32 where "FLASH_ACR_PRFTBE \<equiv> push_bit 4 1"

partial_function (option) poll :: "clock_hw \<Rightarrow> addr \<Rightarrow> (u32 \<Rightarrow> bool) \<Rightarrow> bus_access list \<Rightarrow> bus_access list option" where
  "poll hw a ready h =
     (let v = hw h a; h = h @ [Rd a v]
      in if ready v then Some h else poll hw a ready h)"

declare poll.simps [code]

text \<open>An assignment to a register whose right-hand side reads it once, and a plain assignment.\<close>

definition clock_write :: "addr \<Rightarrow> u32 \<Rightarrow> bus_access list \<times> cpu \<Rightarrow> bus_access list \<times> cpu" where
  "clock_write a v = (\<lambda>(h, c). (h @ [Wr a v], io_write a v c))"

definition clock_modify :: "clock_hw \<Rightarrow> addr \<Rightarrow> (u32 \<Rightarrow> u32) \<Rightarrow> bus_access list \<times> cpu \<Rightarrow> bus_access list \<times> cpu" where
  "clock_modify hw a f = (\<lambda>(h, c). clock_write a (f (hw h a)) (h @ [Rd a (hw h a)], c))"

definition clock_run :: "clock_hw \<Rightarrow> cpu \<Rightarrow> (bus_access list \<times> cpu) option" where
  "clock_run hw c = do {
     let (h, c) = clock_write FLASH_ACR (FLASH_ACR_PRFTBE OR FLASH_ACR_LATENCY_2WS) ([], c);
     let (h, c) = clock_modify hw RCC_CR (\<lambda>v. v OR RCC_CR_HSEON) (h, c);
     h \<leftarrow> poll hw RCC_CR (\<lambda>v. v AND RCC_CR_HSERDY \<noteq> 0) h;
     let (h, c) = clock_modify hw RCC_CFGR (\<lambda>v. (v AND NOT 0x003F0000) OR RCC_CFGR_PPRE1_DIV2 OR
               RCC_CFGR_PLLSRC_HSE OR RCC_CFGR_PLLMUL_X9) (h, c);
     let (h, c) = clock_modify hw RCC_CR (\<lambda>v. v OR RCC_CR_PLLON) (h, c);
     h \<leftarrow> poll hw RCC_CR (\<lambda>v. v AND RCC_CR_PLLRDY \<noteq> 0) h;
     let (h, c) = clock_modify hw RCC_CFGR (\<lambda>v. (v AND NOT 0x3) OR RCC_CFGR_SW_PLL) (h, c);
     h \<leftarrow> poll hw RCC_CFGR (\<lambda>v. v AND RCC_CFGR_SWS_MASK = RCC_CFGR_SWS_PLL) h;
     Some (h, c)
   }"

definition clock_init :: "clock_hw \<Rightarrow> cpu \<Rightarrow> cpu option" where
  "clock_init hw c = map_option snd (clock_run hw c)"

text \<open>The processor after reset, with eight protection regions.\<close>

definition reset_cpu :: "kstate \<Rightarrow> cpu" where
  "reset_cpu s = \<lparr>kst = s, r4_r11 = replicate 8 0, psp = 0, msp = 0x20005000, control = 0,
     io = (\<lambda>_. 0)(MPU_TYPE := 0x800), io_log = []\<rparr>"

end
