(* ===== verification/Boot.thy ===== *)
theory Boot
  imports Hardware
begin

text \<open>
  Start-up: \<open>Reset_Handler\<close> of \<open>arch/arm_cm/startup.c\<close>, \<open>os_boot_main\<close> of \<open>kernel/main.c\<close> and \<open>os_start\<close> of
  \<open>kernel/task.c\<close>. The addresses the linker decides on are a record. The application's \<open>os_app_main\<close> is a
  parameter: the build links one of several applications. The variables of the kernel are fields of the
  state instead of words of memory, so that clearing \<open>.bss\<close> is both a loop over the words and the zero values of
  these fields.
\<close>

unbundle bit_operations_syntax

subsection \<open>startup.c\<close>

partial_function (option) os_copy_words :: "addr \<Rightarrow> addr \<Rightarrow> addr \<Rightarrow> kstate \<Rightarrow> kstate option" where
  "os_copy_words dst src end' s =
     (if dst < end' then os_copy_words (dst + 4) (src + 4) end' (store_word dst (mem s src) s) else Some s)"

declare os_copy_words.simps [code]

partial_function (option) os_zero_words :: "addr \<Rightarrow> addr \<Rightarrow> kstate \<Rightarrow> kstate option" where
  "os_zero_words dst end' s = (if dst < end' then os_zero_words (dst + 4) end' (store_word dst 0 s) else Some s)"

declare os_zero_words.simps [code]

text \<open>The zero values of the kernel's variables and of the application's semaphores and mutexes.\<close>

definition zero_globals :: "kstate \<Rightarrow> kstate" where
  "zero_globals s = s\<lparr>g_priorities := (\<lambda>_. emptyq), g_timeout_queue := emptyq, g_sleep_queue := emptyq,
     g_current := NULL, g_next := NULL, g_first_switch := 0, g_tick := 0, g_debug_step := 0, g_debug_value0 := 0,
     g_debug_value1 := 0,
     g_kernel_object_pool := \<lparr>mp_free_list = NULL, mp_pool_start = NULL, mp_pool_end = NULL, mp_block_size = 0,
       mp_block_count = 0, mp_free_count = 0\<rparr>,
     g_user_stack_pool := \<lparr>mp_free_list = NULL, mp_pool_start = NULL, mp_pool_end = NULL, mp_block_size = 0,
       mp_block_count = 0, mp_free_count = 0\<rparr>,
     tcbs := Map.empty,
     mutexes := (\<lambda>m. map_option (\<lambda>_. \<lparr>mtx_owner = NULL, mtx_next_mutex = NULL, mtx_waiters = emptyq\<rparr>) (mutexes s m)),
     sems := (\<lambda>m. map_option (\<lambda>_. \<lparr>sem_count = 0, sem_waiters = emptyq\<rparr>) (sems s m))\<rparr>"

text \<open>What the linker decides: the protection regions, the segments to initialise, the storage of the two pools
  and the addresses of the functions whose address the kernel takes.\<close>

record image = layout +
  user_data_load :: addr
  user_data_start :: addr
  user_data_end :: addr
  kernel_data_load :: addr
  kernel_data_start :: addr
  kernel_data_end :: addr
  user_bss_start :: addr
  user_bss_end :: addr
  kernel_bss_start :: addr
  kernel_bss_end :: addr
  kernel_object_pool_storage :: addr
  user_stack_pool_storage :: addr
  task_start_trampoline :: addr
  task_exit_trap :: addr
  idle_task :: addr

subsection \<open>task.c\<close>

text \<open>\<open>os_start\<close> never returns: the result is the state in which it spins, waiting for the first context switch. \<open>clock\<close>
  is the chip of a build with \<open>OS_HW_CLOCK_INIT\<close>. Without a task to run it spins forever, the result \<open>None\<close>.\<close>

definition os_start :: "layout \<Rightarrow> clock_hw option \<Rightarrow> u32 \<Rightarrow> cpu \<Rightarrow> cpu option" where
  "os_start l clock OS_CPU_HZ c = do {
     let c = os_port_set_pendsv_priority_lowest c;
     let c = os_port_mpu_init l c;
     let c = c\<lparr>kst := (kst c)\<lparr>g_first_switch := 1\<rparr>\<rparr>;
     c \<leftarrow> (case clock of None \<Rightarrow> Some c | Some hw \<Rightarrow> clock_init hw c);
     let c = systick_init OS_CPU_HZ 1000 c;
     s \<leftarrow> os_schedule (kst c);
     let s = s\<lparr>g_current := g_next s\<rparr>;
     if g_current s = NULL then None
     else do {
       t \<leftarrow> tcb_at s (g_current s);
       let c = c\<lparr>kst := s, psp := tcb_sp t\<rparr>;
       let c = systick_enable c;
       let c = c\<lparr>control := 2\<rparr>;
       Some (c\<lparr>kst := os_port_pendsv_trigger (kst c)\<rparr>)
     }
   }"

subsection \<open>main.c\<close>

text \<open>\<open>args\<close> is where \<open>os_task_create\<close> builds its request on the main stack, \<open>rest\<close> the registers the call stacks.\<close>

definition os_boot_main :: "image \<Rightarrow> (cpu \<Rightarrow> cpu option) \<Rightarrow> clock_hw option \<Rightarrow> u32 \<Rightarrow> addr \<Rightarrow> u32 list \<Rightarrow> cpu \<Rightarrow> cpu option" where
  "os_boot_main im os_app_main clock OS_CPU_HZ args rest c = do {
     let c = c\<lparr>kst := os_kalloc_init (kernel_object_pool_storage im) (user_stack_pool_storage im) (kst c)\<rparr>;
     let c = os_bench_clock_init c;
     c \<leftarrow> os_task_create (task_start_trampoline im) (task_exit_trap im) OS_TASK_IDLE (idle_task im) NULL 128 args rest c;
     c \<leftarrow> os_app_main (exception_return c);
     os_start (layout.truncate im) clock OS_CPU_HZ c
   }"

definition Reset_Handler :: "image \<Rightarrow> (cpu \<Rightarrow> cpu option) \<Rightarrow> clock_hw option \<Rightarrow> u32 \<Rightarrow> addr \<Rightarrow> u32 list \<Rightarrow> cpu \<Rightarrow> cpu option" where
  "Reset_Handler im os_app_main clock OS_CPU_HZ args rest c = do {
     s \<leftarrow> os_copy_words (user_data_start im) (user_data_load im) (user_data_end im) (kst c);
     s \<leftarrow> os_copy_words (kernel_data_start im) (kernel_data_load im) (kernel_data_end im) s;
     s \<leftarrow> os_zero_words (user_bss_start im) (user_bss_end im) s;
     s \<leftarrow> os_zero_words (kernel_bss_start im) (kernel_bss_end im) s;
     os_boot_main im os_app_main clock OS_CPU_HZ args rest (c\<lparr>kst := zero_globals s\<rparr>)
   }"

subsection \<open>Applications\<close>

text \<open>What the applications of the repository do in \<open>os_app_main\<close> as far as the kernel is concerned: they create tasks
  and initialise semaphores and mutexes.\<close>

datatype app_call =
    Create_task os_task_priority_t addr addr u32 addr "u32 list"
  | Init_sem addr u32
  | Init_mutex addr

fun run_call :: "addr \<Rightarrow> addr \<Rightarrow> app_call \<Rightarrow> cpu \<Rightarrow> cpu option" where
  "run_call tr ex (Create_task prio entry arg words args rest) c =
     map_option exception_return (os_task_create tr ex prio entry arg words args rest c)"
| "run_call tr ex (Init_sem m n) c = map_option (\<lambda>(r, s). c\<lparr>kst := s\<rparr>) (os_sem_init m n (kst c))"
| "run_call tr ex (Init_mutex m) c = map_option (\<lambda>(r, s). c\<lparr>kst := s\<rparr>) (os_mutex_init m (kst c))"

fun run_calls :: "addr \<Rightarrow> addr \<Rightarrow> app_call list \<Rightarrow> cpu \<Rightarrow> cpu option" where
  "run_calls tr ex [] c = Some c"
| "run_calls tr ex (k # ks) c = do { c \<leftarrow> run_call tr ex k c; run_calls tr ex ks c }"

end
