(* ===== verification/Progress.thy ===== *)
theory Progress
  imports Tick Mutex Semaphore
begin

text \<open>
  What a kernel service may do to the tasks that do not call it. \<open>advances a a'\<close> says that from \<open>a\<close> to \<open>a'\<close> the
  current task stays current, no task appears or disappears, a task other than the current one that can run
  still can, a task is chosen if one was chosen and one can run, a requested context switch stays requested,
  and the current task can still run unless a context switch is requested. The memory and the pools are
  untouched. Every service advances, and \<open>advances\<close> is transitive.
\<close>

definition runnable :: "astate \<Rightarrow> addr \<Rightarrow> bool" where
  "runnable a t \<longleftrightarrow> (\<exists>c. a_tcb a t = Some c \<and> tcb_state c \<noteq> OS_TASK_BLOCKED)"

lemma current_runnable_iff: "current_runnable a \<longleftrightarrow> runnable a (g_current (kern a))"
  by (simp add: current_runnable_def runnable_def)

text \<open>The parts of the state that belong to no task and no synchronisation object.\<close>

definition store :: "kstate \<Rightarrow> (addr \<Rightarrow> u32) \<times> os_mempool_t \<times> os_mempool_t \<times> (addr \<rightharpoonup> os_task_create_args_t) \<times> u32" where
  "store s = (mem s, g_kernel_object_pool s, g_user_stack_pool s, create_args s, g_first_switch s)"

definition advances :: "astate \<Rightarrow> astate \<Rightarrow> bool" where
  "advances a a' \<longleftrightarrow> g_current (kern a') = g_current (kern a) \<and> dom (a_tcb a') = dom (a_tcb a) \<and>
     store (kern a') = store (kern a) \<and>
     (\<forall>t. t \<noteq> g_current (kern a) \<and> runnable a t \<longrightarrow> runnable a' t) \<and>
     ((\<exists>t. t \<noteq> g_current (kern a) \<and> runnable a t) \<and> g_next (kern a) \<noteq> NULL \<longrightarrow> g_next (kern a') \<noteq> NULL) \<and>
     (pendsv (kern a) \<longrightarrow> pendsv (kern a')) \<and>
     (runnable a (g_current (kern a)) \<and> \<not> pendsv (kern a') \<longrightarrow> runnable a' (g_current (kern a)))"

lemma advances_trans: "advances a b \<Longrightarrow> advances b c \<Longrightarrow> advances a c"
  unfolding advances_def by metis

text \<open>An operation after which every task can run that could, and after which a task is still chosen.\<close>

definition keeps :: "astate \<Rightarrow> astate \<Rightarrow> bool" where
  "keeps a a' \<longleftrightarrow> advances a a' \<and> (\<forall>t. runnable a t \<longrightarrow> runnable a' t) \<and>
     ((\<exists>t. runnable a t) \<and> g_next (kern a) \<noteq> NULL \<longrightarrow> g_next (kern a') \<noteq> NULL)"

lemma keeps_advances: "keeps a a' \<Longrightarrow> advances a a'"
  by (simp add: keeps_def)

lemma keeps_trans: "keeps a b \<Longrightarrow> keeps b c \<Longrightarrow> keeps a c"
  unfolding keeps_def by (blast intro: advances_trans)

lemma keepsI:
  assumes "g_current (kern a') = g_current (kern a)" and "dom (a_tcb a') = dom (a_tcb a)"
    and "store (kern a') = store (kern a)" and "\<And>t. runnable a t \<Longrightarrow> runnable a' t"
    and "(\<exists>t. runnable a t) \<Longrightarrow> g_next (kern a) \<noteq> NULL \<Longrightarrow> g_next (kern a') \<noteq> NULL"
    and "pendsv (kern a) \<Longrightarrow> pendsv (kern a')"
  shows "keeps a a'"
  using assms unfolding keeps_def advances_def by blast

lemma keeps_same:
  assumes "a_tcb a' = a_tcb a" and "g_current (kern a') = g_current (kern a)" and "g_next (kern a') = g_next (kern a)"
    and "pendsv (kern a') = pendsv (kern a)" and "store (kern a') = store (kern a)"
  shows "keeps a a'"
  by (rule keepsI) (use assms in \<open>simp_all add: runnable_def\<close>)

lemma keeps_refl [simp]: "keeps a a"
  by (rule keeps_same) simp_all

lemma store_simps [kstate_simps]:
  "store (put_tcb p c s) = store s" "store (s\<lparr>primask := k\<rparr>) = store s" "store (s\<lparr>pendsv := b\<rparr>) = store s"
  "store (s\<lparr>g_next := x\<rparr>) = store s" "store (s\<lparr>g_tick := n\<rparr>) = store s" "store (set_count m f s) = store s"
  "store (map_mutex m g s) = store s"
  by (simp_all add: store_def put_tcb_def set_count_def map_mutex_def)

lemma store_upd [astate_simps]: "store (kern (a_upd t f a)) = store (kern a)"
  by (simp add: a_upd_def kstate_simps split: option.split)

lemma store_schedule [astate_simps]:
  "store (kern (a_schedule a)) = store (kern a)" "store (kern (a_schedule_and_pend a)) = store (kern a)"
  by (simp_all add: a_schedule_and_pend_def a_schedule_def Let_def astate_simps kstate_simps)

subsection \<open>The operations\<close>

lemma keeps_masked [simp]: "keeps a (masked a)" "keeps a (unmasked k a)"
  by (rule keeps_same; simp add: masked_def unmasked_def astate_simps kstate_simps)+

lemma keeps_kern:
  assumes "tcb_at (f (kern a)) = tcb_at (kern a)" and "g_current (f (kern a)) = g_current (kern a)"
    and "g_next (f (kern a)) = g_next (kern a)" and "pendsv (f (kern a)) = pendsv (kern a)"
    and "store (f (kern a)) = store (kern a)"
  shows "keeps a (a_kern f a)"
  by (rule keeps_same) (use assms in \<open>simp_all add: astate_simps\<close>)

lemma keeps_upd:
  assumes "\<And>c. a_tcb a t = Some c \<Longrightarrow> tcb_state c \<noteq> OS_TASK_BLOCKED \<Longrightarrow> tcb_state (f c) \<noteq> OS_TASK_BLOCKED"
  shows "keeps a (a_upd t f a)"
  by (rule keepsI) (use assms in \<open>auto simp: astate_simps runnable_def split: if_splits\<close>)

lemma ready_nonnull:
  assumes "lists_inv a" and "runnable a t"
  shows "first_or (ready_order a) NULL \<noteq> NULL"
proof -
  have "t \<in> set (ready_order a)" using assms by (auto simp: ready_order_iff runnable_def)
  then have "first_or (ready_order a) NULL \<in> set (ready_order a)" by (cases "ready_order a") auto
  then have "runnable a (first_or (ready_order a) NULL)" using assms(1) by (auto simp: ready_order_iff runnable_def)
  then show ?thesis by (auto simp: runnable_def)
qed

lemma keeps_schedule:
  assumes "lists_inv a"
  shows "keeps a (a_schedule a)" "keeps a (a_schedule_and_pend a)"
  by (rule keepsI; use ready_nonnull [OF assms] in \<open>auto simp: astate_simps runnable_def\<close>)+

lemma keeps_wake_one:
  assumes I: "lists_inv a" and q: "waitable q" "q \<noteq> SleepQ"
  shows "keeps a (snd (a_wake_one q a))"
proof (cases "waitq a q")
  case Nil
  then show ?thesis by (simp add: a_wake_one_def)
next
  case (Cons t ts)
  from wake_one_pre [OF I q Cons] obtain c where c: "a_tcb a t = Some c" by blast
  note w = a_wake_one_Cons [OF I q Cons c]
  have "store (kern (snd (a_wake_one q a))) = store (kern a)"
    using Cons by (simp add: a_wake_one_def a_ready_add_def astate_simps)
  then show ?thesis
    by (intro keepsI) (use c in \<open>auto simp: w astate_simps runnable_def set_woken_def\<close>)
qed

lemma keeps_set_priority:
  assumes I: "lists_inv a" and v: "valid_task a t"
  shows "keeps a (a_set_priority t p a)"
proof -
  from v obtain c where c: "a_tcb a t = Some c" by (auto simp: valid_task_def)
  have "store (kern (a_set_priority t p a)) = store (kern a)"
    by (auto simp: a_set_priority_def a_requeue_def a_assign_def a_ready_add_def a_ready_remove_def astate_simps
        split: option.split)
  then show ?thesis
    by (intro keepsI) (use c in \<open>auto simp: a_set_priority_tcb [OF I c] astate_simps runnable_def\<close>)
qed

lemmas advances_same = keeps_same [THEN keeps_advances]
lemmas advances_refl [simp] = keeps_refl [THEN keeps_advances]
lemmas advances_masked [simp] = keeps_masked [THEN keeps_advances]
lemmas advances_kern = keeps_kern [THEN keeps_advances]
lemmas advances_upd = keeps_upd [THEN keeps_advances]
lemmas advances_schedule = keeps_schedule [THEN keeps_advances]
lemmas advances_wake_one = keeps_wake_one [THEN keeps_advances]
lemmas advances_set_priority = keeps_set_priority [THEN keeps_advances]

text \<open>Blocking is the operation after which one task, the current one, cannot run.\<close>

lemma advances_block:
  assumes I: "lists_inv a" and pre: "block_pre q n po a"
  shows "advances a (a_block q n po a)"
proof -
  let ?a = "a_block q n po a" and ?t = "g_current (kern a)"
  from pre obtain c where c: "a_tcb a ?t = Some c" by (auto simp: block_pre_def)
  from a_block_tcb [OF c, of q n po] obtain k where
    tcb: "a_tcb ?a = (a_tcb a)(?t \<mapsto> (set_blocked (Some q) c)\<lparr>tcb_wake_tick := k\<rparr>)" by blast
  have L: "lists_inv ?a" using a_block_inv [OF I pre] by (simp add: sched_inv_def)
  from a_block_schedules [of q n po a] obtain b where b: "?a = a_schedule_and_pend b" by blast
  have "ready_order b = ready_order ?a" by (simp add: b astate_simps)
  then have nx: "g_next (kern ?a) = first_or (ready_order ?a) NULL" by (simp add: b astate_simps)
  have st: "store (kern ?a) = store (kern a)"
    by (simp add: a_block_def Let_def a_arm_def a_join_def a_ready_remove_def astate_simps)
  have r: "runnable ?a u" if "runnable a u" "u \<noteq> ?t" for u using that by (simp add: runnable_def tcb)
  then have "g_next (kern ?a) \<noteq> NULL" if "runnable a u" "u \<noteq> ?t" for u
    using that ready_nonnull [OF L, of u] nx by simp
  with r show ?thesis
    unfolding advances_def using st a_block_switches(2) [OF I pre] c by (auto simp: astate_simps tcb)
qed

subsection \<open>The services\<close>

lemma advances_yield: "kernel_inv a \<Longrightarrow> advances a (a_yield a)"
proof -
  assume I: "kernel_inv a"
  let ?r = "a_rotate (g_current (kern a)) a"
  have "advances a ?r" by (rule advances_same) (simp_all add: astate_simps)
  moreover have "advances ?r (a_schedule ?r)"
    using kernel_invD(2) [OF kernel_inv_rotate [OF I]] by (intro advances_schedule) simp_all
  moreover have "advances b (a_kern (pendsv_update (\<lambda>_. True)) b)" for b
    by (rule keepsI [THEN keeps_advances]) (simp_all add: astate_simps kstate_simps runnable_def)
  ultimately show ?thesis unfolding a_yield_def by (blast intro: advances_trans)
qed

lemma advances_sem_take:
  assumes "kernel_inv a" and "current_runnable a" and "sem_at (kern a) m \<noteq> None"
  shows "advances a (a_sem_take m a)"
proof (cases "0 < a_count a m")
  case True
  then show ?thesis by (auto simp: a_sem_take_def kstate_simps intro!: advances_kern)
next
  case False
  with assms show ?thesis
    by (auto simp: a_sem_take_def valid_queue_sem
        intro!: advances_block kernel_invD(2) current_runnable_block_pre)
qed

lemma advances_sem_give:
  assumes "kernel_inv a"
  shows "advances a (a_sem_give m a)"
proof (cases "waitq a (SemQ m)")
  case Nil
  then show ?thesis by (auto simp: a_sem_give_def kstate_simps intro!: advances_kern)
next
  case Cons
  note D = kernel_invD [OF assms]
  have "lists_inv (snd (a_wake_one (SemQ m) a))" by (rule a_wake_one_inv [OF D(2)]) simp_all
  then show ?thesis
    using Cons by (simp add: a_sem_give_def)
      (blast intro: advances_trans advances_wake_one [OF D(2)] advances_schedule waitable_simps)
qed

lemma advances_add_owned: "advances a (a_add_owned t m a)"
proof (rule keepsI [THEN keeps_advances])
  show "store (kern (a_add_owned t m a)) = store (kern a)"
    by (simp add: a_add_owned_def astate_simps kstate_simps split: option.split)
qed (auto simp: a_add_owned_simps runnable_def split: if_splits)

lemma advances_lock_wait:
  assumes I: "kernel_inv a" and c: "current_runnable a" and m: "mutex_at (kern a) m = Some x"
    and o: "mtx_owner x \<noteq> NULL" "mtx_owner x \<noteq> g_current (kern a)"
  shows "advances a (a_lock_wait m (mtx_owner x) a)"
proof -
  let ?t = "g_current (kern a)"
  let ?a1 = "a_upd ?t (\<lambda>c. c\<lparr>tcb_blocked_on := m\<rparr>) a"
  let ?a2 = "a_boost (mtx_owner x) (a_prio a ?t) ?a1"
  let ?a3 = "a_block (MutexQ m) OS_WAIT_FOREVER True ?a2"
  note B = lock_wait_boosted [OF I c m o]
  have "advances a ?a1" by (rule advances_upd) simp
  moreover have "advances ?a1 ?a2"
    using objects_invD(2) [OF B(1)] B(7) by (auto simp: a_boost_def intro!: advances_set_priority)
  moreover have "advances ?a2 ?a3" by (rule advances_block [OF objects_invD(2) [OF B(2)] B(5)])
  moreover have "advances ?a3 (a_upd ?t (\<lambda>c. c\<lparr>tcb_blocked_on := NULL\<rparr>) ?a3)" by (rule advances_upd) simp
  ultimately show ?thesis
    unfolding a_lock_wait_def Let_def by (meson advances_add_owned advances_trans)
qed

lemma advances_lock:
  assumes I: "kernel_inv a" and c: "current_runnable a"
  shows "advances a (snd (a_lock m a))"
proof (cases "mutex_at (kern a) m")
  case (Some x)
  have "advances a (a_kern (map_mutex m f) a)" for f by (rule advances_kern) (simp_all add: kstate_simps)
  with Some advances_lock_wait [OF I c Some] advances_trans [OF _ advances_add_owned] show ?thesis
    by (auto simp: a_lock_def)
qed (simp add: a_lock_def)

lemma advances_relinked: "relinked a b \<Longrightarrow> advances a b"
proof (induction rule: relinked.induct)
  case (relinked_owned a b t v)
  have "advances b (a_upd t (\<lambda>c. c\<lparr>tcb_owned_mutexes := v\<rparr>) b)" by (rule advances_upd) simp
  with relinked_owned show ?case by (blast intro: advances_trans)
next
  case (relinked_next a b m v)
  have "advances b (a_kern (map_mutex m (\<lambda>x. x\<lparr>mtx_next_mutex := v\<rparr>)) b)"
    by (rule advances_kern) (simp_all add: kstate_simps)
  with relinked_next show ?case by (blast intro: advances_trans)
qed simp

lemma advances_hand_over:
  assumes "kernel_inv a"
  shows "advances a (a_hand_over m a)"
proof -
  have k: "advances b (a_kern (map_mutex m f) b)" for b f by (rule advances_kern) (simp_all add: kstate_simps)
  note D = kernel_invD [OF assms]
  let ?w = "snd (a_wake_one (MutexQ m) a)"
  have "lists_inv ?w" by (rule a_wake_one_inv [OF D(2)]) simp_all
  then have "lists_inv (a_kern (map_mutex m f) ?w)" for f
    using lists_inv_cong [of "a_kern (map_mutex m f) ?w" ?w] by (simp add: astate_simps kstate_simps)
  then have "advances ?w (a_schedule_and_pend (a_kern (map_mutex m f) ?w))" for f
    by (blast intro: advances_trans k advances_schedule)
  with advances_wake_one [OF D(2), of "MutexQ m"] have
    "advances a (a_schedule_and_pend (a_kern (map_mutex m f) ?w))" for f
    by (blast intro: advances_trans waitable_simps queue_ref.distinct)
  with k show ?thesis by (simp add: a_hand_over_def split: list.split)
qed

lemma advances_unlock:
  assumes I: "kernel_inv a" and c: "current_runnable a" and u: "unlock_spec m a r a'"
  shows "advances a a'"
proof -
  from u obtain x where x: "mutex_at (kern a) m = Some x"
    and d: "if mtx_owner x \<noteq> g_current (kern a) then r = -1 \<and> a' = a
      else r = 0 \<and> (\<exists>b p. relinked a b \<and> a' = a_hand_over m (a_set_priority (g_current (kern a)) p b))"
    by (auto simp: unlock_spec_def)
  show ?thesis
  proof (cases "mtx_owner x = g_current (kern a)")
    case True
    with d obtain b p where b: "relinked a b" "a' = a_hand_over m (a_set_priority (g_current (kern a)) p b)" by auto
    have K: "kernel_inv b" by (rule relinked_kernel_inv [OF b(1) I])
    have v: "valid_task b (g_current (kern a))"
      using c relinked_same(5) [OF b(1)] by (auto simp: current_runnable_def valid_task_def)
    have "advances b (a_set_priority (g_current (kern a)) p b)"
      by (rule advances_set_priority [OF kernel_invD(2) [OF K] v])
    moreover have "advances (a_set_priority (g_current (kern a)) p b) a'"
      unfolding b(2) by (rule advances_hand_over [OF kernel_inv_set_priority [OF K v]])
    ultimately show ?thesis using advances_relinked [OF b(1)] by (blast intro: advances_trans)
  qed (use d in simp)
qed

subsection \<open>The tick\<close>

lemma keeps_expire:
  assumes L: "lists_inv a" and t: "t \<in> set (timeoutq a)"
  shows "keeps a (a_expire t a)"
proof -
  note w = lists_inv_waits [OF L t]
  have "store (kern (a_expire t a)) = store (kern a)"
    using w by (auto simp: waits_in_queue_def a_expire_def a_leave_def a_ready_add_def astate_simps)
  moreover have "pendsv (kern (a_expire t a)) = pendsv (kern a)"
    using w by (auto simp: waits_in_queue_def a_expire_def a_leave_def a_ready_add_def astate_simps)
  ultimately show ?thesis
    by (intro keepsI)
      (auto simp: a_expire_simps [OF w] a_expire_globals [OF w] runnable_def set_expired_def split: if_splits)
qed

lemma keeps_expire_all:
  assumes "kernel_inv a" and "timeoutq a = ts"
  shows "keeps a (a_expire_all now ts a)"
  using assms
proof (induction ts arbitrary: a)
  case (Cons t ts)
  have L: "lists_inv a" using kernel_invD(2) [OF Cons.prems(1)] .
  have "kernel_inv (a_expire t a)" using Cons.prems by (intro kernel_inv_expire) simp_all
  moreover have "timeoutq (a_expire t a) = ts"
    using a_expire_simps(1) [OF lists_inv_waits [OF L], of t] Cons.prems by simp
  moreover have "keeps a (a_expire t a)" using Cons.prems by (intro keeps_expire [OF L]) simp
  ultimately show ?case using Cons.IH [of "a_expire t a"] by (auto intro: keeps_trans)
qed simp

lemma keeps_tick:
  assumes I: "kernel_inv a"
  shows "keeps a (a_tick a)"
proof -
  let ?a1 = "a_kern (g_tick_update (\<lambda>_. g_tick (kern a) + 1)) a"
  let ?a2 = "a_expire_all (g_tick (kern ?a1)) (timeoutq ?a1) ?a1"
  let ?a3 = "a_process_timeouts ?a1"
  let ?a4 = "if g_current (kern ?a3) \<noteq> NULL then a_rotate (g_current (kern ?a3)) ?a3 else ?a3"
  have I1: "kernel_inv ?a1" using I by simp
  have I2: "kernel_inv ?a2" by (rule kernel_inv_expire_all [OF I1 refl])
  have I3: "kernel_inv ?a3" by (rule a_process_timeouts_kernel_inv [OF I1])
  have I4: "kernel_inv ?a4" using I3 kernel_inv_rotate [OF I3] by simp
  have "keeps a ?a1" by (rule keeps_kern) (simp_all add: kstate_simps)
  moreover have "keeps ?a1 ?a2" by (rule keeps_expire_all [OF I1 refl])
  moreover have "keeps ?a2 ?a3"
    unfolding a_process_timeouts_def using kernel_invD(2) [OF I2] by (intro keeps_schedule)
  moreover have "keeps ?a3 ?a4" by (rule keeps_same) (simp_all add: astate_simps)
  moreover have "keeps ?a4 (a_schedule_and_pend ?a4)"
    using kernel_invD(2) [OF I4] by (intro keeps_schedule)
  ultimately show ?thesis unfolding a_tick_def Let_def by (blast intro: keeps_trans)
qed

end
