(* ===== verification/System.thy ===== *)
theory System
  imports Port_Properties Progress
begin

text \<open>
  The kernel services together with the memory pools: what each service keeps of the kernel's invariant, of
  the tasks that can run and of the free blocks of the two pools. Only task creation touches the pools.
\<close>

unbundle bit_operations_syntax

subsection \<open>The pools of a running system\<close>

text \<open>Where the linker puts the two pools: apart from each other, the stacks aligned to eight bytes.\<close>

definition pools_apart :: "addr \<Rightarrow> addr \<Rightarrow> bool" where
  "pools_apart kb ub \<longleftrightarrow> unat ub mod 8 = 0 \<and>
     (unat kb + 32 * 64 \<le> unat ub \<or> unat ub + 8 * 1024 \<le> unat kb)"

text \<open>The free kernel objects \<open>xs\<close> hold no task, the free stacks are \<open>ys\<close>.\<close>

definition pools_ok :: "addr \<Rightarrow> addr \<Rightarrow> kstate \<Rightarrow> addr list \<Rightarrow> addr list \<Rightarrow> bool" where
  "pools_ok kb ub s xs ys \<longleftrightarrow> pools_apart kb ub \<and> pool_rep KernelObjectPool kb 64 32 s xs \<and>
     pool_rep UserStackPool ub 1024 8 s ys \<and> (\<forall>x\<in>set xs. tcb_at s x = None)"

lemma pool_rep_frame_free:
  assumes "pool_rep p base bs n s xs" and "get_pool s' p = get_pool s p" and "\<And>x. x \<in> set xs \<Longrightarrow> mem s' x = mem s x"
  shows "pool_rep p base bs n s' xs"
proof -
  have "free_chain (mem s') q xs = free_chain (mem s) q xs" for q using assms by (intro free_chain_cong) auto
  with assms show ?thesis by (simp add: pool_rep_def)
qed

lemma pools_ok_frame:
  assumes "pools_ok kb ub s xs ys" and "get_pool s' = get_pool s" and "\<And>x. x \<in> set xs \<union> set ys \<Longrightarrow> mem s' x = mem s x"
    and "\<And>x. x \<in> set xs \<Longrightarrow> tcb_at s x = None \<Longrightarrow> tcb_at s' x = None"
  shows "pools_ok kb ub s' xs ys"
  using assms pool_rep_frame_free [of KernelObjectPool kb 64 32 s xs s'] pool_rep_frame_free [of UserStackPool ub 1024 8 s ys s']
  by (auto simp: pools_ok_def)

lemma stack_frame_avoids:
  fixes stk n x :: u32
  assumes stk: "stk \<in> pool_blocks ub 1024 8" and f: "pool_fits ub 1024 8" and a: "unat ub mod 8 = 0"
    and n: "16 \<le> unat n" "unat n \<le> 256" and i: "i < 16"
    and x: "x \<in> pool_blocks ub 1024 8 - {stk} \<or> unat x < unat ub \<or> unat ub + 8 * 1024 \<le> unat x"
  shows "x \<noteq> (((stk + 4 * n) AND NOT 7) - 64) + 4 * of_nat i"
proof -
  from stk obtain k where k: "k < 8" "stk = pool_block ub 1024 k" by (auto simp: pool_blocks_def)
  have u: "unat (pool_block ub 1024 j) = unat ub + j * 1024" if "j < 8" for j
    using unat_pool_block [OF f, of j] that by simp
  have e: "unat ub + 8 * 1024 < 2 ^ 32" using f by (simp add: pool_fits_def)
  have s: "unat stk = unat ub + k * 1024" using u k by simp
  then have "unat stk mod 8 = 0" using a by presburger
  moreover have "unat stk + 4 * unat n < 2 ^ 32" using s e k n by simp
  ultimately have r: "unat stk \<le> unat ((((stk + 4 * n) AND NOT 7) - 64) + 4 * of_nat i)"
    "unat ((((stk + 4 * n) AND NOT 7) - 64) + 4 * of_nat i) + 4 \<le> unat stk + 4 * unat n"
    using initial_sp_in_stack [of stk n i] n(1) i by simp_all
  from x show ?thesis
  proof (elim disjE)
    assume "x \<in> pool_blocks ub 1024 8 - {stk}"
    then obtain j where j: "j < 8" "x = pool_block ub 1024 j" "x \<noteq> stk" by (auto simp: pool_blocks_def)
    then have "j \<noteq> k" using k by auto
    then have "unat x + 1024 \<le> unat stk \<or> unat stk + 1024 \<le> unat x" using j u k s by auto
    with r n(2) show ?thesis by auto
  qed (use r s k n in auto)
qed

subsection \<open>Services\<close>

lemma call_advances:
  assumes "\<exists>a'. kernel_rel s' (unmasked k a') \<and> kernel_inv a' \<and> P a' \<and> Q"
    and "\<And>a'. P a' \<Longrightarrow> kernel_inv a' \<Longrightarrow> advances (masked a) a'"
  shows "\<exists>a'. kernel_rel s' a' \<and> kernel_inv a' \<and> advances a a'"
proof -
  from assms obtain a' where a': "kernel_rel s' (unmasked k a')" "kernel_inv a'" "advances (masked a) a'" by blast
  then have "advances a (unmasked k a')" by (blast intro: advances_trans advances_masked)
  with a' show ?thesis by (auto simp: astate_simps)
qed

lemma service_NULL:
  assumes "kernel_service tr ex k NULL s = Some (r, s')"
    and "k \<notin> {OS_SYSCALL_YIELD, OS_SYSCALL_DELAY_TICKS}"
  shows "s' = s"
  using assms
  by (cases k) (simp_all add: os_kernel_sem_take_def os_kernel_sem_give_def os_kernel_mutex_lock_def
      os_kernel_mutex_unlock_def os_kernel_task_create_def)

lemma object_service_advances:
  assumes R: "kernel_rel s a" and I: "kernel_inv a" and c: "current_runnable a" and x: "x \<noteq> NULL"
    and k: "kernel_service tr ex k x s = Some (r, s')"
    and "k \<notin> {OS_SYSCALL_YIELD, OS_SYSCALL_DELAY_TICKS, OS_SYSCALL_TASK_CREATE}"
  shows "\<exists>a'. kernel_rel s' a' \<and> kernel_inv a' \<and> advances a a'"
proof -
  have M: "kernel_inv (masked a)" "current_runnable (masked a)" using I c by (simp_all add: astate_simps)
  show ?thesis
  proof (cases k)
    case OS_SYSCALL_SEM_TAKE
    with k have call: "os_kernel_sem_take x s = Some (r, s')" by simp
    then have "sem_at s x \<noteq> None"
      using x by (cases "sem_at s x") (auto simp: os_kernel_sem_take_def os_port_irq_save_def kstate_simps)
    then have sem: "sem_at (kern (masked a)) x \<noteq> None" using kernel_rel_sem(1) [OF R] by (simp add: astate_simps)
    from sem_take.call_keeps [OF x R I c call] show ?thesis
      by (rule call_advances) (use M sem in \<open>auto intro: advances_sem_take\<close>)
  next
    case OS_SYSCALL_SEM_GIVE
    with k have "os_kernel_sem_give x s = Some (r, s')" by simp
    from sem_give.call_keeps [OF x R I c this] show ?thesis
      by (rule call_advances) (use M in \<open>auto intro: advances_sem_give\<close>)
  next
    case OS_SYSCALL_MUTEX_LOCK
    with k have "os_kernel_mutex_lock x s = Some (r, s')" by simp
    from mutex_lock.call_keeps [OF x R I c this] show ?thesis
      by (rule call_advances) (use advances_lock [OF M] in \<open>auto simp: prod_eq_iff\<close>)
  next
    case OS_SYSCALL_MUTEX_UNLOCK
    with k have "os_kernel_mutex_unlock x s = Some (r, s')" by simp
    from mutex_unlock.call_keeps [OF x R I c this] show ?thesis
      by (rule call_advances) (use M in \<open>auto intro: advances_unlock\<close>)
  qed (use assms in simp_all)
qed

lemma service_advances:
  assumes R: "kernel_rel s a" and I: "kernel_inv a" and c: "current_runnable a"
    and k: "kernel_service tr ex k x s = Some (r, s')" "k \<noteq> OS_SYSCALL_TASK_CREATE"
  shows "\<exists>a'. kernel_rel s' a' \<and> kernel_inv a' \<and> advances a a'"
proof -
  have y: "\<exists>a'. kernel_rel s' a' \<and> kernel_inv a' \<and> advances a a'" if "os_kernel_yield s = Some s'"
    using os_kernel_yield_refines [OF R I] that a_yield_inv [OF I] advances_yield [OF I] by auto
  have d: "\<exists>a'. kernel_rel s' a' \<and> kernel_inv a' \<and> advances a a'" if "x \<noteq> 0" "os_kernel_delay_ticks x s = Some s'"
  proof -
    have "kernel_inv (masked a)" "current_runnable (masked a)" using I c by (simp_all add: astate_simps)
    moreover from that have "delay_call x s = Some (0, s')" by (simp add: delay_call_def)
    from delay.call_keeps [OF that(1) R I c this] show ?thesis
      by (rule call_advances) (use calculation in \<open>auto intro!: advances_block kernel_invD(2) delay_block_pre\<close>)
  qed
  consider "k = OS_SYSCALL_YIELD" | "k = OS_SYSCALL_DELAY_TICKS" | "k \<notin> {OS_SYSCALL_YIELD, OS_SYSCALL_DELAY_TICKS}" by blast
  then show ?thesis
  proof cases
    case 2
    with k d y show ?thesis by (cases "x = 0") (auto simp: os_kernel_delay_ticks_def)
  next
    case 3
    show ?thesis
    proof (cases "x = NULL")
      case True
      with service_NULL [of tr ex k s r s'] k 3 have "s' = s" by simp
      with R I show ?thesis by (blast intro: advances_refl)
    qed (use object_service_advances [OF R I c _ k(1)] 3 k(2) in auto)
  qed (use k y in auto)
qed

text \<open>Creating a task: the tasks that could run still can, one of them is chosen, and the pools stay
  consistent when the stack is large enough for the initial frame.\<close>

definition large_stack :: "kstate \<Rightarrow> addr \<Rightarrow> bool" where
  "large_stack s args \<longleftrightarrow> (\<forall>r. create_args s args = Some r \<longrightarrow> 16 \<le> unat (arg_stack_words r))"

lemma create_success_pools:
  fixes stk n :: u32
  assumes P: "pools_ok kb ub s (t # xs) (stk # ys)" and n: "16 \<le> unat n" "unat n \<le> 256"
    and P3: "pool_rep KernelObjectPool kb 64 32 s3 xs" "pool_rep UserStackPool ub 1024 8 s3 ys" "mem s3 = mem s"
    and g: "get_pool s' = get_pool s3"
    and m: "\<And>x. \<forall>i<16. x \<noteq> (((stk + 4 * n) AND NOT 7) - 64) + 4 * of_nat i \<Longrightarrow> mem s' x = mem s x"
    and d: "\<And>x. x \<noteq> t \<Longrightarrow> tcb_at s' x = None \<longleftrightarrow> tcb_at s x = None"
  shows "pools_ok kb ub s' xs ys"
proof -
  have A: "unat ub mod 8 = 0" "unat kb + 32 * 64 \<le> unat ub \<or> unat ub + 8 * 1024 \<le> unat kb"
    and f: "pool_fits ub 1024 8" "pool_fits kb 64 32"
    and s: "stk \<in> pool_blocks ub 1024 8" "stk \<notin> set ys" "set ys \<subseteq> pool_blocks ub 1024 8" "t \<notin> set xs"
      "set xs \<subseteq> pool_blocks kb 64 32" "\<forall>x\<in>set xs. tcb_at s x = None"
    using P by (auto simp: pools_ok_def pools_apart_def pool_rep_def)
  have k: "unat x < unat ub \<or> unat ub + 8 * 1024 \<le> unat x" if x: "x \<in> set xs" for x
  proof -
    from x s(5) obtain i where "i < 32" "x = pool_block kb 64 i" by (auto simp: pool_blocks_def)
    then have "unat x = unat kb + i * 64" "i < 32" using unat_pool_block [OF f(2), of i] by simp_all
    with A(2) show ?thesis by auto
  qed
  have "mem s' x = mem s3 x" if "x \<in> set xs \<union> set ys" for x
  proof -
    have "x \<in> pool_blocks ub 1024 8 - {stk} \<or> unat x < unat ub \<or> unat ub + 8 * 1024 \<le> unat x"
      using that k s(2,3) by auto
    then show ?thesis
      unfolding P3(3) by (intro m allI impI stack_frame_avoids [OF s(1) f(1) A(1) n])
  qed
  then have "pool_rep KernelObjectPool kb 64 32 s' xs" "pool_rep UserStackPool ub 1024 8 s' ys"
    using pool_rep_frame_free [OF P3(1), of s'] pool_rep_frame_free [OF P3(2), of s'] g by simp_all
  moreover have "\<forall>x\<in>set xs. tcb_at s' x = None" using s(4,6) d by metis
  ultimately show ?thesis using P by (simp add: pools_ok_def)
qed

text \<open>What creation may do, successful or not: like \<open>advances\<close>, except that a task that can run may appear.\<close>

definition grows :: "astate \<Rightarrow> astate \<Rightarrow> bool" where
  "grows a a' \<longleftrightarrow> g_current (kern a') = g_current (kern a) \<and> (\<forall>t. runnable a t \<longrightarrow> runnable a' t) \<and>
     (\<forall>t. a_tcb a t = None \<and> a_tcb a' t \<noteq> None \<longrightarrow> runnable a' t) \<and>
     (\<forall>t c. a_tcb a' t = Some c \<longrightarrow>
       a_tcb a t = Some c \<or> tcb_priority c = tcb_base_priority c \<and> tcb_owned_mutexes c = NULL) \<and>
     dom (sem_at (kern a')) = dom (sem_at (kern a)) \<and> mutex_at (kern a') = mutex_at (kern a) \<and>
     ((\<exists>t. runnable a t) \<and> g_next (kern a) \<noteq> NULL \<longrightarrow> g_next (kern a') \<noteq> NULL) \<and>
     (pendsv (kern a) \<longrightarrow> pendsv (kern a')) \<and> g_first_switch (kern a') = g_first_switch (kern a)"

lemma growsI:
  assumes "g_first_switch (kern a') = g_first_switch (kern a)" and "\<And>t. runnable a t \<Longrightarrow> runnable a' t"
    and "\<And>t. a_tcb a t = None \<Longrightarrow> a_tcb a' t \<noteq> None \<Longrightarrow> runnable a' t"
    and "\<And>t c. a_tcb a' t = Some c \<Longrightarrow> a_tcb a t = Some c \<or> tcb_priority c = tcb_base_priority c \<and> tcb_owned_mutexes c = NULL"
    and "\<And>t. runnable a t \<Longrightarrow> g_next (kern a') \<noteq> NULL" and "pendsv (kern a) \<Longrightarrow> pendsv (kern a')"
    and "g_current (kern a') = g_current (kern a)" and "sem_at (kern a') = sem_at (kern a)" and "mutex_at (kern a') = mutex_at (kern a)"
  shows "grows a a'"
  unfolding grows_def using assms by (intro conjI allI impI; (elim conjE exE)?; simp)

lemma grows_trans:
  assumes "grows a b" and "grows b c"
  shows "grows a c"
proof -
  have "runnable c t" if "a_tcb a t = None" "a_tcb c t \<noteq> None" for t
    using assms that by (cases "a_tcb b t = None") (auto simp: grows_def)
  moreover have "a_tcb a t = Some d \<or> tcb_priority d = tcb_base_priority d \<and> tcb_owned_mutexes d = NULL" if "a_tcb c t = Some d" for t d
    using assms that unfolding grows_def by blast
  ultimately show ?thesis using assms by (auto simp: grows_def)
qed

lemma grows_same:
  assumes "kernel_rel s a" and "sched_same s s'" and "g_first_switch s' = g_first_switch s"
  shows "grows a (a\<lparr>kern := core s'\<rparr>)"
  using assms
  by (auto simp: grows_def runnable_def kernel_rel_def sched_same_def tcb_at_core sem_at_core mutex_at_core dom_def)
    (simp_all add: core_def)

lemma kernel_rel_tcb_None: "kernel_rel s a \<Longrightarrow> tcb_at s x = None \<longleftrightarrow> a_tcb a x = None"
  by (simp add: kernel_rel_def tcb_at_core)

text \<open>Admitting a new task.\<close>

lemma admit_grows:
  assumes t: "t \<noteq> NULL" and b: "b = a_admit t (masked (a_new t (new_task sp p) a))" and I: "kernel_inv b"
  shows "grows a (unmasked k b)" "sem_at (kern b) = sem_at (kern a)" "mutex_at (kern b) = mutex_at (kern a)" "timeoutq b = timeoutq a"
proof -
  have c: "blank_tcb (new_task sp p) = new_task sp p" by (simp add: new_task_def blank_tcb_def)
  note eff = a_admit_effect [OF t refl, of b sp p a, unfolded c, OF b]
  show objs: "sem_at (kern b) = sem_at (kern a)" "mutex_at (kern b) = mutex_at (kern a)" and "timeoutq b = timeoutq a"
    by (simp_all add: b a_admit_def Let_def a_schedule_def a_ready_add_def a_new_def astate_simps kstate_simps)
  have r: "runnable a u \<Longrightarrow> runnable b u" for u by (auto simp: runnable_def eff(2) new_task_def)
  have new: "a_tcb a u = None \<Longrightarrow> a_tcb b u \<noteq> None \<Longrightarrow> runnable b u" for u
    by (auto simp: runnable_def eff(2) new_task_def split: if_splits)
  have old: "a_tcb b u = Some c \<Longrightarrow> a_tcb a u = Some c \<or> tcb_priority c = tcb_base_priority c \<and> tcb_owned_mutexes c = NULL" for u c
    by (auto simp: eff(2) new_task_def split: if_splits)
  have nx: "runnable a u \<Longrightarrow> g_next (kern b) \<noteq> NULL" for u
    using ready_nonnull [OF kernel_invD(2) [OF I] r, of u] eff(4) by simp
  have ru: "runnable (unmasked k b) = runnable b" by (simp add: runnable_def astate_simps fun_eq_iff)
  have "g_first_switch (kern (unmasked k b)) = g_first_switch (kern a)" using eff(9) by (simp add: unmasked_def astate_simps kstate_simps)
  then show "grows a (unmasked k b)"
  proof (rule growsI)
    show "runnable (unmasked k b) u" if "runnable a u" for u unfolding ru using that by (rule r)
    show "runnable (unmasked k b) u" if "a_tcb a u = None" "a_tcb (unmasked k b) u \<noteq> None" for u
      unfolding ru using that(1) that(2) [unfolded unmasked_simps] by (rule new)
    show "a_tcb a u = Some c \<or> tcb_priority c = tcb_base_priority c \<and> tcb_owned_mutexes c = NULL"
      if "a_tcb (unmasked k b) u = Some c" for u c using that [unfolded unmasked_simps] by (rule old)
    show "g_next (kern (unmasked k b)) \<noteq> NULL" if "runnable a u" for u unfolding unmasked_simps using that by (rule nx)
    show "pendsv (kern (unmasked k b))" if "pendsv (kern a)" unfolding unmasked_simps using that by (rule eff(10))
  qed (simp_all only: unmasked_simps objs eff(3))
qed

lemma create_success_grows:
  assumes R: "kernel_rel s a" and I: "kernel_inv a" and v: "args \<noteq> NULL" "create_args s args = Some r"
    "arg_entry r \<noteq> NULL" "arg_priority r \<le> OS_TASK_IDLE" "16 \<le> unat (arg_stack_words r)" "arg_stack_words r \<le> OS_TASK_STACK_WORDS"
    and P: "pools_ok kb ub s (t # xs) (stk # ys)"
  shows "\<exists>s' a'. os_kernel_task_create tr ex args s = Some (0, s') \<and> kernel_rel s' a' \<and> kernel_inv a' \<and> grows a a' \<and>
    pools_ok kb ub s' xs ys \<and> runnable a' t \<and>
    (\<exists>sp. a_tcb a' = (a_tcb a)(t \<mapsto> new_task sp (arg_priority r))) \<and> tcb_at s t = None \<and> t \<noteq> NULL \<and>
    waitq a' = (waitq a)(ReadyQ (arg_priority r) := waitq a (ReadyQ (arg_priority r)) @ [t]) \<and> timeoutq a' = timeoutq a \<and>
    mutex_at (kern a') = mutex_at (kern a) \<and> g_next (kern a') = first_or (ready_order a') NULL \<and>
    (g_current (kern a) \<noteq> NULL \<and> g_next (kern a') \<noteq> g_current (kern a) \<longrightarrow> pendsv (kern a'))"
proof -
  define sp where "sp = ((stk + 4 * arg_stack_words r) AND NOT 7) - 64"
  have w: "0 < arg_stack_words r" "unat (arg_stack_words r) \<le> 256"
    using v(5,6) by (simp_all add: word_less_nat_alt word_le_nat_alt OS_TASK_STACK_WORDS_def)
  have K: "pool_rep KernelObjectPool kb 64 32 s (t # xs)" "pool_rep UserStackPool ub 1024 8 s (stk # ys)" "tcb_at s t = None"
    using P by (simp_all add: pools_ok_def)
  from R I v(1-4) w(1) v(6) K sp_def obtain s3 s4 s' b where S: "os_kernel_task_create tr ex args s = Some (0, s')"
    "kernel_rel s' (unmasked (primask s) b)" "kernel_inv b"
    "b = a_admit t (masked (a_new t (new_task sp (arg_priority r)) (a\<lparr>kern := core s4\<rparr>)))" "t \<noteq> NULL" "sched_same s s4"
    "words_at s4 sp 16 = frame_words tr ex (arg_entry r) (arg_arg r)"
    "\<forall>x. (\<forall>i<16. x \<noteq> sp + 4 * of_nat i) \<longrightarrow> mem s4 x = mem s x" "get_pool s4 = get_pool s3"
    "pool_rep KernelObjectPool kb 64 32 s3 xs" "pool_rep UserStackPool ub 1024 8 s3 ys" "mem s3 = mem s"
    "create_args s4 = create_args s" "g_first_switch s4 = g_first_switch s"
    by (rule task_create_success [where tr = tr and ex = ex])
  have c: "blank_tcb (new_task sp (arg_priority r)) = new_task sp (arg_priority r)" by (simp add: new_task_def blank_tcb_def)
  let ?a4 = "a\<lparr>kern := core s4\<rparr>"
  note eff = a_admit_effect [OF S(5) refl, of b sp "arg_priority r" ?a4, unfolded c, OF S(4)]
  have G4: "grows a ?a4" by (rule grows_same [OF R S(6,14)])
  note adm = admit_grows [OF S(5,4,3)]
  from G4 adm(1) have G: "grows a (unmasked (primask s) b)" by (rule grows_trans)
  have q: "mem s' = mem s4" "get_pool s' = get_pool s4"
    using kernel_rel_mem [OF S(2)] kernel_rel_pools [OF S(2)] eff(6,7) by (simp_all add: pools_core)
  have tcb: "tcb_at s' x = None \<longleftrightarrow> tcb_at s x = None" if "x \<noteq> t" for x
    using kernel_rel_tcb_None [OF S(2), of x] eff(2) S(6) that by (simp add: astate_simps sched_same_def tcb_at_core)
  have "pools_ok kb ub s' xs ys"
    by (rule create_success_pools [OF P v(5) w(2) S(10-12)]) (use q S(8,9) tcb in \<open>simp_all add: sp_def\<close>)
  moreover have "runnable (unmasked (primask s) b) t" using eff(2) by (simp add: runnable_def astate_simps new_task_def)
  moreover have same: "a_tcb ?a4 = a_tcb a" "mutex_at (kern ?a4) = mutex_at (kern a)" "g_current (kern ?a4) = g_current (kern a)"
    using R S(6) by (simp_all add: kernel_rel_def sched_same_def tcb_at_core mutex_at_core fun_eq_iff) (simp add: core_def)
  ultimately show ?thesis
    using S(1-3,5) G K(3) eff(1-5) adm(3,4) same
    by (intro exI [of _ s'] exI [of _ "unmasked (primask s) b"]) (auto simp: astate_simps ready_order_unmasked)
qed

lemma create_no_stack_grows:
  assumes R: "kernel_rel s a" and I: "kernel_inv a" and v: "args \<noteq> NULL" "create_args s args = Some r"
    "arg_entry r \<noteq> NULL" "arg_priority r \<le> OS_TASK_IDLE"
    and w: "arg_stack_words r = 0 \<or> arg_stack_words r > OS_TASK_STACK_WORDS \<or> ys = []" and P: "pools_ok kb ub s (t # xs) ys"
  shows "\<exists>s' a'. os_kernel_task_create tr ex args s = Some (-1, s') \<and> kernel_rel s' a' \<and> kernel_inv a' \<and> grows a a' \<and>
    pools_ok kb ub s' (t # xs) ys"
proof -
  have K: "pool_rep KernelObjectPool kb 64 32 s (t # xs)" "pool_rep UserStackPool ub 1024 8 s ys"
    and A: "pools_apart kb ub" using P by (simp_all add: pools_ok_def)
  from task_create_no_stack [OF v K w, of tr ex] obtain s' where
    s': "os_kernel_task_create tr ex args s = Some (-1, s')" "sched_same s s'"
      "pool_rep KernelObjectPool kb 64 32 s' (t # xs)" "\<forall>x. x \<noteq> t \<longrightarrow> mem s' x = mem s x"
      "get_pool s' UserStackPool = get_pool s UserStackPool" "g_first_switch s' = g_first_switch s" by blast
  have t: "t \<notin> set ys"
  proof
    assume "t \<in> set ys"
    then obtain j where j: "j < 8" "t = pool_block ub 1024 j" using K(2) by (auto simp: pool_rep_def pool_blocks_def)
    obtain i where i: "i < 32" "t = pool_block kb 64 i" using K(1) by (auto simp: pool_rep_def pool_blocks_def)
    have "unat t = unat ub + j * 1024" "unat t = unat kb + i * 64"
      using unat_pool_block [of ub 1024 8 j] unat_pool_block [of kb 64 32 i] K i j by (simp_all add: pool_rep_def)
    with A i(1) j(1) show False by (auto simp: pools_apart_def)
  qed
  have U: "pool_rep UserStackPool ub 1024 8 s' ys"
    by (rule pool_rep_frame_free [OF K(2) s'(5)]) (use s'(4) t in auto)
  then have "pools_ok kb ub s' (t # xs) ys" using P s'(2,3) by (simp add: pools_ok_def sched_same_def)
  with s'(1) kernel_rel_same [OF R s'(2)] I grows_same [OF R s'(2,6)] show ?thesis by blast
qed

text \<open>A request that can be read is always answered.\<close>

lemma create_total:
  assumes R: "kernel_rel s a" and I: "kernel_inv a" and P: "pools_ok kb ub s xs ys"
    and q: "args \<noteq> NULL" "create_args s args = Some q" "16 \<le> unat (arg_stack_words q)"
  shows "\<exists>r s' a' xs' ys'. os_kernel_task_create tr ex args s = Some (r, s') \<and> kernel_rel s' a' \<and> kernel_inv a' \<and>
    grows a a' \<and> pools_ok kb ub s' xs' ys' \<and> set xs' \<subseteq> set xs \<and> set ys' \<subseteq> set ys"
proof (cases "arg_entry q = NULL \<or> arg_priority q > OS_TASK_IDLE")
  case True
  with q have "os_kernel_task_create tr ex args s = Some (-1, s)" by (auto simp: os_kernel_task_create_def)
  moreover have "grows a a" by (auto simp: grows_def)
  ultimately show ?thesis using R I P by blast
next
  case False
  then have v: "arg_entry q \<noteq> NULL" "arg_priority q \<le> OS_TASK_IDLE" by simp_all
  show ?thesis
  proof (cases xs)
    case Nil
    let ?s = "s\<lparr>g_debug_step := 1\<rparr>"
    have "os_kernel_task_create tr ex args s = Some (-1, ?s)"
      using task_create_no_object [OF q(1,2) v, of kb 64 32] P Nil by (simp add: pools_ok_def)
    moreover have "pools_ok kb ub ?s xs ys" using P by (simp add: pools_ok_def pool_rep_def kstate_simps)
    moreover have "kernel_rel ?s (a\<lparr>kern := core ?s\<rparr>)" "kernel_inv (a\<lparr>kern := core ?s\<rparr>)" "grows a (a\<lparr>kern := core ?s\<rparr>)"
      using kernel_rel_same [OF R sched_same_fields(2)] I grows_same [OF R sched_same_fields(2)] by auto
    ultimately show ?thesis by blast
  next
    case (Cons t us)
    show ?thesis
    proof (cases "arg_stack_words q > OS_TASK_STACK_WORDS \<or> ys = []")
      case True
      with create_no_stack_grows [OF R I q(1,2) v, of ys kb ub t us tr ex] P Cons show ?thesis by blast
    next
      case False
      then obtain stk zs where y: "ys = stk # zs" "arg_stack_words q \<le> OS_TASK_STACK_WORDS" by (cases ys) auto
      with create_success_grows [OF R I q(1,2) v q(3), of kb ub t us stk zs tr ex] P Cons obtain s' a' where
        "os_kernel_task_create tr ex args s = Some (0, s')" "kernel_rel s' a'" "kernel_inv a'" "grows a a'"
          "pools_ok kb ub s' us zs" by auto
      moreover have "set us \<subseteq> set xs" "set zs \<subseteq> set ys" using Cons y(1) by auto
      ultimately show ?thesis by blast
    qed
  qed
qed

lemma create_grows:
  assumes R: "kernel_rel s a" and I: "kernel_inv a" and P: "pools_ok kb ub s xs ys" and l: "large_stack s args"
    and c: "os_kernel_task_create tr ex args s = Some (r, s')"
  shows "\<exists>a' xs' ys'. kernel_rel s' a' \<and> kernel_inv a' \<and> grows a a' \<and> pools_ok kb ub s' xs' ys' \<and>
    set xs' \<subseteq> set xs \<and> set ys' \<subseteq> set ys"
proof (cases "args = NULL")
  case True
  with c have "s' = s" by (simp add: os_kernel_task_create_def)
  moreover have "grows a a" by (auto simp: grows_def)
  ultimately show ?thesis using R I P by blast
next
  case False
  with c obtain q where "create_args s args = Some q"
    by (cases "create_args s args") (auto simp: os_kernel_task_create_def split: if_splits)
  with create_total [OF R I P False this, of tr ex] c l show ?thesis by (auto simp: large_stack_def)
qed

end
