(* ===== verification/Commit_Steps.thy ===== *)
theory Commit_Steps
  imports System
begin

text \<open>
  \<open>os_commit_switch\<close> in steps of one access to memory each. It runs in PendSV with interrupts enabled, so a tick can come
  between any two of its loads and stores. The image is built without optimisation, so that every use of \<open>g_next\<close> is a load
  of its own; a compiler that optimises may use the value of an earlier load, and the steps allow both. Without a
  tick between them the steps compute exactly what \<open>os_commit_switch\<close> is said to compute in one go.
\<close>

subsection \<open>Steps\<close>

text \<open>Where \<open>os_commit_switch\<close> is: the values it has loaded so far, \<open>prev\<close> of \<open>g_current\<close> and then one of \<open>g_next\<close>. It is
  about to load \<open>g_next\<close> for the test of \<open>NULL\<close>, to compare it with \<open>prev\<close>, to load the state of \<open>prev\<close>, to store it, to load
  \<open>g_next\<close> for the assignment, to store \<open>g_current\<close>, or to store the state of the new current task.\<close>

datatype commit_pc = Load_next addr | Compare addr addr | Check addr addr | Demote addr addr | Reload addr | Assign addr | Promote

text \<open>The mode of the processor. \<open>Thread\<close>: a task runs. \<open>Handler\<close>: a handler has ended and has not yet returned to a task.
  \<open>Saved\<close>: PendSV has saved the context. \<open>Committing\<close>: it is in \<open>os_commit_switch\<close>. \<open>Committed\<close>: that has returned.\<close>

datatype mode = Thread | Handler | Saved | Committing commit_pc | Committed

inductive commit_step :: "mode \<Rightarrow> kstate \<Rightarrow> mode \<Rightarrow> kstate \<Rightarrow> bool" where
  load_current: "commit_step Saved s (Committing (Load_next (g_current s))) s"
| load_next: "commit_step (Committing (Load_next prev)) s
    (if g_next s = NULL then Committed else Committing (Compare prev (g_next s))) s"
| compare: "n' = n \<or> n' = g_next s \<Longrightarrow> commit_step (Committing (Compare prev n)) s
    (Committing (if prev \<noteq> NULL \<and> prev \<noteq> n' then Check prev n' else Reload n')) s"
| check: "tcb_at s prev = Some t \<Longrightarrow> commit_step (Committing (Check prev n)) s
    (Committing (if tcb_state t = OS_TASK_RUNNING then Demote prev n else Reload n)) s"
| demote: "upd_tcb prev (\<lambda>t. t\<lparr>tcb_state := OS_TASK_READY\<rparr>) s = Some s' \<Longrightarrow>
    commit_step (Committing (Demote prev n)) s (Committing (Reload n)) s'"
| reload: "n' = n \<or> n' = g_next s \<Longrightarrow> commit_step (Committing (Reload n)) s (Committing (Assign n')) s"
| assign: "commit_step (Committing (Assign n)) s (Committing Promote) (s\<lparr>g_current := n\<rparr>)"
| promote: "upd_tcb (g_current s) (\<lambda>t. t\<lparr>tcb_state := OS_TASK_RUNNING\<rparr>) s = Some s' \<Longrightarrow>
    commit_step (Committing Promote) s Committed s'"

inductive_cases commit_step_Saved: "commit_step Saved s m' s'"
inductive_cases commit_step_Committed: "commit_step Committed s m' s'"
inductive_cases commit_step_Load_next: "commit_step (Committing (Load_next prev)) s m' s'"
inductive_cases commit_step_Compare: "commit_step (Committing (Compare prev n)) s m' s'"
inductive_cases commit_step_Check: "commit_step (Committing (Check prev n)) s m' s'"
inductive_cases commit_step_Demote: "commit_step (Committing (Demote prev n)) s m' s'"
inductive_cases commit_step_Reload: "commit_step (Committing (Reload n)) s m' s'"
inductive_cases commit_step_Assign: "commit_step (Committing (Assign n)) s m' s'"
inductive_cases commit_step_Promote: "commit_step (Committing Promote) s m' s'"

text \<open>The value of \<open>g_next\<close> that is held in a register.\<close>

fun loaded :: "mode \<Rightarrow> addr option" where
  "loaded (Committing (Compare prev n)) = Some n"
| "loaded (Committing (Check prev n)) = Some n"
| "loaded (Committing (Demote prev n)) = Some n"
| "loaded (Committing (Reload n)) = Some n"
| "loaded (Committing (Assign n)) = Some n"
| "loaded m = None"

subsection \<open>The steps without interruption\<close>

text \<open>What is left of \<open>os_commit_switch\<close> at each point.\<close>

definition finish_switch :: "addr \<Rightarrow> kstate \<Rightarrow> kstate option" where
  "finish_switch n s = upd_tcb n (\<lambda>t. t\<lparr>tcb_state := OS_TASK_RUNNING\<rparr>) (s\<lparr>g_current := n\<rparr>)"

definition demote_switch :: "addr \<Rightarrow> addr \<Rightarrow> kstate \<Rightarrow> kstate option" where
  "demote_switch prev n s = do { s \<leftarrow> upd_tcb prev (\<lambda>t. t\<lparr>tcb_state := OS_TASK_READY\<rparr>) s; finish_switch n s }"

definition check_switch :: "addr \<Rightarrow> addr \<Rightarrow> kstate \<Rightarrow> kstate option" where
  "check_switch prev n s = do {
     t \<leftarrow> tcb_at s prev;
     if tcb_state t = OS_TASK_RUNNING then demote_switch prev n s else finish_switch n s
   }"

definition compare_switch :: "addr \<Rightarrow> addr \<Rightarrow> kstate \<Rightarrow> kstate option" where
  "compare_switch prev n s = (if prev \<noteq> NULL \<and> prev \<noteq> n then check_switch prev n s else finish_switch n s)"

fun commit_rest :: "mode \<Rightarrow> kstate \<Rightarrow> kstate option" where
  "commit_rest (Committing (Load_next prev)) s = (if g_next s = NULL then Some s else compare_switch prev (g_next s) s)"
| "commit_rest (Committing (Compare prev n)) s = compare_switch prev n s"
| "commit_rest (Committing (Check prev n)) s = check_switch prev n s"
| "commit_rest (Committing (Demote prev n)) s = demote_switch prev n s"
| "commit_rest (Committing (Reload n)) s = finish_switch n s"
| "commit_rest (Committing (Assign n)) s = finish_switch n s"
| "commit_rest (Committing Promote) s = upd_tcb (g_current s) (\<lambda>t. t\<lparr>tcb_state := OS_TASK_RUNNING\<rparr>) s"
| "commit_rest Saved s = os_commit_switch s"
| "commit_rest m s = Some s"

lemma upd_tcb_globals:
  "upd_tcb p f s = Some s' \<Longrightarrow> g_next s' = g_next s \<and> g_current s' = g_current s \<and> pendsv s' = pendsv s \<and> g_tick s' = g_tick s"
  by (auto simp: upd_tcb_def bind_eq_Some_conv kstate_simps)

lemma commit_compare:
  "os_commit_switch s = (if g_next s = NULL then Some s else compare_switch (g_current s) (g_next s) s)"
proof -
  have "demote_switch p (g_next s) s = do {
      s \<leftarrow> upd_tcb p (\<lambda>t. t\<lparr>tcb_state := OS_TASK_READY\<rparr>) s;
      upd_tcb (g_next s) (\<lambda>t. t\<lparr>tcb_state := OS_TASK_RUNNING\<rparr>) (s\<lparr>g_current := g_next s\<rparr>)
    }" for p
    unfolding demote_switch_def finish_switch_def by (rule Option.bind_cong [OF refl]) (simp add: upd_tcb_globals)
  then show ?thesis
    by (auto simp: os_commit_switch_def compare_switch_def check_switch_def finish_switch_def Let_def Option.bind_assoc
        intro!: Option.bind_cong)
qed

lemma commit_step_rest:
  assumes "commit_step m s m' s'" and "loaded m \<in> {None, Some (g_next s)}"
  shows "commit_rest m' s' = commit_rest m s \<and> loaded m' \<in> {None, Some (g_next s')}"
  using assms
  by (induction rule: commit_step.induct)
    (auto simp: commit_compare compare_switch_def check_switch_def demote_switch_def finish_switch_def upd_tcb_globals)

definition commit_run :: "mode \<times> kstate \<Rightarrow> mode \<times> kstate \<Rightarrow> bool" where
  "commit_run = (\<lambda>(m, s) (m', s'). commit_step m s m' s')\<^sup>*\<^sup>*"

lemma commit_run_refl [simp]: "commit_run x x"
  by (simp add: commit_run_def)

lemma commit_run_step: "commit_step m s m' s' \<Longrightarrow> commit_run (m', s') y \<Longrightarrow> commit_run (m, s) y"
  unfolding commit_run_def by (rule converse_rtranclp_into_rtranclp) simp_all

lemma commit_run_rest:
  assumes "commit_run (Saved, s) (m, s')"
  shows "commit_rest m s' = os_commit_switch s \<and> loaded m \<in> {None, Some (g_next s')}"
  using assms unfolding commit_run_def
proof (induction "(m, s')" arbitrary: m s' rule: rtranclp_induct)
  case (step y)
  then show ?case using commit_step_rest [of "fst y" "snd y" m s'] by (cases y) auto
qed simp

text \<open>From every point the rest of the steps can be taken when the rest of the function returns.\<close>

lemma run_finish: "finish_switch n s = Some s' \<Longrightarrow> commit_run (Committing (Reload n), s) (Committed, s')"
  using commit_run_step [OF reload [of n n s] commit_run_step [OF assign commit_run_step [OF promote commit_run_refl]]]
  by (simp add: finish_switch_def)

lemma run_demote: "demote_switch prev n s = Some s' \<Longrightarrow> commit_run (Committing (Demote prev n), s) (Committed, s')"
  by (auto simp: demote_switch_def bind_eq_Some_conv intro: commit_run_step [OF demote] run_finish)

lemma run_check: "check_switch prev n s = Some s' \<Longrightarrow> commit_run (Committing (Check prev n), s) (Committed, s')"
  by (auto simp: check_switch_def bind_eq_Some_conv intro!: commit_run_step [OF check] run_finish run_demote split: if_splits)

lemma run_compare: "compare_switch prev n s = Some s' \<Longrightarrow> commit_run (Committing (Compare prev n), s) (Committed, s')"
  by (rule commit_run_step [OF compare [of n n]]) (auto simp: compare_switch_def intro: run_finish run_check split: if_splits)

lemma commit_run_eq: "commit_run (Saved, s) (Committed, s') \<longleftrightarrow> os_commit_switch s = Some s'"
proof
  assume "os_commit_switch s = Some s'"
  then show "commit_run (Saved, s) (Committed, s')"
    by (intro commit_run_step [OF load_current] commit_run_step [OF load_next])
      (auto simp: commit_compare intro: run_compare split: if_splits)
qed (use commit_run_rest in fastforce)

subsection \<open>The kernel's invariant\<close>

text \<open>The stores of the steps: a task that can run becomes current, or is marked ready or running.\<close>

lemma kernel_inv_current:
  assumes I: "kernel_inv a" and v: "runnable a t"
  shows "kernel_inv (a_kern (g_current_update (\<lambda>_. t)) a)"
proof -
  let ?a = "a_kern (g_current_update (\<lambda>_. t)) a"
  note D = kernel_invD [OF I]
  have L: "tasks_ok a" "queues_ok a" "timeouts_ok a" "mutex_queues_sorted a" "current_ok a" using D(2) by (simp_all add: lists_inv_def)
  have vt: "valid_task ?a = valid_task a" by (simp add: valid_task_def fun_eq_iff astate_simps kstate_simps)
  have "valid_task a t" using v by (auto simp: runnable_def valid_task_def)
  then have "current_ok ?a" using vt by (auto simp: current_ok_def astate_simps kstate_simps)
  moreover have "a_prio ?a = a_prio a" by (simp add: fun_eq_iff task_prio_def astate_simps kstate_simps)
  then have "mutex_queues_sorted ?a" using L(4) by (simp add: mutex_queues_sorted_def astate_simps)
  moreover have "tasks_ok ?a" "queues_ok ?a" "timeouts_ok ?a"
    using L by (simp_all add: tasks_ok_def queues_ok_def timeouts_ok_def astate_simps kstate_simps)
  moreover have "sems_ok ?a" using D(4) by (simp add: sems_ok_def astate_simps kstate_simps)
  moreover have "mutexes_ok ?a" using D(5) vt by (simp add: mutexes_ok_def astate_simps kstate_simps)
  moreover have "no_blocked_on ?a" "next_ok ?a" using D(3,6) by (simp_all add: no_blocked_on_def next_ok_def astate_simps kstate_simps)
  ultimately show ?thesis by (simp add: kernel_inv_def objects_inv_def sched_inv_def lists_inv_def)
qed

lemma kernel_inv_state:
  assumes I: "kernel_inv a" and t: "runnable a t" and x: "x \<noteq> OS_TASK_BLOCKED"
  shows "kernel_inv (a_upd t (\<lambda>c. c\<lparr>tcb_state := x\<rparr>) a)" (is "kernel_inv ?a")
proof -
  note D = kernel_invD [OF I]
  from t obtain c where c: "a_tcb a t = Some c" "tcb_state c \<noteq> OS_TASK_BLOCKED" by (auto simp: runnable_def)
  have "sems_ok ?a" using D(4) by (simp add: sems_ok_def astate_simps)
  moreover have "valid_task ?a = valid_task a" by (auto simp: valid_task_def fun_eq_iff astate_simps)
  then have "mutexes_ok ?a" using D(5) by (simp add: mutexes_ok_def astate_simps)
  moreover have "no_blocked_on ?a" using D(6) by (auto simp: no_blocked_on_def astate_simps split: if_splits)
  moreover have "next_ok ?a" using D(3) x by (auto simp: next_ok_def astate_simps)
  ultimately show ?thesis
    using a_upd_state_inv [OF D(2) c x] by (simp add: kernel_inv_def objects_inv_def sched_inv_def)
qed

lemma runnable_state: "x \<noteq> OS_TASK_BLOCKED \<Longrightarrow> runnable a u \<Longrightarrow> runnable (a_upd t (\<lambda>c. c\<lparr>tcb_state := x\<rparr>) a) u"
  by (auto simp: runnable_def astate_simps)

lemma runnable_current [simp]: "runnable (a_kern (g_current_update f) a) = runnable a"
  by (simp add: runnable_def fun_eq_iff astate_simps kstate_simps)

lemma runnable_valid: "runnable a t \<Longrightarrow> valid_task a t"
  by (auto simp: runnable_def valid_task_def)

text \<open>The whole of \<open>os_commit_switch\<close>.\<close>

lemma store_g_current [kstate_simps]: "store (s\<lparr>g_current := x\<rparr>) = store s"
  by (simp add: store_def)

lemma a_commit_effect:
  assumes "g_next (kern a) \<noteq> NULL"
  shows "runnable a t \<Longrightarrow> runnable (a_commit a) t" "dom (a_tcb (a_commit a)) = dom (a_tcb a)"
    "store (kern (a_commit a)) = store (kern a)" "g_current (kern (a_commit a)) = g_next (kern a)"
    "g_next (kern (a_commit a)) = g_next (kern a)"
  using assms
  by (auto simp: a_commit_def Let_def runnable_def astate_simps kstate_simps split: if_splits)

lemma pools_ok_commit:
  assumes R: "kernel_rel s a" "kernel_rel s' (a_commit a)" and c: "os_commit_switch s = Some s'"
    and n: "g_next (kern a) \<noteq> NULL" and P: "pools_ok kb ub s xs ys"
  shows "pools_ok kb ub s' xs ys"
proof (rule pools_ok_frame [OF P])
  note E = a_commit_effect [OF n]
  show "get_pool s' = get_pool s"
    using kernel_rel_pools [OF R(1)] kernel_rel_pools [OF R(2)] E(3)
    by (intro ext, rename_tac q, case_tac q) (simp_all add: store_def)
  show "mem s' x = mem s x" for x using commit_fields(1) [OF c] by simp
  show "tcb_at s' x = None" if "tcb_at s x = None" for x
    using that kernel_rel_tcb_None [OF R(1)] kernel_rel_tcb_None [OF R(2)] E(2) by (metis domIff)
qed

lemma pools_ok_upd_tcb:
  assumes "upd_tcb p f s = Some s'" and "pools_ok kb ub s xs ys"
  shows "pools_ok kb ub s' xs ys"
proof (rule pools_ok_frame [OF assms(2)])
  show "get_pool s' = get_pool s" using assms(1)
    by (intro ext, rename_tac q, case_tac q) (auto simp: upd_tcb_def bind_eq_Some_conv kstate_simps)
  show "tcb_at s' x = None" if "tcb_at s x = None" for x using assms(1) that
    by (auto simp: upd_tcb_def bind_eq_Some_conv put_tcb_def tcb_at_def split: if_splits)
qed (use assms(1) in \<open>auto simp: upd_tcb_def bind_eq_Some_conv kstate_simps\<close>)

lemma pools_ok_current: "pools_ok kb ub s xs ys \<Longrightarrow> pools_ok kb ub (s\<lparr>g_current := n\<rparr>) xs ys"
  by (erule pools_ok_frame) (simp_all add: kstate_simps, rule ext, rename_tac q, case_tac q, simp_all)

end
