(* ===== verification/Machine.thy ===== *)
theory Machine
  imports Commit_Steps Mutex_Properties
begin

text \<open>
  The whole kernel as a state machine. A state is the mode of the processor and its registers and memory. In
  thread mode a task computes, initialises its semaphores and mutexes, makes a supervisor call or is
  interrupted by the tick or by the context switch; handlers may be chained. The tick has a higher priority
  than PendSV and may interrupt it: PendSV is split into saving the context, every access to memory of
  \<open>os_commit_switch\<close>, and restoring the context, with ticks allowed between them. An invariant of every reachable state shows that the
  kernel's data structures stay consistent under every interleaving of these steps, that a task that runs is
  never blocked, and that every handler returns.
\<close>

unbundle bit_operations_syntax

subsection \<open>Steps\<close>

type_synonym machine = "mode \<times> cpu"

definition restore_context :: "cpu \<Rightarrow> cpu option" where
  "restore_context c = do {
     t \<leftarrow> tcb_at (kst c) (g_current (kst c));
     Some (c\<lparr>r4_r11 := words_at (kst c) (tcb_sp t) 8, psp := tcb_sp t + 32, control := 3\<rparr>)
   }"

lemma PendSV_phases:
  "PendSV_Handler c = do {
     s \<leftarrow> save_context c;
     s \<leftarrow> os_commit_switch s;
     restore_context (c\<lparr>kst := s\<rparr>)
   }"
  by (simp add: PendSV_Handler_eq restore_context_def)

text \<open>Writes to \<open>A\<close> leave the free blocks of the pools alone.\<close>

definition avoids :: "addr \<Rightarrow> addr \<Rightarrow> kstate \<Rightarrow> addr set \<Rightarrow> bool" where
  "avoids kb ub s A \<longleftrightarrow> (\<exists>xs ys. pools_ok kb ub s xs ys \<and> A \<inter> (set xs \<union> set ys) = {})"

text \<open>Exception entry from thread mode stacks eight words.\<close>

definition enter :: "u32 list \<Rightarrow> cpu \<Rightarrow> cpu" where
  "enter ws c = c\<lparr>kst := store_words (psp c - 32) ws (kst c), psp := psp c - 32\<rparr>"

definition unpend :: "cpu \<Rightarrow> cpu" where
  "unpend c = c\<lparr>kst := (kst c)\<lparr>pendsv := False\<rparr>\<rparr>"

text \<open>A tick, which interrupts a task or a handler.\<close>

inductive tick_step :: "addr \<Rightarrow> addr \<Rightarrow> machine \<Rightarrow> machine \<Rightarrow> bool" for kb ub where
  tick_in_thread: "length ws = 8 \<Longrightarrow> avoids kb ub (kst c) (word_addrs (psp c - 32) 8) \<Longrightarrow>
    SysTick_Handler (kst (enter ws c)) = Some s \<Longrightarrow> tick_step kb ub (Thread, c) (Handler, (enter ws c)\<lparr>kst := s\<rparr>)"
| tick_in_handler: "m \<noteq> Thread \<Longrightarrow> SysTick_Handler (kst c) = Some s \<Longrightarrow> tick_step kb ub (m, c) (m, c\<lparr>kst := s\<rparr>)"

inductive machine_step :: "addr \<Rightarrow> addr \<Rightarrow> addr \<Rightarrow> addr \<Rightarrow> addr \<Rightarrow> machine \<Rightarrow> machine \<Rightarrow> bool"
  for tr ex idle kb ub where
  compute: "\<not> pendsv (kst c) \<Longrightarrow> avoids kb ub (kst c) A \<Longrightarrow> (\<And>x. x \<notin> A \<Longrightarrow> M x = mem (kst c) x) \<Longrightarrow> length rs = 8 \<Longrightarrow>
    machine_step tr ex idle kb ub (Thread, c)
      (Thread, c\<lparr>kst := (kst c)\<lparr>mem := M, create_args := g\<rparr>, r4_r11 := rs, psp := p\<rparr>)"
| sem_init: "\<not> pendsv (kst c) \<Longrightarrow> sem_at (kst c) m = Some x \<Longrightarrow> sem_waiters x = \<lparr>q_head = NULL, q_tail = NULL\<rparr> \<Longrightarrow>
    os_sem_init m n (kst c) = Some (r, s) \<Longrightarrow> machine_step tr ex idle kb ub (Thread, c) (Thread, c\<lparr>kst := s\<rparr>)"
| mutex_init: "\<not> pendsv (kst c) \<Longrightarrow> mutex_at (kst c) m = Some y \<Longrightarrow> mtx_waiters y = \<lparr>q_head = NULL, q_tail = NULL\<rparr> \<Longrightarrow>
    os_mutex_init m (kst c) = Some (r, s) \<Longrightarrow> machine_step tr ex idle kb ub (Thread, c) (Thread, c\<lparr>kst := s\<rparr>)"
| supervisor_call: "\<not> pendsv (kst c) \<Longrightarrow> g_current (kst c) \<noteq> idle \<Longrightarrow> psp c \<noteq> 32 \<Longrightarrow> length rest = 6 \<Longrightarrow>
    avoids kb ub (kst c) (word_addrs (psp c - 32) 8) \<Longrightarrow>
    (take_bit 8 r0 = syscall_number OS_SYSCALL_TASK_CREATE \<longrightarrow> large_stack (kst c) r1) \<Longrightarrow>
    svc tr ex r0 r1 rest c = Some c' \<Longrightarrow> machine_step tr ex idle kb ub (Thread, c) (Handler, c')"
| tick: "tick_step kb ub x y \<Longrightarrow> machine_step tr ex idle kb ub x y"
| switch: "pendsv (kst c) \<Longrightarrow> length ws = 8 \<Longrightarrow> avoids kb ub (kst c) (word_addrs (psp c - 64) 16) \<Longrightarrow>
    save_context (unpend (enter ws c)) = Some s \<Longrightarrow>
    machine_step tr ex idle kb ub (Thread, c) (Saved, (enter ws c)\<lparr>kst := s\<rparr>)"
| switch_chained: "pendsv (kst c) \<Longrightarrow> avoids kb ub (kst c) (word_addrs (psp c - 32) 8) \<Longrightarrow>
    save_context (unpend c) = Some s \<Longrightarrow> machine_step tr ex idle kb ub (Handler, c) (Saved, c\<lparr>kst := s\<rparr>)"
| commit: "commit_step m (kst c) m' s \<Longrightarrow> machine_step tr ex idle kb ub (m, c) (m', c\<lparr>kst := s\<rparr>)"
| restore: "restore_context c = Some c' \<Longrightarrow> machine_step tr ex idle kb ub (Committed, c) (Handler, c')"
| resume: "\<not> pendsv (kst c) \<Longrightarrow> machine_step tr ex idle kb ub (Handler, c) (Thread, c\<lparr>psp := psp c + 32\<rparr>)"

inductive reachable :: "addr \<Rightarrow> addr \<Rightarrow> addr \<Rightarrow> addr \<Rightarrow> addr \<Rightarrow> machine \<Rightarrow> machine \<Rightarrow> bool" for tr ex idle kb ub c0 where
  reachable_start: "reachable tr ex idle kb ub c0 c0"
| reachable_step: "reachable tr ex idle kb ub c0 c \<Longrightarrow> machine_step tr ex idle kb ub c c' \<Longrightarrow> reachable tr ex idle kb ub c0 c'"

subsection \<open>Invariant\<close>

text \<open>A switch is in progress: PendSV has saved the context and \<open>os_commit_switch\<close> has not returned.\<close>

fun switching :: "mode \<Rightarrow> bool" where
  "switching Saved = True"
| "switching (Committing pc) = True"
| "switching m = False"

text \<open>What holds of the values \<open>os_commit_switch\<close> has loaded: \<open>prev\<close> is still the current task, which can run when its state
  is about to be set to ready, and the task loaded from \<open>g_next\<close> can run.\<close>

fun pc_ok :: "mode \<Rightarrow> astate \<Rightarrow> bool" where
  "pc_ok (Committing (Load_next prev)) a = (prev = g_current (kern a))"
| "pc_ok (Committing (Compare prev n)) a = (prev = g_current (kern a) \<and> runnable a n)"
| "pc_ok (Committing (Check prev n)) a = (prev = g_current (kern a) \<and> runnable a n)"
| "pc_ok (Committing (Demote prev n)) a = (prev = g_current (kern a) \<and> runnable a prev \<and> runnable a n)"
| "pc_ok (Committing (Reload n)) a = runnable a n"
| "pc_ok (Committing (Assign n)) a = runnable a n"
| "pc_ok (Committing Promote) a = runnable a (g_current (kern a))"
| "pc_ok m a = True"

text \<open>The part of the invariant about the scheduler: the idle task can run, a task is current and a task is
  chosen, and the current task can run unless a context switch is pending or in progress.\<close>

definition sched_good :: "addr \<Rightarrow> mode \<Rightarrow> astate \<Rightarrow> bool" where
  "sched_good idle m a \<longleftrightarrow> kernel_inv a \<and> runnable a idle \<and> g_current (kern a) \<noteq> NULL \<and> g_next (kern a) \<noteq> NULL \<and>
     (\<not> switching m \<longrightarrow> pendsv (kern a) \<or> runnable a (g_current (kern a))) \<and> pc_ok m a"

lemma pc_ok_quiet [simp]: "\<not> switching m \<Longrightarrow> pc_ok m a"
  by (cases "(m, a)" rule: pc_ok.cases) simp_all

lemma pc_ok_mono:
  assumes "pc_ok m a" and "g_current (kern b) = g_current (kern a)" and "\<And>t. runnable a t \<Longrightarrow> runnable b t"
  shows "pc_ok m b"
  using assms by (cases "(m, a)" rule: pc_ok.cases) simp_all

definition kst_inv :: "addr \<Rightarrow> addr \<Rightarrow> addr \<Rightarrow> mode \<Rightarrow> kstate \<Rightarrow> addr list \<Rightarrow> addr list \<Rightarrow> bool" where
  "kst_inv idle kb ub m s xs ys \<longleftrightarrow> (\<exists>a. kernel_rel s a \<and> sched_good idle m a) \<and> pools_ok kb ub s xs ys"

definition machine_inv :: "addr \<Rightarrow> addr \<Rightarrow> addr \<Rightarrow> machine \<Rightarrow> bool" where
  "machine_inv idle kb ub = (\<lambda>(m, c). (\<exists>xs ys. kst_inv idle kb ub m (kst c) xs ys) \<and> length (r4_r11 c) = 8 \<and>
     control c AND 2 \<noteq> 0)"

lemma kst_inv_pools: "kst_inv idle kb ub m s xs ys \<Longrightarrow> pools_ok kb ub s us vs \<Longrightarrow> kst_inv idle kb ub m s us vs"
  by (simp add: kst_inv_def)

lemma kst_inv_mode:
  "kst_inv idle kb ub m s xs ys \<Longrightarrow> \<not> switching m \<and> \<not> switching m' \<or> m' = Saved \<Longrightarrow> kst_inv idle kb ub m' s xs ys"
  by (auto simp: kst_inv_def sched_good_def)

text \<open>Writes outside the scheduler's data and outside the free blocks.\<close>

lemma runnable_same: "kernel_rel s a \<Longrightarrow> sched_same s s' \<Longrightarrow> runnable (a\<lparr>kern := core s'\<rparr>) = runnable a"
  by (simp add: runnable_def fun_eq_iff kernel_rel_def sched_same_def tcb_at_core)

lemma kst_inv_same:
  assumes "kst_inv idle kb ub m s xs ys" and S: "sched_same s s'" and "get_pool s' = get_pool s"
    and "\<And>x. x \<in> set xs \<union> set ys \<Longrightarrow> mem s' x = mem s x"
  shows "kst_inv idle kb ub m s' xs ys"
proof -
  from assms(1) obtain a where a: "kernel_rel s a" "sched_good idle m a" and P: "pools_ok kb ub s xs ys"
    by (auto simp: kst_inv_def)
  let ?a = "a\<lparr>kern := core s'\<rparr>"
  note K = kernel_rel_same [OF a(1) S]
  have "pc_ok m ?a"
    by (rule pc_ok_mono [of m a]) (use a(2) runnable_same [OF a(1) S] kernel_rel_globals [OF a(1)] kernel_rel_globals [OF K(1)] S
      in \<open>simp_all add: sched_good_def sched_same_def\<close>)
  then have "sched_good idle m ?a"
    using a(2) K(2) runnable_same [OF a(1) S] kernel_rel_globals [OF a(1)] kernel_rel_globals [OF K(1)] S
    by (simp add: sched_good_def sched_same_def)
  moreover have "pools_ok kb ub s' xs ys" by (rule pools_ok_frame [OF P assms(3,4)]) (use S in \<open>simp_all add: sched_same_def\<close>)
  ultimately show ?thesis using K(1) by (auto simp: kst_inv_def)
qed

lemma get_pool_mem: "get_pool (s\<lparr>mem := M\<rparr>) = get_pool s"
  by (rule ext, rename_tac q, case_tac q) simp_all

lemma kst_inv_store_words:
  assumes "kst_inv idle kb ub m s xs ys" and "word_addrs p (length ws) \<inter> (set xs \<union> set ys) = {}"
  shows "kst_inv idle kb ub m (store_words p ws s) xs ys"
proof (rule kst_inv_same [OF assms(1) sched_same_store_words])
  show "get_pool (store_words p ws s) = get_pool s" using store_words_frame [of p ws s] get_pool_mem by auto
qed (use assms(2) in \<open>auto intro!: mem_store_words_other\<close>)

lemma kst_inv_store_word:
  assumes "kst_inv idle kb ub m s xs ys" and "p \<notin> set xs \<union> set ys"
  shows "kst_inv idle kb ub m (store_word p v s) xs ys"
  using kst_inv_store_words [OF assms(1), of p "[v]"] assms(2) by (simp add: word_addrs_def lessThan_Suc)

text \<open>The kernel's services and handlers.\<close>

lemma pools_ok_advances:
  assumes "kernel_rel s a" and "kernel_rel s' a'" and A: "advances a a'" and P: "pools_ok kb ub s xs ys"
  shows "pools_ok kb ub s' xs ys"
proof (rule pools_ok_frame [OF P])
  have st: "store (kern a') = store (kern a)" and d: "dom (a_tcb a') = dom (a_tcb a)" using A by (simp_all add: advances_def)
  show "get_pool s' = get_pool s"
    using kernel_rel_pools [OF assms(1)] kernel_rel_pools [OF assms(2)] st
    by (intro ext, rename_tac q, case_tac q) (simp_all add: store_def)
  show "mem s' x = mem s x" for x
    using kernel_rel_mem [OF assms(1)] kernel_rel_mem [OF assms(2)] st by (simp add: store_def)
  show "tcb_at s' x = None" if "tcb_at s x = None" for x
    using that kernel_rel_tcb_None [OF assms(1)] kernel_rel_tcb_None [OF assms(2)] d by (metis domIff)
qed

lemma good_advances:
  assumes G: "sched_good idle m a" and A: "advances a a'" and I: "kernel_inv a'" and m: "\<not> switching m" "\<not> switching m'"
    and o: "g_current (kern a) \<noteq> idle" and p: "\<not> pendsv (kern a)"
  shows "sched_good idle m' a'"
  using assms pc_ok_quiet [OF m(2)] unfolding sched_good_def advances_def by metis

lemma good_grows:
  assumes G: "sched_good idle m a" and A: "grows a a'" and I: "kernel_inv a'" and m: "\<not> switching m" "\<not> switching m'"
    and p: "\<not> pendsv (kern a)"
  shows "sched_good idle m' a'"
  using assms pc_ok_quiet [OF m(2)] unfolding sched_good_def grows_def by metis

lemma good_keeps:
  assumes G: "sched_good idle m a" and A: "keeps a a'" and I: "kernel_inv a'"
  shows "sched_good idle m a'"
proof -
  have "pc_ok m a'" by (rule pc_ok_mono [of m a]) (use G A in \<open>simp_all add: sched_good_def keeps_def advances_def\<close>)
  with assms show ?thesis unfolding sched_good_def keeps_def advances_def by metis
qed

lemma kst_inv_tick:
  assumes "kst_inv idle kb ub m s xs ys"
  shows "\<exists>s'. SysTick_Handler s = Some s' \<and> kst_inv idle kb ub m s' xs ys"
proof -
  from assms obtain a where a: "kernel_rel s a" "sched_good idle m a" and P: "pools_ok kb ub s xs ys" by (auto simp: kst_inv_def)
  then have I: "kernel_inv a" by (simp add: sched_good_def)
  from SysTick_Handler_refines [OF a(1) I] obtain s' where s': "SysTick_Handler s = Some s'" "kernel_rel s' (a_tick a)" by blast
  have "sched_good idle m (a_tick a)" by (rule good_keeps [OF a(2) keeps_tick [OF I] a_tick_inv [OF I]])
  with s' pools_ok_advances [OF a(1) s'(2) keeps_advances [OF keeps_tick [OF I]] P] show ?thesis by (auto simp: kst_inv_def)
qed

lemma kst_inv_service:
  assumes V: "kst_inv idle kb ub m s xs ys" "\<not> switching m" "\<not> switching m'" and n: "\<not> pendsv s" "g_current s \<noteq> idle"
    and l: "k = OS_SYSCALL_TASK_CREATE \<Longrightarrow> large_stack s x" and k: "kernel_service tr ex k x s = Some (r, s')"
  shows "\<exists>us vs. kst_inv idle kb ub m' s' us vs \<and> set us \<subseteq> set xs \<and> set vs \<subseteq> set ys"
proof -
  from V(1) obtain a where a: "kernel_rel s a" "sched_good idle m a" and P: "pools_ok kb ub s xs ys" by (auto simp: kst_inv_def)
  have g: "\<not> pendsv (kern a)" "g_current (kern a) \<noteq> idle" using n kernel_rel_globals [OF a(1)] by simp_all
  have I: "kernel_inv a" and c: "current_runnable a"
    using a(2) V(2) g by (simp_all add: sched_good_def current_runnable_iff)
  show ?thesis
  proof (cases "k = OS_SYSCALL_TASK_CREATE")
    case True
    with k l have "os_kernel_task_create tr ex x s = Some (r, s')" "large_stack s x" by simp_all
    from create_grows [OF a(1) I P this(2,1)] obtain a' us vs where
      a': "kernel_rel s' a'" "kernel_inv a'" "grows a a'" "pools_ok kb ub s' us vs" "set us \<subseteq> set xs" "set vs \<subseteq> set ys" by blast
    with good_grows [OF a(2) a'(3,2) V(2,3) g(1)] show ?thesis by (auto simp: kst_inv_def)
  next
    case False
    from service_advances [OF a(1) I c k False] obtain a' where
      a': "kernel_rel s' a'" "kernel_inv a'" "advances a a'" by blast
    with good_advances [OF a(2) a'(3,2) V(2,3) g(2,1)] pools_ok_advances [OF a(1) a'(1,3) P]
    show ?thesis by (auto simp: kst_inv_def)
  qed
qed

subsection \<open>The context switch\<close>

lemma kst_inv_valid:
  assumes "kst_inv idle kb ub m s xs ys"
  shows "\<exists>a. kernel_rel s a \<and> sched_good idle m a \<and> valid_task a (g_current s)" "\<exists>t. tcb_at s (g_current s) = Some t"
proof -
  from assms obtain a where a: "kernel_rel s a" "sched_good idle m a" by (auto simp: kst_inv_def)
  then have v: "valid_task a (g_current s)"
    using kernel_rel_globals [OF a(1)] by (auto simp: sched_good_def intro!: kernel_rel_current_valid)
  with a show "\<exists>a. kernel_rel s a \<and> sched_good idle m a \<and> valid_task a (g_current s)" by blast
  from v a(1) show "\<exists>t. tcb_at s (g_current s) = Some t" by (auto simp: kernel_rel_valid_task)
qed

lemma kst_inv_unpend: "kst_inv idle kb ub m s xs ys \<Longrightarrow> kst_inv idle kb ub Saved (s\<lparr>pendsv := False\<rparr>) xs ys"
proof -
  assume V: "kst_inv idle kb ub m s xs ys"
  then obtain a where a: "kernel_rel s a" "sched_good idle m a" and P: "pools_ok kb ub s xs ys" by (auto simp: kst_inv_def)
  have "sched_good idle Saved (a_kern (pendsv_update (\<lambda>_. False)) a)"
    using a(2) by (simp add: sched_good_def runnable_def astate_simps kstate_simps)
  moreover have "pools_ok kb ub (s\<lparr>pendsv := False\<rparr>) xs ys"
    using P by (simp add: pools_ok_def pool_rep_def kstate_simps)
  ultimately show ?thesis using kernel_rel_pendsv [OF a(1), of False] by (auto simp: kst_inv_def)
qed

lemma kst_inv_set_sp:
  assumes "kst_inv idle kb ub m s xs ys"
  shows "\<exists>s'. upd_tcb (g_current s) (\<lambda>t. t\<lparr>tcb_sp := p\<rparr>) s = Some s' \<and> kst_inv idle kb ub m s' xs ys"
proof -
  let ?f = "\<lambda>t. t\<lparr>tcb_sp := p\<rparr>"
  from kst_inv_valid(1) [OF assms] obtain a where a: "kernel_rel s a" "sched_good idle m a" "valid_task a (g_current s)" by blast
  from upd_tcb_refines [OF a(1,3), of ?f] obtain s' where
    s': "upd_tcb (g_current s) ?f s = Some s'" "kernel_rel s' (a_upd (g_current s) ?f a)" by blast
  have K: "keeps a (a_upd (g_current s) ?f a)" by (rule keeps_upd) simp
  have "sched_good idle m (a_upd (g_current s) ?f a)"
    by (rule good_keeps [OF a(2) K]) (use a(2) in \<open>auto simp: sched_good_def intro: kernel_inv_sp\<close>)
  with s' pools_ok_advances [OF a(1) s'(2) keeps_advances [OF K]] assms show ?thesis by (auto simp: kst_inv_def)
qed

lemma kst_inv_save:
  assumes V: "kst_inv idle kb ub m (kst c) xs ys" and len: "length (r4_r11 c) = 8"
    and A: "word_addrs (psp c - 32) 8 \<inter> (set xs \<union> set ys) = {}"
  shows "\<exists>s. save_context (unpend c) = Some s \<and> kst_inv idle kb ub Saved s xs ys"
proof -
  let ?u = "(kst c)\<lparr>pendsv := False\<rparr>"
  note U = kst_inv_unpend [OF V]
  show ?thesis
  proof (cases "g_first_switch (kst c) = 0")
    case True
    let ?s = "store_words (psp c - 32) (r4_r11 c) ?u"
    have "kst_inv idle kb ub Saved ?s xs ys" using kst_inv_store_words [OF U] A len by simp
    from kst_inv_set_sp [OF this, of "psp c - 32"] True show ?thesis
      by (simp add: save_context_def unpend_def stmdb_def len Let_def)
  next
    case False
    have "get_pool (?u\<lparr>g_first_switch := 0\<rparr>) = get_pool ?u" by (rule ext, rename_tac q, case_tac q) simp_all
    then have "kst_inv idle kb ub Saved (?u\<lparr>g_first_switch := 0\<rparr>) xs ys"
      by (intro kst_inv_same [OF U]) (simp_all add: sched_same_def kstate_simps)
    with False show ?thesis by (simp add: save_context_def unpend_def)
  qed
qed

text \<open>One access of \<open>os_commit_switch\<close>. It is always possible, and it keeps the invariant.\<close>

lemma kst_inv_commit_step:
  assumes V: "kst_inv idle kb ub m s xs ys" and st: "commit_step m s m' s'"
  shows "kst_inv idle kb ub m' s' xs ys"
proof -
  from V obtain a where a: "kernel_rel s a" "sched_good idle m a" and P: "pools_ok kb ub s xs ys" by (auto simp: kst_inv_def)
  note g = kernel_rel_globals [OF a(1)]
  have I: "kernel_inv a" and G: "runnable a idle" "g_current (kern a) \<noteq> NULL" "g_next (kern a) \<noteq> NULL" "pc_ok m a"
    using a(2) by (simp_all add: sched_good_def)
  have nx: "runnable a (g_next s)" using kernel_invD(3) [OF I] G(3) g by (auto simp: next_ok_def runnable_def)
  have same: ?thesis if "switching m'" "pc_ok m' a" "s' = s"
    using a P I G that by (auto simp: kst_inv_def sched_good_def)
  have upd: ?thesis if "upd_tcb p (\<lambda>t. t\<lparr>tcb_state := x\<rparr>) s = Some s'" "runnable a p" "x \<noteq> OS_TASK_BLOCKED"
    "switching m' \<or> runnable a (g_current (kern a))" "pc_ok m' (a_upd p (\<lambda>t. t\<lparr>tcb_state := x\<rparr>) a)" for p x
  proof -
    let ?a = "a_upd p (\<lambda>t. t\<lparr>tcb_state := x\<rparr>) a"
    have "kernel_rel s' ?a" using upd_tcb_refines [OF a(1) runnable_valid [OF that(2)], of "\<lambda>t. t\<lparr>tcb_state := x\<rparr>"] that(1) by auto
    moreover have "sched_good idle m' ?a"
      using kernel_inv_state [OF I that(2,3)] G that(4,5) runnable_state [OF that(3), of a] by (auto simp: sched_good_def astate_simps)
    ultimately show ?thesis using pools_ok_upd_tcb [OF that(1) P] by (auto simp: kst_inv_def)
  qed
  from st show ?thesis
  proof cases
    case (check prev t n)
    have "a_tcb a (g_current (kern a)) = Some (blank_tcb t)"
      using a(1) check G(4) by (simp add: kernel_rel_def tcb_at_core)
    with check G(4) show ?thesis by (intro same) (auto simp: runnable_def)
  next
    case (demote prev n)
    with G(4) show ?thesis by (intro upd [of prev OS_TASK_READY]) (auto intro: runnable_state)
  next
    case (assign n)
    let ?a = "a_kern (g_current_update (\<lambda>_. n)) a"
    have r: "runnable a n" using G(4) assign by simp
    then have "n \<noteq> NULL" using kernel_rel_tcbD [OF a(1)] tcb_at_nonnull by (fastforce simp: runnable_def)
    then have "sched_good idle m' ?a"
      using kernel_inv_current [OF I r] G r assign by (simp add: sched_good_def astate_simps kstate_simps)
    with kernel_rel_g_current [OF a(1), of n] pools_ok_current [OF P, of n] assign show ?thesis by (auto simp: kst_inv_def)
  next
    case promote
    with G(4) g show ?thesis by (intro upd [of "g_current s" OS_TASK_RUNNING]) auto
  qed (use G nx g same in auto)
qed

lemma commit_progress:
  assumes V: "kst_inv idle kb ub m s xs ys" and m: "m = Saved \<or> (\<exists>pc. m = Committing pc)"
  shows "\<exists>m' s'. commit_step m s m' s'"
proof -
  from V obtain a where a: "kernel_rel s a" "sched_good idle m a" by (auto simp: kst_inv_def)
  note g = kernel_rel_globals [OF a(1)]
  have G: "pc_ok m a" using a(2) by (simp add: sched_good_def)
  from kst_inv_valid(2) [OF V] obtain t where t: "tcb_at s (g_current s) = Some t" by blast
  then have u: "\<exists>s'. upd_tcb (g_current s) f s = Some s'" for f by (simp add: upd_tcb_def)
  from m consider "m = Saved" | pc where "m = Committing pc" by blast
  then show ?thesis
  proof cases
    case 2
    then show ?thesis
    proof (cases pc)
      case (Demote prev n)
      with u G g 2 show ?thesis by (force intro: demote)
    next
      case Promote
      with u 2 show ?thesis by (blast intro: promote)
    qed (use G g t 2 in \<open>auto intro: load_next compare check reload assign\<close>)
  qed (auto intro: load_current)
qed

lemma commit_returns:
  assumes "kst_inv idle kb ub m s xs ys"
  shows "\<exists>s'. os_commit_switch s = Some s'"
  using assms commit_refines kernel_invD(1) by (fastforce simp: kst_inv_def sched_good_def)

subsection \<open>Initialisation of semaphores and mutexes\<close>

lemma kst_inv_keeps:
  assumes V: "kst_inv idle kb ub m s xs ys" and "\<And>a. kernel_rel s a \<Longrightarrow> kernel_inv a \<Longrightarrow>
    \<exists>a'. kernel_rel s' a' \<and> kernel_inv a' \<and> keeps a a'"
  shows "kst_inv idle kb ub m s' xs ys"
proof -
  from V obtain a where a: "kernel_rel s a" "sched_good idle m a" and P: "pools_ok kb ub s xs ys" by (auto simp: kst_inv_def)
  with assms(2) [of a] obtain a' where a': "kernel_rel s' a'" "kernel_inv a'" "keeps a a'" by (auto simp: sched_good_def)
  with good_keeps [OF a(2) a'(3,2)] pools_ok_advances [OF a(1) a'(1) keeps_advances [OF a'(3)] P] show ?thesis
    by (auto simp: kst_inv_def)
qed

lemma waitq_emptyq:
  assumes "kernel_rel s a" and "get_queue s q = Some \<lparr>q_head = NULL, q_tail = NULL\<rparr>"
  shows "waitq a q = []"
  using kernel_rel_queue [OF assms] by (cases "waitq a q") (auto simp: dlist_def)

lemma kst_inv_sem_init:
  assumes V: "kst_inv idle kb ub m s xs ys" and x: "sem_at s p = Some x" "sem_waiters x = \<lparr>q_head = NULL, q_tail = NULL\<rparr>"
    and i: "os_sem_init p n s = Some (r, s')"
  shows "kst_inv idle kb ub m s' xs ys"
proof (rule kst_inv_keeps [OF V])
  fix a
  assume a: "kernel_rel s a" "kernel_inv a"
  have w: "waitq a (SemQ p) = []" using x by (intro waitq_emptyq [OF a(1)]) (simp add: get_queue.simps)
  show "\<exists>a'. kernel_rel s' a' \<and> kernel_inv a' \<and> keeps a a'"
  proof (cases "sint n < 0")
    case True
    with i a show ?thesis by (auto simp: os_sem_init_def)
  next
    case False
    note R = sem_init_refines [OF a x(1) w False]
    have "keeps a (a_kern (set_count p (\<lambda>_. n)) a)" by (rule keeps_kern) (simp_all add: kstate_simps)
    with R i show ?thesis by auto
  qed
qed

lemma kst_inv_mutex_init:
  assumes V: "kst_inv idle kb ub m s xs ys" and x: "mutex_at s p = Some x" "mtx_waiters x = \<lparr>q_head = NULL, q_tail = NULL\<rparr>"
    and i: "os_mutex_init p s = Some (r, s')"
  shows "kst_inv idle kb ub m s' xs ys"
proof (rule kst_inv_keeps [OF V])
  fix a
  assume a: "kernel_rel s a" "kernel_inv a"
  have w: "waitq a (MutexQ p) = []" using x by (intro waitq_emptyq [OF a(1)]) (simp add: get_queue.simps)
  note R = mutex_init_refines [OF a x(1) w]
  have "keeps a (a_kern (map_mutex p (\<lambda>x. x\<lparr>mtx_owner := NULL\<rparr>)) a)" by (rule keeps_kern) (simp_all add: kstate_simps)
  with R i show "\<exists>a'. kernel_rel s' a' \<and> kernel_inv a' \<and> keeps a a'" by auto
qed

subsection \<open>Supervisor calls\<close>

lemma kst_inv_switch:
  assumes V: "kst_inv idle kb ub m s xs ys" "\<not> switching m" "\<not> switching m'" and n: "\<not> pendsv s" "g_current s \<noteq> idle"
    and l: "take_bit 8 r0 = syscall_number OS_SYSCALL_TASK_CREATE \<Longrightarrow> large_stack s x" and k: "syscall_switch tr ex r0 x s = Some (r, s')"
  shows "\<exists>us vs. kst_inv idle kb ub m' s' us vs \<and> set us \<subseteq> set xs \<and> set vs \<subseteq> set ys"
proof (cases "\<exists>k. take_bit 8 r0 = syscall_number k")
  case True
  then obtain k where k': "take_bit 8 r0 = syscall_number k" ..
  with k kst_inv_service [OF V n, of k x tr ex r s'] l show ?thesis by (simp add: syscall_switch_id)
next
  case False
  then have "s' = s" using syscall_switch_unknown [of r0 tr ex x s] k by simp
  with V n show ?thesis by (auto simp: kst_inv_def sched_good_def)
qed

lemma enter_kst [simp]:
  "kst (enter ws c) = store_words (psp c - 32) ws (kst c)" "psp (enter ws c) = psp c - 32" "r4_r11 (enter ws c) = r4_r11 c"
  "control (enter ws c) = control c"
  by (simp_all add: enter_def)

lemma word_addrs_split: "word_addrs p (m + n) = word_addrs p m \<union> word_addrs (p + 4 * of_nat m) n"
proof -
  have "{..<m + n} = {..<m} \<union> (\<lambda>i. i + m) ` {..<n}"
    using lessThan_atLeast0 ivl_disj_un_two(3) [of 0 m "m + n"] image_add_atLeastLessThan [of m 0 n]
    by (simp add: add.commute)
  then show ?thesis by (simp add: word_addrs_def image_Un image_image algebra_simps)
qed

text \<open>The frame of the exception and the eight registers below it.\<close>

lemma frames_split: "word_addrs (p - 64) 16 = word_addrs (p - 64) 8 \<union> word_addrs (p - 32) 8"
  using word_addrs_split [of "p - 64" 8 8] by simp

subsection \<open>The invariant is kept\<close>

lemma kst_inv_call:
  assumes V: "kst_inv idle kb ub Thread (kst c) xs ys" and n: "\<not> pendsv (kst c)" "g_current (kst c) \<noteq> idle"
    and p: "control c AND 2 \<noteq> 0" "psp c \<noteq> 32" "length rest = 6" and A: "word_addrs (psp c - 32) 8 \<inter> (set xs \<union> set ys) = {}"
    and l: "take_bit 8 r0 = syscall_number OS_SYSCALL_TASK_CREATE \<longrightarrow> large_stack (kst c) r1"
    and k: "svc tr ex r0 r1 rest c = Some c'"
  shows "\<exists>us vs. kst_inv idle kb ub Handler (kst c') us vs \<and> r4_r11 c' = r4_r11 c \<and> control c' = control c"
proof -
  let ?p = "psp c - 32" and ?s = "store_words (psp c - 32) (r0 # r1 # rest) (kst c)"
  from k obtain r s where s: "syscall_switch tr ex r0 r1 ?s = Some (r, s)" "c' = c\<lparr>psp := ?p, kst := store_word ?p (of_int r) s\<rparr>"
    unfolding svc_eq [OF p] by auto
  obtain M where M: "?s = (kst c)\<lparr>mem := M\<rparr>" using store_words_frame [of ?p "r0 # r1 # rest" "kst c"] by blast
  have S: "kst_inv idle kb ub Thread ?s xs ys" using kst_inv_store_words [OF V, of ?p "r0 # r1 # rest"] A p(3) by simp
  have "large_stack ?s = large_stack (kst c)" unfolding M by (simp add: large_stack_def fun_eq_iff)
  then have "\<exists>us vs. kst_inv idle kb ub Handler s us vs \<and> set us \<subseteq> set xs \<and> set vs \<subseteq> set ys"
    by (intro kst_inv_switch [OF S _ _ _ _ _ s(1)]) (use n l in \<open>simp_all add: M del: store_words.simps\<close>)
  then obtain us vs where U: "kst_inv idle kb ub Handler s us vs" "set us \<subseteq> set xs" "set vs \<subseteq> set ys" by blast
  have "?p \<in> word_addrs ?p 8" unfolding word_addrs_def by (rule image_eqI [of _ _ 0]) simp_all
  with A U(2,3) have "?p \<notin> set us \<union> set vs" by blast
  from kst_inv_store_word [OF U(1) this] show ?thesis by (auto simp: s(2))
qed

lemma machine_invI:
  "kst_inv idle kb ub m (kst c) xs ys \<Longrightarrow> length (r4_r11 c) = 8 \<Longrightarrow> control c AND 2 \<noteq> 0 \<Longrightarrow> machine_inv idle kb ub (m, c)"
  by (auto simp: machine_inv_def)

lemma machine_invE:
  assumes "machine_inv idle kb ub (m, c)"
  obtains xs ys where "kst_inv idle kb ub m (kst c) xs ys" "length (r4_r11 c) = 8" "control c AND 2 \<noteq> 0"
  using assms by (auto simp: machine_inv_def)

lemma machine_inv_avoids:
  assumes "machine_inv idle kb ub (m, c)" and "avoids kb ub (kst c) A"
  obtains xs ys where "kst_inv idle kb ub m (kst c) xs ys" "A \<inter> (set xs \<union> set ys) = {}" "length (r4_r11 c) = 8"
    "control c AND 2 \<noteq> 0"
proof -
  from assms(2) obtain xs ys where "pools_ok kb ub (kst c) xs ys" "A \<inter> (set xs \<union> set ys) = {}" by (auto simp: avoids_def)
  with assms(1) show ?thesis by (auto simp: machine_inv_def intro: that kst_inv_pools)
qed

lemma machine_inv_kst:
  assumes "machine_inv idle kb ub (m, c)" and "\<And>xs ys. kst_inv idle kb ub m (kst c) xs ys \<Longrightarrow> \<exists>us vs. kst_inv idle kb ub m' s us vs"
  shows "machine_inv idle kb ub (m', c\<lparr>kst := s\<rparr>)"
  using assms by (auto simp: machine_inv_def)

lemma machine_inv_compute:
  assumes V: "machine_inv idle kb ub (Thread, c)" and A: "avoids kb ub (kst c) A" and M: "\<And>x. x \<notin> A \<Longrightarrow> M x = mem (kst c) x"
    and rs: "length rs = 8"
  shows "machine_inv idle kb ub (Thread, c\<lparr>kst := (kst c)\<lparr>mem := M, create_args := g\<rparr>, r4_r11 := rs, psp := p\<rparr>)"
proof -
  from V A obtain xs ys where k: "kst_inv idle kb ub Thread (kst c) xs ys" "A \<inter> (set xs \<union> set ys) = {}"
    "control c AND 2 \<noteq> 0" by (rule machine_inv_avoids)
  have "get_pool ((kst c)\<lparr>mem := M, create_args := g\<rparr>) = get_pool (kst c)" by (rule ext, rename_tac q, case_tac q) simp_all
  then have "kst_inv idle kb ub Thread ((kst c)\<lparr>mem := M, create_args := g\<rparr>) xs ys"
    using M k(2) by (intro kst_inv_same [OF k(1)]) (auto simp: sched_same_def kstate_simps)
  with rs k(3) show ?thesis by (intro machine_invI) simp_all
qed

lemma machine_inv_tick_in_thread:
  assumes V: "machine_inv idle kb ub (Thread, c)" and A: "avoids kb ub (kst c) (word_addrs (psp c - 32) 8)"
    and ws: "length ws = 8" and s: "SysTick_Handler (kst (enter ws c)) = Some s"
  shows "machine_inv idle kb ub (Handler, (enter ws c)\<lparr>kst := s\<rparr>)"
proof -
  from V A obtain xs ys where
    k: "kst_inv idle kb ub Thread (kst c) xs ys" "word_addrs (psp c - 32) 8 \<inter> (set xs \<union> set ys) = {}" "length (r4_r11 c) = 8"
    "control c AND 2 \<noteq> 0" by (rule machine_inv_avoids)
  have "kst_inv idle kb ub Thread (kst (enter ws c)) xs ys"
    using kst_inv_store_words [OF k(1), of "psp c - 32" ws] k(2) ws by simp
  from kst_inv_tick [OF kst_inv_mode [OF this, of Handler]] s k(3,4)
    machine_invI [of idle kb ub Handler "(enter ws c)\<lparr>kst := s\<rparr>" xs ys]
  show ?thesis by simp
qed

lemma machine_inv_switch:
  assumes V: "machine_inv idle kb ub (Thread, c)" and A: "avoids kb ub (kst c) (word_addrs (psp c - 64) 16)"
    and ws: "length ws = 8" and s: "save_context (unpend (enter ws c)) = Some s"
  shows "machine_inv idle kb ub (Saved, (enter ws c)\<lparr>kst := s\<rparr>)"
proof -
  from V A obtain xs ys where
    k: "kst_inv idle kb ub Thread (kst c) xs ys" "word_addrs (psp c - 64) 16 \<inter> (set xs \<union> set ys) = {}" "length (r4_r11 c) = 8"
    "control c AND 2 \<noteq> 0" by (rule machine_inv_avoids)
  then have "kst_inv idle kb ub Thread (kst (enter ws c)) xs ys"
    using kst_inv_store_words [OF k(1), of "psp c - 32" ws] ws by (auto simp: frames_split)
  moreover have "word_addrs (psp (enter ws c) - 32) 8 \<inter> (set xs \<union> set ys) = {}" using k(2) by (auto simp: frames_split)
  ultimately have "\<exists>s. save_context (unpend (enter ws c)) = Some s \<and> kst_inv idle kb ub Saved s xs ys"
    using k(3) by (intro kst_inv_save [where m = Thread]) simp_all
  with s k(3,4) machine_invI [of idle kb ub Saved "(enter ws c)\<lparr>kst := s\<rparr>" xs ys] show ?thesis by simp
qed

lemma machine_inv_restore:
  assumes "machine_inv idle kb ub (Committed, c)" and "restore_context c = Some c'"
  shows "machine_inv idle kb ub (Handler, c')"
proof -
  from assms(1) obtain xs ys where k: "kst_inv idle kb ub Committed (kst c) xs ys" by (rule machine_invE)
  have "kst c' = kst c" "length (r4_r11 c') = 8" "control c' AND 2 \<noteq> 0"
    using assms(2) by (auto simp: restore_context_def bind_eq_Some_conv words_at_def)
  with machine_invI [of idle kb ub Handler c' xs ys] kst_inv_mode [OF k, of Handler] show ?thesis by simp
qed

lemma machine_inv_tick:
  assumes "tick_step kb ub x y" and "machine_inv idle kb ub x"
  shows "machine_inv idle kb ub y"
  using assms
proof (induction rule: tick_step.induct)
  case (tick_in_handler m c s)
  show ?case
    by (rule machine_inv_kst [OF tick_in_handler.prems]) (use kst_inv_tick tick_in_handler.hyps(2) in fastforce)
qed (rule machine_inv_tick_in_thread)

lemma machine_inv_step:
  assumes "machine_step tr ex idle kb ub c c'" and "machine_inv idle kb ub c"
  shows "machine_inv idle kb ub c'"
  using assms
proof (induction rule: machine_step.induct)
  case (sem_init c m x n r s)
  then show ?case by (blast intro: machine_inv_kst kst_inv_sem_init)
next
  case (mutex_init c m y r s)
  then show ?case by (blast intro: machine_inv_kst kst_inv_mutex_init)
next
  case (supervisor_call c rest r0 r1 c')
  from supervisor_call.prems supervisor_call.hyps(5) obtain xs ys where
    V: "kst_inv idle kb ub Thread (kst c) xs ys" "word_addrs (psp c - 32) 8 \<inter> (set xs \<union> set ys) = {}" "length (r4_r11 c) = 8"
    "control c AND 2 \<noteq> 0" by (rule machine_inv_avoids)
  from kst_inv_call [OF V(1) supervisor_call.hyps(1,2) V(4) supervisor_call.hyps(3,4) V(2) supervisor_call.hyps(6,7)] V(3,4) show ?case
    by (auto intro: machine_invI)
next
  case (tick x y)
  then show ?case by (blast intro: machine_inv_tick)
next
  case (switch_chained c s)
  from switch_chained.prems switch_chained.hyps(2) obtain xs ys where
    V: "kst_inv idle kb ub Handler (kst c) xs ys" "word_addrs (psp c - 32) 8 \<inter> (set xs \<union> set ys) = {}" "length (r4_r11 c) = 8"
    "control c AND 2 \<noteq> 0" by (rule machine_inv_avoids)
  from kst_inv_save [OF V(1,3,2)] switch_chained.hyps(3) V(3,4)
    machine_invI [of idle kb ub Saved "c\<lparr>kst := s\<rparr>" xs ys]
  show ?case by simp
next
  case (commit m c m' s)
  show ?case by (rule machine_inv_kst [OF commit.prems]) (use kst_inv_commit_step commit.hyps in blast)
next
  case (resume c)
  from resume.prems obtain xs ys where V: "kst_inv idle kb ub Handler (kst c) xs ys" "length (r4_r11 c) = 8"
    "control c AND 2 \<noteq> 0" by (rule machine_invE)
  from machine_invI [of idle kb ub Thread "c\<lparr>psp := psp c + 32\<rparr>" xs ys] kst_inv_mode [OF V(1), of Thread] V(2,3) show ?case by simp
qed (blast intro: machine_inv_compute machine_inv_switch machine_inv_restore)+

lemma reachable_inv:
  assumes "reachable tr ex idle kb ub c0 c" and "machine_inv idle kb ub c0"
  shows "machine_inv idle kb ub c"
  using assms by induction (auto intro: machine_inv_step)

end
