(* ===== verification/Hardware_Properties.thy ===== *)
theory Hardware_Properties
  imports Hardware
begin

text \<open>
  What the set-up achieves: unprivileged code can only reach the user regions, the region sizes are encoded
  correctly, the tick timer has the requested period, and the clock tree is brought up in a safe order.
\<close>

unbundle bit_operations_syntax

subsection \<open>Writes\<close>

lemma io_write_fields [simp]:
  "io (io_write a v c) = (io c)(a := v)" "io_log (io_write a v c) = io_log c @ [(a, v)]" "kst (io_write a v c) = kst c"
  "psp (io_write a v c) = psp c" "msp (io_write a v c) = msp c" "control (io_write a v c) = control c"
  "r4_r11 (io_write a v c) = r4_r11 c"
  by (simp_all add: io_write_def)

lemma io_or_fields [simp]:
  "io_log (io_or a v c) = io_log c @ [(a, io c a OR v)]" "kst (io_or a v c) = kst c"
  "psp (io_or a v c) = psp c" "msp (io_or a v c) = msp c" "control (io_or a v c) = control c" "r4_r11 (io_or a v c) = r4_r11 c"
  "io (io_or a v c) = (io c)(a := io c a OR v)"
  by (simp_all add: io_or_def)

text \<open>Set-up only touches memory-mapped registers.\<close>

definition only_io :: "cpu \<Rightarrow> cpu \<Rightarrow> bool" where
  "only_io c c' \<longleftrightarrow> kst c' = kst c \<and> psp c' = psp c \<and> msp c' = msp c \<and> control c' = control c \<and> r4_r11 c' = r4_r11 c"

lemma only_io_setup:
  "only_io c (os_port_set_pendsv_priority_lowest c)" "only_io c (os_port_mpu_init l c)"
  "only_io c (systick_init f g c)" "only_io c (systick_enable c)" "only_io c (os_bench_clock_init c)"
  by (simp_all add: only_io_def os_port_set_pendsv_priority_lowest_def os_port_mpu_init_def os_port_mpu_region_configure_def
      systick_init_def systick_enable_def os_bench_clock_init_def Let_def)

lemma only_io_clock: "clock_init hw c = Some c' \<Longrightarrow> only_io c c'"
  by (auto simp: clock_init_def clock_run_def clock_modify_def clock_write_def bind_eq_Some_conv only_io_def)

subsection \<open>Region sizes\<close>

lemma mpu_size_loop_log:
  "1 \<le> unat n \<Longrightarrow> \<exists>k. mpu_size_loop n e = e + of_nat k \<and> 2 ^ k \<le> unat n \<and> unat n < 2 ^ Suc k"
proof (induction n e rule: mpu_size_loop.induct)
  case (1 n e)
  show ?case
  proof (cases "1 < n")
    case True
    then have n: "2 \<le> unat n" "unat (drop_bit 1 n) = unat n div 2"
      by (simp_all add: word_less_nat_alt drop_bit_Suc unat_div)
    with 1 True obtain k where
      k: "mpu_size_loop (drop_bit 1 n) (e + 1) = e + 1 + of_nat k" "2 ^ k \<le> unat n div 2" "unat n div 2 < 2 ^ Suc k"
      by fastforce
    then have "mpu_size_loop n e = e + of_nat (Suc k)" using True by (subst mpu_size_loop.simps) simp
    moreover have "2 ^ Suc k \<le> unat n" "unat n < 2 ^ Suc (Suc k)" using k(2,3) by simp_all
    ultimately show ?thesis by blast
  next
    case False
    with "1.prems" have "unat n = 1" by (simp add: word_less_nat_alt)
    with False show ?thesis by (intro exI [of _ 0]) (simp add: mpu_size_loop.simps)
  qed
qed

lemma floor_log_unique: "2 ^ k \<le> (n :: nat) \<Longrightarrow> n < 2 ^ Suc k \<Longrightarrow> 2 ^ j \<le> n \<Longrightarrow> n < 2 ^ Suc j \<Longrightarrow> j = k"
proof -
  assume a: "2 ^ k \<le> n" "n < 2 ^ Suc k" "2 ^ j \<le> n" "n < 2 ^ Suc j"
  then have "2 ^ j < (2 ^ Suc k :: nat)" "2 ^ k < (2 ^ Suc j :: nat)" by linarith+
  then have "j < Suc k" "k < Suc j" by (simp_all only: power_strict_increasing_iff one_less_numeral_iff semiring_norm)
  then show "j = k" by simp
qed

lemma unat_power: "k < 32 \<Longrightarrow> unat (2 ^ k :: u32) = 2 ^ k"
proof -
  assume "k < 32"
  then have "(2 :: nat) ^ k < 2 ^ 32" by (simp only: power_strict_increasing_iff one_less_numeral_iff semiring_norm)
  then have "unat (of_nat (2 ^ k) :: u32) = 2 ^ k" by (simp only: unat_of_nat) simp
  then show ?thesis by simp
qed

text \<open>
  The size field of a protection region. For a size of at least two bytes the field, shifted into place,
  holds \<open>k - 1\<close> where \<open>2 ^ k\<close> is the largest power of two that is not larger than the size: the region the
  hardware protects is never larger than the one asked for, and it is exactly that region for a power of two.
\<close>

theorem mpu_size_encode_floor:
  assumes "2 \<le> unat n"
  shows "\<exists>k. os_port_mpu_size_encode n = push_bit 1 (of_nat (k - 1)) \<and> 2 ^ k \<le> unat n \<and> unat n < 2 ^ Suc k \<and>
    (\<forall>j. unat n = 2 ^ j \<longrightarrow> k = j)"
proof -
  from mpu_size_loop_log [of n 0] assms obtain k where
    k: "mpu_size_loop n 0 = of_nat k" "2 ^ k \<le> unat n" "unat n < 2 ^ Suc k" by auto
  then have "k \<noteq> 0" using assms by (cases k) auto
  then have "(of_nat k :: u32) - 1 = of_nat (k - 1)" by (cases k) simp_all
  moreover have "k = j" if "unat n = 2 ^ j" for j using floor_log_unique [of j "unat n" k] k that by simp
  ultimately show ?thesis using k by (intro exI [of _ k]) (simp add: os_port_mpu_size_encode_def)
qed

theorem mpu_size_encode_floor_witness:
  "\<exists>k. os_port_mpu_size_encode 20480 = push_bit 1 (of_nat (k - 1)) \<and> 2 ^ k \<le> unat (20480 :: u32) \<and>
    unat (20480 :: u32) < 2 ^ Suc k \<and> (\<forall>j. unat (20480 :: u32) = 2 ^ j \<longrightarrow> k = j)"
  by (rule mpu_size_encode_floor) simp

subsection \<open>Memory protection\<close>

text \<open>
  The memory protection unit of the ARMv7-M architecture. The registers select a region (\<open>MPU_RNR\<close>, or the low
  bits of \<open>MPU_RBAR\<close> when its \<open>VALID\<close> bit is set) and set its base and its attributes; \<open>mpu_table\<close> is the table
  of regions that a sequence of writes leaves behind.
\<close>

fun mpu_table :: "(addr \<times> u32) list \<Rightarrow> u32 \<times> (u32 \<Rightarrow> u32 \<times> u32) \<Rightarrow> u32 \<times> (u32 \<Rightarrow> u32 \<times> u32)" where
  "mpu_table [] t = t"
| "mpu_table ((a, v) # w) (n, t) = mpu_table w
     (if a = MPU_RNR then (v, t)
      else if a = MPU_RBAR then
        (let n = (if v AND 16 = 0 then n else v AND 15) in (n, t(n := (v, snd (t n)))))
      else if a = MPU_RASR then (n, t(n := (fst (t n), v)))
      else (n, t))"

definition mpu_regions :: "(addr \<times> u32) list \<Rightarrow> u32 \<Rightarrow> u32 \<times> u32" where
  "mpu_regions w = snd (mpu_table w (0, \<lambda>_. (0, 0)))"

text \<open>The fields of \<open>MPU_RASR\<close>, and the addresses of a region: the base is aligned to the size.\<close>

definition rasr_enabled :: "u32 \<Rightarrow> bool" where "rasr_enabled r \<longleftrightarrow> r AND 1 \<noteq> 0"
definition rasr_ap :: "u32 \<Rightarrow> u32" where "rasr_ap r = drop_bit 24 r AND 7"
definition rasr_xn :: "u32 \<Rightarrow> bool" where "rasr_xn r \<longleftrightarrow> drop_bit 28 r AND 1 \<noteq> 0"
definition rasr_log_size :: "u32 \<Rightarrow> nat" where "rasr_log_size r = Suc (unat (drop_bit 1 r AND 31))"

definition region_matches :: "u32 \<times> u32 \<Rightarrow> addr \<Rightarrow> bool" where
  "region_matches r x \<longleftrightarrow> rasr_enabled (snd r) \<and>
     unat x div 2 ^ rasr_log_size (snd r) = unat (fst r) div 2 ^ rasr_log_size (snd r)"

datatype access = Read | Write | Execute

fun user_allowed :: "access \<Rightarrow> u32 \<Rightarrow> bool" where
  "user_allowed Read r = (rasr_ap r \<in> {2, 3, 6, 7})"
| "user_allowed Write r = (rasr_ap r = 3)"
| "user_allowed Execute r = (rasr_ap r \<in> {2, 3, 6, 7} \<and> \<not> rasr_xn r)"

text \<open>An unprivileged access: the matching region with the highest number decides, and without a matching region
  the access faults. With the unit disabled everything is allowed.\<close>

definition user_access :: "nat \<Rightarrow> cpu \<Rightarrow> access \<Rightarrow> addr \<Rightarrow> bool" where
  "user_access regions c op x \<longleftrightarrow> io c MPU_CTRL AND 1 = 0 \<or>
     (case filter (\<lambda>n. region_matches (mpu_regions (io_log c) (of_nat n)) x) (rev [0..<regions]) of
        [] \<Rightarrow> False
      | n # _ \<Rightarrow> user_allowed op (snd (mpu_regions (io_log c) (of_nat n))))"

text \<open>The regions of the linker script: powers of two from 32 bytes on, aligned to their size, and disjoint.\<close>

definition region_ok :: "addr \<Rightarrow> addr \<Rightarrow> bool" where
  "region_ok b e \<longleftrightarrow> (\<exists>k\<in>{5..<32}. e - b = 2 ^ k \<and> unat b mod 2 ^ k = 0)"

definition in_region :: "addr \<Rightarrow> addr \<Rightarrow> addr \<Rightarrow> bool" where
  "in_region b e x \<longleftrightarrow> unat b \<le> unat x \<and> unat x < unat b + unat (e - b)"

definition layout_regions :: "layout \<Rightarrow> (addr \<times> addr) list" where
  "layout_regions l = [(user_flash_region_start l, user_flash_region_end l), (kernel_flash_region_start l, kernel_flash_region_end l),
     (user_ram_region_start l, user_ram_region_end l), (kernel_ram_region_start l, kernel_ram_region_end l),
     (DWT_PERIPH_REGION_BASE, DWT_PERIPH_REGION_BASE + DWT_PERIPH_REGION_SIZE)]"

definition apart :: "addr \<times> addr \<Rightarrow> addr \<times> addr \<Rightarrow> bool" where
  "apart r q \<longleftrightarrow> unat (fst r) + unat (snd r - fst r) \<le> unat (fst q) \<or> unat (fst q) + unat (snd q - fst q) \<le> unat (fst r)"

definition layout_ok :: "layout \<Rightarrow> bool" where
  "layout_ok l \<longleftrightarrow> list_all (\<lambda>(b, e). region_ok b e) (layout_regions l) \<and> sorted_wrt apart (layout_regions l)"

definition region_attrs :: "u32 list" where
  "region_attrs = [MPU_AP_RO_ALL OR MPU_ATTR_FLASH, MPU_AP_PRIV_RO OR MPU_ATTR_FLASH,
     MPU_AP_FULL_ACCESS OR MPU_ATTR_SRAM OR MPU_RASR_XN, MPU_AP_PRIV_RW OR MPU_ATTR_SRAM OR MPU_RASR_XN,
     MPU_AP_RO_ALL OR MPU_ATTR_DEVICE OR MPU_RASR_XN]"

definition rasr_of :: "u32 \<Rightarrow> addr \<times> addr \<Rightarrow> u32" where
  "rasr_of attr r = attr OR os_port_mpu_size_encode (snd r - fst r) OR MPU_REGION_ENABLE"

lemma size_encode_power: "0 < k \<Longrightarrow> k < 32 \<Longrightarrow> os_port_mpu_size_encode (2 ^ k) = push_bit 1 (of_nat (k - 1))"
proof -
  assume k: "0 < k" "k < 32"
  then have u: "unat (2 ^ k :: u32) = 2 ^ k" by (simp add: unat_power)
  from mpu_size_loop_log [of "2 ^ k" 0] u obtain j where
    j: "mpu_size_loop (2 ^ k) 0 = of_nat j" "2 ^ j \<le> (2 ^ k :: nat)" "2 ^ k < (2 ^ Suc j :: nat)" by auto
  have "k = j" by (rule floor_log_unique [of j "2 ^ k" k]) (use j in simp_all)
  with j k show ?thesis by (cases k) (simp_all add: os_port_mpu_size_encode_def)
qed

text \<open>The size field does not disturb the other attributes.\<close>

lemma rasr_or_fields:
  fixes attr m :: u32
  assumes "attr AND mask 6 = 0" and "take_bit 5 m = m"
  defines "r \<equiv> attr OR push_bit 1 m OR 1"
  shows "r AND 1 = 1" "drop_bit 1 r AND mask 5 = m" "drop_bit 24 r AND 7 = drop_bit 24 attr AND 7"
    "drop_bit 28 r AND 1 = drop_bit 28 attr AND 1"
proof -
  have a: "\<not> bit attr i" if "i < 6" for i
    using arg_cong [OF assms(1), of "\<lambda>w. bit w i"] that by (simp add: bit_and_iff bit_mask_iff)
  have m: "\<not> bit m i" if "\<not> i < 5" for i using assms(2) that by (metis bit_take_bit_iff)
  have b: "bit r i \<longleftrightarrow> bit attr i \<or> i = 0 \<or> (1 \<le> i \<and> bit m (i - 1))" if "i < 32" for i
  proof -
    have "bit (push_bit 1 m) i \<longleftrightarrow> 1 \<le> i \<and> bit m (i - 1)" using that by (simp only: bit_push_bit_iff) simp
    then show ?thesis by (auto simp: r_def bit_or_iff bit_1_iff simp del: push_bit_of_Suc_0 push_bit_numeral)
  qed
  show "drop_bit 1 r AND mask 5 = m"
  proof (rule bit_word_eqI)
    fix i
    assume "i < LENGTH(32)"
    then show "bit (drop_bit 1 r AND mask 5) i = bit m i"
      using a [of "Suc i"] m [of i] b [of "Suc i"] by (cases "i < 5") (auto simp: bit_and_iff bit_mask_iff bit_drop_bit_eq)
  qed
  have h: "drop_bit n r = drop_bit n attr" if "7 \<le> n" for n
  proof (rule bit_word_eqI)
    fix i
    assume "i < LENGTH(32)"
    show "bit (drop_bit n r) i = bit (drop_bit n attr) i"
    proof (cases "n + i < 32")
      case True
      then show ?thesis using m [of "n + i - 1"] b [of "n + i"] that by (auto simp: bit_drop_bit_eq)
    next
      case False
      then show ?thesis using bit_imp_le_length [of r "n + i"] bit_imp_le_length [of attr "n + i"] by (auto simp: bit_drop_bit_eq)
    qed
  qed
  show "drop_bit 24 r AND 7 = drop_bit 24 attr AND 7" "drop_bit 28 r AND 1 = drop_bit 28 attr AND 1" by (simp_all add: h)
  have "bit r 0" using b [of 0] by simp
  then show "r AND 1 = 1" by (simp add: and_one_eq bit_0 odd_iff_mod_2_eq_one)
qed

lemma rasr_fields:
  assumes k: "k \<in> {5..<32}" and attr: "attr \<in> set region_attrs"
  defines "r \<equiv> attr OR os_port_mpu_size_encode (2 ^ k) OR MPU_REGION_ENABLE"
  shows "rasr_enabled r" "rasr_log_size r = k" "user_allowed op r = user_allowed op attr"
proof -
  let ?m = "of_nat (k - 1) :: u32"
  have k32: "k - 1 < 32" using k by auto
  then have "k - 1 < 2 ^ 32" by (rule less_trans) simp
  then have u: "unat ?m = k - 1" by (simp only: unat_of_nat) simp
  have "unat (take_bit 5 ?m) = unat ?m" by (simp only: unsigned_take_bit_eq u) (use k32 in \<open>simp add: take_bit_eq_mod\<close>)
  then have "take_bit 5 ?m = ?m" by (simp only: word_unat_eq_iff)
  moreover have "attr AND mask 6 = 0" using attr by (auto simp: region_attrs_def mask_eq_exp_minus_1)
  moreover have "r = attr OR push_bit 1 ?m OR 1" using k by (simp add: r_def size_encode_power)
  ultimately have f: "r AND 1 = 1" "drop_bit 1 r AND mask 5 = ?m" "drop_bit 24 r AND 7 = drop_bit 24 attr AND 7"
    "drop_bit 28 r AND 1 = drop_bit 28 attr AND 1" using rasr_or_fields [of attr ?m] by simp_all
  show "rasr_enabled r" using f(1) by (simp add: rasr_enabled_def)
  have "(31 :: u32) = mask 5" by (simp add: mask_eq_exp_minus_1)
  then show "rasr_log_size r = k" using f(2) u k by (simp add: rasr_log_size_def)
  show "user_allowed op r = user_allowed op attr" using f(3,4) by (cases op) (simp_all add: rasr_ap_def rasr_xn_def)
qed

lemma region_matches_iff:
  assumes "region_ok (fst r) (snd r)" and "attr \<in> set region_attrs"
  shows "region_matches (fst r, rasr_of attr r) x \<longleftrightarrow> in_region (fst r) (snd r) x"
    and "user_allowed op (rasr_of attr r) = user_allowed op attr"
proof -
  from assms(1) obtain k where k: "k \<in> {5..<32}" "snd r - fst r = 2 ^ k" "unat (fst r) mod 2 ^ k = 0" by (auto simp: region_ok_def)
  note f = rasr_fields [OF k(1) assms(2)]
  have "unat (2 ^ k :: u32) = 2 ^ k" using k(1) by (simp add: unat_power)
  then have s: "unat (snd r - fst r) = 2 ^ k" using k(2) by simp
  from k(3) obtain q where q: "unat (fst r) = 2 ^ k * q" by auto
  have "unat x div 2 ^ k = q \<longleftrightarrow> 2 ^ k * q \<le> unat x \<and> unat x < 2 ^ k * q + 2 ^ k"
    using div_nat_eqI [of "2 ^ k" q "unat x"] dividend_less_times_div [of "2 ^ k" "unat x"] times_div_less_eq_dividend
    by (auto simp: mult.commute)
  with f q s show "region_matches (fst r, rasr_of attr r) x \<longleftrightarrow> in_region (fst r) (snd r) x"
    by (simp add: region_matches_def rasr_of_def in_region_def k(2))
  show "user_allowed op (rasr_of attr r) = user_allowed op attr" using f by (cases op) (simp_all add: rasr_of_def k(2))
qed

lemma mpu_table_append: "mpu_table (v @ w) t = mpu_table w (mpu_table v t)"
  by (induction v t rule: mpu_table.induct) simp_all

lemma mpu_table_other:
  "\<forall>(a, v)\<in>set w. a \<notin> {MPU_RNR, MPU_RBAR, MPU_RASR} \<Longrightarrow> mpu_table w t = t"
  by (induction w t rule: mpu_table.induct) auto

lemma region_base_valid:
  assumes "region_ok b e"
  shows "b AND 16 = 0"
proof -
  from assms obtain k where k: "k \<in> {5..<32}" "unat b mod 2 ^ k = 0" by (auto simp: region_ok_def)
  then have "(2 :: nat) ^ 5 dvd unat b" using le_imp_power_dvd [of 5 k "2 :: nat"] by (auto intro: dvd_trans)
  then have "even (unat b div 2 ^ 4)" by auto
  then have "\<not> bit (unat b) 4" by (simp only: bit_iff_odd) simp
  then have "\<not> bit b 4" by (simp add: bit_unsigned_iff)
  then have "b AND 2 ^ 4 = 0" by (simp only: and_exp_eq_0_iff_not_bit not_False_eq_True)
  then show ?thesis by simp
qed

text \<open>The table the set-up leaves behind.\<close>

lemma mpu_init_table:
  assumes ok: "layout_ok l" and log: "\<forall>(a, v)\<in>set (io_log c). a \<notin> {MPU_RNR, MPU_RBAR, MPU_RASR}"
    and type: "drop_bit 8 (io c MPU_TYPE) AND 0xFF \<noteq> 0"
  defines "d \<equiv> os_port_mpu_init l c"
  shows "i < 5 \<Longrightarrow> mpu_regions (io_log d) (of_nat i) =
      (fst (layout_regions l ! i), rasr_of (region_attrs ! i) (layout_regions l ! i))"
    and "5 \<le> i \<Longrightarrow> i \<le> 16 \<Longrightarrow> mpu_regions (io_log d) (of_nat i) = (0, 0)"
    and "io d MPU_CTRL AND 1 = 1"
proof -
  have v: "b AND 16 = 0" if "(b, e) \<in> set (layout_regions l)" for b e
    using ok that region_base_valid by (auto simp: layout_ok_def list_all_iff)
  note v = v [of "user_flash_region_start l" "user_flash_region_end l"] v [of "kernel_flash_region_start l" "kernel_flash_region_end l"]
    v [of "user_ram_region_start l" "user_ram_region_end l"] v [of "kernel_ram_region_start l" "kernel_ram_region_end l"]
  have t: "mpu_regions (io_log d) = (\<lambda>_. (0, 0))
     (0 := (fst (layout_regions l ! 0), rasr_of (region_attrs ! 0) (layout_regions l ! 0)),
      1 := (fst (layout_regions l ! 1), rasr_of (region_attrs ! 1) (layout_regions l ! 1)),
      2 := (fst (layout_regions l ! 2), rasr_of (region_attrs ! 2) (layout_regions l ! 2)),
      3 := (fst (layout_regions l ! 3), rasr_of (region_attrs ! 3) (layout_regions l ! 3)),
      4 := (fst (layout_regions l ! 4), rasr_of (region_attrs ! 4) (layout_regions l ! 4)))"
    unfolding d_def mpu_regions_def os_port_mpu_init_def os_port_mpu_region_configure_def Let_def
    using type v
    by (simp add: mpu_table_append mpu_table_other [OF log] layout_regions_def region_attrs_def rasr_of_def)
  show "mpu_regions (io_log d) (of_nat i) = (fst (layout_regions l ! i), rasr_of (region_attrs ! i) (layout_regions l ! i))"
    if "i < 5"
  proof -
    have "i \<in> {0, 1, 2, 3, 4}" using that by auto
    then show ?thesis unfolding t by auto
  qed
  show "mpu_regions (io_log d) (of_nat i) = (0, 0)" if "5 \<le> i" "i \<le> 16"
  proof -
    have "i \<in> {5, 6, 7, 8, 9, 10, 11, 12, 13, 14, 15, 16}" using that by simp presburger
    then show ?thesis unfolding t by auto
  qed
  show "io d MPU_CTRL AND 1 = 1" using type by (simp add: d_def os_port_mpu_init_def os_port_mpu_region_configure_def Let_def)
qed

lemma filter_rev_upt:
  assumes "\<And>k. k < n \<Longrightarrow> P k \<longleftrightarrow> k = i"
  shows "filter P (rev [0..<n]) = (if i < n then [i] else [])"
  using assms by (induction n) (auto simp: less_Suc_eq)

text \<open>What the five regions allow unprivileged code to do.\<close>

definition region_ops :: "nat \<Rightarrow> access \<Rightarrow> bool" where
  "region_ops i op \<longleftrightarrow> (op \<noteq> Write \<and> i = 0) \<or> (op \<noteq> Execute \<and> i = 2) \<or> (op = Read \<and> i = 4)"

lemma region_ops_attrs: "i < 5 \<Longrightarrow> user_allowed op (region_attrs ! i) = region_ops i op"
proof -
  assume "i < 5"
  then have "i \<in> {0, 1, 2, 3, 4}" by auto
  then show ?thesis by (cases op) (auto simp: region_attrs_def region_ops_def rasr_ap_def rasr_xn_def)
qed

lemma apart_disjoint: "apart r q \<Longrightarrow> in_region (fst r) (snd r) x \<Longrightarrow> in_region (fst q) (snd q) x \<Longrightarrow> False"
  by (auto simp: apart_def in_region_def)

lemma user_access_region:
  assumes ok: "layout_ok l" and log: "\<forall>(a, v)\<in>set (io_log c). a \<notin> {MPU_RNR, MPU_RBAR, MPU_RASR}"
    and type: "drop_bit 8 (io c MPU_TYPE) AND 0xFF \<noteq> 0" and n: "5 \<le> n" "n \<le> 16"
  shows "i < 5 \<Longrightarrow> in_region (fst (layout_regions l ! i)) (snd (layout_regions l ! i)) x \<Longrightarrow>
      user_access n (os_port_mpu_init l c) op x \<longleftrightarrow> region_ops i op"
    and "\<forall>i<5. \<not> in_region (fst (layout_regions l ! i)) (snd (layout_regions l ! i)) x \<Longrightarrow>
      \<not> user_access n (os_port_mpu_init l c) op x"
proof -
  let ?t = "mpu_regions (io_log (os_port_mpu_init l c))"
  note T = mpu_init_table [OF ok log type]
  have len: "length (layout_regions l) = 5" "length region_attrs = 5" by (simp_all add: layout_regions_def region_attrs_def)
  have r: "region_ok (fst (layout_regions l ! j)) (snd (layout_regions l ! j))" "region_attrs ! j \<in> set region_attrs" if "j < 5" for j
    using ok that len by (auto simp: layout_ok_def list_all_length case_prod_unfold)
  have m: "region_matches (?t (of_nat j)) x \<longleftrightarrow> j < 5 \<and> in_region (fst (layout_regions l ! j)) (snd (layout_regions l ! j)) x"
    if "j < n" for j
  proof (cases "j < 5")
    case True
    then show ?thesis using T(1) [OF True] region_matches_iff(1) [OF r [OF True]] by simp
  next
    case False
    then show ?thesis using T(2) [of j] n that by (simp add: region_matches_def rasr_enabled_def)
  qed
  show "user_access n (os_port_mpu_init l c) op x \<longleftrightarrow> region_ops i op"
    if i: "i < 5" "in_region (fst (layout_regions l ! i)) (snd (layout_regions l ! i)) x"
  proof -
    have "j = i" if j: "j < 5" "in_region (fst (layout_regions l ! j)) (snd (layout_regions l ! j)) x" for j
      using ok len i j apart_disjoint [of "layout_regions l ! i" "layout_regions l ! j" x]
        apart_disjoint [of "layout_regions l ! j" "layout_regions l ! i" x]
      by (cases i j rule: linorder_cases) (auto simp: layout_ok_def sorted_wrt_iff_nth_less)
    then have "region_matches (?t (of_nat j)) x \<longleftrightarrow> j = i" if "j < n" for j using m [OF that] i by blast
    from filter_rev_upt [OF this] i(1) n(1)
    have "filter (\<lambda>j. region_matches (?t (of_nat j)) x) (rev [0..<n]) = [i]" by simp
    then show ?thesis
      using T(1) [OF i(1)] T(3) region_matches_iff(2) [OF r [OF i(1)]] region_ops_attrs [OF i(1)] by (simp add: user_access_def)
  qed
  show "\<not> user_access n (os_port_mpu_init l c) op x"
    if o: "\<forall>i<5. \<not> in_region (fst (layout_regions l ! i)) (snd (layout_regions l ! i)) x"
  proof -
    have "filter (\<lambda>j. region_matches (?t (of_nat j)) x) (rev [0..<n]) = []" using m o by (auto simp: filter_empty_conv)
    then show ?thesis using T(3) by (simp add: user_access_def)
  qed
qed

text \<open>
  C12: Memory protection. With disjoint regions whose sizes are powers of two, as the linker scripts define
  them, after \<open>os_port_mpu_init\<close> unprivileged code can read and execute user flash but not write it, can read
  and write user RAM but not execute it, can only read the cycle counter registers, and has no access to
  kernel flash, to kernel RAM or to any other address.
\<close>

theorem mpu_protects_kernel:
  assumes "layout_ok l" and "\<forall>(a, v)\<in>set (io_log c). a \<notin> {MPU_RNR, MPU_RBAR, MPU_RASR}"
    and "drop_bit 8 (io c MPU_TYPE) AND 0xFF \<noteq> 0" and "5 \<le> n" and "n \<le> 16"
  shows "user_access n (os_port_mpu_init l c) op x \<longleftrightarrow>
    (op \<noteq> Write \<and> in_region (user_flash_region_start l) (user_flash_region_end l) x) \<or>
    (op \<noteq> Execute \<and> in_region (user_ram_region_start l) (user_ram_region_end l) x) \<or>
    (op = Read \<and> in_region DWT_PERIPH_REGION_BASE (DWT_PERIPH_REGION_BASE + DWT_PERIPH_REGION_SIZE) x)"
proof -
  let ?in = "\<lambda>i. in_region (fst (layout_regions l ! i)) (snd (layout_regions l ! i)) x"
  let ?a = "user_access n (os_port_mpu_init l c) op x"
  note R = user_access_region [OF assms]
  have five: "(\<exists>i<5. P i) \<longleftrightarrow> P 0 \<or> P 1 \<or> P 2 \<or> P 3 \<or> P (4 :: nat)" for P
    by (auto simp: numeral_eq_Suc less_Suc_eq)
  have "?a \<longleftrightarrow> (\<exists>i<5. ?in i \<and> region_ops i op)"
    using R(1) [where op = op] R(2) [of x op] by blast
  then show ?thesis unfolding five by (auto simp: layout_regions_def region_ops_def)
qed

text \<open>The linker script for the STM32F103C8T6.\<close>

definition stm32f103c8t6 :: layout where
  "stm32f103c8t6 = \<lparr>user_flash_region_start = 0x08000000, user_flash_region_end = 0x08008000,
     kernel_flash_region_start = 0x08008000, kernel_flash_region_end = 0x08010000,
     user_ram_region_start = 0x20000000, user_ram_region_end = 0x20004000,
     kernel_ram_region_start = 0x20004000, kernel_ram_region_end = 0x20005000\<rparr>"

lemma stm32f103c8t6_ok: "layout_ok stm32f103c8t6"
proof -
  have "region_ok 0x08000000 0x08008000" "region_ok 0x08008000 0x08010000"
    unfolding region_ok_def by (rule bexI [of _ 15]; simp)+
  moreover have "region_ok 0x20000000 0x20004000" "region_ok 0x20004000 0x20005000" "region_ok 0xE0001000 0xE0001020"
    unfolding region_ok_def by (rule bexI [of _ 14], simp, simp, rule bexI [of _ 12], simp, simp, rule bexI [of _ 5], simp, simp)
  ultimately show ?thesis by (simp add: layout_ok_def layout_regions_def stm32f103c8t6_def apart_def)
qed

theorem mpu_protects_kernel_witness:
  "user_access 8 (os_port_mpu_init stm32f103c8t6 (reset_cpu sample)) Write 0x20004010 \<longleftrightarrow>
    (Write \<noteq> Write \<and> in_region (user_flash_region_start stm32f103c8t6) (user_flash_region_end stm32f103c8t6) 0x20004010) \<or>
    (Write \<noteq> Execute \<and> in_region (user_ram_region_start stm32f103c8t6) (user_ram_region_end stm32f103c8t6) 0x20004010) \<or>
    (Write = Read \<and> in_region DWT_PERIPH_REGION_BASE (DWT_PERIPH_REGION_BASE + DWT_PERIPH_REGION_SIZE) 0x20004010)"
  by (rule mpu_protects_kernel [OF stm32f103c8t6_ok]) (simp_all add: reset_cpu_def)

subsection \<open>Tick timer\<close>

text \<open>
  \<open>systick_init\<close> leaves the counter running from the core clock with its interrupt off and a reload value of
  one less than the number of clock cycles per tick; the reload value is written while the counter is off.
  Enabling only adds the interrupt. For both clock rates of the build (25 MHz and 72 MHz, 1000 ticks per
  second) the reload value fits into the 24 bits of the register.
\<close>

theorem systick_period:
  assumes "0 < tick_hz" and "tick_hz \<le> cpu_hz"
  shows "(let c' = systick_init cpu_hz tick_hz c in
      unat (io c' SYST_RVR) + 1 = unat cpu_hz div unat tick_hz \<and> io c' SYST_CSR = 5 \<and> io c' SYST_CVR = 0 \<and>
      io_log c' = io_log c @ [(SYST_CSR, 0), (SYST_RVR, io c' SYST_RVR), (SYST_CVR, 0), (SYST_CSR, 5)] \<and>
      io (systick_enable c') = (io c')(SYST_CSR := 7)) \<and>
    (tick_hz = 1000 \<and> cpu_hz \<in> {25000000, 72000000} \<longrightarrow> unat (io (systick_init cpu_hz tick_hz c) SYST_RVR) < 2 ^ 24)"
proof -
  have "0 < unat cpu_hz div unat tick_hz" using assms by (simp add: word_less_nat_alt word_le_nat_alt div_greater_zero_iff)
  then have "unat (cpu_hz div tick_hz - 1) + 1 = unat cpu_hz div unat tick_hz"
    by (simp add: unat_div [symmetric] unat_minus_one unat_gt_0)
  then show ?thesis by (auto simp: systick_init_def systick_enable_def Let_def)
qed

theorem systick_period_witness:
  "io (systick_init 72000000 1000 (reset_cpu sample)) SYST_RVR = 71999 \<and>
    unat (io (systick_init 72000000 1000 (reset_cpu sample)) SYST_RVR) + 1 = unat (72000000 :: u32) div unat (1000 :: u32)"
  using systick_period [of 1000 72000000 "reset_cpu sample"] by (simp add: systick_init_def)

subsection \<open>Clock tree\<close>

text \<open>The history after \<open>n\<close> more reads of a register. \<open>eventually_reads\<close>: polling ends.\<close>

fun reads :: "clock_hw \<Rightarrow> addr \<Rightarrow> nat \<Rightarrow> bus_access list \<Rightarrow> bus_access list" where
  "reads hw a 0 h = h"
| "reads hw a (Suc n) h = reads hw a n (h @ [Rd a (hw h a)])"

definition eventually_reads :: "clock_hw \<Rightarrow> addr \<Rightarrow> (u32 \<Rightarrow> bool) \<Rightarrow> bus_access list \<Rightarrow> bool" where
  "eventually_reads hw a ready h \<longleftrightarrow> (\<exists>n. ready (hw (reads hw a n h) a))"

lemma poll_ends:
  assumes "eventually_reads hw a ready h"
  shows "\<exists>p u. poll hw a ready h = Some (h @ p @ [Rd a u]) \<and> ready u \<and> (\<forall>x\<in>set p. \<exists>v. x = Rd a v \<and> \<not> ready v)"
proof -
  have "\<exists>p u. poll hw a ready h = Some (h @ p @ [Rd a u]) \<and> ready u \<and> (\<forall>x\<in>set p. \<exists>v. x = Rd a v \<and> \<not> ready v)"
    if "ready (hw (reads hw a n h) a)" for n
    using that
  proof (induction n arbitrary: h)
    case 0
    then show ?case by (intro exI [of _ "[]"] exI [of _ "hw h a"]) (simp add: poll.simps)
  next
    case (Suc n)
    show ?case
    proof (cases "ready (hw h a)")
      case True
      then show ?thesis by (intro exI [of _ "[]"] exI [of _ "hw h a"]) (simp add: poll.simps)
    next
      case False
      from Suc.IH [of "h @ [Rd a (hw h a)]"] Suc.prems obtain p u where
        p: "poll hw a ready (h @ [Rd a (hw h a)]) = Some ((h @ [Rd a (hw h a)]) @ p @ [Rd a u])" "ready u"
        "\<forall>x\<in>set p. \<exists>v. x = Rd a v \<and> \<not> ready v" by auto
      with False show ?thesis
        by (intro exI [of _ "Rd a (hw h a) # p"] exI [of _ u]) (simp add: poll.simps [of hw a ready h] Let_def)
    qed
  qed
  with assms show ?thesis by (auto simp: eventually_reads_def)
qed

lemma poll_Some: "poll hw a ready h = Some h' \<Longrightarrow> \<exists>h. ready (hw h a)"
  by (induction rule: poll.raw_induct [rotated, consumes 1]) (auto simp: Let_def split: if_splits)

subsubsection \<open>The chip\<close>

text \<open>The value last written to a register.\<close>

fun last_write :: "addr \<Rightarrow> bus_access list \<Rightarrow> u32 option" where
  "last_write a [] = None"
| "last_write a (Rd b v # h) = last_write a h"
| "last_write a (Wr b v # h) = (case last_write a h of Some w \<Rightarrow> Some w | None \<Rightarrow> if b = a then Some v else None)"

text \<open>A status bit has been read as set, and the bit that switches the oscillator on has not been cleared since.\<close>

definition ready_since :: "u32 \<Rightarrow> u32 \<Rightarrow> bus_access list \<Rightarrow> bool" where
  "ready_since rdy on h \<longleftrightarrow> (\<exists>h1 v h2. h = h1 @ Rd RCC_CR v # h2 \<and> v AND rdy \<noteq> 0 \<and>
     (\<forall>w. Wr RCC_CR w \<in> set h2 \<longrightarrow> w AND on \<noteq> 0))"

text \<open>The documented behaviour of the chip. The bits that switch the oscillators on and that configure the PLL read as they
  were written. The crystal oscillator becomes ready when it is on. The PLL locks when it is switched on after the crystal
  oscillator has been seen ready and is still on, with the crystal as its source. The system clock switches to the PLL
  when that is selected after the PLL has been seen locked and is still on, with two wait states of the flash.\<close>

definition clock_starts :: "clock_hw \<Rightarrow> bool" where
  "clock_starts hw \<longleftrightarrow>
     (\<forall>h w. last_write RCC_CR h = Some w \<longrightarrow>
       hw h RCC_CR AND (RCC_CR_HSEON OR RCC_CR_PLLON) = w AND (RCC_CR_HSEON OR RCC_CR_PLLON)) \<and>
     (\<forall>h w. last_write RCC_CFGR h = Some w \<longrightarrow> hw h RCC_CFGR AND 0x003F0000 = w AND 0x003F0000) \<and>
     (\<forall>h w. last_write RCC_CR h = Some w \<and> w AND RCC_CR_HSEON \<noteq> 0 \<longrightarrow>
       eventually_reads hw RCC_CR (\<lambda>v. v AND RCC_CR_HSERDY \<noteq> 0) h) \<and>
     (\<forall>h w u. w AND RCC_CR_PLLON \<noteq> 0 \<and> w AND RCC_CR_HSEON \<noteq> 0 \<and> ready_since RCC_CR_HSERDY RCC_CR_HSEON h \<and>
       last_write RCC_CFGR h = Some u \<and> u AND RCC_CFGR_PLLSRC_HSE \<noteq> 0 \<longrightarrow>
       eventually_reads hw RCC_CR (\<lambda>v. v AND RCC_CR_PLLRDY \<noteq> 0) (h @ [Wr RCC_CR w])) \<and>
     (\<forall>h w u. w AND 3 = RCC_CFGR_SW_PLL \<and> ready_since RCC_CR_PLLRDY RCC_CR_PLLON h \<and>
       last_write FLASH_ACR h = Some u \<and> u AND 7 = FLASH_ACR_LATENCY_2WS \<longrightarrow>
       eventually_reads hw RCC_CFGR (\<lambda>v. v AND RCC_CFGR_SWS_MASK = RCC_CFGR_SWS_PLL) (h @ [Wr RCC_CFGR w]))"

lemma last_write_append:
  "last_write a (h @ h') = (case last_write a h' of Some w \<Rightarrow> Some w | None \<Rightarrow> last_write a h)"
  by (induction a h rule: last_write.induct) (auto split: option.split)

lemma last_write_Rd: "(\<forall>x\<in>set p. \<exists>v. x = Rd b v \<and> P v) \<Longrightarrow> last_write a p = None"
  by (induction p) auto

lemma ready_sinceI:
  "v AND rdy \<noteq> 0 \<Longrightarrow> (\<And>w. Wr RCC_CR w \<in> set h2 \<Longrightarrow> w AND on \<noteq> 0) \<Longrightarrow> ready_since rdy on (h1 @ Rd RCC_CR v # h2)"
  unfolding ready_since_def by blast

lemma replace_bits: "(x AND NOT m OR y) AND m = y AND (m :: u32)"
  by (rule bit_eqI) (auto simp: bit_simps)

lemma set_bits:
  fixes x :: u32
  shows "(x OR push_bit 16 1) AND push_bit 16 1 = push_bit 16 1" "(x OR push_bit 24 1) AND push_bit 24 1 = push_bit 24 1"
    "(x AND NOT 3 OR push_bit 0 2) AND 3 = 2"
    "(x AND NOT 0x003F0000 OR push_bit 8 4 OR push_bit 16 1 OR push_bit 18 7) AND 0x003F0000 = 0x001D0000"
  using replace_bits [of x 3 2] replace_bits [of x "0x003F0000" "push_bit 8 4 OR push_bit 16 1 OR push_bit 18 7"]
  by (simp_all add: bit.conj_disj_distrib2 ac_simps)

text \<open>Bits of a value that is known under a larger mask.\<close>

lemma mask_sub:
  assumes "x AND m = y AND m" and "m AND k = (k :: u32)"
  shows "x AND k = y AND k"
proof -
  have "x AND k = (x AND m) AND k" by (simp add: and.assoc assms(2))
  also have "\<dots> = y AND k" by (simp add: assms) (simp add: and.assoc assms(2))
  finally show ?thesis .
qed

text \<open>The three steps of \<open>clock_init\<close>: each loop ends, and what it has read is what the next step relies on.\<close>

definition pll_config :: u32 where "pll_config = 0x001D0000"

lemma hse_step:
  assumes hw: "clock_starts hw" and w: "w AND RCC_CR_HSEON \<noteq> 0"
  shows "\<exists>p u. poll hw RCC_CR (\<lambda>v. v AND RCC_CR_HSERDY \<noteq> 0) (h @ [Wr RCC_CR w]) = Some (h @ [Wr RCC_CR w] @ p @ [Rd RCC_CR u]) \<and>
    u AND RCC_CR_HSERDY \<noteq> 0 \<and> (\<forall>x\<in>set p. \<exists>v. x = Rd RCC_CR v) \<and>
    (\<forall>r y. let h' = h @ [Wr RCC_CR w] @ p @ [Rd RCC_CR u] @ [Rd RCC_CFGR r, Wr RCC_CFGR y]; r3 = hw h' RCC_CR in
      (r3 OR RCC_CR_PLLON) AND RCC_CR_HSEON \<noteq> 0 \<and> ready_since RCC_CR_HSERDY RCC_CR_HSEON (h' @ [Rd RCC_CR r3]))"
proof -
  note D = hw [unfolded clock_starts_def]
  let ?h = "h @ [Wr RCC_CR w]"
  have "last_write RCC_CR ?h = Some w" by (simp add: last_write_append)
  with w have "eventually_reads hw RCC_CR (\<lambda>v. v AND RCC_CR_HSERDY \<noteq> 0) ?h" using D by blast
  from poll_ends [OF this] obtain p u where
    p: "poll hw RCC_CR (\<lambda>v. v AND RCC_CR_HSERDY \<noteq> 0) ?h = Some (?h @ p @ [Rd RCC_CR u])" "u AND RCC_CR_HSERDY \<noteq> 0"
    and q: "\<forall>x\<in>set p. \<exists>v. x = Rd RCC_CR v \<and> \<not> v AND RCC_CR_HSERDY \<noteq> 0" by blast
  have "(r3 OR RCC_CR_PLLON) AND RCC_CR_HSEON \<noteq> 0 \<and> ready_since RCC_CR_HSERDY RCC_CR_HSEON (h' @ [Rd RCC_CR r3])"
    if h': "h' = ?h @ p @ [Rd RCC_CR u] @ [Rd RCC_CFGR r, Wr RCC_CFGR y]" and r3: "r3 = hw h' RCC_CR" for r y h' r3
  proof
    have "last_write RCC_CR h' = Some w" by (simp add: h' last_write_append last_write_Rd [OF q])
    then have "r3 AND (RCC_CR_HSEON OR RCC_CR_PLLON) = w AND (RCC_CR_HSEON OR RCC_CR_PLLON)" using D by (simp add: r3)
    from mask_sub [OF this, of RCC_CR_HSEON] w show "(r3 OR RCC_CR_PLLON) AND RCC_CR_HSEON \<noteq> 0"
      by (simp add: bit.conj_disj_distrib2)
    have "ready_since RCC_CR_HSERDY RCC_CR_HSEON ((?h @ p) @ Rd RCC_CR u # [Rd RCC_CFGR r, Wr RCC_CFGR y, Rd RCC_CR r3])"
      by (rule ready_sinceI [OF p(2)]) simp
    then show "ready_since RCC_CR_HSERDY RCC_CR_HSEON (h' @ [Rd RCC_CR r3])" by (simp add: h')
  qed
  with p q show ?thesis by (intro exI [of _ p] exI [of _ u]) (auto simp: Let_def)
qed

lemma pll_step:
  assumes hw: "clock_starts hw" and w: "w AND RCC_CR_PLLON \<noteq> 0" "w AND RCC_CR_HSEON \<noteq> 0"
    and h: "ready_since RCC_CR_HSERDY RCC_CR_HSEON h" "last_write RCC_CFGR h = Some y" "y AND 0x003F0000 = pll_config"
  shows "\<exists>p u. poll hw RCC_CR (\<lambda>v. v AND RCC_CR_PLLRDY \<noteq> 0) (h @ [Wr RCC_CR w]) = Some (h @ [Wr RCC_CR w] @ p @ [Rd RCC_CR u]) \<and>
    u AND RCC_CR_PLLRDY \<noteq> 0 \<and> (\<forall>x\<in>set p. \<exists>v. x = Rd RCC_CR v) \<and>
    (let h' = h @ [Wr RCC_CR w] @ p @ [Rd RCC_CR u]; r4 = hw h' RCC_CFGR in
      (r4 AND NOT 3 OR RCC_CFGR_SW_PLL) AND 0x003F0000 = pll_config \<and> ready_since RCC_CR_PLLRDY RCC_CR_PLLON (h' @ [Rd RCC_CFGR r4]))"
proof -
  note D = hw [unfolded clock_starts_def]
  let ?h = "h @ [Wr RCC_CR w]"
  have "y AND RCC_CFGR_PLLSRC_HSE \<noteq> 0" using mask_sub [of y "0x003F0000" pll_config "push_bit 16 1"] h(3) by (simp add: pll_config_def)
  with w h have "eventually_reads hw RCC_CR (\<lambda>v. v AND RCC_CR_PLLRDY \<noteq> 0) ?h" using D by blast
  from poll_ends [OF this] obtain p u where
    p: "poll hw RCC_CR (\<lambda>v. v AND RCC_CR_PLLRDY \<noteq> 0) ?h = Some (?h @ p @ [Rd RCC_CR u])" "u AND RCC_CR_PLLRDY \<noteq> 0"
    and q: "\<forall>x\<in>set p. \<exists>v. x = Rd RCC_CR v \<and> \<not> v AND RCC_CR_PLLRDY \<noteq> 0" by blast
  define h' where "h' = ?h @ p @ [Rd RCC_CR u]"
  define r4 where "r4 = hw h' RCC_CFGR"
  have "last_write RCC_CFGR h' = Some y" using h(2) by (simp add: h'_def last_write_append last_write_Rd [OF q])
  then have "r4 AND 0x003F0000 = y AND 0x003F0000" using D by (simp add: r4_def)
  then have "(r4 AND NOT 3 OR RCC_CFGR_SW_PLL) AND 0x003F0000 = pll_config"
    using h(3) by (simp add: bit.conj_disj_distrib2 and.assoc)
  moreover have "ready_since RCC_CR_PLLRDY RCC_CR_PLLON ((?h @ p) @ Rd RCC_CR u # [Rd RCC_CFGR r4])"
    by (rule ready_sinceI [OF p(2)]) simp
  ultimately show ?thesis using p q
    by (intro exI [of _ p] exI [of _ u]) (auto simp: Let_def h'_def r4_def)
qed

lemma switch_step:
  assumes hw: "clock_starts hw" and "w AND 3 = RCC_CFGR_SW_PLL" and "ready_since RCC_CR_PLLRDY RCC_CR_PLLON h"
    and "last_write FLASH_ACR h = Some 0x12"
  shows "\<exists>p u. poll hw RCC_CFGR (\<lambda>v. v AND RCC_CFGR_SWS_MASK = RCC_CFGR_SWS_PLL) (h @ [Wr RCC_CFGR w]) =
      Some (h @ [Wr RCC_CFGR w] @ p @ [Rd RCC_CFGR u]) \<and> u AND RCC_CFGR_SWS_MASK = RCC_CFGR_SWS_PLL \<and> (\<forall>x\<in>set p. \<exists>v. x = Rd RCC_CFGR v)"
proof -
  note D = hw [unfolded clock_starts_def]
  have "(0x12 :: u32) AND 7 = FLASH_ACR_LATENCY_2WS" by simp
  with assms(2-4) have "eventually_reads hw RCC_CFGR (\<lambda>v. v AND RCC_CFGR_SWS_MASK = RCC_CFGR_SWS_PLL) (h @ [Wr RCC_CFGR w])"
    using D by blast
  from poll_ends [OF this] show ?thesis by fastforce
qed

text \<open>The writes and the reads of \<open>clock_init\<close>, in their order.\<close>

definition clock_history :: "bus_access list \<Rightarrow> (addr \<times> u32) list \<Rightarrow> bool" where
  "clock_history h ws \<longleftrightarrow> (\<exists>r1 p1 u1 r2 w2 r3 w3 p2 u2 r4 w4 p3 u3. h =
      [Wr FLASH_ACR 0x12, Rd RCC_CR r1, Wr RCC_CR (r1 OR RCC_CR_HSEON)] @ p1 @ [Rd RCC_CR u1] @
      [Rd RCC_CFGR r2, Wr RCC_CFGR w2, Rd RCC_CR r3, Wr RCC_CR w3] @ p2 @ [Rd RCC_CR u2] @
      [Rd RCC_CFGR r4, Wr RCC_CFGR w4] @ p3 @ [Rd RCC_CFGR u3] \<and>
    ws = [(FLASH_ACR, 0x12), (RCC_CR, r1 OR RCC_CR_HSEON), (RCC_CFGR, w2), (RCC_CR, w3), (RCC_CFGR, w4)] \<and>
    u1 AND RCC_CR_HSERDY \<noteq> 0 \<and> u2 AND RCC_CR_PLLRDY \<noteq> 0 \<and> u3 AND RCC_CFGR_SWS_MASK = RCC_CFGR_SWS_PLL \<and>
    w2 AND 0x003F0000 = RCC_CFGR_PLLSRC_HSE OR RCC_CFGR_PLLMUL_X9 \<and>
    w3 AND RCC_CR_PLLON \<noteq> 0 \<and> w3 AND RCC_CR_HSEON \<noteq> 0 \<and>
    w4 AND 3 = RCC_CFGR_SW_PLL \<and> w4 AND 0x003F0000 = RCC_CFGR_PLLSRC_HSE OR RCC_CFGR_PLLMUL_X9 \<and>
    (\<forall>x\<in>set (p1 @ p2). \<exists>v. x = Rd RCC_CR v) \<and> (\<forall>x\<in>set p3. \<exists>v. x = Rd RCC_CFGR v))"

lemma clock_run_history:
  assumes hw: "clock_starts hw"
  shows "\<exists>h c' ws. clock_run hw c = Some (h, c') \<and> only_io c c' \<and> io_log c' = io_log c @ ws \<and> clock_history h ws"
proof -
  let ?cfg = "\<lambda>v. (v AND NOT 0x003F0000) OR RCC_CFGR_PPRE1_DIV2 OR RCC_CFGR_PLLSRC_HSE OR RCC_CFGR_PLLMUL_X9"
  let ?sw = "\<lambda>v. (v AND NOT 0x3) OR RCC_CFGR_SW_PLL"
  have mod: "clock_modify hw a f (h, c) = (h @ [Rd a (hw h a), Wr a (f (hw h a))], io_write a (f (hw h a)) c)" for a f h c
    by (simp add: clock_modify_def clock_write_def)
  define h0 r1 where "h0 = [Wr FLASH_ACR 0x12]" and "r1 = hw h0 RCC_CR"
  have "(r1 OR RCC_CR_HSEON) AND RCC_CR_HSEON \<noteq> 0" using set_bits(1) by simp
  from hse_step [OF hw this, of "h0 @ [Rd RCC_CR r1]"] obtain p1 u1 where
    p1: "poll hw RCC_CR (\<lambda>v. v AND RCC_CR_HSERDY \<noteq> 0) (h0 @ [Rd RCC_CR r1, Wr RCC_CR (r1 OR RCC_CR_HSEON)]) =
      Some (h0 @ [Rd RCC_CR r1, Wr RCC_CR (r1 OR RCC_CR_HSEON)] @ p1 @ [Rd RCC_CR u1])"
    and q1: "u1 AND RCC_CR_HSERDY \<noteq> 0" "\<forall>x\<in>set p1. \<exists>v. x = Rd RCC_CR v"
    and n1: "\<And>r y h' r3. h' = h0 @ [Rd RCC_CR r1, Wr RCC_CR (r1 OR RCC_CR_HSEON)] @ p1 @ [Rd RCC_CR u1] @ [Rd RCC_CFGR r, Wr RCC_CFGR y] \<Longrightarrow>
      r3 = hw h' RCC_CR \<Longrightarrow> (r3 OR RCC_CR_PLLON) AND RCC_CR_HSEON \<noteq> 0 \<and> ready_since RCC_CR_HSERDY RCC_CR_HSEON (h' @ [Rd RCC_CR r3])"
    by (auto simp: Let_def)
  define h2 r2 where "h2 = h0 @ [Rd RCC_CR r1, Wr RCC_CR (r1 OR RCC_CR_HSEON)] @ p1 @ [Rd RCC_CR u1]" and "r2 = hw h2 RCC_CFGR"
  define h3 r3 w3 where "h3 = h2 @ [Rd RCC_CFGR r2, Wr RCC_CFGR (?cfg r2)]" and "r3 = hw h3 RCC_CR" and "w3 = r3 OR RCC_CR_PLLON"
  have c2: "?cfg r2 AND 0x003F0000 = pll_config" using set_bits(4) by (simp add: pll_config_def)
  have w3: "w3 AND RCC_CR_HSEON \<noteq> 0" "ready_since RCC_CR_HSERDY RCC_CR_HSEON (h3 @ [Rd RCC_CR r3])" "w3 AND RCC_CR_PLLON \<noteq> 0"
    using n1 [of h3 r2 "?cfg r2" r3] set_bits(2) by (simp_all add: h3_def h2_def r3_def w3_def)
  have l3: "last_write RCC_CFGR (h3 @ [Rd RCC_CR r3]) = Some (?cfg r2)" by (simp add: h3_def last_write_append)
  from pll_step [OF hw w3(3,1,2) l3 c2] obtain p2 u2 where
    p2: "poll hw RCC_CR (\<lambda>v. v AND RCC_CR_PLLRDY \<noteq> 0) (h3 @ [Rd RCC_CR r3, Wr RCC_CR w3]) =
      Some (h3 @ [Rd RCC_CR r3, Wr RCC_CR w3] @ p2 @ [Rd RCC_CR u2])"
    and q2: "u2 AND RCC_CR_PLLRDY \<noteq> 0" "\<forall>x\<in>set p2. \<exists>v. x = Rd RCC_CR v"
    and n2: "\<And>h' r4. h' = h3 @ [Rd RCC_CR r3, Wr RCC_CR w3] @ p2 @ [Rd RCC_CR u2] \<Longrightarrow> r4 = hw h' RCC_CFGR \<Longrightarrow>
      ?sw r4 AND 0x003F0000 = pll_config \<and> ready_since RCC_CR_PLLRDY RCC_CR_PLLON (h' @ [Rd RCC_CFGR r4])"
    by (auto simp: Let_def)
  define h5 r4 where "h5 = h3 @ [Rd RCC_CR r3, Wr RCC_CR w3] @ p2 @ [Rd RCC_CR u2]" and "r4 = hw h5 RCC_CFGR"
  have r4: "?sw r4 AND 0x003F0000 = pll_config" "ready_since RCC_CR_PLLRDY RCC_CR_PLLON (h5 @ [Rd RCC_CFGR r4])" "?sw r4 AND 3 = RCC_CFGR_SW_PLL"
    using n2 [of h5 r4] set_bits(3) by (simp_all add: h5_def r4_def)
  have "last_write a p = None" if "\<forall>x\<in>set p. \<exists>v. x = Rd RCC_CR v" for a p using that last_write_Rd [of p RCC_CR "\<lambda>_. True"] by simp
  then have "last_write FLASH_ACR (h5 @ [Rd RCC_CFGR r4]) = Some 0x12"
    using q1(2) q2(2) by (simp add: h5_def h3_def h2_def h0_def last_write_append)
  from switch_step [OF hw r4(3,2) this] obtain p3 u3 where
    p3: "poll hw RCC_CFGR (\<lambda>v. v AND RCC_CFGR_SWS_MASK = RCC_CFGR_SWS_PLL) (h5 @ [Rd RCC_CFGR r4, Wr RCC_CFGR (?sw r4)]) =
      Some (h5 @ [Rd RCC_CFGR r4, Wr RCC_CFGR (?sw r4)] @ p3 @ [Rd RCC_CFGR u3])" "u3 AND RCC_CFGR_SWS_MASK = RCC_CFGR_SWS_PLL"
    "\<forall>x\<in>set p3. \<exists>v. x = Rd RCC_CFGR v" by auto
  let ?c = "io_write RCC_CFGR (?sw r4) (io_write RCC_CR w3 (io_write RCC_CFGR (?cfg r2) (io_write RCC_CR (r1 OR RCC_CR_HSEON)
    (io_write FLASH_ACR 0x12 c))))"
  let ?h = "h5 @ [Rd RCC_CFGR r4, Wr RCC_CFGR (?sw r4)] @ p3 @ [Rd RCC_CFGR u3]"
  have acr: "clock_write FLASH_ACR (FLASH_ACR_PRFTBE OR FLASH_ACR_LATENCY_2WS) ([], c) = (h0, io_write FLASH_ACR 0x12 c)"
    by (simp add: clock_write_def h0_def)
  have "clock_run hw c = Some (?h, ?c)"
    unfolding clock_run_def Let_def acr mod prod.case r1_def [symmetric] p1 h2_def [symmetric] bind.bind_lunit
      r2_def [symmetric] h3_def [symmetric] r3_def [symmetric] w3_def [symmetric] p2 h5_def [symmetric] r4_def [symmetric] p3(1) ..
  moreover have "only_io c ?c" by (simp add: only_io_def)
  moreover have "clock_history ?h [(FLASH_ACR, 0x12), (RCC_CR, r1 OR RCC_CR_HSEON), (RCC_CFGR, ?cfg r2), (RCC_CR, w3), (RCC_CFGR, ?sw r4)]"
    unfolding clock_history_def
    apply (rule exI [of _ r1], rule exI [of _ p1], rule exI [of _ u1], rule exI [of _ r2], rule exI [of _ "?cfg r2"],
        rule exI [of _ r3], rule exI [of _ w3], rule exI [of _ p2], rule exI [of _ u2], rule exI [of _ r4], rule exI [of _ "?sw r4"],
        rule exI [of _ p3], rule exI [of _ u3])
    using q1 q2 p3(2,3) w3(1,3) c2 r4(1,3) by (simp_all add: h5_def h3_def h2_def h0_def pll_config_def ball_Un)
  ultimately show ?thesis by (intro exI [of _ ?h] exI [of _ ?c]) auto
qed


lemma clock_returns: "clock_starts hw \<Longrightarrow> \<exists>c'. clock_init hw c = Some c' \<and> only_io c c'"
  using clock_run_history [of hw c] by (auto simp: clock_init_def)

text \<open>A chip that needs one read before a status bit comes on.\<close>

definition sample_clock :: clock_hw where
  "sample_clock h a =
     (let w = (case last_write a h of None \<Rightarrow> 0 | Some w \<Rightarrow> w);
          status = (case rev h of Rd b v # _ \<Rightarrow> True | _ \<Rightarrow> False)
      in if \<not> status then w
         else if a = RCC_CR then w OR RCC_CR_HSERDY OR RCC_CR_PLLRDY
         else (w AND NOT RCC_CFGR_SWS_MASK) OR RCC_CFGR_SWS_PLL)"

lemma status_bits:
  fixes w :: u32
  shows "(w OR push_bit 17 1 OR push_bit 25 1) AND (push_bit 16 1 OR push_bit 24 1) = w AND (push_bit 16 1 OR push_bit 24 1)"
    "((w AND NOT (push_bit 2 3)) OR push_bit 2 2) AND 0x003F0000 = w AND 0x003F0000"
    "((w AND NOT (push_bit 2 3)) OR push_bit 2 2) AND push_bit 2 3 = push_bit 2 2"
    "(w OR push_bit 17 1 OR push_bit 25 1) AND push_bit 17 1 = push_bit 17 1" "(w OR push_bit 17 1 OR push_bit 25 1) AND push_bit 25 1 = push_bit 25 1"
  using replace_bits [of w "push_bit 2 3" "push_bit 2 2"]
  by (simp_all add: bit.conj_disj_distrib2 and.assoc)

lemma sample_clock_eventually:
  "eventually_reads sample_clock RCC_CR (\<lambda>v. v AND RCC_CR_HSERDY \<noteq> 0) h"
  "eventually_reads sample_clock RCC_CR (\<lambda>v. v AND RCC_CR_PLLRDY \<noteq> 0) h"
  "eventually_reads sample_clock RCC_CFGR (\<lambda>v. v AND RCC_CFGR_SWS_MASK = RCC_CFGR_SWS_PLL) h"
  unfolding eventually_reads_def
  by (rule exI [of _ 1], insert status_bits(3-5), simp add: sample_clock_def Let_def)+

lemma sample_clock_starts: "clock_starts sample_clock"
proof -
  have "sample_clock h RCC_CR AND (RCC_CR_HSEON OR RCC_CR_PLLON) = w AND (RCC_CR_HSEON OR RCC_CR_PLLON)" if "last_write RCC_CR h = Some w" for h w
    using that status_bits(1) [of w] by (simp add: sample_clock_def Let_def)
  moreover have "sample_clock h RCC_CFGR AND 0x003F0000 = w AND 0x003F0000" if "last_write RCC_CFGR h = Some w" for h w
    using that status_bits(2) [of w] by (simp add: sample_clock_def Let_def)
  ultimately show ?thesis using sample_clock_eventually unfolding clock_starts_def by blast
qed


text \<open>
  Without an oscillator, as in an emulator that does not model these registers and reads them as zero, \<open>clock_init\<close>
  does not return.
\<close>

theorem clock_init_hangs:
  assumes "\<And>h. hw h RCC_CR AND RCC_CR_HSERDY = 0"
  shows "clock_init hw c = None"
proof -
  have "poll hw RCC_CR (\<lambda>v. v AND RCC_CR_HSERDY \<noteq> 0) h = None" for h
    using poll_Some [of hw RCC_CR "\<lambda>v. v AND RCC_CR_HSERDY \<noteq> 0" h] assms by fastforce
  then show ?thesis by (simp add: clock_init_def clock_run_def split_def Let_def)
qed

theorem clock_init_hangs_witness: "clock_init (\<lambda>h a. 0) (reset_cpu sample) = None"
  by (rule clock_init_hangs) simp

end
