(* ===== verification/Boot_Properties.thy ===== *)
theory Boot_Properties
  imports Boot Machine Hardware_Properties
begin

text \<open>
  What start-up achieves: the segments of the image are initialised, the kernel's data satisfies its invariant,
  the idle task exists, and the state in which \<open>os_start\<close> waits for the first context switch satisfies
  the invariant of the machine, which every later state then has.
\<close>

unbundle bit_operations_syntax

subsection \<open>Segments\<close>

lemma loop_step:
  fixes dst e :: addr
  assumes "unat dst + 4 * Suc n < 2 ^ 32" and "unat e \<le> unat dst + 4 * Suc n" and "unat dst + 4 * Suc n < unat e + 4"
  shows "dst < e" "unat (dst + 4) + 4 * n < 2 ^ 32" "unat e \<le> unat (dst + 4) + 4 * n" "unat (dst + 4) + 4 * n < unat e + 4"
proof -
  have "unat (dst + 4) = unat dst + 4" using assms(1) by (subst unat_add_lem [THEN iffD1]) simp_all
  with assms show "dst < e" "unat (dst + 4) + 4 * n < 2 ^ 32" "unat e \<le> unat (dst + 4) + 4 * n"
    "unat (dst + 4) + 4 * n < unat e + 4" by (simp_all add: word_less_nat_alt)
qed

lemma zero_words:
  assumes "unat dst + 4 * n < 2 ^ 32" and "unat e \<le> unat dst + 4 * n" and "unat dst + 4 * n < unat e + 4"
  shows "os_zero_words dst e s = Some (store_words dst (replicate n 0) s)"
  using assms
proof (induction n arbitrary: dst s)
  case 0
  then show ?case by (subst os_zero_words.simps) (simp add: word_less_nat_alt)
next
  case (Suc n)
  note l = loop_step [OF Suc.prems]
  from Suc.IH [OF l(2-4)] l(1) show ?case by (subst os_zero_words.simps) simp
qed

lemma copy_words:
  assumes "unat dst + 4 * n < 2 ^ 32" and "unat e \<le> unat dst + 4 * n" and "unat dst + 4 * n < unat e + 4"
    and "word_addrs dst n \<inter> word_addrs src n = {}"
  shows "os_copy_words dst src e s = Some (store_words dst (words_at s src n) s)"
  using assms
proof (induction n arbitrary: dst src s)
  case 0
  then show ?case by (subst os_copy_words.simps) (simp add: word_less_nat_alt words_at_def)
next
  case (Suc n)
  note l = loop_step [OF Suc.prems(1-3)]
  have d: "dst \<notin> word_addrs (src + 4) n" "word_addrs (dst + 4) n \<inter> word_addrs (src + 4) n = {}"
    using Suc.prems(4) by (auto simp: word_addrs_Suc)
  have "words_at (store_word dst (mem s src) s) (src + 4) n = words_at s (src + 4) n"
    by (rule words_at_cong) (use d(1) in \<open>auto simp: store_word_def\<close>)
  with Suc.IH [OF l(2-4) d(2)] l(1) show ?case by (subst os_copy_words.simps) (simp add: words_at_Suc)
qed

text \<open>
  C35: The start-up loops return and initialise exactly the words of their segment: \<open>os_copy_words\<close> leaves a copy of
  the load image, \<open>os_zero_words\<close> zeros, and no other word changes. A segment that does not end on a word
  boundary is rounded up to whole words.
\<close>

theorem startup_initialises_segments:
  assumes "unat dst + 4 * n < 2 ^ 32" and "unat e \<le> unat dst + 4 * n" and "unat dst + 4 * n < unat e + 4"
  shows "(\<exists>s'. os_zero_words dst e s = Some s' \<and> words_at s' dst n = replicate n 0 \<and>
      (\<forall>x. x \<notin> word_addrs dst n \<longrightarrow> mem s' x = mem s x)) \<and>
    (word_addrs dst n \<inter> word_addrs src n = {} \<longrightarrow> (\<exists>s'. os_copy_words dst src e s = Some s' \<and>
      words_at s' dst n = words_at s src n \<and> (\<forall>x. x \<notin> word_addrs dst n \<longrightarrow> mem s' x = mem s x)))"
proof -
  have n: "n < 2 ^ 30" using assms(1) by simp
  have len: "length (words_at s src n) = n" by (simp add: words_at_def)
  show ?thesis
    using zero_words [OF assms, of s] copy_words [OF assms, of src s] n len
      words_at_store_words [of "replicate n 0" dst s] words_at_store_words [of "words_at s src n" dst s]
      mem_store_words_other [of _ dst "replicate n 0" s] mem_store_words_other [of _ dst "words_at s src n" s]
    by auto
qed

theorem startup_initialises_segments_witness:
  "(\<exists>s'. os_zero_words 0x20000000 0x20000080 sample = Some s' \<and> words_at s' 0x20000000 32 = replicate 32 0 \<and>
      (\<forall>x. x \<notin> word_addrs 0x20000000 32 \<longrightarrow> mem s' x = mem sample x))"
  using startup_initialises_segments [of "0x20000000" 32 "0x20000080" sample "0x08001000"] by simp

subsection \<open>The pools\<close>

lemma mempool_init_frame:
  assumes "pool_fits base bs n"
  shows "sched_same s (os_mempool_init (Some p) base bs n s)"
    "q \<noteq> p \<Longrightarrow> get_pool (os_mempool_init (Some p) base bs n s) q = get_pool s q"
    "x \<notin> pool_blocks base bs n \<Longrightarrow> mem (os_mempool_init (Some p) base bs n s) x = mem s x"
proof -
  have l: "sched_same s (mempool_init_loop p base bs n i s)" for i s
  proof (induction p base bs n i s rule: mempool_init_loop.induct)
    case (1 p base bs n i s)
    show ?case
    proof (cases "i < n")
      case True
      let ?t = "upd_pool p (\<lambda>m. m\<lparr>mp_free_list := base + i * bs\<rparr>) (store_word (base + i * bs) (mp_free_list (get_pool s p)) s)"
      have "sched_same s ?t" by (rule sched_same_trans [OF sched_same_fields(5) sched_same_pool])
      with "1.IH" [OF True refl refl refl] True show ?thesis
        by (auto simp: mempool_init_loop.simps [of p base bs n i s] Let_def intro: sched_same_trans)
    qed (simp add: mempool_init_loop.simps)
  qed
  have "base \<noteq> NULL" "bs \<noteq> 0" "n \<noteq> 0" using assms pool_fits_size [OF assms] by (simp_all add: pool_fits_def)
  then obtain f where i: "os_mempool_init (Some p) base bs n s = mempool_init_loop p base bs n 0 (upd_pool p f s)"
    by (simp add: os_mempool_init_def)
  show "sched_same s (os_mempool_init (Some p) base bs n s)" unfolding i by (rule sched_same_trans [OF sched_same_pool l])
  obtain q' where "q' \<noteq> p" by (cases p) auto
  from mempool_init_loop_frame(2) [OF assms this, where i = 0 and s = "upd_pool p f s"]
  show "x \<notin> pool_blocks base bs n \<Longrightarrow> mem (os_mempool_init (Some p) base bs n s) x = mem s x" unfolding i by (cases p) simp_all
  from mempool_init_loop_frame(1) [OF assms, where i = 0 and s = "upd_pool p f s"]
  show "q \<noteq> p \<Longrightarrow> get_pool (os_mempool_init (Some p) base bs n s) q = get_pool s q" unfolding i by simp
qed

lemma kalloc_init_pools:
  assumes A: "pools_apart kb ub" and f: "pool_fits kb 64 32" "pool_fits ub 1024 8" and t: "\<And>x. tcb_at s x = None"
  shows "pools_ok kb ub (os_kalloc_init kb ub s) (all_blocks kb 64 32) (all_blocks ub 1024 8)"
    "sched_same s (os_kalloc_init kb ub s)"
proof -
  let ?s1 = "os_mempool_init (Some KernelObjectPool) kb 64 32 s"
  let ?s2 = "os_mempool_init (Some UserStackPool) ub 1024 8 ?s1"
  have e: "os_kalloc_init kb ub s = ?s2"
    by (simp add: os_kalloc_init_def align_up_kalloc OS_KERNEL_OBJECT_COUNT_def OS_TASK_STACK_COUNT_def)
  note F1 = mempool_init_frame [OF f(1), where p = KernelObjectPool and s = s]
    and F2 = mempool_init_frame [OF f(2), where p = UserStackPool and s = ?s1]
  show S: "sched_same s (os_kalloc_init kb ub s)" unfolding e by (rule sched_same_trans [OF F1(1) F2(1)])
  have d: "x \<notin> pool_blocks ub 1024 8" if "x \<in> pool_blocks kb 64 32" for x
  proof
    assume "x \<in> pool_blocks ub 1024 8"
    then obtain j where j: "j < 8" "x = pool_block ub 1024 j" by (auto simp: pool_blocks_def)
    from that obtain i where i: "i < 32" "x = pool_block kb 64 i" by (auto simp: pool_blocks_def)
    have "unat x = unat ub + j * 1024" "unat x = unat kb + i * 64"
      using unat_pool_block [of ub 1024 8 j] unat_pool_block [of kb 64 32 i] f i j by simp_all
    with A i(1) j(1) show False by (auto simp: pools_apart_def)
  qed
  have "pool_rep KernelObjectPool kb 64 32 ?s1 (all_blocks kb 64 32)"
    using os_mempool_init_rep [OF f(1), of KernelObjectPool s] by simp
  then have "pool_rep KernelObjectPool kb 64 32 ?s2 (all_blocks kb 64 32)"
    by (rule pool_rep_frame) (rule F2(2), simp, rule F2(3), rule d)
  moreover have "pool_rep UserStackPool ub 1024 8 ?s2 (all_blocks ub 1024 8)"
    using os_mempool_init_rep [OF f(2), of UserStackPool ?s1] by simp
  moreover have "tcb_at ?s2 x = None" for x using S t e by (simp add: sched_same_def)
  ultimately show "pools_ok kb ub (os_kalloc_init kb ub s) (all_blocks kb 64 32) (all_blocks ub 1024 8)"
    using A unfolding e by (simp add: pools_ok_def)
qed

subsection \<open>Before the scheduler starts\<close>

text \<open>Tasks, semaphores and mutexes that exist. Before the scheduler starts every task can run, and none is current.\<close>

type_synonym objects = "addr set \<times> addr set \<times> addr set"

text \<open>Tasks that have locked no mutex, and mutexes that nobody has locked.\<close>

definition fresh_tasks :: "astate \<Rightarrow> bool" where
  "fresh_tasks a \<longleftrightarrow> (\<forall>t c. a_tcb a t = Some c \<longrightarrow> tcb_priority c = tcb_base_priority c \<and> tcb_owned_mutexes c = NULL) \<and>
     (\<forall>m x. mutex_at (kern a) m = Some x \<longrightarrow> mtx_owner x = NULL)"

definition boot_good :: "objects \<Rightarrow> astate \<Rightarrow> bool" where
  "boot_good T a \<longleftrightarrow> kernel_inv a \<and> fresh_tasks a \<and> (\<forall>t. t \<in> fst T \<or> a_tcb a t \<noteq> None \<longrightarrow> runnable a t) \<and> g_current (kern a) = NULL \<and>
     fst (snd T) \<subseteq> dom (sem_at (kern a)) \<and> snd (snd T) \<subseteq> dom (mutex_at (kern a))"

definition kst_boot :: "addr \<Rightarrow> addr \<Rightarrow> objects \<Rightarrow> kstate \<Rightarrow> addr list \<Rightarrow> addr list \<Rightarrow> bool" where
  "kst_boot kb ub T s xs ys \<longleftrightarrow> (\<exists>a. kernel_rel s a \<and> boot_good T a) \<and> pools_ok kb ub s xs ys"

lemma fresh_same:
  assumes R: "kernel_rel s a" and S: "sched_same s s'"
  shows "fresh_tasks (a\<lparr>kern := core s'\<rparr>) = fresh_tasks a"
proof -
  have "a_tcb (a\<lparr>kern := core s'\<rparr>) = a_tcb a" "mutex_at (kern (a\<lparr>kern := core s'\<rparr>)) = mutex_at (kern a)"
    using R S by (simp_all add: kernel_rel_def sched_same_def tcb_at_core mutex_at_core fun_eq_iff)
  then show ?thesis by (simp add: fresh_tasks_def)
qed

lemma kst_boot_same:
  assumes "kst_boot kb ub T s xs ys" and S: "sched_same s s'" and "get_pool s' = get_pool s"
    and "\<And>x. x \<in> set xs \<union> set ys \<Longrightarrow> mem s' x = mem s x"
  shows "kst_boot kb ub T s' xs ys"
proof -
  from assms(1) obtain a where a: "kernel_rel s a" "boot_good T a" and P: "pools_ok kb ub s xs ys" by (auto simp: kst_boot_def)
  note K = kernel_rel_same [OF a(1) S]
  have "a_tcb (a\<lparr>kern := core s'\<rparr>) t = None \<longleftrightarrow> a_tcb a t = None" for t
    using kernel_rel_tcb_None [OF a(1)] kernel_rel_tcb_None [OF K(1)] S by (simp add: sched_same_def)
  moreover have "dom (sem_at (core s')) = dom (sem_at (kern a))" "dom (mutex_at (core s')) = dom (mutex_at (kern a))"
    using a(1) S by (auto simp: kernel_rel_def sched_same_def sem_at_core mutex_at_core dom_def)
  moreover have "fresh_tasks (a\<lparr>kern := core s'\<rparr>)" using a(2) fresh_same [OF a(1) S] by (simp add: boot_good_def)
  ultimately have "boot_good T (a\<lparr>kern := core s'\<rparr>)"
    using a(2) K(2) runnable_same [OF a(1) S] kernel_rel_globals [OF a(1)] kernel_rel_globals [OF K(1)] S
    by (simp add: boot_good_def sched_same_def)
  moreover have "pools_ok kb ub s' xs ys" by (rule pools_ok_frame [OF P assms(3,4)]) (use S in \<open>simp_all add: sched_same_def\<close>)
  ultimately show ?thesis using K(1) by (auto simp: kst_boot_def)
qed

lemma kst_boot_store_words:
  assumes "kst_boot kb ub T s xs ys" and "word_addrs p (length ws) \<inter> (set xs \<union> set ys) = {}"
  shows "kst_boot kb ub T (store_words p ws s) xs ys"
proof (rule kst_boot_same [OF assms(1) sched_same_store_words])
  show "get_pool (store_words p ws s) = get_pool s" using store_words_frame [of p ws s] get_pool_mem by auto
qed (use assms(2) in \<open>auto intro!: mem_store_words_other\<close>)

text \<open>The processor runs privileged on the main stack, which is not in the pools.\<close>

definition boot_inv :: "addr \<Rightarrow> addr \<Rightarrow> objects \<Rightarrow> cpu \<Rightarrow> bool" where
  "boot_inv kb ub T c \<longleftrightarrow> (\<exists>xs ys. kst_boot kb ub T (kst c) xs ys) \<and> length (r4_r11 c) = 8 \<and> control c = 0 \<and> msp c \<noteq> 32 \<and>
     word_addrs (msp c - 32) 8 \<inter> (pool_blocks kb 64 32 \<union> pool_blocks ub 1024 8) = {}"

lemma boot_inv_only_io: "only_io c c' \<Longrightarrow> boot_inv kb ub T c' = boot_inv kb ub T c"
  by (simp add: boot_inv_def only_io_def)

lemma boot_grows: "boot_good T a \<Longrightarrow> grows a a' \<Longrightarrow> kernel_inv a' \<Longrightarrow> boot_good T a'"
  unfolding boot_good_def fresh_tasks_def grows_def by (intro conjI; metis)

lemma main_stack_free:
  assumes "boot_inv kb ub T c" and "kst_boot kb ub U s xs ys"
  shows "word_addrs (msp c - 32) 8 \<inter> (set xs \<union> set ys) = {}" "msp c - 32 \<notin> set xs \<union> set ys"
proof -
  have "set xs \<subseteq> pool_blocks kb 64 32" "set ys \<subseteq> pool_blocks ub 1024 8" using assms(2) by (simp_all add: kst_boot_def pools_ok_def pool_rep_def)
  then show *: "word_addrs (msp c - 32) 8 \<inter> (set xs \<union> set ys) = {}" using assms(1) unfolding boot_inv_def by blast
  have "msp c - 32 \<in> word_addrs (msp c - 32) 8" unfolding word_addrs_def by (rule image_eqI [of _ _ 0]) simp_all
  with * show "msp c - 32 \<notin> set xs \<union> set ys" by blast
qed

text \<open>The state in which the dispatcher finds the request.\<close>

definition create_request :: "os_task_priority_t \<Rightarrow> addr \<Rightarrow> addr \<Rightarrow> u32 \<Rightarrow> os_task_create_args_t" where
  "create_request prio entry arg words = \<lparr>arg_priority = prio, arg_entry = entry, arg_arg = arg, arg_stack_words = words\<rparr>"

lemma boot_request:
  assumes B: "boot_inv kb ub T c" and r: "length rest = 6"
  obtains s xs ys where "kst_boot kb ub T s xs ys" "create_args s args = Some (create_request prio entry arg words)"
    "os_task_create tr ex prio entry arg words args rest c = map_option
      (\<lambda>(r, s'). c\<lparr>msp := msp c - 32, kst := store_word (msp c - 32) (of_int r) s'\<rparr>) (os_kernel_task_create tr ex args s)"
    "\<forall>us vs. kst_boot kb ub T (kst c) us vs \<longrightarrow> kst_boot kb ub T s us vs" "sched_same (kst c) s"
proof -
  let ?s1 = "(kst c)\<lparr>create_args := (create_args (kst c))(args \<mapsto> create_request prio entry arg words)\<rparr>"
  let ?n = "syscall_number OS_SYSCALL_TASK_CREATE"
  define s where "s = store_words (msp c - 32) (?n # args # rest) ?s1"
  from B have c: "control c AND 2 = 0" "msp c \<noteq> 32" by (simp_all add: boot_inv_def)
  have k: "kst_boot kb ub T s us vs" if V: "kst_boot kb ub T (kst c) us vs" for us vs
  proof -
    have "get_pool ?s1 = get_pool (kst c)" by (rule ext, rename_tac q, case_tac q) simp_all
    then have "kst_boot kb ub T ?s1 us vs" by (intro kst_boot_same [OF V]) (simp_all add: sched_same_def kstate_simps)
    moreover from this have "word_addrs (msp c - 32) 8 \<inter> (set us \<union> set vs) = {}" by (rule main_stack_free [OF B])
    ultimately show ?thesis unfolding s_def using r by (intro kst_boot_store_words) simp_all
  qed
  from B obtain xs ys where "kst_boot kb ub T (kst c) xs ys" by (auto simp: boot_inv_def)
  from k [OF this] show ?thesis
  proof (rule that)
    obtain M where "s = ?s1\<lparr>mem := M\<rparr>" unfolding s_def using store_words_frame [of "msp c - 32" "?n # args # rest" ?s1] by blast
    then show "create_args s args = Some (create_request prio entry arg words)" by simp
    show "os_task_create tr ex prio entry arg words args rest c = map_option
      (\<lambda>(r, s'). c\<lparr>msp := msp c - 32, kst := store_word (msp c - 32) (of_int r) s'\<rparr>) (os_kernel_task_create tr ex args s)"
      using c r unfolding os_task_create_def os_port_svc_call1_def s_def
      by (subst svc_main_eq) (simp_all add: syscall_switch_service create_request_def [symmetric] del: store_words.simps syscall_number.simps)
    have "sched_same (kst c) ?s1" by (simp add: sched_same_def kstate_simps)
    then show "sched_same (kst c) s" unfolding s_def by (rule sched_same_trans [OF _ sched_same_store_words])
  qed (use k in blast)
qed

lemma boot_inv_return:
  assumes B: "boot_inv kb ub T c" and V: "kst_boot kb ub U s xs ys"
  shows "boot_inv kb ub U (exception_return (c\<lparr>msp := msp c - 32, kst := store_word (msp c - 32) v s\<rparr>))"
proof -
  have "msp c - 32 \<notin> set xs \<union> set ys" by (rule main_stack_free(2) [OF B V])
  then have "kst_boot kb ub U (store_word (msp c - 32) v s) xs ys"
    using kst_boot_store_words [OF V, of "msp c - 32" "[v]"] by (simp add: word_addrs_def lessThan_Suc)
  with B show ?thesis by (auto simp: boot_inv_def exception_return_def)
qed

lemma boot_create:
  assumes B: "boot_inv kb ub T c" and a: "args \<noteq> NULL" "length rest = 6" "16 \<le> unat words"
  shows "\<exists>c'. os_task_create tr ex prio entry arg words args rest c = Some c' \<and> boot_inv kb ub T (exception_return c')"
proof -
  from B a(2) obtain s xs ys where V: "kst_boot kb ub T s xs ys" and q: "create_args s args = Some (create_request prio entry arg words)"
    and e: "os_task_create tr ex prio entry arg words args rest c = map_option
      (\<lambda>(r, s'). c\<lparr>msp := msp c - 32, kst := store_word (msp c - 32) (of_int r) s'\<rparr>) (os_kernel_task_create tr ex args s)"
    by (rule boot_request [where args = args and prio = prio and entry = entry and arg = arg and words = words and tr = tr and ex = ex])
  from V obtain b where b: "kernel_rel s b" "boot_good T b" and P: "pools_ok kb ub s xs ys" by (auto simp: kst_boot_def)
  from create_total [OF b(1) _ P a(1) q, of tr ex] b(2) a(3) obtain r s' b' xs' ys' where
    s': "os_kernel_task_create tr ex args s = Some (r, s')" "kernel_rel s' b'" "kernel_inv b'" "grows b b'" "pools_ok kb ub s' xs' ys'"
    by (auto simp: boot_good_def create_request_def)
  with boot_grows [OF b(2)] have "kst_boot kb ub T s' xs' ys'" by (auto simp: kst_boot_def)
  from boot_inv_return [OF B this] s'(1) e show ?thesis by auto
qed

text \<open>The kernel after \<open>.bss\<close> has been cleared.\<close>

lemma zero_globals_rel:
  "kernel_rel (zero_globals s) \<lparr>kern = core (zero_globals s), waitq = (\<lambda>_. []), timeoutq = []\<rparr>" (is "kernel_rel ?s ?a")
  and zero_globals_good: "boot_good ({}, dom (sem_at s), dom (mutex_at s)) \<lparr>kern = core (zero_globals s), waitq = (\<lambda>_. []), timeoutq = []\<rparr>"
proof -
  have t: "tcb_at ?s x = None" for x by (simp add: tcb_at_def zero_globals_def)
  have q: "get_queue ?s q = Some d \<Longrightarrow> d = emptyq" for q d
    by (cases q) (auto simp: get_queue.simps zero_globals_def mutex_at_def sem_at_def split: if_splits)
  have m: "mutex_at ?s m = Some x \<Longrightarrow> mtx_owner x = NULL" for m x
    by (auto simp: zero_globals_def mutex_at_def split: if_splits)
  have z: "g_timeout_queue ?s = emptyq" "g_current ?s = NULL" "g_next ?s = NULL" by (simp_all add: zero_globals_def)
  have e: "dlist f g M emptyq []" for f g M by (simp add: dlist_def emptyq_def)
  have "queue_rel ?s (\<lambda>_. [])" using e by (auto simp: queue_rel_def dest!: q)
  moreover have "timeout_rel ?s []" using e z by (simp add: timeout_rel_def)
  ultimately show R: "kernel_rel ?s ?a" by (simp add: kernel_rel_def)
  have at: "a_tcb ?a x = None" for x using kernel_rel_tcb_None [OF R] t by simp
  have mo: "mtx_owner x = NULL" if "mutex_at (kern ?a) n = Some x" for n x using that m by (auto simp: mutex_at_core)
  have g: "g_current (kern ?a) = NULL" "g_next (kern ?a) = NULL" using kernel_rel_globals [OF R] z by simp_all
  have "dom (sem_at ?s) = dom (sem_at s)" "dom (mutex_at ?s) = dom (mutex_at s)"
    by (auto simp: zero_globals_def sem_at_def mutex_at_def split: if_splits)
  then have "dom (sem_at (kern ?a)) = dom (sem_at s)" "dom (mutex_at (kern ?a)) = dom (mutex_at s)"
    by (auto simp: sem_at_core mutex_at_core dom_def)
  then show "boot_good ({}, dom (sem_at s), dom (mutex_at s)) ?a"
    using at mo g
    by (simp add: boot_good_def fresh_tasks_def kernel_inv_def objects_inv_def sched_inv_def lists_inv_def tasks_ok_def queues_ok_def
        timeouts_ok_def mutex_queues_sorted_def current_ok_def next_ok_def sems_ok_def mutexes_ok_def no_blocked_on_def)
qed

subsection \<open>The calls of an application\<close>

lemma boot_good_queue:
  assumes "boot_good T a" and "waitable q"
  shows "waitq a q = []"
proof -
  have "home c \<noteq> Some q" if "a_tcb a t = Some c" for t c
    using assms that by (auto simp: boot_good_def runnable_def home_def waitable_def)
  with assms(1) show ?thesis by (auto simp: boot_good_def waitq_Nil_iff [OF kernel_invD(2)])
qed

lemma boot_keeps:
  assumes B: "boot_inv kb ub T c" and k: "\<And>a. kernel_rel (kst c) a \<Longrightarrow> boot_good T a \<Longrightarrow>
    \<exists>a'. kernel_rel s' a' \<and> kernel_inv a' \<and> keeps a a' \<and> fresh_tasks a'"
    and o: "dom (sem_at s') = dom (sem_at (kst c))" "dom (mutex_at s') = dom (mutex_at (kst c))"
  shows "boot_inv kb ub T (c\<lparr>kst := s'\<rparr>)"
proof -
  from B obtain a xs ys where a: "kernel_rel (kst c) a" "boot_good T a" and P: "pools_ok kb ub (kst c) xs ys"
    by (auto simp: boot_inv_def kst_boot_def)
  from k [OF a] obtain a' where a': "kernel_rel s' a'" "kernel_inv a'" "keeps a a'" "fresh_tasks a'" by blast
  have "dom (a_tcb a') = dom (a_tcb a)" using a'(3) by (simp add: keeps_def advances_def)
  then have "a_tcb a' t \<noteq> None \<longleftrightarrow> a_tcb a t \<noteq> None" for t by (metis domIff)
  moreover have "dom (sem_at (kern a')) = dom (sem_at (kern a))" "dom (mutex_at (kern a')) = dom (mutex_at (kern a))"
    using o a(1) a'(1) by (auto simp: kernel_rel_def sem_at_core mutex_at_core dom_def)
  ultimately have "boot_good T a'" using a(2) a'(2-4) by (simp add: boot_good_def keeps_def advances_def)
  with a'(1) pools_ok_advances [OF a(1) a'(1) keeps_advances [OF a'(3)] P] B show ?thesis
    by (auto simp: boot_inv_def kst_boot_def)
qed

lemma boot_sem_init:
  assumes B: "boot_inv kb ub T c" and x: "m \<in> fst (snd T)"
  shows "\<exists>r s'. os_sem_init m n (kst c) = Some (r, s') \<and> boot_inv kb ub T (c\<lparr>kst := s'\<rparr>)"
proof -
  from B obtain a where a: "kernel_rel (kst c) a" "boot_good T a" by (auto simp: boot_inv_def kst_boot_def)
  have "m \<in> dom (sem_at (kern a))" using a(2) x by (auto simp: boot_good_def)
  then obtain y where y: "sem_at (kst c) m = Some y" using a(1) by (auto simp: kernel_rel_def sem_at_core)
  have i: "\<exists>s'. os_sem_init m n (kst c) = Some (if sint n < 0 then -1 else 0, s') \<and> (\<exists>a'. kernel_rel s' a' \<and> kernel_inv a' \<and> keeps b a' \<and> fresh_tasks a')"
    if b: "kernel_rel (kst c) b" "boot_good T b" for b
  proof (cases "sint n < 0")
    case True
    with b show ?thesis by (auto simp: os_sem_init_def boot_good_def)
  next
    case False
    have "kernel_inv b" using b(2) by (simp add: boot_good_def)
    moreover have "waitq b (SemQ m) = []" by (rule boot_good_queue [OF b(2)]) (simp add: waitable_def)
    moreover have "keeps b (a_kern (set_count m (\<lambda>_. n)) b)" by (rule keeps_kern) (simp_all add: kstate_simps)
    moreover have "fresh_tasks (a_kern (set_count m (\<lambda>_. n)) b)"
      using b(2) by (simp add: boot_good_def fresh_tasks_def astate_simps kstate_simps)
    ultimately show ?thesis using sem_init_refines [OF b(1) _ y _ False] False by auto
  qed
  from i [OF a] obtain s' where s': "os_sem_init m n (kst c) = Some (if sint n < 0 then -1 else 0, s')" by blast
  moreover have "boot_inv kb ub T (c\<lparr>kst := s'\<rparr>)"
  proof (rule boot_keeps [OF B])
    show "dom (sem_at s') = dom (sem_at (kst c))" "dom (mutex_at s') = dom (mutex_at (kst c))"
      using s' y by (auto simp: os_sem_init_def upd_sem_def put_sem_def sem_at_def mutex_at_def split: if_splits)
  qed (use i s' in auto)
  ultimately show ?thesis by blast
qed

lemma boot_mutex_init:
  assumes B: "boot_inv kb ub T c" and x: "m \<in> snd (snd T)"
  shows "\<exists>r s'. os_mutex_init m (kst c) = Some (r, s') \<and> boot_inv kb ub T (c\<lparr>kst := s'\<rparr>)"
proof -
  from B obtain a where a: "kernel_rel (kst c) a" "boot_good T a" by (auto simp: boot_inv_def kst_boot_def)
  have "m \<in> dom (mutex_at (kern a))" using a(2) x by (auto simp: boot_good_def)
  then obtain y where y: "mutex_at (kst c) m = Some y" using a(1) by (auto simp: kernel_rel_def mutex_at_core)
  have i: "\<exists>s'. os_mutex_init m (kst c) = Some (0, s') \<and> (\<exists>a'. kernel_rel s' a' \<and> kernel_inv a' \<and> keeps b a' \<and> fresh_tasks a')"
    if b: "kernel_rel (kst c) b" "boot_good T b" for b
  proof -
    have I: "kernel_inv b" using b(2) by (simp add: boot_good_def)
    have "waitq b (MutexQ m) = []" by (rule boot_good_queue [OF b(2)]) (simp add: waitable_def)
    note R = mutex_init_refines [OF b(1) I y this]
    have "keeps b (a_kern (map_mutex m (\<lambda>x. x\<lparr>mtx_owner := NULL\<rparr>)) b)" by (rule keeps_kern) (simp_all add: kstate_simps)
    moreover have "fresh_tasks (a_kern (map_mutex m (\<lambda>x. x\<lparr>mtx_owner := NULL\<rparr>)) b)"
      using b(2) by (auto simp: boot_good_def fresh_tasks_def astate_simps kstate_simps split: if_splits)
    ultimately show ?thesis using R by blast
  qed
  from i [OF a] obtain s' where s': "os_mutex_init m (kst c) = Some (0, s')" by blast
  moreover have "boot_inv kb ub T (c\<lparr>kst := s'\<rparr>)"
  proof (rule boot_keeps [OF B])
    show "dom (sem_at s') = dom (sem_at (kst c))" "dom (mutex_at s') = dom (mutex_at (kst c))"
      using s' y by (auto simp: os_mutex_init_def upd_mutex_def put_mutex_def sem_at_def mutex_at_def split: if_splits)
  qed (use i s' in auto)
  ultimately show ?thesis by blast
qed

text \<open>A call an application may make: a task has a stack that is large enough for its first frame, and what is
  initialised is a semaphore or a mutex.\<close>

fun call_ok :: "objects \<Rightarrow> app_call \<Rightarrow> bool" where
  "call_ok T (Create_task prio entry arg words args rest) = (args \<noteq> NULL \<and> length rest = 6 \<and> 16 \<le> unat words)"
| "call_ok T (Init_sem m n) = (m \<in> fst (snd T))"
| "call_ok T (Init_mutex m) = (m \<in> snd (snd T))"

lemma boot_call:
  assumes "boot_inv kb ub T c" and "call_ok T k"
  shows "\<exists>c'. run_call tr ex k c = Some c' \<and> boot_inv kb ub T c'"
proof (cases k)
  case (Create_task prio entry arg words args rest)
  with assms boot_create [OF assms(1), of args rest words tr ex prio entry arg] show ?thesis by auto
next
  case (Init_sem m n)
  with assms boot_sem_init [OF assms(1), of m n] show ?thesis by auto
next
  case (Init_mutex m)
  with assms boot_mutex_init [OF assms(1), of m] show ?thesis by auto
qed

lemma boot_calls:
  assumes "boot_inv kb ub T c" and "list_all (call_ok T) ks"
  shows "\<exists>c'. run_calls tr ex ks c = Some c' \<and> boot_inv kb ub T c'"
  using assms
proof (induction ks arbitrary: c)
  case (Cons k ks)
  from boot_call [OF Cons.prems(1), of k tr ex] Cons.prems(2) obtain c' where
    "run_call tr ex k c = Some c'" "boot_inv kb ub T c'" by auto
  with Cons.IH [of c'] Cons.prems(2) show ?case by simp
qed simp

subsection \<open>The first task\<close>

lemma all_blocks_Cons: "all_blocks b k (Suc n) = pool_block b k n # all_blocks b k n"
  by (simp add: all_blocks_def)

text \<open>The first task a fresh kernel creates exists afterwards.\<close>

lemma boot_create_first:
  assumes B: "boot_inv kb ub ({}, S, M) c" and f: "kst_boot kb ub ({}, S, M) (kst c) (t # xs) (stk # ys)" and n: "length rest = 6" "args \<noteq> NULL"
    and v: "entry \<noteq> NULL" "prio \<le> OS_TASK_IDLE" "16 \<le> unat words" "words \<le> OS_TASK_STACK_WORDS"
  shows "\<exists>c'. os_task_create tr ex prio entry arg words args rest c = Some c' \<and> boot_inv kb ub ({t}, S, M) (exception_return c')"
proof -
  from B n(1) obtain s us vs where q: "create_args s args = Some (create_request prio entry arg words)"
    and e: "os_task_create tr ex prio entry arg words args rest c = map_option
      (\<lambda>(r, s'). c\<lparr>msp := msp c - 32, kst := store_word (msp c - 32) (of_int r) s'\<rparr>) (os_kernel_task_create tr ex args s)"
    and k: "\<forall>us vs. kst_boot kb ub ({}, S, M) (kst c) us vs \<longrightarrow> kst_boot kb ub ({}, S, M) s us vs" "sched_same (kst c) s"
    by (rule boot_request [where args = args and prio = prio and entry = entry and arg = arg and words = words and tr = tr and ex = ex])
  from k(1) f obtain b where b: "kernel_rel s b" "boot_good ({}, S, M) b" and P: "pools_ok kb ub s (t # xs) (stk # ys)"
    unfolding kst_boot_def by blast
  from create_success_grows [OF b(1) _ n(2) q _ _ _ _ P, of tr ex] b(2) v obtain s' b' where
    s': "os_kernel_task_create tr ex args s = Some (0, s')" "kernel_rel s' b'" "kernel_inv b'" "grows b b'"
      "pools_ok kb ub s' xs ys" "runnable b' t"
    by (auto simp: boot_good_def create_request_def)
  with boot_grows [OF b(2) s'(4,3)] have "boot_good ({t}, S, M) b'" by (auto simp: boot_good_def)
  with s' have "kst_boot kb ub ({t}, S, M) s' xs ys" by (auto simp: kst_boot_def)
  from boot_inv_return [OF B this] s'(1) e show ?thesis by auto
qed

subsection \<open>Starting the scheduler\<close>

text \<open>The kernel when the scheduler starts: nobody has locked a mutex or is blocked, and the chosen task is the first of the
  most urgent ones.\<close>

definition ready_to_run :: "kstate \<Rightarrow> bool" where
  "ready_to_run s \<longleftrightarrow> (\<exists>a. kernel_rel s a \<and> fresh_tasks a \<and> (\<forall>t. a_tcb a t \<noteq> None \<longrightarrow> runnable a t) \<and>
     g_next (kern a) = first_or (ready_order a) NULL)"

text \<open>The choice of the first task: it becomes the next and the current one, and the kernel's invariant holds with it.\<close>

lemma first_task:
  assumes V: "kst_boot kb ub T s xs ys" and t: "t \<in> fst T"
  shows "\<exists>n. os_schedule s = Some (s\<lparr>g_next := n\<rparr>) \<and> n \<noteq> NULL \<and>
    kst_inv t kb ub Thread (s\<lparr>g_next := n, g_current := n, pendsv := True\<rparr>) xs ys \<and>
    ready_to_run (s\<lparr>g_next := n, g_current := n, pendsv := True\<rparr>)"
proof -
  from V obtain a where a: "kernel_rel s a" "boot_good T a" and P: "pools_ok kb ub s xs ys" by (auto simp: kst_boot_def)
  from os_schedule_refines [OF a(1)] obtain s4 where s4: "os_schedule s = Some s4" "kernel_rel s4 (a_schedule a)" by blast
  have I: "kernel_inv a" "g_current (kern a) = NULL" and r: "runnable a t" using a(2) t by (simp_all add: boot_good_def)
  let ?n = "first_or (ready_order a) NULL"
  have nx: "g_next (kern (a_schedule a)) = ?n" by (simp add: a_schedule_def astate_simps kstate_simps)
  have nn: "?n \<noteq> NULL" by (rule ready_nonnull [OF kernel_invD(2) [OF I(1)] r])
  have I4: "kernel_inv (a_schedule a)" using kernel_inv_a_schedule [OF I(1)] by simp
  then have rn: "runnable (a_schedule a) ?n" using kernel_invD(3) [of "a_schedule a"] nn nx by (auto simp: next_ok_def runnable_def)
  let ?a5 = "a_kern (pendsv_update (\<lambda>_. True)) (a_kern (g_current_update (\<lambda>_. ?n)) (a_schedule a))"
  let ?s5 = "s4\<lparr>g_current := ?n\<rparr>\<lparr>pendsv := True\<rparr>"
  have R5: "kernel_rel ?s5 ?a5" by (rule kernel_rel_pendsv [OF kernel_rel_g_current [OF s4(2)]])
  have "kernel_inv (a_kern (g_current_update (\<lambda>_. ?n)) (a_schedule a))" by (rule kernel_inv_current [OF I4 rn])
  then have "sched_good t Thread ?a5"
    using r nn nx by (simp add: sched_good_def runnable_def a_schedule_def astate_simps kstate_simps)
  moreover have "pools_ok kb ub s4 xs ys"
    by (rule pools_ok_advances [OF a(1) s4(2) keeps_advances [OF keeps_schedule(1) [OF kernel_invD(2) [OF I(1)]]] P])
  then have "pools_ok kb ub ?s5 xs ys" by (simp add: pools_ok_def pool_rep_def kstate_simps)
  ultimately have "kst_inv t kb ub Thread ?s5 xs ys" using R5 by (auto simp: kst_inv_def)
  moreover have "fresh_tasks ?a5" "\<forall>t. a_tcb ?a5 t \<noteq> None \<longrightarrow> runnable ?a5 t" "g_next (kern ?a5) = first_or (ready_order ?a5) NULL"
    using a(2) nx by (simp_all add: boot_good_def fresh_tasks_def runnable_def a_schedule_def ready_order_def astate_simps kstate_simps)
  then have "ready_to_run ?s5" using R5 unfolding ready_to_run_def by blast
  moreover have "s4 = s\<lparr>g_next := ?n\<rparr>"
    using s4(1) schedule_loop_refines [OF a(1), of 0] by (simp add: os_schedule_def ready_order_def)
  ultimately show ?thesis using s4(1) nn by auto
qed

text \<open>The set-up of the interrupt priorities, of the protection unit and of the clock returns with the kernel's state
  unchanged but for the flag of the first switch.\<close>

lemma start_setup:
  fixes l and c :: cpu
  assumes h: "\<And>hw. clock = Some hw \<Longrightarrow> clock_starts hw"
  defines "c0 \<equiv> os_port_mpu_init l (os_port_set_pendsv_priority_lowest c)"
  defines "c1 \<equiv> c0\<lparr>kst := (kst c0)\<lparr>g_first_switch := 1\<rparr>\<rparr>"
  shows "\<exists>c2. (case clock of None \<Rightarrow> Some c1 | Some hw \<Rightarrow> clock_init hw c1) = Some c2 \<and>
    kst (systick_init hz 1000 c2) = (kst c)\<lparr>g_first_switch := 1\<rparr> \<and> r4_r11 (systick_init hz 1000 c2) = r4_r11 c"
proof -
  have io0: "only_io c c0" using only_io_setup(1) [of c] only_io_setup(2) [of "os_port_set_pendsv_priority_lowest c" l]
    by (simp add: only_io_def c0_def)
  have "\<exists>c2. (case clock of None \<Rightarrow> Some c1 | Some hw \<Rightarrow> clock_init hw c1) = Some c2 \<and> only_io c1 c2"
  proof (cases clock)
    case (Some hw)
    with clock_returns [OF h [OF Some], of c1] show ?thesis by auto
  qed (simp add: only_io_def)
  then obtain c2 where c2: "(case clock of None \<Rightarrow> Some c1 | Some hw \<Rightarrow> clock_init hw c1) = Some c2" "only_io c1 c2" by blast
  moreover have "kst (systick_init hz 1000 c2) = (kst c)\<lparr>g_first_switch := 1\<rparr>" "r4_r11 (systick_init hz 1000 c2) = r4_r11 c"
    using io0 c2(2) only_io_setup(3) [of c2 hz 1000] by (simp_all add: only_io_def c1_def)
  ultimately show ?thesis by blast
qed

lemma start_machine_inv:
  assumes B: "boot_inv kb ub T c" and t: "t \<in> fst T" and h: "\<And>hw. clock = Some hw \<Longrightarrow> clock_starts hw"
  shows "\<exists>c'. os_start l clock hz c = Some c' \<and> machine_inv t kb ub (Thread, c') \<and> g_first_switch (kst c') = 1 \<and>
    map_option tcb_sp (tcb_at (kst c') (g_current (kst c'))) = Some (psp c') \<and> g_next (kst c') = g_current (kst c') \<and> pendsv (kst c') \<and>
    (\<exists>k. os_schedule ((kst c)\<lparr>g_first_switch := 1\<rparr>) = Some ((kst c)\<lparr>g_first_switch := 1, g_next := k\<rparr>) \<and>
      kst c' = (kst c)\<lparr>g_first_switch := 1, g_next := k, g_current := k, pendsv := True\<rparr>) \<and> ready_to_run (kst c') \<and>
    io c' SYST_CSR = 7 \<and> io c' SYST_RVR = hz div 1000 - 1"
proof -
  let ?s = "(kst c)\<lparr>g_first_switch := 1\<rparr>"
  from start_setup [of clock l c hz, OF h] obtain c2 where c2: "(let c0 = os_port_mpu_init l (os_port_set_pendsv_priority_lowest c); c1 = c0\<lparr>kst := (kst c0)\<lparr>g_first_switch := 1\<rparr>\<rparr> in
      case clock of None \<Rightarrow> Some c1 | Some hw \<Rightarrow> clock_init hw c1) = Some c2"
    and k3: "kst (systick_init hz 1000 c2) = ?s" "r4_r11 (systick_init hz 1000 c2) = r4_r11 c" unfolding Let_def by blast
  from B obtain xs ys where V: "kst_boot kb ub T (kst c) xs ys" by (auto simp: boot_inv_def)
  have "get_pool ?s = get_pool (kst c)" by (rule ext, rename_tac q, case_tac q) simp_all
  then have "kst_boot kb ub T ?s xs ys" by (intro kst_boot_same [OF V]) (simp_all add: sched_same_def kstate_simps)
  from first_task [OF this t] obtain n where n: "os_schedule ?s = Some (?s\<lparr>g_next := n\<rparr>)" "n \<noteq> NULL"
    and J: "kst_inv t kb ub Thread (?s\<lparr>g_next := n, g_current := n, pendsv := True\<rparr>) xs ys"
      "ready_to_run (?s\<lparr>g_next := n, g_current := n, pendsv := True\<rparr>)" by blast
  from kst_inv_valid(2) [OF J(1)] obtain p where p: "tcb_at (?s\<lparr>g_next := n\<rparr>) n = Some p" by (auto simp: kstate_simps)
  let ?c5 = "(systick_enable ((systick_init hz 1000 c2)\<lparr>kst := ?s\<lparr>g_next := n, g_current := n\<rparr>, psp := tcb_sp p\<rparr>))\<lparr>control := 2\<rparr>"
  let ?c6 = "?c5\<lparr>kst := os_port_pendsv_trigger (kst ?c5)\<rparr>"
  have "os_start l clock hz c = Some ?c6"
    unfolding os_start_def Let_def c2 [unfolded Let_def] bind.bind_lunit k3 n(1) using n(2) p by (simp add: kstate_simps)
  moreover have k6: "kst ?c6 = ?s\<lparr>g_next := n, g_current := n, pendsv := True\<rparr>" "r4_r11 ?c6 = r4_r11 c" "psp ?c6 = tcb_sp p" "control ?c6 = 2"
    using k3 by (simp_all add: systick_enable_def os_port_pendsv_trigger_def)
  moreover have "machine_inv t kb ub (Thread, ?c6)" using J B k6 by (intro machine_invI [of _ _ _ _ _ xs ys]) (simp_all add: boot_inv_def)
  moreover have "io ?c6 SYST_CSR = 7" "io ?c6 SYST_RVR = hz div 1000 - 1" by (simp_all add: systick_enable_def systick_init_def Let_def)
  ultimately show ?thesis using n(1) p J(2) by (intro exI [of _ ?c6] conjI exI [of _ n]) (simp_all add: kstate_simps)
qed

subsection \<open>From reset to the first task\<close>

text \<open>What the linker script guarantees: the segments are whole words and the load images are elsewhere, the pools fit
  into memory and are apart from each other and from the top of the main stack.\<close>

definition segment_ok :: "addr \<Rightarrow> addr \<Rightarrow> bool" where
  "segment_ok b e \<longleftrightarrow> unat b \<le> unat e \<and> (unat e - unat b) mod 4 = 0"

definition load_apart :: "addr \<Rightarrow> addr \<Rightarrow> addr \<Rightarrow> bool" where
  "load_apart b e src \<longleftrightarrow> (let n = (unat e - unat b) div 4 in word_addrs b n \<inter> word_addrs src n = {})"

definition image_ok :: "image \<Rightarrow> addr \<Rightarrow> bool" where
  "image_ok im sp \<longleftrightarrow>
     segment_ok (user_data_start im) (user_data_end im) \<and> load_apart (user_data_start im) (user_data_end im) (user_data_load im) \<and>
     segment_ok (kernel_data_start im) (kernel_data_end im) \<and>
     load_apart (kernel_data_start im) (kernel_data_end im) (kernel_data_load im) \<and>
     segment_ok (user_bss_start im) (user_bss_end im) \<and> segment_ok (kernel_bss_start im) (kernel_bss_end im) \<and>
     pools_apart (kernel_object_pool_storage im) (user_stack_pool_storage im) \<and>
     pool_fits (kernel_object_pool_storage im) 64 32 \<and> pool_fits (user_stack_pool_storage im) 1024 8 \<and>
     idle_task im \<noteq> NULL \<and> sp \<noteq> 32 \<and>
     word_addrs (sp - 32) 8 \<inter> (pool_blocks (kernel_object_pool_storage im) 64 32 \<union>
       pool_blocks (user_stack_pool_storage im) 1024 8) = {}"

lemma segment_words:
  assumes "segment_ok b e"
  shows "os_zero_words b e s = Some (store_words b (replicate ((unat e - unat b) div 4) 0) s)"
    "load_apart b e src \<Longrightarrow> os_copy_words b src e s = Some (store_words b (words_at s src ((unat e - unat b) div 4)) s)"
proof -
  have "unat b + 4 * ((unat e - unat b) div 4) = unat e" using assms by (auto simp: segment_ok_def)
  moreover have "unat e < 2 ^ 32" using unat_lt_2p32 [of e] by simp
  ultimately show "os_zero_words b e s = Some (store_words b (replicate ((unat e - unat b) div 4) 0) s)"
    "load_apart b e src \<Longrightarrow> os_copy_words b src e s = Some (store_words b (words_at s src ((unat e - unat b) div 4)) s)"
    by (intro zero_words copy_words; simp add: load_apart_def Let_def)+
qed

lemma reset_reaches_boot:
  assumes "image_ok im sp"
  shows "\<exists>M. Reset_Handler im app clock hz args rest c = os_boot_main im app clock hz args rest
    (c\<lparr>kst := zero_globals ((kst c)\<lparr>mem := M\<rparr>)\<rparr>)"
proof -
  have i: "segment_ok (user_data_start im) (user_data_end im)" "load_apart (user_data_start im) (user_data_end im) (user_data_load im)"
    "segment_ok (kernel_data_start im) (kernel_data_end im)" "load_apart (kernel_data_start im) (kernel_data_end im) (kernel_data_load im)"
    "segment_ok (user_bss_start im) (user_bss_end im)" "segment_ok (kernel_bss_start im) (kernel_bss_end im)"
    using assms by (simp_all add: image_ok_def)
  obtain M1 where M1: "os_copy_words (user_data_start im) (user_data_load im) (user_data_end im) (kst c) = Some ((kst c)\<lparr>mem := M1\<rparr>)"
    unfolding segment_words(2) [OF i(1,2)] using store_words_frame by blast
  have step: "\<exists>M'. store_words p ws ((kst c)\<lparr>mem := M\<rparr>) = (kst c)\<lparr>mem := M'\<rparr>" for p ws M
    using store_words_frame [of p ws "(kst c)\<lparr>mem := M\<rparr>"] by auto
  obtain M2 where M2: "os_copy_words (kernel_data_start im) (kernel_data_load im) (kernel_data_end im) ((kst c)\<lparr>mem := M1\<rparr>) =
      Some ((kst c)\<lparr>mem := M2\<rparr>)"
    unfolding segment_words(2) [OF i(3,4)] using step by blast
  obtain M3 where M3: "os_zero_words (user_bss_start im) (user_bss_end im) ((kst c)\<lparr>mem := M2\<rparr>) = Some ((kst c)\<lparr>mem := M3\<rparr>)"
    unfolding segment_words(1) [OF i(5)] using step by blast
  obtain M4 where M4: "os_zero_words (kernel_bss_start im) (kernel_bss_end im) ((kst c)\<lparr>mem := M3\<rparr>) = Some ((kst c)\<lparr>mem := M4\<rparr>)"
    unfolding segment_words(1) [OF i(6)] using step by blast
  show ?thesis unfolding Reset_Handler_def M1 M2 M3 M4 bind.bind_lunit by blast
qed

text \<open>The kernel with fresh pools, before the first task is created.\<close>

lemma boot_fresh:
  assumes im: "image_ok im (msp c)" and c: "control c = 0" "length (r4_r11 c) = 8" and k: "kst c = zero_globals s"
    and kb: "kb = kernel_object_pool_storage im" and ub: "ub = user_stack_pool_storage im"
  defines "c2 \<equiv> os_bench_clock_init (c\<lparr>kst := os_kalloc_init kb ub (kst c)\<rparr>)" and "T \<equiv> ({}, dom (sem_at s), dom (mutex_at s))"
  shows "boot_inv kb ub T c2" and "sched_same (kst c) (kst c2)"
    and "kst_boot kb ub T (kst c2) (pool_block kb 64 31 # all_blocks kb 64 31) (pool_block ub 1024 7 # all_blocks ub 1024 7)"
proof -
  let ?c1 = "c\<lparr>kst := os_kalloc_init kb ub (kst c)\<rparr>"
  have f: "pools_apart kb ub" "pool_fits kb 64 32" "pool_fits ub 1024 8" and sp: "msp c \<noteq> 32"
    "word_addrs (msp c - 32) 8 \<inter> (pool_blocks kb 64 32 \<union> pool_blocks ub 1024 8) = {}"
    using im by (simp_all add: image_ok_def kb ub)
  have t: "tcb_at (kst c) x = None" for x unfolding k by (simp add: tcb_at_def zero_globals_def)
  note P = kalloc_init_pools [OF f t]
  let ?a = "\<lparr>kern = core (zero_globals s), waitq = (\<lambda>_. []), timeoutq = []\<rparr>"
  have Z: "kernel_rel (kst c) ?a" "boot_good T ?a" unfolding k T_def by (rule zero_globals_rel, rule zero_globals_good)
  let ?b = "?a\<lparr>kern := core (kst ?c1)\<rparr>"
  have S: "sched_same (kst c) (kst ?c1)" using P(2) by simp
  note K = kernel_rel_same [OF Z(1) S]
  have tn: "a_tcb ?b u = None" for u using kernel_rel_tcb_None [OF K(1)] S t by (simp add: sched_same_def)
  have "dom (sem_at (kern ?b)) = dom (sem_at (kern ?a))" "dom (mutex_at (kern ?b)) = dom (mutex_at (kern ?a))"
    using S unfolding k by (auto simp: sched_same_def sem_at_core mutex_at_core dom_def)
  moreover have "fresh_tasks ?b" using Z(2) fresh_same [OF Z(1) S] unfolding boot_good_def by blast
  ultimately have "boot_good T ?b"
    using Z(2) K(2) tn kernel_rel_globals(1) [OF K(1)] kernel_rel_globals(1) [OF Z(1)] S
    by (simp add: boot_good_def sched_same_def T_def)
  with K(1) P(1) have V: "kst_boot kb ub T (kst ?c1) (all_blocks kb 64 32) (all_blocks ub 1024 8)" by (auto simp: kst_boot_def)
  with c sp have B: "boot_inv kb ub T ?c1" by (auto simp: boot_inv_def)
  note io = only_io_setup(5) [of ?c1]
  show "boot_inv kb ub T c2" using B boot_inv_only_io [OF io] by (simp add: c2_def)
  have e: "all_blocks kb 64 32 = pool_block kb 64 31 # all_blocks kb 64 31" "all_blocks ub 1024 8 = pool_block ub 1024 7 # all_blocks ub 1024 7"
    using all_blocks_Cons [of kb 64 31] all_blocks_Cons [of ub 1024 7] by simp_all
  show "kst_boot kb ub T (kst c2) (pool_block kb 64 31 # all_blocks kb 64 31) (pool_block ub 1024 7 # all_blocks ub 1024 7)"
    "sched_same (kst c) (kst c2)"
    using V S io unfolding e by (simp_all add: only_io_def c2_def)
qed

lemma boot_main_machine_inv:
  assumes im: "image_ok im (msp c)" and c: "control c = 0" "length (r4_r11 c) = 8" and a: "args \<noteq> NULL" "length rest = 6"
    and ks: "list_all (call_ok ({}, dom (sem_at s), dom (mutex_at s))) ks" and h: "\<And>hw. clock = Some hw \<Longrightarrow> clock_starts hw"
    and k: "kst c = zero_globals s"
    and kb: "kb = kernel_object_pool_storage im" and ub: "ub = user_stack_pool_storage im"
  shows "\<exists>c'. os_boot_main im (run_calls (task_start_trampoline im) (task_exit_trap im) ks) clock hz args rest c = Some c' \<and>
    machine_inv (pool_block kb 64 31) kb ub (Thread, c') \<and> g_first_switch (kst c') = 1 \<and>
    map_option tcb_sp (tcb_at (kst c') (g_current (kst c'))) = Some (psp c') \<and> g_next (kst c') = g_current (kst c') \<and> pendsv (kst c') \<and>
    ready_to_run (kst c') \<and> io c' SYST_CSR = 7 \<and> io c' SYST_RVR = hz div 1000 - 1"
proof -
  let ?idle = "pool_block kb 64 31" and ?O = "(dom (sem_at s), dom (mutex_at s))"
  let ?tr = "task_start_trampoline im" and ?ex = "task_exit_trap im"
  note F = boot_fresh [OF im c k kb ub]
  from boot_create_first [OF F(1,3) a(2,1), of "idle_task im" OS_TASK_IDLE 128 ?tr ?ex NULL] im obtain c3 where
    c3: "os_task_create ?tr ?ex OS_TASK_IDLE (idle_task im) NULL 128 args rest
        (os_bench_clock_init (c\<lparr>kst := os_kalloc_init kb ub (kst c)\<rparr>)) = Some c3"
      "boot_inv kb ub ({?idle}, ?O) (exception_return c3)"
    by (auto simp: image_ok_def OS_TASK_STACK_WORDS_def)
  have "call_ok ({?idle}, ?O) = call_ok ({}, ?O)"
  proof
    fix x show "call_ok ({?idle}, ?O) x = call_ok ({}, ?O) x" by (cases x) simp_all
  qed
  with boot_calls [OF c3(2), of ks ?tr ?ex] ks obtain c4 where
    c4: "run_calls ?tr ?ex ks (exception_return c3) = Some c4" "boot_inv kb ub ({?idle}, ?O) c4" by auto
  from start_machine_inv [OF c4(2), of ?idle clock "layout.truncate im" hz] h obtain c5 where
    c5: "os_start (layout.truncate im) clock hz c4 = Some c5" "machine_inv ?idle kb ub (Thread, c5)"
      "g_first_switch (kst c5) = 1 \<and> map_option tcb_sp (tcb_at (kst c5) (g_current (kst c5))) = Some (psp c5) \<and>
       g_next (kst c5) = g_current (kst c5) \<and> pendsv (kst c5) \<and> ready_to_run (kst c5) \<and>
       io c5 SYST_CSR = 7 \<and> io c5 SYST_RVR = hz div 1000 - 1" by auto
  have "os_boot_main im (run_calls ?tr ?ex ks) clock hz args rest c = Some c5"
    unfolding os_boot_main_def Let_def kb [symmetric] ub [symmetric] c3(1) c4(1) c5(1) bind.bind_lunit ..
  with c5 show ?thesis by blast
qed

lemma reset_machine_inv:
  assumes im: "image_ok im (msp c)" and c: "control c = 0" "length (r4_r11 c) = 8" and a: "args \<noteq> NULL" "length rest = 6"
    and ks: "list_all (call_ok ({}, dom (sem_at (kst c)), dom (mutex_at (kst c)))) ks" and h: "\<And>hw. clock = Some hw \<Longrightarrow> clock_starts hw"
  defines "kb \<equiv> kernel_object_pool_storage im" and "ub \<equiv> user_stack_pool_storage im"
  shows "\<exists>c'. Reset_Handler im (run_calls (task_start_trampoline im) (task_exit_trap im) ks) clock hz args rest c = Some c' \<and>
    machine_inv (pool_block kb 64 31) kb ub (Thread, c') \<and> g_first_switch (kst c') = 1 \<and>
    map_option tcb_sp (tcb_at (kst c') (g_current (kst c'))) = Some (psp c') \<and> g_next (kst c') = g_current (kst c') \<and> pendsv (kst c') \<and>
    ready_to_run (kst c') \<and> io c' SYST_CSR = 7 \<and> io c' SYST_RVR = hz div 1000 - 1"
proof -
  from reset_reaches_boot [OF im, of _ clock hz args rest c] obtain M where
    M: "Reset_Handler im (run_calls (task_start_trampoline im) (task_exit_trap im) ks) clock hz args rest c =
      os_boot_main im (run_calls (task_start_trampoline im) (task_exit_trap im) ks) clock hz args rest
        (c\<lparr>kst := zero_globals ((kst c)\<lparr>mem := M\<rparr>)\<rparr>)" by blast
  show ?thesis
    unfolding M kb_def ub_def
    by (rule boot_main_machine_inv [where s = "(kst c)\<lparr>mem := M\<rparr>"]) (use im c a ks h in \<open>simp_all add: kstate_simps\<close>)
qed

end
