(* ===== verification/Kernel_Safety.thy ===== *)
theory Kernel_Safety
  imports Boot_Properties
begin

text \<open>
  The properties of the whole system: from reset on, in every state the kernel can reach by any interleaving of tasks,
  supervisor calls, ticks and context switches, its data structures are consistent, a task that runs is not
  blocked, and every handler returns.
\<close>

text \<open>A task that can run, in the concrete state.\<close>

definition can_run :: "kstate \<Rightarrow> addr \<Rightarrow> bool" where
  "can_run s t \<longleftrightarrow> (\<exists>c. tcb_at s t = Some c \<and> tcb_state c \<noteq> OS_TASK_BLOCKED)"

lemma can_run_iff: "kernel_rel s a \<Longrightarrow> can_run s t \<longleftrightarrow> runnable a t"
  by (auto simp: can_run_def runnable_def kernel_rel_def tcb_at_core)

lemma machine_inv_safe:
  assumes "machine_inv idle kb ub (m, c)"
  shows "kernel_ok (kst c)" "can_run (kst c) idle" "\<not> switching m \<Longrightarrow> \<not> pendsv (kst c) \<Longrightarrow> can_run (kst c) (g_current (kst c))"
    "can_run (kst c) (g_next (kst c))" "\<exists>xs ys. pools_ok kb ub (kst c) xs ys"
proof -
  from assms obtain a xs ys where a: "kernel_rel (kst c) a" "sched_good idle m a" "pools_ok kb ub (kst c) xs ys"
    by (auto simp: machine_inv_def kst_inv_def)
  note g = kernel_rel_globals [OF a(1)]
  show "kernel_ok (kst c)" "can_run (kst c) idle" "\<not> switching m \<Longrightarrow> \<not> pendsv (kst c) \<Longrightarrow> can_run (kst c) (g_current (kst c))"
    "\<exists>xs ys. pools_ok kb ub (kst c) xs ys"
    using a g by (auto simp: kernel_ok_def sched_good_def can_run_iff)
  have "runnable a (g_next (kern a))"
    using a(2) kernel_invD(3) [of a] by (auto simp: sched_good_def next_ok_def runnable_def)
  then show "can_run (kst c) (g_next (kst c))" using g by (simp add: can_run_iff [OF a(1)])
qed

text \<open>
  C1: Safety from reset on. For every image laid out as the linker script does and every application that starts
  by creating tasks and initialising its semaphores and mutexes, \<open>Reset_Handler\<close> reaches the point where the
  scheduler runs. From there on the tasks compute on memory outside the free blocks of the pools, initialise semaphores and
  mutexes without waiters and make supervisor calls, of which those have a step that return and that create no task with a
  stack of fewer than sixteen words; ticks come at any time, also between any two accesses of \<open>os_commit_switch\<close>.
  In every state that is reachable so the ready queues, the wait queues, the sleep queue and the timeout queue are
  consistent, as \<open>kernel_inv\<close> says (the lists of owned mutexes are not part of it), the idle task and the task chosen to run
  next can run, the two pools are consistent, and the current task can run unless a context switch is pending or in
  progress.
\<close>

theorem kernel_safe_from_reset:
  assumes "image_ok im (msp c)" and "control c = 0" and "length (r4_r11 c) = 8" and "args \<noteq> NULL" and "length rest = 6"
    and "list_all (call_ok ({}, dom (sem_at (kst c)), dom (mutex_at (kst c)))) ks"
    and "\<And>hw. clock = Some hw \<Longrightarrow> clock_starts hw"
    and "kb = kernel_object_pool_storage im" and "ub = user_stack_pool_storage im" and "idle = pool_block kb 64 31"
    and "tr = task_start_trampoline im" and "ex = task_exit_trap im"
  shows "\<exists>c'. Reset_Handler im (run_calls tr ex ks) clock hz args rest c = Some c' \<and>
    (\<forall>m d. reachable tr ex idle kb ub (Thread, c') (m, d) \<longrightarrow> kernel_ok (kst d) \<and> can_run (kst d) idle \<and>
      can_run (kst d) (g_next (kst d)) \<and> (\<exists>xs ys. pools_ok kb ub (kst d) xs ys) \<and>
      (\<not> switching m \<and> \<not> pendsv (kst d) \<longrightarrow> can_run (kst d) (g_current (kst d))))"
proof -
  from reset_machine_inv [OF assms(1-6), of clock hz] assms(7) obtain c' where
    c': "Reset_Handler im (run_calls tr ex ks) clock hz args rest c = Some c'" "machine_inv idle kb ub (Thread, c')"
    by (auto simp: assms(8-))
  have "machine_inv idle kb ub (m, d)" if "reachable tr ex idle kb ub (Thread, c') (m, d)" for m d
    by (rule reachable_inv [OF that c'(2)])
  note safe = machine_inv_safe [OF this]
  show ?thesis by (intro exI [of _ c'] conjI allI impI c'(1) safe; (elim conjE)?; assumption)
qed

definition sample_image :: image where
  "sample_image = \<lparr>user_flash_region_start = 0x08000000, user_flash_region_end = 0x08008000,
     kernel_flash_region_start = 0x08008000, kernel_flash_region_end = 0x08010000,
     user_ram_region_start = 0x20000000, user_ram_region_end = 0x20004000,
     kernel_ram_region_start = 0x20004000, kernel_ram_region_end = 0x20005000,
     user_data_load = 0x08001000, user_data_start = 0x20000000, user_data_end = 0x20000010,
     kernel_data_load = 0x08009000, kernel_data_start = 0x20004000, kernel_data_end = 0x20004000,
     user_bss_start = 0x20000080, user_bss_end = 0x20000090, kernel_bss_start = 0x20004080, kernel_bss_end = 0x20004090,
     kernel_object_pool_storage = 0x20004100, user_stack_pool_storage = 0x20001000,
     task_start_trampoline = 0x08000101, task_exit_trap = 0x08000201, idle_task = 0x08000301\<rparr>"

lemma sample_image_ok: "image_ok sample_image (msp (reset_cpu sample))"
proof -
  have "word_addrs (0x20005000 - 32) 8 \<inter> (pool_blocks 0x20004100 64 32 \<union> pool_blocks 0x20001000 1024 8) = {}"
    by code_simp
  moreover have "word_addrs 0x20000000 4 \<inter> word_addrs 0x08001000 4 = {}" by code_simp
  moreover have "word_addrs 0x20004000 0 \<inter> word_addrs 0x08009000 0 = {}" by (simp add: word_addrs_def)
  ultimately show ?thesis
    by (simp add: image_ok_def sample_image_def reset_cpu_def segment_ok_def load_apart_def pools_apart_def pool_fits_def)
qed

text \<open>Two tasks of medium priority, as in \<open>app_main.c\<close>, with a mutex, as in \<open>app_LED.c\<close>.\<close>

definition sample_calls :: "app_call list" where
  "sample_calls = [Init_mutex 0x1000, Create_task 1 0x08000401 0 256 0x20004F00 (replicate 6 0),
     Create_task 1 0x08000501 1 256 0x20004F00 (replicate 6 0)]"

theorem kernel_safe_from_reset_witness:
  "\<exists>c'. Reset_Handler sample_image (run_calls 0x08000101 0x08000201 sample_calls) (Some sample_clock) 72000000 0x20004F00
      (replicate 6 0) (reset_cpu sample) = Some c' \<and>
    (\<forall>m d. reachable 0x08000101 0x08000201 (pool_block 0x20004100 64 31) 0x20004100 0x20001000 (Thread, c') (m, d) \<longrightarrow>
      kernel_ok (kst d) \<and> can_run (kst d) (pool_block 0x20004100 64 31) \<and> can_run (kst d) (g_next (kst d)) \<and>
      (\<exists>xs ys. pools_ok 0x20004100 0x20001000 (kst d) xs ys) \<and>
      (\<not> switching m \<and> \<not> pendsv (kst d) \<longrightarrow> can_run (kst d) (g_current (kst d))))"
  by (rule kernel_safe_from_reset [OF sample_image_ok])
    (simp_all add: reset_cpu_def sample_calls_def sample_clock_starts sample_image_def sample_mutex)

text \<open>Every reachable state, for proofs about single steps.\<close>

lemma reachable_from_reset:
  assumes "image_ok im (msp c)" and "control c = 0" and "length (r4_r11 c) = 8" and "args \<noteq> NULL" and "length rest = 6"
    and "list_all (call_ok ({}, dom (sem_at (kst c)), dom (mutex_at (kst c)))) ks"
    and "\<And>hw. clock = Some hw \<Longrightarrow> clock_starts hw"
    and "kb = kernel_object_pool_storage im" and "ub = user_stack_pool_storage im" and "idle = pool_block kb 64 31"
    and "tr = task_start_trampoline im" and "ex = task_exit_trap im"
    and "Reset_Handler im (run_calls tr ex ks) clock hz args rest c = Some c'" and "reachable tr ex idle kb ub (Thread, c') (m, d)"
  shows "machine_inv idle kb ub (m, d)"
proof -
  from reset_machine_inv [OF assms(1-6), of clock hz] assms(7,13) have "machine_inv idle kb ub (Thread, c')"
    by (auto simp: assms(8-12))
  from reachable_inv [OF assms(14) this] show ?thesis .
qed

lemma save_returns:
  assumes V: "machine_inv idle kb ub (m, c)"
  shows "\<exists>s. save_context (unpend c) = Some s" "\<exists>s. save_context (unpend (enter ws c)) = Some s"
proof -
  from V obtain xs ys where k: "kst_inv idle kb ub m (kst c) xs ys" by (auto simp: machine_inv_def)
  from kst_inv_valid(2) [OF k] obtain t where t: "tcb_at (kst c) (g_current (kst c)) = Some t" by blast
  have s: "\<exists>s. save_context d = Some s" if "kst d = (kst c)\<lparr>mem := M, pendsv := b\<rparr>" for d M b
    using that t store_words_frame [of "psp d - 4 * of_nat (length (r4_r11 d))" "r4_r11 d" "kst d"]
    by (auto simp: save_context_def stmdb_def upd_tcb_def kstate_simps Let_def)
  show "\<exists>s. save_context (unpend c) = Some s" by (rule s [where M = "mem (kst c)" and b = False]) (simp add: unpend_def)
  obtain N where "store_words (psp c - 32) ws (kst c) = (kst c)\<lparr>mem := N\<rparr>" using store_words_frame by blast
  then show "\<exists>s. save_context (unpend (enter ws c)) = Some s" by (intro s [where M = N and b = False]) (simp add: unpend_def)
qed

text \<open>
  C11: The kernel's handlers never get stuck. In every state that is reachable from reset the tick handler returns;
  when a context switch is pending, saving the context returns; once it is saved, committing the switch
  returns, and while it is in progress its next access to memory is always possible; and once it is done,
  restoring the context returns and leaves the processor unprivileged on the stack of the current task.
\<close>

theorem handlers_return:
  assumes "image_ok im (msp c)" and "control c = 0" and "length (r4_r11 c) = 8" and "args \<noteq> NULL" and "length rest = 6"
    and "list_all (call_ok ({}, dom (sem_at (kst c)), dom (mutex_at (kst c)))) ks"
    and "\<And>hw. clock = Some hw \<Longrightarrow> clock_starts hw"
    and "kb = kernel_object_pool_storage im" and "ub = user_stack_pool_storage im" and "idle = pool_block kb 64 31"
    and "tr = task_start_trampoline im" and "ex = task_exit_trap im"
    and "Reset_Handler im (run_calls tr ex ks) clock hz args rest c = Some c'" and "reachable tr ex idle kb ub (Thread, c') (m, d)"
  shows "(\<exists>s. SysTick_Handler (kst d) = Some s) \<and> (\<exists>s. save_context (unpend d) = Some s) \<and>
    (\<exists>s. save_context (unpend (enter ws d)) = Some s) \<and> (\<exists>s. os_commit_switch (kst d) = Some s) \<and>
    (switching m \<longrightarrow> (\<exists>m' s. commit_step m (kst d) m' s)) \<and>
    (\<exists>d' t. restore_context d = Some d' \<and> control d' = 3 \<and> tcb_at (kst d) (g_current (kst d)) = Some t \<and> psp d' = tcb_sp t + 32)"
proof -
  have V: "machine_inv idle kb ub (m, d)" by (rule reachable_from_reset [OF assms])
  then obtain xs ys where k: "kst_inv idle kb ub m (kst d) xs ys" by (auto simp: machine_inv_def)
  show ?thesis
    using kst_inv_tick [OF k] commit_returns [OF k] save_returns [OF V] kst_inv_valid(2) [OF k]
commit_progress [OF k]
    by (auto simp: restore_context_def elim: switching.elims)
qed

theorem handlers_return_witness:
  "\<exists>c'. Reset_Handler sample_image (run_calls 0x08000101 0x08000201 sample_calls) None 25000000 0x20004F00
      (replicate 6 0) (reset_cpu sample) = Some c' \<and> (\<exists>s. SysTick_Handler (kst c') = Some s) \<and>
      (\<exists>s. save_context (unpend (enter (replicate 8 0) c')) = Some s)"
proof -
  have ks: "list_all (call_ok ({}, dom (sem_at (kst (reset_cpu sample))), dom (mutex_at (kst (reset_cpu sample))))) sample_calls"
    by (simp add: reset_cpu_def sample_calls_def sample_mutex)
  have c: "control (reset_cpu sample) = 0" "length (r4_r11 (reset_cpu sample)) = 8" by (simp_all add: reset_cpu_def)
  have i: "task_start_trampoline sample_image = 0x08000101" "task_exit_trap sample_image = 0x08000201" by (simp_all add: sample_image_def)
  from reset_machine_inv [OF sample_image_ok c _ _ ks, of "0x20004F00" "replicate 6 0" None 25000000] obtain c' where
    c': "Reset_Handler sample_image (run_calls 0x08000101 0x08000201 sample_calls) None 25000000 0x20004F00
      (replicate 6 0) (reset_cpu sample) = Some c'" unfolding i by auto
  have "(\<exists>s. SysTick_Handler (kst c') = Some s) \<and> (\<exists>s. save_context (unpend c') = Some s) \<and>
    (\<exists>s. save_context (unpend (enter (replicate 8 0) c')) = Some s) \<and> (\<exists>s. os_commit_switch (kst c') = Some s) \<and>
    (switching Thread \<longrightarrow> (\<exists>m' s. commit_step Thread (kst c') m' s)) \<and>
    (\<exists>d' t. restore_context c' = Some d' \<and> control d' = 3 \<and> tcb_at (kst c') (g_current (kst c')) = Some t \<and> psp d' = tcb_sp t + 32)"
    by (rule handlers_return [OF sample_image_ok c _ _ ks _ refl refl refl i [symmetric] c' reachable_start]) simp_all
  with c' show ?thesis by blast
qed

text \<open>
  C36: Start-up prepares the first context switch. After \<open>Reset_Handler\<close> the tick timer counts the core clock with its
  interrupt enabled and the reload value of 1000 ticks per second, a task that can run is both current and chosen, the process stack pointer is the saved stack pointer of that task, PendSV is pending and marked as the first
  switch, so that it saves no context, and the first PendSV loads R4 to R11 of that task and makes thread
  mode unprivileged.
\<close>

theorem boot_prepares_first_switch:
  assumes "image_ok im (msp c)" and "control c = 0" and "length (r4_r11 c) = 8" and "args \<noteq> NULL" and "length rest = 6"
    and "list_all (call_ok ({}, dom (sem_at (kst c)), dom (mutex_at (kst c)))) ks"
    and "\<And>hw. clock = Some hw \<Longrightarrow> clock_starts hw"
  shows "\<exists>c' t n. Reset_Handler im (run_calls (task_start_trampoline im) (task_exit_trap im) ks) clock hz args rest c = Some c' \<and>
    g_current (kst c') = t \<and> g_next (kst c') = t \<and> can_run (kst c') t \<and> tcb_at (kst c') t = Some n \<and> psp c' = tcb_sp n \<and>
    pendsv (kst c') \<and> g_first_switch (kst c') = 1 \<and> io c' SYST_RVR = hz div 1000 - 1 \<and> io c' SYST_CSR = 7 \<and>
    (\<exists>d. PendSV_Handler c' = Some d \<and> mem (kst d) = mem (kst c') \<and> g_current (kst d) = t \<and>
      r4_r11 d = words_at (kst c') (tcb_sp n) 8 \<and> psp d = tcb_sp n + 32 \<and> control d = 3)"
proof -
  from reset_machine_inv [OF assms(1-6), of clock hz] assms(7) obtain c' where
    c': "Reset_Handler im (run_calls (task_start_trampoline im) (task_exit_trap im) ks) clock hz args rest c = Some c'"
      "machine_inv (pool_block (kernel_object_pool_storage im) 64 31) (kernel_object_pool_storage im) (user_stack_pool_storage im) (Thread, c')"
      "g_first_switch (kst c') = 1" "map_option tcb_sp (tcb_at (kst c') (g_current (kst c'))) = Some (psp c')"
      "g_next (kst c') = g_current (kst c')" "pendsv (kst c')"
      "io c' SYST_CSR = 7" "io c' SYST_RVR = hz div 1000 - 1" by auto
  let ?t = "g_current (kst c')" and ?s = "(kst c')\<lparr>g_first_switch := 0\<rparr>"
  from c'(4) obtain n where n: "tcb_at (kst c') ?t = Some n" "psp c' = tcb_sp n" by auto
  have r: "can_run (kst c') ?t" using machine_inv_safe(4) [OF c'(2)] c'(5) by simp
  have nn: "?t \<noteq> NULL" using tcb_at_nonnull [OF n(1)] .
  have sv: "save_context c' = Some ?s" using c'(3) by (simp add: save_context_def)
  have tn: "tcb_at ?s ?t = Some n" using n(1) by (simp add: kstate_simps)
  then have cs: "os_commit_switch ?s = Some (put_tcb ?t (n\<lparr>tcb_state := OS_TASK_RUNNING\<rparr>) ?s)" (is "_ = Some ?s'")
    using nn c'(5) n(1) by (simp add: os_commit_switch_def upd_tcb_def kstate_simps)
  have "PendSV_Handler c' = Some (c'\<lparr>kst := ?s', r4_r11 := words_at (kst c') (tcb_sp n) 8, psp := tcb_sp n + 32, control := 3\<rparr>)"
    using nn unfolding PendSV_Handler_eq sv bind.bind_lunit cs by (simp add: kstate_simps words_at_def)
  then have "\<exists>d. PendSV_Handler c' = Some d \<and> mem (kst d) = mem (kst c') \<and> g_current (kst d) = ?t \<and>
      r4_r11 d = words_at (kst c') (tcb_sp n) 8 \<and> psp d = tcb_sp n + 32 \<and> control d = 3" by (simp add: kstate_simps)
  with c' n r show ?thesis by blast
qed

theorem boot_prepares_first_switch_witness:
  "\<exists>c' t. Reset_Handler sample_image (run_calls 0x08000101 0x08000201 sample_calls) (Some sample_clock) 72000000 0x20004F00
      (replicate 6 0) (reset_cpu sample) = Some c' \<and> g_current (kst c') = t \<and> can_run (kst c') t \<and> g_first_switch (kst c') = 1 \<and>
    io c' SYST_RVR = 71999 \<and> io c' SYST_CSR = 7"
proof -
  have ks: "list_all (call_ok ({}, dom (sem_at (kst (reset_cpu sample))), dom (mutex_at (kst (reset_cpu sample))))) sample_calls"
    by (simp add: reset_cpu_def sample_calls_def sample_mutex)
  have c: "control (reset_cpu sample) = 0" "length (r4_r11 (reset_cpu sample)) = 8" by (simp_all add: reset_cpu_def)
  have i: "task_start_trampoline sample_image = 0x08000101" "task_exit_trap sample_image = 0x08000201" by (simp_all add: sample_image_def)
  from boot_prepares_first_switch [OF sample_image_ok c _ _ ks, of "0x20004F00" "replicate 6 0" "Some sample_clock" 72000000]
  show ?thesis unfolding i by (simp add: sample_clock_starts) blast
qed

end
