(* ===== verification/Priority_View.thy ===== *)
theory Priority_View
  imports Machine Scheduler_Properties
begin

text \<open>
  The kernel as an application with fixed priorities sees it: of every task the priority, the base priority,
  whether it is blocked and the first mutex it owns. When one task that can run is more urgent than all
  others, the scheduler chooses it; the lemmas say how ticks, context switches, task creation, locking and
  unlocking change the view.
\<close>

type_synonym task_view = "os_task_priority_t \<times> os_task_priority_t \<times> bool \<times> addr"

definition task_view :: "os_tcb_t \<Rightarrow> task_view" where
  "task_view c = (tcb_priority c, tcb_base_priority c, tcb_state c = OS_TASK_BLOCKED, tcb_owned_mutexes c)"

definition views :: "astate \<Rightarrow> addr \<rightharpoonup> task_view" where
  "views a = (\<lambda>t. map_option task_view (a_tcb a t))"

definition mutex_view :: "astate \<Rightarrow> addr \<rightharpoonup> addr \<times> addr" where
  "mutex_view a = (\<lambda>m. map_option (\<lambda>x. (mtx_owner x, mtx_next_mutex x)) (mutex_at (kern a) m))"

text \<open>The one most urgent task that can run.\<close>

definition best :: "(addr \<rightharpoonup> task_view) \<Rightarrow> addr \<Rightarrow> bool" where
  "best V t \<longleftrightarrow> (\<exists>p b m. V t = Some (p, b, False, m) \<and>
     (\<forall>u q c n. u \<noteq> t \<longrightarrow> V u = Some (q, c, False, n) \<longrightarrow> p < q))"

lemma first_ready_best:
  assumes I: "lists_inv a" and b: "best (views a) t"
  shows "first_or (ready_order a) NULL = t"
proof -
  from b obtain c where c: "a_tcb a t = Some c" "tcb_state c \<noteq> OS_TASK_BLOCKED"
    and least: "\<And>u d. u \<noteq> t \<Longrightarrow> a_tcb a u = Some d \<Longrightarrow> tcb_state d \<noteq> OS_TASK_BLOCKED \<Longrightarrow> tcb_priority c < tcb_priority d"
    by (force simp: best_def views_def task_view_def)
  have "t \<in> set (ready_order a)" using c by (simp add: ready_order_iff [OF I])
  from first_ready [OF I this] obtain u p us where u: "first_or (ready_order a) NULL = u" "waitq a (ReadyQ p) = u # us"
    "\<forall>q<p. waitq a (ReadyQ q) = []" by blast
  from lists_inv_home [OF I, of u "ReadyQ p"] u(2) obtain d where d: "a_tcb a u = Some d" "home d = Some (ReadyQ p)" by auto
  then have "tcb_state d \<noteq> OS_TASK_BLOCKED"
    using lists_inv_tcb [OF I d(1)] by (auto simp: home_def tcb_ok_def waitable_def split: if_splits)
  moreover have "t \<in> set (waitq a (ReadyQ (tcb_priority c)))"
    using lists_inv_home [OF I, of t] c by (auto simp: home_def)
  then have "p \<le> tcb_priority c" using u(3) by (metis empty_iff list.set(1) not_le)
  moreover have "a_prio a u = p" by (rule ready_prio [OF I]) (simp add: u(2))
  then have "tcb_priority d = p" using d by (simp add: task_prio_def)
  ultimately show ?thesis using least [of u d] d u(1) by fastforce
qed

text \<open>\<open>t\<close> runs next, and runs unless a context switch is pending.\<close>

definition settled :: "astate \<Rightarrow> addr \<Rightarrow> bool" where
  "settled a t \<longleftrightarrow> best (views a) t \<and> g_next (kern a) = t \<and> g_current (kern a) \<noteq> NULL \<and>
     (pendsv (kern a) \<or> g_current (kern a) = t)"

lemma views_cong: "a_tcb b = a_tcb a \<Longrightarrow> views b = views a"
  by (simp add: views_def)

lemma views_upd:
  assumes "a_tcb b = (a_tcb a)(t \<mapsto> c)"
  shows "views b = (views a)(t \<mapsto> task_view c)"
  using assms by (auto simp: views_def)

lemma views_Some: "views a t = Some v \<longleftrightarrow> (\<exists>c. a_tcb a t = Some c \<and> task_view c = v)"
  by (simp add: views_def)

lemma best_runnable: "best (views a) t \<Longrightarrow> runnable a t"
  by (auto simp: best_def views_Some runnable_def task_view_def)

lemma views_masked [astate_simps]:
  "views (masked a) = views a" "views (unmasked k a) = views a"
  "mutex_view (masked a) = mutex_view a" "mutex_view (unmasked k a) = mutex_view a"
  "settled (masked a) t = settled a t" "settled (unmasked k a) t = settled a t"
  "views (a_schedule a) = views a" "views (a_schedule_and_pend a) = views a"
  "mutex_view (a_schedule a) = mutex_view a" "mutex_view (a_schedule_and_pend a) = mutex_view a"
  by (simp_all add: views_def mutex_view_def settled_def astate_simps)

lemma settled_schedule:
  assumes "lists_inv a" and "best (views a) t" and "g_current (kern a) \<noteq> NULL"
  shows "settled (a_schedule_and_pend a) t"
proof -
  have v: "views (a_schedule_and_pend a) = views a" by (simp add: astate_simps)
  show ?thesis
    using first_ready_best [OF assms(1,2)] assms(2,3) by (auto simp: settled_def v astate_simps)
qed

subsection \<open>Ticks and context switches\<close>

text \<open>A kernel in which nobody sleeps, with the free kernel objects \<open>xs\<close> and the free stacks \<open>ys\<close>.\<close>

definition calm :: "addr \<Rightarrow> addr \<Rightarrow> kstate \<Rightarrow> astate \<Rightarrow> addr list \<Rightarrow> addr list \<Rightarrow> bool" where
  "calm kb ub s a xs ys \<longleftrightarrow> kernel_rel s a \<and> kernel_inv a \<and> timeoutq a = [] \<and> pools_ok kb ub s xs ys"

text \<open>The same tasks, mutexes and waiters, in the view.\<close>

definition same_view :: "astate \<Rightarrow> astate \<Rightarrow> bool" where
  "same_view a b \<longleftrightarrow> views b = views a \<and> mutex_view b = mutex_view a \<and> (\<forall>m. waitq b (MutexQ m) = waitq a (MutexQ m))"

lemma calm_tick:
  assumes C: "calm kb ub s a xs ys" and t: "settled a t"
  shows "\<exists>s' a'. SysTick_Handler s = Some s' \<and> calm kb ub s' a' xs ys \<and> same_view a a' \<and> settled a' t"
proof -
  from C have R: "kernel_rel s a" and I: "kernel_inv a" and T: "timeoutq a = []" and P: "pools_ok kb ub s xs ys"
    by (simp_all add: calm_def)
  from SysTick_Handler_refines [OF R I] obtain s' where s': "SysTick_Handler s = Some s'" "kernel_rel s' (a_tick a)" by blast
  let ?b = "a_process_timeouts (a_kern (g_tick_update (\<lambda>_. g_tick (kern a) + 1)) a)"
  let ?r = "if g_current (kern ?b) \<noteq> NULL then a_rotate (g_current (kern ?b)) ?b else ?b"
  have b: "views ?b = views a" "mutex_view ?b = mutex_view a" "g_current (kern ?b) = g_current (kern a)" "timeoutq ?b = []"
    "waitq ?b = waitq a"
    using T by (simp_all add: a_process_timeouts_def views_def mutex_view_def astate_simps kstate_simps)
  have Ib: "kernel_inv ?b" by (rule a_process_timeouts_kernel_inv) (simp add: I)
  then have "kernel_inv ?r" by (simp add: kernel_inv_rotate)
  from kernel_invD(2) [OF this] have "settled (a_schedule_and_pend ?r) t"
    using t b by (intro settled_schedule) (simp_all add: settled_def views_def astate_simps)
  moreover have "a_tick a = a_schedule_and_pend ?r" by (simp add: a_tick_def Let_def)
  moreover have "same_view a (a_schedule_and_pend ?r)"
    using b by (simp add: same_view_def views_def mutex_view_def astate_simps a_rotate_waitq)
  moreover have "calm kb ub s' (a_tick a) xs ys"
    using s' a_tick_inv [OF I] pools_ok_advances [OF R s'(2) keeps_advances [OF keeps_tick [OF I]] P] b(4)
    by (simp add: calm_def a_tick_def Let_def astate_simps)
  ultimately show ?thesis using s' by auto
qed

lemma views_commit:
  assumes "next_ok a"
  shows "views (a_commit a) = views a"
proof (cases "g_next (kern a) = NULL")
  case True
  then show ?thesis by (simp add: a_commit_def Let_def)
next
  case False
  with assms obtain c where "a_tcb a (g_next (kern a)) = Some c" "tcb_state c \<noteq> OS_TASK_BLOCKED"
    by (auto simp: next_ok_def)
  with False show ?thesis
    by (auto simp: a_commit_def Let_def views_def task_view_def fun_eq_iff astate_simps kstate_simps option.map_comp o_def)
qed

lemma calm_switch:
  assumes C: "calm kb ub s a xs ys" and t: "settled a t"
  shows "\<exists>s' a'. os_commit_switch (s\<lparr>pendsv := False\<rparr>) = Some s' \<and> calm kb ub s' a' xs ys \<and> same_view a a' \<and> settled a' t"
proof -
  let ?s = "s\<lparr>pendsv := False\<rparr>" and ?a = "a_kern (pendsv_update (\<lambda>_. False)) a"
  from C have R: "kernel_rel s a" and I: "kernel_inv a" and T: "timeoutq a = []" and P: "pools_ok kb ub s xs ys"
    by (simp_all add: calm_def)
  have R1: "kernel_rel ?s ?a" by (rule kernel_rel_pendsv [OF R])
  have I1: "kernel_inv ?a" using I by simp
  have "get_pool ?s = get_pool s" by (rule ext, rename_tac q, case_tac q) simp_all
  then have P1: "pools_ok kb ub ?s xs ys" by (rule pools_ok_frame [OF P]) (simp_all add: kstate_simps)
  have v: "views ?a = views a" "mutex_view ?a = mutex_view a" "g_next (kern ?a) = t" "t \<noteq> NULL"
    using t best_runnable [of a t] by (auto simp: views_def mutex_view_def settled_def astate_simps kstate_simps runnable_def)
  from commit_refines [OF R1 kernel_invD(1) [OF I1]] obtain s' where
    s': "os_commit_switch ?s = Some s'" "kernel_rel s' (a_commit ?a)" by blast
  have "views (a_commit ?a) = views a" using views_commit [OF kernel_invD(3) [OF I1]] v by simp
  moreover have "pendsv (kern (a_commit ?a)) = False"
    by (simp add: a_commit_def Let_def astate_simps kstate_simps)
  moreover have "mutex_view (a_commit ?a) = mutex_view a" by (simp add: mutex_view_def astate_simps kstate_simps)
  moreover note a_commit_effect(4,5) [of ?a]
  ultimately have "settled (a_commit ?a) t" "same_view a (a_commit ?a)"
    using t v by (simp_all add: settled_def same_view_def astate_simps)
  moreover have "calm kb ub s' (a_commit ?a) xs ys"
    using s' kernel_inv_commit [OF I1] pools_ok_commit [OF R1 s'(2,1) _ P1] T v by (simp add: calm_def astate_simps)
  ultimately show ?thesis using s'(1) by blast
qed

subsection \<open>Task creation\<close>

lemma calm_create:
  assumes C: "calm kb ub s a (u # xs) (stk # ys)" and v: "args \<noteq> NULL" "create_args s args = Some r"
    "arg_entry r \<noteq> NULL" "arg_priority r \<le> OS_TASK_IDLE" "16 \<le> unat (arg_stack_words r)" "arg_stack_words r \<le> OS_TASK_STACK_WORDS"
    and t: "best ((views a)(u \<mapsto> (arg_priority r, arg_priority r, False, NULL))) t" and c: "g_current (kern a) \<noteq> NULL"
  shows "\<exists>s' a'. os_kernel_task_create tr ex args s = Some (0, s') \<and> calm kb ub s' a' xs ys \<and>
    views a' = (views a)(u \<mapsto> (arg_priority r, arg_priority r, False, NULL)) \<and>
    mutex_view a' = mutex_view a \<and> (\<forall>m. waitq a' (MutexQ m) = waitq a (MutexQ m)) \<and> settled a' t \<and> views a u = None"
proof -
  from C have R: "kernel_rel s a" and I: "kernel_inv a" and T: "timeoutq a = []" and P: "pools_ok kb ub s (u # xs) (stk # ys)"
    by (simp_all add: calm_def)
  from create_success_grows [OF R I v P, of tr ex] obtain s' a' sp where s': "os_kernel_task_create tr ex args s = Some (0, s')"
    and a': "kernel_rel s' a'" "kernel_inv a'" "grows a a'" "pools_ok kb ub s' xs ys"
      "a_tcb a' = (a_tcb a)(u \<mapsto> new_task sp (arg_priority r))" "tcb_at s u = None"
      "waitq a' = (waitq a)(ReadyQ (arg_priority r) := waitq a (ReadyQ (arg_priority r)) @ [u])" "timeoutq a' = timeoutq a"
      "mutex_at (kern a') = mutex_at (kern a)" "g_next (kern a') = first_or (ready_order a') NULL"
      "g_current (kern a) \<noteq> NULL \<and> g_next (kern a') \<noteq> g_current (kern a) \<longrightarrow> pendsv (kern a')" by blast
  have V: "views a' = (views a)(u \<mapsto> (arg_priority r, arg_priority r, False, NULL))"
    using views_upd [OF a'(5)] by (simp add: task_view_def new_task_def)
  have "g_next (kern a') = t" using first_ready_best [OF kernel_invD(2) [OF a'(2)], of t] t a'(10) V by simp
  then have "settled a' t" using t c a'(3,11) V by (auto simp: settled_def grows_def)
  moreover have "views a u = None" using kernel_rel_tcb_None [OF R] a'(6) by (simp add: views_def)
  moreover have "calm kb ub s' a' xs ys" using a' T by (simp add: calm_def)
  moreover have "mutex_view a' = mutex_view a" using a'(9) by (simp add: mutex_view_def)
  ultimately show ?thesis using s' V a'(7) by auto
qed

subsection \<open>Locking\<close>

lemma calm_service:
  assumes C: "calm kb ub s a xs ys" and a': "kernel_rel s' (unmasked k a')" "kernel_inv a'" "advances (masked a) a'"
    and "timeoutq a' = timeoutq a"
  shows "calm kb ub s' (unmasked k a') xs ys"
proof -
  from C have R: "kernel_rel s a" and P: "pools_ok kb ub s xs ys" by (simp_all add: calm_def)
  have "advances a (unmasked k a')" using a'(3) by (blast intro: advances_trans advances_masked)
  from pools_ok_advances [OF R a'(1) this P] assms show ?thesis by (simp add: calm_def astate_simps)
qed

lemma calm_lock_free:
  assumes C: "calm kb ub s a xs ys" and t: "settled a t" "g_current (kern a) = t" "views a t = Some (p, b, False, n)"
    and m: "mutex_view a m = Some (NULL, x)"
  shows "\<exists>s' a'. os_kernel_mutex_lock m s = Some (0, s') \<and> calm kb ub s' a' xs ys \<and> settled a' t \<and>
    views a' = (views a)(t \<mapsto> (p, b, False, m)) \<and> mutex_view a' = (mutex_view a)(m \<mapsto> (t, n)) \<and>
    waitq a' = waitq a \<and> g_current (kern a') = t"
proof -
  from C have R: "kernel_rel s a" and I: "kernel_inv a" by (simp_all add: calm_def)
  from t(3) obtain c where c: "a_tcb a t = Some c" "task_view c = (p, b, False, n)" by (auto simp: views_Some)
  then have cur: "current_runnable a" using t(2) by (simp add: current_runnable_def task_view_def)
  from m obtain y where y: "mutex_at (kern a) m = Some y" "mtx_owner y = NULL" by (auto simp: mutex_view_def)
  have nn: "m \<noteq> NULL" using y(1) by auto
  let ?a = "snd (a_lock m (masked a))"
  from mutex_lock.call_returns [of m, OF nn R I cur] y obtain s' where
    s': "os_kernel_mutex_lock m s = Some (fst (a_lock m (masked a)), s')" "kernel_rel s' (unmasked (primask s) ?a)" "kernel_inv ?a"
    by (auto simp: prod_eq_iff)
  have l: "a_lock m (masked a) = (0, a_add_owned t m (a_kern (map_mutex m (\<lambda>x. x\<lparr>mtx_owner := t\<rparr>)) (masked a)))"
    using y t(2) by (simp add: a_lock_def astate_simps)
  have "advances (masked a) ?a" using I cur by (intro advances_lock) (simp_all add: astate_simps)
  then have C': "calm kb ub s' (unmasked (primask s) ?a) xs ys"
    using calm_service [OF C s'(2,3)] by (simp add: l a_add_owned_simps astate_simps)
  have V: "views ?a = (views a)(t \<mapsto> (p, b, False, m))" "mutex_view ?a = (mutex_view a)(m \<mapsto> (t, n))"
    using c y
    by (auto simp: l views_def mutex_view_def task_view_def a_add_owned_def astate_simps kstate_simps fun_eq_iff)
  moreover have "best (views ?a) t" using t(1,3) unfolding V settled_def best_def by auto
  ultimately show ?thesis
    using C' s'(1) t(1,2)
    by (intro exI [of _ s'] exI [of _ "unmasked (primask s) ?a"])
      (simp add: settled_def astate_simps l a_add_owned_simps kstate_simps)
qed

text \<open>An update of a field the view does not show.\<close>

lemma views_upd_hidden:
  assumes "\<And>c. task_view (f c) = task_view c"
  shows "views (a_upd t f a) = views a"
  using assms by (auto simp: views_def astate_simps fun_eq_iff option.map_comp o_def)

lemma views_boost:
  assumes "lists_inv a" and "views a w = Some (q, b, k, n)" and "p < NUM_PRIORITIES"
  shows "views (a_boost w p a) = (views a)(w \<mapsto> (min p q, b, k, n))"
proof -
  from assms(2) obtain c where c: "a_tcb a w = Some c" "task_view c = (q, b, k, n)" by (auto simp: views_Some)
  from a_boost_tcb [OF assms(1) c(1), of p] assms(3) views_upd [of "a_boost w p a" a w] c(2) show ?thesis
    by (auto simp: task_view_def)
qed

lemma views_block:
  assumes "views a (g_current (kern a)) = Some (p, b, k, n)"
  shows "views (a_block q ticks po a) = (views a)(g_current (kern a) \<mapsto> (p, b, True, n))"
proof -
  from assms obtain c where c: "a_tcb a (g_current (kern a)) = Some c" "task_view c = (p, b, k, n)" by (auto simp: views_Some)
  from a_block_tcb [OF c(1), of q ticks po] views_upd [of "a_block q ticks po a" a "g_current (kern a)"] c(2) show ?thesis
    by (auto simp: task_view_def set_blocked_def)
qed

lemma views_add_owned:
  assumes "views a t = Some (p, b, k, n)"
  shows "views (a_add_owned t m a) = (views a)(t \<mapsto> (p, b, k, m))"
    and "mutex_view a m = Some (w, x) \<Longrightarrow> mutex_view (a_add_owned t m a) = (mutex_view a)(m \<mapsto> (w, n))"
  using assms
  by (auto simp: views_def mutex_view_def task_view_def a_add_owned_def astate_simps kstate_simps fun_eq_iff)

lemma lock_wait_view:
  assumes I: "kernel_inv a" and t: "g_current (kern a) = t" "views a t = Some (p, b, False, n)"
    and m: "mutex_view a m = Some (w, x)" "w \<noteq> NULL" "w \<noteq> t" and w: "views a w = Some (q, c, k, l)"
  defines "a' \<equiv> a_lock_wait m w a"
  shows "views a' = (views a)(w \<mapsto> (min p q, c, k, l), t \<mapsto> (p, b, True, m))"
    and "mutex_view a' = (mutex_view a)(m \<mapsto> (w, n))" and "timeoutq a' = timeoutq a"
    and "g_next (kern a') = first_or (ready_order a') NULL"
proof -
  let ?a1 = "a_upd t (\<lambda>c. c\<lparr>tcb_blocked_on := m\<rparr>) a"
  let ?a2 = "a_boost w p ?a1"
  let ?a3 = "a_block (MutexQ m) OS_WAIT_FOREVER True ?a2"
  let ?a4 = "a_upd t (\<lambda>c. c\<lparr>tcb_blocked_on := NULL\<rparr>) ?a3"
  from t(2) obtain d where d: "a_tcb a t = Some d" "tcb_priority d = p" by (auto simp: views_Some task_view_def)
  then have pr: "a_prio a t = p" by (simp add: task_prio_def)
  then have a': "a' = a_add_owned t m ?a4" by (simp add: a'_def a_lock_wait_def Let_def t(1))
  have p: "p < NUM_PRIORITIES" using lists_inv_tcb [OF kernel_invD(2) [OF I] d(1)] d(2) by (simp add: tcb_ok_def)
  have v1: "views ?a1 = views a" by (rule views_upd_hidden) (simp add: task_view_def)
  have "objects_inv ?a1" by (rule objects_inv_keeps) (simp_all add: kernel_invD [OF I])
  then have L1: "lists_inv ?a1" by (rule objects_invD)
  have v2: "views ?a2 = (views a)(w \<mapsto> (min p q, c, k, l))" using views_boost [OF L1 _ p, of w] w v1 by simp
  have g2: "g_current (kern ?a2) = t" using t(1) by (simp add: astate_simps)
  have v3: "views ?a3 = (views a)(w \<mapsto> (min p q, c, k, l), t \<mapsto> (p, b, True, n))"
    using views_block [of ?a2 p b False n "MutexQ m" OS_WAIT_FOREVER True] v2 g2 t(2) m(3) by simp
  have v4: "views ?a4 = views ?a3" by (rule views_upd_hidden) (simp add: task_view_def)
  have m4: "mutex_view ?a4 = mutex_view a" by (simp add: mutex_view_def astate_simps)
  show "views a' = (views a)(w \<mapsto> (min p q, c, k, l), t \<mapsto> (p, b, True, m))"
    using views_add_owned(1) [of ?a4 t p b True n m] v3 v4 by (simp add: a')
  show "mutex_view a' = (mutex_view a)(m \<mapsto> (w, n))"
    using views_add_owned(2) [of ?a4 t p b True n m w x] v3 v4 m4 m(1) by (simp add: a')
  show "timeoutq a' = timeoutq a"
    by (simp add: a' a_add_owned_simps astate_simps a_block_def Let_def a_arm_def a_ready_remove_def a_boost_def a_join_def)
  from a_block_schedules [of "MutexQ m" OS_WAIT_FOREVER True ?a2] obtain e where e: "?a3 = a_schedule_and_pend e" by blast
  then show "g_next (kern a') = first_or (ready_order a') NULL"
    by (simp add: a' a_add_owned_simps astate_simps ready_order_def)
qed

lemma calm_lock_wait:
  assumes C: "calm kb ub s a xs ys" and t: "g_current (kern a) = t" "views a t = Some (p, b, False, n)"
    and m: "mutex_view a m = Some (w, x)" "w \<noteq> NULL" "w \<noteq> t" and w: "views a w = Some (q, c, k, l)"
    and u: "best ((views a)(w \<mapsto> (min p q, c, k, l), t \<mapsto> (p, b, True, m))) u"
  shows "\<exists>s' a'. os_kernel_mutex_lock m s = Some (0, s') \<and> calm kb ub s' a' xs ys \<and> settled a' u \<and>
    views a' = (views a)(w \<mapsto> (min p q, c, k, l), t \<mapsto> (p, b, True, m)) \<and> mutex_view a' = (mutex_view a)(m \<mapsto> (w, n)) \<and>
    waitq a' (MutexQ m) = insert_prio (a_prio a) t (waitq a (MutexQ m))"
proof -
  from C have R: "kernel_rel s a" and I: "kernel_inv a" by (simp_all add: calm_def)
  from t have cur: "current_runnable a" by (auto simp: current_runnable_def views_Some task_view_def)
  from m obtain y where y: "mutex_at (kern a) m = Some y" "mtx_owner y = w" by (auto simp: mutex_view_def)
  have nn: "m \<noteq> NULL" "t \<noteq> NULL" using y(1) t(2) by (auto simp: views_Some)
  let ?a = "a_lock_wait m w (masked a)"
  have l: "a_lock m (masked a) = (0, ?a)" using y m t(1) by (simp add: a_lock_def astate_simps)
  from mutex_lock.call_returns [of m, OF nn(1) R I cur] y l obtain s' where
    s': "os_kernel_mutex_lock m s = Some (0, s')" "kernel_rel s' (unmasked (primask s) ?a)" "kernel_inv ?a" by auto
  have M: "kernel_inv (masked a)" "current_runnable (masked a)" "mutex_at (kern (masked a)) m = Some y"
    using I cur y by (simp_all add: astate_simps)
  have o: "mtx_owner y \<noteq> NULL" "mtx_owner y \<noteq> g_current (kern (masked a))" using y m t(1) by (simp_all add: astate_simps)
  note E = a_lock_wait_effect [OF M o, unfolded y(2)]
  have V: "views ?a = (views a)(w \<mapsto> (min p q, c, k, l), t \<mapsto> (p, b, True, m))" "mutex_view ?a = (mutex_view a)(m \<mapsto> (w, n))"
    "timeoutq ?a = timeoutq a" "g_next (kern ?a) = first_or (ready_order ?a) NULL"
    using lock_wait_view [OF M(1), of t p b n m w x q c k l] t m w by (simp_all add: astate_simps)
  have adv: "advances (masked a) ?a" using advances_lock_wait [OF M o] y(2) by simp
  then have "g_current (kern ?a) = t" using t(1) by (simp add: advances_def astate_simps)
  then have "settled ?a u"
    using first_ready_best [OF kernel_invD(2) [OF s'(3)], of u] u V E(4) nn(2) by (simp add: settled_def)
  moreover have "waitq ?a (MutexQ m) = insert_prio (a_prio a) t (waitq a (MutexQ m))"
    using E(1) t(1) by (simp add: astate_simps a_prio_masked)
  ultimately show ?thesis
    using s' V calm_service [OF C s'(2,3) adv V(3)]
    by (intro exI [of _ s'] exI [of _ "unmasked (primask s) ?a"]) (simp add: astate_simps)
qed

subsection \<open>Unlocking\<close>

text \<open>A task that owns no other mutex takes the only one off its list and falls back to its base priority.\<close>

lemma unlock_sole_refines:
  assumes R: "kernel_rel s a" and I: "kernel_inv a" and c: "current_runnable a"
    and t: "g_current (kern a) = t" "a_tcb a t = Some d" "tcb_owned_mutexes d = m"
    and m: "mutex_at (kern a) m = Some x" "mtx_owner x = t" "mtx_next_mutex x = NULL"
  defines "b \<equiv> a_kern (map_mutex m (\<lambda>x. x\<lparr>mtx_next_mutex := NULL\<rparr>)) (a_upd t (\<lambda>c. c\<lparr>tcb_owned_mutexes := NULL\<rparr>) a)"
  defines "a' \<equiv> a_hand_over m (a_set_priority t (tcb_base_priority d) b)"
  shows "\<exists>s'. unlock_body m s = Some (0, s') \<and> kernel_rel s' a'" and "kernel_inv b" and "kernel_inv a'"
proof -
  let ?a1 = "a_upd t (\<lambda>c. c\<lparr>tcb_owned_mutexes := NULL\<rparr>) a"
  have nn: "m \<noteq> NULL" using m(1) by auto
  from m(1) kernel_rel_mutex(1) [OF R] obtain y where y: "mutex_at s m = Some y" by fastforce
  with kernel_rel_mutex(2) [OF R y] m have yo: "mtx_owner y = t" "mtx_next_mutex y = NULL" by simp_all
  from kernel_rel_tcbD [OF R t(2)] obtain e where e: "tcb_at s t = Some e" "blank_tcb e = d" by blast
  have eo: "tcb_owned_mutexes e = m" using e(2) t(3) by (metis blank_tcb_fields(6))
  have v: "valid_task a t" using t(2) by (simp add: valid_task_def)
  from upd_tcb_refines [OF R v, of "\<lambda>c. c\<lparr>tcb_owned_mutexes := NULL\<rparr>"] obtain s1 where
    s1: "upd_tcb t (\<lambda>c. c\<lparr>tcb_owned_mutexes := NULL\<rparr>) s = Some s1" "kernel_rel s1 ?a1" by auto
  have m1: "mutex_at (kern ?a1) m \<noteq> None" using m(1) by (simp add: astate_simps)
  from upd_mutex_refines [OF s1(2) m1, of "\<lambda>x. x\<lparr>mtx_next_mutex := NULL\<rparr>"] obtain s2 where
    s2: "upd_mutex m (\<lambda>x. x\<lparr>mtx_next_mutex := NULL\<rparr>) s1 = Some s2" "kernel_rel s2 b" unfolding b_def by auto
  have rem: "os_mutex_remove_from_owned t m s = Some s2"
    using e eo y yo s1(1) s2(1) nn by (simp add: os_mutex_remove_from_owned_def remove_owned_loop.simps)
  have rel: "relinked a b" unfolding b_def by (intro relinked_next relinked_owned relinked_refl m1)
  show K: "kernel_inv b" by (rule relinked_kernel_inv [OF rel I])
  have vb: "valid_task b t" "mutex_at (kern b) m \<noteq> None" using v m(1) by (simp_all add: b_def astate_simps kstate_simps)
  have tb: "a_tcb b t = Some (d\<lparr>tcb_owned_mutexes := NULL\<rparr>)" using t(2) by (simp add: b_def astate_simps kstate_simps)
  from kernel_rel_tcbD [OF s2(2) tb] obtain f where f: "tcb_at s2 t = Some f" "blank_tcb f = d\<lparr>tcb_owned_mutexes := NULL\<rparr>" by blast
  have "tcb_owned_mutexes f = NULL" "tcb_base_priority f = tcb_base_priority d"
    using arg_cong [OF f(2), of tcb_owned_mutexes] arg_cong [OF f(2), of tcb_base_priority] by simp_all
  then have rc: "os_mutex_recompute_priority t s2 = Some (tcb_base_priority d)"
    using f(1) by (simp add: os_mutex_recompute_priority_def recompute_loop.simps)
  note rest = unlock_rest [OF s2(2) K vb, of "tcb_base_priority d", folded a'_def]
  from rest(1) obtain s3 where s3: "(os_task_set_priority t (tcb_base_priority d) s2 \<bind> hand_over m) = Some s3" "kernel_rel s3 a'" by blast
  have g: "g_current s = t" "g_current s2 = t"
    using kernel_rel_globals [OF R] kernel_rel_globals [OF s2(2)] t(1) by (simp_all add: b_def astate_simps kstate_simps)
  have "unlock_body m s = Some (0, s3)"
    using y yo rem rc s3(1) g by (auto simp: unlock_body_def split: bind_splits)
  with s3(2) show "\<exists>s'. unlock_body m s = Some (0, s') \<and> kernel_rel s' a'" by blast
  show "kernel_inv a'" by (rule rest(2))
qed

lemma unlock_sole_view:
  assumes I: "kernel_inv b" and t: "views b t = Some (p, q, False, n)"
  defines "e \<equiv> a_set_priority t q b"
  assumes q: "q < NUM_PRIORITIES"
  shows "kernel_inv e" "views e = (views b)(t \<mapsto> (q, q, False, n))" "mutex_view e = mutex_view b"
    "waitq e (MutexQ m) = waitq b (MutexQ m)"
proof -
  from t obtain d where d: "a_tcb b t = Some d" "task_view d = (p, q, False, n)" by (auto simp: views_Some)
  have v: "valid_task b t" using d(1) by (simp add: valid_task_def)
  show "kernel_inv e" unfolding e_def by (rule kernel_inv_set_priority [OF I v])
  have "a_tcb e = (a_tcb b)(t \<mapsto> d\<lparr>tcb_priority := q\<rparr>)"
    using a_set_priority_tcb [OF kernel_invD(2) [OF I] d(1), of q] q by (simp add: e_def)
  from views_upd [OF this] d(2) show "views e = (views b)(t \<mapsto> (q, q, False, n))" by (auto simp: task_view_def)
  show "mutex_view e = mutex_view b" by (simp add: e_def mutex_view_def astate_simps)
  have "t \<notin> set (waitq b (MutexQ m))"
    using lists_inv_home [OF kernel_invD(2) [OF I], of t "MutexQ m"] d by (auto simp: home_def task_view_def)
  with a_set_priority_waitq_other [OF kernel_invD(2) [OF I] v, of "MutexQ m" q]
  show "waitq e (MutexQ m) = waitq b (MutexQ m)" by (simp add: e_def waitable_def)
qed

lemma hand_over_view:
  assumes I: "kernel_inv e" and m: "mutex_view e m = Some (o', x)"
  shows "waitq e (MutexQ m) = [] \<Longrightarrow> views (a_hand_over m e) = views e \<and> mutex_view (a_hand_over m e) = (mutex_view e)(m \<mapsto> (NULL, x))"
    and "waitq e (MutexQ m) = w # ws \<Longrightarrow> views e w = Some (q, c, k, l) \<Longrightarrow>
      views (a_hand_over m e) = (views e)(w \<mapsto> (q, c, False, l)) \<and> mutex_view (a_hand_over m e) = (mutex_view e)(m \<mapsto> (w, x))"
    and "timeoutq (a_hand_over m e) = timeoutq e"
proof -
  show "views (a_hand_over m e) = views e \<and> mutex_view (a_hand_over m e) = (mutex_view e)(m \<mapsto> (NULL, x))" if "waitq e (MutexQ m) = []"
    using that m by (auto simp: a_hand_over_def views_def mutex_view_def astate_simps kstate_simps fun_eq_iff)
  have q: "waitable (MutexQ m)" "MutexQ m \<noteq> SleepQ" by (simp_all add: waitable_def)
  have wake: "views (a_hand_over m e) = (views e)(w \<mapsto> (q, c, False, l)) \<and> mutex_view (a_hand_over m e) = (mutex_view e)(m \<mapsto> (w, x))"
    if w: "waitq e (MutexQ m) = w # ws" "views e w = Some (q, c, k, l)" for w ws q c k l
  proof -
    from w(2) obtain d where d: "a_tcb e w = Some d" "task_view d = (q, c, k, l)" by (auto simp: views_Some)
    from views_upd [OF a_wake_one_Cons(2) [OF kernel_invD(2) [OF I] q w(1) d(1)]] d(2)
    have "views (snd (a_wake_one (MutexQ m) e)) = (views e)(w \<mapsto> (q, c, False, l))"
      by (auto simp: task_view_def set_woken_def)
    moreover have "views (a_kern (map_mutex m f) y) = views y" for f y by (simp add: views_def astate_simps kstate_simps)
    ultimately show ?thesis
      using w(1) m by (auto simp: a_hand_over_def mutex_view_def astate_simps kstate_simps fun_eq_iff)
  qed
  then show "waitq e (MutexQ m) = w # ws \<Longrightarrow> views e w = Some (q, c, k, l) \<Longrightarrow>
      views (a_hand_over m e) = (views e)(w \<mapsto> (q, c, False, l)) \<and> mutex_view (a_hand_over m e) = (mutex_view e)(m \<mapsto> (w, x))" .
  show "timeoutq (a_hand_over m e) = timeoutq e"
  proof (cases "waitq e (MutexQ m)")
    case (Cons w ws)
    from wake_one_pre [OF kernel_invD(2) [OF I] q Cons] obtain d where "a_tcb e w = Some d" by blast
    from a_wake_one_Cons(4) [OF kernel_invD(2) [OF I] q Cons this] Cons show ?thesis
      by (simp add: a_hand_over_def astate_simps)
  qed (simp add: a_hand_over_def astate_simps)
qed

lemma calm_unlock:
  assumes C: "calm kb ub s a xs ys" and t: "g_current (kern a) = t" "views a t = Some (p, q, False, m)"
    and m: "mutex_view a m = Some (t, NULL)"
  obtains s' e where "os_kernel_mutex_unlock m s = Some (0, s')" "calm kb ub s' (unmasked (primask s) (a_hand_over m e)) xs ys"
    "kernel_inv e" "views e = (views a)(t \<mapsto> (q, q, False, NULL))" "mutex_view e = mutex_view a"
    "waitq e (MutexQ m) = waitq a (MutexQ m)" "g_next (kern e) = g_next (kern a)" "g_current (kern e) = t"
    "pendsv (kern e) = pendsv (kern a)"
proof -
  from C have R: "kernel_rel s a" and I: "kernel_inv a" by (simp_all add: calm_def)
  let ?a = "masked a"
  from t(2) obtain d where d: "a_tcb ?a t = Some d" "task_view d = (p, q, False, m)" by (auto simp: views_Some astate_simps)
  from m obtain x where x: "mutex_at (kern ?a) m = Some x" "mtx_owner x = t" "mtx_next_mutex x = NULL"
    by (auto simp: mutex_view_def astate_simps)
  have M: "kernel_inv ?a" "current_runnable ?a" "g_current (kern ?a) = t" "tcb_owned_mutexes d = m"
    using I t(1) d by (auto simp: astate_simps current_runnable_def task_view_def)
  let ?b = "a_kern (map_mutex m (\<lambda>x. x\<lparr>mtx_next_mutex := NULL\<rparr>)) (a_upd t (\<lambda>c. c\<lparr>tcb_owned_mutexes := NULL\<rparr>) ?a)"
  let ?e = "a_set_priority t q ?b"
  have q: "tcb_base_priority d = q" "q < NUM_PRIORITIES"
    using d(2) lists_inv_tcb [OF kernel_invD(2) [OF M(1)] d(1)] by (auto simp: task_view_def tcb_ok_def)
  note u = unlock_sole_refines [OF kernel_rel_masked [OF R] M(1-3) d(1) M(4) x, unfolded q(1)]
  from u(1) obtain s1 where s1: "unlock_body m (s\<lparr>primask := 1\<rparr>) = Some (0, s1)" "kernel_rel s1 (a_hand_over m ?e)" by blast
  have nn: "m \<noteq> NULL" using x(1) by auto
  let ?s = "os_port_irq_restore (primask s) s1"
  have call: "os_kernel_mutex_unlock m s = Some (0, ?s)" using s1(1) by (simp add: mutex_unlock.call_body [OF nn])
  have Vb: "views ?b = (views a)(t \<mapsto> (p, q, False, NULL))" "mutex_view ?b = mutex_view a"
    using d x by (auto simp: views_def mutex_view_def task_view_def astate_simps kstate_simps fun_eq_iff)
  note E = unlock_sole_view [OF u(2), of t p q NULL, OF _ q(2)]
  have "relinked ?a ?b" by (intro relinked_next relinked_owned relinked_refl) (use x in \<open>simp add: astate_simps\<close>)
  then have "unlock_spec m ?a 0 (a_hand_over m ?e)" using x M(3) by (auto simp: unlock_spec_def)
  then have adv: "advances ?a (a_hand_over m ?e)" by (rule advances_unlock [OF M(1,2)])
  have me: "mutex_view ?e m = Some (t, NULL)" using E(3) Vb m by simp
  have T: "timeoutq (a_hand_over m ?e) = timeoutq a"
    using hand_over_view(3) [OF E(1) me] Vb(1) by (simp add: astate_simps)
  have "calm kb ub ?s (unmasked (primask s) (a_hand_over m ?e)) xs ys"
    by (rule calm_service [OF C kernel_rel_unmasked [OF s1(2)] u(3) adv T])
  then show ?thesis
    by (rule that [OF call]) (use E Vb t(1) in \<open>simp_all add: astate_simps kstate_simps\<close>)
qed

lemma calm_unlock_free:
  assumes C: "calm kb ub s a xs ys" and t: "settled a t" "g_current (kern a) = t" "views a t = Some (p, q, False, m)"
    and m: "mutex_view a m = Some (t, NULL)" "waitq a (MutexQ m) = []" and b: "best ((views a)(t \<mapsto> (q, q, False, NULL))) t"
  shows "\<exists>s' a'. os_kernel_mutex_unlock m s = Some (0, s') \<and> calm kb ub s' a' xs ys \<and> settled a' t \<and>
    views a' = (views a)(t \<mapsto> (q, q, False, NULL)) \<and> mutex_view a' = (mutex_view a)(m \<mapsto> (NULL, NULL)) \<and> waitq a' (MutexQ m) = []"
proof -
  from C t(2,3) m(1) obtain s' e where s': "os_kernel_mutex_unlock m s = Some (0, s')"
    "calm kb ub s' (unmasked (primask s) (a_hand_over m e)) xs ys" and e: "kernel_inv e"
    "views e = (views a)(t \<mapsto> (q, q, False, NULL))" "mutex_view e = mutex_view a"
    "waitq e (MutexQ m) = waitq a (MutexQ m)" "g_next (kern e) = g_next (kern a)" "g_current (kern e) = t"
    "pendsv (kern e) = pendsv (kern a)" by (rule calm_unlock)
  have w: "waitq e (MutexQ m) = []" using e m by simp
  have "mutex_view e m = Some (t, NULL)" using e m by simp
  from hand_over_view(1) [OF e(1) this w] have V: "views (a_hand_over m e) = views e"
    "mutex_view (a_hand_over m e) = (mutex_view e)(m \<mapsto> (NULL, NULL))" by simp_all
  have h: "a_hand_over m e = a_kern (map_mutex m (\<lambda>x. x\<lparr>mtx_owner := NULL\<rparr>)) e" using w by (simp add: a_hand_over_def)
  have "settled (a_hand_over m e) t"
    using t b e V(1) by (simp add: settled_def h astate_simps kstate_simps)
  moreover have "waitq (a_hand_over m e) (MutexQ m) = []" using w by (simp add: h astate_simps)
  ultimately show ?thesis
    using s' V e by (intro exI [of _ s'] exI [of _ "unmasked (primask s) (a_hand_over m e)"]) (simp add: astate_simps)
qed

lemma calm_unlock_wake:
  assumes C: "calm kb ub s a xs ys" and t: "g_current (kern a) = t" "views a t = Some (p, q, False, m)"
    and m: "mutex_view a m = Some (t, NULL)" "waitq a (MutexQ m) = w # ws" and w: "views a w = Some (r, c, True, l)"
    and b: "best ((views a)(t \<mapsto> (q, q, False, NULL), w \<mapsto> (r, c, False, l))) u"
  shows "\<exists>s' a'. os_kernel_mutex_unlock m s = Some (0, s') \<and> calm kb ub s' a' xs ys \<and> settled a' u \<and>
    views a' = (views a)(t \<mapsto> (q, q, False, NULL), w \<mapsto> (r, c, False, l)) \<and>
    mutex_view a' = (mutex_view a)(m \<mapsto> (w, NULL)) \<and> waitq a' (MutexQ m) = ws"
proof -
  from C t m(1) obtain s' e where s': "os_kernel_mutex_unlock m s = Some (0, s')"
    "calm kb ub s' (unmasked (primask s) (a_hand_over m e)) xs ys" and e: "kernel_inv e"
    "views e = (views a)(t \<mapsto> (q, q, False, NULL))" "mutex_view e = mutex_view a"
    "waitq e (MutexQ m) = waitq a (MutexQ m)" "g_next (kern e) = g_next (kern a)" "g_current (kern e) = t"
    "pendsv (kern e) = pendsv (kern a)" by (rule calm_unlock)
  have we: "waitq e (MutexQ m) = w # ws" "mutex_view e m = Some (t, NULL)" using e m by simp_all
  have "t \<noteq> w" using t(2) w by auto
  then have "views e w = Some (r, c, True, l)" using e w by simp
  from hand_over_view(2) [OF e(1) we(2,1) this] have V:
    "views (a_hand_over m e) = (views a)(t \<mapsto> (q, q, False, NULL), w \<mapsto> (r, c, False, l))"
    "mutex_view (a_hand_over m e) = (mutex_view a)(m \<mapsto> (w, NULL))" using e by simp_all
  from we(2) obtain x where x: "mutex_at (kern e) m = Some x" by (auto simp: mutex_view_def)
  have K: "kernel_inv (a_hand_over m e)" by (rule a_hand_over_inv [OF e(1) x])
  have tn: "t \<noteq> NULL" using t(2) by (auto simp: views_Some)
  have gn: "g_next (kern (a_hand_over m e)) = u"
    using a_hand_over_effect(4) [OF e(1) x we(1)] first_ready_best [OF kernel_invD(2) [OF K], of u] V b by simp
  have gc: "g_current (kern (a_hand_over m e)) = t" "pendsv (kern (a_hand_over m e)) \<or> u = t"
    using we(1) e gn by (auto simp: a_hand_over_def astate_simps kstate_simps)
  have "settled (a_hand_over m e) u" using V(1) b gn gc tn by (auto simp: settled_def)
  then show ?thesis
    using s' V a_hand_over_effect(2) [OF e(1) x] we(1)
    by (intro exI [of _ s'] exI [of _ "unmasked (primask s) (a_hand_over m e)"]) (simp add: astate_simps)
qed

end
