(* ===== verification/Boot_View.thy ===== *)
theory Boot_View
  imports Boot_Properties Priority_View
begin

text \<open>
  Start-up in the view of \<open>Priority_View\<close>: which tasks and mutexes an application finds when the scheduler starts. The
  kernel is not abstracted here; \<open>boot_sees V M s\<close> says what the tasks and mutexes of \<open>s\<close> look like and that nobody sleeps.
\<close>

definition boot_sees :: "(addr \<rightharpoonup> task_view) \<Rightarrow> (addr \<rightharpoonup> addr \<times> addr) \<Rightarrow> kstate \<Rightarrow> bool" where
  "boot_sees V M s \<longleftrightarrow> (\<forall>t. map_option task_view (tcb_at s t) = V t) \<and>
     (\<forall>m. map_option (\<lambda>x. (mtx_owner x, mtx_next_mutex x)) (mutex_at s m) = M m) \<and> g_timeout_queue s = emptyq"

lemma boot_sees_same: "sched_same s s' \<Longrightarrow> boot_sees V M s' = boot_sees V M s"
  by (simp add: boot_sees_def sched_same_def)

lemma task_view_blank [simp]: "task_view (blank_tcb c) = task_view c"
  by (simp add: task_view_def)

lemma boot_sees_iff:
  assumes "kernel_rel s a"
  shows "boot_sees V M s \<longleftrightarrow> views a = V \<and> mutex_view a = M \<and> timeoutq a = []"
proof -
  have k: "kern a = core s" using assms by (simp add: kernel_rel_def)
  have "dlist tcb_timeout_next tcb_timeout_prev (tcb_at s) (g_timeout_queue s) (timeoutq a)"
    using assms by (simp add: kernel_rel_def timeout_rel_def)
  then have "g_timeout_queue s = emptyq \<longleftrightarrow> timeoutq a = []"
    by (cases "timeoutq a") (auto simp: dlist_def emptyq_def intro: os_task_queue_t.equality)
  then show ?thesis
    by (simp add: boot_sees_def views_def mutex_view_def k tcb_at_core mutex_at_core fun_eq_iff option.map_comp o_def)
qed

lemma boot_create_view:
  assumes B: "boot_inv kb ub T c" and f: "kst_boot kb ub T (kst c) (t # xs) (stk # ys)" and n: "length rest = 6" "args \<noteq> NULL"
    and v: "entry \<noteq> NULL" "prio \<le> OS_TASK_IDLE" "16 \<le> unat words" "words \<le> OS_TASK_STACK_WORDS" and V: "boot_sees V M (kst c)"
  shows "\<exists>c'. os_task_create tr ex prio entry arg words args rest c = Some c' \<and> boot_inv kb ub T (exception_return c') \<and>
    kst_boot kb ub T (kst (exception_return c')) xs ys \<and> boot_sees (V(t \<mapsto> (prio, prio, False, NULL))) M (kst (exception_return c')) \<and> V t = None"
proof -
  from B n(1) obtain s us vs where q: "create_args s args = Some (create_request prio entry arg words)"
    and e: "os_task_create tr ex prio entry arg words args rest c = map_option
      (\<lambda>(r, s'). c\<lparr>msp := msp c - 32, kst := store_word (msp c - 32) (of_int r) s'\<rparr>) (os_kernel_task_create tr ex args s)"
    and k: "\<forall>us vs. kst_boot kb ub T (kst c) us vs \<longrightarrow> kst_boot kb ub T s us vs" "sched_same (kst c) s"
    by (rule boot_request [where args = args and prio = prio and entry = entry and arg = arg and words = words and tr = tr and ex = ex])
  from k(1) f obtain b where b: "kernel_rel s b" "boot_good T b" and P: "pools_ok kb ub s (t # xs) (stk # ys)"
    unfolding kst_boot_def by blast
  have Vb: "views b = V" "mutex_view b = M" "timeoutq b = []"
    using V boot_sees_same [OF k(2), of V M] boot_sees_iff [OF b(1), of V M] by simp_all
  from create_success_grows [OF b(1) _ n(2) q _ _ _ _ P, of tr ex] b(2) v obtain s' b' sp where
    s': "os_kernel_task_create tr ex args s = Some (0, s')" "kernel_rel s' b'" "kernel_inv b'" "grows b b'" "pools_ok kb ub s' xs ys"
      "a_tcb b' = (a_tcb b)(t \<mapsto> new_task sp prio)" "tcb_at s t = None" "timeoutq b' = timeoutq b" "mutex_at (kern b') = mutex_at (kern b)"
    by (auto simp: boot_good_def create_request_def)
  let ?s = "store_word (msp c - 32) (of_int 0) s'"
  have K: "kst_boot kb ub T s' xs ys" using s' boot_grows [OF b(2) s'(4,3)] by (auto simp: kst_boot_def)
  have "kst_boot kb ub T ?s xs ys"
    using kst_boot_store_words [OF K, of "msp c - 32" "[of_int 0]"] main_stack_free(2) [OF B K] by (simp add: word_addrs_def lessThan_Suc)
  moreover have "boot_sees (V(t \<mapsto> (prio, prio, False, NULL))) M s'"
    using boot_sees_iff [OF s'(2)] views_upd [OF s'(6)] Vb s'(8,9) by (simp add: mutex_view_def task_view_def new_task_def)
  then have "boot_sees (V(t \<mapsto> (prio, prio, False, NULL))) M ?s" using boot_sees_same [OF sched_same_fields(5)] by blast
  moreover have "V t = None" using s'(7) kernel_rel_tcb_None [OF b(1)] Vb(1) by (auto simp: views_def)
  ultimately show ?thesis using boot_inv_return [OF B K] s'(1) e by (auto simp: exception_return_def)
qed

lemma boot_mutex_view:
  assumes B: "boot_inv kb ub T c" and f: "kst_boot kb ub T (kst c) xs ys" and m: "m \<in> snd (snd T)" and V: "boot_sees V M (kst c)"
  shows "\<exists>r s' n. os_mutex_init m (kst c) = Some (r, s') \<and> boot_inv kb ub T (c\<lparr>kst := s'\<rparr>) \<and> kst_boot kb ub T s' xs ys \<and>
    boot_sees V (M(m \<mapsto> (NULL, n))) s'"
proof -
  from boot_mutex_init [OF B m] obtain r s' where s': "os_mutex_init m (kst c) = Some (r, s')" "boot_inv kb ub T (c\<lparr>kst := s'\<rparr>)" by blast
  from f obtain a where a: "kernel_rel (kst c) a" "boot_good T a" and P: "pools_ok kb ub (kst c) xs ys" by (auto simp: kst_boot_def)
  from a(2) m have "m \<in> dom (mutex_at (kern a))" by (auto simp: boot_good_def)
  then obtain x where x: "mutex_at (kst c) m = Some x" using a(1) by (auto simp: kernel_rel_def mutex_at_core)
  then have nn: "m \<noteq> NULL" by auto
  let ?x = "x\<lparr>mtx_owner := NULL, mtx_waiters := \<lparr>q_head = NULL, q_tail = NULL\<rparr>\<rparr>"
  have e: "s' = put_mutex m ?x (kst c)" using s'(1) x nn by (simp add: os_mutex_init_def upd_mutex_def)
  have p: "tcb_at s' = tcb_at (kst c)" "mutex_at s' = (mutex_at (kst c))(m \<mapsto> ?x)" "g_timeout_queue s' = g_timeout_queue (kst c)"
    using nn by (auto simp: e put_mutex_def tcb_at_def mutex_at_def fun_eq_iff)
  have "get_pool s' = get_pool (kst c)" unfolding e put_mutex_def by (rule ext, rename_tac q, case_tac q) simp_all
  then have "pools_ok kb ub s' xs ys" by (rule pools_ok_frame [OF P]) (simp_all add: e put_mutex_def tcb_at_def)
  then have "kst_boot kb ub T s' xs ys" using s'(2) by (auto simp: boot_inv_def kst_boot_def)
  moreover have "boot_sees V (M(m \<mapsto> (NULL, mtx_next_mutex x))) s'"
    using V by (simp add: boot_sees_def p)
  ultimately show ?thesis using s' by blast
qed

lemma boot_inv_task:
  assumes B: "boot_inv kb ub T c" and t: "tcb_at (kst c) t \<noteq> None"
  shows "boot_inv kb ub (insert t (fst T), snd T) c"
proof -
  have "boot_good (insert t (fst T), snd T) a" if "kernel_rel (kst c) a" "boot_good T a" for a
    using that t kernel_rel_tcb_None [OF that(1), of t] by (auto simp: boot_good_def)
  with B show ?thesis unfolding boot_inv_def kst_boot_def by blast
qed

lemma boot_start_view:
  assumes B: "boot_inv kb ub T c" and f: "kst_boot kb ub T (kst c) xs ys" and V: "boot_sees V M (kst c)" and t: "best V t"
    and h: "\<And>hw. clock = Some hw \<Longrightarrow> clock_starts hw"
  shows "\<exists>c' a. os_start l clock hz c = Some c' \<and> calm kb ub (kst c') a xs ys \<and> settled a t \<and> views a = V \<and> mutex_view a = M"
proof -
  have "V t \<noteq> None" using t by (auto simp: best_def)
  moreover have "map_option task_view (tcb_at (kst c) t) = V t" using V by (simp add: boot_sees_def)
  ultimately have tt: "tcb_at (kst c) t \<noteq> None" by auto
  have ti: "t \<in> fst (insert t (fst T), snd T)" by simp
  from start_machine_inv [OF boot_inv_task [OF B tt] ti, of clock l hz] h obtain c' k where
    c': "os_start l clock hz c = Some c'" "machine_inv t kb ub (Thread, c')"
    and k: "os_schedule ((kst c)\<lparr>g_first_switch := 1\<rparr>) = Some ((kst c)\<lparr>g_first_switch := 1, g_next := k\<rparr>)"
      "kst c' = (kst c)\<lparr>g_first_switch := 1, g_next := k, g_current := k, pendsv := True\<rparr>" by blast
  from c'(2) obtain a where a: "kernel_rel (kst c') a" "sched_good t Thread a" by (auto simp: machine_inv_def kst_inv_def)
  then have I: "kernel_inv a" by (simp add: sched_good_def)
  from f obtain b where b: "kernel_rel (kst c) b" "boot_good T b" and P: "pools_ok kb ub (kst c) xs ys" by (auto simp: kst_boot_def)
  have "boot_sees V M (kst c')" using V by (simp add: boot_sees_def k(2) kstate_simps)
  then have Va: "views a = V" "mutex_view a = M" "timeoutq a = []" using boot_sees_iff [OF a(1), of V M] by simp_all
  let ?s = "(kst c)\<lparr>g_first_switch := 1\<rparr>"
  have S: "sched_same (kst c) ?s" by (simp add: sched_same_def kstate_simps)
  have "views b = V" using boot_sees_iff [OF b(1), of V M] V by simp
  then have "first_or (ready_order b) NULL = t" using first_ready_best [of b t] b(2) t kernel_invD(2) by (auto simp: boot_good_def)
  moreover have "ready_order (b\<lparr>kern := core ?s\<rparr>) = ready_order b" by (simp add: ready_order_def)
  ultimately have "os_schedule ?s = Some (?s\<lparr>g_next := t\<rparr>)"
    using schedule_loop_refines [OF kernel_rel_same(1) [OF b(1) S], of 0] by (simp add: os_schedule_def ready_order_def)
  with k(1) have "?s\<lparr>g_next := k\<rparr> = ?s\<lparr>g_next := t\<rparr>" by simp
  from arg_cong [OF this, of g_next] have kt: "k = t" by simp
  have "t \<noteq> NULL" using best_runnable [of a t] t Va(1) by (auto simp: runnable_def)
  then have "settled a t"
    using kernel_rel_globals [OF a(1)] t Va(1) kt by (simp add: settled_def k(2))
  moreover have "get_pool (kst c') = get_pool (kst c)" unfolding k(2) by (rule ext, rename_tac q, case_tac q) simp_all
  then have "pools_ok kb ub (kst c') xs ys" by (rule pools_ok_frame [OF P]) (simp_all add: k(2) kstate_simps)
  ultimately show ?thesis using c'(1) a(1) I Va by (auto simp: calm_def)
qed

text \<open>Without a blocked task nobody waits for a mutex.\<close>

lemma no_waiters:
  assumes "kernel_inv a" and "\<And>t p b k n. views a t = Some (p, b, k, n) \<Longrightarrow> \<not> k"
  shows "waitq a (MutexQ m) = []"
proof -
  have "tcb_state c \<noteq> OS_TASK_BLOCKED" if "a_tcb a t = Some c" for t c
    using assms(2) [of t "tcb_priority c" "tcb_base_priority c"] that by (auto simp: views_def task_view_def)
  then show ?thesis by (auto simp: waitq_Nil_iff [OF kernel_invD(2) [OF assms(1)]] home_def)
qed

end
