(* ===== verification/Priority_Inheritance.thy ===== *)
theory Priority_Inheritance
  imports Boot_View Kernel_Safety
begin

text \<open>
  Fixed-priority preemptive scheduling with priority inheritance, as a property of the whole system. For programs in
  which no task locks a second mutex while it holds one, every state that is reachable from reset satisfies two
  invariants: the priority of a task is the most urgent among its base priority and the priorities of the tasks that
  wait for a mutex it owns, and, unless a context switch is pending or in progress, no task that can run is more urgent
  than the current one. The restriction is needed: the list of owned mutexes loses entries when a task that holds
  a mutex is waited for (\<open>Known_Defects\<close>).
\<close>

subsection \<open>Roles of tasks\<close>

text \<open>The mutex a task waits for, and what the invariant reads of a task: its priority, its base priority, the first
  mutex of its list and the mutex it waits for.\<close>

definition awaited :: "os_tcb_t \<Rightarrow> addr option" where
  "awaited c = (case home c of Some (MutexQ m) \<Rightarrow> Some m | _ \<Rightarrow> None)"

type_synonym role = "os_task_priority_t \<times> os_task_priority_t \<times> addr \<times> addr option"

definition role :: "os_tcb_t \<Rightarrow> role" where
  "role c = (tcb_priority c, tcb_base_priority c, tcb_owned_mutexes c, awaited c)"

definition roles :: "astate \<Rightarrow> addr \<rightharpoonup> role" where
  "roles a = (\<lambda>t. map_option role (a_tcb a t))"

text \<open>\<open>p\<close> is the least of \<open>b\<close> and the priorities of the tasks that wait for \<open>m\<close>.\<close>

definition least_waiting :: "(addr \<rightharpoonup> role) \<Rightarrow> addr \<Rightarrow> os_task_priority_t \<Rightarrow> os_task_priority_t \<Rightarrow> bool" where
  "least_waiting V m b p \<longleftrightarrow> p \<le> b \<and> (\<forall>u q c n. V u = Some (q, c, n, Some m) \<longrightarrow> p \<le> q) \<and>
     (p = b \<or> (\<exists>u c n. V u = Some (p, c, n, Some m)))"

text \<open>Every task holds at most one mutex or waits for one: the mutex is the only one of its list. A task that waits runs
  at its base priority, an owner inherits from those that wait, every other task runs at its base priority.\<close>

definition one_mutex_each :: "(addr \<rightharpoonup> role) \<Rightarrow> (addr \<rightharpoonup> addr \<times> addr) \<Rightarrow> bool" where
  "one_mutex_each V M \<longleftrightarrow> V NULL = None \<and> M NULL = None \<and>
     (\<forall>m w x. M m = Some (w, x) \<and> w \<noteq> NULL \<longrightarrow> x = NULL \<and> (\<exists>p b. V w = Some (p, b, m, None))) \<and>
     (\<forall>t p b n m. V t = Some (p, b, n, Some m) \<longrightarrow> n = m \<and> p = b \<and> (\<exists>w x. M m = Some (w, x) \<and> w \<noteq> NULL)) \<and>
     (\<forall>t p b n. V t = Some (p, b, n, None) \<longrightarrow>
       (if n = NULL then p = b else (\<exists>x. M n = Some (t, x)) \<and> least_waiting V n b p))"

lemma one_mutex_eachD:
  assumes "one_mutex_each V M"
  shows "M m = Some (w, x) \<Longrightarrow> w \<noteq> NULL \<Longrightarrow> x = NULL \<and> (\<exists>p b. V w = Some (p, b, m, None))"
    and "V t = Some (p, b, n, Some m) \<Longrightarrow> n = m \<and> p = b \<and> (\<exists>w x. M m = Some (w, x) \<and> w \<noteq> NULL)"
    and "V t = Some (p, b, n, None) \<Longrightarrow> if n = NULL then p = b else (\<exists>x. M n = Some (t, x)) \<and> least_waiting V n b p"
    and "V NULL = None" and "M NULL = None"
  using assms unfolding one_mutex_each_def by blast+

lemma least_waiting_cong:
  assumes "\<And>u q c n. V' u = Some (q, c, n, Some m) \<longleftrightarrow> V u = Some (q, c, n, Some m)"
  shows "least_waiting V' m = least_waiting V m"
  using assms by (simp add: least_waiting_def fun_eq_iff)

lemma one_mutex_eachI:
  assumes "\<And>m w x. M m = Some (w, x) \<Longrightarrow> w \<noteq> NULL \<Longrightarrow> x = NULL \<and> (\<exists>p b. V w = Some (p, b, m, None))"
    and "\<And>t p b n m. V t = Some (p, b, n, Some m) \<Longrightarrow> n = m \<and> p = b \<and> (\<exists>w x. M m = Some (w, x) \<and> w \<noteq> NULL)"
    and "\<And>t p b. V t = Some (p, b, NULL, None) \<Longrightarrow> p = b"
    and "\<And>t p b n. V t = Some (p, b, n, None) \<Longrightarrow> n \<noteq> NULL \<Longrightarrow> (\<exists>x. M n = Some (t, x)) \<and> least_waiting V n b p"
    and "V NULL = None" and "M NULL = None"
  shows "one_mutex_each V M"
  using assms unfolding one_mutex_each_def by (auto split: if_splits)

text \<open>The changes the kernel makes.\<close>

lemma one_mutex_new:
  assumes I: "one_mutex_each V M" and t: "V t = None" "t \<noteq> NULL"
  shows "one_mutex_each (V(t \<mapsto> (p, p, NULL, None))) M" (is "one_mutex_each ?V M")
proof -
  note D = one_mutex_eachD [OF I]
  have l: "least_waiting ?V m = least_waiting V m" for m by (rule least_waiting_cong) (use t in auto)
  show ?thesis
  proof (rule one_mutex_eachI)
    show "x = NULL \<and> (\<exists>p b. ?V w = Some (p, b, m, None))" if "M m = Some (w, x)" "w \<noteq> NULL" for m w x
      using D(1) [OF that] t by auto
    show "n = m \<and> q = b \<and> (\<exists>w x. M m = Some (w, x) \<and> w \<noteq> NULL)" if "?V u = Some (q, b, n, Some m)" for u q b n m
      using that D(2) [of u q b n m] by (auto split: if_splits)
    show "q = b" if "?V u = Some (q, b, NULL, None)" for u q b using that D(3) [of u q b NULL] by (auto split: if_splits)
    show "(\<exists>x. M n = Some (u, x)) \<and> least_waiting ?V n b q" if "?V u = Some (q, b, n, None)" "n \<noteq> NULL" for u q b n
      using that D(3) [of u q b n] unfolding l by (auto split: if_splits)
  qed (use D(4,5) assms in auto)
qed

lemma one_mutex_lock_free:
  assumes I: "one_mutex_each V M" and t: "V t = Some (p, b, NULL, None)" "t \<noteq> NULL" and m: "M m = Some (NULL, x)" "m \<noteq> NULL"
  shows "one_mutex_each (V(t \<mapsto> (p, b, m, None))) (M(m \<mapsto> (t, NULL)))" (is "one_mutex_each ?V ?M")
proof -
  note D = one_mutex_eachD [OF I]
  have l: "least_waiting ?V k = least_waiting V k" for k by (rule least_waiting_cong) (use t in auto)
  have none: "V u \<noteq> Some (q, c, n, Some m)" for u q c n using D(2) [of u q c n m] m by auto
  have new: "least_waiting V m b p" using D(3) [OF t(1)] none by (auto simp: least_waiting_def)
  show ?thesis
  proof (rule one_mutex_eachI)
    show "y = NULL \<and> (\<exists>p b. ?V w = Some (p, b, k, None))" if "?M k = Some (w, y)" "w \<noteq> NULL" for k w y
      using that D(1) [of k w y] t m D(5) by (auto split: if_splits)
    show "n = k \<and> q = c \<and> (\<exists>w x. ?M k = Some (w, x) \<and> w \<noteq> NULL)" if "?V u = Some (q, c, n, Some k)" for u q c n k
      using that D(2) [of u q c n k] t(2) by (auto split: if_splits)
    show "q = c" if "?V u = Some (q, c, NULL, None)" for u q c using that D(3) [of u q c NULL] m(2) by (auto split: if_splits)
    show "(\<exists>x. ?M n = Some (u, x)) \<and> least_waiting ?V n c q" if "?V u = Some (q, c, n, None)" "n \<noteq> NULL" for u q c n
      using that D(3) [of u q c n] D(4) new m unfolding l by (auto split: if_splits)
  qed (use D(4,5) assms in auto)
qed

lemma least_waiting_joined:
  assumes l: "least_waiting V m c q" and t: "V t = Some (p, b, NULL, None)" and w: "V w = Some (q, c, m, None)"
  shows "least_waiting (V(w \<mapsto> (min p q, c, m, None), t \<mapsto> (p, b, m, Some m))) m c (min p q)" (is "least_waiting ?V _ _ _")
  unfolding least_waiting_def
proof (intro conjI allI impI)
  show "min p q \<le> c" using l by (simp add: least_waiting_def min.coboundedI2)
  show "min p q \<le> r" if "?V u = Some (r, e, i, Some m)" for u r e i
    using that l by (auto simp: least_waiting_def min_le_iff_disj split: if_splits)
  show "min p q = c \<or> (\<exists>u e i. ?V u = Some (min p q, e, i, Some m))"
  proof (cases "p \<le> q")
    case True
    then have "?V t = Some (min p q, b, m, Some m)" by (simp add: min_def)
    then show ?thesis by blast
  next
    case False
    then have e: "min p q = q" by simp
    from l consider "q = c" | u e i where "V u = Some (q, e, i, Some m)" by (auto simp: least_waiting_def)
    then show ?thesis
    proof cases
      case 2
      then have "?V u = Some (q, e, i, Some m)" using t w by auto
      with e show ?thesis by metis
    qed (use e in simp)
  qed
qed

lemma one_mutex_lock_wait:
  assumes I: "one_mutex_each V M" and t: "V t = Some (p, b, NULL, None)" and m: "M m = Some (w, x)" "w \<noteq> NULL" "m \<noteq> NULL"
    and w: "V w = Some (q, c, n, k)"
  shows "one_mutex_each (V(w \<mapsto> (min p q, c, n, k), t \<mapsto> (p, b, m, Some m))) (M(m \<mapsto> (w, NULL)))" (is "one_mutex_each ?V ?M")
proof -
  note D = one_mutex_eachD [OF I]
  have own: "n = m" "k = None" using D(1) [OF m(1,2)] w by auto
  then have wt: "w \<noteq> t" using t w m(3) by auto
  have lw: "least_waiting V m c q" using D(3) [of w q c m] w own m(3) by simp
  have pb: "p = b" using D(3) [OF t] by simp
  have up: "least_waiting ?V m c (min p q)" using least_waiting_joined [OF lw t] w own by simp
  have other: "least_waiting ?V j = least_waiting V j" if "j \<noteq> m" for j
    by (rule least_waiting_cong) (use that t w own wt in auto)
  show ?thesis
  proof (rule one_mutex_eachI)
    show "y = NULL \<and> (\<exists>p b. ?V v = Some (p, b, j, None))" if "?M j = Some (v, y)" "v \<noteq> NULL" for j v y
      using that D(1) [of j v y] D(5) t w own wt m by (auto split: if_splits)
    show "i = j \<and> r = e \<and> (\<exists>w x. ?M j = Some (w, x) \<and> w \<noteq> NULL)" if "?V u = Some (r, e, i, Some j)" for u r e i j
      using that D(2) [of u r e i j] own pb m by (auto split: if_splits)
    show "r = e" if "?V u = Some (r, e, NULL, None)" for u r e using that D(3) [of u r e NULL] own m(3) by (auto split: if_splits)
    show "(\<exists>x. ?M i = Some (u, x)) \<and> least_waiting ?V i e r" if "?V u = Some (r, e, i, None)" "i \<noteq> NULL" for u r e i
    proof (cases "u = w")
      case True
      with that wt own up show ?thesis by auto
    next
      case False
      with that have "V u = Some (r, e, i, None)" by (auto split: if_splits)
      with D(3) [OF this] that(2) have "\<exists>x. M i = Some (u, x)" "least_waiting V i e r" by auto
      moreover from this False m have "i \<noteq> m" by auto
      ultimately show ?thesis using other by auto
    qed
  qed (use D(4,5) assms in auto)
qed

lemma one_mutex_unlock_free:
  assumes I: "one_mutex_each V M" and t: "V t = Some (p, b, m, None)" "m \<noteq> NULL" and n: "\<And>u q c n. V u \<noteq> Some (q, c, n, Some m)"
  shows "p = b" "one_mutex_each (V(t \<mapsto> (b, b, NULL, None))) (M(m \<mapsto> (NULL, NULL)))" (is "one_mutex_each ?V ?M")
proof -
  note D = one_mutex_eachD [OF I]
  show "p = b" using D(3) [OF t(1)] t(2) n by (auto simp: least_waiting_def)
  have l: "least_waiting ?V k = least_waiting V k" for k by (rule least_waiting_cong) (use t in auto)
  from D(3) [OF t(1)] t(2) obtain x where x: "M m = Some (t, x)" by auto
  show "one_mutex_each ?V ?M"
  proof (rule one_mutex_eachI)
    show "y = NULL \<and> (\<exists>p b. ?V v = Some (p, b, j, None))" if "?M j = Some (v, y)" "v \<noteq> NULL" for j v y
      using that D(1) [of j v y] t by (auto split: if_splits)
    show "i = j \<and> r = e \<and> (\<exists>w x. ?M j = Some (w, x) \<and> w \<noteq> NULL)" if "?V u = Some (r, e, i, Some j)" for u r e i j
      using that D(2) [of u r e i j] n by (auto split: if_splits)
    show "r = e" if "?V u = Some (r, e, NULL, None)" for u r e using that D(3) [of u r e NULL] by (auto split: if_splits)
    show "(\<exists>x. ?M i = Some (u, x)) \<and> least_waiting ?V i e r" if "?V u = Some (r, e, i, None)" "i \<noteq> NULL" for u r e i
      using that D(3) [of u r e i] x unfolding l by (auto split: if_splits)
  qed (use D(4,5) assms in auto)
qed

lemma one_mutex_unlock_wake:
  assumes I: "one_mutex_each V M" and t: "V t = Some (p, b, m, None)" "m \<noteq> NULL"
    and w: "V w = Some (r, c, n, Some m)" "w \<noteq> NULL" and first: "\<And>u q e i. V u = Some (q, e, i, Some m) \<Longrightarrow> r \<le> q"
  shows "one_mutex_each (V(t \<mapsto> (b, b, NULL, None), w \<mapsto> (r, c, n, None))) (M(m \<mapsto> (w, NULL)))" (is "one_mutex_each ?V ?M")
proof -
  note D = one_mutex_eachD [OF I]
  have nm: "n = m" "r = c" using D(2) [OF w(1)] by auto
  have wt: "w \<noteq> t" using t w by auto
  from D(3) [OF t(1)] t(2) obtain x where x: "M m = Some (t, x)" by auto
  have other: "least_waiting ?V j = least_waiting V j" if "j \<noteq> m" for j
    by (rule least_waiting_cong) (use that t w wt in auto)
  have new: "least_waiting ?V m c r" using first nm by (auto simp: least_waiting_def split: if_splits)
  show ?thesis
  proof (rule one_mutex_eachI)
    show "y = NULL \<and> (\<exists>p b. ?V v = Some (p, b, j, None))" if "?M j = Some (v, y)" "v \<noteq> NULL" for j v y
      using that D(1) [of j v y] t w nm by (auto split: if_splits)
    show "i = j \<and> q = e \<and> (\<exists>w x. ?M j = Some (w, x) \<and> w \<noteq> NULL)" if "?V u = Some (q, e, i, Some j)" for u q e i j
      using that D(2) [of u q e i j] w by (auto split: if_splits)
    show "q = e" if "?V u = Some (q, e, NULL, None)" for u q e
      using that D(3) [of u q e NULL] nm t(2) by (auto split: if_splits)
    show "(\<exists>x. ?M i = Some (u, x)) \<and> least_waiting ?V i e q" if "?V u = Some (q, e, i, None)" "i \<noteq> NULL" for u q e i
    proof (cases "u = w")
      case True
      with that nm new show ?thesis by auto
    next
      case False
      with that have u: "V u = Some (q, e, i, None)" "u \<noteq> t" by (auto split: if_splits)
      with D(3) [OF u(1)] that(2) have "\<exists>x. M i = Some (u, x)" "least_waiting V i e q" by auto
      moreover from this u(2) x have "i \<noteq> m" by auto
      ultimately show ?thesis using other by auto
    qed
  qed (use D(4,5) assms in auto)
qed

subsection \<open>Preemption\<close>

text \<open>The phase of a switch: whether one is in progress, and whether the last one was raced, that is whether the last tick came
  while \<open>os_commit_switch\<close> held a value of \<open>g_next\<close>. When a switch is pending or in progress, the chosen task is the first of the
  most urgent ones; otherwise no task that can run is more urgent than the current one, unless the switch was raced.\<close>

type_synonym phase = "bool \<times> bool"

definition preempts :: "phase \<Rightarrow> astate \<Rightarrow> bool" where
  "preempts k a \<longleftrightarrow> (pendsv (kern a) \<or> fst k \<longrightarrow> g_next (kern a) = first_or (ready_order a) NULL) \<and>
     (\<not> pendsv (kern a) \<and> \<not> fst k \<and> \<not> snd k \<longrightarrow> (\<forall>u. runnable a u \<longrightarrow> a_prio a (g_current (kern a)) \<le> a_prio a u))"

lemma first_least:
  assumes I: "lists_inv a" and u: "runnable a u"
  shows "a_prio a (first_or (ready_order a) NULL) \<le> a_prio a u"
proof -
  have "u \<in> set (ready_order a)" using u by (auto simp: ready_order_iff [OF I] runnable_def)
  from first_ready [OF I this] obtain t p ts where t: "first_or (ready_order a) NULL = t" "waitq a (ReadyQ p) = t # ts"
    "\<forall>q<p. waitq a (ReadyQ q) = []" by blast
  from u have "u \<in> set (waitq a (ReadyQ (a_prio a u)))" by (auto simp: runnable_def intro: lists_inv_ready [OF I])
  then have "p \<le> a_prio a u" using t(3) by (metis empty_iff list.set(1) not_le)
  moreover have "a_prio a t = p" by (rule ready_prio [OF I]) (simp add: t(2))
  ultimately show ?thesis using t(1) by simp
qed

lemma preempts_chosen:
  assumes I: "lists_inv a" and n: "g_next (kern a) = first_or (ready_order a) NULL"
    and c: "g_next (kern a) \<noteq> g_current (kern a) \<Longrightarrow> pendsv (kern a)"
  shows "preempts m a"
  using first_least [OF I] n c by (cases "g_next (kern a) = g_current (kern a)") (auto simp: preempts_def)

declare ready_order_schedule [simp]

lemma preempts_schedule: "lists_inv a \<Longrightarrow> preempts m (a_schedule_and_pend a)"
  by (rule preempts_chosen) (simp_all add: astate_simps)

lemma preempts_cong:
  assumes "waitq b = waitq a" and "\<And>u. runnable b u = runnable a u" and "a_prio b = a_prio a"
    and "g_next (kern b) = g_next (kern a)" and "g_current (kern b) = g_current (kern a)" and "pendsv (kern b) = pendsv (kern a)"
  shows "preempts m b = preempts m a"
  using assms by (simp add: preempts_def ready_order_def)

subsection \<open>The invariant of the abstract state\<close>

definition inherits :: "phase \<Rightarrow> astate \<Rightarrow> bool" where
  "inherits m a \<longleftrightarrow> one_mutex_each (roles a) (mutex_view a) \<and> preempts m a"

lemma roles_upd:
  assumes "a_tcb b = (a_tcb a)(t \<mapsto> c)"
  shows "roles b = (roles a)(t \<mapsto> role c)"
  using assms by (auto simp: roles_def)

lemma roles_same:
  assumes "a_tcb b = (a_tcb a)(t \<mapsto> c')" and "a_tcb a t = Some c" and "role c' = role c"
  shows "roles b = roles a"
  using assms by (auto simp: roles_def)

lemma roles_Some: "roles a t = Some v \<longleftrightarrow> (\<exists>c. a_tcb a t = Some c \<and> role c = v)"
  by (simp add: roles_def)

lemma awaited_iff: "awaited c = Some m \<longleftrightarrow> home c = Some (MutexQ m)"
  by (auto simp: awaited_def split: option.splits queue_ref.splits)

lemma awaited_None: "home c = Some q \<Longrightarrow> (\<And>m. q \<noteq> MutexQ m) \<Longrightarrow> awaited c = None"
  by (auto simp: awaited_def split: queue_ref.splits)

lemma awaited_ready [simp]: "tcb_state c \<noteq> OS_TASK_BLOCKED \<Longrightarrow> awaited c = None"
  by (simp add: awaited_def home_def)

text \<open>A change that neither the roles nor the choice of the next task depend on.\<close>

lemma inherits_cong:
  assumes "a_tcb b = a_tcb a" and "waitq b = waitq a" and "mutex_view b = mutex_view a"
    and "g_next (kern b) = g_next (kern a)" and "g_current (kern b) = g_current (kern a)" and "pendsv (kern b) = pendsv (kern a)"
  shows "inherits m b = inherits m a"
proof -
  have "a_prio b = a_prio a" using assms(1) by (simp add: task_prio_def fun_eq_iff)
  with assms preempts_cong [of b a m] show ?thesis by (simp add: inherits_def roles_def runnable_def)
qed

lemma inherits_masked [simp]: "inherits m (masked a) = inherits m a" "inherits m (unmasked k a) = inherits m a"
  by (rule inherits_cong; simp add: astate_simps)+

lemma inherits_scheduled:
  assumes "lists_inv b" and "roles b = roles a" and "mutex_view b = mutex_view a" and "one_mutex_each (roles a) (mutex_view a)"
  shows "inherits m (a_schedule_and_pend b)"
  using assms preempts_schedule [OF assms(1), of m] by (simp add: inherits_def roles_def mutex_view_def astate_simps)

subsection \<open>The operations\<close>

lemma inherits_block:
  assumes I: "lists_inv a" and pre: "block_pre q n po a" and q: "\<And>m. q \<noteq> MutexQ m" and S: "inherits k a"
  shows "inherits m (a_block q n po a)"
proof -
  from pre obtain c where c: "a_tcb a (g_current (kern a)) = Some c" "tcb_state c \<noteq> OS_TASK_BLOCKED" by (auto simp: block_pre_def)
  from a_block_tcb [OF c(1), of q n po] obtain w where
    tcb: "a_tcb (a_block q n po a) = (a_tcb a)(g_current (kern a) \<mapsto> (set_blocked (Some q) c)\<lparr>tcb_wake_tick := w\<rparr>)" by blast
  have "role ((set_blocked (Some q) c)\<lparr>tcb_wake_tick := w\<rparr>) = role c"
    using q c(2) awaited_None [of "(set_blocked (Some q) c)\<lparr>tcb_wake_tick := w\<rparr>" q] by (simp add: role_def set_blocked_def home_def)
  with tcb c(1) have r: "roles (a_block q n po a) = roles a" by (rule roles_same)
  from a_block_schedules [of q n po a] obtain b where b: "a_block q n po a = a_schedule_and_pend b" by blast
  have "lists_inv b" using a_block_inv [OF I pre] by (simp add: sched_inv_def b)
  moreover have "mutex_view (a_block q n po a) = mutex_view a" by (simp add: mutex_view_def astate_simps)
  ultimately show ?thesis
    using inherits_scheduled [of b a m] S r unfolding b by (simp add: inherits_def roles_def mutex_view_def astate_simps)
qed

lemma inherits_yield:
  assumes I: "kernel_inv a" and S: "inherits k a"
  shows "inherits m (a_yield a)"
proof -
  let ?r = "a_rotate (g_current (kern a)) a"
  have "lists_inv ?r" using kernel_invD(2) [OF kernel_inv_rotate [OF I]] .
  then have "lists_inv (a_yield a)"
    unfolding a_yield_def using lists_inv_cong [of "a_kern (pendsv_update (\<lambda>_. True)) (a_schedule ?r)" "a_schedule ?r"]
    by (simp add: astate_simps kstate_simps)
  then have "preempts m (a_yield a)"
    by (rule preempts_chosen) (simp_all add: a_yield_def ready_order_def astate_simps kstate_simps)
  moreover have "roles (a_yield a) = roles a" "mutex_view (a_yield a) = mutex_view a"
    by (simp_all add: a_yield_def roles_def mutex_view_def astate_simps kstate_simps)
  ultimately show ?thesis using S by (simp add: inherits_def)
qed

lemma roles_wake:
  assumes I: "lists_inv a" and q: "waitable q" "q \<noteq> SleepQ" "\<And>m. q \<noteq> MutexQ m" and w: "waitq a q = t # ts"
  shows "roles (snd (a_wake_one q a)) = roles a"
proof -
  have "t \<in> set (waitq a q)" using w by simp
  then obtain c where c: "a_tcb a t = Some c" "home c = Some q" using lists_inv_home [OF I] by blast
  show ?thesis
    by (rule roles_same [OF a_wake_one_Cons(2) [OF I q(1,2) w c(1)] c(1)])
      (use awaited_None [OF c(2) q(3)] in \<open>simp add: role_def set_woken_def\<close>)
qed

lemma inherits_sem_take:
  assumes I: "kernel_inv a" and c: "current_runnable a" and x: "sem_at (kern a) p \<noteq> None" and S: "inherits m a"
  shows "inherits m (a_sem_take p a)"
proof (cases "0 < a_count a p")
  case True
  have "inherits m (a_kern (set_count p f) a) = inherits m a" for f
    by (rule inherits_cong) (simp_all add: mutex_view_def astate_simps kstate_simps)
  with True S show ?thesis by (simp add: a_sem_take_def)
next
  case False
  with inherits_block [OF kernel_invD(2) [OF I] _ _ S, of "SemQ p" OS_WAIT_FOREVER False m]
    current_runnable_block_pre [OF c, of "SemQ p" OS_WAIT_FOREVER False] x
  show ?thesis by (simp add: a_sem_take_def valid_queue_sem)
qed

lemma inherits_sem_give:
  assumes I: "kernel_inv a" and S: "inherits m a"
  shows "inherits m (a_sem_give p a)"
proof (cases "waitq a (SemQ p)")
  case Nil
  have "inherits m (a_kern (set_count p f) a) = inherits m a" for f
    by (rule inherits_cong) (simp_all add: mutex_view_def astate_simps kstate_simps)
  with Nil S show ?thesis by (simp add: a_sem_give_def)
next
  case (Cons t ts)
  note L = kernel_invD(2) [OF I]
  have "lists_inv (snd (a_wake_one (SemQ p) a))" by (rule a_wake_one_inv [OF L]) simp_all
  moreover have "roles (snd (a_wake_one (SemQ p) a)) = roles a" by (rule roles_wake [OF L _ _ _ Cons]) simp_all
  moreover have "mutex_view (snd (a_wake_one (SemQ p) a)) = mutex_view a"
    using Cons by (simp add: a_wake_one_def a_ready_add_def mutex_view_def astate_simps)
  ultimately show ?thesis using Cons S inherits_scheduled [of _ a m] by (simp add: a_sem_give_def inherits_def)
qed

lemma inherits_lock_free:
  assumes t: "g_current (kern a) = t" "a_tcb a t = Some c" "tcb_state c \<noteq> OS_TASK_BLOCKED" "tcb_owned_mutexes c = NULL"
    and m: "mutex_at (kern a) m = Some x" "mtx_owner x = NULL" and S: "inherits k a"
  shows "inherits k (a_add_owned t m (a_kern (map_mutex m (\<lambda>x. x\<lparr>mtx_owner := t\<rparr>)) a))" (is "inherits k ?a")
proof -
  have nn: "m \<noteq> NULL" "t \<noteq> NULL" using m(1) t(2) by auto
  have r: "roles a t = Some (tcb_priority c, tcb_base_priority c, NULL, None)" using t by (simp add: roles_Some role_def)
  have v: "mutex_view a m = Some (NULL, mtx_next_mutex x)" using m by (simp add: mutex_view_def)
  have tcb: "a_tcb ?a = (a_tcb a)(t \<mapsto> c\<lparr>tcb_owned_mutexes := m\<rparr>)"
    using t(2) by (auto simp: a_add_owned_simps astate_simps kstate_simps)
  then have "roles ?a = (roles a)(t \<mapsto> (tcb_priority c, tcb_base_priority c, m, None))"
    using roles_upd [OF tcb] t(3) by (simp add: role_def)
  moreover have "mutex_view ?a = (mutex_view a)(m \<mapsto> (t, NULL))"
    using m t nn by (auto simp: mutex_view_def a_add_owned_def astate_simps kstate_simps fun_eq_iff)
  moreover have "a_prio ?a = a_prio a" using t(2) by (auto simp: task_prio_def tcb fun_eq_iff)
  then have "preempts k ?a = preempts k a"
    using t(2) by (intro preempts_cong) (auto simp: runnable_def tcb a_add_owned_simps astate_simps kstate_simps)
  ultimately show ?thesis using S one_mutex_lock_free [where V = "roles a" and M = "mutex_view a", OF _ r nn(2) v nn(1)] by (simp add: inherits_def)
qed

text \<open>The tasks after the priority of the owner has been raised and the caller has been blocked.\<close>

lemma lock_wait_blocked:
  assumes I: "kernel_inv a" and c: "current_runnable a" and t: "g_current (kern a) = t" "a_tcb a t = Some d"
    and m: "mutex_at (kern a) m = Some x" "mtx_owner x \<noteq> NULL" "mtx_owner x \<noteq> t"
  defines "a2 \<equiv> a_boost (mtx_owner x) (tcb_priority d) (a_upd t (\<lambda>c. c\<lparr>tcb_blocked_on := m\<rparr>) a)"
  shows "\<exists>u f. a_tcb a (mtx_owner x) = Some u \<and> a_tcb (a_block (MutexQ m) OS_WAIT_FOREVER True a2) = (a_tcb a)
      (mtx_owner x \<mapsto> u\<lparr>tcb_priority := min (tcb_priority d) (tcb_priority u)\<rparr>,
       t \<mapsto> (set_blocked (Some (MutexQ m)) (d\<lparr>tcb_blocked_on := m\<rparr>))\<lparr>tcb_wake_tick := f\<rparr>)"
    and "preempts k (a_block (MutexQ m) OS_WAIT_FOREVER True a2)"
proof -
  let ?w = "mtx_owner x" and ?p = "tcb_priority d" and ?a1 = "a_upd t (\<lambda>c. c\<lparr>tcb_blocked_on := m\<rparr>) a"
  have pr: "a_prio a t = ?p" using t(2) by (rule a_prio_tcb)
  note B = lock_wait_boosted [OF I c m(1,2), unfolded t(1) pr, OF m(3), folded a2_def]
  note L = objects_invD(2) [OF B(1)] objects_invD(2) [OF B(2)]
  have "valid_task a ?w" using kernel_invD(5) [OF I] m(1,2) unfolding mutexes_ok_def by metis
  then obtain u where u: "a_tcb a ?w = Some u" by (auto simp: valid_task_def)
  have p: "?p < NUM_PRIORITIES" using lists_inv_tcb [OF kernel_invD(2) [OF I] t(2)] by (simp add: tcb_ok_def)
  have "a_tcb ?a1 ?w = Some u" using u m(3) by (simp add: astate_simps)
  from a_boost_tcb [OF L(1) this, of ?p] p have tcb2: "a_tcb a2 = (a_tcb ?a1)(?w \<mapsto> u\<lparr>tcb_priority := min ?p (tcb_priority u)\<rparr>)"
    by (auto simp: a2_def)
  have g2: "g_current (kern a2) = t" "a_tcb a2 (g_current (kern a2)) = Some (d\<lparr>tcb_blocked_on := m\<rparr>)"
    using t m(3) B(8) by (simp_all add: tcb2 astate_simps)
  from a_block_tcb [OF g2(2), of "MutexQ m" OS_WAIT_FOREVER True] obtain f where
    "a_tcb (a_block (MutexQ m) OS_WAIT_FOREVER True a2) =
      (a_tcb a2)(t \<mapsto> (set_blocked (Some (MutexQ m)) (d\<lparr>tcb_blocked_on := m\<rparr>))\<lparr>tcb_wake_tick := f\<rparr>)"
    by (auto simp: g2(1))
  then show "\<exists>u f. a_tcb a ?w = Some u \<and> a_tcb (a_block (MutexQ m) OS_WAIT_FOREVER True a2) = (a_tcb a)
      (?w \<mapsto> u\<lparr>tcb_priority := min ?p (tcb_priority u)\<rparr>,
       t \<mapsto> (set_blocked (Some (MutexQ m)) (d\<lparr>tcb_blocked_on := m\<rparr>))\<lparr>tcb_wake_tick := f\<rparr>)"
    using u m(3) t(2) by (intro exI [of _ u] exI [of _ f]) (auto simp: tcb2 astate_simps)
  from a_block_schedules [of "MutexQ m" OS_WAIT_FOREVER True a2] obtain b where
    b: "a_block (MutexQ m) OS_WAIT_FOREVER True a2 = a_schedule_and_pend b" by blast
  have "lists_inv b" using a_block_inv [OF L(2) B(5)] by (simp add: sched_inv_def b)
  from preempts_schedule [OF this, of k] show "preempts k (a_block (MutexQ m) OS_WAIT_FOREVER True a2)" by (simp add: b)
qed

lemma inherits_lock_wait:
  assumes I: "kernel_inv a" and c: "current_runnable a" and t: "g_current (kern a) = t" "a_tcb a t = Some d" "tcb_owned_mutexes d = NULL"
    and m: "mutex_at (kern a) m = Some x" "mtx_owner x \<noteq> NULL" "mtx_owner x \<noteq> t" and S: "inherits k a"
  shows "inherits k (a_lock_wait m (mtx_owner x) a)"
proof -
  let ?w = "mtx_owner x" and ?p = "tcb_priority d"
  let ?a3 = "a_block (MutexQ m) OS_WAIT_FOREVER True (a_boost ?w ?p (a_upd t (\<lambda>c. c\<lparr>tcb_blocked_on := m\<rparr>) a))"
  let ?b = "a_add_owned t m (a_upd t (\<lambda>c. c\<lparr>tcb_blocked_on := NULL\<rparr>) ?a3)"
  have nn: "m \<noteq> NULL" "t \<noteq> NULL" using m(1) t(2) by auto
  have nb: "tcb_state d \<noteq> OS_TASK_BLOCKED" using c t by (auto simp: current_runnable_def)
  have e: "a_lock_wait m ?w a = ?b" by (simp add: a_lock_wait_def Let_def t(1) a_prio_tcb [OF t(2)])
  from lock_wait_blocked [OF I c t(1,2) m] obtain u f where u: "a_tcb a ?w = Some u" and tcb3: "a_tcb ?a3 = (a_tcb a)
      (?w \<mapsto> u\<lparr>tcb_priority := min ?p (tcb_priority u)\<rparr>,
       t \<mapsto> (set_blocked (Some (MutexQ m)) (d\<lparr>tcb_blocked_on := m\<rparr>))\<lparr>tcb_wake_tick := f\<rparr>)"
    and pre: "preempts k ?a3" by blast
  have "awaited (u\<lparr>tcb_priority := j\<rparr>) = awaited u" for j by (simp add: awaited_def home_def)
  then have "roles ?b = (roles a)
      (?w \<mapsto> (min ?p (tcb_priority u), tcb_base_priority u, tcb_owned_mutexes u, awaited u), t \<mapsto> (?p, tcb_base_priority d, m, Some m))"
    using m(3) by (auto simp: roles_def a_add_owned_simps astate_simps tcb3 role_def awaited_iff home_def set_blocked_def)
  moreover have "mutex_view ?b = (mutex_view a)(m \<mapsto> (?w, NULL))"
    using m t nn by (auto simp: mutex_view_def a_add_owned_def tcb3 set_blocked_def astate_simps kstate_simps fun_eq_iff)
  moreover have "one_mutex_each (roles a) (mutex_view a)" using S by (simp add: inherits_def)
  moreover have "roles a t = Some (?p, tcb_base_priority d, NULL, None)" "mutex_view a m = Some (?w, mtx_next_mutex x)"
    "roles a ?w = Some (tcb_priority u, tcb_base_priority u, tcb_owned_mutexes u, awaited u)"
    using t nb m u by (simp_all add: roles_Some role_def mutex_view_def)
  ultimately have O: "one_mutex_each (roles ?b) (mutex_view ?b)"
    using one_mutex_lock_wait [of "roles a" "mutex_view a" t ?p "tcb_base_priority d" m ?w "mtx_next_mutex x"] m(2) nn(1) by simp
  have "preempts k ?b = preempts k ?a3"
  proof (rule preempts_cong)
    show "a_prio ?b = a_prio ?a3" by (auto simp: task_prio_def a_add_owned_simps astate_simps tcb3 fun_eq_iff)
    show "runnable ?b v = runnable ?a3 v" for v by (auto simp: runnable_def a_add_owned_simps astate_simps tcb3)
  qed (simp_all add: a_add_owned_simps astate_simps)
  with O pre show ?thesis unfolding e by (simp add: inherits_def)
qed


text \<open>The tasks that wait for a mutex are those of its queue.\<close>

lemma waiting_role:
  assumes "lists_inv a"
  shows "t \<in> set (waitq a (MutexQ m)) \<longleftrightarrow> (\<exists>p b n. roles a t = Some (p, b, n, Some m))"
  using lists_inv_home [OF assms, of t "MutexQ m"] by (auto simp: roles_Some role_def awaited_iff)

lemma first_waiting_least:
  assumes I: "lists_inv a" and w: "waitq a (MutexQ m) = w # ws" "roles a w = Some (r, c, n, k)" and u: "roles a u = Some (q, e, i, Some m)"
  shows "r \<le> q"
proof -
  have "u \<in> set (w # ws)" using waiting_role [OF I, of u m] u w(1) by auto
  moreover have "sorted (map (a_prio a) (w # ws))" using I w(1) by (metis lists_inv_def mutex_queues_sorted_def)
  ultimately have "a_prio a w \<le> a_prio a u" by auto
  then show ?thesis using w(2) u by (auto simp: roles_Some role_def task_prio_def)
qed

text \<open>Giving the mutex back: the list of the caller is empty again and its priority is the base priority.\<close>

lemma roles_give_back:
  assumes I: "kernel_inv a" and t: "a_tcb a t = Some d" "tcb_state d \<noteq> OS_TASK_BLOCKED" and m: "mutex_view a m = Some (w, NULL)"
  defines "b \<equiv> a_kern (map_mutex m (\<lambda>x. x\<lparr>mtx_next_mutex := NULL\<rparr>)) (a_upd t (\<lambda>c. c\<lparr>tcb_owned_mutexes := NULL\<rparr>) a)"
  defines "e \<equiv> a_set_priority t (tcb_base_priority d) b"
  assumes K: "kernel_inv b"
  shows "kernel_inv e" "roles e = (roles a)(t \<mapsto> (tcb_base_priority d, tcb_base_priority d, NULL, None))"
    "mutex_view e = mutex_view a" "\<And>k. waitq e (MutexQ k) = waitq a (MutexQ k)" "\<And>u. runnable e u = runnable a u"
    "g_next (kern e) = g_next (kern a)" "g_current (kern e) = g_current (kern a)" "pendsv (kern e) = pendsv (kern a)"
    "a_prio e = (a_prio a)(t := tcb_base_priority d)"
proof -
  let ?q = "tcb_base_priority d"
  have tb: "a_tcb b = (a_tcb a)(t \<mapsto> d\<lparr>tcb_owned_mutexes := NULL\<rparr>)" using t(1) by (auto simp: b_def astate_simps kstate_simps)
  then have d: "a_tcb b t = Some (d\<lparr>tcb_owned_mutexes := NULL\<rparr>)" by simp
  have v: "valid_task b t" using d by (simp add: valid_task_def)
  have q: "?q < NUM_PRIORITIES" using lists_inv_tcb [OF kernel_invD(2) [OF I] t(1)] by (simp add: tcb_ok_def)
  have te: "a_tcb e = (a_tcb a)(t \<mapsto> d\<lparr>tcb_owned_mutexes := NULL, tcb_priority := ?q\<rparr>)"
    using a_set_priority_tcb [OF kernel_invD(2) [OF K] d, of ?q] q tb by (simp add: e_def)
  show "kernel_inv e" unfolding e_def by (rule kernel_inv_set_priority [OF K v])
  show "roles e = (roles a)(t \<mapsto> (?q, ?q, NULL, None))" using roles_upd [OF te] t(2) by (simp add: role_def)
  show "runnable e u = runnable a u" for u using t by (auto simp: runnable_def te)
  show "a_prio e = (a_prio a)(t := ?q)" by (auto simp: task_prio_def te fun_eq_iff)
  show "mutex_view e = mutex_view a"
    using m by (auto simp: e_def b_def mutex_view_def astate_simps kstate_simps fun_eq_iff)
  show "waitq e (MutexQ k) = waitq a (MutexQ k)" for k
  proof -
    have "t \<notin> set (waitq b (MutexQ k))" using lists_inv_home [OF kernel_invD(2) [OF K], of t "MutexQ k"] d t(2) by (auto simp: home_def)
    with a_set_priority_waitq_other [OF kernel_invD(2) [OF K] v, of "MutexQ k" ?q]
    show ?thesis by (simp add: e_def b_def waitable_def astate_simps)
  qed
  show "g_next (kern e) = g_next (kern a)" "g_current (kern e) = g_current (kern a)" "pendsv (kern e) = pendsv (kern a)"
    by (simp_all add: e_def b_def astate_simps kstate_simps)
qed

lemma mutex_view_owner:
  assumes "mutex_view a m = Some (v, n)"
  shows "mutex_view (a_kern (map_mutex m (\<lambda>x. x\<lparr>mtx_owner := w\<rparr>)) a) = (mutex_view a)(m \<mapsto> (w, n))"
  using assms by (auto simp: mutex_view_def astate_simps kstate_simps fun_eq_iff)

text \<open>The mutex a task unlocks becomes free, or the first waiting task becomes its owner. \<open>e\<close> is the state in which
  the task has its base priority again.\<close>

lemma inherits_release:
  assumes S: "inherits k a" "\<not> fst k" "\<not> pendsv (kern a)" and t: "roles a t = Some (p, q, m, None)"
    and m: "mutex_view a m = Some (t, NULL)" "m \<noteq> NULL" and none: "\<And>u r c n. roles a u \<noteq> Some (r, c, n, Some m)"
    and e: "roles e = (roles a)(t \<mapsto> (q, q, NULL, None))" "mutex_view e = mutex_view a" "\<And>u. runnable e u = runnable a u"
      "g_next (kern e) = g_next (kern a)" "g_current (kern e) = g_current (kern a)" "pendsv (kern e) = pendsv (kern a)" "a_prio e = (a_prio a)(t := q)"
  shows "inherits k (a_kern (map_mutex m (\<lambda>x. x\<lparr>mtx_owner := NULL\<rparr>)) e)" (is "inherits k ?h")
proof -
  have O: "one_mutex_each (roles a) (mutex_view a)" using S(1) by (simp add: inherits_def)
  note U = one_mutex_unlock_free [OF O t m(2) none]
  have "a_prio a t = p" using t by (auto simp: roles_Some role_def task_prio_def)
  then have pr: "a_prio ?h = a_prio a" using U(1) e(7) by (auto simp: task_prio_def astate_simps kstate_simps fun_eq_iff)
  have "roles ?h = (roles a)(t \<mapsto> (q, q, NULL, None))" using e(1) by (simp add: roles_def astate_simps kstate_simps)
  moreover have "preempts k ?h"
    using S(1) e pr by (simp add: inherits_def preempts_def S(2,3) runnable_def astate_simps kstate_simps)
  moreover have "mutex_view ?h = (mutex_view a)(m \<mapsto> (NULL, NULL))" using mutex_view_owner [of e m t NULL NULL] e(2) m(1) by simp
  ultimately show ?thesis using U(2) by (simp add: inherits_def)
qed

lemma inherits_pass_on:
  assumes O: "one_mutex_each (roles a) (mutex_view a)" and L: "lists_inv a" and t: "roles a t = Some (p, q, m, None)"
    and m: "mutex_view a m = Some (t, NULL)" "m \<noteq> NULL" and Le: "lists_inv e" and we: "waitq a (MutexQ m) = w # ws" "waitq e (MutexQ m) = w # ws"
    and e: "roles e = (roles a)(t \<mapsto> (q, q, NULL, None))" "mutex_view e = mutex_view a"
  shows "inherits k (a_schedule_and_pend (a_kern (map_mutex m (\<lambda>x. x\<lparr>mtx_owner := w\<rparr>)) (snd (a_wake_one (MutexQ m) e))))"
    (is "inherits k (a_schedule_and_pend ?b)")
proof -
  let ?w = "snd (a_wake_one (MutexQ m) e)"
  from wake_one_pre [OF Le _ _ we(2)] obtain c where c: "a_tcb e w = Some c" by auto
  have "w \<in> set (waitq e (MutexQ m))" using we by simp
  then have aw: "awaited c = Some m" using lists_inv_home [OF Le] c by (auto simp: awaited_iff)
  then have re: "roles e w = Some (tcb_priority c, tcb_base_priority c, tcb_owned_mutexes c, Some m)" using c by (simp add: roles_def role_def)
  then have "w \<noteq> t" using e(1) by auto
  then have rw: "roles a w = Some (tcb_priority c, tcb_base_priority c, tcb_owned_mutexes c, Some m)" using re e(1) by simp
  have "roles ?w = (roles e)(w \<mapsto> role (set_woken c))" by (rule roles_upd, rule a_wake_one_Cons(2) [OF Le _ _ we(2) c]) simp_all
  then have r: "roles ?w = (roles a)(t \<mapsto> (q, q, NULL, None), w \<mapsto> (tcb_priority c, tcb_base_priority c, tcb_owned_mutexes c, None))"
    using e(1) by (simp add: role_def set_woken_def)
  have "lists_inv ?w" by (rule a_wake_one_inv [OF Le]) simp_all
  then have "lists_inv ?b" using lists_inv_cong [of ?b ?w] by (simp add: astate_simps kstate_simps)
  moreover have "roles ?b = roles ?w" by (simp add: roles_def astate_simps kstate_simps)
  moreover have "mutex_view ?w = mutex_view a" using we(2) e(2) by (simp add: a_wake_one_def a_ready_add_def mutex_view_def astate_simps)
  then have "mutex_view ?b = (mutex_view a)(m \<mapsto> (w, NULL))" using mutex_view_owner [of ?w m t NULL w] m(1) by simp
  moreover have "one_mutex_each ((roles a)(t \<mapsto> (q, q, NULL, None), w \<mapsto> (tcb_priority c, tcb_base_priority c, tcb_owned_mutexes c, None)))
      ((mutex_view a)(m \<mapsto> (w, NULL)))"
    using c first_waiting_least [OF L we(1) rw] by (intro one_mutex_unlock_wake [OF O t m(2) rw]) auto
  ultimately show ?thesis using inherits_scheduled [of ?b ?b k] by (simp add: r)
qed

lemma inherits_hand_over:
  assumes S: "inherits k a" "\<not> fst k" "\<not> pendsv (kern a)" and L: "lists_inv a" and t: "roles a t = Some (p, q, m, None)"
    and m: "mutex_view a m = Some (t, NULL)" "m \<noteq> NULL" and K: "kernel_inv e"
    and e: "roles e = (roles a)(t \<mapsto> (q, q, NULL, None))" "mutex_view e = mutex_view a" "\<And>k. waitq e (MutexQ k) = waitq a (MutexQ k)"
      "\<And>u. runnable e u = runnable a u" "g_next (kern e) = g_next (kern a)" "g_current (kern e) = g_current (kern a)"
      "pendsv (kern e) = pendsv (kern a)" "a_prio e = (a_prio a)(t := q)"
  shows "inherits k (a_hand_over m e)"
proof (cases "waitq a (MutexQ m)")
  case Nil
  then have "roles a u \<noteq> Some (r, c, n, Some m)" for u r c n using waiting_role [OF L, of u m] by auto
  from inherits_release [OF S t m this e(1,2,4-8)] Nil e(3) show ?thesis by (simp add: a_hand_over_def)
next
  case (Cons w ws)
  have "one_mutex_each (roles a) (mutex_view a)" using S(1) by (simp add: inherits_def)
  from inherits_pass_on [OF this L t m kernel_invD(2) [OF K] Cons _ e(1,2)] Cons e(3) show ?thesis by (simp add: a_hand_over_def)
qed

lemma roles_expire_all:
  assumes "kernel_inv a" and "timeoutq a = ts"
  shows "roles (a_expire_all now ts a) = roles a \<and> mutex_view (a_expire_all now ts a) = mutex_view a"
  using assms
proof (induction ts arbitrary: a)
  case (Cons t ts)
  have L: "lists_inv a" using kernel_invD(2) [OF Cons.prems(1)] .
  have "t \<in> set (timeoutq a)" using Cons.prems(2) by simp
  then obtain c where c: "a_tcb a t = Some c" "sleeping c" and w: "waits_in_queue a t"
    using L lists_inv_waits [OF L] by (auto simp: lists_inv_def timeouts_ok_def)
  have "awaited c = None" using c(2) by (intro awaited_None [of c SleepQ]) (simp_all add: sleeping_def home_def)
  then have "roles (a_expire t a) = roles a"
    using c(1) by (auto simp: roles_def a_expire_simps [OF w] role_def set_expired_def fun_eq_iff)
  moreover have "mutex_view (a_expire t a) = mutex_view a" by (simp add: mutex_view_def a_expire_globals [OF w])
  moreover have "kernel_inv (a_expire t a)" using Cons.prems by (intro kernel_inv_expire) simp_all
  moreover have "timeoutq (a_expire t a) = ts" using a_expire_simps(1) [OF w] Cons.prems(2) by simp
  ultimately show ?case using Cons.IH [of "a_expire t a"] by simp
qed simp

lemma inherits_tick:
  assumes I: "kernel_inv a" and S: "inherits k a"
  shows "inherits m (a_tick a)"
proof -
  let ?a1 = "a_kern (g_tick_update (\<lambda>_. g_tick (kern a) + 1)) a"
  let ?b = "a_process_timeouts ?a1"
  let ?r = "if g_current (kern ?b) \<noteq> NULL then a_rotate (g_current (kern ?b)) ?b else ?b"
  have I1: "kernel_inv ?a1" using I by simp
  have "kernel_inv ?b" by (rule a_process_timeouts_kernel_inv [OF I1])
  then have L: "lists_inv ?r" using kernel_invD(2) kernel_inv_rotate by auto
  have "roles ?b = roles ?a1" "mutex_view ?b = mutex_view ?a1"
    using roles_expire_all [OF I1 refl, of "g_tick (kern ?a1)"]
    by (simp_all add: a_process_timeouts_def roles_def mutex_view_def astate_simps)
  then have "roles ?r = roles a" "mutex_view ?r = mutex_view a"
    by (simp_all add: roles_def mutex_view_def astate_simps kstate_simps)
  with inherits_scheduled [OF L this, of m] S show ?thesis by (simp add: inherits_def a_tick_def Let_def)
qed

text \<open>The stores of \<open>os_commit_switch\<close>.\<close>

lemma inherits_state:
  assumes t: "runnable a t" and x: "x \<noteq> OS_TASK_BLOCKED" and S: "inherits k a"
  shows "inherits k (a_upd t (\<lambda>c. c\<lparr>tcb_state := x\<rparr>) a)" (is "inherits k ?a")
proof -
  from t obtain c where c: "a_tcb a t = Some c" "tcb_state c \<noteq> OS_TASK_BLOCKED" by (auto simp: runnable_def)
  have tcb: "a_tcb ?a = (a_tcb a)(t \<mapsto> c\<lparr>tcb_state := x\<rparr>)" using c(1) by (auto simp: astate_simps fun_eq_iff)
  have "roles ?a = roles a" by (rule roles_same [OF tcb c(1)]) (use c(2) x in \<open>simp add: role_def\<close>)
  moreover have "mutex_view ?a = mutex_view a" by (simp add: mutex_view_def astate_simps)
  moreover have "a_prio ?a = a_prio a" using c(1) by (auto simp: task_prio_def tcb fun_eq_iff)
  then have "preempts k ?a = preempts k a"
    using c x by (intro preempts_cong) (auto simp: runnable_def tcb, simp_all add: astate_simps)
  ultimately show ?thesis using S by (simp add: inherits_def)
qed

lemma inherits_current: "fst k \<Longrightarrow> inherits k a \<Longrightarrow> inherits k (a_kern (g_current_update (\<lambda>_. n)) a)"
  by (simp add: inherits_def preempts_def roles_def mutex_view_def ready_order_def astate_simps kstate_simps)

text \<open>The end of a switch.\<close>

lemma inherits_switched:
  assumes L: "lists_inv a" and S: "inherits (True, r) a" and c: "\<not> pendsv (kern a) \<Longrightarrow> \<not> r \<Longrightarrow> g_current (kern a) = g_next (kern a)"
  shows "inherits (False, r) a"
  using S first_least [OF L] c by (auto simp: inherits_def preempts_def)

lemma inherits_new:
  assumes S: "inherits k a" "\<not> fst k" and K: "kernel_inv b" and t: "a_tcb a t = None" "t \<noteq> NULL"
    and tcb: "a_tcb b = (a_tcb a)(t \<mapsto> new_task sp p)" and M: "mutex_at (kern b) = mutex_at (kern a)"
    and n: "g_next (kern b) = first_or (ready_order b) NULL" "g_next (kern b) \<noteq> g_current (kern b) \<Longrightarrow> pendsv (kern b)"
  shows "inherits m b"
proof -
  have "roles b = (roles a)(t \<mapsto> (p, p, NULL, None))"
    using roles_upd [OF tcb] awaited_ready [of "new_task sp p"] by (simp add: role_def new_task_def)
  moreover have "roles a t = None" using t(1) by (simp add: roles_def)
  moreover have "mutex_view b = mutex_view a" using M by (simp add: mutex_view_def)
  ultimately have "one_mutex_each (roles b) (mutex_view b)" using S(1) one_mutex_new [of "roles a" "mutex_view a" t p] t(2) by (simp add: inherits_def)
  with preempts_chosen [OF kernel_invD(2) [OF K] n] show ?thesis by (simp add: inherits_def)
qed

subsection \<open>Kernel services\<close>

text \<open>The abstract state is determined by the concrete one.\<close>

lemma dpath_unique:
  "dpath nx pv h p xs NULL \<Longrightarrow> dpath nx pv h q ys NULL \<Longrightarrow> first_or xs NULL = first_or ys NULL \<Longrightarrow> xs = ys"
proof (induction xs arbitrary: p q ys)
  case Nil
  then show ?case by (cases ys) auto
next
  case (Cons x xs)
  then obtain zs where y: "ys = x # zs" by (cases ys) auto
  with Cons.prems have "dpath nx pv h x xs NULL" "dpath nx pv h x zs NULL" "first_or xs NULL = first_or zs NULL" by auto
  with Cons.IH y show ?case by blast
qed

lemma dlist_unique: "dlist nx pv h d xs \<Longrightarrow> dlist nx pv h d ys \<Longrightarrow> xs = ys"
  by (auto simp: dlist_def intro: dpath_unique)

lemma kernel_rel_unique:
  assumes "kernel_rel s a" and "kernel_rel s b"
  shows "a = b"
proof -
  have "waitq a q = waitq b q" for q
  proof (cases "get_queue s q")
    case (Some d)
    show ?thesis by (rule dlist_unique [OF kernel_rel_queue [OF assms(1) Some] kernel_rel_queue [OF assms(2) Some]])
  qed (use assms in \<open>simp add: kernel_rel_def queue_rel_def\<close>)
  moreover have "timeoutq a = timeoutq b" using assms by (auto simp: kernel_rel_def timeout_rel_def intro: dlist_unique)
  moreover have "kern a = kern b" using assms by (simp add: kernel_rel_def)
  ultimately show ?thesis by (intro astate.equality) auto
qed

definition holds_no_mutex :: "kstate \<Rightarrow> addr \<Rightarrow> bool" where
  "holds_no_mutex s t \<longleftrightarrow> (\<forall>m x. mutex_at s m = Some x \<longrightarrow> mtx_owner x \<noteq> t)"

lemma holds_no_mutex_owned:
  assumes R: "kernel_rel s a" and S: "inherits k a" and t: "a_tcb a t = Some d" "tcb_state d \<noteq> OS_TASK_BLOCKED" and n: "holds_no_mutex s t"
  shows "tcb_owned_mutexes d = NULL"
proof (rule ccontr)
  assume o: "tcb_owned_mutexes d \<noteq> NULL"
  have "one_mutex_each (roles a) (mutex_view a)" using S by (simp add: inherits_def)
  from one_mutex_eachD(3) [OF this, of t "tcb_priority d" "tcb_base_priority d" "tcb_owned_mutexes d"] t o
  obtain x where "mutex_view a (tcb_owned_mutexes d) = Some (t, x)" by (auto simp: roles_Some role_def)
  then obtain y where "mutex_at (kern a) (tcb_owned_mutexes d) = Some y" "mtx_owner y = t" by (auto simp: mutex_view_def)
  then have "map_option mtx_owner (mutex_at s (tcb_owned_mutexes d)) = Some t" using kernel_rel_fields(1) [OF R] by simp
  then show False using n unfolding holds_no_mutex_def by auto
qed

lemma inherits_lock:
  assumes R: "kernel_rel s a" and I: "kernel_inv a" and c: "current_runnable a" and S: "inherits k a"
    and n: "holds_no_mutex s (g_current s)" and call: "os_kernel_mutex_lock m s = Some (r, s')" "m \<noteq> NULL"
  shows "\<exists>a'. kernel_rel s' a' \<and> inherits k a'"
proof -
  let ?b = "masked a" and ?t = "g_current (kern a)"
  from mutex_lock.call_keeps [OF call(2) R I c call(1)] obtain a' where
    a': "kernel_rel s' (unmasked (primask s) a')" "(r, a') = a_lock m ?b" by blast
  from c obtain d where d: "a_tcb a ?t = Some d" "tcb_state d \<noteq> OS_TASK_BLOCKED" by (auto simp: current_runnable_def)
  have o: "tcb_owned_mutexes d = NULL"
    using holds_no_mutex_owned [OF R S d] n kernel_rel_globals(1) [OF R] by simp
  have B: "kernel_inv ?b" "current_runnable ?b" "g_current (kern ?b) = ?t" "a_tcb ?b ?t = Some d" "inherits k ?b"
    using I c d S by (simp_all add: astate_simps)
  have "inherits k a'"
  proof (cases "mutex_at (kern ?b) m")
    case None
    with a' B(5) show ?thesis by (simp add: a_lock_def)
  next
    case (Some x)
    with a' B inherits_lock_free [OF B(3,4) d(2) o Some _ B(5)] inherits_lock_wait [OF B(1-4) o Some _ _ B(5)] show ?thesis
      by (auto simp: a_lock_def split: if_splits)
  qed
  with a'(1) show ?thesis by (intro exI [of _ "unmasked (primask s) a'"]) simp
qed

lemma inherits_unlock:
  assumes R: "kernel_rel s a" and I: "kernel_inv a" and c: "current_runnable a" and S: "inherits k a" "\<not> fst k" "\<not> pendsv (kern a)"
    and call: "os_kernel_mutex_unlock m s = Some (r, s')" "m \<noteq> NULL"
  shows "\<exists>a'. kernel_rel s' a' \<and> inherits k a'"
proof -
  let ?b = "masked a" and ?t = "g_current (kern a)"
  from mutex_unlock.call_keeps [OF call(2) R I c call(1)] obtain a' x where
    a': "kernel_rel s' (unmasked (primask s) a')" and x: "mutex_at (kern ?b) m = Some x"
    and u: "mtx_owner x \<noteq> ?t \<Longrightarrow> a' = ?b" by (auto simp: unlock_spec_def astate_simps)
  from c obtain d where d: "a_tcb ?b ?t = Some d" "tcb_state d \<noteq> OS_TASK_BLOCKED" by (auto simp: current_runnable_def astate_simps)
  have B: "kernel_inv ?b" "current_runnable ?b" "g_current (kern ?b) = ?t" "inherits k ?b" "\<not> pendsv (kern ?b)"
    using I c S by (simp_all add: astate_simps)
  show ?thesis
  proof (cases "mtx_owner x = ?t")
    case True
    have tn: "?t \<noteq> NULL" using d(1) by auto
    have O: "one_mutex_each (roles ?b) (mutex_view ?b)" using B(4) by (simp add: inherits_def)
    have mv: "mutex_view ?b m = Some (?t, mtx_next_mutex x)" using x True by (simp add: mutex_view_def)
    with one_mutex_eachD(1) [OF O mv tn] d have x0: "mtx_next_mutex x = NULL" "tcb_owned_mutexes d = m" "awaited d = None"
      by (auto simp: roles_Some role_def)
    note U = unlock_sole_refines [OF kernel_rel_masked [OF R] B(1-3) d(1) x0(2) x True x0(1)]
    from U(1) obtain s1 where s1: "unlock_body m (s\<lparr>primask := 1\<rparr>) = Some (0, s1)" "kernel_rel s1 (a_hand_over m (a_set_priority ?t
        (tcb_base_priority d) (a_kern (map_mutex m (\<lambda>x. x\<lparr>mtx_next_mutex := NULL\<rparr>)) (a_upd ?t (\<lambda>c. c\<lparr>tcb_owned_mutexes := NULL\<rparr>) ?b))))" by blast
    have s': "s' = os_port_irq_restore (primask s) s1" using call s1(1) by (simp add: mutex_unlock.call_body)
    note G = roles_give_back [OF B(1) d mv [unfolded x0(1)] U(2)]
    have rt: "roles ?b ?t = Some (tcb_priority d, tcb_base_priority d, m, None)" using d x0 by (simp add: roles_Some role_def)
    from inherits_hand_over [OF B(4) S(2) B(5) kernel_invD(2) [OF B(1)] rt mv [unfolded x0(1)] call(2) G]
      kernel_rel_unmasked [OF s1(2), of "primask s"] s' show ?thesis by (auto intro!: exI [of _ "unmasked (primask s) _"])
  next
    case False
    with a' u B(4) show ?thesis by auto
  qed
qed

text \<open>A request to create a task either leaves the tasks and the scheduler alone or adds one new task.\<close>

lemma create_cases:
  assumes R: "kernel_rel s a" and I: "kernel_inv a" and P: "pools_ok kb ub s xs ys" and l: "large_stack s args"
    and c: "os_kernel_task_create tr ex args s = Some (r, s')"
  shows "sched_same s s' \<or> (\<exists>a' t sp p. kernel_rel s' a' \<and> kernel_inv a' \<and> grows a a' \<and> a_tcb a t = None \<and> t \<noteq> NULL \<and>
    a_tcb a' = (a_tcb a)(t \<mapsto> new_task sp p) \<and> mutex_at (kern a') = mutex_at (kern a) \<and> g_next (kern a') = first_or (ready_order a') NULL \<and>
    (g_current (kern a) \<noteq> NULL \<and> g_next (kern a') \<noteq> g_current (kern a) \<longrightarrow> pendsv (kern a')))"
proof (cases "args = NULL")
  case True
  with c show ?thesis by (simp add: os_kernel_task_create_def)
next
  case False
  with c obtain q where q: "create_args s args = Some q"
    by (cases "create_args s args") (auto simp: os_kernel_task_create_def split: if_splits)
  with l have w: "16 \<le> unat (arg_stack_words q)" by (simp add: large_stack_def)
  have K: "pool_rep KernelObjectPool kb 64 32 s xs" "pool_rep UserStackPool ub 1024 8 s ys" using P by (simp_all add: pools_ok_def)
  show ?thesis
  proof (cases "arg_entry q = NULL \<or> arg_priority q > OS_TASK_IDLE \<or> xs = []")
    case True
    have bad: "os_kernel_task_create tr ex args s = Some (-1, s)" if "arg_entry q = NULL \<or> arg_priority q > OS_TASK_IDLE"
      using that False q by (auto simp: os_kernel_task_create_def)
    have "os_kernel_task_create tr ex args s = Some (-1, s\<lparr>g_debug_step := 1\<rparr>)" if "\<not> (arg_entry q = NULL \<or> arg_priority q > OS_TASK_IDLE)"
      using that True K(1) by (intro task_create_no_object [OF False q, of kb 64 32]) simp_all
    with bad c have "s' = s \<or> s' = s\<lparr>g_debug_step := 1\<rparr>" by (cases "arg_entry q = NULL \<or> arg_priority q > OS_TASK_IDLE") simp_all
    then show ?thesis by auto
  next
    case ok: False
    then obtain t us where xs: "xs = t # us" and v: "arg_entry q \<noteq> NULL" "arg_priority q \<le> OS_TASK_IDLE" by (cases xs) auto
    show ?thesis
    proof (cases "arg_stack_words q > OS_TASK_STACK_WORDS \<or> ys = []")
      case True
      with task_create_no_stack [OF False q v K(1) [unfolded xs] K(2), of tr ex] c show ?thesis by auto
    next
      case False
      then obtain stk zs where y: "ys = stk # zs" "arg_stack_words q \<le> OS_TASK_STACK_WORDS" by (cases ys) auto
      from create_success_grows [OF R I \<open>args \<noteq> NULL\<close> q v w y(2), of kb ub t us stk zs tr ex] P c
      show ?thesis unfolding xs y(1) kernel_rel_tcb_None [OF R] by auto
    qed
  qed
qed

lemma inherits_same:
  assumes R: "kernel_rel s a" and S: "inherits k a" and e: "sched_same s s'"
  shows "\<exists>a'. kernel_rel s' a' \<and> inherits k a'"
proof -
  let ?a = "a\<lparr>kern := core s'\<rparr>"
  have "kern a = core s" using R by (simp add: kernel_rel_def)
  with e have "inherits k ?a = inherits k a"
    by (intro inherits_cong) (simp_all add: sched_same_def mutex_view_def tcb_at_core mutex_at_core fun_eq_iff, simp_all add: core_def)
  with kernel_rel_same(1) [OF R e] S show ?thesis by blast
qed

lemma inherits_create:
  assumes R: "kernel_rel s a" and I: "kernel_inv a" and c: "current_runnable a" and S: "inherits m a" "\<not> fst m"
    and P: "pools_ok kb ub s xs ys" and l: "large_stack s x" and k: "os_kernel_task_create tr ex x s = Some (r, s')"
  shows "\<exists>a'. kernel_rel s' a' \<and> inherits m a'"
  using create_cases [OF R I P l k]
proof (elim disjE exE conjE)
  assume "sched_same s s'"
  then show ?thesis by (rule inherits_same [OF R S(1)])
next
  fix a' t sp p
  assume a': "kernel_rel s' a'" "kernel_inv a'" "grows a a'" "a_tcb a t = None" "t \<noteq> NULL"
    "a_tcb a' = (a_tcb a)(t \<mapsto> new_task sp p)" "mutex_at (kern a') = mutex_at (kern a)" "g_next (kern a') = first_or (ready_order a') NULL"
    "g_current (kern a) \<noteq> NULL \<and> g_next (kern a') \<noteq> g_current (kern a) \<longrightarrow> pendsv (kern a')"
  moreover have "g_current (kern a) \<noteq> NULL" using c by (auto simp: current_runnable_def)
  moreover have "g_current (kern a') = g_current (kern a)" using a'(3) by (simp add: grows_def)
  ultimately show ?thesis using inherits_new [OF S a'(2,4-8), of m] by auto
qed

lemma inherits_unmasked:
  "kernel_rel s' (unmasked k b) \<Longrightarrow> inherits m b \<Longrightarrow> \<exists>a'. kernel_rel s' a' \<and> inherits m a'"
  by (intro exI [of _ "unmasked k b"]) simp

lemma inherits_delay:
  assumes R: "kernel_rel s a" and I: "kernel_inv a" and c: "current_runnable a" and S: "inherits m a"
    and e: "os_kernel_delay_ticks x s = Some s'"
  shows "\<exists>a'. kernel_rel s' a' \<and> inherits m a'"
proof (cases "x = 0")
  case True
  with e os_kernel_yield_refines [OF R I] inherits_yield [OF I S, of m] show ?thesis by (auto simp: os_kernel_delay_ticks_def)
next
  case False
  with e have "delay_call x s = Some (0, s')" by (simp add: delay_call_def)
  from delay.call_keeps [OF False R I c this] have "kernel_rel s' (unmasked (primask s) (a_block SleepQ x False (masked a)))" by blast
  moreover have "kernel_inv (masked a)" "current_runnable (masked a)" "inherits m (masked a)" using I c S by (simp_all add: astate_simps)
  then have "inherits m (a_block SleepQ x False (masked a))"
    by (auto intro!: inherits_block [OF kernel_invD(2) delay_block_pre] simp: False)
  ultimately show ?thesis by (rule inherits_unmasked)
qed

lemma inherits_take:
  assumes R: "kernel_rel s a" and I: "kernel_inv a" and c: "current_runnable a" and S: "inherits m a"
    and e: "os_kernel_sem_take x s = Some (r, s')"
  shows "\<exists>a'. kernel_rel s' a' \<and> inherits m a'"
proof (cases "x = NULL")
  case False
  then have "sem_at s x \<noteq> None"
    using e by (cases "sem_at s x") (auto simp: os_kernel_sem_take_def os_port_irq_save_def kstate_simps)
  then have "sem_at (kern (masked a)) x \<noteq> None" using kernel_rel_sem(1) [OF R] by (simp add: astate_simps)
  moreover have B: "kernel_inv (masked a)" "current_runnable (masked a)" "inherits m (masked a)" using I c S by (simp_all add: astate_simps)
  ultimately show ?thesis using sem_take.call_keeps [OF False R I c e] inherits_unmasked inherits_sem_take [OF B(1,2) _ B(3)] by blast
qed (use e R S in \<open>auto simp: os_kernel_sem_take_def\<close>)

lemma inherits_service:
  assumes R: "kernel_rel s a" and I: "kernel_inv a" and c: "current_runnable a" and S: "inherits m a" "\<not> fst m" "\<not> pendsv (kern a)"
    and P: "pools_ok kb ub s xs ys" and l: "k = OS_SYSCALL_TASK_CREATE \<Longrightarrow> large_stack s x"
    and d: "k = OS_SYSCALL_MUTEX_LOCK \<Longrightarrow> holds_no_mutex s (g_current s)" and k: "kernel_service tr ex k x s = Some (r, s')"
  shows "\<exists>a'. kernel_rel s' a' \<and> inherits m a'"
proof (cases k)
  case OS_SYSCALL_YIELD
  with k os_kernel_yield_refines [OF R I] inherits_yield [OF I S(1), of m] show ?thesis by auto
next
  case OS_SYSCALL_DELAY_TICKS
  with k inherits_delay [OF R I c S(1)] show ?thesis by auto
next
  case OS_SYSCALL_TASK_CREATE
  with k l inherits_create [OF R I c S(1,2) P] show ?thesis by auto
next
  case OS_SYSCALL_MUTEX_LOCK
  with k d inherits_lock [OF R I c S(1), of x r s'] R S(1) show ?thesis
    by (cases "x = NULL") (auto simp: os_kernel_mutex_lock_def)
next
  case OS_SYSCALL_MUTEX_UNLOCK
  with k inherits_unlock [OF R I c S, of x r s'] R S(1) show ?thesis
    by (cases "x = NULL") (auto simp: os_kernel_mutex_unlock_def)
next
  case OS_SYSCALL_SEM_TAKE
  with k inherits_take [OF R I c S(1)] show ?thesis by auto
next
  case OS_SYSCALL_SEM_GIVE
  with k have e: "os_kernel_sem_give x s = Some (r, s')" by simp
  show ?thesis
  proof (cases "x = NULL")
    case False
    have "kernel_inv (masked a)" "inherits m (masked a)" using I S(1) by (simp_all add: astate_simps)
    with sem_give.call_keeps [OF False R I c e] show ?thesis using inherits_unmasked inherits_sem_give by blast
  qed (use e R S(1) in \<open>auto simp: os_kernel_sem_give_def\<close>)
qed

subsection \<open>Steps of the machine\<close>

text \<open>What a disciplined program does: a task that locks a mutex owns none, and nobody initialises a mutex that is owned.\<close>

definition disciplined :: "addr \<Rightarrow> addr \<Rightarrow> machine \<Rightarrow> machine \<Rightarrow> bool" where
  "disciplined tr ex = (\<lambda>(m, c) (m', c').
     (\<forall>r0 r1 rest. m = Thread \<and> take_bit 8 r0 = syscall_number OS_SYSCALL_MUTEX_LOCK \<and> svc tr ex r0 r1 rest c = Some c' \<longrightarrow>
       holds_no_mutex (kst c) (g_current (kst c))) \<and>
     (\<forall>p x r. m = Thread \<and> mutex_at (kst c) p = Some x \<and> os_mutex_init p (kst c) = Some (r, kst c') \<longrightarrow> mtx_owner x = NULL))"

text \<open>A run records whether the last tick came while \<open>os_commit_switch\<close> held a value of \<open>g_next\<close>; the beginning of a switch clears
  that.\<close>

inductive disciplined_run :: "addr \<Rightarrow> addr \<Rightarrow> addr \<Rightarrow> addr \<Rightarrow> addr \<Rightarrow> machine \<Rightarrow> machine \<Rightarrow> bool \<Rightarrow> bool" for tr ex idle kb ub c0 where
  run_start: "disciplined_run tr ex idle kb ub c0 c0 False"
| run_tick: "disciplined_run tr ex idle kb ub c0 c raced \<Longrightarrow> tick_step kb ub c c' \<Longrightarrow>
    disciplined_run tr ex idle kb ub c0 c' (loaded (fst c) \<noteq> None)"
| run_step: "disciplined_run tr ex idle kb ub c0 c raced \<Longrightarrow> machine_step tr ex idle kb ub c c' \<Longrightarrow> \<not> tick_step kb ub c c' \<Longrightarrow>
    disciplined tr ex c c' \<Longrightarrow> disciplined_run tr ex idle kb ub c0 c' (raced \<and> fst c \<noteq> Saved)"

lemma disciplined_reachable: "disciplined_run tr ex idle kb ub c0 c raced \<Longrightarrow> reachable tr ex idle kb ub c0 c"
  by (induction rule: disciplined_run.induct) (auto intro: reachable.intros tick)

text \<open>Unless the switch is raced, the value of \<open>g_next\<close> that \<open>os_commit_switch\<close> holds is the one in memory, and it is what
  \<open>g_current\<close> becomes.\<close>

definition held_ok :: "mode \<Rightarrow> bool \<Rightarrow> kstate \<Rightarrow> bool" where
  "held_ok m raced s \<longleftrightarrow> \<not> raced \<longrightarrow> loaded m \<in> {None, Some (g_next s)} \<and>
     (m = Committing Promote \<and> \<not> pendsv s \<longrightarrow> g_current s = g_next s)"

lemma held_ok_quiet [simp]: "\<not> switching m \<Longrightarrow> held_ok m raced s" "held_ok Saved raced s"
  by (cases m; simp add: held_ok_def)+

definition inherit_inv :: "mode \<Rightarrow> bool \<Rightarrow> kstate \<Rightarrow> bool" where
  "inherit_inv m raced s \<longleftrightarrow> (\<exists>a. kernel_rel s a \<and> inherits (switching m, raced) a) \<and> held_ok m raced s"

lemma inherit_inv_same: "inherit_inv m raced s \<Longrightarrow> sched_same s s' \<Longrightarrow> inherit_inv m raced s'"
  unfolding inherit_inv_def using inherits_same by (fastforce simp: held_ok_def sched_same_def)

lemma inherit_inv_mode: "inherit_inv m raced s \<Longrightarrow> \<not> switching m \<Longrightarrow> \<not> switching m' \<Longrightarrow> inherit_inv m' raced s"
  by (simp add: inherit_inv_def)

lemma inherit_invE:
  assumes "kst_inv idle kb ub m s xs ys" and "inherit_inv m raced s"
  obtains a where "kernel_rel s a" "sched_good idle m a" "kernel_inv a" "pools_ok kb ub s xs ys" "inherits (switching m, raced) a"
  using assms kernel_rel_unique unfolding kst_inv_def inherit_inv_def sched_good_def by metis

lemma inherit_tick:
  assumes "kst_inv idle kb ub m s xs ys" and "inherit_inv m raced s" and "SysTick_Handler s = Some s'" and "m' = m \<or> \<not> switching m'"
  shows "inherit_inv m' (loaded m \<noteq> None) s'"
proof -
  from assms(1,2) obtain a where a: "kernel_rel s a" "kernel_inv a" "inherits (switching m, raced) a" by (rule inherit_invE)
  from SysTick_Handler_refines [OF a(1,2)] assms(3) have R: "kernel_rel s' (a_tick a)" by auto
  have "pendsv (kern (a_tick a)) \<or> g_next (kern (a_tick a)) = g_current (kern (a_tick a))"
    by (auto simp: a_tick_def Let_def astate_simps)
  then have "held_ok m (loaded m \<noteq> None) s'" using kernel_rel_globals [OF R] by (auto simp: held_ok_def)
  then have "held_ok m' (loaded m \<noteq> None) s'" using assms(4) by auto
  with R inherits_tick [OF a(2,3)] show ?thesis by (auto simp: inherit_inv_def)
qed

lemma inherit_commit:
  assumes K: "kst_inv idle kb ub m s xs ys" and S: "inherit_inv m raced s" and st: "commit_step m s m' s'"
  shows "inherit_inv m' (raced \<and> m \<noteq> Saved) s'"
proof -
  from K S obtain a where a: "kernel_rel s a" "sched_good idle m a" "kernel_inv a" "inherits (switching m, raced) a" by (rule inherit_invE)
  note g = kernel_rel_globals [OF a(1)]
  have H: "held_ok m raced s" using S by (simp add: inherit_inv_def)
  have P: "pc_ok m a" "g_next (kern a) \<noteq> NULL" using a(2) by (simp_all add: sched_good_def)
  have same: ?thesis if "switching m" "switching m'" "s' = s" "held_ok m' (raced \<and> m \<noteq> Saved) s"
    using a(1,4) that by (auto simp: inherit_inv_def inherits_def preempts_def)
  have upd: "kernel_rel s' (a_upd p (\<lambda>t. t\<lparr>tcb_state := x\<rparr>) a)"
    if "upd_tcb p (\<lambda>t. t\<lparr>tcb_state := x\<rparr>) s = Some s'" "runnable a p" for p x
    using upd_tcb_refines [OF a(1) runnable_valid [OF that(2)], of "\<lambda>t. t\<lparr>tcb_state := x\<rparr>"] that(1) by auto
  from st show ?thesis
  proof cases
    case (demote prev n)
    then have "runnable a prev" using P(1) by auto
    from upd [OF demote(3) this] inherits_state [OF this _ a(4), of OS_TASK_READY] H demote upd_tcb_globals [OF demote(3)]
    show ?thesis by (auto simp: inherit_inv_def held_ok_def)
  next
    case (assign n)
    have "inherits (True, raced) (a_kern (g_current_update (\<lambda>_. n)) a)" using inherits_current a(4) assign by simp
    with kernel_rel_g_current [OF a(1), of n] H assign show ?thesis by (auto simp: inherit_inv_def held_ok_def)
  next
    case promote
    let ?a = "a_upd (g_current s) (\<lambda>t. t\<lparr>tcb_state := OS_TASK_RUNNING\<rparr>) a"
    have r: "runnable a (g_current s)" using P(1) promote g by simp
    have "inherits (True, raced) ?a" using inherits_state [OF r _ a(4)] promote by simp
    moreover have "lists_inv ?a" using kernel_invD(2) [OF kernel_inv_state [OF a(3) r]] by simp
    ultimately have "inherits (False, raced) ?a"
      using H promote g by (intro inherits_switched) (auto simp: held_ok_def astate_simps)
    with upd [OF promote(3) r] promote show ?thesis by (auto simp: inherit_inv_def)
  qed (use H g P(2) same in \<open>auto simp: held_ok_def\<close>)
qed

lemma inherit_save:
  assumes K: "kst_inv idle kb ub m (kst c) xs ys" and S: "inherit_inv m raced (kst c)" and p: "pendsv (kst c)" and s: "save_context (unpend c) = Some s"
  shows "inherit_inv Saved raced s"
proof -
  let ?u = "(kst c)\<lparr>pendsv := False\<rparr>"
  from K S obtain a where a: "kernel_rel (kst c) a" "kernel_inv a" "inherits (switching m, raced) a" by (rule inherit_invE)
  let ?a = "a_kern (pendsv_update (\<lambda>_. False)) a"
  have R: "kernel_rel ?u ?a" by (rule kernel_rel_pendsv [OF a(1)])
  have "g_next (kern a) = first_or (ready_order a) NULL"
    using a(3) p kernel_rel_globals(4) [OF a(1)] by (simp add: inherits_def preempts_def)
  then have U: "inherits (True, raced) ?a"
    using a(3) by (simp add: inherits_def preempts_def roles_def mutex_view_def ready_order_def astate_simps kstate_simps)
  show ?thesis
  proof (cases "g_first_switch (kst c) = 0")
    case True
    let ?p = "psp c - 4 * of_nat (length (r4_r11 c))"
    let ?v = "store_words ?p (r4_r11 c) ?u"
    from s True have s': "upd_tcb (g_current ?v) (\<lambda>t. t\<lparr>tcb_sp := ?p\<rparr>) ?v = Some s"
      by (simp add: save_context_def unpend_def stmdb_def Let_def)
    from inherits_same [OF R U sched_same_store_words] obtain b where b: "kernel_rel ?v b" "inherits (True, raced) b" by blast
    from upd_tcb_Some_refines [OF b(1) s'] have R': "kernel_rel s (a_upd (g_current ?v) (\<lambda>t. t\<lparr>tcb_sp := ?p\<rparr>) b)" by auto
    have "role (d\<lparr>tcb_sp := ?p\<rparr>) = role d" for d by (simp add: role_def awaited_def home_def)
    then have "roles (a_upd t (\<lambda>t. t\<lparr>tcb_sp := ?p\<rparr>) b) = roles b" for t
      by (auto simp: roles_def astate_simps fun_eq_iff option.map_comp o_def)
    then have "inherits (True, raced) (a_upd t (\<lambda>t. t\<lparr>tcb_sp := ?p\<rparr>) b)" for t
      using b(2) by (simp add: inherits_def preempts_def ready_order_def mutex_view_def astate_simps)
    with R' show ?thesis by (auto simp: inherit_inv_def)
  next
    case False
    then have "s = ?u\<lparr>g_first_switch := 0\<rparr>" using s by (simp add: save_context_def unpend_def)
    then have "sched_same ?u s" by (simp add: sched_same_def kstate_simps)
    with inherits_same [OF R U] show ?thesis by (auto simp: inherit_inv_def)
  qed
qed

lemma inherit_call:
  assumes K: "kst_inv idle kb ub Thread (kst c) xs ys" and S: "inherit_inv Thread raced (kst c)" and n: "\<not> pendsv (kst c)"
    and p: "control c AND 2 \<noteq> 0" "psp c \<noteq> 32" "length rest = 6" and A: "word_addrs (psp c - 32) 8 \<inter> (set xs \<union> set ys) = {}"
    and l: "take_bit 8 r0 = syscall_number OS_SYSCALL_TASK_CREATE \<longrightarrow> large_stack (kst c) r1"
    and d: "take_bit 8 r0 = syscall_number OS_SYSCALL_MUTEX_LOCK \<Longrightarrow> holds_no_mutex (kst c) (g_current (kst c))"
    and k: "svc tr ex r0 r1 rest c = Some c'"
  shows "inherit_inv Handler raced (kst c')"
proof -
  let ?p = "psp c - 32" and ?s = "store_words (psp c - 32) (r0 # r1 # rest) (kst c)"
  from k obtain r s where s: "syscall_switch tr ex r0 r1 ?s = Some (r, s)" "c' = c\<lparr>psp := ?p, kst := store_word ?p (of_int r) s\<rparr>"
    unfolding svc_eq [OF p] by auto
  have K1: "kst_inv idle kb ub Thread ?s xs ys" using kst_inv_store_words [OF K, of ?p "r0 # r1 # rest"] A p(3) by simp
  have S1: "inherit_inv Thread raced ?s" by (rule inherit_inv_same [OF S sched_same_store_words])
  from K1 S1 obtain a where a: "kernel_rel ?s a" "sched_good idle Thread a" "kernel_inv a" "pools_ok kb ub ?s xs ys" "inherits (switching Thread, raced) a"
    by (rule inherit_invE)
  obtain M where M: "?s = (kst c)\<lparr>mem := M\<rparr>" using store_words_frame [of ?p "r0 # r1 # rest" "kst c"] by blast
  have np: "\<not> pendsv (kern a)" using n kernel_rel_globals(4) [OF a(1)] unfolding M by simp
  then have cr: "current_runnable a" using a(2) by (simp add: sched_good_def current_runnable_iff)
  have "inherit_inv Thread raced s"
  proof (cases "\<exists>i. take_bit 8 r0 = syscall_number i")
    case True
    then obtain i where i: "take_bit 8 r0 = syscall_number i" ..
    have ls: "large_stack ?s = large_stack (kst c)" unfolding M by (simp add: large_stack_def fun_eq_iff)
    have hn: "holds_no_mutex ?s (g_current ?s) = holds_no_mutex (kst c) (g_current (kst c))" unfolding M by (simp add: holds_no_mutex_def kstate_simps)
    from s(1) have "kernel_service tr ex i r1 ?s = Some (r, s)" unfolding syscall_switch_id [OF i] .
    moreover have "large_stack ?s r1" if "i = OS_SYSCALL_TASK_CREATE" unfolding ls using l i that by blast
    moreover have "holds_no_mutex ?s (g_current ?s)" if "i = OS_SYSCALL_MUTEX_LOCK" unfolding hn using d i that by blast
    ultimately have "\<exists>b. kernel_rel s b \<and> inherits (switching Thread, raced) b"
      by (intro inherits_service [OF a(1,3) cr a(5) _ np a(4)]) simp_all
    then show ?thesis by (simp add: inherit_inv_def)
  next
    case False
    then have "s = ?s" using syscall_switch_unknown [of r0 tr ex r1 ?s] s(1) by simp
    with S1 show ?thesis by simp
  qed
  from inherit_inv_same [OF this sched_same_store_words, of "psp c - 32" "[of_int r]"] inherit_inv_mode [of Thread raced _ Handler]
  show ?thesis by (simp add: s(2))
qed

lemma inherit_mutex_init:
  assumes K: "kst_inv idle kb ub m s xs ys" and S: "inherit_inv m raced s" "\<not> switching m" and x: "mutex_at s p = Some x" "mtx_waiters x = \<lparr>q_head = NULL, q_tail = NULL\<rparr>"
    "mtx_owner x = NULL" and i: "os_mutex_init p s = Some (r, s')"
  shows "inherit_inv m raced s'"
proof -
  let ?k = "(switching m, raced)"
  from K S(1) obtain a where a: "kernel_rel s a" "kernel_inv a" "inherits (switching m, raced) a" by (rule inherit_invE)
  let ?a = "a_kern (map_mutex p (\<lambda>x. x\<lparr>mtx_owner := NULL\<rparr>)) a"
  have "waitq a (MutexQ p) = []" using x by (intro waitq_emptyq [OF a(1)]) (simp add: get_queue.simps)
  from mutex_init_refines(1) [OF a(1,2) x(1) this] i have R: "kernel_rel s' ?a" by auto
  have "mutex_at (kern a) p = Some (x\<lparr>mtx_waiters := emptyq\<rparr>)" by (rule kernel_rel_mutex(2) [OF a(1) x(1)])
  then have "mutex_view a p = Some (NULL, mtx_next_mutex x)" using x(3) by (simp add: mutex_view_def)
  from mutex_view_owner [OF this, of NULL] this have "mutex_view ?a = mutex_view a" by (simp add: fun_upd_idem)
  then have "inherits ?k ?a = inherits ?k a" by (intro inherits_cong) (simp_all add: astate_simps kstate_simps)
  with R a(3) show ?thesis by (auto simp: inherit_inv_def S(2))
qed

lemma inherit_sem_init:
  assumes K: "kst_inv idle kb ub m s xs ys" and S: "inherit_inv m raced s" "\<not> switching m" and x: "sem_at s p = Some x" "sem_waiters x = \<lparr>q_head = NULL, q_tail = NULL\<rparr>"
    and i: "os_sem_init p n s = Some (r, s')"
  shows "inherit_inv m raced s'"
proof (cases "sint n < 0")
  case True
  with i S(1) show ?thesis by (auto simp: os_sem_init_def)
next
  case False
  let ?k = "(switching m, raced)"
  from K S(1) obtain a where a: "kernel_rel s a" "kernel_inv a" "inherits (switching m, raced) a" by (rule inherit_invE)
  have "waitq a (SemQ p) = []" using x by (intro waitq_emptyq [OF a(1)]) (simp add: get_queue.simps)
  from sem_init_refines(1) [OF a(1,2) x(1) this False] i have "kernel_rel s' (a_kern (set_count p (\<lambda>_. n)) a)" by auto
  moreover have "inherits ?k (a_kern (set_count p (\<lambda>_. n)) a) = inherits ?k a"
    by (intro inherits_cong) (simp_all add: mutex_view_def astate_simps kstate_simps)
  ultimately show ?thesis using a(3) by (auto simp: inherit_inv_def S(2))
qed

lemma inherit_enter:
  assumes K: "kst_inv idle kb ub m (kst c) xs ys" and A: "word_addrs (psp c - 32) 8 \<inter> (set xs \<union> set ys) = {}"
    and w: "length ws = 8" and S: "inherit_inv m raced (kst c)"
  shows "kst_inv idle kb ub m (kst (enter ws c)) xs ys" "inherit_inv m raced (kst (enter ws c))" "pendsv (kst (enter ws c)) = pendsv (kst c)"
proof -
  have "sched_same (kst c) (kst (enter ws c))" by (simp add: sched_same_store_words)
  from this inherit_inv_same [OF S this] show "inherit_inv m raced (kst (enter ws c))" "pendsv (kst (enter ws c)) = pendsv (kst c)"
    by (simp_all add: sched_same_def)
qed (use kst_inv_store_words [OF K, of "psp c - 32" ws] A w in simp)

lemma inherit_tick_step:
  assumes "tick_step kb ub (m, c) (m', c')" and V: "machine_inv idle kb ub (m, c)" and S: "inherit_inv m raced (kst c)"
  shows "inherit_inv m' (loaded m \<noteq> None) (kst c')"
  using assms(1)
proof cases
  case (tick_in_thread ws s)
  from V tick_in_thread(5) obtain xs ys where K: "kst_inv idle kb ub m (kst c) xs ys" "word_addrs (psp c - 32) 8 \<inter> (set xs \<union> set ys) = {}"
    by (rule machine_inv_avoids)
  note E = inherit_enter [OF K tick_in_thread(4) S]
  from inherit_tick [OF E(1,2) tick_in_thread(6), of Handler] tick_in_thread show ?thesis by simp
next
  case (tick_in_handler s)
  from V obtain xs ys where "kst_inv idle kb ub m (kst c) xs ys" by (rule machine_invE)
  from inherit_tick [OF this S] tick_in_handler show ?thesis by auto
qed

lemma inherit_step:
  assumes "machine_step tr ex idle kb ub (m, c) (m', c')" and n: "\<not> tick_step kb ub (m, c) (m', c')"
    and V: "machine_inv idle kb ub (m, c)" and d: "disciplined tr ex (m, c) (m', c')" and S: "inherit_inv m raced (kst c)"
  shows "inherit_inv m' (raced \<and> m \<noteq> Saved) (kst c')"
  using assms(1)
proof cases
  case (compute A M rs p g)
  then have "sched_same (kst c) (kst c')" by (simp add: sched_same_def kstate_simps)
  with compute S show ?thesis by (auto intro: inherit_inv_same)
next
  case (sem_init p x n r s)
  from V obtain xs ys where "kst_inv idle kb ub m (kst c) xs ys" by (rule machine_invE)
  from inherit_sem_init [OF this S _ sem_init(5,6,7)] sem_init show ?thesis by simp
next
  case (mutex_init p y r s)
  from V obtain xs ys where K: "kst_inv idle kb ub m (kst c) xs ys" by (rule machine_invE)
  have "os_mutex_init p (kst c) = Some (r, kst c')" using mutex_init by simp
  then have "mtx_owner y = NULL" using d mutex_init unfolding disciplined_def by blast
  from inherit_mutex_init [OF K S _ mutex_init(5,6) this mutex_init(7)] mutex_init show ?thesis by simp
next
  case (supervisor_call rest r0 r1)
  from V supervisor_call(7) obtain xs ys where K: "kst_inv idle kb ub m (kst c) xs ys" "word_addrs (psp c - 32) 8 \<inter> (set xs \<union> set ys) = {}"
    "control c AND 2 \<noteq> 0" by (rule machine_inv_avoids)
  have "holds_no_mutex (kst c) (g_current (kst c))" if "take_bit 8 r0 = syscall_number OS_SYSCALL_MUTEX_LOCK"
    using d supervisor_call(1,9) that unfolding disciplined_def by blast
  with inherit_call [of idle kb ub c xs ys raced rest r0 r1 tr ex c'] K S supervisor_call show ?thesis by auto
next
  case tick
  with n show ?thesis by simp
next
  case (switch ws s)
  from V switch(6) obtain xs ys where K: "kst_inv idle kb ub m (kst c) xs ys" "word_addrs (psp c - 64) 16 \<inter> (set xs \<union> set ys) = {}"
    by (rule machine_inv_avoids)
  then have "word_addrs (psp c - 32) 8 \<inter> (set xs \<union> set ys) = {}" by (auto simp: frames_split)
  from inherit_enter [OF K(1) this switch(5) S] inherit_save [of idle kb ub m "enter ws c" xs ys raced s] switch show ?thesis by auto
next
  case (switch_chained s)
  from V obtain xs ys where "kst_inv idle kb ub m (kst c) xs ys" by (rule machine_invE)
  from inherit_save [OF this S] switch_chained show ?thesis by auto
next
  case (commit s)
  from V obtain xs ys where K: "kst_inv idle kb ub m (kst c) xs ys" by (rule machine_invE)
  from inherit_commit [OF K S commit(2)] commit(1) show ?thesis by simp
next
  case restore
  then have "kst c' = kst c" by (auto simp: restore_context_def bind_eq_Some_conv)
  with restore inherit_inv_mode [OF S, of Handler] show ?thesis by simp
next
  case resume
  with inherit_inv_mode [OF S, of Thread] show ?thesis by simp
qed

lemma inherit_start:
  assumes "ready_to_run s" and "pendsv s"
  shows "inherit_inv Thread False s"
proof -
  from assms(1) obtain a where a: "kernel_rel s a" "fresh_tasks a" "\<forall>t. a_tcb a t \<noteq> None \<longrightarrow> runnable a t"
    "g_next (kern a) = first_or (ready_order a) NULL" by (auto simp: ready_to_run_def)
  have r: "\<exists>p. roles a t = Some (p, p, NULL, None)" if "roles a t \<noteq> None" for t
    using that a(2,3) awaited_ready by (fastforce simp: roles_def role_def fresh_tasks_def runnable_def)
  have "one_mutex_each (roles a) (mutex_view a)"
  proof (rule one_mutex_eachI)
    show "x = NULL \<and> (\<exists>p b. roles a w = Some (p, b, m, None))" if "mutex_view a m = Some (w, x)" "w \<noteq> NULL" for m w x
      using that a(2) by (auto simp: mutex_view_def fresh_tasks_def)
  qed (use r in \<open>fastforce simp: roles_def mutex_view_def\<close>)+
  moreover have "preempts (False, False) a" using a(4) assms(2) kernel_rel_globals(4) [OF a(1)] by (simp add: preempts_def)
  ultimately show ?thesis using a(1) by (auto simp: inherit_inv_def inherits_def)
qed

subsection \<open>From reset on\<close>

definition waits_for :: "kstate \<Rightarrow> addr \<Rightarrow> addr \<Rightarrow> bool" where
  "waits_for s u t \<longleftrightarrow> (\<exists>k m x. tcb_at s u = Some k \<and> tcb_state k = OS_TASK_BLOCKED \<and> tcb_wait_queue k = Some (MutexQ m) \<and>
     mutex_at s m = Some x \<and> mtx_owner x = t)"

lemma waits_for_iff:
  assumes R: "kernel_rel s a"
  shows "waits_for s u t \<longleftrightarrow> (\<exists>p b n m x. roles a u = Some (p, b, n, Some m) \<and> mutex_view a m = Some (t, x))"
proof -
  have k: "kern a = core s" using R by (simp add: kernel_rel_def)
  have "role (blank_tcb c) = role c" for c by (simp add: role_def awaited_def home_def)
  then have "roles a u = map_option role (tcb_at s u)"
    by (simp add: roles_def k tcb_at_core option.map_comp o_def)
  moreover have "mutex_view a m = map_option (\<lambda>x. (mtx_owner x, mtx_next_mutex x)) (mutex_at s m)" for m
    by (simp add: mutex_view_def k mutex_at_core option.map_comp o_def)
  ultimately show ?thesis
    by (cases "tcb_at s u") (auto simp: waits_for_def role_def awaited_iff home_def)
qed

lemma inherits_priority:
  assumes R: "kernel_rel s a" and L: "lists_inv a" and S: "inherits m a" and k: "tcb_at s t = Some k"
  shows "tcb_priority k = Min (insert (tcb_base_priority k) (task_prio s ` {u. waits_for s u t}))"
proof -
  have O: "one_mutex_each (roles a) (mutex_view a)" using S by (simp add: inherits_def)
  note D = one_mutex_eachD [OF O]
  have tn: "t \<noteq> NULL" by (rule tcb_at_nonnull [OF k])
  have "a_tcb a t = Some (blank_tcb k)" using R k by (simp add: kernel_rel_def tcb_at_core)
  then obtain w where r: "roles a t = Some (tcb_priority k, tcb_base_priority k, tcb_owned_mutexes k, w)"
    by (auto simp: roles_def role_def)
  have pr: "task_prio s u = q" if "roles a u = Some (q, b, n, i)" for u q b n i
    using that kernel_rel_task_prio [OF R] by (auto simp: roles_Some role_def task_prio_def)
  have owner: "w = None \<and> tcb_owned_mutexes k = i" if "mutex_view a i = Some (t, x)" for i x using D(1) [OF that tn] r by auto
  show ?thesis
  proof (cases "w = None \<and> tcb_owned_mutexes k \<noteq> NULL")
    case False
    have "w = None \<or> tcb_priority k = tcb_base_priority k" using D(2) [of t "tcb_priority k" "tcb_base_priority k" "tcb_owned_mutexes k"] r by (cases w) auto
    with False D(3) [of t "tcb_priority k" "tcb_base_priority k" "tcb_owned_mutexes k"] r have "tcb_priority k = tcb_base_priority k" by auto
    moreover have "\<not> waits_for s u t" for u
    proof
      assume "waits_for s u t"
      then obtain i x where "mutex_view a i = Some (t, x)" by (auto simp: waits_for_iff [OF R])
      with owner [OF this] False D(5) show False by auto
    qed
    ultimately show ?thesis by simp
  next
    case True
    let ?n = "tcb_owned_mutexes k"
    from D(3) [of t "tcb_priority k" "tcb_base_priority k" ?n] r True obtain x where
      x: "mutex_view a ?n = Some (t, x)" "least_waiting (roles a) ?n (tcb_base_priority k) (tcb_priority k)" by auto
    have "waits_for s u t \<longleftrightarrow> (\<exists>p b n. roles a u = Some (p, b, n, Some ?n))" for u
      unfolding waits_for_iff [OF R] using x(1) owner by blast
    then have w: "{u. waits_for s u t} = set (waitq a (MutexQ ?n))"
      unfolding waiting_role [OF L, symmetric] by blast
    have e: "task_prio s ` {u. waits_for s u t} = {q. \<exists>u b n. roles a u = Some (q, b, n, Some ?n)}"
    proof (rule set_eqI)
      fix q
      have "q \<in> task_prio s ` {u. waits_for s u t} \<longleftrightarrow> (\<exists>u b n c. roles a u = Some (c, b, n, Some ?n) \<and> task_prio s u = q)"
        unfolding w image_iff waiting_role [OF L] Bex_def by blast
      also have "\<dots> \<longleftrightarrow> (\<exists>u b n. roles a u = Some (q, b, n, Some ?n))" using pr by blast
      finally show "q \<in> task_prio s ` {u. waits_for s u t} \<longleftrightarrow> q \<in> {q. \<exists>u b n. roles a u = Some (q, b, n, Some ?n)}" by simp
    qed
    have "finite (task_prio s ` {u. waits_for s u t})" unfolding w by simp
    moreover have "\<forall>q \<in> insert (tcb_base_priority k) (task_prio s ` {u. waits_for s u t}). tcb_priority k \<le> q"
      using x(2) unfolding e least_waiting_def by blast
    moreover have "tcb_priority k \<in> insert (tcb_base_priority k) (task_prio s ` {u. waits_for s u t})"
      using x(2) unfolding e least_waiting_def by blast
    ultimately show ?thesis by (intro Min_eqI [symmetric]) (simp, blast, blast)
  qed
qed

text \<open>
  C2: Fixed-priority preemptive scheduling with priority inheritance, from reset on. For every application whose tasks lock no
  mutex while they hold one and initialise no mutex that is owned, in every state that is reachable after
  \<open>Reset_Handler\<close> the priority of every task is the most urgent among its base priority and the priorities of all
  tasks that wait for a mutex it owns. No task that can run is more urgent than the one that runs, unless a context switch is
  pending or in progress, or the last tick came in the middle of the last \<open>os_commit_switch\<close>, between its first load of
  \<open>g_next\<close> and its store of \<open>g_current\<close>; that exception ends with the next tick.
\<close>

theorem priority_inheritance_from_reset:
  assumes "image_ok im (msp c)" and "control c = 0" and "length (r4_r11 c) = 8" and "args \<noteq> NULL" and "length rest = 6"
    and "list_all (call_ok ({}, dom (sem_at (kst c)), dom (mutex_at (kst c)))) ks"
    and "\<And>hw. clock = Some hw \<Longrightarrow> clock_starts hw"
    and "kb = kernel_object_pool_storage im" and "ub = user_stack_pool_storage im" and "idle = pool_block kb 64 31"
    and "tr = task_start_trampoline im" and "ex = task_exit_trap im"
  shows "\<exists>c'. Reset_Handler im (run_calls tr ex ks) clock hz args rest c = Some c' \<and>
    (\<forall>m d raced. disciplined_run tr ex idle kb ub (Thread, c') (m, d) raced \<longrightarrow>
      (\<forall>t k. tcb_at (kst d) t = Some k \<longrightarrow>
        tcb_priority k = Min (insert (tcb_base_priority k) (task_prio (kst d) ` {u. waits_for (kst d) u t}))) \<and>
      (\<not> switching m \<and> \<not> pendsv (kst d) \<and> \<not> raced \<longrightarrow>
        (\<forall>u. can_run (kst d) u \<longrightarrow> task_prio (kst d) (g_current (kst d)) \<le> task_prio (kst d) u)))"
proof -
  from reset_machine_inv [OF assms(1-6), of clock hz] assms(7) obtain c' where
    c': "Reset_Handler im (run_calls tr ex ks) clock hz args rest c = Some c'" "machine_inv idle kb ub (Thread, c')"
      "ready_to_run (kst c')" "pendsv (kst c')" by (auto simp: assms(8-))
  have run: "machine_inv idle kb ub x \<and> inherit_inv (fst x) raced (kst (snd x))"
    if "disciplined_run tr ex idle kb ub (Thread, c') x raced" for x raced
    using that
  proof induction
    case run_start
    show ?case using c' inherit_start by simp
  next
    case (run_tick x raced y)
    with machine_inv_tick [of kb ub x y idle] inherit_tick_step [of kb ub "fst x" "snd x" "fst y" "snd y" idle raced]
    show ?case by (simp del: not_None_eq)
  next
    case (run_step x raced y)
    with machine_inv_step [of tr ex idle kb ub x y] inherit_step [of tr ex idle kb ub "fst x" "snd x" "fst y" "snd y"]
    show ?case by simp
  qed
  show ?thesis
  proof (intro exI [of _ c'] conjI allI impI c'(1))
    fix m d raced
    assume "disciplined_run tr ex idle kb ub (Thread, c') (m, d) raced"
    from run [OF this] obtain xs ys where K: "kst_inv idle kb ub m (kst d) xs ys" and S: "inherit_inv m raced (kst d)"
      by (auto elim: machine_invE)
    from K S obtain a where a: "kernel_rel (kst d) a" "kernel_inv a" "inherits (switching m, raced) a" by (rule inherit_invE)
    show "tcb_priority k = Min (insert (tcb_base_priority k) (task_prio (kst d) ` {u. waits_for (kst d) u t}))"
      if "tcb_at (kst d) t = Some k" for t k by (rule inherits_priority [OF a(1) kernel_invD(2) [OF a(2)] a(3) that])
    show "task_prio (kst d) (g_current (kst d)) \<le> task_prio (kst d) u"
      if "\<not> switching m \<and> \<not> pendsv (kst d) \<and> \<not> raced" "can_run (kst d) u" for u
      using that a(3) kernel_rel_globals [OF a(1)]
      by (simp add: inherits_def preempts_def can_run_iff [OF a(1)] kernel_rel_task_prio [OF a(1)])
  qed
qed

theorem priority_inheritance_from_reset_witness:
  "\<exists>c'. Reset_Handler sample_image (run_calls 0x08000101 0x08000201 sample_calls) (Some sample_clock) 72000000 0x20004F00
      (replicate 6 0) (reset_cpu sample) = Some c' \<and>
    (\<forall>m d raced. disciplined_run 0x08000101 0x08000201 (pool_block 0x20004100 64 31) 0x20004100 0x20001000 (Thread, c') (m, d) raced \<longrightarrow>
      (\<forall>t k. tcb_at (kst d) t = Some k \<longrightarrow>
        tcb_priority k = Min (insert (tcb_base_priority k) (task_prio (kst d) ` {u. waits_for (kst d) u t}))) \<and>
      (\<not> switching m \<and> \<not> pendsv (kst d) \<and> \<not> raced \<longrightarrow>
        (\<forall>u. can_run (kst d) u \<longrightarrow> task_prio (kst d) (g_current (kst d)) \<le> task_prio (kst d) u)))"
  by (rule priority_inheritance_from_reset [OF sample_image_ok])
    (simp_all add: reset_cpu_def sample_calls_def sample_clock_starts sample_image_def sample_mutex)

end
