(* ===== verification/Known_Defects.thy ===== *)
theory Known_Defects
  imports Mutex_Properties Semaphore Timing Hardware_Properties Commit_Steps
begin

text \<open>
  What the code does where it does not do what it means to: the limits of the properties of the other theories, each
  as a lemma about the same definitions. The list of owned mutexes loses entries and becomes cyclic in programs that
  are free of deadlocks; a boost of priority stops at the first owner; a tick in the middle of \<open>os_commit_switch\<close> leaves a
  less urgent task running or two tasks marked running; the count of a semaphore overflows; tasks that are due at the same tick wake up in reverse
  order; and a task can neither run functions in kernel flash nor write peripheral registers. Blocks that are freed twice
  are in \<open>Mempool_Properties\<close>, stacks too small for their first frame in \<open>Task_Properties\<close>, a start-up without an
  oscillator in \<open>Hardware_Properties\<close>.
\<close>

unbundle bit_operations_syntax

subsection \<open>Owned mutexes (kernel/mutex.c)\<close>

text \<open>Two tasks of equal priority that lock, unlock and yield. A context switch happens as soon as it is pending.\<close>

datatype mutex_act = Lock addr | Unlock addr | Yield

definition switch_now :: "kstate \<Rightarrow> kstate option" where
  "switch_now s = (if pendsv s then os_commit_switch (s\<lparr>pendsv := False\<rparr>) else Some s)"

fun act :: "mutex_act \<Rightarrow> kstate \<Rightarrow> kstate option" where
  "act (Lock m) s = Option.bind (os_kernel_mutex_lock m s) (\<lambda>(r, s). if r = 0 then switch_now s else None)"
| "act (Unlock m) s = Option.bind (os_kernel_mutex_unlock m s) (\<lambda>(r, s). if r = 0 then switch_now s else None)"
| "act Yield s = Option.bind (os_kernel_yield s) switch_now"

fun acts :: "(addr \<times> mutex_act) list \<Rightarrow> kstate \<Rightarrow> kstate option" where
  "acts [] s = Some s"
| "acts ((t, k) # ks) s = (if g_current s = t then Option.bind (act k s) (acts ks) else None)"

definition pair :: kstate where
  "pair = sample\<lparr>g_priorities := (\<lambda>p. if p = 2 then \<lparr>q_head = 0x200, q_tail = 0x300\<rparr> else if p = 3 then single 0x100 else emptyq),
     g_timeout_queue := emptyq, g_sleep_queue := emptyq,
     tcbs := [0x100 \<mapsto> sample_idle, 0x200 \<mapsto> task0\<lparr>tcb_state := OS_TASK_RUNNING, tcb_next := 0x300\<rparr>,
       0x300 \<mapsto> task0\<lparr>tcb_prev := 0x200\<rparr>],
     mutexes := (\<lambda>m. if m \<in> {0x1000, 0x1100, 0x1200}
       then Some \<lparr>mtx_owner = NULL, mtx_next_mutex = NULL, mtx_waiters = emptyq\<rparr> else None),
     sems := Map.empty\<rparr>"

text \<open>The first task locks two mutexes in order. The second task holds one of them before, and only one at a time: it
  releases it before it locks the other one.\<close>

definition crossing :: "(addr \<times> mutex_act) list" where
  "crossing = [(0x200, Lock 0x1000), (0x200, Yield), (0x300, Lock 0x1100), (0x300, Yield), (0x200, Lock 0x1100),
     (0x300, Unlock 0x1100)]"

definition crossed :: "(addr \<times> mutex_act) list" where
  "crossed = crossing @ [(0x300, Lock 0x1000), (0x200, Unlock 0x1100), (0x200, Unlock 0x1000), (0x200, Yield),
     (0x300, Lock 0x1200)]"

definition mutex_fields :: "kstate \<Rightarrow> addr \<Rightarrow> (addr \<times> addr) option" where
  "mutex_fields s m = map_option (\<lambda>x. (mtx_owner x, mtx_next_mutex x)) (mutex_at s m)"

definition owned_list :: "kstate \<Rightarrow> addr \<Rightarrow> addr option" where
  "owned_list s t = map_option tcb_owned_mutexes (tcb_at s t)"

text \<open>When the second task has released the contended mutex, the first task owns both, but its list holds only that
  one, and the list of the second task, which owns none, holds the other one.\<close>

lemma owned_list_loses_mutex:
  "\<exists>s. acts crossing pair = Some s \<and> mutex_fields s 0x1000 = Some (0x200, NULL) \<and> mutex_fields s 0x1100 = Some (0x200, NULL) \<and>
     owned_list s 0x200 = Some 0x1100 \<and> owned_list s 0x300 = Some 0x1000"
proof -
  have "map_option (\<lambda>s. (mutex_fields s 0x1000, mutex_fields s 0x1100, owned_list s 0x200, owned_list s 0x300)) (acts crossing pair) =
    Some (Some (0x200, NULL), Some (0x200, NULL), Some 0x1100, Some 0x1000)" by code_simp
  then show ?thesis by auto
qed

text \<open>A mutex that is its own successor keeps \<open>os_mutex_recompute_priority\<close> in its loop.\<close>

lemma recompute_loop_cycle:
  assumes "m \<noteq> NULL" and "mutex_at s m = Some x" and "mtx_next_mutex x = m"
  shows "recompute_loop m r s = None"
proof -
  have "\<not> (m' = m \<and> s' = s)" if "recompute_loop m' r' s' = Some y" for m' r' s' y
    using that
  proof (rule recompute_loop.raw_induct [where P = "\<lambda>m' r' s' y. \<not> (m' = m \<and> s' = s)", rotated])
    fix f :: "addr \<Rightarrow> os_task_priority_t \<Rightarrow> kstate \<Rightarrow> os_task_priority_t option" and n q u y
    assume f: "\<And>n q u y. f n q u = Some y \<Longrightarrow> \<not> (n = m \<and> u = s)"
      and body: "(if n = NULL then Some q
         else do {
           x \<leftarrow> mutex_at u n;
           q \<leftarrow> (if q_head (mtx_waiters x) \<noteq> NULL then do {
               h \<leftarrow> tcb_at u (q_head (mtx_waiters x));
               Some (if tcb_priority h < q then tcb_priority h else q)
             } else Some q);
           f (mtx_next_mutex x) q u
         }) = Some y"
    show "\<not> (n = m \<and> u = s)"
    proof
      assume "n = m \<and> u = s"
      with body assms obtain q' where "f m q' s = Some y" by (auto split: bind_splits)
      from f [OF this] show False by simp
    qed
  qed
  then show ?thesis by (cases "recompute_loop m r s") auto
qed

text \<open>The second task then locks the other mutex, waits for it and gets it. It is now its own successor, and the next
  \<open>os_kernel_mutex_unlock\<close> of the task does not return, with interrupts disabled.\<close>

lemma mutex_unlock_hangs:
  "\<exists>s. acts crossed pair = Some s \<and> g_current s = 0x300 \<and> mutex_fields s 0x1200 = Some (0x300, 0x1000) \<and>
     mutex_fields s 0x1000 = Some (0x300, 0x1000) \<and> os_kernel_mutex_unlock 0x1200 s = None"
proof -
  define after where "after s = Option.bind (os_mutex_remove_from_owned 0x300 0x1200 (snd (os_port_irq_save s)))
     (\<lambda>s. Some (g_current s, mutex_fields s 0x1000, owned_list s 0x300))" for s
  have "map_option (\<lambda>s. (g_current s, mutex_fields s 0x1200, mutex_fields s 0x1000,
      Option.bind (os_mutex_remove_from_owned 0x300 0x1200 (snd (os_port_irq_save s)))
        (\<lambda>s. Some (g_current s, mutex_fields s 0x1000, owned_list s 0x300)))) (acts crossed pair) =
    Some (0x300, Some (0x300, 0x1000), Some (0x300, 0x1000), Some (0x300, Some (0x300, 0x1000), Some 0x1000))" by code_simp
  then obtain s where s: "acts crossed pair = Some s" "g_current s = 0x300" "mutex_fields s 0x1200 = Some (0x300, 0x1000)"
    "mutex_fields s 0x1000 = Some (0x300, 0x1000)" "after s = Some (0x300, Some (0x300, 0x1000), Some 0x1000)"
    by (auto simp: after_def)
  let ?s = "snd (os_port_irq_save s)"
  from s(5) obtain s' x c where s': "os_mutex_remove_from_owned 0x300 0x1200 ?s = Some s'" "g_current s' = 0x300"
    "mutex_at s' 0x1000 = Some x" "mtx_next_mutex x = 0x1000" "tcb_at s' 0x300 = Some c" "tcb_owned_mutexes c = 0x1000"
    by (auto simp: after_def mutex_fields_def owned_list_def bind_eq_Some_conv)
  from s(3) obtain y where "mutex_at s 0x1200 = Some y" "mtx_owner y = 0x300" by (auto simp: mutex_fields_def)
  then have "mutex_at ?s 0x1200 = Some y" "g_current ?s = 0x300" "mtx_owner y = 0x300"
    using s(2) by (simp_all add: os_port_irq_save_def mutex_at_def)
  moreover have "os_mutex_recompute_priority 0x300 s' = None"
    using s'(3-6) recompute_loop_cycle [of "0x1000" s' x] by (simp add: os_mutex_recompute_priority_def)
  ultimately have "os_kernel_mutex_unlock 0x1200 s = None"
    using s'(1,2) by (simp add: os_kernel_mutex_unlock_def case_prod_unfold)
  with s show ?thesis by blast
qed

text \<open>A chain of owners. Task \<open>0x500\<close> owns mutex \<open>0x1100\<close> and then waits for \<open>0x1000\<close>, which task \<open>0x200\<close> owns. Task \<open>0x400\<close>, which
  is more urgent, wakes up and locks \<open>0x1100\<close>.\<close>

definition chain :: kstate where
  "chain = sample\<lparr>g_priorities := (\<lambda>p. if p = 2 then \<lparr>q_head = 0x500, q_tail = 0x200\<rparr> else if p = 3 then single 0x100 else emptyq),
     g_current := 0x500, g_next := 0x500,
     tcbs := [0x100 \<mapsto> sample_idle, 0x200 \<mapsto> task0\<lparr>tcb_owned_mutexes := 0x1000, tcb_prev := 0x500\<rparr>, 0x400 \<mapsto> sample_medium,
       0x500 \<mapsto> task0\<lparr>tcb_state := OS_TASK_RUNNING, tcb_owned_mutexes := 0x1100, tcb_next := 0x200\<rparr>],
     mutexes := [0x1000 \<mapsto> \<lparr>mtx_owner = 0x200, mtx_next_mutex = NULL, mtx_waiters = emptyq\<rparr>,
       0x1100 \<mapsto> \<lparr>mtx_owner = 0x500, mtx_next_mutex = NULL, mtx_waiters = emptyq\<rparr>],
     sems := Map.empty\<rparr>"

definition chained :: "kstate option" where
  "chained = Option.bind (act (Lock 0x1000) chain) (\<lambda>s. Option.bind (SysTick_Handler s) (\<lambda>s. Option.bind (switch_now s)
     (act (Lock 0x1100))))"

text \<open>The task that waits has the priority of \<open>0x400\<close> now, but the owner it waits for keeps its own: \<open>blocked_on\<close> is cleared before
  the task has got the mutex, so that the loop over the chain of owners ends with the first one.\<close>

lemma boost_stops_at_first_owner:
  "\<exists>s. chained = Some s \<and> mutex_fields s 0x1100 = Some (0x500, NULL) \<and> waits_for_mutex s 0x400 \<and> task_prio s 0x400 = 1 \<and>
     task_prio s 0x500 = 1 \<and> waits_for_mutex s 0x500 \<and> map_option fst (mutex_fields s 0x1000) = Some 0x200 \<and> task_prio s 0x200 = 2"
proof -
  have "map_option (\<lambda>s. (mutex_fields s 0x1100, mutex_fields s 0x1000, map_option (\<lambda>c. (tcb_state c, tcb_wait_queue c, tcb_priority c)) (tcb_at s 0x400),
      map_option (\<lambda>c. (tcb_state c, tcb_wait_queue c, tcb_priority c)) (tcb_at s 0x500), task_prio s 0x200)) chained =
    Some (Some (0x500, NULL), Some (0x200, 0x1100), Some (OS_TASK_BLOCKED, Some (MutexQ 0x1100), 1),
      Some (OS_TASK_BLOCKED, Some (MutexQ 0x1000), 1), 2)" by code_simp
  then show ?thesis by (auto simp: waits_for_mutex_def task_prio_def)
qed

subsection \<open>Ticks during a context switch (kernel/scheduler.c)\<close>

text \<open>The current task sleeps for one tick, and PendSV has saved its context. The tick that ends the delay comes when
  \<open>os_commit_switch\<close> has loaded \<open>g_next\<close> and has not yet stored it into \<open>g_current\<close>: it wakes the task up, chooses it, sees that it
  is still the current one and asks for no switch. Then \<open>os_commit_switch\<close> makes the idle task current, although the
  task that woke up is more urgent, and no switch is pending.\<close>

lemma tick_during_commit_loses_preemption:
  "\<exists>s1 s2 s3. map_option (pendsv_update (\<lambda>_. False)) (os_kernel_delay_ticks 1 (sample\<lparr>g_tick := 5\<rparr>)) = Some s1 \<and>
     commit_run (Saved, s1) (Committing (Assign 0x100), s1) \<and> SysTick_Handler s1 = Some s2 \<and>
     commit_run (Committing (Assign 0x100), s2) (Committed, s3) \<and>
     \<not> pendsv s3 \<and> g_current s3 = 0x100 \<and> map_option tcb_state (tcb_at s3 0x200) = Some OS_TASK_READY \<and> task_prio s3 0x200 < task_prio s3 0x100"
proof -
  let ?d = "map_option (pendsv_update (\<lambda>_. False)) (os_kernel_delay_ticks 1 (sample\<lparr>g_tick := 5\<rparr>))"
  have 1: "map_option (\<lambda>s. (g_current s, g_next s, map_option tcb_state (tcb_at s 0x200))) ?d = Some (0x200, 0x100, Some OS_TASK_BLOCKED)"
    by code_simp
  then obtain s1 c where s1: "?d = Some s1" "g_current s1 = 0x200" "g_next s1 = 0x100" "tcb_at s1 0x200 = Some c"
    "tcb_state c = OS_TASK_BLOCKED" by auto
  have r1: "commit_run (Saved, s1) (Committing (Assign 0x100), s1)"
    using s1 commit_run_step [OF load_current [of s1]] commit_run_step [OF load_next [of "0x200" s1]]
      commit_run_step [OF compare [of "0x100" "0x100" s1 "0x200"]] commit_run_step [OF check [OF s1(4), of "0x100"]]
      commit_run_step [OF reload [of "0x100" "0x100" s1]] by simp
  have "map_option (\<lambda>s. (pendsv s, g_current s, map_option tcb_state (tcb_at s 0x200), task_prio s 0x200, task_prio s 0x100))
      (Option.bind (Option.bind ?d SysTick_Handler) (finish_switch 0x100)) = Some (False, 0x100, Some OS_TASK_READY, 2, 3)" by code_simp
  then obtain s2 s3 where s2: "SysTick_Handler s1 = Some s2" "finish_switch 0x100 s2 = Some s3"
    and s3: "\<not> pendsv s3" "g_current s3 = 0x100" "map_option tcb_state (tcb_at s3 0x200) = Some OS_TASK_READY"
      "task_prio s3 0x200 = 2" "task_prio s3 0x100 = 3"
    unfolding s1(1) by (auto simp: bind_eq_Some_conv simp del: map_option_eq_Some)
  have "commit_run (Committing (Assign 0x100), s2) (Committed, s3)"
    using s2(2) commit_run_step [OF assign commit_run_step [OF promote commit_run_refl]] by (simp add: finish_switch_def)
  with s1(1) r1 s2(1) s3 show ?thesis by (intro exI [of _ s1] exI [of _ s2] exI [of _ s3]) simp
qed

text \<open>A task that yields and is chosen again is compared with itself, so it is not marked ready. A tick that then wakes a more
  urgent task makes \<open>os_commit_switch\<close> load that task from \<open>g_next\<close>: afterwards both tasks are marked running.\<close>

lemma tick_during_commit_leaves_two_running:
  "\<exists>s1 s2 s3. map_option (pendsv_update (\<lambda>_. False)) (os_kernel_yield sample) = Some s1 \<and>
     commit_run (Saved, s1) (Committing (Reload 0x200), s1) \<and> SysTick_Handler s1 = Some s2 \<and>
     commit_run (Committing (Reload 0x200), s2) (Committed, s3) \<and>
     map_option tcb_state (tcb_at s3 0x200) = Some OS_TASK_RUNNING \<and> map_option tcb_state (tcb_at s3 0x400) = Some OS_TASK_RUNNING"
proof -
  let ?d = "map_option (pendsv_update (\<lambda>_. False)) (os_kernel_yield sample)"
  have "map_option (\<lambda>s. (g_current s, g_next s)) ?d = Some (0x200, 0x200)" by code_simp
  then obtain s1 where s1: "?d = Some s1" "g_current s1 = 0x200" "g_next s1 = 0x200" by auto
  have r1: "commit_run (Saved, s1) (Committing (Reload 0x200), s1)"
    using s1 commit_run_step [OF load_current [of s1]] commit_run_step [OF load_next [of "0x200" s1]]
      commit_run_step [OF compare [of "0x200" "0x200" s1 "0x200"]] by simp
  have "map_option (\<lambda>s. (map_option tcb_state (tcb_at s 0x200), map_option tcb_state (tcb_at s 0x400)))
      (Option.bind (Option.bind ?d SysTick_Handler) (\<lambda>s. finish_switch (g_next s) s)) = Some (Some OS_TASK_RUNNING, Some OS_TASK_RUNNING)"
    by code_simp
  then obtain s2 s3 where s2: "SysTick_Handler s1 = Some s2" "finish_switch (g_next s2) s2 = Some s3"
    and s3: "map_option tcb_state (tcb_at s3 0x200) = Some OS_TASK_RUNNING" "map_option tcb_state (tcb_at s3 0x400) = Some OS_TASK_RUNNING"
    unfolding s1(1) by (auto simp: bind_eq_Some_conv simp del: map_option_eq_Some)
  have "commit_run (Committing (Reload 0x200), s2) (Committed, s3)"
    using s2(2) commit_run_step [OF reload [of "g_next s2" "0x200" s2] commit_run_step [OF assign commit_run_step [OF promote commit_run_refl]]]
    by (simp add: finish_switch_def)
  with s1(1) r1 s2(1) s3 show ?thesis by (intro exI [of _ s1] exI [of _ s2] exI [of _ s3]) simp
qed

subsection \<open>Semaphores (kernel/semaphore.c)\<close>

text \<open>Giving a semaphore with the greatest count makes the count negative.\<close>

lemma sem_give_overflow:
  assumes "sem_at s m = Some x" and "sem_waiters x = emptyq" and "sint (sem_count x) = 2 ^ 31 - 1"
  shows "\<exists>s' x'. os_kernel_sem_give m s = Some (0, s') \<and> sem_at s' m = Some x' \<and> sint (sem_count x') = - (2 ^ 31)"
proof -
  have m: "m \<noteq> NULL" using assms(1) by auto
  have "sem_count x = word_of_int (2 ^ 31 - 1)" unfolding assms(3) [symmetric] by simp
  then have "sem_count x = 0x7FFFFFFF" by simp
  then have "sint (sem_count x + 1) = - (2 ^ 31)" by simp
  moreover have "os_kernel_sem_give m s = Some (0, os_port_irq_restore (fst (os_port_irq_save s))
      (put_sem m (x\<lparr>sem_count := sem_count x + 1\<rparr>) (snd (os_port_irq_save s))))"
    using assms(1,2) m
    by (simp add: os_kernel_sem_give_def os_port_irq_save_def os_task_wake_one_locked_def os_task_queue_pop_head_def
        get_queue.simps sem_at_def upd_sem_def emptyq_def)
  ultimately show ?thesis using m by (simp add: sem_at_def put_sem_def os_port_irq_restore_def)
qed

subsection \<open>Delays (kernel/scheduler.c)\<close>

text \<open>A task that is due at the same tick as the first sleeping task is put before it, and wakes up first.\<close>

lemma equal_wake_ticks_lifo:
  assumes "kernel_rel s a" and "timeoutq a = u # us" and "tcb_at s t = Some c" and "t \<notin> set (timeoutq a)"
    and "tcb_wake_tick c = task_wake s u"
  shows "\<exists>s'. os_timeout_queue_insert_sorted t s = Some s' \<and> kernel_rel s' (a\<lparr>timeoutq := t # u # us\<rparr>)"
proof -
  have "task_wake s t = task_wake s u" using assms(3,5) by (simp add: task_wake_def)
  then have "a_wake a t = a_wake a u" by (simp only: kernel_rel_task_wake [OF assms(1)])
  then have "a_timeout_insert t a = a\<lparr>timeoutq := t # u # us\<rparr>"
    using assms(2) by (simp add: a_timeout_insert_def insert_wake_def os_tick_reached_def)
  with os_timeout_queue_insert_sorted_refines [OF assms(1) _ assms(4)] assms(3) show ?thesis
    by (auto simp: kernel_rel_valid_task [OF assms(1)])
qed

subsection \<open>Protection of tasks\<close>

text \<open>With the memory map of the chip a task can neither run code in kernel flash nor write the registers of a port.\<close>

lemma user_cannot_run_kernel_flash:
  assumes "layout_ok l" and "\<forall>(a, v)\<in>set (io_log c). a \<notin> {MPU_RNR, MPU_RBAR, MPU_RASR}"
    and "drop_bit 8 (io c MPU_TYPE) AND 0xFF \<noteq> 0" and "5 \<le> n" and "n \<le> 16"
    and "in_region (kernel_flash_region_start l) (kernel_flash_region_end l) x"
  shows "\<not> user_access n (os_port_mpu_init l c) op x"
  using user_access_region(1) [OF assms(1-5), of 1 x op] assms(6) by (simp add: layout_regions_def region_ops_def)

lemma user_cannot_write_gpio:
  assumes "\<forall>(a, v)\<in>set (io_log c). a \<notin> {MPU_RNR, MPU_RBAR, MPU_RASR}"
    and "drop_bit 8 (io c MPU_TYPE) AND 0xFF \<noteq> 0" and "5 \<le> n" and "n \<le> 16" and "x \<in> {0x40010810, 0x40011010}"
  shows "\<not> user_access n (os_port_mpu_init stm32f103c8t6 c) op x"
proof (rule user_access_region(2) [OF stm32f103c8t6_ok assms(1-4)], intro allI impI)
  fix i :: nat
  assume "i < 5"
  then have "i \<in> {0, 1, 2, 3, 4}" by auto
  then show "\<not> in_region (fst (layout_regions stm32f103c8t6 ! i)) (snd (layout_regions stm32f103c8t6 ! i)) x"
    using assms(5) by (auto simp: layout_regions_def stm32f103c8t6_def in_region_def)
qed

end
