(* ===== verification/Vectors.thy ===== *)
theory Vectors
  imports Boot Tick
begin

text \<open>
  The vector table of \<open>arch/arm_cm/startup.c\<close>: which code the processor runs for which exception number. The handlers are
  weak aliases of \<open>Default_Handler\<close>; the linker replaces an alias by the function of that name when some file defines one.
  \<open>port.c\<close> defines \<open>SVC_Handler\<close> and \<open>PendSV_Handler\<close>, \<open>tick.c\<close> defines \<open>SysTick_Handler\<close>. Every other exception,
  the fault of a task that violates the memory protection included, ends in \<open>Default_Handler\<close>, which never returns.
\<close>

subsection \<open>Model\<close>

datatype isr_symbol = Reset_isr | NMI_isr | HardFault_isr | MemManage_isr | BusFault_isr | UsageFault_isr | SVC_isr
  | DebugMon_isr | PendSV_isr | SysTick_isr | Default_isr

text \<open>An entry of the table: the initial stack pointer, a handler or zero.\<close>

datatype isr_t = Estack addr | Isr isr_symbol | Zero

fun weak_alias :: "isr_symbol \<Rightarrow> isr_symbol option" where
  "weak_alias NMI_isr = Some Default_isr"
| "weak_alias HardFault_isr = Some Default_isr"
| "weak_alias MemManage_isr = Some Default_isr"
| "weak_alias BusFault_isr = Some Default_isr"
| "weak_alias UsageFault_isr = Some Default_isr"
| "weak_alias SVC_isr = Some Default_isr"
| "weak_alias DebugMon_isr = Some Default_isr"
| "weak_alias PendSV_isr = Some Default_isr"
| "weak_alias SysTick_isr = Some Default_isr"
| "weak_alias _ = None"

definition isr_vector :: "addr \<Rightarrow> isr_t list" where
  "isr_vector estack = [Estack estack, Isr Reset_isr, Isr NMI_isr, Isr HardFault_isr, Isr MemManage_isr, Isr BusFault_isr,
     Isr UsageFault_isr, Zero, Zero, Zero, Zero, Isr SVC_isr, Isr DebugMon_isr, Zero, Isr PendSV_isr, Isr SysTick_isr]"

partial_function (option) Default_Handler :: "cpu \<Rightarrow> cpu option" where
  "Default_Handler c = Default_Handler c"

text \<open>The functions the files of the program define under these names. \<open>reset\<close> is \<open>Reset_Handler\<close> with its parameters,
  \<open>lr\<close> the \<open>EXC_RETURN\<close> value.\<close>

definition strong_isr :: "addr \<Rightarrow> addr \<Rightarrow> (cpu \<Rightarrow> cpu option) \<Rightarrow> u32 \<Rightarrow> isr_symbol \<Rightarrow> (cpu \<Rightarrow> cpu option) option" where
  "strong_isr tr ex reset lr f = (case f of
     Reset_isr \<Rightarrow> Some reset
   | SVC_isr \<Rightarrow> Some (SVC_Handler tr ex lr)
   | PendSV_isr \<Rightarrow> Some PendSV_Handler
   | SysTick_isr \<Rightarrow> Some (\<lambda>c. map_option (\<lambda>s. c\<lparr>kst := s\<rparr>) (SysTick_Handler (kst c)))
   | Default_isr \<Rightarrow> Some Default_Handler
   | _ \<Rightarrow> None)"

definition link_isr :: "addr \<Rightarrow> addr \<Rightarrow> (cpu \<Rightarrow> cpu option) \<Rightarrow> u32 \<Rightarrow> isr_symbol \<Rightarrow> (cpu \<Rightarrow> cpu option) option" where
  "link_isr tr ex reset lr f = (case strong_isr tr ex reset lr f of
     Some g \<Rightarrow> Some g
   | None \<Rightarrow> Option.bind (weak_alias f) (strong_isr tr ex reset lr))"

text \<open>What the processor runs for exception number \<open>n\<close>; it locks up at an entry that is no handler.\<close>

definition take_exception :: "addr \<Rightarrow> addr \<Rightarrow> (cpu \<Rightarrow> cpu option) \<Rightarrow> addr \<Rightarrow> u32 \<Rightarrow> nat \<Rightarrow> cpu \<Rightarrow> cpu option" where
  "take_exception tr ex reset estack lr n c =
     (if length (isr_vector estack) \<le> n then None
      else case isr_vector estack ! n of
        Isr f \<Rightarrow> Option.bind (link_isr tr ex reset lr f) (\<lambda>g. g c)
      | _ \<Rightarrow> None)"

subsection \<open>Dispatch\<close>

lemma Default_Handler_hangs: "Default_Handler c = None"
proof -
  have False if "Default_Handler c = Some d" for d by (rule Default_Handler.raw_induct [OF _ that])
  then show ?thesis by (cases "Default_Handler c") auto
qed

text \<open>The exception numbers of the ARMv7-M architecture: 1 is reset, 11 the supervisor call, 14 PendSV and 15 SysTick.
  Every other one halts the system, in particular 4, the fault raised by the memory protection unit.\<close>

lemma vector_dispatch:
  "take_exception tr ex reset estack lr n = (
     if n = 1 then reset
     else if n = 11 then SVC_Handler tr ex lr
     else if n = 14 then PendSV_Handler
     else if n = 15 then (\<lambda>c. map_option (\<lambda>s. c\<lparr>kst := s\<rparr>) (SysTick_Handler (kst c)))
     else (\<lambda>c. None))"
proof (cases "n < 16")
  case True
  then have "n \<in> set [0..<16]" by simp
  then show ?thesis
    by (auto simp: upt_16 fun_eq_iff take_exception_def isr_vector_def link_isr_def strong_isr_def Default_Handler_hangs)
qed (simp add: fun_eq_iff take_exception_def isr_vector_def)

lemma initial_stack_pointer: "isr_vector estack ! 0 = Estack estack"
  by (simp add: isr_vector_def)

end
