(* ===== verification/Ring.thy ===== *)
theory Ring
  imports Kernel_State
begin

text \<open>
  Circular buffers with a read and a write index. The lock-free queue, the message queue and the debug channels
  all advance an index by one and wrap it at the capacity; the locale \<open>ring_index\<close> is what they share.
\<close>

subsection \<open>Bytes\<close>

type_synonym byte = "8 word"

text \<open>The addresses and the contents of \<open>n\<close> bytes from \<open>p\<close> on.\<close>

definition byte_addrs :: "addr \<Rightarrow> nat \<Rightarrow> addr set" where
  "byte_addrs p n = (\<lambda>i. p + of_nat i) ` {..<n}"

definition bytes_at :: "(addr \<Rightarrow> byte) \<Rightarrow> addr \<Rightarrow> nat \<Rightarrow> byte list" where
  "bytes_at m p n = map (\<lambda>i. m (p + of_nat i)) [0..<n]"

lemma mem_byte_addrs: "i < n \<Longrightarrow> p + of_nat i \<in> byte_addrs p n"
  by (simp add: byte_addrs_def)

lemma offset_inj:
  assumes "i < n" and "j < n" and "n \<le> 2 ^ 32"
  shows "(p :: addr) + of_nat i = p + of_nat j \<longleftrightarrow> i = j"
  using assms by (simp add: word_of_nat_eq_iff take_bit_nat_eq_self)

lemma byte_addrs_apart:
  assumes "unat p + m \<le> unat q" and "unat q + n \<le> 2 ^ 32"
  shows "byte_addrs p m \<inter> byte_addrs q n = {}"
proof -
  have u: "unat (r + of_nat i :: addr) = unat r + i" if "unat r + i < 2 ^ 32" for r :: addr and i
  proof -
    have "unat (of_nat (unat r + i) :: addr) = unat r + i" using that by (simp only: unat_of_nat) simp
    then show ?thesis by simp
  qed
  have "p + of_nat i \<noteq> q + of_nat j" if "i < m" "j < n" for i j
  proof
    assume "p + of_nat i = q + of_nat j"
    then have "unat (p + of_nat i) = unat (q + of_nat j)" by simp
    with u [of p i] u [of q j] that assms show False by simp
  qed
  then show ?thesis by (auto simp: byte_addrs_def)
qed

subsection \<open>Occupied slots\<close>

definition ring_used :: "nat \<Rightarrow> nat \<Rightarrow> nat \<Rightarrow> nat" where
  "ring_used c r w = (if r \<le> w then w - r else c - r + w)"

definition ring_slots :: "nat \<Rightarrow> nat \<Rightarrow> nat \<Rightarrow> nat list" where
  "ring_slots c r w = map (\<lambda>k. (r + k) mod c) [0..<ring_used c r w]"

lemma length_ring_slots [simp]: "length (ring_slots c r w) = ring_used c r w"
  by (simp add: ring_slots_def)

lemma ring_used_less: "r < c \<Longrightarrow> w < c \<Longrightarrow> ring_used c r w < c"
  by (auto simp: ring_used_def)

lemma ring_used_end: "r < c \<Longrightarrow> w < c \<Longrightarrow> (r + ring_used c r w) mod c = w"
  by (auto simp: ring_used_def)

lemma ring_used_write:
  assumes "r < c" and "w < c" and "Suc w mod c \<noteq> r"
  shows "ring_used c r (Suc w mod c) = Suc (ring_used c r w)"
proof (cases "Suc w = c")
  case True
  with assms show ?thesis by (auto simp: ring_used_def)
next
  case False
  with assms have "Suc w mod c = Suc w" by simp
  with assms show ?thesis by (auto simp: ring_used_def)
qed

lemma ring_used_read:
  assumes "r < c" and "w < c" and "r \<noteq> w"
  shows "ring_used c r w = Suc (ring_used c (Suc r mod c) w)"
proof (cases "Suc r = c")
  case True
  with assms show ?thesis by (auto simp: ring_used_def)
next
  case False
  with assms have "Suc r mod c = Suc r" by simp
  with assms show ?thesis by (auto simp: ring_used_def)
qed

lemma ring_slots_empty [simp]: "ring_slots c r r = []"
  by (simp add: ring_slots_def ring_used_def)

lemma ring_slots_write:
  assumes "r < c" and "w < c" and "Suc w mod c \<noteq> r"
  shows "ring_slots c r (Suc w mod c) = ring_slots c r w @ [w]"
  using ring_used_write [OF assms] ring_used_end [OF assms(1,2)] by (simp add: ring_slots_def)

lemma ring_slots_read:
  assumes "r < c" and "w < c" and "r \<noteq> w"
  shows "ring_slots c r w = r # ring_slots c (Suc r mod c) w"
proof -
  have "(r + Suc k) mod c = (Suc r mod c + k) mod c" for k by (simp add: mod_add_left_eq)
  then show ?thesis
    using assms(1) by (simp add: ring_slots_def ring_used_read [OF assms] map_upt_Suc del: upt_Suc add_Suc_right)
qed

lemma ring_slots_bound: "r < c \<Longrightarrow> i \<in> set (ring_slots c r w) \<Longrightarrow> i < c"
  by (auto simp: ring_slots_def)

lemma ring_slots_distinct:
  assumes "r < c" and "w < c"
  shows "distinct (ring_slots c r w)" "w \<notin> set (ring_slots c r w)"
proof -
  have d: "(r + i) mod c \<noteq> (r + j) mod c" if "i < j" "j < c" for i j
  proof
    assume "(r + i) mod c = (r + j) mod c"
    then have "(r + j - (r + i)) mod c = 0" using that by (metis mod_eq_dvd_iff_nat dvd_imp_mod_0 add_le_cancel_left less_imp_le)
    with that show False by simp
  qed
  have "inj_on (\<lambda>k. (r + k) mod c) {0..<c}"
    by (rule linorder_inj_onI) (use d in auto)
  moreover have "ring_used c r w < c" by (rule ring_used_less [OF assms])
  ultimately show "distinct (ring_slots c r w)"
    by (auto simp: ring_slots_def distinct_map intro: inj_on_subset)
  show "w \<notin> set (ring_slots c r w)"
    using d [of _ "ring_used c r w"] ring_used_end [OF assms] ring_used_less [OF assms] by (fastforce simp: ring_slots_def)
qed

subsection \<open>Indices that wrap\<close>

locale ring_index =
  fixes advance :: "u32 \<Rightarrow> u32" and capacity :: u32
  assumes advance_eq: "advance i = (if i + 1 = capacity then 0 else i + 1)"
begin

lemma unat_advance:
  assumes "i < capacity"
  shows "unat (advance i) = Suc (unat i) mod unat capacity"
proof -
  have i: "unat i < unat capacity" using assms by (simp add: word_less_nat_alt)
  then have s: "unat (i + 1) = Suc (unat i)" using unat_Suc_less [of i capacity] assms by simp
  show ?thesis
  proof (cases "i + 1 = capacity")
    case True
    then show ?thesis using s by (simp add: advance_eq)
  next
    case False
    then have "unat (i + 1) \<noteq> unat capacity" by (simp only: word_unat_eq_iff not_False_eq_True)
    with False s i show ?thesis by (simp add: advance_eq)
  qed
qed

lemma advance_less: "i < capacity \<Longrightarrow> advance i < capacity"
proof -
  assume i: "i < capacity"
  then have "0 < unat capacity" by (simp add: word_less_nat_alt)
  then show ?thesis using unat_advance [OF i] by (simp add: word_less_nat_alt)
qed

lemma advance_inj:
  assumes "i < capacity" and "j < capacity" and "advance i = advance j"
  shows "i = j"
proof -
  have b: "unat i < unat capacity" "unat j < unat capacity" using assms by (simp_all add: word_less_nat_alt)
  have "Suc (unat i) mod unat capacity = Suc (unat j) mod unat capacity" using assms unat_advance by metis
  with b have "unat i = unat j"
    by (cases "Suc (unat i) = unat capacity"; cases "Suc (unat j) = unat capacity") auto
  then show ?thesis by (simp only: word_unat_eq_iff)
qed

text \<open>The occupied slots after a write and after a read.\<close>

lemma slots_write:
  assumes "r < capacity" and "w < capacity" and "advance w \<noteq> r"
  shows "ring_slots (unat capacity) (unat r) (unat (advance w)) = ring_slots (unat capacity) (unat r) (unat w) @ [unat w]"
proof -
  have "Suc (unat w) mod unat capacity \<noteq> unat r"
    using assms(3) unat_advance [OF assms(2)] by (metis word_unat_eq_iff)
  with assms(1,2) show ?thesis
    unfolding unat_advance [OF assms(2)] by (intro ring_slots_write) (simp_all add: word_less_nat_alt)
qed

lemma slots_read:
  assumes "r < capacity" and "w < capacity" and "r \<noteq> w"
  shows "ring_slots (unat capacity) (unat r) (unat w) = unat r # ring_slots (unat capacity) (unat (advance r)) (unat w)"
  unfolding unat_advance [OF assms(1)]
  by (rule ring_slots_read) (use assms in \<open>simp_all add: word_less_nat_alt word_unat_eq_iff\<close>)

text \<open>A buffer is full when one slot is left.\<close>

lemma full_iff:
  assumes "r < capacity" and "w < capacity" and "1 < capacity"
  shows "advance w = r \<longleftrightarrow> ring_used (unat capacity) (unat r) (unat w) = unat capacity - 1"
proof -
  have b: "unat r < unat capacity" "unat w < unat capacity" "1 < unat capacity" using assms by (simp_all add: word_less_nat_alt)
  have "advance w = r \<longleftrightarrow> Suc (unat w) mod unat capacity = unat r"
    using unat_advance [OF assms(2)] by (metis word_unat_eq_iff)
  also have "\<dots> \<longleftrightarrow> ring_used (unat capacity) (unat r) (unat w) = unat capacity - 1"
    using b by (cases "Suc (unat w) = unat capacity") (auto simp: ring_used_def)
  finally show ?thesis .
qed

end

end
