(* ===== verification/Lfqueue.thy ===== *)
theory Lfqueue
  imports Ring "HOL-Library.Sublist"
begin

text \<open>
  \<open>kernel/lfqueue.c\<close>: the lock-free queue between one producer and one consumer, and the protocol in which a producer asks for a
  slot, fills it byte by byte and publishes it, while the consumer asks for a filled slot, reads it byte by
  byte and releases it. The two run concurrently: their accesses to the indices and to the storage are
  interleaved in any order. The acquire and release accesses of the source make the model, in which every
  access takes effect at once, adequate.
\<close>

subsection \<open>Model\<close>

record os_spsc_queue_t =
  lf_storage :: addr
  lf_msg_size :: u32
  lf_capacity :: u32
  lf_read_index :: u32
  lf_write_index :: u32

definition lfqueue_next_index :: "os_spsc_queue_t \<Rightarrow> u32 \<Rightarrow> u32" where
  "lfqueue_next_index queue index = (let index = index + 1 in if index = lf_capacity queue then 0 else index)"

text \<open>A queue pointer is an optional queue, \<open>None\<close> for \<open>NULL\<close>.\<close>

definition lfqueue_init :: "os_spsc_queue_t option \<Rightarrow> addr \<Rightarrow> u32 \<Rightarrow> u32 \<Rightarrow> int \<times> os_spsc_queue_t option" where
  "lfqueue_init queue storage msg_size capacity =
     (if queue = None \<or> storage = NULL \<or> msg_size = 0 \<or> capacity < 2 then (-1, queue)
      else (0, Some \<lparr>lf_storage = storage, lf_msg_size = msg_size, lf_capacity = capacity, lf_read_index = 0,
        lf_write_index = 0\<rparr>))"

definition get_write_location :: "os_spsc_queue_t option \<Rightarrow> addr" where
  "get_write_location queue = (case queue of
     None \<Rightarrow> NULL
   | Some q \<Rightarrow>
       (let write_index = lf_write_index q;
            next_write = lfqueue_next_index q write_index;
            read_index = lf_read_index q
        in if next_write = read_index then NULL else lf_storage q + write_index * lf_msg_size q))"

definition update_write_index :: "os_spsc_queue_t option \<Rightarrow> int \<times> os_spsc_queue_t option" where
  "update_write_index queue = (case queue of
     None \<Rightarrow> (-1, None)
   | Some q \<Rightarrow>
       (let write_index = lf_write_index q;
            write_index = lfqueue_next_index q write_index
        in (0, Some (q\<lparr>lf_write_index := write_index\<rparr>))))"

definition get_read_location :: "os_spsc_queue_t option \<Rightarrow> addr" where
  "get_read_location queue = (case queue of
     None \<Rightarrow> NULL
   | Some q \<Rightarrow>
       (let read_index = lf_read_index q;
            write_index = lf_write_index q
        in if read_index = write_index then NULL else lf_storage q + read_index * lf_msg_size q))"

definition update_read_index :: "os_spsc_queue_t option \<Rightarrow> int \<times> os_spsc_queue_t option" where
  "update_read_index queue = (case queue of
     None \<Rightarrow> (-1, None)
   | Some q \<Rightarrow>
       (let read_index = lf_read_index q;
            read_index = lfqueue_next_index q read_index
        in (0, Some (q\<lparr>lf_read_index := read_index\<rparr>))))"

interpretation lf_ring: ring_index "lfqueue_next_index q" "lf_capacity q" for q
  by unfold_locales (simp add: lfqueue_next_index_def Let_def)

subsection \<open>Producer and consumer\<close>

text \<open>The producer has no slot, or a slot, the message and the number of bytes already written; the consumer has no
  slot, or a slot and the bytes already read. \<open>sent\<close> and \<open>received\<close> are the messages so far.\<close>

datatype producer = P_idle | P_slot addr "byte list" nat
datatype consumer = C_idle | C_slot addr "byte list"

record lf_system =
  lf_queue :: os_spsc_queue_t
  lf_bytes :: "addr \<Rightarrow> byte"
  lf_prod :: producer
  lf_cons :: consumer
  lf_sent :: "byte list list"
  lf_received :: "byte list list"

inductive lf_step :: "lf_system \<Rightarrow> lf_system \<Rightarrow> bool" where
  producer_check: "lf_prod s = P_idle \<Longrightarrow> get_write_location (Some (lf_queue s)) = p \<Longrightarrow> p \<noteq> NULL \<Longrightarrow>
    length msg = unat (lf_msg_size (lf_queue s)) \<Longrightarrow> lf_step s (s\<lparr>lf_prod := P_slot p msg 0\<rparr>)"
| producer_byte: "lf_prod s = P_slot p msg k \<Longrightarrow> k < length msg \<Longrightarrow>
    lf_step s (s\<lparr>lf_bytes := (lf_bytes s)(p + of_nat k := msg ! k), lf_prod := P_slot p msg (Suc k)\<rparr>)"
| producer_publish: "lf_prod s = P_slot p msg (length msg) \<Longrightarrow> update_write_index (Some (lf_queue s)) = (0, Some q) \<Longrightarrow>
    lf_step s (s\<lparr>lf_queue := q, lf_prod := P_idle, lf_sent := lf_sent s @ [msg]\<rparr>)"
| consumer_check: "lf_cons s = C_idle \<Longrightarrow> get_read_location (Some (lf_queue s)) = p \<Longrightarrow> p \<noteq> NULL \<Longrightarrow>
    lf_step s (s\<lparr>lf_cons := C_slot p []\<rparr>)"
| consumer_byte: "lf_cons s = C_slot p acc \<Longrightarrow> length acc < unat (lf_msg_size (lf_queue s)) \<Longrightarrow>
    lf_step s (s\<lparr>lf_cons := C_slot p (acc @ [lf_bytes s (p + of_nat (length acc))])\<rparr>)"
| consumer_release: "lf_cons s = C_slot p acc \<Longrightarrow> length acc = unat (lf_msg_size (lf_queue s)) \<Longrightarrow>
    update_read_index (Some (lf_queue s)) = (0, Some q) \<Longrightarrow>
    lf_step s (s\<lparr>lf_queue := q, lf_cons := C_idle, lf_received := lf_received s @ [acc]\<rparr>)"

inductive lf_reachable :: "lf_system \<Rightarrow> lf_system \<Rightarrow> bool" for s0 where
  lf_start: "lf_reachable s0 s0"
| lf_next: "lf_reachable s0 s \<Longrightarrow> lf_step s s' \<Longrightarrow> lf_reachable s0 s'"

subsection \<open>Invariant\<close>

definition lf_ok :: "os_spsc_queue_t \<Rightarrow> bool" where
  "lf_ok q \<longleftrightarrow> lf_storage q \<noteq> NULL \<and> 0 < lf_msg_size q \<and> 1 < lf_capacity q \<and>
     unat (lf_storage q) + unat (lf_capacity q) * unat (lf_msg_size q) < 2 ^ 32 \<and>
     lf_read_index q < lf_capacity q \<and> lf_write_index q < lf_capacity q"

text \<open>The message in a slot, and the messages that are in the queue, oldest first.\<close>

definition lf_message :: "os_spsc_queue_t \<Rightarrow> (addr \<Rightarrow> byte) \<Rightarrow> nat \<Rightarrow> byte list" where
  "lf_message q b i = map (\<lambda>j. b (lf_storage q + of_nat (i * unat (lf_msg_size q) + j))) [0..<unat (lf_msg_size q)]"

definition lf_slots :: "os_spsc_queue_t \<Rightarrow> nat list" where
  "lf_slots q = ring_slots (unat (lf_capacity q)) (unat (lf_read_index q)) (unat (lf_write_index q))"

definition prod_ok :: "os_spsc_queue_t \<Rightarrow> (addr \<Rightarrow> byte) \<Rightarrow> producer \<Rightarrow> bool" where
  "prod_ok q b P = (case P of P_idle \<Rightarrow> True
   | P_slot p msg k \<Rightarrow> p = lf_storage q + lf_write_index q * lf_msg_size q \<and> lfqueue_next_index q (lf_write_index q) \<noteq> lf_read_index q \<and>
       length msg = unat (lf_msg_size q) \<and> k \<le> length msg \<and> take k (lf_message q b (unat (lf_write_index q))) = take k msg)"

definition cons_ok :: "os_spsc_queue_t \<Rightarrow> (addr \<Rightarrow> byte) \<Rightarrow> consumer \<Rightarrow> bool" where
  "cons_ok q b C = (case C of C_idle \<Rightarrow> True
   | C_slot p acc \<Rightarrow> p = lf_storage q + lf_read_index q * lf_msg_size q \<and> lf_read_index q \<noteq> lf_write_index q \<and>
       length acc \<le> unat (lf_msg_size q) \<and> acc = take (length acc) (lf_message q b (unat (lf_read_index q))))"

definition lf_inv :: "lf_system \<Rightarrow> bool" where
  "lf_inv s \<longleftrightarrow> lf_ok (lf_queue s) \<and>
     lf_sent s = lf_received s @ map (lf_message (lf_queue s) (lf_bytes s)) (lf_slots (lf_queue s)) \<and>
     prod_ok (lf_queue s) (lf_bytes s) (lf_prod s) \<and> cons_ok (lf_queue s) (lf_bytes s) (lf_cons s)"

subsection \<open>Slots do not overlap\<close>

lemma length_lf_message [simp]: "length (lf_message q b i) = unat (lf_msg_size q)"
  by (simp add: lf_message_def)

lemma lf_message_cong:
  "lf_storage q' = lf_storage q \<Longrightarrow> lf_msg_size q' = lf_msg_size q \<Longrightarrow> lf_message q' = lf_message q"
  by (simp add: lf_message_def fun_eq_iff)

lemma lf_addr_inj:
  assumes "lf_ok q" and "m < unat (lf_capacity q) * unat (lf_msg_size q)" and "n < unat (lf_capacity q) * unat (lf_msg_size q)"
  shows "lf_storage q + of_nat m = lf_storage q + of_nat n \<longleftrightarrow> m = n"
proof -
  have "m < 2 ^ 32" "n < 2 ^ 32" using assms by (simp_all add: lf_ok_def)
  then show ?thesis by (simp add: word_of_nat_eq_iff take_bit_nat_eq_self)
qed

lemma lf_offset:
  assumes "i < c" and "j < (n :: nat)"
  shows "i * n + j < c * n"
proof -
  have "i * n + j < Suc i * n" using assms(2) by simp
  also have "\<dots> \<le> c * n" using assms(1) by (intro mult_le_mono1) simp
  finally show ?thesis .
qed

lemma lf_message_write:
  assumes ok: "lf_ok q" and i: "i < unat (lf_capacity q)" and w: "w < unat (lf_capacity q)" and k: "k < unat (lf_msg_size q)"
  shows "lf_message q (b(lf_storage q + of_nat (w * unat (lf_msg_size q) + k) := v)) i =
    (if i = w then (lf_message q b i)[k := v] else lf_message q b i)"
proof -
  let ?n = "unat (lf_msg_size q)"
  have e: "lf_storage q + of_nat (i * ?n + j) = lf_storage q + of_nat (w * ?n + k) \<longleftrightarrow> i = w \<and> j = k" if "j < ?n" for j
  proof -
    have "i * ?n + j = w * ?n + k \<longleftrightarrow> i = w \<and> j = k"
      using that k by (metis add.commute div_mult_self_is_m div_mult_self3 div_less mod_less mod_mult_self3 add_0_right gr_implies_not0 nat_neq_iff)
    then show ?thesis using lf_addr_inj [OF ok lf_offset [OF i that] lf_offset [OF w k]] by simp
  qed
  show ?thesis
    by (rule nth_equalityI) (use e in \<open>auto simp: lf_message_def nth_list_update simp del: of_nat_add of_nat_mult\<close>)
qed

lemma lf_slot_addr:
  "lf_storage q + i * lf_msg_size q + of_nat k = lf_storage q + of_nat (unat i * unat (lf_msg_size q) + k)"
  by simp

subsection \<open>Every step keeps the invariant\<close>

lemma lf_ok_bounds:
  assumes "lf_ok q"
  shows "unat (lf_read_index q) < unat (lf_capacity q)" "unat (lf_write_index q) < unat (lf_capacity q)"
    "set (lf_slots q) \<subseteq> {..<unat (lf_capacity q)}" "unat (lf_write_index q) \<notin> set (lf_slots q)"
proof -
  show b: "unat (lf_read_index q) < unat (lf_capacity q)" "unat (lf_write_index q) < unat (lf_capacity q)"
    using assms by (simp_all add: lf_ok_def word_less_nat_alt)
  show "set (lf_slots q) \<subseteq> {..<unat (lf_capacity q)}" using ring_slots_bound [OF b(1)] by (auto simp: lf_slots_def)
  show "unat (lf_write_index q) \<notin> set (lf_slots q)" using ring_slots_distinct(2) [OF b] by (simp add: lf_slots_def)
qed

lemma lf_inv_byte:
  assumes "lf_inv s" and "lf_prod s = P_slot p msg k" and "k < length msg"
  shows "lf_inv (s\<lparr>lf_bytes := (lf_bytes s)(p + of_nat k := msg ! k), lf_prod := P_slot p msg (Suc k)\<rparr>)"
proof -
  let ?q = "lf_queue s" and ?b = "lf_bytes s"
  let ?w = "unat (lf_write_index ?q)" and ?r = "unat (lf_read_index ?q)"
  have ok: "lf_ok ?q" and P: "prod_ok ?q ?b (P_slot p msg k)" and C: "cons_ok ?q ?b (lf_cons s)"
    and S: "lf_sent s = lf_received s @ map (lf_message ?q ?b) (lf_slots ?q)"
    using assms by (auto simp: lf_inv_def)
  have p: "p + of_nat k = lf_storage ?q + of_nat (?w * unat (lf_msg_size ?q) + k)" and l: "length msg = unat (lf_msg_size ?q)"
    and t: "take k (lf_message ?q ?b ?w) = take k msg" and n: "lfqueue_next_index ?q (lf_write_index ?q) \<noteq> lf_read_index ?q"
    using P by (simp_all add: prod_ok_def)
  let ?b' = "?b(p + of_nat k := msg ! k)"
  note b = lf_ok_bounds [OF ok]
  have W: "lf_message ?q ?b' i = (if i = ?w then (lf_message ?q ?b i)[k := msg ! k] else lf_message ?q ?b i)"
    if "i < unat (lf_capacity ?q)" for i
    using lf_message_write [OF ok that b(2), of k] l assms(3) unfolding p by simp
  have "map (lf_message ?q ?b') (lf_slots ?q) = map (lf_message ?q ?b) (lf_slots ?q)"
    using b(3,4) W by (auto intro!: map_cong)
  moreover have "take (Suc k) (lf_message ?q ?b' ?w) = take (Suc k) msg"
    using W [OF b(2)] t assms(3) l by (simp add: take_Suc_conv_app_nth take_update_cancel)
  moreover have "cons_ok ?q ?b' (lf_cons s)"
    using C W [OF b(1)] by (auto simp: cons_ok_def word_unat_eq_iff split: consumer.splits)
  ultimately show ?thesis using ok S P assms(3) by (simp add: lf_inv_def prod_ok_def)
qed

lemma lf_inv_publish:
  assumes "lf_inv s" and "lf_prod s = P_slot p msg (length msg)" and "update_write_index (Some (lf_queue s)) = (0, Some q')"
  shows "lf_inv (s\<lparr>lf_queue := q', lf_prod := P_idle, lf_sent := lf_sent s @ [msg]\<rparr>)"
proof -
  let ?q = "lf_queue s" and ?b = "lf_bytes s"
  have ok: "lf_ok ?q" and P: "prod_ok ?q ?b (P_slot p msg (length msg))" and C: "cons_ok ?q ?b (lf_cons s)"
    and S: "lf_sent s = lf_received s @ map (lf_message ?q ?b) (lf_slots ?q)"
    using assms by (auto simp: lf_inv_def)
  have q': "q' = ?q\<lparr>lf_write_index := lfqueue_next_index ?q (lf_write_index ?q)\<rparr>"
    using assms(3) by (simp add: update_write_index_def Let_def)
  have n: "lfqueue_next_index ?q (lf_write_index ?q) \<noteq> lf_read_index ?q" and l: "length msg = unat (lf_msg_size ?q)"
    and t: "take (length msg) (lf_message ?q ?b (unat (lf_write_index ?q))) = take (length msg) msg"
    using P unfolding prod_ok_def producer.case by blast+
  have m: "lf_message ?q ?b (unat (lf_write_index ?q)) = msg" using t by (simp add: l)
  have M: "lf_message q' = lf_message ?q" by (rule lf_message_cong) (simp_all add: q')
  have i: "lf_read_index ?q < lf_capacity ?q" "lf_write_index ?q < lf_capacity ?q" using ok by (simp_all add: lf_ok_def)
  have "lf_slots q' = lf_slots ?q @ [unat (lf_write_index ?q)]"
    using lf_ring.slots_write [OF i n] by (simp add: lf_slots_def q')
  moreover have "lf_ok q'" using ok lf_ring.advance_less [OF i(2)] by (simp add: lf_ok_def q')
  moreover have "cons_ok q' ?b (lf_cons s)" using C n M by (auto simp: cons_ok_def q' split: consumer.splits)
  ultimately show ?thesis using S m M by (simp add: lf_inv_def prod_ok_def)
qed

lemma lf_inv_release:
  assumes "lf_inv s" and "lf_cons s = C_slot p acc" and "length acc = unat (lf_msg_size (lf_queue s))"
    and "update_read_index (Some (lf_queue s)) = (0, Some q')"
  shows "lf_inv (s\<lparr>lf_queue := q', lf_cons := C_idle, lf_received := lf_received s @ [acc]\<rparr>)"
proof -
  let ?q = "lf_queue s" and ?b = "lf_bytes s"
  have ok: "lf_ok ?q" and P: "prod_ok ?q ?b (lf_prod s)" and C: "cons_ok ?q ?b (C_slot p acc)"
    and S: "lf_sent s = lf_received s @ map (lf_message ?q ?b) (lf_slots ?q)"
    using assms by (auto simp: lf_inv_def)
  have q': "q' = ?q\<lparr>lf_read_index := lfqueue_next_index ?q (lf_read_index ?q)\<rparr>"
    using assms(4) by (simp add: update_read_index_def Let_def)
  have n: "lf_read_index ?q \<noteq> lf_write_index ?q" and m: "lf_message ?q ?b (unat (lf_read_index ?q)) = acc"
    using C assms(3) by (simp_all add: cons_ok_def)
  have M: "lf_message q' = lf_message ?q" by (rule lf_message_cong) (simp_all add: q')
  have i: "lf_read_index ?q < lf_capacity ?q" "lf_write_index ?q < lf_capacity ?q" using ok by (simp_all add: lf_ok_def)
  have N: "lfqueue_next_index q' = lfqueue_next_index ?q" by (simp add: lfqueue_next_index_def fun_eq_iff q')
  have "lf_slots ?q = unat (lf_read_index ?q) # lf_slots q'" using lf_ring.slots_read [OF i n] by (simp add: lf_slots_def q')
  moreover have "lf_ok q'" using ok lf_ring.advance_less [OF i(1)] by (simp add: lf_ok_def q')
  moreover have "prod_ok q' ?b (lf_prod s)"
    using P n M N lf_ring.advance_inj [OF i(2) i(1)] by (auto simp: prod_ok_def q' split: producer.splits)
  ultimately show ?thesis using S m M by (simp add: lf_inv_def cons_ok_def)
qed

lemma lf_inv_step:
  assumes "lf_step s s'" and "lf_inv s"
  shows "lf_inv s'"
  using assms
proof (induction rule: lf_step.induct)
  case (producer_check s p msg)
  then show ?case
    by (auto simp: lf_inv_def prod_ok_def get_write_location_def Let_def split: if_splits)
next
  case (consumer_check s p)
  then show ?case
    by (auto simp: lf_inv_def cons_ok_def get_read_location_def Let_def split: if_splits)
next
  case (consumer_byte s p acc)
  then show ?case
    by (auto simp: lf_inv_def cons_ok_def take_Suc_conv_app_nth lf_message_def add.assoc)
qed (blast intro: lf_inv_byte lf_inv_publish lf_inv_release)+

lemma lf_inv_reachable: "lf_reachable s0 s \<Longrightarrow> lf_inv s0 \<Longrightarrow> lf_inv s"
  by (induction rule: lf_reachable.induct) (auto intro: lf_inv_step)

lemma lf_queue_const:
  "lf_reachable s0 s \<Longrightarrow> lf_capacity (lf_queue s) = lf_capacity (lf_queue s0)"
  by (induction rule: lf_reachable.induct)
    (auto elim!: lf_step.cases simp: update_write_index_def update_read_index_def Let_def)

definition lf_initial :: "os_spsc_queue_t \<Rightarrow> (addr \<Rightarrow> byte) \<Rightarrow> lf_system" where
  "lf_initial q b = \<lparr>lf_queue = q, lf_bytes = b, lf_prod = P_idle, lf_cons = C_idle, lf_sent = [], lf_received = []\<rparr>"

lemma lf_inv_initial:
  assumes "lfqueue_init queue storage msg_size capacity = (0, Some q)"
    and "unat storage + unat capacity * unat msg_size < 2 ^ 32"
  shows "lf_inv (lf_initial q b)" "lf_capacity q = capacity"
proof -
  have q: "q = \<lparr>lf_storage = storage, lf_msg_size = msg_size, lf_capacity = capacity, lf_read_index = 0, lf_write_index = 0\<rparr>"
    and v: "storage \<noteq> NULL" "msg_size \<noteq> 0" "\<not> capacity < 2"
    using assms(1) by (auto simp: lfqueue_init_def split: if_splits)
  have "1 < capacity" using v(3) by (simp add: word_less_nat_alt)
  moreover from this have "0 < capacity" by (simp add: word_less_nat_alt)
  moreover have "0 < msg_size" using v(2) by (simp add: word_gt_0)
  ultimately show "lf_inv (lf_initial q b)" "lf_capacity q = capacity"
    using assms(2) v by (simp_all add: lf_inv_def lf_initial_def lf_ok_def prod_ok_def cons_ok_def lf_slots_def q)
qed

text \<open>
  C20: The lock-free queue. Starting from a freshly initialised queue whose storage fits into memory, after every
  interleaving of the byte-wise accesses of one producer and one consumer, the messages received are a prefix of the
  messages sent (nothing is lost, duplicated, reordered or torn), fewer messages are in transit than the queue
  has slots, and the producer and the consumer never work on the same slot.
\<close>

theorem lfqueue_fifo:
  assumes "lfqueue_init queue storage msg_size capacity = (0, Some q)"
    and "unat storage + unat capacity * unat msg_size < 2 ^ 32" and "lf_reachable (lf_initial q b) s"
  shows "prefix (lf_received s) (lf_sent s) \<and> length (lf_sent s) < length (lf_received s) + unat capacity \<and>
    (\<forall>p msg k p' acc. lf_prod s = P_slot p msg k \<and> lf_cons s = C_slot p' acc \<longrightarrow> p \<noteq> p')"
proof -
  have I0: "lf_inv (lf_initial q b)" "lf_capacity q = capacity" by (rule lf_inv_initial [OF assms(1,2)])+
  have I: "lf_inv s" by (rule lf_inv_reachable [OF assms(3) I0(1)])
  then have ok: "lf_ok (lf_queue s)" and S: "lf_sent s = lf_received s @ map (lf_message (lf_queue s) (lf_bytes s)) (lf_slots (lf_queue s))"
    and P: "prod_ok (lf_queue s) (lf_bytes s) (lf_prod s)" and C: "cons_ok (lf_queue s) (lf_bytes s) (lf_cons s)"
    by (simp_all add: lf_inv_def)
  let ?q = "lf_queue s"
  have c: "lf_capacity ?q = capacity" using lf_queue_const [OF assms(3)] I0(2) by (simp add: lf_initial_def)
  note b = lf_ok_bounds [OF ok]
  have "length (lf_slots ?q) < unat capacity" using ring_used_less [OF b(1,2)] c by (simp add: lf_slots_def)
  moreover have "p \<noteq> p'" if "lf_prod s = P_slot p msg k" "lf_cons s = C_slot p' acc" for p msg k p' acc
  proof -
    have m: "0 < unat (lf_msg_size ?q)" using ok by (simp add: lf_ok_def word_less_nat_alt)
    have "unat (lf_write_index ?q) * unat (lf_msg_size ?q) \<noteq> unat (lf_read_index ?q) * unat (lf_msg_size ?q)"
      using that C m by (auto simp: cons_ok_def word_unat_eq_iff)
    then have "lf_storage ?q + of_nat (unat (lf_write_index ?q) * unat (lf_msg_size ?q)) \<noteq>
        lf_storage ?q + of_nat (unat (lf_read_index ?q) * unat (lf_msg_size ?q))"
      using lf_addr_inj [OF ok lf_offset [OF b(2) m] lf_offset [OF b(1) m]] by simp
    with that P C show ?thesis by (simp add: prod_ok_def cons_ok_def)
  qed
  ultimately show ?thesis using S by auto
qed

text \<open>A producer that has published one message of one byte while the consumer reads it.\<close>

definition lf_sample :: os_spsc_queue_t where
  "lf_sample = \<lparr>lf_storage = 0x20000100, lf_msg_size = 1, lf_capacity = 2, lf_read_index = 0, lf_write_index = 0\<rparr>"

theorem lfqueue_fifo_witness:
  "\<exists>s. lf_reachable (lf_initial lf_sample (\<lambda>_. 0)) s \<and> lf_sent s = [[7]] \<and> prefix (lf_received s) (lf_sent s) \<and>
    length (lf_sent s) < length (lf_received s) + 2"
proof -
  let ?s0 = "lf_initial lf_sample (\<lambda>_. 0)"
  let ?s1 = "?s0\<lparr>lf_prod := P_slot 0x20000100 [7] 0\<rparr>"
  let ?s2 = "?s1\<lparr>lf_bytes := (lf_bytes ?s1)(0x20000100 + of_nat 0 := [7] ! 0), lf_prod := P_slot 0x20000100 [7] (Suc 0)\<rparr>"
  let ?s3 = "?s2\<lparr>lf_queue := lf_sample\<lparr>lf_write_index := 1\<rparr>, lf_prod := P_idle, lf_sent := lf_sent ?s2 @ [[7]]\<rparr>"
  have "lf_step ?s0 ?s1"
    by (rule producer_check) (simp_all add: lf_initial_def lf_sample_def get_write_location_def lfqueue_next_index_def)
  moreover have "lf_step ?s1 ?s2" by (rule producer_byte) simp_all
  moreover have "lf_step ?s2 ?s3"
    by (rule producer_publish [where p = "0x20000100"])
      (simp_all add: lf_initial_def lf_sample_def update_write_index_def lfqueue_next_index_def)
  ultimately have r: "lf_reachable ?s0 ?s3" by (blast intro: lf_start lf_next)
  have i: "lfqueue_init (Some lf_sample) 0x20000100 1 2 = (0, Some lf_sample)" by (simp add: lfqueue_init_def lf_sample_def)
  from lfqueue_fifo [OF i _ r] r show ?thesis by (intro exI [of _ ?s3]) (simp add: lf_initial_def)
qed

text \<open>
  The queue reports full and empty exactly. On a consistent queue \<open>get_write_location\<close> refuses exactly when one slot is left,
  \<open>get_read_location\<close> exactly when no message is in the queue, and otherwise they return the address of the slot
  at the write and the read index. A null queue, null storage, an empty message or a capacity below two is refused.
\<close>

theorem lfqueue_full_empty:
  assumes "lf_ok q"
  shows "(get_write_location (Some q) = NULL \<longleftrightarrow> length (lf_slots q) = unat (lf_capacity q) - 1) \<and>
    (get_read_location (Some q) = NULL \<longleftrightarrow> lf_slots q = []) \<and>
    (length (lf_slots q) < unat (lf_capacity q) - 1 \<longrightarrow>
      unat (get_write_location (Some q)) = unat (lf_storage q) + unat (lf_write_index q) * unat (lf_msg_size q)) \<and>
    (lf_slots q \<noteq> [] \<longrightarrow>
      unat (get_read_location (Some q)) = unat (lf_storage q) + hd (lf_slots q) * unat (lf_msg_size q)) \<and>
    fst (lfqueue_init None a m n) = -1 \<and> fst (lfqueue_init Q NULL m n) = -1 \<and> fst (lfqueue_init Q a 0 n) = -1 \<and>
    fst (lfqueue_init Q a m 0) = -1 \<and> fst (lfqueue_init Q a m 1) = -1"
proof -
  note b = lf_ok_bounds [OF assms]
  have i: "lf_read_index q < lf_capacity q" "lf_write_index q < lf_capacity q" "1 < lf_capacity q" using assms by (simp_all add: lf_ok_def)
  have full: "lfqueue_next_index q (lf_write_index q) = lf_read_index q \<longleftrightarrow> length (lf_slots q) = unat (lf_capacity q) - 1"
    using lf_ring.full_iff [OF i] by (simp add: lf_slots_def)
  have empty: "lf_slots q = [] \<longleftrightarrow> lf_read_index q = lf_write_index q"
    using lf_ring.slots_read [OF i(1,2)] by (cases "lf_read_index q = lf_write_index q") (auto simp: lf_slots_def)
  have hd: "hd (lf_slots q) = unat (lf_read_index q)" if "lf_slots q \<noteq> []"
    using lf_ring.slots_read [OF i(1,2)] that empty by (simp add: lf_slots_def)
  have u: "unat (lf_storage q + x * lf_msg_size q) = unat (lf_storage q) + unat x * unat (lf_msg_size q)"
    if "unat x < unat (lf_capacity q)" for x
  proof -
    have "unat x * unat (lf_msg_size q) \<le> unat (lf_capacity q) * unat (lf_msg_size q)" using that by (intro mult_le_mono1) simp
    moreover have "unat (lf_storage q) + unat (lf_capacity q) * unat (lf_msg_size q) < 2 ^ 32" using assms by (simp add: lf_ok_def)
    ultimately have "unat (lf_storage q) + unat x * unat (lf_msg_size q) < 2 ^ 32" by linarith
    then have "unat (of_nat (unat (lf_storage q) + unat x * unat (lf_msg_size q)) :: u32) = unat (lf_storage q) + unat x * unat (lf_msg_size q)"
      by (simp only: unat_of_nat) simp
    then show ?thesis by simp
  qed
  have nz: "lf_storage q + x * lf_msg_size q \<noteq> NULL" if "unat x < unat (lf_capacity q)" for x
    using u [OF that] assms by (auto simp: lf_ok_def unat_eq_zero)
  show ?thesis
    using full empty hd u nz b(1,2)
    by (auto simp: get_write_location_def get_read_location_def lfqueue_init_def Let_def)
qed

theorem lfqueue_full_empty_witness:
  "lf_ok lf_sample \<and> (get_read_location (Some lf_sample) = NULL \<longleftrightarrow> lf_slots lf_sample = []) \<and>
    (get_write_location (Some lf_sample) = NULL \<longleftrightarrow> length (lf_slots lf_sample) = unat (lf_capacity lf_sample) - 1)"
proof -
  have "lf_ok lf_sample" by (simp add: lf_ok_def lf_sample_def)
  with lfqueue_full_empty [OF this] show ?thesis by blast
qed

end
