(* ===== verification/Rtt.thy ===== *)
theory Rtt
  imports Ring Sample_Kernel
begin

text \<open>
  \<open>kernel/rtt.c\<close>: the debug channels to and from a host that reads and writes the memory of the target. Each channel
  is a circular buffer; the target advances the write offset of the up channel and the read offset of the down
  channel, the host the other two. The model covers the target's functions; the host moves its offsets
  between calls. Interrupts are masked during a transfer.
\<close>

subsection \<open>Model\<close>

record os_rtt_channel_t =
  ch_name :: addr
  ch_buffer :: addr
  ch_size :: u32
  ch_wr_off :: u32
  ch_rd_off :: u32
  ch_flags :: u32

record os_rtt_cb_t =
  rtt_id :: string
  rtt_max_up :: int
  rtt_max_down :: int
  rtt_up :: os_rtt_channel_t
  rtt_down :: os_rtt_channel_t

definition OS_RTT_UP_BUF_SIZE :: u32 where "OS_RTT_UP_BUF_SIZE = 256"
definition OS_RTT_DOWN_BUF_SIZE :: u32 where "OS_RTT_DOWN_BUF_SIZE = 16"
definition OS_RTT_MODE_NO_BLOCK_SKIP :: u32 where "OS_RTT_MODE_NO_BLOCK_SKIP = 1"

text \<open>The initial control block; the linker decides where the buffers and the name are.\<close>

definition g_rtt_cb :: "addr \<Rightarrow> addr \<Rightarrow> addr \<Rightarrow> os_rtt_cb_t" where
  "g_rtt_cb name up_buf down_buf = \<lparr>rtt_id = ''SEGGER RTT'', rtt_max_up = 1, rtt_max_down = 1,
     rtt_up = \<lparr>ch_name = name, ch_buffer = up_buf, ch_size = OS_RTT_UP_BUF_SIZE, ch_wr_off = 0, ch_rd_off = 0,
       ch_flags = OS_RTT_MODE_NO_BLOCK_SKIP\<rparr>,
     rtt_down = \<lparr>ch_name = name, ch_buffer = down_buf, ch_size = OS_RTT_DOWN_BUF_SIZE, ch_wr_off = 0, ch_rd_off = 0,
       ch_flags = OS_RTT_MODE_NO_BLOCK_SKIP\<rparr>\<rparr>"

record rtt_state =
  rtt_cb :: os_rtt_cb_t
  rtt_mem :: "addr \<Rightarrow> byte"
  rtt_kernel :: kstate

text \<open>The offset after the next one, with the wrap of both functions.\<close>

definition rtt_next :: "os_rtt_channel_t \<Rightarrow> u32 \<Rightarrow> u32" where
  "rtt_next ch off = (let next = off + 1 in if next = ch_size ch then 0 else next)"

function rtt_write_loop :: "addr \<Rightarrow> u32 \<Rightarrow> u32 \<Rightarrow> os_rtt_channel_t \<Rightarrow> (addr \<Rightarrow> byte) \<Rightarrow> os_rtt_channel_t \<times> (addr \<Rightarrow> byte)" where
  "rtt_write_loop data len i ch m =
     (if i < len then
        let next = rtt_next ch (ch_wr_off ch) in
        if next = ch_rd_off ch then (ch, m)
        else rtt_write_loop data len (i + 1) (ch\<lparr>ch_wr_off := next\<rparr>) (m(ch_buffer ch + ch_wr_off ch := m (data + i)))
      else (ch, m))"
  by pat_completeness auto
termination
  by (relation "measure (\<lambda>(data, len, i, ch, m). unat len - unat i)") (auto simp: unat_Suc_less word_less_nat_alt)

declare rtt_write_loop.simps [simp del]

definition os_rtt_write :: "addr \<Rightarrow> u32 \<Rightarrow> rtt_state \<Rightarrow> rtt_state" where
  "os_rtt_write data len s =
     (let (primask, k) = os_port_irq_save (rtt_kernel s);
          (ch, m) = rtt_write_loop data len 0 (rtt_up (rtt_cb s)) (rtt_mem s)
      in s\<lparr>rtt_cb := (rtt_cb s)\<lparr>rtt_up := ch\<rparr>, rtt_mem := m, rtt_kernel := os_port_irq_restore primask k\<rparr>)"

text \<open>The loop of \<open>os_rtt_puts\<close> that counts the characters before the terminating zero.\<close>

partial_function (option) rtt_strlen :: "(addr \<Rightarrow> byte) \<Rightarrow> addr \<Rightarrow> u32 \<Rightarrow> u32 option" where
  "rtt_strlen m str len = (if m (str + len) \<noteq> 0 then rtt_strlen m str (len + 1) else Some len)"

declare rtt_strlen.simps [code]

definition os_rtt_puts :: "addr \<Rightarrow> rtt_state \<Rightarrow> rtt_state option" where
  "os_rtt_puts str s = do {
     len \<leftarrow> rtt_strlen (rtt_mem s) str 0;
     Some (os_rtt_write str len s)
   }"

function rtt_read_loop :: "addr \<Rightarrow> u32 \<Rightarrow> u32 \<Rightarrow> os_rtt_channel_t \<Rightarrow> (addr \<Rightarrow> byte) \<Rightarrow> u32 \<times> os_rtt_channel_t \<times> (addr \<Rightarrow> byte)" where
  "rtt_read_loop data len count ch m =
     (if count < len \<and> ch_rd_off ch \<noteq> ch_wr_off ch then
        rtt_read_loop data len (count + 1) (ch\<lparr>ch_rd_off := rtt_next ch (ch_rd_off ch)\<rparr>)
          (m(data + count := m (ch_buffer ch + ch_rd_off ch)))
      else (count, ch, m))"
  by pat_completeness auto
termination
  by (relation "measure (\<lambda>(data, len, count, ch, m). unat len - unat count)") (auto simp: unat_Suc_less word_less_nat_alt)

declare rtt_read_loop.simps [simp del]

definition os_rtt_read :: "addr \<Rightarrow> u32 \<Rightarrow> rtt_state \<Rightarrow> u32 \<times> rtt_state" where
  "os_rtt_read data len s =
     (let (primask, k) = os_port_irq_save (rtt_kernel s);
          (count, ch, m) = rtt_read_loop data len 0 (rtt_down (rtt_cb s)) (rtt_mem s)
      in (count, s\<lparr>rtt_cb := (rtt_cb s)\<lparr>rtt_down := ch\<rparr>, rtt_mem := m, rtt_kernel := os_port_irq_restore primask k\<rparr>))"

interpretation rtt_ring: ring_index "rtt_next ch" "ch_size ch" for ch
  by unfold_locales (simp add: rtt_next_def Let_def)

subsection \<open>Contents of a channel\<close>

definition channel_ok :: "os_rtt_channel_t \<Rightarrow> bool" where
  "channel_ok ch \<longleftrightarrow> 1 < ch_size ch \<and> ch_wr_off ch < ch_size ch \<and> ch_rd_off ch < ch_size ch"

definition channel_slots :: "os_rtt_channel_t \<Rightarrow> nat list" where
  "channel_slots ch = ring_slots (unat (ch_size ch)) (unat (ch_rd_off ch)) (unat (ch_wr_off ch))"

text \<open>The bytes written and not yet read, oldest first, and the room left.\<close>

definition unread :: "os_rtt_channel_t \<Rightarrow> (addr \<Rightarrow> byte) \<Rightarrow> byte list" where
  "unread ch m = map (\<lambda>i. m (ch_buffer ch + of_nat i)) (channel_slots ch)"

definition room :: "os_rtt_channel_t \<Rightarrow> nat" where
  "room ch = unat (ch_size ch) - 1 - length (channel_slots ch)"

definition buffer_addrs :: "os_rtt_channel_t \<Rightarrow> addr set" where
  "buffer_addrs ch = byte_addrs (ch_buffer ch) (unat (ch_size ch))"

lemma channel_bounds:
  assumes "channel_ok ch"
  shows "unat (ch_rd_off ch) < unat (ch_size ch)" "unat (ch_wr_off ch) < unat (ch_size ch)"
    "set (channel_slots ch) \<subseteq> {..<unat (ch_size ch)}" "unat (ch_wr_off ch) \<notin> set (channel_slots ch)"
    "length (channel_slots ch) < unat (ch_size ch)" "1 < unat (ch_size ch)"
proof -
  show b: "unat (ch_rd_off ch) < unat (ch_size ch)" "unat (ch_wr_off ch) < unat (ch_size ch)" "1 < unat (ch_size ch)"
    using assms by (simp_all add: channel_ok_def word_less_nat_alt)
  show "set (channel_slots ch) \<subseteq> {..<unat (ch_size ch)}" using ring_slots_bound [OF b(1)] by (auto simp: channel_slots_def)
  show "unat (ch_wr_off ch) \<notin> set (channel_slots ch)" using ring_slots_distinct(2) [OF b(1,2)] by (simp add: channel_slots_def)
  show "length (channel_slots ch) < unat (ch_size ch)" using ring_used_less [OF b(1,2)] by (simp add: channel_slots_def)
qed

lemma buffer_inj:
  assumes "i < unat (ch_size ch)" and "j < unat (ch_size ch)"
  shows "ch_buffer ch + of_nat i = ch_buffer ch + of_nat j \<longleftrightarrow> i = j"
proof -
  have "i < 4294967296" "j < 4294967296" using assms unat_lt_2p32 [of "ch_size ch"] by linarith+
  then show ?thesis by (simp add: word_of_nat_eq_iff take_bit_nat_eq_self)
qed

subsection \<open>Writing\<close>

lemma unread_write:
  fixes m :: "addr \<Rightarrow> byte"
  assumes ok: "channel_ok ch" and n: "rtt_next ch (ch_wr_off ch) \<noteq> ch_rd_off ch"
    and ch'_def: "ch' = ch\<lparr>ch_wr_off := rtt_next ch (ch_wr_off ch)\<rparr>" and m'_def: "m' = m(ch_buffer ch + ch_wr_off ch := v)"
  shows "unread ch' m' = unread ch m @ [v]" "channel_ok ch'" "room ch = Suc (room ch')"
proof -
  note b = channel_bounds [OF ok]
  have i: "ch_rd_off ch < ch_size ch" "ch_wr_off ch < ch_size ch" "1 < ch_size ch" using ok by (simp_all add: channel_ok_def)
  have s: "channel_slots ch' = channel_slots ch @ [unat (ch_wr_off ch)]"
    using rtt_ring.slots_write [OF i(1,2) n] by (simp add: channel_slots_def ch'_def)
  have w: "ch_buffer ch + ch_wr_off ch = ch_buffer ch + of_nat (unat (ch_wr_off ch))" by simp
  have "m' (ch_buffer ch + of_nat j) = m (ch_buffer ch + of_nat j)" if "j \<in> set (channel_slots ch)" for j
    using buffer_inj [OF _ b(2), of j] b(3,4) that unfolding m'_def w by auto
  then have "unread ch' m' = unread ch m @ [m' (ch_buffer ch + ch_wr_off ch)]"
    by (simp add: unread_def s) (simp add: ch'_def)
  then show "unread ch' m' = unread ch m @ [v]" by (simp add: m'_def)
  show ok': "channel_ok ch'" using ok rtt_ring.advance_less [OF i(2)] by (simp add: channel_ok_def ch'_def)
  have "length (channel_slots ch') < unat (ch_size ch)" using channel_bounds(5) [OF ok'] by (simp add: ch'_def)
  then show "room ch = Suc (room ch')" using s b(5) by (simp add: room_def ch'_def)
qed

lemma room_zero:
  assumes "channel_ok ch"
  shows "rtt_next ch (ch_wr_off ch) = ch_rd_off ch \<longleftrightarrow> room ch = 0"
proof -
  note b = channel_bounds [OF assms]
  have i: "ch_rd_off ch < ch_size ch" "ch_wr_off ch < ch_size ch" "1 < ch_size ch" using assms by (simp_all add: channel_ok_def)
  show ?thesis using rtt_ring.full_iff [OF i] b(5) by (auto simp: room_def channel_slots_def)
qed

lemma write_slot: "channel_ok ch \<Longrightarrow> ch_buffer ch + ch_wr_off ch \<in> buffer_addrs ch"
  using mem_byte_addrs [of "unat (ch_wr_off ch)" "unat (ch_size ch)" "ch_buffer ch"] channel_bounds(2) [of ch]
  by (simp add: buffer_addrs_def)

text \<open>What a write leaves alone, whatever the data.\<close>

lemma write_loop_frame:
  assumes "channel_ok ch" and "rtt_write_loop data len i ch m = (ch', m')"
  shows "channel_ok ch' \<and> (\<forall>x. x \<notin> buffer_addrs ch \<longrightarrow> m' x = m x) \<and> (\<exists>w. ch' = ch\<lparr>ch_wr_off := w\<rparr>)"
  using assms
proof (induction data len i ch m rule: rtt_write_loop.induct)
  case (1 data len i ch m)
  let ?w = "rtt_next ch (ch_wr_off ch)"
  let ?ch = "ch\<lparr>ch_wr_off := ?w\<rparr>" and ?m = "m(ch_buffer ch + ch_wr_off ch := m (data + i))"
  show ?case
  proof (cases "i < len \<and> ?w \<noteq> ch_rd_off ch")
    case False
    then have "rtt_write_loop data len i ch m = (ch, m)" by (auto simp: rtt_write_loop.simps [of data len i ch m] Let_def)
    with "1.prems" have "ch' = ch" "m' = m" by simp_all
    moreover have "\<exists>w. ch = ch\<lparr>ch_wr_off := w\<rparr>" by (rule exI [of _ "ch_wr_off ch"]) simp
    ultimately show ?thesis using "1.prems"(1) by simp
  next
    case True
    then have e: "rtt_write_loop data len i ch m = rtt_write_loop data len (i + 1) ?ch ?m"
      by (simp add: rtt_write_loop.simps [of data len i ch m] Let_def)
    have c: "channel_ok ?ch" using "1.prems"(1) rtt_ring.advance_less [of "ch_wr_off ch" ch] by (simp add: channel_ok_def)
    note write_slot [OF "1.prems"(1)]
    moreover have "buffer_addrs ?ch = buffer_addrs ch" by (simp add: buffer_addrs_def)
    moreover have "rtt_write_loop data len (i + 1) ?ch ?m = (ch', m')" using e "1.prems"(2) by simp
    from "1.IH" [OF conjunct1 [OF True] refl conjunct2 [OF True] c this]
    have "channel_ok ch'" "\<forall>x. x \<notin> buffer_addrs ?ch \<longrightarrow> m' x = ?m x" "\<exists>w. ch' = ch\<lparr>ch_wr_off := w\<rparr>" by auto
    ultimately show ?thesis by auto
  qed
qed

lemma write_loop:
  assumes "channel_ok ch" and "buffer_addrs ch \<inter> byte_addrs data (unat len) = {}" and "i \<le> len"
    and "rtt_write_loop data len i ch m = (ch', m')"
  shows "unread ch' m' = unread ch m @ take (room ch) (map (\<lambda>j. m (data + of_nat j)) [unat i..<unat len])"
  using assms
proof (induction data len i ch m rule: rtt_write_loop.induct)
  case (1 data len i ch m)
  let ?w = "rtt_next ch (ch_wr_off ch)"
  let ?ch = "ch\<lparr>ch_wr_off := ?w\<rparr>" and ?m = "m(ch_buffer ch + ch_wr_off ch := m (data + i))"
  show ?case
  proof (cases "i < len \<and> ?w \<noteq> ch_rd_off ch")
    case False
    then have "rtt_write_loop data len i ch m = (ch, m)" by (auto simp: rtt_write_loop.simps [of data len i ch m] Let_def)
    with "1.prems"(4) have "ch' = ch" "m' = m" by simp_all
    moreover have "room ch = 0 \<or> unat i = unat len"
      using False "1.prems"(3) room_zero [OF "1.prems"(1)] by (auto simp: word_less_nat_alt word_le_nat_alt)
    ultimately show ?thesis by auto
  next
    case True
    have W: "unread ?ch ?m = unread ch m @ [m (data + i)]" "channel_ok ?ch" "room ch = Suc (room ?ch)"
      by (rule unread_write [OF "1.prems"(1) conjunct2 [OF True] refl refl])+
    have l: "rtt_write_loop data len (i + 1) ?ch ?m = (ch', m')"
      using "1.prems"(4) True by (simp add: rtt_write_loop.simps [of data len i ch m] Let_def)
    have i1: "unat (i + 1) = Suc (unat i)" using True unat_Suc_less by blast
    then have le: "i + 1 \<le> len" using True by (simp add: word_less_nat_alt word_le_nat_alt)
    have bf: "buffer_addrs ?ch = buffer_addrs ch" by (simp add: buffer_addrs_def)
    have same: "?m (data + of_nat j) = m (data + of_nat j)" if "j < unat len" for j
      using "1.prems"(2) write_slot [OF "1.prems"(1)] mem_byte_addrs [OF that, of data] by auto
    have dj: "buffer_addrs ?ch \<inter> byte_addrs data (unat len) = {}" unfolding bf by (rule "1.prems"(2))
    have c: "[unat i..<unat len] = unat i # [Suc (unat i)..<unat len]" using True by (simp add: upt_conv_Cons word_less_nat_alt)
    have e: "map (\<lambda>j. ?m (data + of_nat j)) [Suc (unat i)..<unat len] = map (\<lambda>j. m (data + of_nat j)) [Suc (unat i)..<unat len]"
      by (rule map_cong [OF refl]) (rule same, simp)
    show ?thesis
      by (rule trans [OF "1.IH" [OF conjunct1 [OF True] refl conjunct2 [OF True] W(2) dj le l, unfolded i1 W(1) e]])
        (simp add: W(3) c)
  qed
qed

lemma rtt_write_frame:
  assumes "channel_ok (rtt_up (rtt_cb s))"
  shows "channel_ok (rtt_up (rtt_cb (os_rtt_write data len s)))"
    "ch_buffer (rtt_up (rtt_cb (os_rtt_write data len s))) = ch_buffer (rtt_up (rtt_cb s))"
    "ch_size (rtt_up (rtt_cb (os_rtt_write data len s))) = ch_size (rtt_up (rtt_cb s))"
    "x \<notin> buffer_addrs (rtt_up (rtt_cb s)) \<Longrightarrow> rtt_mem (os_rtt_write data len s) x = rtt_mem s x"
proof -
  obtain ch m where l: "rtt_write_loop data len 0 (rtt_up (rtt_cb s)) (rtt_mem s) = (ch, m)"
    by (cases "rtt_write_loop data len 0 (rtt_up (rtt_cb s)) (rtt_mem s)")
  from write_loop_frame [OF assms l] obtain w where
    "channel_ok ch" "\<forall>x. x \<notin> buffer_addrs (rtt_up (rtt_cb s)) \<longrightarrow> m x = rtt_mem s x" "ch = (rtt_up (rtt_cb s))\<lparr>ch_wr_off := w\<rparr>" by blast
  then show "channel_ok (rtt_up (rtt_cb (os_rtt_write data len s)))"
    "ch_buffer (rtt_up (rtt_cb (os_rtt_write data len s))) = ch_buffer (rtt_up (rtt_cb s))"
    "ch_size (rtt_up (rtt_cb (os_rtt_write data len s))) = ch_size (rtt_up (rtt_cb s))"
    "x \<notin> buffer_addrs (rtt_up (rtt_cb s)) \<Longrightarrow> rtt_mem (os_rtt_write data len s) x = rtt_mem s x"
    by (simp_all add: os_rtt_write_def l split: prod.split)
qed

text \<open>
  C31: \<open>os_rtt_write\<close> appends to the unread bytes of the up channel as many bytes of the data as fit, in order, and drops the
  rest; unread bytes are never overwritten, nothing outside the channel's buffer changes, and the interrupt mask is what
  it was.
\<close>

theorem rtt_write_appends:
  assumes "channel_ok (rtt_up (rtt_cb s))" and "buffer_addrs (rtt_up (rtt_cb s)) \<inter> byte_addrs data (unat len) = {}"
  shows "let s' = os_rtt_write data len s; ch = rtt_up (rtt_cb s); ch' = rtt_up (rtt_cb s') in
    channel_ok ch' \<and> unread ch' (rtt_mem s') = unread ch (rtt_mem s) @ take (room ch) (bytes_at (rtt_mem s) data (unat len)) \<and>
    ch_rd_off ch' = ch_rd_off ch \<and> (\<forall>x. x \<notin> buffer_addrs ch \<longrightarrow> rtt_mem s' x = rtt_mem s x) \<and>
    rtt_down (rtt_cb s') = rtt_down (rtt_cb s) \<and> rtt_kernel s' = rtt_kernel s"
proof -
  obtain ch' m' where l: "rtt_write_loop data len 0 (rtt_up (rtt_cb s)) (rtt_mem s) = (ch', m')" by (cases "rtt_write_loop data len 0 (rtt_up (rtt_cb s)) (rtt_mem s)")
  from write_loop [OF assms _ l] write_loop_frame [OF assms(1) l]
  have W: "channel_ok ch'" "unread ch' m' = unread (rtt_up (rtt_cb s)) (rtt_mem s) @
      take (room (rtt_up (rtt_cb s))) (bytes_at (rtt_mem s) data (unat len))"
    "\<forall>x. x \<notin> buffer_addrs (rtt_up (rtt_cb s)) \<longrightarrow> m' x = rtt_mem s x" "\<exists>w. ch' = (rtt_up (rtt_cb s))\<lparr>ch_wr_off := w\<rparr>"
    by (simp_all add: bytes_at_def)
  have "ch_rd_off ch' = ch_rd_off (rtt_up (rtt_cb s))" using W(4) by auto
  with W(1-3) show ?thesis
    by (simp add: os_rtt_write_def l os_port_irq_save_def os_port_irq_restore_def Let_def)
qed

text \<open>A control block whose up channel holds two unread bytes and is about to wrap.\<close>

definition rtt_sample :: rtt_state where
  "rtt_sample = \<lparr>rtt_cb = (g_rtt_cb 0x100 0x20000400 0x20000600)\<lparr>rtt_up := \<lparr>ch_name = 0x100, ch_buffer = 0x20000400, ch_size = 256,
       ch_wr_off = 255, ch_rd_off = 253, ch_flags = 1\<rparr>,
     rtt_down := \<lparr>ch_name = 0x100, ch_buffer = 0x20000600, ch_size = 16, ch_wr_off = 1, ch_rd_off = 14, ch_flags = 1\<rparr>\<rparr>,
     rtt_mem = (\<lambda>a. ucast a), rtt_kernel = sample\<rparr>"

theorem rtt_write_appends_witness:
  "let s' = os_rtt_write 0x20000800 4 rtt_sample; ch = rtt_up (rtt_cb rtt_sample); ch' = rtt_up (rtt_cb s') in
    channel_ok ch' \<and> unread ch' (rtt_mem s') = unread ch (rtt_mem rtt_sample) @ take (room ch) (bytes_at (rtt_mem rtt_sample) 0x20000800 4) \<and>
    ch_rd_off ch' = ch_rd_off ch"
proof -
  have "channel_ok (rtt_up (rtt_cb rtt_sample))" by (simp add: rtt_sample_def channel_ok_def)
  moreover have "buffer_addrs (rtt_up (rtt_cb rtt_sample)) \<inter> byte_addrs 0x20000800 (unat (4 :: u32)) = {}"
    using byte_addrs_apart [of "0x20000400" 256 "0x20000800" 4] by (simp add: rtt_sample_def buffer_addrs_def)
  ultimately show ?thesis using rtt_write_appends [of rtt_sample "0x20000800" 4] by (simp add: Let_def)
qed

subsection \<open>Strings\<close>

lemma strlen_returns:
  assumes "m (str + of_nat n) = 0" and "\<And>i. i < n \<Longrightarrow> m (str + of_nat i) \<noteq> 0" and "i \<le> n"
  shows "rtt_strlen m str (of_nat i) = Some (of_nat n)"
  using assms(3)
proof (induction "n - i" arbitrary: i)
  case 0
  with assms(1) show ?case by (subst rtt_strlen.simps) simp
next
  case (Suc k)
  then have "i < n" "k = n - Suc i" "Suc i \<le> n" by simp_all
  with Suc.hyps(1) [of "Suc i"] assms(2) show ?case by (subst rtt_strlen.simps) (simp add: add.commute)
qed

text \<open>
  C38: \<open>os_rtt_puts\<close> on a zero-terminated string returns and writes exactly the characters before the terminator.
\<close>

theorem rtt_puts_writes_string:
  assumes "rtt_mem s (str + of_nat n) = 0" and "\<And>i. i < n \<Longrightarrow> rtt_mem s (str + of_nat i) \<noteq> 0"
  shows "os_rtt_puts str s = Some (os_rtt_write str (of_nat n) s)"
  using strlen_returns [of "rtt_mem s" str n 0] assms by (simp add: os_rtt_puts_def)

theorem rtt_puts_writes_string_witness:
  "os_rtt_puts 0x200008FE rtt_sample = Some (os_rtt_write 0x200008FE (of_nat 2) rtt_sample)"
proof (rule rtt_puts_writes_string)
  show "rtt_mem rtt_sample (0x200008FE + of_nat 2) = 0" by (simp add: rtt_sample_def)
  show "rtt_mem rtt_sample (0x200008FE + of_nat i) \<noteq> 0" if "i < 2" for i
    using that by (auto simp: rtt_sample_def less_2_cases_iff)
qed

subsection \<open>Reading\<close>

lemma unread_read:
  assumes ok: "channel_ok ch" and n: "ch_rd_off ch \<noteq> ch_wr_off ch"
    and ch'_def: "ch' = ch\<lparr>ch_rd_off := rtt_next ch (ch_rd_off ch)\<rparr>"
  shows "unread ch m = m (ch_buffer ch + ch_rd_off ch) # unread ch' m" "channel_ok ch'"
proof -
  have i: "ch_rd_off ch < ch_size ch" "ch_wr_off ch < ch_size ch" using ok by (simp_all add: channel_ok_def)
  have "channel_slots ch = unat (ch_rd_off ch) # channel_slots ch'"
    using rtt_ring.slots_read [OF i n] by (simp add: channel_slots_def ch'_def)
  then show "unread ch m = m (ch_buffer ch + ch_rd_off ch) # unread ch' m" by (simp add: unread_def) (simp add: ch'_def)
  show "channel_ok ch'" using ok rtt_ring.advance_less [OF i(1)] by (simp add: channel_ok_def ch'_def)
qed

lemma unread_cong:
  assumes "channel_ok ch" and "\<And>x. x \<in> buffer_addrs ch \<Longrightarrow> m' x = m x"
  shows "unread ch m' = unread ch m"
  unfolding unread_def
proof (rule map_cong [OF refl])
  fix i
  assume "i \<in> set (channel_slots ch)"
  then have "i < unat (ch_size ch)" using channel_bounds(3) [OF assms(1)] by auto
  then show "m' (ch_buffer ch + of_nat i) = m (ch_buffer ch + of_nat i)"
    by (intro assms(2)) (simp add: buffer_addrs_def byte_addrs_def)
qed

lemma read_loop:
  assumes "channel_ok ch" and "buffer_addrs ch \<inter> byte_addrs data (unat len) = {}" and "count \<le> len"
    and "rtt_read_loop data len count ch m = (n, ch', m')"
  shows "channel_ok ch' \<and> unat n = unat count + min (unat len - unat count) (length (unread ch m)) \<and>
    unread ch' m' = drop (unat n - unat count) (unread ch m) \<and>
    map (\<lambda>j. m' (data + of_nat j)) [unat count..<unat n] = take (unat n - unat count) (unread ch m) \<and>
    (\<forall>x. x \<notin> byte_addrs data (unat len) \<longrightarrow> m' x = m x) \<and> (\<forall>j<unat count. m' (data + of_nat j) = m (data + of_nat j))"
  using assms
proof (induction data len count ch m rule: rtt_read_loop.induct)
  case (1 data len count ch m)
  show ?case
  proof (cases "count < len \<and> ch_rd_off ch \<noteq> ch_wr_off ch")
    case False
    have "rtt_read_loop data len count ch m = (count, ch, m)" by (simp only: rtt_read_loop.simps [of data len count ch m] if_not_P [OF False])
    then have e: "n = count" "ch' = ch" "m' = m" using "1.prems"(4) by simp_all
    have "unat len - unat count = 0 \<or> unread ch m = []"
      using False "1.prems"(3) by (auto simp: word_less_nat_alt word_le_nat_alt unread_def channel_slots_def)
    with "1.prems"(1) e show ?thesis by auto
  next
    case True
    let ?ch = "ch\<lparr>ch_rd_off := rtt_next ch (ch_rd_off ch)\<rparr>" and ?v = "m (ch_buffer ch + ch_rd_off ch)"
    let ?m = "m(data + count := ?v)"
    have ok: "channel_ok ?ch" and U: "unread ch m = ?v # unread ?ch m"
      using unread_read [OF "1.prems"(1) _ refl] True by blast+
    have l: "rtt_read_loop data len (count + 1) ?ch ?m = (n, ch', m')"
      using "1.prems"(4) True by (simp add: rtt_read_loop.simps [of data len count ch m])
    have c1: "unat (count + 1) = Suc (unat count)" using True unat_Suc_less by blast
    then have le: "count + 1 \<le> len" using True by (simp add: word_less_nat_alt word_le_nat_alt)
    have bf: "buffer_addrs ?ch = buffer_addrs ch" by (simp add: buffer_addrs_def)
    have d: "data + count \<in> byte_addrs data (unat len)"
      unfolding byte_addrs_def using True by (intro image_eqI [of _ _ "unat count"]) (simp_all add: word_less_nat_alt)
    have "unread ?ch ?m = unread ?ch m"
      by (rule unread_cong [OF ok]) (use "1.prems"(2) d bf in auto)
    note IH0 = "1.IH" [OF True ok _ le l, unfolded c1 bf this, OF "1.prems"(2)]
    then have IH: "channel_ok ch'" "unat n = Suc (unat count) + min (unat len - Suc (unat count)) (length (unread ?ch m))"
      "unread ch' m' = drop (unat n - Suc (unat count)) (unread ?ch m)"
      "map (\<lambda>j. m' (data + of_nat j)) [Suc (unat count)..<unat n] = take (unat n - Suc (unat count)) (unread ?ch m)"
      "\<forall>x. x \<notin> byte_addrs data (unat len) \<longrightarrow> m' x = ?m x" "\<forall>j<Suc (unat count). m' (data + of_nat j) = ?m (data + of_nat j)" by blast+
    have lt: "unat count < unat len" using True by (simp add: word_less_nat_alt)
    have v: "m' (data + count) = ?v" using IH(6) [rule_format, of "unat count"] by simp
    have s: "unat n - unat count = Suc (unat n - Suc (unat count))" using IH(2) by simp
    have "unat n = unat count + min (unat len - unat count) (length (unread ch m))" using IH(2) U lt by simp
    moreover have "unread ch' m' = drop (unat n - unat count) (unread ch m)" unfolding s U by (simp add: IH(3))
    moreover have "map (\<lambda>j. m' (data + of_nat j)) [unat count..<unat n] = take (unat n - unat count) (unread ch m)"
    proof -
      have "[unat count..<unat n] = unat count # [Suc (unat count)..<unat n]" using s by (intro upt_conv_Cons) simp
      then show ?thesis unfolding s U using IH(4) v by simp
    qed
    moreover have "\<forall>x. x \<notin> byte_addrs data (unat len) \<longrightarrow> m' x = m x" using IH(5) d by auto
    moreover have "\<forall>j<unat count. m' (data + of_nat j) = m (data + of_nat j)"
    proof (intro allI impI)
      fix j
      assume j: "j < unat count"
      then have "j < 4294967296" using unat_lt_2p32 [of count] by linarith
      then have "of_nat j \<noteq> count" using j by (auto simp: unat_of_nat)
      then show "m' (data + of_nat j) = m (data + of_nat j)" using IH(6) j by simp
    qed
    ultimately show ?thesis using IH(1) by blast
  qed
qed

text \<open>
  C32: \<open>os_rtt_read\<close> takes the oldest unread bytes of the down channel, at most \<open>len\<close> of them: it stores them in order at the
  destination, returns how many they are and leaves the others unread; nothing outside the destination changes.
\<close>

theorem rtt_read_takes:
  assumes "channel_ok (rtt_down (rtt_cb s))" and "buffer_addrs (rtt_down (rtt_cb s)) \<inter> byte_addrs data (unat len) = {}"
    and "os_rtt_read data len s = (n, s')"
  shows "let old = unread (rtt_down (rtt_cb s)) (rtt_mem s) in
    unat n = min (unat len) (length old) \<and> bytes_at (rtt_mem s') data (unat n) = take (unat n) old \<and>
    unread (rtt_down (rtt_cb s')) (rtt_mem s') = drop (unat n) old \<and> channel_ok (rtt_down (rtt_cb s')) \<and>
    (\<forall>x. x \<notin> byte_addrs data (unat len) \<longrightarrow> rtt_mem s' x = rtt_mem s x) \<and> rtt_kernel s' = rtt_kernel s"
proof -
  obtain k ch' m' where l: "rtt_read_loop data len 0 (rtt_down (rtt_cb s)) (rtt_mem s) = (k, ch', m')"
    by (cases "rtt_read_loop data len 0 (rtt_down (rtt_cb s)) (rtt_mem s)")
  have e: "n = k" "s' = s\<lparr>rtt_cb := (rtt_cb s)\<lparr>rtt_down := ch'\<rparr>, rtt_mem := m'\<rparr>"
    using assms(3) by (simp_all add: os_rtt_read_def l os_port_irq_save_def os_port_irq_restore_def)
  have "0 \<le> len" by simp
  from read_loop [OF assms(1,2) this l] show ?thesis unfolding e bytes_at_def Let_def by (elim conjE) (intro conjI; simp)
qed

theorem rtt_read_takes_witness:
  "let old = unread (rtt_down (rtt_cb rtt_sample)) (rtt_mem rtt_sample); (n, s') = os_rtt_read 0x20000800 8 rtt_sample in
    unat n = min 8 (length old) \<and> bytes_at (rtt_mem s') 0x20000800 (unat n) = take (unat n) old"
proof -
  have "channel_ok (rtt_down (rtt_cb rtt_sample))" by (simp add: rtt_sample_def channel_ok_def)
  moreover have "buffer_addrs (rtt_down (rtt_cb rtt_sample)) \<inter> byte_addrs 0x20000800 (unat (8 :: u32)) = {}"
    using byte_addrs_apart [of "0x20000600" 16 "0x20000800" 8] by (simp add: rtt_sample_def buffer_addrs_def)
  moreover obtain n s' where "os_rtt_read 0x20000800 8 rtt_sample = (n, s')" by (cases "os_rtt_read 0x20000800 8 rtt_sample")
  ultimately show ?thesis using rtt_read_takes [of rtt_sample "0x20000800" 8 n s'] unfolding Let_def by auto
qed

end
