(* ===== verification/Message_Queue.thy ===== *)
theory Message_Queue
  imports Ring Semaphore Mutex
begin

text \<open>
  \<open>kernel/queue.c\<close>: the blocking queue of messages for several senders and receivers, and the byte copy of
  \<open>kernel/memory.c\<close> it uses. The queue sits on a mutex and two semaphores of the kernel, which are parts of the
  queue object. A call may block in the kernel and may be preempted anywhere, so that \<open>os_queue_send\<close> and
  \<open>os_queue_recv\<close> are functions from a place in the code to the next one: one step per kernel service, per byte
  copied and per update of an index.
\<close>

subsection \<open>Copying bytes\<close>

function memcpy_loop :: "addr \<Rightarrow> addr \<Rightarrow> u32 \<Rightarrow> (addr \<Rightarrow> byte) \<Rightarrow> (addr \<Rightarrow> byte)" where
  "memcpy_loop d s len m = (if 0 < len then memcpy_loop (d + 1) (s + 1) (len - 1) (m(d := m s)) else m)"
  by pat_completeness auto
termination
  by (relation "measure (\<lambda>(d, s, len, m). unat len)") (auto simp: word_gt_0 unat_minus_one unat_gt_0)

declare memcpy_loop.simps [simp del]

definition os_memcpy :: "addr \<Rightarrow> addr \<Rightarrow> u32 \<Rightarrow> (addr \<Rightarrow> byte) \<Rightarrow> addr \<times> (addr \<Rightarrow> byte)" where
  "os_memcpy dst src len m = (dst, memcpy_loop dst src len m)"

subsection \<open>The queue object\<close>

record os_queue_t =
  qu_storage :: addr
  qu_msg_size :: u32
  qu_capacity :: u32
  qu_head :: u32
  qu_tail :: u32

text \<open>The addresses of the members that are kernel objects: five words precede the mutex, which has four words; a semaphore
  has three.\<close>

definition queue_lock :: "addr \<Rightarrow> addr" where "queue_lock queue = queue + 20"
definition queue_spaces :: "addr \<Rightarrow> addr" where "queue_spaces queue = queue + 36"
definition queue_items :: "addr \<Rightarrow> addr" where "queue_items queue = queue + 48"

record ustate =
  us_kernel :: kstate
  us_mem :: "addr \<Rightarrow> byte"
  us_queues :: "addr \<rightharpoonup> os_queue_t"

definition sys :: "(kstate \<Rightarrow> (int \<times> kstate) option) \<Rightarrow> ustate \<Rightarrow> (int \<times> ustate) option" where
  "sys f u = do { (r, k) \<leftarrow> f (us_kernel u); Some (r, u\<lparr>us_kernel := k\<rparr>) }"

definition os_queue_init :: "addr \<Rightarrow> addr \<Rightarrow> u32 \<Rightarrow> u32 \<Rightarrow> ustate \<Rightarrow> (int \<times> ustate) option" where
  "os_queue_init queue storage msg_size capacity u =
     (if queue = NULL \<or> storage = NULL \<or> msg_size = 0 \<or> capacity = 0 then Some (-1, u)
      else do {
        let u = u\<lparr>us_queues := (us_queues u)(queue \<mapsto> \<lparr>qu_storage = storage, qu_msg_size = msg_size, qu_capacity = capacity,
          qu_head = 0, qu_tail = 0\<rparr>)\<rparr>;
        (r, u) \<leftarrow> sys (os_mutex_init (queue_lock queue)) u;
        if r \<noteq> 0 then Some (-1, u)
        else do {
          (r, u) \<leftarrow> sys (os_sem_init (queue_spaces queue) capacity) u;
          if r \<noteq> 0 then Some (-1, u)
          else do {
            (r, u) \<leftarrow> sys (os_sem_init (queue_items queue) 0) u;
            if r \<noteq> 0 then Some (-1, u) else Some (0, u)
          }
        }
      })"

subsection \<open>Sending and receiving\<close>

text \<open>Where a call is: before taking its semaphore, before locking, giving the unit back after a failed lock, before the
  copy, inside the copy, before moving the index, before unlocking, before giving the other semaphore, done.\<close>

datatype queue_pc = Q_Take | Q_Lock | Q_Undo int | Q_Slot | Q_Copy addr addr u32 | Q_Advance | Q_Unlock | Q_Give
  | Q_Return int

text \<open>One byte of \<open>os_memcpy\<close>.\<close>

definition copy_step :: "addr \<Rightarrow> addr \<Rightarrow> u32 \<Rightarrow> ustate \<Rightarrow> queue_pc \<times> ustate" where
  "copy_step d s len u =
     (if 0 < len then (Q_Copy (d + 1) (s + 1) (len - 1), u\<lparr>us_mem := (us_mem u)(d := us_mem u s)\<rparr>) else (Q_Advance, u))"

fun os_queue_send :: "addr \<Rightarrow> addr \<Rightarrow> queue_pc \<Rightarrow> ustate \<Rightarrow> (queue_pc \<times> ustate) option" where
  "os_queue_send queue msg Q_Take u =
     (if queue = NULL \<or> msg = NULL then Some (Q_Return (-1), u)
      else do {
        (r, u) \<leftarrow> sys (os_kernel_sem_take (queue_spaces queue)) u;
        Some (if r \<noteq> 0 then Q_Return r else Q_Lock, u)
      })"
| "os_queue_send queue msg Q_Lock u = do {
     (r, u) \<leftarrow> sys (os_kernel_mutex_lock (queue_lock queue)) u;
     Some (if r \<noteq> 0 then Q_Undo r else Q_Slot, u)
   }"
| "os_queue_send queue msg (Q_Undo r) u = do {
     (_, u) \<leftarrow> sys (os_kernel_sem_give (queue_spaces queue)) u;
     Some (Q_Return r, u)
   }"
| "os_queue_send queue msg Q_Slot u = do {
     q \<leftarrow> us_queues u queue;
     let slot = qu_storage q + qu_tail q * qu_msg_size q;
     Some (Q_Copy slot msg (qu_msg_size q), u)
   }"
| "os_queue_send queue msg (Q_Copy d s len) u = Some (copy_step d s len u)"
| "os_queue_send queue msg Q_Advance u = do {
     q \<leftarrow> us_queues u queue;
     let tail = qu_tail q + 1;
     let tail = (if tail = qu_capacity q then 0 else tail);
     Some (Q_Unlock, u\<lparr>us_queues := (us_queues u)(queue \<mapsto> q\<lparr>qu_tail := tail\<rparr>)\<rparr>)
   }"
| "os_queue_send queue msg Q_Unlock u = do {
     (r, u) \<leftarrow> sys (os_kernel_mutex_unlock (queue_lock queue)) u;
     Some (if r \<noteq> 0 then Q_Return r else Q_Give, u)
   }"
| "os_queue_send queue msg Q_Give u = do {
     (r, u) \<leftarrow> sys (os_kernel_sem_give (queue_items queue)) u;
     Some (Q_Return r, u)
   }"
| "os_queue_send queue msg (Q_Return r) u = Some (Q_Return r, u)"

fun os_queue_recv :: "addr \<Rightarrow> addr \<Rightarrow> queue_pc \<Rightarrow> ustate \<Rightarrow> (queue_pc \<times> ustate) option" where
  "os_queue_recv queue msg Q_Take u =
     (if queue = NULL \<or> msg = NULL then Some (Q_Return (-1), u)
      else do {
        (r, u) \<leftarrow> sys (os_kernel_sem_take (queue_items queue)) u;
        Some (if r \<noteq> 0 then Q_Return r else Q_Lock, u)
      })"
| "os_queue_recv queue msg Q_Lock u = do {
     (r, u) \<leftarrow> sys (os_kernel_mutex_lock (queue_lock queue)) u;
     Some (if r \<noteq> 0 then Q_Undo r else Q_Slot, u)
   }"
| "os_queue_recv queue msg (Q_Undo r) u = do {
     (_, u) \<leftarrow> sys (os_kernel_sem_give (queue_items queue)) u;
     Some (Q_Return r, u)
   }"
| "os_queue_recv queue msg Q_Slot u = do {
     q \<leftarrow> us_queues u queue;
     let slot = qu_storage q + qu_head q * qu_msg_size q;
     Some (Q_Copy msg slot (qu_msg_size q), u)
   }"
| "os_queue_recv queue msg (Q_Copy d s len) u = Some (copy_step d s len u)"
| "os_queue_recv queue msg Q_Advance u = do {
     q \<leftarrow> us_queues u queue;
     let head = qu_head q + 1;
     let head = (if head = qu_capacity q then 0 else head);
     Some (Q_Unlock, u\<lparr>us_queues := (us_queues u)(queue \<mapsto> q\<lparr>qu_head := head\<rparr>)\<rparr>)
   }"
| "os_queue_recv queue msg Q_Unlock u = do {
     (r, u) \<leftarrow> sys (os_kernel_mutex_unlock (queue_lock queue)) u;
     Some (if r \<noteq> 0 then Q_Return r else Q_Give, u)
   }"
| "os_queue_recv queue msg Q_Give u = do {
     (r, u) \<leftarrow> sys (os_kernel_sem_give (queue_spaces queue)) u;
     Some (Q_Return r, u)
   }"
| "os_queue_recv queue msg (Q_Return r) u = Some (Q_Return r, u)"

subsection \<open>The copy is correct\<close>

text \<open>The part of a copy that is done: \<open>i\<close> bytes.\<close>

definition copied :: "addr \<Rightarrow> addr \<Rightarrow> nat \<Rightarrow> (addr \<Rightarrow> byte) \<Rightarrow> bool" where
  "copied d s i m \<longleftrightarrow> (\<forall>j<i. m (d + of_nat j) = m (s + of_nat j))"

lemma copied_bytes: "copied d s n m \<longleftrightarrow> bytes_at m d n = bytes_at m s n"
  by (auto simp: copied_def bytes_at_def)

lemma copied_step:
  assumes "copied d s i m" and "byte_addrs d n \<inter> byte_addrs s n = {}" and "i < n" and "n \<le> 2 ^ 32"
  shows "copied d s (Suc i) (m(d + of_nat i := m (s + of_nat i)))"
  unfolding copied_def
proof (intro allI impI)
  fix j
  assume j: "j < Suc i"
  have "s + of_nat j \<noteq> d + of_nat i" using assms(2,3) j mem_byte_addrs [of j n s] mem_byte_addrs [of i n d] by auto
  moreover have "d + of_nat j = d + of_nat i \<longleftrightarrow> j = i" using assms(3,4) j by (intro offset_inj) auto
  moreover have "m (d + of_nat j) = m (s + of_nat j)" if "j \<noteq> i" using assms(1) j that by (auto simp: copied_def)
  ultimately show "(m(d + of_nat i := m (s + of_nat i))) (d + of_nat j) = (m(d + of_nat i := m (s + of_nat i))) (s + of_nat j)"
    by (cases "j = i") auto
qed

lemma memcpy_loop_copies:
  assumes "copied d s i m" and "byte_addrs d n \<inter> byte_addrs s n = {}" and "i \<le> n" and "n < 2 ^ 32"
  shows "copied d s n (memcpy_loop (d + of_nat i) (s + of_nat i) (of_nat (n - i)) m) \<and>
    (\<forall>x. x \<notin> byte_addrs d n \<longrightarrow> memcpy_loop (d + of_nat i) (s + of_nat i) (of_nat (n - i)) m x = m x)"
  using assms(1,3)
proof (induction "n - i" arbitrary: i m)
  case 0
  then have "i = n" by simp
  with 0 show ?case by (simp add: memcpy_loop.simps [of "d + of_nat n"])
next
  case (Suc k)
  let ?m = "m(d + of_nat i := m (s + of_nat i))"
  have i: "i < n" "k = n - Suc i" "Suc i \<le> n" using Suc.hyps(2) by simp_all
  have c: "copied d s (Suc i) ?m" by (rule copied_step [OF Suc.prems(1) assms(2) i(1) less_imp_le [OF assms(4)]])
  have u: "unat (of_nat (n - i) :: u32) = n - i" using assms(4) by (simp only: unat_of_nat) simp
  have pos: "0 < (of_nat (n - i) :: u32)" using u i(1) by (simp add: word_less_nat_alt)
  have len: "(of_nat (n - i) :: u32) - 1 = of_nat (n - Suc i)" using i(1) by (simp add: Suc_diff_Suc [symmetric] del: Suc_diff_Suc)
  have "memcpy_loop (d + of_nat i) (s + of_nat i) (of_nat (n - i)) m =
      memcpy_loop (d + of_nat (Suc i)) (s + of_nat (Suc i)) (of_nat (n - Suc i)) ?m"
    using pos by (simp only: memcpy_loop.simps [of "d + of_nat i" "s + of_nat i" "of_nat (n - i)" m] len if_True) (simp add: add_ac)
  with Suc.hyps(1) [OF i(2) c i(3)] mem_byte_addrs [OF i(1), of d] show ?case by auto
qed

text \<open>The steps of a copy inside \<open>os_queue_send\<close> and \<open>os_queue_recv\<close>, run to their end, are the call of \<open>os_memcpy\<close>.\<close>

fun copy_on :: "queue_pc \<times> ustate \<Rightarrow> queue_pc \<times> ustate" where
  "copy_on (Q_Copy d s len, u) = copy_step d s len u"
| "copy_on x = x"

lemma copy_steps_memcpy:
  "(copy_on ^^ Suc (unat len)) (Q_Copy d s len, u) = (Q_Advance, u\<lparr>us_mem := snd (os_memcpy d s len (us_mem u))\<rparr>)"
proof (induction "unat len" arbitrary: d s len u)
  case 0
  then have "len = 0" by (simp add: unat_eq_zero)
  then show ?case by (simp add: copy_step_def os_memcpy_def memcpy_loop.simps [of d])
next
  case (Suc n)
  then have pos: "0 < len" by (metis nat.distinct(1) unat_0 word_gt_0)
  then have n: "n = unat (len - 1)" using Suc.hyps(2) by (simp add: unat_minus_one word_gt_0)
  let ?u = "u\<lparr>us_mem := (us_mem u)(d := us_mem u s)\<rparr>"
  have "(copy_on ^^ Suc (unat len)) (Q_Copy d s len, u) = (copy_on ^^ Suc n) (Q_Copy (d + 1) (s + 1) (len - 1), ?u)"
    using pos by (simp only: Suc.hyps(2) [symmetric] funpow_Suc_right [of "Suc n"] comp_def copy_on.simps copy_step_def if_True)
  also have "\<dots> = (Q_Advance, ?u\<lparr>us_mem := snd (os_memcpy (d + 1) (s + 1) (len - 1) (us_mem ?u))\<rparr>)"
    unfolding n by (rule Suc.hyps(1) [OF n])
  also have "\<dots> = (Q_Advance, u\<lparr>us_mem := snd (os_memcpy d s len (us_mem u))\<rparr>)"
    using pos by (simp add: os_memcpy_def memcpy_loop.simps [of d])
  finally show ?case .
qed

text \<open>
  \<open>os_memcpy\<close> returns its destination, leaves there a copy of the source when the two areas do not overlap, and changes nothing
  else.
\<close>

theorem memcpy_copies:
  assumes "byte_addrs dst (unat len) \<inter> byte_addrs src (unat len) = {}"
  shows "fst (os_memcpy dst src len m) = dst \<and>
    bytes_at (snd (os_memcpy dst src len m)) dst (unat len) = bytes_at m src (unat len) \<and>
    (\<forall>x. x \<notin> byte_addrs dst (unat len) \<longrightarrow> snd (os_memcpy dst src len m) x = m x)"
proof -
  let ?m = "memcpy_loop dst src len m"
  have "copied dst src 0 m" by (simp add: copied_def)
  from memcpy_loop_copies [OF this assms] unat_lt_2p32 [of len]
  have c: "copied dst src (unat len) ?m" "\<forall>x. x \<notin> byte_addrs dst (unat len) \<longrightarrow> ?m x = m x" by simp_all
  have "?m (src + of_nat i) = m (src + of_nat i)" if "i < unat len" for i
    using c(2) assms mem_byte_addrs [OF that, of src] by blast
  then have "bytes_at ?m src (unat len) = bytes_at m src (unat len)" by (simp add: bytes_at_def)
  with c show ?thesis by (simp add: os_memcpy_def copied_bytes)
qed

theorem memcpy_copies_witness:
  "bytes_at (snd (os_memcpy 0x20000100 0x20000200 3 (\<lambda>a. ucast a))) 0x20000100 3 = [0, 1, 2]"
proof -
  have "byte_addrs 0x20000100 (unat (3 :: u32)) \<inter> byte_addrs 0x20000200 (unat (3 :: u32)) = {}"
    using byte_addrs_apart [of "0x20000100" 3 "0x20000200" 3] by simp
  from memcpy_copies [OF this, of "\<lambda>a. ucast a"] show ?thesis by (simp add: bytes_at_def upt_rec)
qed

end
