(* ===== verification/Object_View.thy ===== *)
theory Object_View
  imports Machine Mutex_Properties
begin

text \<open>
  The kernel as the users of its synchronisation objects see it: who waits for a semaphore or a mutex, the
  units of every semaphore, the owner of every mutex. Each service changes this view in a simple way, and
  ticks, context switches, yields and delays do not change it. The locale \<open>sync_objects\<close> states these laws; what
  a client needs to count its units and to rely on mutual exclusion is proved once inside it.
\<close>

subsection \<open>The view of a kernel state\<close>

record view =
  v_waiting :: "queue_ref \<Rightarrow> addr set"
  v_count :: "addr \<Rightarrow> int"
  v_owner :: "addr \<Rightarrow> addr"

fun object_queue :: "queue_ref \<Rightarrow> bool" where
  "object_queue (SemQ m) = True"
| "object_queue (MutexQ m) = True"
| "object_queue q = False"

definition owner_of :: "astate \<Rightarrow> addr \<Rightarrow> addr" where
  "owner_of a m = (case map_option mtx_owner (mutex_at (kern a) m) of None \<Rightarrow> NULL | Some t \<Rightarrow> t)"

definition view_of :: "astate \<Rightarrow> view" where
  "view_of a = \<lparr>v_waiting = (\<lambda>q. if object_queue q then set (waitq a q) else {}), v_count = a_count a, v_owner = owner_of a\<rparr>"

lemma object_queueD: "object_queue q \<Longrightarrow> waitable q \<and> q \<noteq> SleepQ"
  by (cases q) (simp_all add: waitable_def)

lemma view_cong:
  assumes "\<And>q. object_queue q \<Longrightarrow> set (waitq b q) = set (waitq a q)" and "sem_at (kern b) = sem_at (kern a)"
    and "\<And>m. map_option mtx_owner (mutex_at (kern b) m) = map_option mtx_owner (mutex_at (kern a) m)"
  shows "view_of b = view_of a"
  using assms by (auto simp: view_of_def owner_of_def a_count_def fun_eq_iff)

lemma view_waiting:
  assumes "object_queue q" and "set (waitq b q) = W" and "\<And>r. object_queue r \<Longrightarrow> r \<noteq> q \<Longrightarrow> set (waitq b r) = set (waitq a r)"
    and "sem_at (kern b) = sem_at (kern a)" and "\<And>m. map_option mtx_owner (mutex_at (kern b) m) = map_option mtx_owner (mutex_at (kern a) m)"
  shows "view_of b = (view_of a)\<lparr>v_waiting := (v_waiting (view_of a))(q := W)\<rparr>"
  using assms by (auto simp: view_of_def owner_of_def a_count_def fun_eq_iff)

lemma view_masked [simp]: "view_of (masked a) = view_of a" "view_of (unmasked k a) = view_of a"
  by (rule view_cong; simp add: astate_simps)+

lemma view_schedule [simp]: "view_of (a_schedule_and_pend a) = view_of a" "view_of (a_schedule a) = view_of a"
  by (rule view_cong; simp add: astate_simps)+

lemma view_upd [simp]: "view_of (a_upd t f a) = view_of a"
  by (rule view_cong) (simp_all add: astate_simps)

lemma view_pendsv [simp]: "view_of (a_kern (pendsv_update f) a) = view_of a"
  by (rule view_cong) (simp_all add: astate_simps kstate_simps)

lemma view_add_owned [simp]: "view_of (a_add_owned t m a) = view_of a"
proof (rule view_cong)
  show "map_option mtx_owner (mutex_at (kern (a_add_owned t m a)) k) = map_option mtx_owner (mutex_at (kern a) k)" for k
    by (cases "k = m") (simp_all add: a_add_owned_simps)
qed (simp_all add: a_add_owned_simps)

lemma view_commit [simp]: "view_of (a_commit a) = view_of a"
  by (rule view_cong) (simp_all add: astate_simps)

lemma view_rotate [simp]: "view_of (a_rotate t a) = view_of a"
  by (rule view_cong) (simp_all add: astate_simps a_rotate_waitq object_queueD)

lemma view_relinked: "relinked a b \<Longrightarrow> view_of b = view_of a"
  by (rule view_cong) (simp_all add: relinked_same)

lemma view_set_priority:
  assumes L: "lists_inv a" and v: "valid_task a t"
  shows "view_of (a_set_priority t p a) = view_of a"
proof (rule view_cong)
  fix q
  assume "object_queue q"
  then have q: "waitable q" by (simp add: object_queueD)
  show "set (waitq (a_set_priority t p a) q) = set (waitq a q)"
  proof (cases "t \<in> set (waitq a q) \<and> p < NUM_PRIORITIES")
    case False
    then consider "t \<notin> set (waitq a q)" | "\<not> p < NUM_PRIORITIES" by blast
    then show ?thesis
    proof cases
      case 1
      from a_set_priority_waitq_other [OF L v q this] show ?thesis by simp
    qed (simp add: a_set_priority_def)
  next
    case True
    then obtain c where c: "a_tcb a t = Some c" "home c = Some q" using lists_inv_home [OF L, of t q] by auto
    with q have b: "tcb_state c = OS_TASK_BLOCKED" "tcb_wait_queue c = Some q" by (auto simp: home_def waitable_def split: if_splits)
    have nn: "t \<noteq> NULL" using c(1) by auto
    show ?thesis
      using a_set_priority_blocked(2) [OF c(1) b(1) nn _ b(2), of p] True lists_inv_distinct [OF L, of q]
      by (auto simp: astate_simps)
  qed
qed (simp_all add: astate_simps)

lemma view_block:
  assumes "a_tcb a (g_current (kern a)) \<noteq> None"
  shows "object_queue q \<Longrightarrow> view_of (a_block q n po a) =
      (view_of a)\<lparr>v_waiting := (v_waiting (view_of a))(q := insert (g_current (kern a)) (v_waiting (view_of a) q))\<rparr>"
    and "view_of (a_block SleepQ n po a) = view_of a"
proof -
  have w: "set (waitq (a_block q n po a) r) = (if r = q then insert (g_current (kern a)) (set (waitq a r)) else set (waitq a r))"
    if "waitable r" "waitable q" for q r
    using that by (auto simp: a_block_def Let_def a_arm_def a_join_def a_ready_remove_def a_insert_by_priority_def a_add_def
        astate_simps waitable_def)
  show "view_of (a_block q n po a) =
      (view_of a)\<lparr>v_waiting := (v_waiting (view_of a))(q := insert (g_current (kern a)) (v_waiting (view_of a) q))\<rparr>"
    if "object_queue q"
    by (rule view_waiting) (use that object_queueD w in \<open>simp_all add: astate_simps view_of_def\<close>)
  show "view_of (a_block SleepQ n po a) = view_of a"
    by (rule view_cong) (use object_queueD w [of _ SleepQ] in \<open>simp_all add: astate_simps waitable_def\<close>)
qed

lemma view_wake_one:
  assumes L: "lists_inv a" and q: "object_queue q" and w: "waitq a q = t # ts"
  shows "view_of (snd (a_wake_one q a)) = (view_of a)\<lparr>v_waiting := (v_waiting (view_of a))(q := v_waiting (view_of a) q - {t})\<rparr>"
proof -
  from wake_one_pre [OF L _ _ w] object_queueD [OF q] obtain c where c: "a_tcb a t = Some c" by auto
  note W = a_wake_one_Cons [OF L _ _ w c]
  have "set (waitq (snd (a_wake_one q a)) q) = v_waiting (view_of a) q - {t}"
    using W(3) object_queueD [OF q] lists_inv_distinct [OF L, of q] q w by (auto simp: view_of_def waitable_def)
  moreover have "set (waitq (snd (a_wake_one q a)) r) = set (waitq a r)" if "object_queue r" "r \<noteq> q" for r
    using W(3) object_queueD [OF q] object_queueD [OF that(1)] that(2) by (auto simp: waitable_def)
  ultimately show ?thesis by (intro view_waiting [OF q]) (simp_all add: astate_simps)
qed

subsection \<open>What the services do to the view\<close>

definition v_take :: "addr \<Rightarrow> addr \<Rightarrow> view \<Rightarrow> view" where
  "v_take m t v = (if 0 < v_count v m then v\<lparr>v_count := (v_count v)(m := v_count v m - 1)\<rparr>
     else v\<lparr>v_waiting := (v_waiting v)(SemQ m := insert t (v_waiting v (SemQ m)))\<rparr>)"

definition v_give :: "addr \<Rightarrow> view \<Rightarrow> view \<Rightarrow> bool" where
  "v_give m v v' \<longleftrightarrow> (if v_waiting v (SemQ m) = {} then v' = v\<lparr>v_count := (v_count v)(m := v_count v m + 1)\<rparr>
     else \<exists>t\<in>v_waiting v (SemQ m). v' = v\<lparr>v_waiting := (v_waiting v)(SemQ m := v_waiting v (SemQ m) - {t})\<rparr>)"

definition v_lock :: "addr \<Rightarrow> addr \<Rightarrow> view \<Rightarrow> int \<times> view" where
  "v_lock m t v = (if v_owner v m = NULL then (0, v\<lparr>v_owner := (v_owner v)(m := t)\<rparr>)
     else if v_owner v m = t then (-1, v)
     else (0, v\<lparr>v_waiting := (v_waiting v)(MutexQ m := insert t (v_waiting v (MutexQ m)))\<rparr>))"

definition v_unlock :: "addr \<Rightarrow> addr \<Rightarrow> view \<Rightarrow> int \<Rightarrow> view \<Rightarrow> bool" where
  "v_unlock m t v r v' \<longleftrightarrow> (if v_owner v m \<noteq> t then r = -1 \<and> v' = v
     else r = 0 \<and> (if v_waiting v (MutexQ m) = {} then v' = v\<lparr>v_owner := (v_owner v)(m := NULL)\<rparr>
       else \<exists>u\<in>v_waiting v (MutexQ m). v' = v\<lparr>v_waiting := (v_waiting v)(MutexQ m := v_waiting v (MutexQ m) - {u}),
         v_owner := (v_owner v)(m := u)\<rparr>))"

lemma view_fields:
  "v_waiting (view_of a) (SemQ m) = set (waitq a (SemQ m))" "v_waiting (view_of a) (MutexQ m) = set (waitq a (MutexQ m))"
  "v_count (view_of a) m = a_count a m" "v_owner (view_of a) m = owner_of a m"
  by (simp_all add: view_of_def)

lemma view_sem_take:
  assumes "current_runnable a" and "sem_at (kern a) m = Some x"
  shows "view_of (a_sem_take m a) = v_take m (g_current (kern a)) (view_of a)"
proof (cases "0 < a_count a m")
  case True
  have "view_of (a_kern (set_count m (\<lambda>n. n - 1)) a) = (view_of a)\<lparr>v_count := (v_count (view_of a))(m := a_count a m - 1)\<rparr>"
    using True assms(2) by (auto simp: view_of_def owner_of_def fun_eq_iff a_count_set_count a_count_eq sint_pred astate_simps kstate_simps)
  with True show ?thesis by (simp add: a_sem_take_def v_take_def view_fields)
next
  case False
  have "a_tcb a (g_current (kern a)) \<noteq> None" using assms(1) by (auto simp: current_runnable_def)
  from view_block(1) [OF this, of "SemQ m"] False show ?thesis by (simp add: a_sem_take_def v_take_def view_fields)
qed

lemma view_sem_give:
  assumes "kernel_inv a" and "sem_at (kern a) m = Some x" and "a_count a m < 2 ^ 31 - 1"
  shows "v_give m (view_of a) (view_of (a_sem_give m a))"
proof (cases "waitq a (SemQ m)")
  case Nil
  have "view_of (a_kern (set_count m (\<lambda>n. n + 1)) a) = (view_of a)\<lparr>v_count := (v_count (view_of a))(m := a_count a m + 1)\<rparr>"
    using assms(2,3) by (auto simp: view_of_def owner_of_def fun_eq_iff a_count_set_count a_count_eq sint_succ astate_simps kstate_simps)
  with Nil show ?thesis by (simp add: a_sem_give_def v_give_def view_fields)
next
  case (Cons t ts)
  from view_wake_one [OF kernel_invD(2) [OF assms(1)] _ Cons] Cons show ?thesis
    by (auto simp: a_sem_give_def v_give_def view_fields)
qed

lemma view_map_owner:
  assumes "mutex_at (kern a) m = Some x"
  shows "view_of (a_kern (map_mutex m (\<lambda>x. x\<lparr>mtx_owner := t\<rparr>)) a) = (view_of a)\<lparr>v_owner := (v_owner (view_of a))(m := t)\<rparr>"
  using assms by (auto simp: view_of_def owner_of_def a_count_def fun_eq_iff astate_simps kstate_simps)

lemma view_lock:
  assumes I: "kernel_inv a" and c: "current_runnable a" and m: "mutex_at (kern a) m = Some x"
  shows "(fst (a_lock m a), view_of (snd (a_lock m a))) = v_lock m (g_current (kern a)) (view_of a)"
proof -
  let ?t = "g_current (kern a)"
  have o: "v_owner (view_of a) m = mtx_owner x" using m by (simp add: view_fields owner_of_def)
  have w: "view_of (a_lock_wait m (mtx_owner x) a) =
      (view_of a)\<lparr>v_waiting := (v_waiting (view_of a))(MutexQ m := insert ?t (v_waiting (view_of a) (MutexQ m)))\<rparr>"
    if "mtx_owner x \<noteq> NULL" "mtx_owner x \<noteq> ?t"
  proof -
    let ?a1 = "a_upd ?t (\<lambda>c. c\<lparr>tcb_blocked_on := m\<rparr>) a"
    let ?a2 = "a_boost (mtx_owner x) (a_prio a ?t) ?a1"
    note B = lock_wait_boosted [OF I c m that]
    have "view_of ?a2 = view_of a"
      using view_set_priority [OF objects_invD(2) [OF B(1)] B(7), of "a_prio a ?t"] by (simp add: a_boost_def)
    moreover have "a_tcb ?a2 (g_current (kern ?a2)) \<noteq> None" using B(3) by (auto simp: current_runnable_def)
    ultimately show ?thesis
      using view_block(1) [of ?a2 "MutexQ m" OS_WAIT_FOREVER True] B(8) by (simp add: a_lock_wait_def Let_def)
  qed
  show ?thesis
    using m o w view_map_owner [OF m, of ?t] by (auto simp: a_lock_def v_lock_def)
qed

lemma view_unlock:
  assumes I: "kernel_inv a" and c: "current_runnable a" and u: "unlock_spec m a r a'"
  shows "v_unlock m (g_current (kern a)) (view_of a) r (view_of a')"
proof -
  let ?t = "g_current (kern a)"
  from u obtain x where x: "mutex_at (kern a) m = Some x"
    and d: "if mtx_owner x \<noteq> ?t then r = -1 \<and> a' = a
      else r = 0 \<and> (\<exists>b p. relinked a b \<and> a' = a_hand_over m (a_set_priority ?t p b))"
    by (auto simp: unlock_spec_def)
  have o: "v_owner (view_of a) m = mtx_owner x" using x by (simp add: view_fields owner_of_def)
  show ?thesis
  proof (cases "mtx_owner x = ?t")
    case False
    with d o show ?thesis by (simp add: v_unlock_def)
  next
    case True
    with d obtain b p where b: "r = 0" "relinked a b" "a' = a_hand_over m (a_set_priority ?t p b)" by auto
    let ?e = "a_set_priority ?t p b"
    have K: "kernel_inv b" by (rule relinked_kernel_inv [OF b(2) I])
    have v: "valid_task b ?t" using c relinked_same(5) [OF b(2)] by (auto simp: current_runnable_def valid_task_def)
    have e: "view_of ?e = view_of a" using view_set_priority [OF kernel_invD(2) [OF K] v] view_relinked [OF b(2)] by simp
    have Ke: "kernel_inv ?e" by (rule kernel_inv_set_priority [OF K v])
    from x relinked_mutex [OF b(2), of m] obtain y where y: "mutex_at (kern ?e) m = Some y" by (auto simp: astate_simps)
    have W: "set (waitq ?e (MutexQ m)) = v_waiting (view_of a) (MutexQ m)" using e by (metis view_fields(2))
    show ?thesis
    proof (cases "waitq ?e (MutexQ m)")
      case Nil
      with view_map_owner [OF y, of NULL] W b e o True show ?thesis by (simp add: a_hand_over_def v_unlock_def)
    next
      case (Cons t ts)
      have y2: "mutex_at (kern (snd (a_wake_one (MutexQ m) ?e))) m = Some y" using y by (simp add: astate_simps)
      from view_wake_one [OF kernel_invD(2) [OF Ke] _ Cons] view_map_owner [OF y2, of t] Cons W b e o True show ?thesis
        by (auto simp: a_hand_over_def v_unlock_def)
    qed
  qed
qed

lemma view_yield [simp]: "view_of (a_yield a) = view_of a"
  by (simp add: a_yield_def)

lemma view_expire:
  assumes L: "lists_inv a" and t: "t \<in> set (timeoutq a)"
  shows "view_of (a_expire t a) = view_of a"
proof (rule view_cong)
  note w = lists_inv_waits [OF L t]
  fix q
  assume q: "object_queue q"
  from L t obtain c where c: "a_tcb a t = Some c" "sleeping c" by (auto simp: lists_inv_def timeouts_ok_def)
  have "t \<notin> set (waitq a q)"
    using lists_inv_home [OF L, of t q] c object_queueD [OF q] by (auto simp: home_def sleeping_def)
  moreover have "t \<notin> set (waitq (a_expire t a) q)"
    using lists_inv_home [OF a_expire_inv [OF L t], of t q] a_expire_simps(2) [OF w] c object_queueD [OF q]
    by (auto simp: home_def set_expired_def waitable_def)
  ultimately show "set (waitq (a_expire t a) q) = set (waitq a q)" using a_expire_simps(5) [OF w] by (intro set_eqI) metis
qed (use a_expire_globals [OF lists_inv_waits [OF L t]] in simp_all)

lemma view_expire_all: "lists_inv a \<Longrightarrow> timeoutq a = ts \<Longrightarrow> view_of (a_expire_all now ts a) = view_of a"
proof (induction ts arbitrary: a)
  case (Cons t ts)
  have t: "t \<in> set (timeoutq a)" using Cons.prems(2) by simp
  have "timeoutq (a_expire t a) = ts" using a_expire_simps(1) [OF lists_inv_waits [OF Cons.prems(1) t]] Cons.prems(2) by simp
  with Cons.IH [OF a_expire_inv [OF Cons.prems(1) t]] view_expire [OF Cons.prems(1) t] show ?case by simp
qed simp

lemma view_tick:
  assumes "kernel_inv a"
  shows "view_of (a_tick a) = view_of a"
proof -
  let ?b = "a_kern (g_tick_update (\<lambda>_. g_tick (kern a) + 1)) a"
  have "lists_inv ?b" using assms kernel_invD(2) [of ?b] by simp
  moreover have "view_of ?b = view_of a" by (rule view_cong) (simp_all add: astate_simps kstate_simps)
  ultimately have "view_of (a_process_timeouts ?b) = view_of a" by (simp add: a_process_timeouts_def view_expire_all)
  then show ?thesis by (simp add: a_tick_def Let_def)
qed

subsection \<open>The laws of synchronisation objects\<close>

text \<open>A task may call a service when no context switch is pending and it is not the idle task, which must not block.\<close>

definition may_call :: "addr \<Rightarrow> kstate \<Rightarrow> bool" where
  "may_call idle s \<longleftrightarrow> \<not> pendsv s \<and> g_current s \<noteq> idle"

definition sees :: "addr \<Rightarrow> kstate \<Rightarrow> view \<Rightarrow> bool" where
  "sees idle s v \<longleftrightarrow> (\<exists>a. kernel_rel s a \<and> sched_good idle Handler a \<and> view_of a = v)"

lemma seesE:
  assumes "sees idle s v"
  obtains a where "kernel_rel s a" "sched_good idle Handler a" "kernel_inv a" "view_of a = v" "g_current (kern a) = g_current s"
    "pendsv (kern a) = pendsv s"
proof -
  from assms obtain a where a: "kernel_rel s a" "sched_good idle Handler a" "view_of a = v" by (auto simp: sees_def)
  with kernel_rel_globals [OF a(1)] show ?thesis by (intro that) (simp_all add: sched_good_def)
qed

lemma may_call_runnable: "kernel_rel s a \<Longrightarrow> sched_good idle Handler a \<Longrightarrow> may_call idle s \<Longrightarrow> current_runnable a"
  using kernel_rel_globals [of s a] by (simp add: sched_good_def may_call_def current_runnable_iff)

lemma sees_advances:
  assumes "kernel_rel s a" and "sched_good idle Handler a" and "may_call idle s"
    and "kernel_rel s' a'" and "kernel_inv a'" and "advances a a'"
  shows "sees idle s' (view_of a')"
  using good_advances [OF assms(2,6,5), of Handler] kernel_rel_globals [OF assms(1)] assms(3,4) by (auto simp: sees_def may_call_def)

text \<open>The common shape of the services.\<close>

lemma sees_call:
  assumes a: "kernel_rel s a" "sched_good idle Handler a" "may_call idle s"
    and c: "\<exists>a'. kernel_rel s' (unmasked k a') \<and> kernel_inv a' \<and> P a' \<and> Q"
    and R: "\<And>a'. P a' \<Longrightarrow> kernel_inv a' \<Longrightarrow> advances (masked a) a' \<and> R (view_of a')"
  shows "\<exists>v'. sees idle s' v' \<and> R v'"
proof -
  from c R obtain a' where a': "kernel_rel s' (unmasked k a')" "kernel_inv a'" "advances (masked a) a'" "R (view_of a')" by blast
  have "kernel_inv (unmasked k a')" using a'(2) by (simp add: astate_simps)
  moreover have "advances a (unmasked k a')" using a'(3) by (blast intro: advances_trans advances_masked)
  ultimately have "sees idle s' (view_of (unmasked k a'))" by (rule sees_advances [OF a a'(1)])
  with a'(4) show ?thesis by auto
qed

lemma sees_take:
  assumes "sees idle s v" and c: "may_call idle s" and m: "m \<noteq> NULL" and call: "os_kernel_sem_take m s = Some (r, s')"
  shows "r = 0 \<and> sees idle s' (v_take m (g_current s) v)"
proof -
  from assms(1) obtain a where a: "kernel_rel s a" "sched_good idle Handler a" "kernel_inv a" "view_of a = v"
    "g_current (kern a) = g_current s" by (rule seesE)
  note run = may_call_runnable [OF a(1,2) c]
  have M: "kernel_inv (masked a)" "current_runnable (masked a)" using a(3) run by (simp_all add: astate_simps)
  have "sem_at s m \<noteq> None"
    using m call by (cases "sem_at s m") (auto simp: os_kernel_sem_take_def os_port_irq_save_def kstate_simps)
  then obtain x where x: "sem_at (kern (masked a)) m = Some x" using kernel_rel_sem(1) [OF a(1)] by (auto simp: astate_simps)
  from sem_take.call_keeps [OF m a(1,3) run call]
  have "\<exists>v'. sees idle s' v' \<and> v' = v_take m (g_current s) v \<and> r = 0"
    by (rule sees_call [OF a(1,2) c])
      (use M x a(4,5) in \<open>auto simp: view_sem_take astate_simps intro: advances_sem_take\<close>)
  then show ?thesis by blast
qed

lemma sees_give:
  assumes "sees idle s v" and c: "may_call idle s" and m: "m \<noteq> NULL" and n: "v_count v m < 2 ^ 31 - 1"
    and call: "os_kernel_sem_give m s = Some (r, s')"
  shows "r = 0 \<and> (\<exists>v'. sees idle s' v' \<and> v_give m v v')"
proof -
  from assms(1) obtain a where a: "kernel_rel s a" "sched_good idle Handler a" "kernel_inv a" "view_of a = v" by (rule seesE)
  note run = may_call_runnable [OF a(1,2) c]
  have M: "kernel_inv (masked a)" using a(3) by (simp add: astate_simps)
  have "sem_at s m \<noteq> None"
    using m call by (cases "sem_at s m")
      (auto simp: os_kernel_sem_give_def os_port_irq_save_def os_task_wake_one_locked_def os_task_queue_pop_head_def
        get_queue.simps kstate_simps)
  then obtain x where x: "sem_at (kern (masked a)) m = Some x" using kernel_rel_sem(1) [OF a(1)] by (auto simp: astate_simps)
  have n': "a_count (masked a) m < 2 ^ 31 - 1" using n a(4) by (auto simp: view_fields astate_simps)
  from sem_give.call_keeps [OF m a(1,3) run call]
  have "\<exists>v'. sees idle s' v' \<and> (v_give m v v' \<and> r = 0)"
    by (rule sees_call [OF a(1,2) c])
      (use M view_sem_give [OF M x n'] a(4) in \<open>auto intro: advances_sem_give\<close>)
  then show ?thesis by blast
qed

lemma sees_lock:
  assumes "sees idle s v" and c: "may_call idle s" and m: "m \<noteq> NULL" and call: "os_kernel_mutex_lock m s = Some (r, s')"
  shows "\<exists>v'. sees idle s' v' \<and> (r, v') = v_lock m (g_current s) v"
proof -
  from assms(1) obtain a where a: "kernel_rel s a" "sched_good idle Handler a" "kernel_inv a" "view_of a = v"
    "g_current (kern a) = g_current s" by (rule seesE)
  note run = may_call_runnable [OF a(1,2) c]
  have M: "kernel_inv (masked a)" "current_runnable (masked a)" using a(3) run by (simp_all add: astate_simps)
  have "mutex_at s m \<noteq> None"
    using m call by (cases "mutex_at s m") (auto simp: os_kernel_mutex_lock_def os_port_irq_save_def kstate_simps)
  then obtain x where x: "mutex_at (kern (masked a)) m = Some x" using kernel_rel_mutex(1) [OF a(1)] by (auto simp: astate_simps)
  from mutex_lock.call_keeps [OF m a(1,3) run call] show ?thesis
  proof (rule sees_call [OF a(1,2) c])
    fix a'
    assume "(r, a') = a_lock m (masked a)"
    with view_lock [OF M x] advances_lock [OF M, of m] a(4,5)
    show "advances (masked a) a' \<and> (r, view_of a') = v_lock m (g_current s) v"
      by (cases "a_lock m (masked a)") (simp add: astate_simps)
  qed
qed

lemma sees_unlock:
  assumes "sees idle s v" and c: "may_call idle s" and m: "m \<noteq> NULL" and call: "os_kernel_mutex_unlock m s = Some (r, s')"
  shows "\<exists>v'. sees idle s' v' \<and> v_unlock m (g_current s) v r v'"
proof -
  from assms(1) obtain a where a: "kernel_rel s a" "sched_good idle Handler a" "kernel_inv a" "view_of a = v"
    "g_current (kern a) = g_current s" by (rule seesE)
  note run = may_call_runnable [OF a(1,2) c]
  have M: "kernel_inv (masked a)" "current_runnable (masked a)" using a(3) run by (simp_all add: astate_simps)
  from mutex_unlock.call_keeps [OF m a(1,3) run call] show ?thesis
  proof (rule sees_call [OF a(1,2) c])
    fix a'
    assume "unlock_spec m (masked a) r a'"
    from view_unlock [OF M this] advances_unlock [OF M this] a(4,5)
    show "advances (masked a) a' \<and> v_unlock m (g_current s) v r (view_of a')" by (simp add: astate_simps)
  qed
qed

lemma sees_not_waiting:
  assumes "sees idle s v" and "may_call idle s"
  shows "g_current s \<notin> v_waiting v q"
proof -
  from assms(1) obtain a where a: "kernel_rel s a" "sched_good idle Handler a" "kernel_inv a" "view_of a = v"
    "g_current (kern a) = g_current s" by (rule seesE)
  from may_call_runnable [OF a(1,2) assms(2)] obtain c where c: "a_tcb a (g_current s) = Some c" "tcb_state c \<noteq> OS_TASK_BLOCKED"
    using a(5) by (auto simp: current_runnable_def)
  have "g_current s \<notin> set (waitq a q)" if "object_queue q"
    using lists_inv_home [OF kernel_invD(2) [OF a(3)], of "g_current s" q] c object_queueD [OF that]
    by (auto simp: home_def waitable_def)
  then show ?thesis unfolding a(4) [symmetric] by (simp add: view_of_def)
qed

lemma sees_current: "sees idle s v \<Longrightarrow> g_current s \<noteq> NULL"
  by (erule seesE) (auto simp: sched_good_def)

lemma sees_nonnull: "sees idle s v \<Longrightarrow> NULL \<notin> v_waiting v q"
  unfolding sees_def by (elim exE conjE) (auto simp: view_of_def kernel_rel_waitq_nonnull split: if_splits)

lemma sees_count:
  assumes "sees idle s v" and "sem_at s m = Some x"
  shows "v_count v m = sint (sem_count x)"
proof -
  from assms(1) obtain a where a: "kernel_rel s a" "view_of a = v" by (rule seesE)
  from kernel_rel_sem(2) [OF a(1) assms(2)] obtain y where "sem_at (kern a) m = Some y" "sem_count y = sem_count x" by blast
  with a(2) show ?thesis by (auto simp: view_fields a_count_eq)
qed

lemma sees_owner:
  assumes "sees idle s v" and "mutex_at s m = Some x"
  shows "v_owner v m = mtx_owner x"
proof -
  from assms(1) obtain a where a: "kernel_rel s a" "view_of a = v" by (rule seesE)
  from kernel_rel_mutex(2) [OF a(1) assms(2)] a(2) show ?thesis by (auto simp: view_fields owner_of_def)
qed

text \<open>Ticks, context switches, yields and delays change no object.\<close>

lemma sees_tick:
  assumes "sees idle s v"
  shows "\<exists>s'. SysTick_Handler s = Some s' \<and> sees idle s' v"
proof -
  from assms obtain a where a: "kernel_rel s a" "sched_good idle Handler a" "kernel_inv a" "view_of a = v" by (rule seesE)
  from SysTick_Handler_refines [OF a(1,3)] obtain s' where s': "SysTick_Handler s = Some s'" "kernel_rel s' (a_tick a)" by blast
  have "sched_good idle Handler (a_tick a)" by (rule good_keeps [OF a(2) keeps_tick [OF a(3)] a_tick_inv [OF a(3)]])
  with s' view_tick [OF a(3)] a(4) show ?thesis by (auto simp: sees_def)
qed

lemma sees_switch:
  assumes "sees idle s v"
  shows "\<exists>s'. os_commit_switch (s\<lparr>pendsv := False\<rparr>) = Some s' \<and> sees idle s' v"
proof -
  from assms obtain a where a: "kernel_rel s a" "sched_good idle Handler a" "kernel_inv a" "view_of a = v" by (rule seesE)
  let ?b = "a_kern (pendsv_update (\<lambda>_. False)) a"
  have b: "kernel_inv ?b" "g_next (kern ?b) \<noteq> NULL" "runnable ?b idle"
    using a(2,3) by (simp_all add: sched_good_def astate_simps kstate_simps runnable_def)
  from commit_refines [OF kernel_rel_pendsv [OF a(1)] kernel_invD(1) [OF b(1)]] obtain s' where
    s': "os_commit_switch (s\<lparr>pendsv := False\<rparr>) = Some s'" "kernel_rel s' (a_commit ?b)" by blast
  have "runnable ?b (g_next (kern ?b))" using kernel_invD(3) [OF b(1)] b(2) by (auto simp: next_ok_def runnable_def)
  then have "sched_good idle Handler (a_commit ?b)"
    using kernel_inv_commit [OF b(1)] a_commit_effect [OF b(2)] b by (auto simp: sched_good_def)
  with s' a(4) show ?thesis by (auto simp: sees_def)
qed

lemma sees_yield:
  assumes "sees idle s v" and "may_call idle s" and "os_kernel_yield s = Some s'"
  shows "sees idle s' v"
proof -
  from assms(1) obtain a where a: "kernel_rel s a" "sched_good idle Handler a" "kernel_inv a" "view_of a = v" by (rule seesE)
  from os_kernel_yield_refines [OF a(1,3)] assms(3) have "kernel_rel s' (a_yield a)" by auto
  from sees_advances [OF a(1,2) assms(2) this a_yield_inv [OF a(3)] advances_yield [OF a(3)]] a(4) show ?thesis by simp
qed

lemma sees_delay:
  assumes "sees idle s v" and c: "may_call idle s" and call: "os_kernel_delay_ticks n s = Some s'"
  shows "sees idle s' v"
proof (cases "n = 0")
  case True
  with assms sees_yield show ?thesis by (auto simp: os_kernel_delay_ticks_def)
next
  case False
  from assms(1) obtain a where a: "kernel_rel s a" "sched_good idle Handler a" "kernel_inv a" "view_of a = v"
    "g_current (kern a) = g_current s" by (rule seesE)
  note run = may_call_runnable [OF a(1,2) c]
  have M: "kernel_inv (masked a)" "current_runnable (masked a)" "a_tcb (masked a) (g_current (kern (masked a))) \<noteq> None"
    using a(3) run by (auto simp: astate_simps current_runnable_def)
  from call have "delay_call n s = Some (0, s')" by (simp add: delay_call_def)
  from delay.call_keeps [OF False a(1,3) run this] have "\<exists>v'. sees idle s' v' \<and> v' = v"
    by (rule sees_call [OF a(1,2) c])
      (use M view_block(2) [OF M(3)] a(4) in \<open>auto intro!: advances_block kernel_invD(2) delay_block_pre\<close>)
  then show ?thesis by blast
qed

text \<open>Initialising an object nobody waits for.\<close>

lemma sees_sem_init:
  assumes "sees idle s v" and x: "sem_at s m = Some x" "sem_waiters x = emptyq" and n: "\<not> sint n < 0"
  shows "\<exists>s'. os_sem_init m n s = Some (0, s') \<and> sees idle s' (v\<lparr>v_count := (v_count v)(m := sint n)\<rparr>) \<and>
    v_waiting v (SemQ m) = {}"
proof -
  from assms(1) obtain a where a: "kernel_rel s a" "sched_good idle Handler a" "kernel_inv a" "view_of a = v" by (rule seesE)
  let ?a = "a_kern (set_count m (\<lambda>_. n)) a"
  have w: "waitq a (SemQ m) = []" using x by (intro waitq_emptyq [OF a(1)]) (simp add: get_queue.simps emptyq_def)
  note R = sem_init_refines [OF a(1,3) x(1) w n]
  from x(1) kernel_rel_sem [OF a(1)] obtain y where y: "sem_at (kern a) m = Some y" by blast
  have "sched_good idle Handler ?a" by (rule good_keeps [OF a(2) _ R(2)]) (rule keeps_kern; simp add: kstate_simps)
  moreover have "view_of ?a = v\<lparr>v_count := (v_count v)(m := sint n)\<rparr>"
    using y unfolding a(4) [symmetric]
    by (auto simp: view_of_def owner_of_def fun_eq_iff a_count_set_count a_count_eq astate_simps kstate_simps)
  moreover have "v_waiting v (SemQ m) = {}" using w a(4) by (auto simp: view_fields)
  ultimately show ?thesis using R(1) by (auto simp: sees_def)
qed

lemma sees_mutex_init:
  assumes "sees idle s v" and x: "mutex_at s m = Some x" "mtx_waiters x = emptyq"
  shows "\<exists>s'. os_mutex_init m s = Some (0, s') \<and> sees idle s' (v\<lparr>v_owner := (v_owner v)(m := NULL)\<rparr>) \<and>
    v_waiting v (MutexQ m) = {}"
proof -
  from assms(1) obtain a where a: "kernel_rel s a" "sched_good idle Handler a" "kernel_inv a" "view_of a = v" by (rule seesE)
  let ?a = "a_kern (map_mutex m (\<lambda>x. x\<lparr>mtx_owner := NULL\<rparr>)) a"
  have w: "waitq a (MutexQ m) = []" using x by (intro waitq_emptyq [OF a(1)]) (simp add: get_queue.simps emptyq_def)
  note R = mutex_init_refines [OF a(1,3) x(1) w]
  from x(1) kernel_rel_mutex(1) [OF a(1), of m] obtain y where y: "mutex_at (kern a) m = Some y" by auto
  have "sched_good idle Handler ?a" by (rule good_keeps [OF a(2) _ R(2)]) (rule keeps_kern; simp add: kstate_simps)
  moreover have "view_of ?a = v\<lparr>v_owner := (v_owner v)(m := NULL)\<rparr>" using view_map_owner [OF y] a(4) by simp
  moreover have "v_waiting v (MutexQ m) = {}" using w a(4) by (auto simp: view_fields)
  ultimately show ?thesis using R(1) by (auto simp: sees_def)
qed

lemma init_frames:
  "os_sem_init m n s = Some (r, s') \<Longrightarrow> mutex_at s' = mutex_at s \<and> (\<forall>k. k \<noteq> m \<longrightarrow> sem_at s' k = sem_at s k)"
  "os_mutex_init m s = Some (r, s') \<Longrightarrow> sem_at s' = sem_at s \<and> (\<forall>k. k \<noteq> m \<longrightarrow> mutex_at s' k = mutex_at s k)"
  by (auto simp: os_sem_init_def os_mutex_init_def upd_sem_def upd_mutex_def kstate_simps put_sem_def put_mutex_def sem_at_def mutex_at_def
    bind_eq_Some_conv split: if_splits)

text \<open>A kernel that has started and is between two kernel services.\<close>

definition kernel_up :: "addr \<Rightarrow> kstate \<Rightarrow> bool" where
  "kernel_up idle s \<longleftrightarrow> (\<exists>v. sees idle s v)"

lemma machine_inv_up: "machine_inv idle kb ub (Thread, c) \<Longrightarrow> kernel_up idle (kst c)"
  by (auto simp: machine_inv_def kst_inv_def kernel_up_def sees_def sched_good_def)

lemma sample_up: "kernel_up 0x100 sample"
proof -
  have "sched_good 0x100 Handler sample_a"
    using sample_inv sample_runnable sample_a_tcb
    by (auto simp: sched_good_def runnable_def current_runnable_def sample_task_defs)
  with sample_rel show ?thesis by (auto simp: kernel_up_def sees_def)
qed

subsection \<open>Counting units and relying on mutual exclusion\<close>

text \<open>\<open>H\<close> are the tasks that have asked for a unit of semaphore \<open>m\<close> and not handed it on: those of them that do not wait have
  one. \<open>C\<close> are the tasks that have asked for mutex \<open>m\<close> and not unlocked it: exactly one of them does not wait, the owner.\<close>

definition units :: "view \<Rightarrow> addr \<Rightarrow> addr set \<Rightarrow> int" where
  "units v m H = v_count v m + int (card (H - v_waiting v (SemQ m)))"

definition units_ok :: "view \<Rightarrow> addr \<Rightarrow> addr set \<Rightarrow> bool" where
  "units_ok v m H \<longleftrightarrow> finite H \<and> v_waiting v (SemQ m) \<subseteq> H \<and> 0 \<le> v_count v m"

definition exclusive :: "view \<Rightarrow> addr \<Rightarrow> addr set \<Rightarrow> bool" where
  "exclusive v m C \<longleftrightarrow> v_waiting v (MutexQ m) \<subseteq> C \<and>
     C - v_waiting v (MutexQ m) = (if v_owner v m = NULL then {} else {v_owner v m})"

definition sem_frame :: "addr \<Rightarrow> view \<Rightarrow> view \<Rightarrow> bool" where
  "sem_frame m v v' \<longleftrightarrow> (\<forall>q. q \<noteq> SemQ m \<longrightarrow> v_waiting v' q = v_waiting v q) \<and> (\<forall>k. k \<noteq> m \<longrightarrow> v_count v' k = v_count v k) \<and>
     v_owner v' = v_owner v"

definition mutex_frame :: "addr \<Rightarrow> view \<Rightarrow> view \<Rightarrow> bool" where
  "mutex_frame m v v' \<longleftrightarrow> (\<forall>q. q \<noteq> MutexQ m \<longrightarrow> v_waiting v' q = v_waiting v q) \<and> v_count v' = v_count v \<and>
     (\<forall>k. k \<noteq> m \<longrightarrow> v_owner v' k = v_owner v k)"

lemma units_frame:
  "sem_frame m v v' \<Longrightarrow> k \<noteq> m \<Longrightarrow> units v' k H = units v k H \<and> units_ok v' k H = units_ok v k H"
  "mutex_frame n v v' \<Longrightarrow> units v' k H = units v k H \<and> units_ok v' k H = units_ok v k H"
  by (auto simp: sem_frame_def mutex_frame_def units_def units_ok_def)

lemma exclusive_frame:
  "sem_frame m v v' \<Longrightarrow> exclusive v' k C = exclusive v k C"
  "mutex_frame n v v' \<Longrightarrow> k \<noteq> n \<Longrightarrow> exclusive v' k C = exclusive v k C"
  by (auto simp: sem_frame_def mutex_frame_def exclusive_def)

lemma v_frames:
  "sem_frame m v (v_take m t v)" "v_give m v v' \<Longrightarrow> sem_frame m v v'"
  "(r, v') = v_lock m t v \<Longrightarrow> mutex_frame m v v'" "v_unlock m t v r v' \<Longrightarrow> mutex_frame m v v'"
  by (auto simp: v_take_def v_give_def v_lock_def v_unlock_def sem_frame_def mutex_frame_def split: if_splits)

text \<open>A task that has its unit hands it on.\<close>

lemma units_remove:
  assumes "units_ok v m H" and "t \<in> H" and "t \<notin> v_waiting v (SemQ m)"
  shows "units v m (H - {t}) = units v m H - 1" "units_ok v m (H - {t})" "1 \<le> units v m H"
proof -
  let ?W = "v_waiting v (SemQ m)"
  have "H - {t} - ?W = (H - ?W) - {t}" by blast
  moreover have "finite (H - ?W)" "t \<in> H - ?W" using assms by (auto simp: units_ok_def)
  ultimately have "card (H - ?W) = Suc (card (H - {t} - ?W))" using card.remove [of "H - ?W" t] by simp
  then show "units v m (H - {t}) = units v m H - 1" "1 \<le> units v m H" using assms(1) by (simp_all add: units_def units_ok_def)
  show "units_ok v m (H - {t})" using assms by (auto simp: units_ok_def)
qed

locale sync_objects =
  fixes view_ok :: "'s \<Rightarrow> view \<Rightarrow> bool" and current :: "'s \<Rightarrow> addr" and callable :: "'s \<Rightarrow> bool"
    and take_op give_op lock_op unlock_op :: "addr \<Rightarrow> 's \<Rightarrow> (int \<times> 's) option"
  assumes not_waiting: "view_ok s v \<Longrightarrow> callable s \<Longrightarrow> current s \<notin> v_waiting v q"
    and current_nonnull: "view_ok s v \<Longrightarrow> current s \<noteq> NULL"
    and waiting_nonnull: "view_ok s v \<Longrightarrow> NULL \<notin> v_waiting v q"
    and take_law: "view_ok s v \<Longrightarrow> callable s \<Longrightarrow> m \<noteq> NULL \<Longrightarrow> take_op m s = Some (r, s') \<Longrightarrow>
      r = 0 \<and> view_ok s' (v_take m (current s) v)"
    and give_law: "view_ok s v \<Longrightarrow> callable s \<Longrightarrow> m \<noteq> NULL \<Longrightarrow> v_count v m < 2 ^ 31 - 1 \<Longrightarrow> give_op m s = Some (r, s') \<Longrightarrow>
      r = 0 \<and> (\<exists>v'. view_ok s' v' \<and> v_give m v v')"
    and lock_law: "view_ok s v \<Longrightarrow> callable s \<Longrightarrow> m \<noteq> NULL \<Longrightarrow> lock_op m s = Some (r, s') \<Longrightarrow>
      \<exists>v'. view_ok s' v' \<and> (r, v') = v_lock m (current s) v"
    and unlock_law: "view_ok s v \<Longrightarrow> callable s \<Longrightarrow> m \<noteq> NULL \<Longrightarrow> unlock_op m s = Some (r, s') \<Longrightarrow>
      \<exists>v'. view_ok s' v' \<and> v_unlock m (current s) v r v'"
begin

lemma take_units:
  assumes "view_ok s v" and "callable s" and "m \<noteq> NULL" and "take_op m s = Some (r, s')"
    and U: "units_ok v m H" and c: "current s \<notin> H"
  shows "r = 0 \<and> (\<exists>v'. view_ok s' v' \<and> sem_frame m v v' \<and> units_ok v' m (insert (current s) H) \<and>
    units v' m (insert (current s) H) = units v m H)"
proof -
  let ?W = "v_waiting v (SemQ m)" and ?v = "v_take m (current s) v"
  have W: "current s \<notin> ?W" "finite (H - ?W)" "current s \<notin> H - ?W" using not_waiting [OF assms(1,2)] U c by (auto simp: units_ok_def)
  have a: "insert (current s) H - ?W = insert (current s) (H - ?W)" "insert (current s) H - insert (current s) ?W = H - ?W"
    using W c by auto
  have "units ?v m (insert (current s) H) = units v m H"
    using W by (simp add: v_take_def units_def a)
  moreover have "units_ok ?v m (insert (current s) H)" using U by (auto simp: v_take_def units_ok_def)
  moreover have "sem_frame m v ?v" by (simp add: v_take_def sem_frame_def)
  ultimately show ?thesis using take_law [OF assms(1-4)] by blast
qed

lemma give_units:
  assumes "view_ok s v" and "callable s" and "m \<noteq> NULL" and "give_op m s = Some (r, s')"
    and U: "units_ok v m H" and n: "units v m H < 2 ^ 31 - 1"
  shows "r = 0 \<and> (\<exists>v'. view_ok s' v' \<and> sem_frame m v v' \<and> units_ok v' m H \<and> units v' m H = units v m H + 1)"
proof -
  let ?W = "v_waiting v (SemQ m)"
  have "v_count v m < 2 ^ 31 - 1" using n by (simp add: units_def)
  from give_law [OF assms(1-3) this assms(4)] obtain v' where v': "r = 0" "view_ok s' v'" "v_give m v v'" by blast
  have "units v' m H = units v m H + 1 \<and> units_ok v' m H \<and> sem_frame m v v'"
  proof (cases "?W = {}")
    case True
    with v'(3) U show ?thesis by (auto simp: v_give_def units_def units_ok_def sem_frame_def)
  next
    case False
    with v'(3) obtain t where t: "t \<in> ?W" "v' = v\<lparr>v_waiting := (v_waiting v)(SemQ m := ?W - {t})\<rparr>" by (auto simp: v_give_def)
    have "H - (?W - {t}) = insert t (H - ?W)" "t \<notin> H - ?W" "finite (H - ?W)" using t(1) U by (auto simp: units_ok_def)
    with t U show ?thesis by (auto simp: units_def units_ok_def sem_frame_def)
  qed
  with v' show ?thesis by blast
qed

lemma lock_exclusive:
  assumes "view_ok s v" and "callable s" and "m \<noteq> NULL" and "lock_op m s = Some (r, s')"
    and E: "exclusive v m C" and c: "current s \<notin> C"
  shows "r = 0 \<and> (\<exists>v'. view_ok s' v' \<and> mutex_frame m v v' \<and> exclusive v' m (insert (current s) C) \<and>
    v_waiting v' (MutexQ m) \<subseteq> insert (current s) (v_waiting v (MutexQ m)))"
proof -
  let ?W = "v_waiting v (MutexQ m)"
  note W = not_waiting [OF assms(1,2), of "MutexQ m"] current_nonnull [OF assms(1)]
  from lock_law [OF assms(1-4)] obtain v' where v': "view_ok s' v'" "(r, v') = v_lock m (current s) v" by blast
  have o: "v_owner v m \<noteq> current s" using E c W(2) by (auto simp: exclusive_def split: if_splits)
  then have "r = 0 \<and> mutex_frame m v v'" using v'(2) by (auto simp: v_lock_def mutex_frame_def split: if_splits)
  moreover have "exclusive v' m (insert (current s) C)"
    using v'(2) o E W c by (auto simp: v_lock_def exclusive_def split: if_splits)
  moreover have "v_waiting v' (MutexQ m) \<subseteq> insert (current s) ?W"
    using v'(2) o by (auto simp: v_lock_def split: if_splits)
  ultimately show ?thesis using v'(1) by blast
qed

lemma owner_exclusive:
  assumes "view_ok s v" and "callable s" and "exclusive v m C" and "current s \<in> C"
  shows "v_owner v m = current s" "C - v_waiting v (MutexQ m) = {current s}"
proof -
  have "current s \<in> C - v_waiting v (MutexQ m)" using not_waiting [OF assms(1,2), of "MutexQ m"] assms(4) by blast
  with assms(3) show "v_owner v m = current s" "C - v_waiting v (MutexQ m) = {current s}"
    unfolding exclusive_def by (metis empty_iff singletonD)+
qed

lemma unlock_exclusive:
  assumes "view_ok s v" and "callable s" and "m \<noteq> NULL" and "unlock_op m s = Some (r, s')"
    and E: "exclusive v m C" and c: "current s \<in> C"
  shows "r = 0 \<and> (\<exists>v'. view_ok s' v' \<and> mutex_frame m v v' \<and> exclusive v' m (C - {current s}) \<and>
    v_waiting v' (MutexQ m) \<subseteq> v_waiting v (MutexQ m))"
proof -
  let ?W = "v_waiting v (MutexQ m)"
  note o = owner_exclusive [OF assms(1,2) E c] and W = not_waiting [OF assms(1,2), of "MutexQ m"]
  from unlock_law [OF assms(1-4)] o obtain v' where v': "view_ok s' v'" "r = 0"
    "if ?W = {} then v' = v\<lparr>v_owner := (v_owner v)(m := NULL)\<rparr>
     else \<exists>u\<in>?W. v' = v\<lparr>v_waiting := (v_waiting v)(MutexQ m := ?W - {u}), v_owner := (v_owner v)(m := u)\<rparr>"
    by (auto simp: v_unlock_def)
  have "mutex_frame m v v' \<and> exclusive v' m (C - {current s}) \<and> v_waiting v' (MutexQ m) \<subseteq> ?W"
  proof (cases "?W = {}")
    case True
    with v'(3) o show ?thesis by (auto simp: mutex_frame_def exclusive_def)
  next
    case False
    with v'(3) obtain u where u: "u \<in> ?W" "v' = v\<lparr>v_waiting := (v_waiting v)(MutexQ m := ?W - {u}), v_owner := (v_owner v)(m := u)\<rparr>"
      by auto
    have "u \<noteq> NULL" using waiting_nonnull [OF assms(1)] u(1) by metis
    have "?W \<subseteq> C" using E by (simp add: exclusive_def)
    then have "C - {current s} - (?W - {u}) = {u}" "?W - {u} \<subseteq> C - {current s}" using u(1) o(2) W by blast+
    with \<open>u \<noteq> NULL\<close> show ?thesis by (auto simp: u(2) mutex_frame_def exclusive_def)
  qed
  with v'(1,2) show ?thesis by blast
qed

end

interpretation kernel_objects: sync_objects "sees idle" g_current "may_call idle" os_kernel_sem_take os_kernel_sem_give
  os_kernel_mutex_lock os_kernel_mutex_unlock for idle
proof (unfold_locales, goal_cases)
  case (1 s v q) then show ?case by (rule sees_not_waiting)
next
  case (2 s v) then show ?case by (rule sees_current)
next
  case (3 s v q) then show ?case by (rule sees_nonnull)
next
  case (4 s v m r s') then show ?case by (rule sees_take)
next
  case (5 s v m r s') then show ?case by (rule sees_give)
next
  case (6 s v m r s') then show ?case by (rule sees_lock)
next
  case (7 s v m r s') then show ?case by (rule sees_unlock)
qed

end
