(* ===== verification/Queue_Machine.thy ===== *)
theory Queue_Machine
  imports Message_Queue Object_View
begin

text \<open>
  The message queue in use by any number of tasks. The step relation interleaves the calls of \<open>os_queue_send\<close> and
  \<open>os_queue_recv\<close>, one step at a time, with ticks, context switches and everything else the tasks do. The lemmas
  follow the two semaphores and the mutex of the queue: the semaphores count the free and the filled slots minus
  what is in flight, and the mutex lets one task at a time near the storage and the indices.
\<close>

subsection \<open>The machine\<close>

datatype role = Send | Recv

type_synonym queue_call = "role \<times> addr \<times> queue_pc"

record qsys =
  q_user :: ustate
  q_calls :: "addr \<rightharpoonup> queue_call"
  q_sent :: "byte list list"
  q_received :: "byte list list"

abbreviation q_kernel :: "qsys \<Rightarrow> kstate" where "q_kernel x \<equiv> us_kernel (q_user x)"
abbreviation q_task :: "qsys \<Rightarrow> addr" where "q_task x \<equiv> g_current (q_kernel x)"

definition step_of :: "role \<Rightarrow> addr \<Rightarrow> addr \<Rightarrow> queue_pc \<Rightarrow> ustate \<Rightarrow> (queue_pc \<times> ustate) option" where
  "step_of r = (case r of Send \<Rightarrow> os_queue_send | Recv \<Rightarrow> os_queue_recv)"

definition storage_addrs :: "os_queue_t \<Rightarrow> addr set" where
  "storage_addrs q = byte_addrs (qu_storage q) (unat (qu_capacity q) * unat (qu_msg_size q))"

definition buffer_of :: "os_queue_t \<Rightarrow> addr \<Rightarrow> addr set" where
  "buffer_of q msg = byte_addrs msg (unat (qu_msg_size q))"

definition set_kernel :: "kstate \<Rightarrow> qsys \<Rightarrow> qsys" where
  "set_kernel k x = x\<lparr>q_user := (q_user x)\<lparr>us_kernel := k\<rparr>\<rparr>"

text \<open>What is recorded when the copy of a call ends: the message in the caller's buffer.\<close>

definition finished :: "role \<Rightarrow> role \<Rightarrow> queue_pc \<Rightarrow> byte list \<Rightarrow> byte list list" where
  "finished r r' pc b = (if r = r' \<and> pc = Q_Advance then [b] else [])"

text \<open>A task outside a call of the queue may compute, call services on other objects, yield and sleep.\<close>

inductive queue_step :: "addr \<Rightarrow> addr \<Rightarrow> qsys \<Rightarrow> qsys \<Rightarrow> bool" for idle Q where
  call: "may_call idle (q_kernel x) \<Longrightarrow> q_calls x (q_task x) = None \<Longrightarrow> us_queues (q_user x) Q = Some q \<Longrightarrow>
    buffer_of q msg \<inter> storage_addrs q = {} \<Longrightarrow>
    queue_step idle Q x (x\<lparr>q_calls := (q_calls x)(q_task x \<mapsto> (r, msg, Q_Take))\<rparr>)"
| run: "may_call idle (q_kernel x) \<Longrightarrow> q_calls x (q_task x) = Some (r, msg, pc) \<Longrightarrow> (\<And>e. pc \<noteq> Q_Return e) \<Longrightarrow>
    us_queues (q_user x) Q = Some q \<Longrightarrow> step_of r Q msg pc (q_user x) = Some (pc', u) \<Longrightarrow>
    b = bytes_at (us_mem u) msg (unat (qu_msg_size q)) \<Longrightarrow>
    queue_step idle Q x (x\<lparr>q_user := u, q_calls := (q_calls x)(q_task x \<mapsto> (r, msg, pc')),
      q_sent := q_sent x @ finished Send r pc' b, q_received := q_received x @ finished Recv r pc' b\<rparr>)"
| return: "may_call idle (q_kernel x) \<Longrightarrow> q_calls x (q_task x) = Some (r, msg, Q_Return e) \<Longrightarrow>
    queue_step idle Q x (x\<lparr>q_calls := (q_calls x)(q_task x := None)\<rparr>)"
| compute: "may_call idle (q_kernel x) \<Longrightarrow> q_calls x (q_task x) = None \<Longrightarrow> us_queues (q_user x) Q = Some q \<Longrightarrow>
    (\<And>a. a \<in> storage_addrs q \<Longrightarrow> M a = us_mem (q_user x) a) \<Longrightarrow>
    (\<And>a t r msg pc. q_calls x t = Some (r, msg, pc) \<Longrightarrow> a \<in> buffer_of q msg \<Longrightarrow> M a = us_mem (q_user x) a) \<Longrightarrow>
    queue_step idle Q x (x\<lparr>q_user := (q_user x)\<lparr>us_mem := M\<rparr>\<rparr>)"
| other_take: "may_call idle (q_kernel x) \<Longrightarrow> q_calls x (q_task x) = None \<Longrightarrow>
    m \<notin> {NULL, queue_spaces Q, queue_items Q} \<Longrightarrow> os_kernel_sem_take m (q_kernel x) = Some (r, k) \<Longrightarrow>
    queue_step idle Q x (set_kernel k x)"
| other_give: "may_call idle (q_kernel x) \<Longrightarrow> q_calls x (q_task x) = None \<Longrightarrow>
    m \<notin> {NULL, queue_spaces Q, queue_items Q} \<Longrightarrow> sem_at (q_kernel x) m = Some y \<Longrightarrow> sint (sem_count y) < 2 ^ 31 - 1 \<Longrightarrow>
    os_kernel_sem_give m (q_kernel x) = Some (r, k) \<Longrightarrow> queue_step idle Q x (set_kernel k x)"
| other_lock: "may_call idle (q_kernel x) \<Longrightarrow> q_calls x (q_task x) = None \<Longrightarrow> m \<notin> {NULL, queue_lock Q} \<Longrightarrow>
    os_kernel_mutex_lock m (q_kernel x) = Some (r, k) \<Longrightarrow> queue_step idle Q x (set_kernel k x)"
| other_unlock: "may_call idle (q_kernel x) \<Longrightarrow> q_calls x (q_task x) = None \<Longrightarrow> m \<notin> {NULL, queue_lock Q} \<Longrightarrow>
    os_kernel_mutex_unlock m (q_kernel x) = Some (r, k) \<Longrightarrow> queue_step idle Q x (set_kernel k x)"
| yield: "may_call idle (q_kernel x) \<Longrightarrow> q_calls x (q_task x) = None \<Longrightarrow> os_kernel_yield (q_kernel x) = Some k \<Longrightarrow>
    queue_step idle Q x (set_kernel k x)"
| delay: "may_call idle (q_kernel x) \<Longrightarrow> q_calls x (q_task x) = None \<Longrightarrow> os_kernel_delay_ticks n (q_kernel x) = Some k \<Longrightarrow>
    queue_step idle Q x (set_kernel k x)"
| tick: "SysTick_Handler (q_kernel x) = Some k \<Longrightarrow> queue_step idle Q x (set_kernel k x)"
| switch: "pendsv (q_kernel x) \<Longrightarrow> os_commit_switch ((q_kernel x)\<lparr>pendsv := False\<rparr>) = Some k \<Longrightarrow>
    queue_step idle Q x (set_kernel k x)"

inductive queue_reachable :: "addr \<Rightarrow> addr \<Rightarrow> qsys \<Rightarrow> qsys \<Rightarrow> bool" for idle Q x0 where
  queue_start: "queue_reachable idle Q x0 x0"
| queue_next: "queue_reachable idle Q x0 x \<Longrightarrow> queue_step idle Q x y \<Longrightarrow> queue_reachable idle Q x0 y"

subsection \<open>Calls in flight\<close>

text \<open>A call holds a unit of its own semaphore, owes a unit of the other one, is inside the critical section.\<close>

fun holding :: "queue_pc \<Rightarrow> bool" where
  "holding Q_Lock = True" | "holding (Q_Undo e) = True" | "holding Q_Slot = True" | "holding (Q_Copy d s n) = True"
| "holding pc = False"

fun owing :: "queue_pc \<Rightarrow> bool" where
  "owing Q_Advance = True" | "owing Q_Unlock = True" | "owing Q_Give = True" | "owing pc = False"

fun inside :: "queue_pc \<Rightarrow> bool" where
  "inside Q_Slot = True" | "inside (Q_Copy d s n) = True" | "inside Q_Advance = True" | "inside Q_Unlock = True"
| "inside pc = False"

fun is_undo :: "queue_pc \<Rightarrow> bool" where
  "is_undo (Q_Undo e) = True" | "is_undo pc = False"

definition in_calls :: "(addr \<rightharpoonup> queue_call) \<Rightarrow> role set \<Rightarrow> (queue_pc \<Rightarrow> bool) \<Rightarrow> addr set" where
  "in_calls c R P = {t. \<exists>r\<in>R. \<exists>msg pc. c t = Some (r, msg, pc) \<and> P pc}"

lemma in_calls_upd:
  "in_calls (c(t \<mapsto> (r, msg, pc))) R P = (if r \<in> R \<and> P pc then insert t (in_calls c R P) else in_calls c R P - {t})"
  by (auto simp: in_calls_def)

lemma in_calls_none: "in_calls (c(t := None)) R P = in_calls c R P - {t}"
  by (auto simp: in_calls_def)

lemma in_calls_iff: "c t = Some (r, msg, pc) \<Longrightarrow> t \<in> in_calls c R P \<longleftrightarrow> r \<in> R \<and> P pc"
  by (auto simp: in_calls_def)

lemma in_calls_fresh: "c t = None \<Longrightarrow> t \<notin> in_calls c R P"
  by (auto simp: in_calls_def)

lemma finite_in_calls: "finite (dom c) \<Longrightarrow> finite (in_calls c R P)"
  by (rule finite_subset [of _ "dom c"]) (auto simp: in_calls_def)

fun other :: "role \<Rightarrow> role" where "other Send = Recv" | "other Recv = Send"

lemma other_simps [simp]: "other r \<noteq> r" "r \<noteq> other r" "other (other r) = r"
  by (cases r; simp)+

definition sem_of :: "addr \<Rightarrow> role \<Rightarrow> addr" where
  "sem_of Q r = (case r of Send \<Rightarrow> queue_spaces Q | Recv \<Rightarrow> queue_items Q)"

lemma sem_of_inj [simp]: "sem_of Q r = sem_of Q r' \<longleftrightarrow> r = r'"
  by (cases r; cases r') (simp_all add: sem_of_def queue_spaces_def queue_items_def)

text \<open>The units of a role's semaphore when \<open>n\<close> messages are stored: free slots for senders, messages for receivers.\<close>

definition avail :: "nat \<Rightarrow> nat \<Rightarrow> role \<Rightarrow> int" where
  "avail cap n r = (case r of Send \<Rightarrow> int cap - int n | Recv \<Rightarrow> int n)"

subsection \<open>The semaphores and the mutex\<close>

definition objects_used :: "addr \<Rightarrow> nat \<Rightarrow> nat \<Rightarrow> view \<Rightarrow> (addr \<rightharpoonup> queue_call) \<Rightarrow> bool" where
  "objects_used Q cap n v c \<longleftrightarrow> finite (dom c) \<and>
     (\<forall>r. units_ok v (sem_of Q r) (in_calls c {r} holding) \<and>
       units v (sem_of Q r) (in_calls c {r} holding) + int (card (in_calls c {other r} owing)) = avail cap n r) \<and>
     exclusive v (queue_lock Q) (in_calls c UNIV inside) \<and>
     v_waiting v (MutexQ (queue_lock Q)) \<subseteq> in_calls c UNIV (\<lambda>pc. pc = Q_Slot) \<and> in_calls c UNIV is_undo = {}"

text \<open>A change of the calls that leaves the groups as they are.\<close>

lemma objects_used_same:
  assumes U: "objects_used Q cap n v c" and t: "t \<notin> v_waiting v (MutexQ (queue_lock Q))" and "finite (dom c')"
    and o: "\<And>u. u \<noteq> t \<Longrightarrow> c' u = c u"
    and g: "\<And>R P. P \<in> {holding, owing, inside} \<Longrightarrow> (t \<in> in_calls c' R P) = (t \<in> in_calls c R P)"
    and d: "t \<notin> in_calls c' UNIV is_undo"
  shows "objects_used Q cap n v c'"
proof -
  have same: "u \<in> in_calls c' R P \<longleftrightarrow> u \<in> in_calls c R P" if "u \<noteq> t" for u R P using o [OF that] by (simp add: in_calls_def)
  have e: "in_calls c' R P = in_calls c R P" if "P \<in> {holding, owing, inside}" for R P using same g [OF that] by (metis set_eqI)
  have "in_calls c UNIV is_undo = {}" using U by (simp add: objects_used_def)
  with same [of _ UNIV is_undo] d have "in_calls c' UNIV is_undo = {}" by (metis all_not_in_conv)
  moreover have "v_waiting v (MutexQ (queue_lock Q)) \<subseteq> in_calls c' UNIV (\<lambda>pc. pc = Q_Slot)"
  proof
    fix u
    assume u: "u \<in> v_waiting v (MutexQ (queue_lock Q))"
    then have "u \<in> in_calls c UNIV (\<lambda>pc. pc = Q_Slot)" using U by (auto simp: objects_used_def)
    moreover have "u \<noteq> t" using u t by metis
    ultimately show "u \<in> in_calls c' UNIV (\<lambda>pc. pc = Q_Slot)" using same by metis
  qed
  ultimately show ?thesis using U assms(3) by (simp add: objects_used_def e)
qed

lemma objects_used_view:
  assumes "objects_used Q cap n v c"
    and "\<And>r. units v' (sem_of Q r) = units v (sem_of Q r) \<and> units_ok v' (sem_of Q r) = units_ok v (sem_of Q r)"
    and "exclusive v' (queue_lock Q) = exclusive v (queue_lock Q)"
    and "v_waiting v' (MutexQ (queue_lock Q)) = v_waiting v (MutexQ (queue_lock Q))"
  shows "objects_used Q cap n v' c"
  using assms by (simp add: objects_used_def)

lemma objects_used_frame:
  assumes U: "objects_used Q cap n v c"
  shows "sem_frame m v v' \<Longrightarrow> (\<And>r. m \<noteq> sem_of Q r) \<Longrightarrow> objects_used Q cap n v' c"
    and "mutex_frame m v v' \<Longrightarrow> m \<noteq> queue_lock Q \<Longrightarrow> objects_used Q cap n v' c"
proof -
  show "objects_used Q cap n v' c" if "sem_frame m v v'" "\<And>r. m \<noteq> sem_of Q r"
  proof (rule objects_used_view [OF U])
    have "sem_of Q r \<noteq> m" for r using that(2) by metis
    from units_frame(1) [OF that(1) this]
    show "units v' (sem_of Q r) = units v (sem_of Q r) \<and> units_ok v' (sem_of Q r) = units_ok v (sem_of Q r)" for r by blast
  qed (use that(1) exclusive_frame(1) [OF that(1)] in \<open>auto simp: sem_frame_def\<close>)
  show "objects_used Q cap n v' c" if "mutex_frame m v v'" "m \<noteq> queue_lock Q"
    by (rule objects_used_view [OF U])
      (use that units_frame(2) [OF that(1)] exclusive_frame(2) [OF that(1)] in \<open>auto simp: mutex_frame_def fun_eq_iff\<close>)
qed

lemma objects_usedD:
  assumes "objects_used Q cap n v c"
  shows "finite (dom c)" "units_ok v (sem_of Q r) (in_calls c {r} holding)"
    "units v (sem_of Q r) (in_calls c {r} holding) + int (card (in_calls c {other r} owing)) = avail cap n r"
    "exclusive v (queue_lock Q) (in_calls c UNIV inside)"
    "v_waiting v (MutexQ (queue_lock Q)) \<subseteq> in_calls c UNIV (\<lambda>pc. pc = Q_Slot)" "in_calls c UNIV is_undo = {}"
  using assms by (simp_all add: objects_used_def)

lemma objects_usedI:
  assumes "finite (dom c)" and "\<And>r. units_ok v (sem_of Q r) (in_calls c {r} holding)"
    and "\<And>r. units v (sem_of Q r) (in_calls c {r} holding) + int (card (in_calls c {other r} owing)) = avail cap n r"
    and "exclusive v (queue_lock Q) (in_calls c UNIV inside)"
    and "v_waiting v (MutexQ (queue_lock Q)) \<subseteq> in_calls c UNIV (\<lambda>pc. pc = Q_Slot)" and "in_calls c UNIV is_undo = {}"
  shows "objects_used Q cap n v c"
  using assms by (simp add: objects_used_def)

text \<open>The groups a call leaves alone.\<close>

lemma in_calls_move:
  assumes "c t = Some (r, msg, pc)"
  shows "r \<notin> R \<Longrightarrow> in_calls (c(t \<mapsto> (r, msg, pc'))) R P = in_calls c R P"
    and "P pc' = P pc \<Longrightarrow> in_calls (c(t \<mapsto> (r, msg, pc'))) R P = in_calls c R P"
    and "P pc' \<Longrightarrow> r \<in> R \<Longrightarrow> in_calls (c(t \<mapsto> (r, msg, pc'))) R P = insert t (in_calls c R P)"
    and "\<not> P pc' \<Longrightarrow> r \<in> R \<Longrightarrow> in_calls (c(t \<mapsto> (r, msg, pc'))) R P = in_calls c R P - {t}"
  using assms by (auto simp: in_calls_upd in_calls_iff)

lemma role_cases: "r' = r \<or> r' = other r"
  by (cases r; cases r') simp_all

lemma used_take:
  assumes k: "sees idle k v" "may_call idle k" "sem_of Q r \<noteq> NULL" "os_kernel_sem_take (sem_of Q r) k = Some (e, k')"
    and U: "objects_used Q cap n v c" and c: "c (g_current k) = Some (r, msg, Q_Take)"
  shows "e = 0 \<and> (\<exists>v'. sees idle k' v' \<and> objects_used Q cap n v' (c(g_current k \<mapsto> (r, msg, Q_Lock))))"
proof -
  let ?t = "g_current k" and ?c = "c(g_current k \<mapsto> (r, msg, Q_Lock))"
  note D = objects_usedD [OF U] and move = in_calls_move [of c ?t r msg Q_Take, OF c, where pc' = Q_Lock]
  have t: "?t \<notin> in_calls c {r} holding" using c by (simp add: in_calls_iff)
  from kernel_objects.take_units [OF k D(2) t] obtain v' where
    v': "e = 0" "sees idle k' v'" "sem_frame (sem_of Q r) v v'" "units_ok v' (sem_of Q r) (insert ?t (in_calls c {r} holding))"
    "units v' (sem_of Q r) (insert ?t (in_calls c {r} holding)) = units v (sem_of Q r) (in_calls c {r} holding)" by blast
  have h: "in_calls ?c {r} holding = insert ?t (in_calls c {r} holding)" by (rule move(3)) simp_all
  have h': "in_calls ?c {other r} holding = in_calls c {other r} holding" by (rule move(1)) simp
  have o: "in_calls ?c R owing = in_calls c R owing" for R by (rule move(2)) simp
  have i: "in_calls ?c UNIV inside = in_calls c UNIV inside" by (rule move(2)) simp
  have l: "in_calls ?c UNIV (\<lambda>pc. pc = Q_Slot) = in_calls c UNIV (\<lambda>pc. pc = Q_Slot)" by (rule move(2)) simp
  have u: "in_calls ?c UNIV is_undo = in_calls c UNIV is_undo" by (rule move(2)) simp
  note fr = units_frame(1) [OF v'(3)] exclusive_frame(1) [OF v'(3)]
  have "objects_used Q cap n v' ?c"
  proof (rule objects_usedI)
    fix r'
    show "units_ok v' (sem_of Q r') (in_calls ?c {r'} holding)"
      using role_cases [of r' r] v'(4) D(2) fr(1) by (auto simp: h h')
    show "units v' (sem_of Q r') (in_calls ?c {r'} holding) + int (card (in_calls ?c {other r'} owing)) = avail cap n r'"
      using role_cases [of r' r] v'(5) D(3) [of r] D(3) [of "other r"] fr(1) by (auto simp: h h' o)
  next
    show "v_waiting v' (MutexQ (queue_lock Q)) \<subseteq> in_calls ?c UNIV (\<lambda>pc. pc = Q_Slot)"
      using D(5) v'(3) by (simp add: l sem_frame_def)
  qed (use D(1,4,6) fr(2) in \<open>simp_all add: i u\<close>)
  with v'(1,2) show ?thesis by blast
qed

lemma used_lock:
  assumes k: "sees idle k v" "may_call idle k" "queue_lock Q \<noteq> NULL" "os_kernel_mutex_lock (queue_lock Q) k = Some (e, k')"
    and U: "objects_used Q cap n v c" and c: "c (g_current k) = Some (r, msg, Q_Lock)"
  shows "e = 0 \<and> (\<exists>v'. sees idle k' v' \<and> objects_used Q cap n v' (c(g_current k \<mapsto> (r, msg, Q_Slot))))"
proof -
  let ?t = "g_current k" and ?c = "c(g_current k \<mapsto> (r, msg, Q_Slot))"
  note D = objects_usedD [OF U] and move = in_calls_move [of c ?t r msg Q_Lock, OF c, where pc' = Q_Slot]
  have t: "?t \<notin> in_calls c UNIV inside" using c by (simp add: in_calls_iff)
  from kernel_objects.lock_exclusive [OF k D(4) t] obtain v' where
    v': "e = 0" "sees idle k' v'" "mutex_frame (queue_lock Q) v v'" "exclusive v' (queue_lock Q) (insert ?t (in_calls c UNIV inside))"
    "v_waiting v' (MutexQ (queue_lock Q)) \<subseteq> insert ?t (v_waiting v (MutexQ (queue_lock Q)))" by blast
  have h: "in_calls ?c R holding = in_calls c R holding" for R by (rule move(2)) simp
  have o: "in_calls ?c R owing = in_calls c R owing" for R by (rule move(2)) simp
  have i: "in_calls ?c UNIV inside = insert ?t (in_calls c UNIV inside)" by (rule move(3)) simp_all
  have l: "in_calls ?c UNIV (\<lambda>pc. pc = Q_Slot) = insert ?t (in_calls c UNIV (\<lambda>pc. pc = Q_Slot))" by (rule move(3)) simp_all
  have u: "in_calls ?c UNIV is_undo = in_calls c UNIV is_undo" by (rule move(2)) simp
  have "objects_used Q cap n v' ?c"
  proof (rule objects_usedI)
    show "v_waiting v' (MutexQ (queue_lock Q)) \<subseteq> in_calls ?c UNIV (\<lambda>pc. pc = Q_Slot)"
      unfolding l using D(5) v'(5) by blast
  qed (use D(1-3,6) v'(4) units_frame(2) [OF v'(3)] in \<open>simp_all add: h o i u\<close>)
  with v'(1,2) show ?thesis by blast
qed

lemma used_unlock:
  assumes k: "sees idle k v" "may_call idle k" "queue_lock Q \<noteq> NULL" "os_kernel_mutex_unlock (queue_lock Q) k = Some (e, k')"
    and U: "objects_used Q cap n v c" and c: "c (g_current k) = Some (r, msg, Q_Unlock)"
  shows "e = 0 \<and> (\<exists>v'. sees idle k' v' \<and> objects_used Q cap n v' (c(g_current k \<mapsto> (r, msg, Q_Give))))"
proof -
  let ?t = "g_current k" and ?c = "c(g_current k \<mapsto> (r, msg, Q_Give))"
  note D = objects_usedD [OF U] and move = in_calls_move [of c ?t r msg Q_Unlock, OF c, where pc' = Q_Give]
  have t: "?t \<in> in_calls c UNIV inside" using c by (simp add: in_calls_iff)
  from kernel_objects.unlock_exclusive [OF k D(4) t] obtain v' where
    v': "e = 0" "sees idle k' v'" "mutex_frame (queue_lock Q) v v'" "exclusive v' (queue_lock Q) (in_calls c UNIV inside - {?t})"
    "v_waiting v' (MutexQ (queue_lock Q)) \<subseteq> v_waiting v (MutexQ (queue_lock Q))" by blast
  have h: "in_calls ?c R holding = in_calls c R holding" for R by (rule move(2)) simp
  have o: "in_calls ?c R owing = in_calls c R owing" for R by (rule move(2)) simp
  have i: "in_calls ?c UNIV inside = in_calls c UNIV inside - {?t}" by (rule move(4)) simp_all
  have l: "in_calls ?c UNIV (\<lambda>pc. pc = Q_Slot) = in_calls c UNIV (\<lambda>pc. pc = Q_Slot)" by (rule move(2)) simp
  have u: "in_calls ?c UNIV is_undo = in_calls c UNIV is_undo" by (rule move(2)) simp
  have "objects_used Q cap n v' ?c"
  proof (rule objects_usedI)
    show "v_waiting v' (MutexQ (queue_lock Q)) \<subseteq> in_calls ?c UNIV (\<lambda>pc. pc = Q_Slot)"
      unfolding l using D(5) v'(5) by blast
  qed (use D(1-3,6) v'(4) units_frame(2) [OF v'(3)] in \<open>simp_all add: h o i u\<close>)
  with v'(1,2) show ?thesis by blast
qed

lemma used_give:
  assumes k: "sees idle k v" "may_call idle k" "sem_of Q (other r) \<noteq> NULL" "os_kernel_sem_give (sem_of Q (other r)) k = Some (e, k')"
    and U: "objects_used Q cap n v c" and c: "c (g_current k) = Some (r, msg, Q_Give)" and n: "n \<le> cap" "cap < 2 ^ 31"
  shows "e = 0 \<and> (\<exists>v'. sees idle k' v' \<and> objects_used Q cap n v' (c(g_current k \<mapsto> (r, msg, Q_Return 0))))"
proof -
  let ?t = "g_current k" and ?c = "c(g_current k \<mapsto> (r, msg, Q_Return 0))"
  note D = objects_usedD [OF U] and move = in_calls_move [of c ?t r msg Q_Give, OF c, where pc' = "Q_Return 0"]
  have t: "?t \<in> in_calls c {r} owing" "finite (in_calls c {r} owing)" using c finite_in_calls [OF D(1)] by (simp_all add: in_calls_iff)
  then have card: "card (in_calls c {r} owing) = Suc (card (in_calls c {r} owing - {?t}))" by (rule card.remove [rotated])
  have "avail cap n (other r) \<le> int cap" using n by (cases r) (simp_all add: avail_def)
  then have "units v (sem_of Q (other r)) (in_calls c {other r} holding) < 2 ^ 31 - 1"
    using D(3) [of "other r"] card n(2) by simp
  from kernel_objects.give_units [OF k D(2) this] obtain v' where
    v': "e = 0" "sees idle k' v'" "sem_frame (sem_of Q (other r)) v v'" "units_ok v' (sem_of Q (other r)) (in_calls c {other r} holding)"
    "units v' (sem_of Q (other r)) (in_calls c {other r} holding) = units v (sem_of Q (other r)) (in_calls c {other r} holding) + 1" by blast
  have h: "in_calls ?c R holding = in_calls c R holding" for R by (rule move(2)) simp
  have o: "in_calls ?c {r} owing = in_calls c {r} owing - {?t}" by (rule move(4)) simp_all
  have o': "in_calls ?c {other r} owing = in_calls c {other r} owing" by (rule move(1)) simp
  have i: "in_calls ?c UNIV inside = in_calls c UNIV inside" by (rule move(2)) simp
  have l: "in_calls ?c UNIV (\<lambda>pc. pc = Q_Slot) = in_calls c UNIV (\<lambda>pc. pc = Q_Slot)" by (rule move(2)) simp
  have u: "in_calls ?c UNIV is_undo = in_calls c UNIV is_undo" by (rule move(2)) simp
  note fr = units_frame(1) [OF v'(3)] exclusive_frame(1) [OF v'(3)]
  have "objects_used Q cap n v' ?c"
  proof (rule objects_usedI)
    fix r'
    show "units_ok v' (sem_of Q r') (in_calls ?c {r'} holding)"
      using role_cases [of r' r] v'(4) D(2) fr(1) by (auto simp: h)
    show "units v' (sem_of Q r') (in_calls ?c {r'} holding) + int (card (in_calls ?c {other r'} owing)) = avail cap n r'"
      using role_cases [of r' r] v'(5) D(3) [of r] D(3) [of "other r"] fr(1) card by (auto simp: h o o')
  next
    show "v_waiting v' (MutexQ (queue_lock Q)) \<subseteq> in_calls ?c UNIV (\<lambda>pc. pc = Q_Slot)"
      using D(5) v'(3) by (simp add: l sem_frame_def)
  qed (use D(1,4,6) fr(2) in \<open>simp_all add: i u\<close>)
  with v'(1,2) show ?thesis by blast
qed

text \<open>The end of a copy: a free slot has become a message, or a message a free slot.\<close>

lemma used_copied:
  assumes k: "sees idle k v" "may_call idle k" and U: "objects_used Q cap n v c" and c: "c (g_current k) = Some (r, msg, Q_Copy d s len)"
    and n: "avail cap n' r = avail cap n r - 1" "avail cap n' (other r) = avail cap n (other r) + 1"
  shows "objects_used Q cap n' v (c(g_current k \<mapsto> (r, msg, Q_Advance)))"
proof -
  let ?t = "g_current k" and ?c = "c(g_current k \<mapsto> (r, msg, Q_Advance))"
  note D = objects_usedD [OF U] and move = in_calls_move [of c ?t r msg "Q_Copy d s len", OF c, where pc' = Q_Advance]
  have t: "?t \<in> in_calls c {r} holding" "?t \<notin> in_calls c {r} owing" "finite (in_calls c {r} owing)"
    using c finite_in_calls [OF D(1)] by (simp_all add: in_calls_iff)
  note R = units_remove [OF D(2) t(1) kernel_objects.not_waiting [OF k]]
  have h: "in_calls ?c {r} holding = in_calls c {r} holding - {?t}" by (rule move(4)) simp_all
  have h': "in_calls ?c {other r} holding = in_calls c {other r} holding" by (rule move(1)) simp
  have o: "in_calls ?c {r} owing = insert ?t (in_calls c {r} owing)" by (rule move(3)) simp_all
  have o': "in_calls ?c {other r} owing = in_calls c {other r} owing" by (rule move(1)) simp
  have i: "in_calls ?c UNIV inside = in_calls c UNIV inside" by (rule move(2)) simp
  have l: "in_calls ?c UNIV (\<lambda>pc. pc = Q_Slot) = in_calls c UNIV (\<lambda>pc. pc = Q_Slot)" by (rule move(2)) simp
  have u: "in_calls ?c UNIV is_undo = in_calls c UNIV is_undo" by (rule move(2)) simp
  show ?thesis
  proof (rule objects_usedI)
    fix r'
    show "units_ok v (sem_of Q r') (in_calls ?c {r'} holding)" using role_cases [of r' r] R(2) D(2) by (auto simp: h h')
    show "units v (sem_of Q r') (in_calls ?c {r'} holding) + int (card (in_calls ?c {other r'} owing)) = avail cap n' r'"
      using role_cases [of r' r] R(1) D(3) [of r] D(3) [of "other r"] n t by (auto simp: h h' o o')
  qed (use D(1,4-6) in \<open>simp_all add: i l u\<close>)
qed

lemma avail_positive:
  assumes "sees idle k v" "may_call idle k" and U: "objects_used Q cap n v c" and c: "c (g_current k) = Some (r, msg, pc)" "holding pc"
  shows "1 \<le> avail cap n r"
proof -
  note D = objects_usedD [OF U]
  have "g_current k \<in> in_calls c {r} holding" using c by (simp add: in_calls_iff)
  from units_remove(3) [OF D(2) this kernel_objects.not_waiting [OF assms(1,2)]] D(3) [of r] show ?thesis by simp
qed

text \<open>Mutual exclusion: a task inside the critical section that runs is the only one that does not wait for the mutex.\<close>

lemma alone_inside:
  assumes "sees idle k v" "may_call idle k" and U: "objects_used Q cap n v c"
    and c: "c (g_current k) = Some (r, msg, pc)" "inside pc" and c': "c t = Some (r', msg', pc')" "inside pc'" "pc' \<noteq> Q_Slot"
  shows "t = g_current k"
proof -
  note D = objects_usedD [OF U]
  have "g_current k \<in> in_calls c UNIV inside" using c by (simp add: in_calls_iff)
  from kernel_objects.owner_exclusive(2) [OF assms(1,2) D(4) this]
  have "in_calls c UNIV inside - v_waiting v (MutexQ (queue_lock Q)) = {g_current k}" .
  moreover have "t \<in> in_calls c UNIV inside" "t \<notin> in_calls c UNIV (\<lambda>pc. pc = Q_Slot)" using c' by (simp_all add: in_calls_iff)
  ultimately show ?thesis using D(5) by blast
qed

end
