(* ===== verification/Queue_Invariant.thy ===== *)
theory Queue_Invariant
  imports Queue_Machine
begin

text \<open>
  The contents of the message queue. Under the bounds of the semaphores and the exclusion of the mutex, the slots
  from the head on hold the messages sent and not yet received, in order, whatever the interleaving of the calls.
\<close>

subsection \<open>The messages in the slots\<close>

definition slot :: "os_queue_t \<Rightarrow> nat \<Rightarrow> addr" where
  "slot q i = qu_storage q + of_nat i * qu_msg_size q"

definition slot_bytes :: "(addr \<Rightarrow> byte) \<Rightarrow> os_queue_t \<Rightarrow> nat \<Rightarrow> byte list" where
  "slot_bytes m q i = bytes_at m (slot q i) (unat (qu_msg_size q))"

abbreviation capacity :: "os_queue_t \<Rightarrow> nat" where "capacity q \<equiv> unat (qu_capacity q)"
abbreviation msg_size :: "os_queue_t \<Rightarrow> nat" where "msg_size q \<equiv> unat (qu_msg_size q)"

definition geometry :: "os_queue_t \<Rightarrow> bool" where
  "geometry q \<longleftrightarrow> 0 < capacity q \<and> capacity q < 2 ^ 31 \<and> 0 < msg_size q \<and> unat (qu_storage q) + capacity q * msg_size q \<le> 2 ^ 32 \<and>
     unat (qu_head q) < capacity q \<and> unat (qu_tail q) < capacity q"

lemma unat_slot:
  assumes g: "geometry q" and i: "i < capacity q"
  shows "unat (slot q i) = unat (qu_storage q) + i * msg_size q" "unat (slot q i) + msg_size q \<le> 2 ^ 32"
proof -
  have "Suc i * msg_size q \<le> capacity q * msg_size q" using i by (intro mult_le_mono1) simp
  then have b: "unat (qu_storage q) + i * msg_size q + msg_size q \<le> 2 ^ 32" using g by (simp add: geometry_def)
  moreover have "0 < msg_size q" using g by (simp add: geometry_def)
  ultimately have l: "unat (qu_storage q) + i * msg_size q < 2 ^ 32" by linarith
  have "slot q i = of_nat (unat (qu_storage q) + i * msg_size q)" by (simp add: slot_def)
  moreover have "unat (of_nat (unat (qu_storage q) + i * msg_size q) :: addr) = unat (qu_storage q) + i * msg_size q"
    using l by (simp only: unat_of_nat) simp
  ultimately show "unat (slot q i) = unat (qu_storage q) + i * msg_size q" by simp
  with b show "unat (slot q i) + msg_size q \<le> 2 ^ 32" by simp
qed

lemma slots_apart:
  assumes g: "geometry q" and "i < capacity q" "j < capacity q" "i \<noteq> j"
  shows "byte_addrs (slot q i) (msg_size q) \<inter> byte_addrs (slot q j) (msg_size q) = {}"
proof -
  have d: "byte_addrs (slot q i) (msg_size q) \<inter> byte_addrs (slot q j) (msg_size q) = {}"
    if "i < j" "i < capacity q" "j < capacity q" for i j
  proof (rule byte_addrs_apart)
    have "Suc i * msg_size q \<le> j * msg_size q" using that(1) by (intro mult_le_mono1) simp
    then show "unat (slot q i) + msg_size q \<le> unat (slot q j)" using unat_slot(1) [OF g] that by simp
    show "unat (slot q j) + msg_size q \<le> 2 ^ 32" by (rule unat_slot(2) [OF g that(3)])
  qed
  show ?thesis using d [of i j] d [of j i] assms by (metis Int_commute linorder_neqE_nat)
qed

lemma slot_in_storage:
  assumes "i < capacity q"
  shows "byte_addrs (slot q i) (msg_size q) \<subseteq> storage_addrs q"
proof
  fix x
  assume "x \<in> byte_addrs (slot q i) (msg_size q)"
  then obtain j where j: "j < msg_size q" "x = slot q i + of_nat j" by (auto simp: byte_addrs_def)
  have "x = qu_storage q + of_nat (i * msg_size q + j)" unfolding j(2) slot_def by simp
  moreover have "i * msg_size q + j < Suc i * msg_size q" using j(1) by simp
  moreover have "Suc i * msg_size q \<le> capacity q * msg_size q" using assms by (intro mult_le_mono1) simp
  ultimately have "x = qu_storage q + of_nat (i * msg_size q + j)" "i * msg_size q + j < capacity q * msg_size q" by linarith+
  then show "x \<in> storage_addrs q" unfolding storage_addrs_def by (simp only: mem_byte_addrs)
qed

lemma slot_bytes_cong: "(\<And>x. x \<in> byte_addrs (slot q i) (msg_size q) \<Longrightarrow> m' x = m x) \<Longrightarrow> slot_bytes m' q i = slot_bytes m q i"
  by (simp add: slot_bytes_def bytes_at_def mem_byte_addrs)

text \<open>\<open>stored m q h n\<close>: the \<open>n\<close> messages from slot \<open>h\<close> on.\<close>

definition stored :: "(addr \<Rightarrow> byte) \<Rightarrow> os_queue_t \<Rightarrow> nat \<Rightarrow> nat \<Rightarrow> byte list list" where
  "stored m q h n = map (\<lambda>k. slot_bytes m q ((h + k) mod capacity q)) [0..<n]"

lemma stored_snoc: "stored m q h (Suc n) = stored m q h n @ [slot_bytes m q ((h + n) mod capacity q)]"
  by (simp add: stored_def)

lemma stored_Cons:
  assumes "h < capacity q"
  shows "stored m q h (Suc n) = slot_bytes m q h # stored m q (Suc h mod capacity q) n"
proof -
  have "(h + Suc k) mod capacity q = (Suc h mod capacity q + k) mod capacity q" for k by (simp add: mod_add_left_eq)
  then show ?thesis using assms by (simp add: stored_def map_upt_Suc del: upt_Suc add_Suc_right)
qed

lemma stored_cong:
  assumes "\<And>i. i < capacity q \<Longrightarrow> (\<exists>k<n. i = (h + k) mod capacity q) \<Longrightarrow> slot_bytes m' q i = slot_bytes m q i" and "0 < capacity q"
  shows "stored m' q h n = stored m q h n"
  unfolding stored_def by (rule map_cong [OF refl], rule assms(1)) (use assms(2) in auto)

text \<open>While a slot is free the next one to fill is not among the filled ones.\<close>

lemma free_slot:
  assumes "k < n" and "n < (c :: nat)"
  shows "(h + k) mod c \<noteq> (h + n) mod c"
proof
  assume "(h + k) mod c = (h + n) mod c"
  then have "c dvd (h + n) - (h + k)" using assms(1) by (metis mod_eq_dvd_iff_nat add_le_cancel_left less_imp_le)
  then show False using assms by (auto dest: dvd_imp_le)
qed

definition advancing :: "(addr \<rightharpoonup> queue_call) \<Rightarrow> role \<Rightarrow> bool" where
  "advancing c r \<longleftrightarrow> in_calls c {r} (\<lambda>pc. pc = Q_Advance) \<noteq> {}"

text \<open>The indices once a call that has copied has also moved its index.\<close>

definition next_head :: "(addr \<rightharpoonup> queue_call) \<Rightarrow> os_queue_t \<Rightarrow> nat" where
  "next_head c q = (if advancing c Recv then Suc (unat (qu_head q)) mod capacity q else unat (qu_head q))"

definition next_tail :: "(addr \<rightharpoonup> queue_call) \<Rightarrow> os_queue_t \<Rightarrow> nat" where
  "next_tail c q = (if advancing c Send then Suc (unat (qu_tail q)) mod capacity q else unat (qu_tail q))"

definition fifo :: "(addr \<Rightarrow> byte) \<Rightarrow> os_queue_t \<Rightarrow> (addr \<rightharpoonup> queue_call) \<Rightarrow> byte list list \<Rightarrow> byte list list \<Rightarrow> nat \<Rightarrow> bool" where
  "fifo m q c sent received n \<longleftrightarrow> n \<le> capacity q \<and> sent = received @ stored m q (next_head c q) n \<and>
     (next_head c q + n) mod capacity q = next_tail c q"

text \<open>Where the copy of a call goes and where it comes from, and the index it moves.\<close>

definition dst_of :: "os_queue_t \<Rightarrow> role \<Rightarrow> addr \<Rightarrow> addr" where
  "dst_of q r msg = (case r of Send \<Rightarrow> slot q (unat (qu_tail q)) | Recv \<Rightarrow> msg)"

definition src_of :: "os_queue_t \<Rightarrow> role \<Rightarrow> addr \<Rightarrow> addr" where
  "src_of q r msg = (case r of Send \<Rightarrow> msg | Recv \<Rightarrow> slot q (unat (qu_head q)))"

definition wrap :: "u32 \<Rightarrow> u32 \<Rightarrow> u32" where
  "wrap cap i = (if i + 1 = cap then 0 else i + 1)"

interpretation wrap: ring_index "wrap cap" cap for cap
  by unfold_locales (simp add: wrap_def)

definition move_index :: "role \<Rightarrow> os_queue_t \<Rightarrow> os_queue_t" where
  "move_index r q = (case r of Send \<Rightarrow> q\<lparr>qu_tail := wrap (qu_capacity q) (qu_tail q)\<rparr>
     | Recv \<Rightarrow> q\<lparr>qu_head := wrap (qu_capacity q) (qu_head q)\<rparr>)"

lemma step_of_simps:
  "step_of r Q msg Q_Take u = (if Q = NULL \<or> msg = NULL then Some (Q_Return (-1), u)
     else do { (e, u) \<leftarrow> sys (os_kernel_sem_take (sem_of Q r)) u; Some (if e \<noteq> 0 then Q_Return e else Q_Lock, u) })"
  "step_of r Q msg Q_Lock u = do { (e, u) \<leftarrow> sys (os_kernel_mutex_lock (queue_lock Q)) u; Some (if e \<noteq> 0 then Q_Undo e else Q_Slot, u) }"
  "step_of r Q msg Q_Slot u = do { q \<leftarrow> us_queues u Q; Some (Q_Copy (dst_of q r msg) (src_of q r msg) (qu_msg_size q), u) }"
  "step_of r Q msg (Q_Copy d s len) u = Some (copy_step d s len u)"
  "step_of r Q msg Q_Advance u = do { q \<leftarrow> us_queues u Q; Some (Q_Unlock, u\<lparr>us_queues := (us_queues u)(Q \<mapsto> move_index r q)\<rparr>) }"
  "step_of r Q msg Q_Unlock u = do { (e, u) \<leftarrow> sys (os_kernel_mutex_unlock (queue_lock Q)) u; Some (if e \<noteq> 0 then Q_Return e else Q_Give, u) }"
  "step_of r Q msg Q_Give u = do { (e, u) \<leftarrow> sys (os_kernel_sem_give (sem_of Q (other r))) u; Some (Q_Return e, u) }"
  by (cases r; simp add: step_of_def sem_of_def dst_of_def src_of_def slot_def move_index_def wrap_def Let_def cong: bind_option_cong)+

text \<open>The state of the copies and the buffers of the calls.\<close>

definition copy_at :: "(addr \<Rightarrow> byte) \<Rightarrow> os_queue_t \<Rightarrow> role \<Rightarrow> addr \<Rightarrow> addr \<Rightarrow> addr \<Rightarrow> u32 \<Rightarrow> nat \<Rightarrow> bool" where
  "copy_at m q r msg d s len i \<longleftrightarrow> i \<le> msg_size q \<and> len = of_nat (msg_size q - i) \<and>
     d = dst_of q r msg + of_nat i \<and> s = src_of q r msg + of_nat i \<and> copied (dst_of q r msg) (src_of q r msg) i m"

definition copying :: "(addr \<Rightarrow> byte) \<Rightarrow> os_queue_t \<Rightarrow> (addr \<rightharpoonup> queue_call) \<Rightarrow> bool" where
  "copying m q c \<longleftrightarrow> (\<forall>t r msg d s len. c t = Some (r, msg, Q_Copy d s len) \<longrightarrow> (\<exists>i. copy_at m q r msg d s len i)) \<and>
     (\<forall>t r msg pc. c t = Some (r, msg, pc) \<longrightarrow> buffer_of q msg \<inter> storage_addrs q = {})"

lemma copyingD:
  assumes "copying m q c" and "c t = Some (r, msg, pc)"
  shows "buffer_of q msg \<inter> storage_addrs q = {}" "pc = Q_Copy d s len \<Longrightarrow> \<exists>i. copy_at m q r msg d s len i"
  using assms unfolding copying_def by metis+

lemma copyingI:
  assumes "\<And>t r msg d s len. c t = Some (r, msg, Q_Copy d s len) \<Longrightarrow> \<exists>i. copy_at m q r msg d s len i"
    and "\<And>t r msg pc. c t = Some (r, msg, pc) \<Longrightarrow> buffer_of q msg \<inter> storage_addrs q = {}"
  shows "copying m q c"
  using assms unfolding copying_def by metis

lemma copying_upd:
  assumes C: "copying m q c" and c: "c t = Some (r, msg, pc)"
    and n: "\<And>d s len. pc' = Q_Copy d s len \<Longrightarrow> \<exists>i. copy_at m q r msg d s len i"
  shows "copying m q (c(t \<mapsto> (r, msg, pc')))"
proof (rule copyingI)
  fix u r' msg' d s len
  assume u: "(c(t \<mapsto> (r, msg, pc'))) u = Some (r', msg', Q_Copy d s len)"
  then show "\<exists>i. copy_at m q r' msg' d s len i"
    using n copyingD(2) [OF C, of u r' msg'] by (cases "u = t") auto
next
  fix u r' msg' pc''
  assume u: "(c(t \<mapsto> (r, msg, pc'))) u = Some (r', msg', pc'')"
  then show "buffer_of q msg' \<inter> storage_addrs q = {}"
    using copyingD(1) [OF C c] copyingD(1) [OF C, of u r' msg' pc''] by (cases "u = t") simp_all
qed

definition queue_data :: "(addr \<Rightarrow> byte) \<Rightarrow> os_queue_t \<Rightarrow> (addr \<rightharpoonup> queue_call) \<Rightarrow> byte list list \<Rightarrow> byte list list \<Rightarrow> nat \<Rightarrow> bool" where
  "queue_data m q c sent received n \<longleftrightarrow> geometry q \<and> fifo m q c sent received n \<and> copying m q c"

definition inv_at :: "addr \<Rightarrow> addr \<Rightarrow> ustate \<Rightarrow> (addr \<rightharpoonup> queue_call) \<Rightarrow> byte list list \<Rightarrow> byte list list \<Rightarrow> bool" where
  "inv_at idle Q u c sent received \<longleftrightarrow> (\<exists>v q n. sees idle (us_kernel u) v \<and> us_queues u Q = Some q \<and>
     objects_used Q (capacity q) n v c \<and> queue_data (us_mem u) q c sent received n)"

definition queue_inv :: "addr \<Rightarrow> addr \<Rightarrow> qsys \<Rightarrow> bool" where
  "queue_inv idle Q x \<longleftrightarrow> queue_lock Q \<noteq> NULL \<and> (\<forall>r. sem_of Q r \<noteq> NULL) \<and>
     inv_at idle Q (q_user x) (q_calls x) (q_sent x) (q_received x)"

lemma inv_atI:
  assumes "sees idle (us_kernel u) v" "us_queues u Q = Some q" "objects_used Q (capacity q) n v c"
    "queue_data (us_mem u) q c sent received n"
  shows "inv_at idle Q u c sent received"
  using assms unfolding inv_at_def by blast

lemma inv_atE:
  assumes "inv_at idle Q u c sent received"
  obtains v q n where "sees idle (us_kernel u) v" "us_queues u Q = Some q" "objects_used Q (capacity q) n v c"
    "queue_data (us_mem u) q c sent received n"
  using assms unfolding inv_at_def by blast

subsection \<open>Steps that touch the kernel only\<close>

lemma inv_kernel:
  assumes "queue_inv idle Q x"
    and "\<And>v cap n. sees idle (q_kernel x) v \<Longrightarrow> objects_used Q cap n v (q_calls x) \<Longrightarrow>
      \<exists>v'. sees idle k v' \<and> objects_used Q cap n v' (q_calls x)"
  shows "queue_inv idle Q (set_kernel k x)"
  using assms by (auto simp: queue_inv_def inv_at_def set_kernel_def) metis

lemma inv_same_view:
  assumes "queue_inv idle Q x" and "\<And>v. sees idle (q_kernel x) v \<Longrightarrow> sees idle k v"
  shows "queue_inv idle Q (set_kernel k x)"
  using inv_kernel [OF assms(1)] assms(2) by blast

lemma inv_sem_frame:
  assumes "queue_inv idle Q x" and m: "m \<notin> {NULL, queue_spaces Q, queue_items Q}"
    and "\<And>v. sees idle (q_kernel x) v \<Longrightarrow> \<exists>v'. sees idle k v' \<and> sem_frame m v v'"
  shows "queue_inv idle Q (set_kernel k x)"
proof (rule inv_kernel [OF assms(1)])
  fix v cap n
  assume v: "sees idle (q_kernel x) v" and U: "objects_used Q cap n v (q_calls x)"
  from assms(3) [OF v] obtain v' where v': "sees idle k v'" "sem_frame m v v'" by blast
  have "m \<noteq> sem_of Q r" for r using m by (cases r) (simp_all add: sem_of_def)
  with objects_used_frame(1) [OF U v'(2)] v'(1) show "\<exists>v'. sees idle k v' \<and> objects_used Q cap n v' (q_calls x)" by blast
qed

lemma inv_mutex_frame:
  assumes "queue_inv idle Q x" and m: "m \<notin> {NULL, queue_lock Q}"
    and "\<And>v. sees idle (q_kernel x) v \<Longrightarrow> \<exists>v'. sees idle k v' \<and> mutex_frame m v v'"
  shows "queue_inv idle Q (set_kernel k x)"
proof (rule inv_kernel [OF assms(1)])
  fix v cap n
  assume v: "sees idle (q_kernel x) v" and U: "objects_used Q cap n v (q_calls x)"
  from assms(3) [OF v] obtain v' where v': "sees idle k v'" "mutex_frame m v v'" by blast
  with objects_used_frame(2) [OF U v'(2)] m show "\<exists>v'. sees idle k v' \<and> objects_used Q cap n v' (q_calls x)" by blast
qed

subsection \<open>Exclusion\<close>

text \<open>A task that runs inside the critical section is alone there: nobody else copies or is about to move an index.\<close>

lemma only_advancing:
  assumes "sees idle k v" "may_call idle k" "objects_used Q cap n v c" and "c (g_current k) = Some (r, msg, pc)" "inside pc"
  shows "advancing c r' \<longleftrightarrow> r' = r \<and> pc = Q_Advance"
proof
  assume "advancing c r'"
  then obtain t msg' where t: "c t = Some (r', msg', Q_Advance)" by (auto simp: advancing_def in_calls_def)
  with alone_inside [OF assms, of t] assms(4) show "r' = r \<and> pc = Q_Advance" by simp
qed (use assms(4) in \<open>auto simp: advancing_def in_calls_def\<close>)

lemma only_copying:
  assumes "sees idle k v" "may_call idle k" "objects_used Q cap n v c" and "c (g_current k) = Some (r, msg, pc)" "inside pc"
    and "c t = Some (r', msg', Q_Copy d s len)"
  shows "t = g_current k"
  using alone_inside [OF assms(1-5,6)] by simp

text \<open>A call whose place changes outside the copy and the move of the index.\<close>

lemma advancing_upd:
  "advancing (c(t \<mapsto> (r, msg, pc'))) r' \<longleftrightarrow> r' = r \<and> pc' = Q_Advance \<or> (\<exists>u msg. u \<noteq> t \<and> c u = Some (r', msg, Q_Advance))"
  by (auto simp: advancing_def in_calls_def)

lemma advancing_same:
  assumes "c t = Some (r, msg, pc)" and "pc \<noteq> Q_Advance" and "pc' \<noteq> Q_Advance"
  shows "advancing (c(t \<mapsto> (r, msg, pc'))) = advancing c"
  using in_calls_move(2) [of c t r msg pc "\<lambda>pc. pc = Q_Advance" pc', OF assms(1)] assms(2,3) by (simp add: advancing_def fun_eq_iff)

lemma data_advancing:
  assumes "queue_data m q c sent received n" and "advancing c' = advancing c" and "copying m q c'"
  shows "queue_data m q c' sent received n"
  using assms by (simp add: queue_data_def fifo_def next_head_def next_tail_def)

lemma data_move:
  assumes D: "queue_data m q c sent received n" and c: "c t = Some (r, msg, pc)" and "pc \<noteq> Q_Advance" and "pc' \<noteq> Q_Advance"
    and "\<And>d s len. pc' \<noteq> Q_Copy d s len"
  shows "queue_data m q (c(t \<mapsto> (r, msg, pc'))) sent received n"
proof (rule data_advancing [OF D advancing_same [of c t r msg pc, OF c assms(3,4)]])
  have "copying m q c" using D by (simp add: queue_data_def)
  then show "copying m q (c(t \<mapsto> (r, msg, pc')))" by (rule copying_upd [where pc = pc]) (use c assms(5) in blast)+
qed

subsection \<open>Steps inside the critical section\<close>

lemma in_buffer: "i < msg_size q \<Longrightarrow> msg + of_nat i \<in> buffer_of q msg"
  by (simp add: buffer_of_def mem_byte_addrs)

lemma avail_room: "1 \<le> avail cap n Send \<Longrightarrow> n < cap" "1 \<le> avail cap n Recv \<Longrightarrow> 0 < n"
  by (simp_all add: avail_def)

lemma msg_size_le: "msg_size q \<le> 2 ^ 32"
  using unat_lt_2p32 [of "qu_msg_size q"] by simp

lemma dst_src_apart:
  assumes "geometry q" and "buffer_of q msg \<inter> storage_addrs q = {}"
  shows "byte_addrs (dst_of q r msg) (msg_size q) \<inter> byte_addrs (src_of q r msg) (msg_size q) = {}"
proof -
  have "byte_addrs (slot q i) (msg_size q) \<inter> byte_addrs msg (msg_size q) = {}" if "i < capacity q" for i
    using slot_in_storage [OF that] assms(2) by (auto simp: buffer_of_def)
  moreover have "unat (qu_head q) < capacity q" "unat (qu_tail q) < capacity q" using assms(1) by (simp_all add: geometry_def)
  ultimately show ?thesis by (cases r) (auto simp: dst_of_def src_of_def)
qed

text \<open>The start of a copy.\<close>

lemma data_slot:
  assumes D: "queue_data m q c sent received n" and c: "c t = Some (r, msg, Q_Slot)"
  shows "queue_data m q (c(t \<mapsto> (r, msg, Q_Copy (dst_of q r msg) (src_of q r msg) (qu_msg_size q)))) sent received n"
proof (rule data_advancing [OF D advancing_same [of c t r msg Q_Slot, OF c]])
  have "copying m q c" using D by (simp add: queue_data_def)
  moreover have "copy_at m q r msg (dst_of q r msg) (src_of q r msg) (qu_msg_size q) 0" by (simp add: copy_at_def copied_def)
  ultimately show "copying m q (c(t \<mapsto> (r, msg, Q_Copy (dst_of q r msg) (src_of q r msg) (qu_msg_size q))))"
    by (intro copying_upd [where pc = Q_Slot]) (use c in auto)
qed simp_all

text \<open>A byte goes to the slot at the tail, which is free, or to the receiver's buffer.\<close>

lemma write_keeps_stored:
  assumes g: "geometry q" and b: "buffer_of q msg \<inter> storage_addrs q = {}" and i: "i < msg_size q"
    and t: "(unat (qu_head q) + n) mod capacity q = unat (qu_tail q)" and n: "r = Send \<Longrightarrow> n < capacity q"
  shows "stored (m(dst_of q r msg + of_nat i := x)) q (unat (qu_head q)) n = stored m q (unat (qu_head q)) n"
proof (rule stored_cong)
  fix j
  assume j: "j < capacity q" "\<exists>k<n. j = (unat (qu_head q) + k) mod capacity q"
  have g': "unat (qu_tail q) < capacity q" using g by (simp add: geometry_def)
  have "dst_of q r msg + of_nat i \<notin> byte_addrs (slot q j) (msg_size q)"
  proof (cases r)
    case Send
    with j(2) free_slot [of _ n "capacity q" "unat (qu_head q)"] n t have "j \<noteq> unat (qu_tail q)" by auto
    from slots_apart [OF g g' j(1) this [symmetric]] Send mem_byte_addrs [OF i, of "slot q (unat (qu_tail q))"]
    show ?thesis by (auto simp: dst_of_def)
  next
    case Recv
    with in_buffer [OF i, of msg] slot_in_storage [OF j(1)] b show ?thesis by (auto simp: dst_of_def)
  qed
  then show "slot_bytes (m(dst_of q r msg + of_nat i := x)) q j = slot_bytes m q j" by (intro slot_bytes_cong) auto
qed (use g in \<open>simp add: geometry_def\<close>)

lemma copy_at_step:
  assumes C: "copy_at m q r msg d s len i" and "0 < len" and g: "geometry q" "buffer_of q msg \<inter> storage_addrs q = {}"
  shows "i < msg_size q" "copy_at (m(d := m s)) q r msg (d + 1) (s + 1) (len - 1) (Suc i)"
proof -
  from C have c: "len = of_nat (msg_size q - i)" "d = dst_of q r msg + of_nat i" "s = src_of q r msg + of_nat i"
    "copied (dst_of q r msg) (src_of q r msg) i m" by (simp_all add: copy_at_def)
  from assms(2) c(1) show i: "i < msg_size q" by (cases "msg_size q - i") auto
  then have "len - 1 = of_nat (msg_size q - Suc i)"
    unfolding c(1) by (simp add: Suc_diff_Suc [symmetric] del: Suc_diff_Suc)
  moreover have "copied (dst_of q r msg) (src_of q r msg) (Suc i) (m(d := m s))"
    unfolding c(2,3) by (rule copied_step [OF c(4) dst_src_apart [OF g] i msg_size_le])
  ultimately show "copy_at (m(d := m s)) q r msg (d + 1) (s + 1) (len - 1) (Suc i)"
    using i c(2,3) by (simp add: copy_at_def add_ac)
qed

lemma copy_at_end:
  assumes "copy_at m q r msg d s len i" and "\<not> 0 < len"
  shows "copied (dst_of q r msg) (src_of q r msg) (msg_size q) m"
proof -
  have "(of_nat (msg_size q - i) :: u32) = 0" using assms by (auto simp: copy_at_def word_gt_0)
  moreover have "unat (of_nat (msg_size q - i) :: u32) = msg_size q - i"
    using unat_lt_2p32 [of "qu_msg_size q"] by (simp only: unat_of_nat) simp
  ultimately have "msg_size q = i" using assms(1) by (simp add: copy_at_def)
  with assms(1) show ?thesis by (simp add: copy_at_def)
qed

lemma data_byte:
  assumes k: "sees idle k v" "may_call idle k" and U: "objects_used Q (capacity q) n v c"
    and D: "queue_data m q c sent received n" and c: "c (g_current k) = Some (r, msg, Q_Copy d s len)" and len: "0 < len"
  shows "queue_data (m(d := m s)) q (c(g_current k \<mapsto> (r, msg, Q_Copy (d + 1) (s + 1) (len - 1)))) sent received n"
proof -
  let ?c = "c(g_current k \<mapsto> (r, msg, Q_Copy (d + 1) (s + 1) (len - 1)))" and ?m = "m(d := m s)"
  from D have g: "geometry q" and f: "fifo m q c sent received n" and C: "copying m q c" by (simp_all add: queue_data_def)
  note b = copyingD(1) [OF C c]
  from copyingD(2) [OF C c] obtain i where i: "copy_at m q r msg d s len i" by blast
  note S = copy_at_step [OF i len g b]
  have d: "d = dst_of q r msg + of_nat i" using i by (simp add: copy_at_def)
  have na: "\<not> advancing c r'" for r' using only_advancing [OF k U c] by simp
  have na': "advancing ?c = advancing c" by (rule advancing_same [where pc = "Q_Copy d s len"]) (use c in simp_all)
  have "r = Send \<Longrightarrow> n < capacity q" using avail_room(1) [of "capacity q" n] avail_positive [OF k U c] by auto
  then have "stored ?m q (unat (qu_head q)) n = stored m q (unat (qu_head q)) n"
    unfolding d using f na by (intro write_keeps_stored [OF g b S(1)]) (simp_all add: fifo_def next_head_def next_tail_def)
  with f na na' have "fifo ?m q ?c sent received n" by (simp add: fifo_def next_head_def next_tail_def)
  moreover have "copying ?m q ?c"
  proof (rule copyingI)
    fix t r' msg' d' s' len'
    assume t: "?c t = Some (r', msg', Q_Copy d' s' len')"
    have "t = g_current k"
    proof (rule ccontr)
      assume "t \<noteq> g_current k"
      with t only_copying [OF k U c, of t] show False by simp
    qed
    with t S(2) show "\<exists>i. copy_at ?m q r' msg' d' s' len' i" by auto
  next
    fix t r' msg' pc
    assume "?c t = Some (r', msg', pc)"
    with b copyingD(1) [OF C, of t r' msg' pc] show "buffer_of q msg' \<inter> storage_addrs q = {}" by (cases "t = g_current k") simp_all
  qed
  ultimately show ?thesis using g by (simp add: queue_data_def)
qed

text \<open>The end of a copy: the message is stored, or has been received.\<close>

lemma data_sent:
  assumes D: "queue_data m q c sent received n" and na: "\<And>r. \<not> advancing c r" and c: "c t = Some (Send, msg, pc)"
    and n: "n < capacity q" and C: "copied (dst_of q Send msg) (src_of q Send msg) (msg_size q) m"
  shows "queue_data m q (c(t \<mapsto> (Send, msg, Q_Advance))) (sent @ [bytes_at m msg (msg_size q)]) received (Suc n)"
proof -
  let ?c = "c(t \<mapsto> (Send, msg, Q_Advance))" and ?h = "unat (qu_head q)"
  from D have g: "geometry q" and f: "fifo m q c sent received n" and y: "copying m q c" by (simp_all add: queue_data_def)
  have a: "advancing ?c r \<longleftrightarrow> r = Send" for r using na [of r] by (auto simp: advancing_upd advancing_def in_calls_def)
  from f na have s: "sent = received @ stored m q ?h n" "(?h + n) mod capacity q = unat (qu_tail q)"
    by (simp_all add: fifo_def next_head_def next_tail_def)
  have "slot_bytes m q (unat (qu_tail q)) = bytes_at m msg (msg_size q)"
    using C by (simp add: copied_bytes slot_bytes_def dst_of_def src_of_def)
  with s have "sent @ [bytes_at m msg (msg_size q)] = received @ stored m q ?h (Suc n)" by (simp add: stored_snoc)
  moreover have "(?h + Suc n) mod capacity q = Suc (unat (qu_tail q)) mod capacity q"
    unfolding s(2) [symmetric] by (simp add: mod_Suc_eq)
  ultimately have "fifo m q ?c (sent @ [bytes_at m msg (msg_size q)]) received (Suc n)"
    using n a by (simp add: fifo_def next_head_def next_tail_def)
  moreover have "copying m q ?c" by (rule copying_upd [where pc = pc]) (use y c in simp_all)
  ultimately show ?thesis using g by (simp add: queue_data_def)
qed

lemma data_received:
  assumes D: "queue_data m q c sent received n" and na: "\<And>r. \<not> advancing c r" and c: "c t = Some (Recv, msg, pc)"
    and n: "0 < n" and C: "copied (dst_of q Recv msg) (src_of q Recv msg) (msg_size q) m"
  shows "queue_data m q (c(t \<mapsto> (Recv, msg, Q_Advance))) sent (received @ [bytes_at m msg (msg_size q)]) (n - 1)"
proof -
  let ?c = "c(t \<mapsto> (Recv, msg, Q_Advance))" and ?h = "unat (qu_head q)"
  from D have g: "geometry q" and f: "fifo m q c sent received n" and y: "copying m q c" by (simp_all add: queue_data_def)
  have a: "advancing ?c r \<longleftrightarrow> r = Recv" for r using na [of r] by (auto simp: advancing_upd advancing_def in_calls_def)
  from f na have s: "sent = received @ stored m q ?h n" "(?h + n) mod capacity q = unat (qu_tail q)" "n \<le> capacity q"
    by (simp_all add: fifo_def next_head_def next_tail_def)
  from n obtain n' where n': "n = Suc n'" by (cases n) auto
  have h: "?h < capacity q" using g by (simp add: geometry_def)
  have "slot_bytes m q ?h = bytes_at m msg (msg_size q)"
    using C by (simp add: copied_bytes slot_bytes_def dst_of_def src_of_def)
  with s(1) n' stored_Cons [OF h, of m n']
  have "sent = (received @ [bytes_at m msg (msg_size q)]) @ stored m q (Suc ?h mod capacity q) n'" by simp
  moreover have "(Suc ?h mod capacity q + n') mod capacity q = unat (qu_tail q)"
    using s(2) unfolding n' by (simp add: mod_add_left_eq)
  ultimately have "fifo m q ?c sent (received @ [bytes_at m msg (msg_size q)]) n'"
    using s(3) n' a by (simp add: fifo_def next_head_def next_tail_def)
  moreover have "copying m q ?c" by (rule copying_upd [where pc = pc]) (use y c in simp_all)
  ultimately show ?thesis using g n' by (simp add: queue_data_def)
qed

text \<open>The move of the index.\<close>

lemma move_index_simps [simp]:
  "qu_storage (move_index r q) = qu_storage q" "qu_msg_size (move_index r q) = qu_msg_size q"
  "qu_capacity (move_index r q) = qu_capacity q"
  by (simp_all add: move_index_def split: role.split)

lemma move_index_effect:
  assumes "geometry q"
  shows "unat (qu_tail (move_index r q)) = (if r = Send then Suc (unat (qu_tail q)) mod capacity q else unat (qu_tail q))"
    and "unat (qu_head (move_index r q)) = (if r = Recv then Suc (unat (qu_head q)) mod capacity q else unat (qu_head q))"
    and "geometry (move_index r q)"
proof -
  have "qu_tail q < qu_capacity q" "qu_head q < qu_capacity q" using assms by (simp_all add: geometry_def word_less_nat_alt)
  note w = wrap.unat_advance [OF this(1)] wrap.unat_advance [OF this(2)]
  show t: "unat (qu_tail (move_index r q)) = (if r = Send then Suc (unat (qu_tail q)) mod capacity q else unat (qu_tail q))"
    and h: "unat (qu_head (move_index r q)) = (if r = Recv then Suc (unat (qu_head q)) mod capacity q else unat (qu_head q))"
    using w by (cases r; simp add: move_index_def)+
  show "geometry (move_index r q)" using assms unfolding geometry_def t h by simp
qed

lemma data_advance:
  assumes k: "sees idle k v" "may_call idle k" and U: "objects_used Q cap n v c"
    and D: "queue_data m q c sent received n'" and c: "c (g_current k) = Some (r, msg, Q_Advance)"
  shows "queue_data m (move_index r q) (c(g_current k \<mapsto> (r, msg, Q_Unlock))) sent received n'"
proof -
  let ?c = "c(g_current k \<mapsto> (r, msg, Q_Unlock))" and ?q = "move_index r q"
  from D have g: "geometry q" and f: "fifo m q c sent received n'" and C: "copying m q c" by (simp_all add: queue_data_def)
  have a: "advancing c r' \<longleftrightarrow> r' = r" for r' using only_advancing [OF k U c] by simp
  have a': "\<not> advancing ?c r'" for r'
  proof
    assume "advancing ?c r'"
    then obtain u msg' where "u \<noteq> g_current k" "c u = Some (r', msg', Q_Advance)" by (auto simp: advancing_upd)
    with alone_inside [OF k U c, of u] show False by simp
  qed
  have "next_head ?c ?q = next_head c q" "next_tail ?c ?q = next_tail c q"
    using a a' move_index_effect [OF g, of r] by (cases r; simp add: next_head_def next_tail_def)+
  moreover have "stored m ?q h n' = stored m q h n'" for h by (simp add: stored_def slot_bytes_def slot_def)
  ultimately have "fifo m ?q ?c sent received n'" using f by (simp add: fifo_def)
  moreover have "copying m ?q ?c"
  proof (rule copyingI)
    fix t r' msg' d s len
    assume t: "?c t = Some (r', msg', Q_Copy d s len)"
    then have "t \<noteq> g_current k" by auto
    with t only_copying [OF k U c, of t] show "\<exists>i. copy_at m ?q r' msg' d s len i" by simp
  next
    fix t r' msg' pc
    assume "?c t = Some (r', msg', pc)"
    with copyingD(1) [OF C c] copyingD(1) [OF C, of t r' msg' pc]
    show "buffer_of ?q msg' \<inter> storage_addrs ?q = {}" by (cases "t = g_current k") (simp_all add: buffer_of_def storage_addrs_def)
  qed
  ultimately show ?thesis using move_index_effect(3) [OF g] by (simp add: queue_data_def)
qed

subsection \<open>The steps of a call\<close>

lemma used_phase:
  assumes k: "sees idle k v" "may_call idle k" and U: "objects_used Q cap n v c" and c: "c (g_current k) = Some (r, msg, pc)"
    and p: "holding pc' = holding pc" "owing pc' = owing pc" "inside pc' = inside pc" "\<not> is_undo pc'"
  shows "objects_used Q cap n v (c(g_current k \<mapsto> (r, msg, pc')))"
proof (rule objects_used_same [OF U kernel_objects.not_waiting [OF k]])
  show "(g_current k \<in> in_calls (c(g_current k \<mapsto> (r, msg, pc'))) R P) = (g_current k \<in> in_calls c R P)"
    if "P \<in> {holding, owing, inside}" for R P
    using that p c in_calls_iff [of c "g_current k" r msg pc R P] by (auto simp: in_calls_upd)
qed (use objects_usedD(1) [OF U] p(4) in \<open>simp_all add: in_calls_upd\<close>)

text \<open>A call that stays in its phase, a service that succeeds, the copy.\<close>

lemma at_service:
  assumes I: "inv_at idle Q u c sent received" and c: "c (g_current (us_kernel u)) = Some (r, msg, pc)"
    and s: "sys f u \<bind> (\<lambda>(e, u). Some (g e, u)) = Some (pc', u')"
    and f: "\<And>v cap n e k. sees idle (us_kernel u) v \<Longrightarrow> objects_used Q cap n v c \<Longrightarrow> n \<le> cap \<Longrightarrow> cap < 2 ^ 31 \<Longrightarrow>
      f (us_kernel u) = Some (e, k) \<Longrightarrow>
      e = 0 \<and> (\<exists>v'. sees idle k v' \<and> objects_used Q cap n v' (c(g_current (us_kernel u) \<mapsto> (r, msg, g 0))))"
    and p: "pc \<noteq> Q_Advance" "g 0 \<noteq> Q_Advance" "\<And>d s len. g 0 \<noteq> Q_Copy d s len"
  shows "pc' = g 0 \<and> inv_at idle Q u' (c(g_current (us_kernel u) \<mapsto> (r, msg, pc'))) sent received"
proof -
  from I obtain v q n where v: "sees idle (us_kernel u) v" and q: "us_queues u Q = Some q"
    and U: "objects_used Q (capacity q) n v c" and D: "queue_data (us_mem u) q c sent received n" by (rule inv_atE)
  from s obtain e k where e: "f (us_kernel u) = Some (e, k)" "u' = u\<lparr>us_kernel := k\<rparr>" "pc' = g e"
    by (auto simp: sys_def bind_eq_Some_conv)
  have "n \<le> capacity q" "capacity q < 2 ^ 31" using D by (auto simp: queue_data_def fifo_def geometry_def)
  from f [OF v U this e(1)] obtain v' where "e = 0" "sees idle k v'"
    "objects_used Q (capacity q) n v' (c(g_current (us_kernel u) \<mapsto> (r, msg, g 0)))" by blast
  with e(2,3) q data_move [OF D c p] show ?thesis by (auto intro!: inv_atI)
qed

lemma at_take:
  assumes I: "inv_at idle Q u c sent received" and N: "\<And>r. sem_of Q r \<noteq> NULL" and k: "may_call idle (us_kernel u)"
    and c: "c (g_current (us_kernel u)) = Some (r, msg, Q_Take)" and s: "step_of r Q msg Q_Take u = Some (pc', u')"
  shows "(pc' = Q_Lock \<and> msg \<noteq> NULL \<or> pc' = Q_Return (-1) \<and> (Q = NULL \<or> msg = NULL)) \<and>
    inv_at idle Q u' (c(g_current (us_kernel u) \<mapsto> (r, msg, pc'))) sent received"
proof (cases "Q = NULL \<or> msg = NULL")
  case True
  from I obtain v q n where v: "sees idle (us_kernel u) v" and q: "us_queues u Q = Some q"
    and U: "objects_used Q (capacity q) n v c" and D: "queue_data (us_mem u) q c sent received n" by (rule inv_atE)
  from True s have "pc' = Q_Return (-1)" "u' = u" by (auto simp: step_of_simps)
  with True inv_atI [OF v q used_phase [OF v k U c] data_move [OF D c]] show ?thesis by simp
next
  case False
  with s have "sys (os_kernel_sem_take (sem_of Q r)) u \<bind> (\<lambda>(e, u). Some (if e \<noteq> 0 then Q_Return e else Q_Lock, u)) = Some (pc', u')"
    by (simp add: step_of_simps)
  from at_service [OF I c this] show ?thesis using used_take [of idle "us_kernel u" _ Q r _ _ _ _ c msg, OF _ k N _ _ c] False by auto
qed

lemma at_lock:
  assumes I: "inv_at idle Q u c sent received" and N: "queue_lock Q \<noteq> NULL" and k: "may_call idle (us_kernel u)"
    and c: "c (g_current (us_kernel u)) = Some (r, msg, Q_Lock)" and s: "step_of r Q msg Q_Lock u = Some (pc', u')"
  shows "pc' = Q_Slot \<and> inv_at idle Q u' (c(g_current (us_kernel u) \<mapsto> (r, msg, pc'))) sent received"
  using at_service [OF I c s [unfolded step_of_simps]] used_lock [of idle "us_kernel u" _ Q _ _ _ _ c r msg, OF _ k N _ _ c] by auto

lemma at_unlock:
  assumes I: "inv_at idle Q u c sent received" and N: "queue_lock Q \<noteq> NULL" and k: "may_call idle (us_kernel u)"
    and c: "c (g_current (us_kernel u)) = Some (r, msg, Q_Unlock)" and s: "step_of r Q msg Q_Unlock u = Some (pc', u')"
  shows "pc' = Q_Give \<and> inv_at idle Q u' (c(g_current (us_kernel u) \<mapsto> (r, msg, pc'))) sent received"
  using at_service [OF I c s [unfolded step_of_simps]] used_unlock [of idle "us_kernel u" _ Q _ _ _ _ c r msg, OF _ k N _ _ c] by auto

lemma at_give:
  assumes I: "inv_at idle Q u c sent received" and N: "\<And>r. sem_of Q r \<noteq> NULL" and k: "may_call idle (us_kernel u)"
    and c: "c (g_current (us_kernel u)) = Some (r, msg, Q_Give)" and s: "step_of r Q msg Q_Give u = Some (pc', u')"
  shows "pc' = Q_Return 0 \<and> inv_at idle Q u' (c(g_current (us_kernel u) \<mapsto> (r, msg, pc'))) sent received"
  using at_service [OF I c s [unfolded step_of_simps]] used_give [of idle "us_kernel u" _ Q r _ _ _ _ c msg, OF _ k N _ _ c] by auto

lemma at_slot:
  assumes I: "inv_at idle Q u c sent received" and k: "may_call idle (us_kernel u)"
    and c: "c (g_current (us_kernel u)) = Some (r, msg, Q_Slot)" and s: "step_of r Q msg Q_Slot u = Some (pc', u')"
  shows "pc' \<noteq> Q_Advance \<and> inv_at idle Q u' (c(g_current (us_kernel u) \<mapsto> (r, msg, pc'))) sent received"
proof -
  from I obtain v q n where v: "sees idle (us_kernel u) v" and q: "us_queues u Q = Some q"
    and U: "objects_used Q (capacity q) n v c" and D: "queue_data (us_mem u) q c sent received n" by (rule inv_atE)
  from s q have "pc' = Q_Copy (dst_of q r msg) (src_of q r msg) (qu_msg_size q)" "u' = u" by (auto simp: step_of_simps)
  with inv_atI [OF v q used_phase [OF v k U c] data_slot [OF D c]] show ?thesis by simp
qed

lemma at_advance:
  assumes I: "inv_at idle Q u c sent received" and k: "may_call idle (us_kernel u)"
    and c: "c (g_current (us_kernel u)) = Some (r, msg, Q_Advance)" and s: "step_of r Q msg Q_Advance u = Some (pc', u')"
  shows "pc' \<noteq> Q_Advance \<and> inv_at idle Q u' (c(g_current (us_kernel u) \<mapsto> (r, msg, pc'))) sent received"
proof -
  from I obtain v q n where v: "sees idle (us_kernel u) v" and q: "us_queues u Q = Some q"
    and U: "objects_used Q (capacity q) n v c" and D: "queue_data (us_mem u) q c sent received n" by (rule inv_atE)
  from s q have e: "pc' = Q_Unlock" "u' = u\<lparr>us_queues := (us_queues u)(Q \<mapsto> move_index r q)\<rparr>" by (auto simp: step_of_simps)
  from used_phase [OF v k U c, of Q_Unlock]
  have "objects_used Q (capacity (move_index r q)) n v (c(g_current (us_kernel u) \<mapsto> (r, msg, Q_Unlock)))" by simp
  with e v data_advance [OF v k U D c] show ?thesis by (auto intro!: inv_atI)
qed

lemma at_copy:
  assumes I: "inv_at idle Q u c sent received" and k: "may_call idle (us_kernel u)" and q: "us_queues u Q = Some q"
    and c: "c (g_current (us_kernel u)) = Some (r, msg, Q_Copy d s len)" and s: "step_of r Q msg (Q_Copy d s len) u = Some (pc', u')"
    and b: "b = bytes_at (us_mem u') msg (msg_size q)"
  shows "inv_at idle Q u' (c(g_current (us_kernel u) \<mapsto> (r, msg, pc'))) (sent @ finished Send r pc' b) (received @ finished Recv r pc' b)"
proof -
  from I q obtain v n where v: "sees idle (us_kernel u) v"
    and U: "objects_used Q (capacity q) n v c" and D: "queue_data (us_mem u) q c sent received n" by (auto elim: inv_atE)
  show ?thesis
  proof (cases "0 < len")
    case True
    with s have "pc' = Q_Copy (d + 1) (s + 1) (len - 1)" "u' = u\<lparr>us_mem := (us_mem u)(d := us_mem u s)\<rparr>"
      by (auto simp: step_of_simps copy_step_def)
    with used_phase [OF v k U c, of pc'] data_byte [OF v k U D c True] v q show ?thesis
      by (auto simp: finished_def intro!: inv_atI)
  next
    case False
    with s have e: "pc' = Q_Advance" "u' = u" by (auto simp: step_of_simps copy_step_def)
    have na: "\<not> advancing c r'" for r' using only_advancing [OF v k U c] by simp
    have "copying (us_mem u) q c" using D by (simp add: queue_data_def)
    from copyingD(2) [OF this c] copy_at_end False have C: "copied (dst_of q r msg) (src_of q r msg) (msg_size q) (us_mem u)" by blast
    note A = avail_positive [OF v k U c]
    show ?thesis
    proof (cases r)
      case Send
      have n: "n < capacity q" using A Send avail_room by simp
      have "objects_used Q (capacity q) (Suc n) v (c(g_current (us_kernel u) \<mapsto> (r, msg, Q_Advance)))"
        by (rule used_copied [OF v k U c]) (simp_all add: Send avail_def)
      with data_sent [OF D na c [unfolded Send] n] C v q e b Send show ?thesis by (auto simp: finished_def intro!: inv_atI)
    next
      case Recv
      have n: "0 < n" using A Recv avail_room by simp
      have "objects_used Q (capacity q) (n - 1) v (c(g_current (us_kernel u) \<mapsto> (r, msg, Q_Advance)))"
        by (rule used_copied [OF v k U c]) (use n in \<open>simp_all add: Recv avail_def\<close>)
      with data_received [OF D na c [unfolded Recv] n] C v q e b Recv show ?thesis by (auto simp: finished_def intro!: inv_atI)
    qed
  qed
qed

lemma inv_run:
  assumes I: "queue_inv idle Q x" and k: "may_call idle (q_kernel x)" and c: "q_calls x (q_task x) = Some (r, msg, pc)"
    and nr: "\<And>e. pc \<noteq> Q_Return e" and q: "us_queues (q_user x) Q = Some q" and s: "step_of r Q msg pc (q_user x) = Some (pc', u)"
    and b: "b = bytes_at (us_mem u) msg (msg_size q)"
  shows "inv_at idle Q u ((q_calls x)(q_task x \<mapsto> (r, msg, pc'))) (q_sent x @ finished Send r pc' b) (q_received x @ finished Recv r pc' b)"
proof -
  from I have N: "queue_lock Q \<noteq> NULL" "\<And>r. sem_of Q r \<noteq> NULL"
    and A: "inv_at idle Q (q_user x) (q_calls x) (q_sent x) (q_received x)" by (simp_all add: queue_inv_def)
  have *: ?thesis if "pc' \<noteq> Q_Advance \<and> inv_at idle Q u ((q_calls x)(q_task x \<mapsto> (r, msg, pc'))) (q_sent x) (q_received x)"
    using that by (simp add: finished_def)
  show ?thesis
  proof (cases pc)
    case (Q_Undo e)
    from A obtain v cap n where "objects_used Q cap n v (q_calls x)" by (auto elim: inv_atE)
    from objects_usedD(6) [OF this] in_calls_iff [of "q_calls x" "q_task x" r msg pc UNIV is_undo] c Q_Undo show ?thesis by simp
  next
    case (Q_Copy d sa len)
    from at_copy [OF A k q] c s b Q_Copy show ?thesis by blast
  qed (use * at_take [OF A N(2) k] at_lock [OF A N(1) k] at_slot [OF A k] at_advance [OF A k] at_unlock [OF A N(1) k]
      at_give [OF A N(2) k] c s nr in auto)
qed

subsection \<open>The invariant\<close>

lemma inv_call:
  assumes I: "inv_at idle Q u c sent received" and k: "may_call idle (us_kernel u)" and c: "c (g_current (us_kernel u)) = None"
    and q: "us_queues u Q = Some q" and b: "buffer_of q msg \<inter> storage_addrs q = {}"
  shows "inv_at idle Q u (c(g_current (us_kernel u) \<mapsto> (r, msg, Q_Take))) sent received"
proof -
  let ?t = "g_current (us_kernel u)"
  let ?c = "c(?t \<mapsto> (r, msg, Q_Take))"
  from I q obtain v n where v: "sees idle (us_kernel u) v"
    and U: "objects_used Q (capacity q) n v c" and D: "queue_data (us_mem u) q c sent received n" by (auto elim: inv_atE)
  have "objects_used Q (capacity q) n v ?c"
  proof (rule objects_used_same [OF U kernel_objects.not_waiting [OF v k]])
    show "(?t \<in> in_calls ?c R P) = (?t \<in> in_calls c R P)" if "P \<in> {holding, owing, inside}" for R P
      using that in_calls_fresh [of c ?t R P, OF c] by (auto simp: in_calls_upd)
  qed (use objects_usedD(1) [OF U] in \<open>simp_all add: in_calls_upd\<close>)
  moreover have "queue_data (us_mem u) q ?c sent received n"
  proof (rule data_advancing [OF D])
    have "in_calls ?c R (\<lambda>pc. pc = Q_Advance) = in_calls c R (\<lambda>pc. pc = Q_Advance)" for R
      using in_calls_fresh [of c ?t R "\<lambda>pc. pc = Q_Advance", OF c] by (simp add: in_calls_upd)
    then show "advancing ?c = advancing c" by (simp add: advancing_def fun_eq_iff)
    have C: "copying (us_mem u) q c" using D by (simp add: queue_data_def)
    show "copying (us_mem u) q ?c"
    proof (rule copyingI)
      fix t r' msg' d s len
      assume "?c t = Some (r', msg', Q_Copy d s len)"
      then show "\<exists>i. copy_at (us_mem u) q r' msg' d s len i" using copyingD(2) [OF C, of t r' msg'] by (cases "t = ?t") auto
    next
      fix t r' msg' pc
      assume "?c t = Some (r', msg', pc)"
      then show "buffer_of q msg' \<inter> storage_addrs q = {}" using copyingD(1) [OF C, of t r' msg' pc] b by (cases "t = ?t") simp_all
    qed
  qed
  ultimately show ?thesis by (rule inv_atI [OF v q])
qed

lemma inv_return:
  assumes I: "inv_at idle Q u c sent received" and k: "may_call idle (us_kernel u)"
    and c: "c (g_current (us_kernel u)) = Some (r, msg, Q_Return e)"
  shows "inv_at idle Q u (c(g_current (us_kernel u) := None)) sent received"
proof -
  let ?t = "g_current (us_kernel u)"
  let ?c = "c(?t := None)"
  from I obtain v q n where v: "sees idle (us_kernel u) v" and q: "us_queues u Q = Some q"
    and U: "objects_used Q (capacity q) n v c" and D: "queue_data (us_mem u) q c sent received n" by (rule inv_atE)
  have "objects_used Q (capacity q) n v ?c"
  proof (rule objects_used_same [OF U kernel_objects.not_waiting [OF v k]])
    show "(?t \<in> in_calls ?c R P) = (?t \<in> in_calls c R P)" if "P \<in> {holding, owing, inside}" for R P
      using that in_calls_iff [of c ?t r msg "Q_Return e" R P, OF c] by (auto simp: in_calls_none)
  qed (use objects_usedD(1) [OF U] in \<open>simp_all add: in_calls_none\<close>)
  moreover have "queue_data (us_mem u) q ?c sent received n"
  proof (rule data_advancing [OF D])
    have "in_calls ?c R (\<lambda>pc. pc = Q_Advance) = in_calls c R (\<lambda>pc. pc = Q_Advance)" for R
      using in_calls_iff [of c ?t r msg "Q_Return e" R "\<lambda>pc. pc = Q_Advance", OF c] by (simp add: in_calls_none)
    then show "advancing ?c = advancing c" by (simp add: advancing_def fun_eq_iff)
    have C: "copying (us_mem u) q c" using D by (simp add: queue_data_def)
    show "copying (us_mem u) q ?c"
      by (rule copyingI) (use copyingD [OF C] in \<open>auto split: if_splits\<close>)
  qed
  ultimately show ?thesis by (rule inv_atI [OF v q])
qed

lemma inv_compute:
  assumes I: "inv_at idle Q u c sent received" and q: "us_queues u Q = Some q"
    and s: "\<And>a. a \<in> storage_addrs q \<Longrightarrow> M a = us_mem u a"
    and b: "\<And>a t r msg pc. c t = Some (r, msg, pc) \<Longrightarrow> a \<in> buffer_of q msg \<Longrightarrow> M a = us_mem u a"
  shows "inv_at idle Q (u\<lparr>us_mem := M\<rparr>) c sent received"
proof -
  from I q obtain v n where v: "sees idle (us_kernel u) v"
    and U: "objects_used Q (capacity q) n v c" and D: "queue_data (us_mem u) q c sent received n" by (auto elim: inv_atE)
  from D have g: "geometry q" and f: "fifo (us_mem u) q c sent received n" and C: "copying (us_mem u) q c" by (simp_all add: queue_data_def)
  have "slot_bytes M q i = slot_bytes (us_mem u) q i" if "i < capacity q" for i
    using s slot_in_storage [OF that] by (intro slot_bytes_cong) blast
  then have "stored M q h n = stored (us_mem u) q h n" for h using g by (intro stored_cong) (simp_all add: geometry_def)
  with f have "fifo M q c sent received n" by (simp add: fifo_def)
  moreover have "copying M q c"
  proof (rule copyingI)
    fix t r msg d s' len
    assume t: "c t = Some (r, msg, Q_Copy d s' len)"
    have slot: "M (slot q i + of_nat j) = us_mem u (slot q i + of_nat j)" if "i < capacity q" "j < msg_size q" for i j
      using s slot_in_storage [OF that(1)] mem_byte_addrs [OF that(2)] by blast
    have buf: "M (msg + of_nat j) = us_mem u (msg + of_nat j)" if "j < msg_size q" for j using b [OF t in_buffer [OF that]] .
    have "unat (qu_head q) < capacity q" "unat (qu_tail q) < capacity q" using g by (simp_all add: geometry_def)
    then have "copy_at M q r msg d s' len i" if "copy_at (us_mem u) q r msg d s' len i" for i
      using that slot buf by (cases r) (auto simp: copy_at_def copied_def dst_of_def src_of_def)
    with copyingD(2) [OF C t] show "\<exists>i. copy_at M q r msg d s' len i" by blast
  qed (rule copyingD(1) [OF C])
  ultimately have "queue_data M q c sent received n" using g by (simp add: queue_data_def)
  with v q U show ?thesis by (auto intro!: inv_atI)
qed

lemma queue_inv_step:
  assumes "queue_step idle Q x y" and I: "queue_inv idle Q x"
  shows "queue_inv idle Q y"
  using assms(1)
proof cases
  case (call q msg r)
  with I show ?thesis using inv_call [of idle Q "q_user x" "q_calls x"] by (simp add: queue_inv_def)
next
  case (run r msg pc q pc' u b)
  with I inv_run [OF I] show ?thesis by (simp add: queue_inv_def)
next
  case (return r msg e)
  with I show ?thesis using inv_return [of idle Q "q_user x" "q_calls x"] by (simp add: queue_inv_def)
next
  case (compute q M)
  with I show ?thesis using inv_compute [of idle Q "q_user x" "q_calls x"] by (simp add: queue_inv_def)
next
  case (other_take m r k)
  have "\<exists>v'. sees idle k v' \<and> sem_frame m v v'" if "sees idle (q_kernel x) v" for v
    using sees_take [OF that other_take(2)] other_take v_frames(1) by blast
  with I other_take show ?thesis by (auto intro: inv_sem_frame [of idle Q x m])
next
  case (other_give m z r k)
  have "\<exists>v'. sees idle k v' \<and> sem_frame m v v'" if "sees idle (q_kernel x) v" for v
    using sees_give [OF that other_give(2) _ _ other_give(7)] sees_count [OF that other_give(5)] other_give(4,6) v_frames(2) by fastforce
  with I other_give show ?thesis by (auto intro: inv_sem_frame [of idle Q x m])
next
  case (other_lock m r k)
  have "\<exists>v'. sees idle k v' \<and> mutex_frame m v v'" if "sees idle (q_kernel x) v" for v
    using sees_lock [OF that other_lock(2)] other_lock v_frames(3) by blast
  with I other_lock show ?thesis by (auto intro: inv_mutex_frame [of idle Q x m])
next
  case (other_unlock m r k)
  have "\<exists>v'. sees idle k v' \<and> mutex_frame m v v'" if "sees idle (q_kernel x) v" for v
    using sees_unlock [OF that other_unlock(2)] other_unlock v_frames(4) by blast
  with I other_unlock show ?thesis by (auto intro: inv_mutex_frame [of idle Q x m])
next
  case (yield k)
  with I sees_yield [OF _ yield(2)] show ?thesis by (auto intro: inv_same_view)
next
  case (delay n k)
  with I sees_delay [OF _ delay(2)] show ?thesis by (auto intro: inv_same_view)
next
  case (tick k)
  have "sees idle k v" if "sees idle (q_kernel x) v" for v using sees_tick [OF that] tick(2) by simp
  with I tick show ?thesis by (auto intro: inv_same_view)
next
  case (switch k)
  have "sees idle k v" if "sees idle (q_kernel x) v" for v using sees_switch [OF that] switch(3) by simp
  with I switch show ?thesis by (auto intro: inv_same_view)
qed

lemma queue_inv_reachable: "queue_reachable idle Q x y \<Longrightarrow> queue_inv idle Q x \<Longrightarrow> queue_inv idle Q y"
  by (induction rule: queue_reachable.induct) (auto intro: queue_inv_step)

text \<open>What calls return.\<close>

fun result_ok :: "addr \<Rightarrow> queue_pc \<Rightarrow> bool" where
  "result_ok msg Q_Take = True"
| "result_ok msg (Q_Return e) = (e = (if msg = NULL then -1 else 0))"
| "result_ok msg pc = (msg \<noteq> NULL)"

definition results_ok :: "(addr \<rightharpoonup> queue_call) \<Rightarrow> bool" where
  "results_ok c \<longleftrightarrow> (\<forall>t r msg pc. c t = Some (r, msg, pc) \<longrightarrow> result_ok msg pc)"

lemma run_result:
  assumes I: "queue_inv idle Q x" and k: "may_call idle (q_kernel x)" and c: "q_calls x (q_task x) = Some (r, msg, pc)"
    and s: "step_of r Q msg pc (q_user x) = Some (pc', u)" and Q: "Q \<noteq> NULL" and ok: "result_ok msg pc"
  shows "result_ok msg pc'"
proof -
  from I have N: "queue_lock Q \<noteq> NULL" "\<And>r. sem_of Q r \<noteq> NULL"
    and A: "inv_at idle Q (q_user x) (q_calls x) (q_sent x) (q_received x)" by (simp_all add: queue_inv_def)
  show ?thesis
  proof (cases pc)
    case Q_Take
    from at_take [OF A N(2) k c [unfolded Q_Take] s [unfolded Q_Take]] Q show ?thesis by auto
  next
    case Q_Lock
    from at_lock [OF A N(1) k c [unfolded Q_Lock] s [unfolded Q_Lock]] Q_Lock ok show ?thesis by simp
  next
    case (Q_Undo e)
    from A obtain v cap n where "objects_used Q cap n v (q_calls x)" by (auto elim: inv_atE)
    from objects_usedD(6) [OF this] in_calls_iff [of "q_calls x" "q_task x" r msg pc UNIV is_undo] c Q_Undo show ?thesis by simp
  next
    case Q_Unlock
    from at_unlock [OF A N(1) k c [unfolded Q_Unlock] s [unfolded Q_Unlock]] Q_Unlock ok show ?thesis by simp
  next
    case Q_Give
    from at_give [OF A N(2) k c [unfolded Q_Give] s [unfolded Q_Give]] Q_Give ok show ?thesis by simp
  next
    case (Q_Return e)
    with s ok show ?thesis by (cases r) (auto simp: step_of_def)
  qed (use s ok in \<open>auto simp: step_of_simps copy_step_def bind_eq_Some_conv split: if_splits\<close>)
qed

lemma results_ok_step:
  assumes "queue_step idle Q x y" and I: "queue_inv idle Q x" and Q: "Q \<noteq> NULL" and R: "results_ok (q_calls x)"
  shows "results_ok (q_calls y)"
  using assms(1)
proof cases
  case (run r msg pc q pc' u b)
  have "result_ok msg pc" using R run(3) by (simp add: results_ok_def)
  from run_result [OF I run(2,3,6) Q this] R run(1) show ?thesis by (auto simp: results_ok_def)
qed (use R in \<open>auto simp: results_ok_def set_kernel_def\<close>)

lemma results_ok_reachable:
  "queue_reachable idle Q x y \<Longrightarrow> queue_inv idle Q x \<Longrightarrow> Q \<noteq> NULL \<Longrightarrow> results_ok (q_calls x) \<Longrightarrow> results_ok (q_calls y)"
  by (induction rule: queue_reachable.induct) (auto intro: results_ok_step queue_inv_reachable)

end
