(* ===== verification/Message_Queue_Properties.thy ===== *)
theory Message_Queue_Properties
  imports Queue_Invariant
begin

text \<open>
  What an initialised message queue guarantees: \<open>os_queue_init\<close> establishes the invariant of \<open>Queue_Invariant\<close>, so that the
  order and the integrity of the messages, mutual exclusion, the results of the calls and the counts of the
  semaphores hold in every state that is reachable from there.
\<close>

subsection \<open>An initialised queue\<close>

text \<open>The queue's own mutex and semaphores are kernel objects nobody waits for.\<close>

definition unused_objects :: "addr \<Rightarrow> kstate \<Rightarrow> bool" where
  "unused_objects Q s \<longleftrightarrow> map_option mtx_waiters (mutex_at s (queue_lock Q)) = Some emptyq \<and>
     map_option sem_waiters (sem_at s (queue_spaces Q)) = Some emptyq \<and> map_option sem_waiters (sem_at s (queue_items Q)) = Some emptyq"

lemma queue_objects_distinct [simp]: "queue_spaces Q \<noteq> queue_items Q" "queue_items Q \<noteq> queue_spaces Q"
  by (simp_all add: queue_spaces_def queue_items_def)

lemma init_objects:
  assumes u: "kernel_up idle (us_kernel u)" and o: "unused_objects Q (us_kernel u)"
  shows "\<exists>k1. os_mutex_init (queue_lock Q) (us_kernel u) = Some (0, k1) \<and>
    (\<not> sint cap < 0 \<longrightarrow> (\<exists>k2 k3 v. os_sem_init (queue_spaces Q) cap k1 = Some (0, k2) \<and> os_sem_init (queue_items Q) 0 k2 = Some (0, k3) \<and>
      sees idle k3 v \<and> v_owner v (queue_lock Q) = NULL \<and> v_waiting v (MutexQ (queue_lock Q)) = {} \<and>
      (\<forall>r. v_waiting v (SemQ (sem_of Q r)) = {}) \<and> v_count v (queue_spaces Q) = sint cap \<and> v_count v (queue_items Q) = 0))"
proof -
  from o obtain x y z where x: "mutex_at (us_kernel u) (queue_lock Q) = Some x" "mtx_waiters x = emptyq"
    and y: "sem_at (us_kernel u) (queue_spaces Q) = Some y" "sem_waiters y = emptyq"
    and z: "sem_at (us_kernel u) (queue_items Q) = Some z" "sem_waiters z = emptyq" by (auto simp: unused_objects_def)
  from u obtain v where v: "sees idle (us_kernel u) v" by (auto simp: kernel_up_def)
  let ?v1 = "v\<lparr>v_owner := (v_owner v)(queue_lock Q := NULL)\<rparr>"
  from sees_mutex_init [OF v x] obtain k1 where k1: "os_mutex_init (queue_lock Q) (us_kernel u) = Some (0, k1)" "sees idle k1 ?v1"
    "v_waiting v (MutexQ (queue_lock Q)) = {}" by blast
  have y1: "sem_at k1 (queue_spaces Q) = Some y" and z1: "sem_at k1 (queue_items Q) = Some z" using init_frames(2) [OF k1(1)] y z by simp_all
  show ?thesis
  proof (cases "sint cap < 0")
    case True
    with k1 show ?thesis by blast
  next
    case False
    let ?v2 = "?v1\<lparr>v_count := (v_count ?v1)(queue_spaces Q := sint cap)\<rparr>"
    from sees_sem_init [OF k1(2) y1 y(2) False] obtain k2 where k2: "os_sem_init (queue_spaces Q) cap k1 = Some (0, k2)"
      "sees idle k2 ?v2" "v_waiting ?v1 (SemQ (queue_spaces Q)) = {}" by blast
    have z2: "sem_at k2 (queue_items Q) = Some z" using init_frames(1) [OF k2(1)] z1 by simp
    let ?v3 = "?v2\<lparr>v_count := (v_count ?v2)(queue_items Q := sint (0 :: u32))\<rparr>"
    from sees_sem_init [OF k2(2) z2 z(2), of 0] obtain k3 where k3: "os_sem_init (queue_items Q) 0 k2 = Some (0, k3)"
      "sees idle k3 ?v3" "v_waiting ?v2 (SemQ (queue_items Q)) = {}" by auto
    have w: "v_waiting v (SemQ (sem_of Q r)) = {}" for r using k2(3) k3(3) by (cases r) (simp_all add: sem_of_def)
    have "v_owner ?v3 (queue_lock Q) = NULL \<and> v_waiting ?v3 (MutexQ (queue_lock Q)) = {} \<and> (\<forall>r. v_waiting ?v3 (SemQ (sem_of Q r)) = {}) \<and>
        v_count ?v3 (queue_spaces Q) = sint cap \<and> v_count ?v3 (queue_items Q) = 0"
      using k1(3) w by simp
    with k1(1) k2(1) k3(1,2) show ?thesis by blast
  qed
qed

definition queue_start_state :: "ustate \<Rightarrow> qsys" where
  "queue_start_state u = \<lparr>q_user = u, q_calls = Map.empty, q_sent = [], q_received = []\<rparr>"

definition fresh_queue :: "addr \<Rightarrow> u32 \<Rightarrow> u32 \<Rightarrow> os_queue_t" where
  "fresh_queue storage sz cap = \<lparr>qu_storage = storage, qu_msg_size = sz, qu_capacity = cap, qu_head = 0, qu_tail = 0\<rparr>"

lemma queue_init_effect:
  assumes u: "kernel_up idle (us_kernel u)" and o: "unused_objects Q (us_kernel u)"
    and a: "Q \<noteq> NULL" "storage \<noteq> NULL" "sz \<noteq> 0" "cap \<noteq> 0" "\<not> sint cap < 0"
  shows "\<exists>u' v. os_queue_init Q storage sz cap u = Some (0, u') \<and> us_mem u' = us_mem u \<and>
    us_queues u' = (us_queues u)(Q \<mapsto> fresh_queue storage sz cap) \<and> sees idle (us_kernel u') v \<and>
    objects_used Q (unat cap) 0 v Map.empty"
proof -
  from init_objects [OF u o, of cap] a(5) obtain k1 k2 k3 v where
    k: "os_mutex_init (queue_lock Q) (us_kernel u) = Some (0, k1)" "os_sem_init (queue_spaces Q) cap k1 = Some (0, k2)"
    "os_sem_init (queue_items Q) 0 k2 = Some (0, k3)" and v: "sees idle k3 v" "v_owner v (queue_lock Q) = NULL"
    "v_waiting v (MutexQ (queue_lock Q)) = {}" "\<And>r. v_waiting v (SemQ (sem_of Q r)) = {}"
    "v_count v (queue_spaces Q) = sint cap" "v_count v (queue_items Q) = 0" by auto
  have n: "v_count v (sem_of Q r) = avail (unat cap) 0 r" for r
    using v(5,6) sint_small [of cap] sint_nonneg [of cap] a(5) by (cases r) (simp_all add: sem_of_def avail_def)
  have "objects_used Q (unat cap) 0 v Map.empty"
  proof (rule objects_usedI)
    show "units_ok v (sem_of Q r) (in_calls Map.empty {r} holding)" for r
      unfolding units_ok_def n v(4) by (cases r) (simp_all add: in_calls_def avail_def)
    show "units v (sem_of Q r) (in_calls Map.empty {r} holding) + int (card (in_calls Map.empty {other r} owing)) = avail (unat cap) 0 r" for r
      unfolding units_def n v(4) by (simp add: in_calls_def)
  qed (use v(2,3) in \<open>simp_all add: exclusive_def in_calls_def\<close>)
  with k v(1) a show ?thesis by (auto simp: os_queue_init_def sys_def fresh_queue_def)
qed

lemma queue_init_inv:
  assumes "kernel_up idle (us_kernel u)" "unused_objects Q (us_kernel u)" "Q \<noteq> NULL" "storage \<noteq> NULL" "sz \<noteq> 0" "cap \<noteq> 0" "\<not> sint cap < 0"
    and g: "unat storage + unat cap * unat sz \<le> 2 ^ 32" and i: "os_queue_init Q storage sz cap u = Some (0, u')"
  shows "queue_inv idle Q (queue_start_state u')" "us_queues u' Q = Some (fresh_queue storage sz cap)"
proof -
  from queue_init_effect [OF assms(1-7)] i obtain v where v: "us_queues u' = (us_queues u)(Q \<mapsto> fresh_queue storage sz cap)"
    "sees idle (us_kernel u') v" "objects_used Q (unat cap) 0 v Map.empty" by auto
  show q: "us_queues u' Q = Some (fresh_queue storage sz cap)" using v(1) by simp
  from assms(2) have N: "queue_lock Q \<noteq> NULL" "sem_of Q r \<noteq> NULL" for r
    by (cases r; auto simp: unused_objects_def sem_of_def)+
  have c: "0 < unat cap" "unat cap < 2 ^ 31" using assms(6,7) sint_nonneg [of cap] by (simp_all add: unat_gt_0)
  with g assms(5) have "queue_data (us_mem u') (fresh_queue storage sz cap) Map.empty [] [] 0"
    by (simp add: queue_data_def geometry_def fresh_queue_def fifo_def copying_def stored_def next_head_def next_tail_def
        advancing_def in_calls_def unat_gt_0)
  with N v(2,3) q show "queue_inv idle Q (queue_start_state u')"
    by (simp add: queue_inv_def queue_start_state_def) (auto intro!: inv_atI simp: fresh_queue_def)
qed

text \<open>The storage, the size and the number of the slots never change.\<close>

definition same_store :: "os_queue_t \<Rightarrow> os_queue_t \<Rightarrow> bool" where
  "same_store q q' \<longleftrightarrow> qu_storage q' = qu_storage q \<and> qu_msg_size q' = qu_msg_size q \<and> qu_capacity q' = qu_capacity q"

lemma step_of_store:
  assumes "step_of r Q msg pc u = Some (pc', u')" and "us_queues u Q = Some q"
  shows "\<exists>q'. us_queues u' Q = Some q' \<and> same_store q q'"
proof (cases pc)
  case (Q_Undo e)
  with assms show ?thesis by (cases r) (auto simp: step_of_def sys_def bind_eq_Some_conv same_store_def)
next
  case (Q_Return e)
  with assms show ?thesis by (cases r) (auto simp: step_of_def same_store_def)
qed (use assms in \<open>auto simp: step_of_simps copy_step_def sys_def bind_eq_Some_conv same_store_def split: if_splits\<close>)

lemma queue_step_store:
  assumes "queue_step idle Q x y" and "us_queues (q_user x) Q = Some q"
  shows "\<exists>q'. us_queues (q_user y) Q = Some q' \<and> same_store q q'"
  using assms(1)
proof cases
  case (run r msg pc q' pc' u b)
  with step_of_store [OF run(6) assms(2)] show ?thesis by simp
qed (use assms(2) in \<open>simp_all add: set_kernel_def same_store_def\<close>)

lemma reachable_store:
  assumes "queue_reachable idle Q x y" and "us_queues (q_user x) Q = Some q"
  shows "\<exists>q'. us_queues (q_user y) Q = Some q' \<and> same_store q q'"
  using assms
proof (induction rule: queue_reachable.induct)
  case (queue_next x y)
  then obtain q' where "us_queues (q_user x) Q = Some q'" "same_store q q'" by blast
  with queue_step_store [OF queue_next(2)] show ?case by (auto simp: same_store_def)
qed (simp add: same_store_def)

subsection \<open>Properties of an initialised queue\<close>

text \<open>A queue that can be initialised: the kernel is up, the objects are not in use, the arguments are valid and the storage
  lies in the address space.\<close>

definition init_ok :: "addr \<Rightarrow> addr \<Rightarrow> addr \<Rightarrow> u32 \<Rightarrow> u32 \<Rightarrow> ustate \<Rightarrow> bool" where
  "init_ok idle Q storage sz cap u \<longleftrightarrow> kernel_up idle (us_kernel u) \<and> unused_objects Q (us_kernel u) \<and>
     Q \<noteq> NULL \<and> storage \<noteq> NULL \<and> sz \<noteq> 0 \<and> cap \<noteq> 0 \<and> unat cap < 2 ^ 31 \<and> unat storage + unat cap * unat sz \<le> 2 ^ 32"

lemma init_succeeds:
  assumes "init_ok idle Q storage sz cap u"
  shows "\<exists>u'. os_queue_init Q storage sz cap u = Some (0, u')"
  using assms sint_nonneg [of cap] queue_init_effect [of idle u Q storage sz cap] by (auto simp: init_ok_def)

lemma init_reachable:
  assumes ok: "init_ok idle Q storage sz cap u" and u': "os_queue_init Q storage sz cap u = Some (0, u')"
    and r: "queue_reachable idle Q (queue_start_state u') y"
  shows "queue_inv idle Q y" "results_ok (q_calls y)"
    "\<exists>q. us_queues (q_user y) Q = Some q \<and> same_store (fresh_queue storage sz cap) q"
proof -
  from ok have a: "kernel_up idle (us_kernel u)" "unused_objects Q (us_kernel u)" "Q \<noteq> NULL" "storage \<noteq> NULL" "sz \<noteq> 0" "cap \<noteq> 0"
    "\<not> sint cap < 0" "unat storage + unat cap * unat sz \<le> 2 ^ 32" using sint_nonneg [of cap] by (simp_all add: init_ok_def)
  note I = queue_init_inv [OF a u']
  show "queue_inv idle Q y" by (rule queue_inv_reachable [OF r I(1)])
  show "results_ok (q_calls y)"
    by (rule results_ok_reachable [OF r I(1) a(3)]) (simp add: results_ok_def queue_start_state_def)
  show "\<exists>q. us_queues (q_user y) Q = Some q \<and> same_store (fresh_queue storage sz cap) q"
    by (rule reachable_store [OF r]) (simp add: queue_start_state_def I(2))
qed

definition sample_user :: ustate where
  "sample_user = \<lparr>us_kernel = sample, us_mem = (\<lambda>_. 0), us_queues = Map.empty\<rparr>"

lemma sample_init_ok: "init_ok 0x100 0x3000 0x20000100 4 2 sample_user"
  using sample_up by (simp add: init_ok_def sample_user_def unused_objects_def queue_lock_def queue_spaces_def queue_items_def
      sample_sem sample_mutex)

text \<open>A call that runs for a number of steps without being preempted or blocked, to produce states with calls in flight.\<close>

fun run_steps :: "nat \<Rightarrow> addr \<Rightarrow> addr \<Rightarrow> role \<Rightarrow> addr \<Rightarrow> addr \<Rightarrow> queue_pc \<Rightarrow> ustate \<Rightarrow> (queue_pc \<times> ustate) option" where
  "run_steps 0 idle Q r msg t pc u = Some (pc, u)"
| "run_steps (Suc n) idle Q r msg t pc u =
     (if may_call idle (us_kernel u) \<and> g_current (us_kernel u) = t \<and> (\<forall>e\<in>{0, -1}. pc \<noteq> Q_Return e) then do {
        (pc, u) \<leftarrow> step_of r Q msg pc u;
        run_steps n idle Q r msg t pc u
      } else None)"

lemma run_steps_reachable:
  assumes "run_steps n idle Q r msg t pc u = Some (pc', u')" and "queue_reachable idle Q x0 x" and "queue_inv idle Q x0"
    and "results_ok (q_calls x0)" and "Q \<noteq> NULL" and "q_user x = u" and "q_calls x t = Some (r, msg, pc)"
  shows "\<exists>y. queue_reachable idle Q x0 y \<and> q_user y = u' \<and> q_calls y = (q_calls x)(t \<mapsto> (r, msg, pc'))"
  using assms(1,2,6,7)
proof (induction n arbitrary: pc u x)
  case 0
  then show ?case by (metis fun_upd_triv option.inject prod.inject run_steps.simps(1))
next
  case (Suc n)
  from Suc.prems(1) obtain pc1 u1 where k: "may_call idle (us_kernel u)" "g_current (us_kernel u) = t" "\<forall>e\<in>{0, -1}. pc \<noteq> Q_Return e"
    and s: "step_of r Q msg pc u = Some (pc1, u1)" and rest: "run_steps n idle Q r msg t pc1 u1 = Some (pc', u')"
    by (auto simp: bind_eq_Some_conv split: if_splits)
  note I = queue_inv_reachable [OF Suc.prems(2) assms(3)] and R = results_ok_reachable [OF Suc.prems(2) assms(3,5,4)]
  from I Suc.prems(3) obtain q where q: "us_queues u Q = Some q" by (auto simp: queue_inv_def inv_at_def)
  have nr: "pc \<noteq> Q_Return e" for e
    using R Suc.prems(4) k(3) by (auto simp: results_ok_def) (metis result_ok.simps(2))
  let ?b = "bytes_at (us_mem u1) msg (unat (qu_msg_size q))"
  let ?y = "x\<lparr>q_user := u1, q_calls := (q_calls x)(q_task x \<mapsto> (r, msg, pc1)),
      q_sent := q_sent x @ finished Send r pc1 ?b, q_received := q_received x @ finished Recv r pc1 ?b\<rparr>"
  have "queue_step idle Q x ?y"
    by (rule queue_step.run [where pc = pc and q = q]) (use k s q nr Suc.prems(3,4) in auto)
  note reach = queue_next [OF Suc.prems(2) this]
  have c: "q_calls ?y = (q_calls x)(t \<mapsto> (r, msg, pc1))" using k(2) Suc.prems(3) by simp
  have "\<exists>y. queue_reachable idle Q x0 y \<and> q_user y = u' \<and> q_calls y = (q_calls ?y)(t \<mapsto> (r, msg, pc'))"
    by (rule Suc.IH [OF rest reach]) (simp_all add: c)
  then show ?case unfolding c fun_upd_upd .
qed

text \<open>A task of the sample kernel sends a message.\<close>

definition sample_send :: "nat \<Rightarrow> (queue_pc \<times> ustate) option" where
  "sample_send n = do {
     (e, u) \<leftarrow> os_queue_init 0x3000 0x20000100 4 2 sample_user;
     run_steps n 0x100 0x3000 Send 0x20000200 0x200 Q_Take u
   }"

lemma sample_send_reachable:
  assumes "map_option fst (sample_send (Suc n)) = Some pc"
  shows "\<exists>u' u y. os_queue_init 0x3000 0x20000100 4 2 sample_user = Some (0, u') \<and> sample_send (Suc n) = Some (pc, u) \<and>
    queue_reachable 0x100 0x3000 (queue_start_state u') y \<and> q_user y = u \<and> q_calls y = [0x200 \<mapsto> (Send, 0x20000200, pc)]"
proof -
  from init_succeeds [OF sample_init_ok] obtain u' where u': "os_queue_init 0x3000 0x20000100 4 2 sample_user = Some (0, u')" by blast
  with assms obtain u where u: "sample_send (Suc n) = Some (pc, u)" "run_steps (Suc n) 0x100 0x3000 Send 0x20000200 0x200 Q_Take u' = Some (pc, u)"
    by (auto simp: sample_send_def)
  then have k: "may_call 0x100 (us_kernel u')" "g_current (us_kernel u') = 0x200" by (simp_all split: if_splits)
  let ?x = "queue_start_state u'"
  let ?y = "?x\<lparr>q_calls := (q_calls ?x)(q_task ?x \<mapsto> (Send, 0x20000200, Q_Take))\<rparr>"
  note R = init_reachable [OF sample_init_ok u' queue_start]
  from R(3) obtain q where q: "us_queues (q_user ?x) 0x3000 = Some q" "qu_storage q = 0x20000100" "qu_msg_size q = 4" "qu_capacity q = 2"
    by (auto simp: same_store_def fresh_queue_def)
  have b: "buffer_of q 0x20000200 \<inter> storage_addrs q = {}"
    using byte_addrs_apart [of "0x20000100" 8 "0x20000200" 4] q by (simp add: buffer_of_def storage_addrs_def Int_commute)
  have "queue_step 0x100 0x3000 ?x ?y" by (rule queue_step.call [OF _ _ q(1) b]) (simp_all add: k queue_start_state_def)
  from run_steps_reachable [OF u(2) queue_next [OF queue_start this] R(1,2)] k(2) u u'
  show ?thesis by (auto simp: queue_start_state_def)
qed

text \<open>
  C5: The message queue is a FIFO queue. However many tasks send and receive, and wherever they are preempted, the messages sent
  are at every moment the messages received followed by those the slots from the head on hold, in order and
  unchanged: none is lost, duplicated, reordered or torn. At most \<open>capacity\<close> messages are stored.
\<close>

theorem queue_fifo:
  assumes "init_ok idle Q storage sz cap u"
  shows "\<exists>u'. os_queue_init Q storage sz cap u = Some (0, u') \<and>
    (\<forall>y. queue_reachable idle Q (queue_start_state u') y \<longrightarrow>
      (\<exists>q n. us_queues (q_user y) Q = Some q \<and> n \<le> unat cap \<and>
        q_sent y = q_received y @ stored (us_mem (q_user y)) q (next_head (q_calls y) q) n))"
proof -
  from init_succeeds [OF assms] obtain u' where u': "os_queue_init Q storage sz cap u = Some (0, u')" by blast
  have "\<exists>q n. us_queues (q_user y) Q = Some q \<and> n \<le> unat cap \<and>
      q_sent y = q_received y @ stored (us_mem (q_user y)) q (next_head (q_calls y) q) n"
    if "queue_reachable idle Q (queue_start_state u') y" for y
    using init_reachable(1,3) [OF assms u' that]
    by (auto simp: queue_inv_def inv_at_def queue_data_def fifo_def same_store_def fresh_queue_def)
  with u' show ?thesis by blast
qed

theorem queue_fifo_witness:
  "\<exists>u'. os_queue_init 0x3000 0x20000100 4 2 sample_user = Some (0, u') \<and>
    (\<forall>y. queue_reachable 0x100 0x3000 (queue_start_state u') y \<longrightarrow>
      (\<exists>q n. us_queues (q_user y) 0x3000 = Some q \<and> n \<le> 2 \<and>
        q_sent y = q_received y @ stored (us_mem (q_user y)) q (next_head (q_calls y) q) n))"
  using queue_fifo [OF sample_init_ok] by simp

text \<open>
  C33: The queue object stays well formed: in every reachable state its storage, message size and capacity are those it was
  initialised with and both indices denote one of its slots.
\<close>

theorem queue_well_formed:
  assumes "init_ok idle Q storage sz cap u" and "os_queue_init Q storage sz cap u = Some (0, u')"
    and "queue_reachable idle Q (queue_start_state u') y"
  shows "\<exists>q. us_queues (q_user y) Q = Some q \<and> qu_storage q = storage \<and> qu_msg_size q = sz \<and> qu_capacity q = cap \<and>
    qu_head q < cap \<and> qu_tail q < cap"
  using init_reachable(1,3) [OF assms]
  by (auto simp: queue_inv_def inv_at_def queue_data_def geometry_def same_store_def fresh_queue_def word_less_nat_alt)

theorem queue_well_formed_witness:
  "\<exists>u'. os_queue_init 0x3000 0x20000100 4 2 sample_user = Some (0, u') \<and>
    (\<exists>q. us_queues (q_user (queue_start_state u')) 0x3000 = Some q \<and> qu_storage q = 0x20000100 \<and> qu_msg_size q = 4 \<and>
      qu_capacity q = 2 \<and> qu_head q < 2 \<and> qu_tail q < 2)"
proof -
  from init_succeeds [OF sample_init_ok] obtain u' where u': "os_queue_init 0x3000 0x20000100 4 2 sample_user = Some (0, u')" by blast
  from queue_well_formed [OF sample_init_ok u' queue_start] u' show ?thesis by blast
qed

text \<open>
  C13: Mutual exclusion: no two tasks are at the same time between the calculation of the slot and the unlocking of the mutex,
  so that no two copies to or from the storage and no two updates of the indices overlap.
\<close>

theorem queue_exclusive:
  assumes "init_ok idle Q storage sz cap u" and "os_queue_init Q storage sz cap u = Some (0, u')"
    and "queue_reachable idle Q (queue_start_state u') y"
    and "q_calls y t = Some (r, msg, pc)" and "inside pc" and "pc \<noteq> Q_Slot"
    and "q_calls y t' = Some (r', msg', pc')" and "inside pc'" and "pc' \<noteq> Q_Slot"
  shows "t = t'"
proof -
  from init_reachable(1) [OF assms(1-3)] obtain v cap n where "objects_used Q cap n v (q_calls y)" by (auto simp: queue_inv_def inv_at_def)
  note D = objects_usedD(4,5) [OF this]
  have "t \<in> in_calls (q_calls y) UNIV inside" "t \<notin> in_calls (q_calls y) UNIV (\<lambda>pc. pc = Q_Slot)"
    "t' \<in> in_calls (q_calls y) UNIV inside" "t' \<notin> in_calls (q_calls y) UNIV (\<lambda>pc. pc = Q_Slot)"
    using assms(4-) by (simp_all add: in_calls_iff)
  with D(2) have "t \<in> in_calls (q_calls y) UNIV inside - v_waiting v (MutexQ (queue_lock Q))"
    "t' \<in> in_calls (q_calls y) UNIV inside - v_waiting v (MutexQ (queue_lock Q))" by blast+
  with D(1) show ?thesis by (simp add: exclusive_def split: if_splits)
qed

theorem queue_exclusive_witness:
  "\<exists>u' y. os_queue_init 0x3000 0x20000100 4 2 sample_user = Some (0, u') \<and> queue_reachable 0x100 0x3000 (queue_start_state u') y \<and>
    q_calls y 0x200 = Some (Send, 0x20000200, Q_Copy 0x20000101 0x20000201 3) \<and>
    (\<forall>t r msg pc. q_calls y t = Some (r, msg, pc) \<and> inside pc \<and> pc \<noteq> Q_Slot \<longrightarrow> t = 0x200)"
proof -
  have "map_option fst (sample_send (Suc 3)) = Some (Q_Copy 0x20000101 0x20000201 3)" by code_simp
  from sample_send_reachable [OF this] obtain u' y where
    y: "os_queue_init 0x3000 0x20000100 4 2 sample_user = Some (0, u')" "queue_reachable 0x100 0x3000 (queue_start_state u') y"
    "q_calls y = [0x200 \<mapsto> (Send, 0x20000200, Q_Copy 0x20000101 0x20000201 3)]" by blast
  have c: "q_calls y 0x200 = Some (Send, 0x20000200, Q_Copy 0x20000101 0x20000201 3)" by (simp add: y(3))
  have "t = 0x200" if "q_calls y t = Some (r, msg, pc)" "inside pc" "pc \<noteq> Q_Slot" for t r msg pc
    by (rule queue_exclusive [OF sample_init_ok y(1,2) that c]) simp_all
  with y(1,2) c show ?thesis by blast
qed

text \<open>
  C14: A call that returns has succeeded: a sender or receiver gets 0, and -1 only for a null buffer.
\<close>

theorem queue_results:
  assumes "init_ok idle Q storage sz cap u" and "os_queue_init Q storage sz cap u = Some (0, u')"
    and "queue_reachable idle Q (queue_start_state u') y" and "q_calls y t = Some (r, msg, Q_Return e)"
  shows "e = (if msg = NULL then -1 else 0)"
  using init_reachable(2) [OF assms(1-3)] assms(4) unfolding results_ok_def by (metis result_ok.simps(2))

theorem queue_results_witness:
  "\<exists>u' y e. os_queue_init 0x3000 0x20000100 4 2 sample_user = Some (0, u') \<and> queue_reachable 0x100 0x3000 (queue_start_state u') y \<and>
    q_calls y 0x200 = Some (Send, 0x20000200, Q_Return e) \<and> e = 0"
proof -
  have "map_option fst (sample_send (Suc 10)) = Some (Q_Return 0)" by code_simp
  from sample_send_reachable [OF this] obtain u' y where
    y: "os_queue_init 0x3000 0x20000100 4 2 sample_user = Some (0, u')" "queue_reachable 0x100 0x3000 (queue_start_state u') y"
    "q_calls y = [0x200 \<mapsto> (Send, 0x20000200, Q_Return 0)]" by blast
  have "q_calls y 0x200 = Some (Send, 0x20000200, Q_Return 0)" by (simp add: y(3))
  with queue_results [OF sample_init_ok y(1,2) this] y(1,2) show ?thesis by auto
qed

text \<open>
  C15: The semaphores count the slots: when no call is in flight the two counts are the free slots and the messages stored, and
  the mutex is free.
\<close>

theorem queue_counts:
  assumes "init_ok idle Q storage sz cap u" and "os_queue_init Q storage sz cap u = Some (0, u')"
    and "queue_reachable idle Q (queue_start_state u') y" and "q_calls y = Map.empty"
    and "sem_at (q_kernel y) (queue_spaces Q) = Some spaces" and "sem_at (q_kernel y) (queue_items Q) = Some items"
    and "mutex_at (q_kernel y) (queue_lock Q) = Some lock"
  shows "sint (sem_count items) = int (length (q_sent y)) - int (length (q_received y)) \<and>
    sint (sem_count spaces) + sint (sem_count items) = int (unat cap) \<and> mtx_owner lock = NULL"
proof -
  from init_reachable(1,3) [OF assms(1-3)] obtain v q n where v: "sees idle (q_kernel y) v" and q: "us_queues (q_user y) Q = Some q"
    "qu_capacity q = cap" and U: "objects_used Q (unat cap) n v Map.empty" and f: "fifo (us_mem (q_user y)) q Map.empty (q_sent y) (q_received y) n"
    by (auto simp: queue_inv_def inv_at_def queue_data_def same_store_def fresh_queue_def assms(4))
  note D = objects_usedD [OF U]
  have w: "v_waiting v (SemQ (sem_of Q r)) = {}" "v_count v (sem_of Q r) = avail (unat cap) n r" for r
    using D(2,3) [of r] by (simp_all add: units_ok_def units_def in_calls_def)
  have "sint (sem_count items) = int n" "sint (sem_count spaces) = int (unat cap) - int n"
    using w(2) [of Send] w(2) [of Recv] sees_count [OF v assms(5)] sees_count [OF v assms(6)] by (simp_all add: sem_of_def avail_def)
  moreover have "length (q_sent y) = length (q_received y) + n" using f by (simp add: fifo_def stored_def)
  moreover have "v_owner v (queue_lock Q) = NULL" using D(4,5) by (auto simp: exclusive_def in_calls_def split: if_splits)
  ultimately show ?thesis using sees_owner [OF v assms(7)] by simp
qed

theorem queue_counts_witness:
  "\<exists>u' y spaces items lock. os_queue_init 0x3000 0x20000100 4 2 sample_user = Some (0, u') \<and>
    queue_reachable 0x100 0x3000 (queue_start_state u') y \<and> q_calls y = Map.empty \<and>
    sem_at (q_kernel y) (queue_spaces 0x3000) = Some spaces \<and> sem_at (q_kernel y) (queue_items 0x3000) = Some items \<and>
    mutex_at (q_kernel y) (queue_lock 0x3000) = Some lock \<and> length (q_sent y) = Suc (length (q_received y)) \<and>
    sint (sem_count spaces) = 1 \<and> mtx_owner lock = NULL"
proof -
  have "map_option fst (sample_send (Suc 10)) = Some (Q_Return 0)" by code_simp
  from sample_send_reachable [OF this] obtain u' u x where
    x: "os_queue_init 0x3000 0x20000100 4 2 sample_user = Some (0, u')" "sample_send (Suc 10) = Some (Q_Return 0, u)"
    "queue_reachable 0x100 0x3000 (queue_start_state u') x" "q_user x = u" "q_calls x = [0x200 \<mapsto> (Send, 0x20000200, Q_Return 0)]" by blast
  have "map_option (\<lambda>(pc, u). (may_call 0x100 (us_kernel u), g_current (us_kernel u))) (sample_send (Suc 10)) = Some (True, 0x200)"
    by code_simp
  then have k: "may_call 0x100 (us_kernel u)" "g_current (us_kernel u) = 0x200" using x(2) by simp_all
  let ?y = "x\<lparr>q_calls := (q_calls x)(q_task x := None)\<rparr>"
  have "queue_step 0x100 0x3000 x ?y" by (rule queue_step.return) (simp_all add: x k)
  then have y: "queue_reachable 0x100 0x3000 (queue_start_state u') ?y" "q_calls ?y = Map.empty"
    using queue_next [OF x(3)] x(4,5) k by auto
  have "map_option (\<lambda>(pc, u). (map_option sem_count (sem_at (us_kernel u) (queue_spaces 0x3000)),
      map_option sem_count (sem_at (us_kernel u) (queue_items 0x3000)), mutex_at (us_kernel u) (queue_lock 0x3000) \<noteq> None)) (sample_send (Suc 10)) =
    Some (Some 1, Some 1, True)" by code_simp
  then obtain s i l where o: "sem_at (q_kernel ?y) (queue_spaces 0x3000) = Some s" "sem_at (q_kernel ?y) (queue_items 0x3000) = Some i"
    "mutex_at (q_kernel ?y) (queue_lock 0x3000) = Some l" "sem_count s = 1" "sem_count i = 1" using x(2,4) by auto
  from queue_counts [OF sample_init_ok x(1) y o(1-3)] o y x(1) show ?thesis
    by (intro exI [of _ u'] exI [of _ ?y] exI [of _ s] exI [of _ i] exI [of _ l]) auto
qed

text \<open>
  C34: \<open>os_queue_init\<close> rejects null pointers, a message size or a capacity of zero before it touches anything, and a capacity of
  \<open>2 ^ 31\<close> or more, which is not a semaphore count; everything else succeeds and leaves an empty queue.
\<close>

theorem queue_init_result:
  assumes "kernel_up idle (us_kernel u)" and "unused_objects Q (us_kernel u)"
  shows "\<exists>r u'. os_queue_init Q storage sz cap u = Some (r, u') \<and>
    (if Q = NULL \<or> storage = NULL \<or> sz = 0 \<or> cap = 0 then r = -1 \<and> u' = u
     else if 2 ^ 31 \<le> unat cap then r = -1
     else r = 0 \<and> us_mem u' = us_mem u \<and> us_queues u' Q = Some (fresh_queue storage sz cap))"
proof (cases "Q = NULL \<or> storage = NULL \<or> sz = 0 \<or> cap = 0")
  case True
  then show ?thesis by (simp add: os_queue_init_def)
next
  case False
  show ?thesis
  proof (cases "2 ^ 31 \<le> unat cap")
    case True
    then have "sint cap < 0" using sint_nonneg [of cap] by simp
    moreover from init_objects [OF assms] obtain k1 where "os_mutex_init (queue_lock Q) (us_kernel u) = Some (0, k1)" by blast
    ultimately show ?thesis using False True by (simp add: os_queue_init_def sys_def os_sem_init_def)
  next
    case low: False
    then have "\<not> sint cap < 0" using sint_nonneg [of cap] by simp
    with queue_init_effect [OF assms, of storage sz cap] False low show ?thesis by auto
  qed
qed

theorem queue_init_result_witness:
  "\<exists>r u'. os_queue_init 0x3000 0x20000100 4 0x80000000 sample_user = Some (r, u') \<and> r = -1"
  using queue_init_result [of "0x100" sample_user "0x3000" "0x20000100" 4 "0x80000000"] sample_init_ok by (simp add: init_ok_def)

end
