(* ===== verification/Decimal.thy ===== *)
theory Decimal
  imports Ring
begin

text \<open>
  \<open>u32_to_str\<close> of \<open>app/app_main.c\<close>: the decimal digits of a number, produced from the last to the first in a buffer of ten
  characters and copied in reverse order.
\<close>

subsection \<open>Model\<close>

text \<open>The first loop; \<open>tmp\<close> holds the characters stored so far and \<open>len\<close> is its length.\<close>

function digits_loop :: "u32 \<Rightarrow> byte list \<Rightarrow> byte list" where
  "digits_loop v tmp = (if 0 < v then digits_loop (v div 10) (tmp @ [0x30 + ucast (v mod 10)]) else tmp)"
  by pat_completeness auto
termination
  by (relation "measure (\<lambda>(v, tmp). unat v)") (auto simp: word_less_nat_alt unat_div)

declare digits_loop.simps [simp del]

text \<open>The second loop, from index \<open>i\<close> on.\<close>

fun reverse_loop :: "byte list \<Rightarrow> nat \<Rightarrow> nat \<Rightarrow> addr \<Rightarrow> (addr \<Rightarrow> byte) \<Rightarrow> (addr \<Rightarrow> byte)" where
  "reverse_loop tmp i 0 out m = m"
| "reverse_loop tmp i (Suc n) out m = reverse_loop tmp (Suc i) n out (m(out + of_nat i := tmp ! (length tmp - 1 - i)))"

definition u32_to_str :: "u32 \<Rightarrow> addr \<Rightarrow> (addr \<Rightarrow> byte) \<Rightarrow> u32 \<times> (addr \<Rightarrow> byte)" where
  "u32_to_str v out m =
     (if v = 0 then (1, m(out := 0x30))
      else let tmp = digits_loop v [] in (of_nat (length tmp), reverse_loop tmp 0 (length tmp) out m))"

subsection \<open>Reading digits back\<close>

definition digit :: "byte \<Rightarrow> bool" where
  "digit b \<longleftrightarrow> 0x30 \<le> b \<and> b \<le> 0x39"

fun decimal :: "byte list \<Rightarrow> nat" where
  "decimal [] = 0"
| "decimal (b # bs) = unat (b - 0x30) * 10 ^ length bs + decimal bs"

lemma decimal_append: "decimal (xs @ ys) = decimal xs * 10 ^ length ys + decimal ys"
  by (induction xs) (simp_all add: algebra_simps power_add)

lemma digit_of:
  assumes "n < 10"
  shows "digit (0x30 + word_of_nat n)" "unat ((0x30 + word_of_nat n :: byte) - 0x30) = n"
proof -
  have "unat (word_of_nat n :: byte) = n" using assms by (simp only: unat_of_nat) simp
  then show "unat ((0x30 + word_of_nat n :: byte) - 0x30) = n" by simp
  have "n \<in> {0, 1, 2, 3, 4, 5, 6, 7, 8, 9}" using assms by auto
  then show "digit (0x30 + word_of_nat n)" by (auto simp: digit_def)
qed

lemma ucast_mod_10: "ucast (v mod 10 :: u32) = (word_of_nat (unat v mod 10) :: byte)"
proof -
  have "ucast (v mod 10) = (of_nat (unat (v mod 10)) :: byte)" by simp
  then show ?thesis by (simp add: unat_mod)
qed

text \<open>The digits of a number, the last one first.\<close>

fun reverse_digits :: "nat \<Rightarrow> byte list" where
  "reverse_digits n = (if n = 0 then [] else (0x30 + word_of_nat (n mod 10)) # reverse_digits (n div 10))"

declare reverse_digits.simps [simp del]

lemma digits_loop_eq: "digits_loop v tmp = tmp @ reverse_digits (unat v)"
proof (induction v tmp rule: digits_loop.induct)
  case (1 v tmp)
  show ?case
  proof (cases "0 < v")
    case True
    then have "unat v \<noteq> 0" by (simp add: word_gt_0 unat_eq_zero)
    then show ?thesis
      using 1 [OF True] True
      by (simp add: digits_loop.simps [of v tmp] reverse_digits.simps [of "unat v"] ucast_mod_10 unat_div)
  next
    case False
    then have "v = 0" by (simp add: word_gt_0)
    then show ?thesis by (simp add: digits_loop.simps [of 0] reverse_digits.simps [of 0])
  qed
qed

lemma decimal_reverse_digits: "decimal (rev (reverse_digits n)) = n"
proof (induction n rule: reverse_digits.induct)
  case (1 n)
  show ?case
  proof (cases "n = 0")
    case False
    with 1 digit_of(2) [of "n mod 10"] show ?thesis by (simp add: reverse_digits.simps [of n] decimal_append)
  qed (simp add: reverse_digits.simps [of 0])
qed

lemma digits_reverse_digits: "\<forall>b\<in>set (reverse_digits n). digit b"
proof (induction n rule: reverse_digits.induct)
  case (1 n)
  with digit_of(1) [of "n mod 10"] show ?case by (cases "n = 0") (simp_all add: reverse_digits.simps [of n] reverse_digits.simps [of 0])
qed

text \<open>There are no leading zeros, and ten digits are enough for 32 bits.\<close>

lemma last_reverse_digits: "n \<noteq> 0 \<Longrightarrow> reverse_digits n \<noteq> [] \<and> last (reverse_digits n) \<noteq> 0x30"
proof (induction n rule: reverse_digits.induct)
  case (1 n)
  show ?case
  proof (cases "n div 10 = 0")
    case True
    then have n: "n mod 10 = n" "n < 10" by auto
    have "unat ((0x30 + word_of_nat n :: byte) - 0x30) \<noteq> unat ((0x30 :: byte) - 0x30)" using digit_of(2) [OF n(2)] 1(2) by simp
    then have "0x30 + word_of_nat n \<noteq> (0x30 :: byte)" by auto
    with 1(2) True n show ?thesis by (simp add: reverse_digits.simps [of n] reverse_digits.simps [of 0])
  next
    case False
    with 1 show ?thesis by (simp add: reverse_digits.simps [of n])
  qed
qed

lemma length_reverse_digits: "n < 10 ^ k \<Longrightarrow> length (reverse_digits n) \<le> k"
proof (induction k arbitrary: n)
  case 0
  then show ?case by (simp add: reverse_digits.simps [of 0])
next
  case (Suc k)
  then have "n div 10 < 10 ^ k" by (simp add: less_mult_imp_div_less mult.commute)
  with Suc.IH [of "n div 10"] show ?case by (cases "n = 0") (simp_all add: reverse_digits.simps [of n])
qed

lemma reverse_loop_bytes:
  assumes "i + n = length tmp" and "length tmp \<le> 2 ^ 32"
  shows "(\<forall>j. i \<le> j \<and> j < length tmp \<longrightarrow> reverse_loop tmp i n out m (out + of_nat j) = rev tmp ! j) \<and>
    (\<forall>x. x \<notin> (\<lambda>j. out + of_nat j) ` {i..<length tmp} \<longrightarrow> reverse_loop tmp i n out m x = m x)"
  using assms
proof (induction tmp i n out m rule: reverse_loop.induct)
  case (2 tmp i n out m)
  let ?m = "m(out + of_nat i := tmp ! (length tmp - 1 - i))"
  have IH: "(\<forall>j. Suc i \<le> j \<and> j < length tmp \<longrightarrow> reverse_loop tmp (Suc i) n out ?m (out + of_nat j) = rev tmp ! j) \<and>
    (\<forall>x. x \<notin> (\<lambda>j. out + of_nat j) ` {Suc i..<length tmp} \<longrightarrow> reverse_loop tmp (Suc i) n out ?m x = ?m x)"
    by (rule 2(1)) (use 2(2,3) in simp_all)
  have apart: "out + of_nat i \<noteq> out + of_nat j" if "Suc i \<le> j" "j < length tmp" for j :: nat
  proof -
    have "i < length tmp" "i \<noteq> j" using that by simp_all
    with offset_inj [of i "length tmp" j out, OF _ that(2) 2(3)] show ?thesis by blast
  qed
  then have i: "reverse_loop tmp (Suc i) n out ?m (out + of_nat i) = rev tmp ! i"
    using IH 2(2) by (auto simp: rev_nth image_iff)
  show ?case
  proof (intro conjI allI impI)
    fix j
    assume "i \<le> j \<and> j < length tmp"
    with i IH show "reverse_loop tmp i (Suc n) out m (out + of_nat j) = rev tmp ! j" by (cases "j = i") auto
  next
    fix x
    assume "x \<notin> (\<lambda>j. out + of_nat j) ` {i..<length tmp}"
    with IH 2(2) show "reverse_loop tmp i (Suc n) out m x = m x" by (auto simp: image_iff)
  qed
qed auto

lemma u32_to_str_writes:
  "case u32_to_str v out m of (len, m') \<Rightarrow>
     decimal (bytes_at m' out (unat len)) = unat v \<and> (\<forall>b\<in>set (bytes_at m' out (unat len)). digit b) \<and>
     1 \<le> unat len \<and> unat len \<le> 10 \<and> (v \<noteq> 0 \<longrightarrow> m' out \<noteq> 0x30) \<and>
     (\<forall>x. x \<notin> byte_addrs out (unat len) \<longrightarrow> m' x = m x)"
proof (cases "v = 0")
  case True
  then show ?thesis by (simp add: u32_to_str_def bytes_at_def digit_def byte_addrs_def)
next
  case False
  let ?t = "reverse_digits (unat v)"
  have v: "unat v \<noteq> 0" "unat v < 10 ^ 10" using False unat_lt_2p32 [of v] by (simp_all add: unat_eq_zero)
  have l: "length ?t \<le> 10" "0 < length ?t" using length_reverse_digits [OF v(2)] last_reverse_digits [OF v(1)] by auto
  have u: "unat (of_nat (length ?t) :: u32) = length ?t" using l(1) by (simp only: unat_of_nat) simp
  let ?m = "reverse_loop ?t 0 (length ?t) out m"
  from reverse_loop_bytes [of 0 "length ?t" ?t out m] l(1)
  have R: "\<forall>j<length ?t. ?m (out + of_nat j) = rev ?t ! j" "\<forall>x. x \<notin> byte_addrs out (length ?t) \<longrightarrow> ?m x = m x"
    by (simp_all add: byte_addrs_def atLeast0LessThan)
  then have "bytes_at ?m out (length ?t) = rev ?t" by (intro nth_equalityI) (simp_all add: bytes_at_def)
  moreover have "?m out \<noteq> 0x30"
    using R(1) [rule_format, OF l(2)] last_reverse_digits [OF v(1)] last_conv_nth [of ?t] l(2) by (simp add: rev_nth)
  ultimately show ?thesis
    using False u l R(2) decimal_reverse_digits [of "unat v"] digits_reverse_digits [of "unat v"]
    by (simp add: u32_to_str_def digits_loop_eq Suc_le_eq Let_def)
qed

lemma u32_to_str_frame: "x \<notin> byte_addrs out 10 \<Longrightarrow> snd (u32_to_str v out m) x = m x"
proof -
  assume "x \<notin> byte_addrs out 10"
  moreover have "byte_addrs out (unat (fst (u32_to_str v out m))) \<subseteq> byte_addrs out 10"
    using u32_to_str_writes [where v = v and out = out and m = m] by (auto simp: byte_addrs_def split: prod.splits)
  ultimately show ?thesis using u32_to_str_writes [where v = v and out = out and m = m] by (auto split: prod.splits)
qed

text \<open>
  C30: The number \<open>u32_to_str\<close> writes, read back, is its argument: the result is the number of digits, at most ten, of which the
  first is not zero unless the number is, and nothing outside these characters changes.
\<close>

theorem u32_to_str_round_trip:
  "case u32_to_str v out m of (len, m') \<Rightarrow>
     decimal (bytes_at m' out (unat len)) = unat v \<and> (\<forall>b\<in>set (bytes_at m' out (unat len)). digit b) \<and>
     1 \<le> unat len \<and> unat len \<le> 10 \<and> (v \<noteq> 0 \<longrightarrow> m' out \<noteq> 0x30) \<and>
     (\<forall>x. x \<notin> byte_addrs out (unat len) \<longrightarrow> m' x = m x)"
  by (rule u32_to_str_writes)

theorem u32_to_str_round_trip_witness:
  "fst (u32_to_str 1203 0x20001000 (\<lambda>_. 0)) = 4 \<and>
    decimal (bytes_at (snd (u32_to_str 1203 0x20001000 (\<lambda>_. 0))) 0x20001000 4) = 1203 \<and>
    snd (u32_to_str 1203 0x20001000 (\<lambda>_. 0)) 0x20001000 \<noteq> 0x30"
proof -
  have l: "fst (u32_to_str 1203 0x20001000 (\<lambda>_. 0)) = 4" by code_simp
  obtain m where m: "u32_to_str 1203 0x20001000 (\<lambda>_. 0) = (4, m)" using l by (cases "u32_to_str 1203 0x20001000 (\<lambda>_. 0)") simp
  from u32_to_str_round_trip [where v = 1203 and out = "0x20001000" and m = "\<lambda>_. 0"] show ?thesis by (simp add: m)
qed

end
