(* ===== verification/App_Main.thy ===== *)
theory App_Main
  imports Decimal Lfqueue Rtt Boot
begin

text \<open>
  \<open>app/app_main.c\<close>: one task sends the numbers 1, 2, 3, ... through the lock-free queue, another one receives them, counts the
  numbers that are not the expected ones as errors, and both log to the debug channel. The tasks are sequences of
  steps that are interleaved in any order, so that delays and the scheduler need no state of their own here; the host
  may move its offset of the debug channel at any time.
\<close>

subsection \<open>Words in memory\<close>

definition le_bytes :: "u32 \<Rightarrow> byte list" where
  "le_bytes v = [ucast v, ucast (drop_bit 8 v), ucast (drop_bit 16 v), ucast (drop_bit 24 v)]"

definition of_le :: "byte \<Rightarrow> byte \<Rightarrow> byte \<Rightarrow> byte \<Rightarrow> u32" where
  "of_le a b c d = or (ucast a) (or (push_bit 8 (ucast b)) (or (push_bit 16 (ucast c)) (push_bit 24 (ucast d))))"

definition store_u32 :: "addr \<Rightarrow> u32 \<Rightarrow> (addr \<Rightarrow> byte) \<Rightarrow> (addr \<Rightarrow> byte)" where
  "store_u32 p v m = m(p := ucast v, p + 1 := ucast (drop_bit 8 v), p + 2 := ucast (drop_bit 16 v), p + 3 := ucast (drop_bit 24 v))"

definition load_u32 :: "addr \<Rightarrow> (addr \<Rightarrow> byte) \<Rightarrow> u32" where
  "load_u32 p m = of_le (m p) (m (p + 1)) (m (p + 2)) (m (p + 3))"

lemma length_le_bytes [simp]: "length (le_bytes v) = 4"
  by (simp add: le_bytes_def)

lemma byte_high: "8 \<le> n \<Longrightarrow> \<not> bit (b :: byte) n"
  using bit_imp_le_length [of b n] by auto

lemma le_of_le: "le_bytes (of_le a b c d) = [a, b, c, d]"
  by (auto simp: le_bytes_def of_le_def bit_simps byte_high intro!: bit_word_eqI)

lemma of_le_le: "of_le (ucast v) (ucast (drop_bit 8 v)) (ucast (drop_bit 16 v)) (ucast (drop_bit 24 v)) = (v :: u32)"
proof (rule bit_word_eqI)
  fix n
  assume "n < LENGTH(32)"
  then show "bit (of_le (ucast v) (ucast (drop_bit 8 v)) (ucast (drop_bit 16 v)) (ucast (drop_bit 24 v))) n = bit v n"
    by (cases "24 \<le> n"; cases "16 \<le> n") (auto simp: of_le_def bit_simps)
qed

lemma of_le_bytes: "of_le (le_bytes v ! 0) (le_bytes v ! 1) (le_bytes v ! 2) (le_bytes v ! 3) = v"
  by (simp add: le_bytes_def of_le_le)

lemma le_bytes_inj: "inj le_bytes"
  by (rule injI) (metis of_le_bytes)

subsection \<open>Model\<close>

record main_app =
  g_reached_main :: u32
  g_queue :: os_spsc_queue_t
  main_rtt :: rtt_state
  g_task1_sent :: u32
  g_task2_recv :: u32
  g_last_sent :: u32
  g_last_recv :: u32
  g_error_count :: u32

definition set_mem :: "(addr \<Rightarrow> byte) \<Rightarrow> main_app \<Rightarrow> main_app" where
  "set_mem m a = a\<lparr>main_rtt := (main_rtt a)\<lparr>rtt_mem := m\<rparr>\<rparr>"

abbreviation main_mem :: "main_app \<Rightarrow> addr \<Rightarrow> byte" where "main_mem a \<equiv> rtt_mem (main_rtt a)"

text \<open>Where a task is. The arguments are its local variables that live across steps, except \<open>value\<close> and \<open>expected\<close>.\<close>

datatype t0_pc = T0_Start | T0_Ask | T0_Store addr | T0_Publish addr | T0_Clock | T0_Puts u32 | T0_Write u32 | T0_Count | T0_Sleep

datatype t1_pc = T1_Ask | T1_Load addr | T1_Release addr | T1_Clock | T1_Puts u32 | T1_Write u32 | T1_Record | T1_Check | T1_Sleep

text \<open>\<open>now\<close> is what the cycle counter shows, \<open>buf\<close> the task's \<open>clock_buf\<close>, \<open>str\<close> its string literal.\<close>

fun main_task0 :: "addr \<Rightarrow> addr \<Rightarrow> u32 \<Rightarrow> t0_pc \<Rightarrow> u32 \<Rightarrow> main_app \<Rightarrow> (t0_pc \<times> u32 \<times> main_app) option" where
  "main_task0 buf str now T0_Start v a = Some (T0_Ask, v, a)"
| "main_task0 buf str now T0_Ask v a =
     (let a = a\<lparr>g_last_sent := v\<rparr>;
          slot = get_write_location (Some (g_queue a))
      in Some (if slot \<noteq> NULL then T0_Store slot else T0_Sleep, v, a))"
| "main_task0 buf str now (T0_Store slot) v a = Some (T0_Publish slot, v, set_mem (store_u32 slot v (main_mem a)) a)"
| "main_task0 buf str now (T0_Publish slot) v a = do {
     q \<leftarrow> snd (update_write_index (Some (g_queue a)));
     Some (T0_Clock, v, a\<lparr>g_queue := q\<rparr>)
   }"
| "main_task0 buf str now T0_Clock v a =
     (let (clock_len, m) = u32_to_str now buf (main_mem a) in Some (T0_Puts clock_len, v, set_mem m a))"
| "main_task0 buf str now (T0_Puts clock_len) v a = do {
     r \<leftarrow> os_rtt_puts str (main_rtt a);
     Some (T0_Write clock_len, v, a\<lparr>main_rtt := r\<rparr>)
   }"
| "main_task0 buf str now (T0_Write clock_len) v a = Some (T0_Count, v, a\<lparr>main_rtt := os_rtt_write buf clock_len (main_rtt a)\<rparr>)"
| "main_task0 buf str now T0_Count v a = Some (T0_Sleep, v + 1, a\<lparr>g_task1_sent := g_task1_sent a + 1\<rparr>)"
| "main_task0 buf str now T0_Sleep v a = Some (T0_Ask, v, a)"

fun main_task1 :: "addr \<Rightarrow> addr \<Rightarrow> u32 \<Rightarrow> t1_pc \<Rightarrow> u32 \<Rightarrow> u32 \<Rightarrow> main_app \<Rightarrow> (t1_pc \<times> u32 \<times> u32 \<times> main_app) option" where
  "main_task1 buf str now T1_Ask v e a =
     (let slot = get_read_location (Some (g_queue a)) in Some (if slot \<noteq> NULL then T1_Load slot else T1_Sleep, v, e, a))"
| "main_task1 buf str now (T1_Load slot) v e a = Some (T1_Release slot, load_u32 slot (main_mem a), e, a)"
| "main_task1 buf str now (T1_Release slot) v e a = do {
     q \<leftarrow> snd (update_read_index (Some (g_queue a)));
     Some (T1_Clock, v, e, a\<lparr>g_queue := q\<rparr>)
   }"
| "main_task1 buf str now T1_Clock v e a =
     (let (clock_len, m) = u32_to_str now buf (main_mem a) in Some (T1_Puts clock_len, v, e, set_mem m a))"
| "main_task1 buf str now (T1_Puts clock_len) v e a = do {
     r \<leftarrow> os_rtt_puts str (main_rtt a);
     Some (T1_Write clock_len, v, e, a\<lparr>main_rtt := r\<rparr>)
   }"
| "main_task1 buf str now (T1_Write clock_len) v e a = Some (T1_Record, v, e, a\<lparr>main_rtt := os_rtt_write buf clock_len (main_rtt a)\<rparr>)"
| "main_task1 buf str now T1_Record v e a = Some (T1_Check, v, e, a\<lparr>g_last_recv := v, g_task2_recv := g_task2_recv a + 1\<rparr>)"
| "main_task1 buf str now T1_Check v e a =
     (if v \<noteq> e then Some (T1_Sleep, v, v + 1, a\<lparr>g_error_count := g_error_count a + 1\<rparr>) else Some (T1_Sleep, v, e + 1, a))"
| "main_task1 buf str now T1_Sleep v e a = Some (T1_Ask, v, e, a)"

text \<open>\<open>os_app_main\<close>: the queue of eight words, and the two tasks.\<close>

definition app_main_queue :: "addr \<Rightarrow> os_spsc_queue_t \<Rightarrow> os_spsc_queue_t option" where
  "app_main_queue g_queue_storage q = snd (lfqueue_init (Some q) g_queue_storage 4 8)"

definition app_main_main :: "addr \<Rightarrow> addr \<Rightarrow> addr \<Rightarrow> addr \<Rightarrow> addr \<Rightarrow> addr \<Rightarrow> u32 list \<Rightarrow> cpu \<times> main_app \<Rightarrow> (cpu \<times> main_app) option" where
  "app_main_main tr ex g_queue_storage entry0 entry1 args rest s = do {
     let (c, a) = s;
     let a = a\<lparr>g_reached_main := 0xA5A5A5A5\<rparr>;
     q \<leftarrow> app_main_queue g_queue_storage (g_queue a);
     c \<leftarrow> run_calls tr ex [Create_task OS_TASK_MEDIUM entry0 0 256 args rest, Create_task OS_TASK_MEDIUM entry1 1 256 args rest] c;
     Some (c, a\<lparr>g_queue := q\<rparr>)
   }"

subsection \<open>The two tasks at work\<close>

record main_sys =
  ms_app :: main_app
  ms_pc0 :: t0_pc
  ms_value0 :: u32
  ms_pc1 :: t1_pc
  ms_value1 :: u32
  ms_expected :: u32
  ms_sent :: "u32 list"
  ms_received :: "u32 list"

record main_layout =
  ly_buf0 :: addr
  ly_str0 :: addr
  ly_buf1 :: addr
  ly_str1 :: addr

definition published :: "t0_pc \<Rightarrow> u32 \<Rightarrow> u32 list" where
  "published pc v = (case pc of T0_Publish slot \<Rightarrow> [v] | _ \<Rightarrow> [])"

definition released :: "t1_pc \<Rightarrow> u32 \<Rightarrow> u32 list" where
  "released pc v = (case pc of T1_Release slot \<Rightarrow> [v] | _ \<Rightarrow> [])"

definition move_host :: "u32 \<Rightarrow> main_app \<Rightarrow> main_app" where
  "move_host r a = a\<lparr>main_rtt := (main_rtt a)\<lparr>rtt_cb := (rtt_cb (main_rtt a))\<lparr>rtt_up := (rtt_up (rtt_cb (main_rtt a)))\<lparr>ch_rd_off := r\<rparr>\<rparr>\<rparr>\<rparr>"

inductive main_step :: "main_layout \<Rightarrow> main_sys \<Rightarrow> main_sys \<Rightarrow> bool" for l where
  task0: "main_task0 (ly_buf0 l) (ly_str0 l) now (ms_pc0 x) (ms_value0 x) (ms_app x) = Some (pc, v, a) \<Longrightarrow>
    main_step l x (x\<lparr>ms_app := a, ms_pc0 := pc, ms_value0 := v, ms_sent := ms_sent x @ published (ms_pc0 x) (ms_value0 x)\<rparr>)"
| task1: "main_task1 (ly_buf1 l) (ly_str1 l) now (ms_pc1 x) (ms_value1 x) (ms_expected x) (ms_app x) = Some (pc, v, e, a) \<Longrightarrow>
    main_step l x (x\<lparr>ms_app := a, ms_pc1 := pc, ms_value1 := v, ms_expected := e,
      ms_received := ms_received x @ released (ms_pc1 x) (ms_value1 x)\<rparr>)"
| host: "r < ch_size (rtt_up (rtt_cb (main_rtt (ms_app x)))) \<Longrightarrow> main_step l x (x\<lparr>ms_app := move_host r (ms_app x)\<rparr>)"

inductive main_reachable :: "main_layout \<Rightarrow> main_sys \<Rightarrow> main_sys \<Rightarrow> bool" for l x0 where
  main_start: "main_reachable l x0 x0"
| main_next: "main_reachable l x0 x \<Longrightarrow> main_step l x y \<Longrightarrow> main_reachable l x0 y"

text \<open>The queue storage, the buffers of the tasks and that of the debug channel are different objects.\<close>

definition storage :: "os_spsc_queue_t \<Rightarrow> addr set" where
  "storage q = byte_addrs (lf_storage q) (unat (lf_capacity q) * unat (lf_msg_size q))"

definition objects_apart :: "main_layout \<Rightarrow> main_app \<Rightarrow> bool" where
  "objects_apart l a \<longleftrightarrow> storage (g_queue a) \<inter> byte_addrs (ly_buf0 l) 10 = {} \<and> storage (g_queue a) \<inter> byte_addrs (ly_buf1 l) 10 = {} \<and>
     storage (g_queue a) \<inter> buffer_addrs (rtt_up (rtt_cb (main_rtt a))) = {} \<and> channel_ok (rtt_up (rtt_cb (main_rtt a)))"

definition main_initial :: "main_app \<Rightarrow> main_sys" where
  "main_initial a = \<lparr>ms_app = a\<lparr>g_error_count := 0\<rparr>, ms_pc0 = T0_Start, ms_value0 = 1, ms_pc1 = T1_Ask, ms_value1 = 0, ms_expected = 1,
     ms_sent = [], ms_received = []\<rparr>"

subsection \<open>The queue as its users see it\<close>

text \<open>The tasks follow the protocol of \<open>Lfqueue\<close>: this is the state of that protocol.\<close>

definition as_producer :: "t0_pc \<Rightarrow> u32 \<Rightarrow> producer" where
  "as_producer pc v = (case pc of T0_Store p \<Rightarrow> P_slot p (le_bytes v) 0 | T0_Publish p \<Rightarrow> P_slot p (le_bytes v) 4 | _ \<Rightarrow> P_idle)"

definition as_consumer :: "t1_pc \<Rightarrow> u32 \<Rightarrow> consumer" where
  "as_consumer pc v = (case pc of T1_Load p \<Rightarrow> C_slot p [] | T1_Release p \<Rightarrow> C_slot p (le_bytes v) | _ \<Rightarrow> C_idle)"

definition protocol :: "main_sys \<Rightarrow> lf_system" where
  "protocol x = \<lparr>lf_queue = g_queue (ms_app x), lf_bytes = main_mem (ms_app x), lf_prod = as_producer (ms_pc0 x) (ms_value0 x),
     lf_cons = as_consumer (ms_pc1 x) (ms_value1 x), lf_sent = map le_bytes (ms_sent x), lf_received = map le_bytes (ms_received x)\<rparr>"

lemma lf_inv_mem:
  assumes I: "lf_inv s" and b: "\<And>x. x \<in> storage (lf_queue s) \<Longrightarrow> b x = lf_bytes s x"
  shows "lf_inv (s\<lparr>lf_bytes := b\<rparr>)"
proof -
  let ?q = "lf_queue s"
  have ok: "lf_ok ?q" using I by (simp add: lf_inv_def)
  note c = lf_ok_bounds [OF ok]
  have m: "lf_message ?q b i = lf_message ?q (lf_bytes s) i" if "i < unat (lf_capacity ?q)" for i
    using b mem_byte_addrs [OF lf_offset [OF that]] by (auto simp: lf_message_def storage_def simp del: of_nat_add of_nat_mult)
  have "map (lf_message ?q b) (lf_slots ?q) = map (lf_message ?q (lf_bytes s)) (lf_slots ?q)" using c(3) m by (auto intro!: map_cong)
  with I m [OF c(1)] m [OF c(2)] show ?thesis
    by (simp add: lf_inv_def prod_ok_def cons_ok_def split: producer.splits consumer.splits)
qed

lemma lf_inv_store:
  assumes I: "lf_inv s" and p: "lf_prod s = P_slot p (le_bytes v) 0"
  shows "lf_inv (s\<lparr>lf_bytes := store_u32 p v (lf_bytes s), lf_prod := P_slot p (le_bytes v) 4\<rparr>)"
proof -
  let ?put = "\<lambda>s k. s\<lparr>lf_bytes := (lf_bytes s)(p + of_nat k := le_bytes v ! k), lf_prod := P_slot p (le_bytes v) (Suc k)\<rparr>"
  have put: "lf_inv (?put s k)" if "lf_inv s" "lf_prod s = P_slot p (le_bytes v) k" "k < 4" for s k
    by (rule lf_inv_step [OF producer_byte [OF that(2)] that(1)]) (simp add: that(3))
  have "lf_inv (?put (?put (?put (?put s 0) 1) 2) 3)"
    by (rule put [OF put [OF put [OF put [OF I p]]]]) simp_all
  then show ?thesis by (simp add: store_u32_def le_bytes_def numeral_eq_Suc)
qed

lemma lf_inv_load:
  assumes I: "lf_inv s" and p: "lf_cons s = C_slot p []" and q: "lf_msg_size (lf_queue s) = 4"
  shows "lf_inv (s\<lparr>lf_cons := C_slot p (le_bytes (load_u32 p (lf_bytes s)))\<rparr>)"
proof -
  let ?get = "\<lambda>s acc. s\<lparr>lf_cons := C_slot p (acc @ [lf_bytes s (p + of_nat (length acc))])\<rparr>"
  have get: "lf_inv (?get s acc)" if "lf_inv s" "lf_cons s = C_slot p acc" "length acc < 4" "lf_msg_size (lf_queue s) = 4" for s acc
    by (rule lf_inv_step [OF consumer_byte [OF that(2)] that(1)]) (simp add: that)
  let ?m = "\<lambda>i. lf_bytes s (p + of_nat i)"
  have "lf_inv (?get (?get (?get (?get s []) [?m 0]) [?m 0, ?m 1]) [?m 0, ?m 1, ?m 2])"
    by (rule get [OF get [OF get [OF get [OF I p]]]]) (simp_all add: q)
  then show ?thesis by (simp add: load_u32_def le_of_le numeral_eq_Suc)
qed

subsection \<open>Steps that leave the queue alone\<close>

definition quiet :: "main_layout \<Rightarrow> main_app \<Rightarrow> main_app \<Rightarrow> bool" where
  "quiet l a a' \<longleftrightarrow> objects_apart l a' \<and> g_queue a' = g_queue a \<and> g_error_count a' = g_error_count a \<and>
     (\<forall>y\<in>storage (g_queue a). main_mem a' y = main_mem a y)"

lemma quiet_refl: "objects_apart l a \<Longrightarrow> quiet l a a"
  by (simp add: quiet_def)

lemma quiet_clock:
  assumes "objects_apart l a" and "buf \<in> {ly_buf0 l, ly_buf1 l}" and "u32_to_str now buf (main_mem a) = (len, m)"
  shows "quiet l a (set_mem m a)"
proof -
  have "m y = main_mem a y" if "y \<in> storage (g_queue a)" for y
    using u32_to_str_frame [of y buf now "main_mem a"] assms that by (auto simp: objects_apart_def)
  with assms(1) show ?thesis by (simp add: quiet_def set_mem_def objects_apart_def)
qed

lemma quiet_write:
  assumes "objects_apart l a"
  shows "quiet l a (a\<lparr>main_rtt := os_rtt_write data len (main_rtt a)\<rparr>)"
proof -
  have ok: "channel_ok (rtt_up (rtt_cb (main_rtt a)))" using assms by (simp add: objects_apart_def)
  note F = rtt_write_frame [OF ok, where data = data and len = len]
  have "buffer_addrs (rtt_up (rtt_cb (os_rtt_write data len (main_rtt a)))) = buffer_addrs (rtt_up (rtt_cb (main_rtt a)))"
    using F(2,3) by (simp add: buffer_addrs_def)
  moreover have "rtt_mem (os_rtt_write data len (main_rtt a)) y = main_mem a y" if "y \<in> storage (g_queue a)" for y
    using F(4) assms that by (auto simp: objects_apart_def)
  ultimately show ?thesis using assms F(1) by (simp add: quiet_def objects_apart_def)
qed

lemma quiet_puts:
  assumes "objects_apart l a" and "os_rtt_puts str (main_rtt a) = Some r"
  shows "quiet l a (a\<lparr>main_rtt := r\<rparr>)"
  using quiet_write [OF assms(1)] assms(2) by (auto simp: os_rtt_puts_def bind_eq_Some_conv)

lemma quiet_host:
  assumes "objects_apart l a" and "r < ch_size (rtt_up (rtt_cb (main_rtt a)))"
  shows "quiet l a (move_host r a)"
  using assms by (simp add: quiet_def move_host_def objects_apart_def channel_ok_def buffer_addrs_def)

subsection \<open>The invariant\<close>

text \<open>Task 0 between publishing and counting a number; task 1 between releasing and checking one.\<close>

fun logging0 :: "t0_pc \<Rightarrow> bool" where
  "logging0 T0_Clock = True" | "logging0 (T0_Puts n) = True" | "logging0 (T0_Write n) = True" | "logging0 T0_Count = True"
| "logging0 pc = False"

fun checking1 :: "t1_pc \<Rightarrow> bool" where
  "checking1 T1_Clock = True" | "checking1 (T1_Puts n) = True" | "checking1 (T1_Write n) = True" | "checking1 T1_Record = True"
| "checking1 T1_Check = True" | "checking1 pc = False"

definition numbers :: "nat \<Rightarrow> u32 list" where
  "numbers n = map (\<lambda>i. of_nat (Suc i)) [0..<n]"

definition counting :: "main_sys \<Rightarrow> bool" where
  "counting x \<longleftrightarrow> ms_sent x = numbers (length (ms_sent x)) \<and>
     ms_value0 x = of_nat (if logging0 (ms_pc0 x) then length (ms_sent x) else Suc (length (ms_sent x))) \<and>
     ms_expected x = of_nat (if checking1 (ms_pc1 x) then length (ms_received x) else Suc (length (ms_received x))) \<and>
     (checking1 (ms_pc1 x) \<longrightarrow> ms_value1 x = ms_expected x)"

definition main_inv :: "main_layout \<Rightarrow> main_sys \<Rightarrow> bool" where
  "main_inv l x \<longleftrightarrow> objects_apart l (ms_app x) \<and> lf_msg_size (g_queue (ms_app x)) = 4 \<and> g_error_count (ms_app x) = 0 \<and>
     lf_inv (protocol x) \<and> counting x"

lemma numbers_Suc: "numbers (Suc n) = numbers n @ [of_nat (Suc n)]"
  by (simp add: numbers_def)

lemma length_numbers [simp]: "length (numbers n) = n"
  by (simp add: numbers_def)

lemma received_prefix:
  assumes "lf_inv (protocol x)"
  shows "prefix (ms_received x) (ms_sent x)"
proof -
  from assms have "prefix (map le_bytes (ms_received x)) (map le_bytes (ms_sent x))" by (auto simp: lf_inv_def protocol_def)
  then obtain zs where z: "map le_bytes (ms_sent x) = map le_bytes (ms_received x) @ zs" by (auto simp: prefix_def)
  then have "map le_bytes (take (length (ms_received x)) (ms_sent x)) = map le_bytes (ms_received x)" by (simp add: take_map [symmetric])
  then have "take (length (ms_received x)) (ms_sent x) = ms_received x" using le_bytes_inj by (simp add: inj_map_eq_map)
  then show ?thesis by (metis take_is_prefix)
qed

text \<open>The number received last is the one that was expected.\<close>

lemma received_last:
  assumes "prefix (rs @ [v]) (numbers n)"
  shows "v = of_nat (Suc (length rs))"
proof -
  from assms have "length rs < n" using prefix_length_le [OF assms] by simp
  moreover from assms have "v = numbers n ! length rs" by (auto simp: prefix_def nth_append)
  ultimately show ?thesis by (simp add: numbers_def)
qed

lemma main_inv_quiet:
  assumes I: "main_inv l x" and a: "quiet l (ms_app x) (ms_app y)"
    and p: "as_producer (ms_pc0 y) (ms_value0 y) = as_producer (ms_pc0 x) (ms_value0 x)"
      "as_consumer (ms_pc1 y) (ms_value1 y) = as_consumer (ms_pc1 x) (ms_value1 x)"
    and g: "ms_sent y = ms_sent x" "ms_received y = ms_received x" and c: "counting y"
  shows "main_inv l y"
proof -
  have "lf_inv (protocol x\<lparr>lf_bytes := main_mem (ms_app y)\<rparr>)"
    by (rule lf_inv_mem) (use I a in \<open>simp_all add: main_inv_def protocol_def quiet_def\<close>)
  moreover have "protocol x\<lparr>lf_bytes := main_mem (ms_app y)\<rparr> = protocol y" using a p g by (simp add: protocol_def quiet_def)
  ultimately show ?thesis using I a c by (simp add: main_inv_def quiet_def)
qed

lemma main_inv_protocol:
  assumes I: "main_inv l x" and s: "lf_step (protocol x) (protocol y)" and a: "objects_apart l (ms_app y)"
    and "lf_msg_size (g_queue (ms_app y)) = 4" and "g_error_count (ms_app y) = 0" and c: "lf_inv (protocol y) \<Longrightarrow> counting y"
  shows "main_inv l y"
  using lf_inv_step [OF s] I assms(3-) by (simp add: main_inv_def)

lemma main_invD:
  assumes "main_inv l x"
  shows "objects_apart l (ms_app x)" "lf_msg_size (g_queue (ms_app x)) = 4" "g_error_count (ms_app x) = 0" "lf_inv (protocol x)" "counting x"
  using assms by (simp_all add: main_inv_def)

text \<open>Task 0 gets a slot, fills it, publishes it; everything else it does is quiet.\<close>

lemma task0_slot:
  assumes I: "main_inv l x" and pc: "ms_pc0 x = T0_Ask" and p: "p = get_write_location (Some (g_queue (ms_app x)))" "p \<noteq> NULL"
  shows "main_inv l (x\<lparr>ms_app := (ms_app x)\<lparr>g_last_sent := ms_value0 x\<rparr>, ms_pc0 := T0_Store p\<rparr>)" (is "main_inv l ?y")
proof -
  note D = main_invD [OF I]
  have "lf_step (protocol x) (protocol x\<lparr>lf_prod := P_slot p (le_bytes (ms_value0 x)) 0\<rparr>)"
    by (rule producer_check) (use p pc D(2) in \<open>simp_all add: protocol_def as_producer_def\<close>)
  moreover have "protocol x\<lparr>lf_prod := P_slot p (le_bytes (ms_value0 x)) 0\<rparr> = protocol ?y" by (simp add: protocol_def as_producer_def)
  ultimately show ?thesis
    by (intro main_inv_protocol [OF I]) (use D pc in \<open>auto simp: counting_def objects_apart_def\<close>)
qed

lemma task0_store:
  assumes I: "main_inv l x" and pc: "ms_pc0 x = T0_Store p"
  shows "main_inv l (x\<lparr>ms_app := set_mem (store_u32 p (ms_value0 x) (main_mem (ms_app x))) (ms_app x), ms_pc0 := T0_Publish p\<rparr>)" (is "main_inv l ?y")
proof -
  note D = main_invD [OF I]
  have "lf_inv (protocol x\<lparr>lf_bytes := store_u32 p (ms_value0 x) (main_mem (ms_app x)), lf_prod := P_slot p (le_bytes (ms_value0 x)) 4\<rparr>)"
    using lf_inv_store [OF D(4), of p "ms_value0 x"] pc by (simp add: protocol_def as_producer_def)
  then have "lf_inv (protocol ?y)" by (simp add: protocol_def as_producer_def set_mem_def)
  with D pc show ?thesis by (auto simp: main_inv_def counting_def objects_apart_def set_mem_def)
qed

lemma task0_publish:
  assumes I: "main_inv l x" and pc: "ms_pc0 x = T0_Publish p" and q: "update_write_index (Some (g_queue (ms_app x))) = (0, Some q)"
  shows "main_inv l (x\<lparr>ms_app := (ms_app x)\<lparr>g_queue := q\<rparr>, ms_pc0 := T0_Clock, ms_sent := ms_sent x @ [ms_value0 x]\<rparr>)" (is "main_inv l ?y")
proof -
  note D = main_invD [OF I]
  have g: "storage q = storage (g_queue (ms_app x))" "lf_msg_size q = 4"
    using q D(2) by (auto simp: update_write_index_def Let_def storage_def)
  have "lf_step (protocol x) (protocol x\<lparr>lf_queue := q, lf_prod := P_idle, lf_sent := lf_sent (protocol x) @ [le_bytes (ms_value0 x)]\<rparr>)"
    by (rule producer_publish [where p = p]) (use pc q in \<open>simp_all add: protocol_def as_producer_def\<close>)
  moreover have "protocol x\<lparr>lf_queue := q, lf_prod := P_idle, lf_sent := lf_sent (protocol x) @ [le_bytes (ms_value0 x)]\<rparr> = protocol ?y"
    by (simp add: protocol_def as_producer_def)
  moreover have "counting ?y" using D(5) pc by (simp add: counting_def numbers_Suc)
  ultimately show ?thesis by (intro main_inv_protocol [OF I]) (use g D in \<open>simp_all add: objects_apart_def\<close>)
qed

lemma task0_inv:
  assumes I: "main_inv l x" and s: "main_task0 (ly_buf0 l) (ly_str0 l) now (ms_pc0 x) (ms_value0 x) (ms_app x) = Some (pc, v, a)"
    and y: "y = x\<lparr>ms_app := a, ms_pc0 := pc, ms_value0 := v, ms_sent := ms_sent x @ published (ms_pc0 x) (ms_value0 x)\<rparr>"
  shows "main_inv l y"
proof -
  note D = main_invD [OF I]
  note ap = D(1) and C = D(5)
  have quiet: ?thesis if "quiet l (ms_app x) a" "as_producer pc v = P_idle" "as_producer (ms_pc0 x) (ms_value0 x) = P_idle" "counting y"
  proof (rule main_inv_quiet [OF I])
    have "published (ms_pc0 x) (ms_value0 x) = []" using that(3) by (simp add: as_producer_def published_def split: t0_pc.splits)
    then show "ms_sent y = ms_sent x" by (simp add: y)
  qed (use that y in simp_all)
  show ?thesis
  proof (cases "ms_pc0 x")
    case T0_Ask
    show ?thesis
    proof (cases "get_write_location (Some (g_queue (ms_app x))) = NULL")
      case True
      with s y T0_Ask C ap show ?thesis
        by (intro quiet) (auto simp: as_producer_def published_def counting_def quiet_def objects_apart_def)
    next
      case False
      with task0_slot [OF I T0_Ask refl False] s y T0_Ask show ?thesis by (auto simp: published_def)
    qed
  next
    case (T0_Store p)
    with task0_store [OF I T0_Store] s y show ?thesis by (auto simp: published_def)
  next
    case (T0_Publish p)
    with task0_publish [OF I T0_Publish] s y show ?thesis by (auto simp: published_def update_write_index_def Let_def)
  next
    case T0_Clock
    with s y C quiet_clock [OF ap, of "ly_buf0 l" now] show ?thesis
      by (intro quiet) (auto simp: as_producer_def published_def counting_def split: prod.splits)
  next
    case (T0_Puts n)
    with s y C quiet_puts [OF ap] show ?thesis
      by (intro quiet) (auto simp: as_producer_def published_def counting_def bind_eq_Some_conv)
  next
    case (T0_Write n)
    with s y C quiet_write [OF ap] show ?thesis by (intro quiet) (auto simp: as_producer_def published_def counting_def)
  qed (use s y C ap in \<open>(intro quiet; auto simp: as_producer_def published_def counting_def quiet_def objects_apart_def)+\<close>)
qed

text \<open>Task 1 gets a slot, reads it, releases it, and then finds the number it expects.\<close>

lemma task1_slot:
  assumes I: "main_inv l x" and pc: "ms_pc1 x = T1_Ask" and p: "p = get_read_location (Some (g_queue (ms_app x)))" "p \<noteq> NULL"
  shows "main_inv l (x\<lparr>ms_pc1 := T1_Load p\<rparr>)" (is "main_inv l ?y")
proof -
  note D = main_invD [OF I]
  have "lf_step (protocol x) (protocol x\<lparr>lf_cons := C_slot p []\<rparr>)"
    by (rule consumer_check) (use p pc in \<open>simp_all add: protocol_def as_consumer_def\<close>)
  moreover have "protocol x\<lparr>lf_cons := C_slot p []\<rparr> = protocol ?y" by (simp add: protocol_def as_consumer_def)
  ultimately show ?thesis by (intro main_inv_protocol [OF I]) (use D pc in \<open>auto simp: counting_def\<close>)
qed

lemma task1_load:
  assumes I: "main_inv l x" and pc: "ms_pc1 x = T1_Load p"
  shows "main_inv l (x\<lparr>ms_pc1 := T1_Release p, ms_value1 := load_u32 p (main_mem (ms_app x))\<rparr>)" (is "main_inv l ?y")
proof -
  note D = main_invD [OF I]
  have "lf_inv (protocol x\<lparr>lf_cons := C_slot p (le_bytes (load_u32 p (main_mem (ms_app x))))\<rparr>)"
    using lf_inv_load [OF D(4), of p] pc D(2) by (simp add: protocol_def as_consumer_def)
  then have "lf_inv (protocol ?y)" by (simp add: protocol_def as_consumer_def)
  with D pc show ?thesis by (auto simp: main_inv_def counting_def)
qed

lemma task1_release:
  assumes I: "main_inv l x" and pc: "ms_pc1 x = T1_Release p" and q: "update_read_index (Some (g_queue (ms_app x))) = (0, Some q)"
  shows "main_inv l (x\<lparr>ms_app := (ms_app x)\<lparr>g_queue := q\<rparr>, ms_pc1 := T1_Clock, ms_received := ms_received x @ [ms_value1 x]\<rparr>)" (is "main_inv l ?y")
proof -
  note D = main_invD [OF I]
  have g: "storage q = storage (g_queue (ms_app x))" "lf_msg_size q = 4"
    using q D(2) by (auto simp: update_read_index_def Let_def storage_def)
  have "lf_step (protocol x) (protocol x\<lparr>lf_queue := q, lf_cons := C_idle, lf_received := lf_received (protocol x) @ [le_bytes (ms_value1 x)]\<rparr>)"
    by (rule consumer_release [where p = p]) (use pc q D(2) in \<open>simp_all add: protocol_def as_consumer_def\<close>)
  moreover have e: "protocol x\<lparr>lf_queue := q, lf_cons := C_idle, lf_received := lf_received (protocol x) @ [le_bytes (ms_value1 x)]\<rparr> = protocol ?y"
    by (simp add: protocol_def as_consumer_def)
  moreover have "counting ?y" if "lf_inv (protocol ?y)"
  proof -
    have "prefix (ms_received x @ [ms_value1 x]) (numbers (length (ms_sent x)))" using received_prefix [OF that] D(5) by (simp add: counting_def)
    from received_last [OF this] D(5) pc show ?thesis by (simp add: counting_def)
  qed
  ultimately show ?thesis by (intro main_inv_protocol [OF I]) (use g D in \<open>simp_all add: objects_apart_def\<close>)
qed

lemma task1_inv:
  assumes I: "main_inv l x" and s: "main_task1 (ly_buf1 l) (ly_str1 l) now (ms_pc1 x) (ms_value1 x) (ms_expected x) (ms_app x) = Some (pc, v, e, a)"
    and y: "y = x\<lparr>ms_app := a, ms_pc1 := pc, ms_value1 := v, ms_expected := e,
      ms_received := ms_received x @ released (ms_pc1 x) (ms_value1 x)\<rparr>"
  shows "main_inv l y"
proof -
  note D = main_invD [OF I]
  note ap = D(1) and C = D(5)
  have quiet: ?thesis if "quiet l (ms_app x) a" "as_consumer pc v = C_idle" "as_consumer (ms_pc1 x) (ms_value1 x) = C_idle" "counting y"
  proof (rule main_inv_quiet [OF I])
    have "released (ms_pc1 x) (ms_value1 x) = []" using that(3) by (simp add: as_consumer_def released_def split: t1_pc.splits)
    then show "ms_received y = ms_received x" by (simp add: y)
  qed (use that y in simp_all)
  show ?thesis
  proof (cases "ms_pc1 x")
    case T1_Ask
    show ?thesis
    proof (cases "get_read_location (Some (g_queue (ms_app x))) = NULL")
      case True
      with s y T1_Ask C ap show ?thesis by (intro quiet) (auto simp: as_consumer_def released_def counting_def quiet_refl)
    next
      case False
      with task1_slot [OF I T1_Ask refl False] s y T1_Ask show ?thesis by (auto simp: released_def)
    qed
  next
    case (T1_Load p)
    with task1_load [OF I T1_Load] s y show ?thesis by (auto simp: released_def)
  next
    case (T1_Release p)
    with task1_release [OF I T1_Release] s y show ?thesis by (auto simp: released_def update_read_index_def Let_def)
  next
    case T1_Clock
    with s y C quiet_clock [OF ap, of "ly_buf1 l" now] show ?thesis
      by (intro quiet) (auto simp: as_consumer_def released_def counting_def split: prod.splits)
  next
    case (T1_Puts n)
    with s y C quiet_puts [OF ap] show ?thesis
      by (intro quiet) (auto simp: as_consumer_def released_def counting_def bind_eq_Some_conv)
  next
    case (T1_Write n)
    with s y C quiet_write [OF ap] show ?thesis by (intro quiet) (auto simp: as_consumer_def released_def counting_def)
  next
    case T1_Check
    have "ms_value1 x = ms_expected x" using C T1_Check by (simp add: counting_def)
    with s y C ap T1_Check show ?thesis by (intro quiet) (auto simp: as_consumer_def released_def counting_def quiet_refl)
  qed (use s y C ap in \<open>(intro quiet; auto simp: as_consumer_def released_def counting_def quiet_def objects_apart_def)+\<close>)
qed

lemma main_inv_step:
  assumes "main_step l x y" and I: "main_inv l x"
  shows "main_inv l y"
  using assms(1)
proof cases
  case (task0 now pc v a)
  from task0_inv [OF I task0(2,1)] show ?thesis .
next
  case (task1 now pc v e a)
  from task1_inv [OF I task1(2,1)] show ?thesis .
next
  case (host r)
  show ?thesis by (rule main_inv_quiet [OF I]) (use host quiet_host [OF main_invD(1) [OF I]] main_invD(5) [OF I] in \<open>simp_all add: counting_def\<close>)
qed

lemma main_inv_reachable: "main_reachable l x y \<Longrightarrow> main_inv l x \<Longrightarrow> main_inv l y"
  by (induction rule: main_reachable.induct) (auto intro: main_inv_step)

lemma main_inv_initial:
  assumes q: "app_main_queue st q0 = Some (g_queue a)" and s: "st \<noteq> NULL" "unat st + 32 < 2 ^ 32" and ap: "objects_apart l a"
  shows "main_inv l (main_initial a)"
proof -
  have i: "lfqueue_init (Some q0) st 4 8 = (0, Some (g_queue a))" using q s(1) by (simp add: app_main_queue_def lfqueue_init_def)
  have "lf_inv (lf_initial (g_queue a) (main_mem a))" by (rule lf_inv_initial [OF i]) (use s in simp)
  moreover have "protocol (main_initial a) = lf_initial (g_queue a) (main_mem a)"
    by (simp add: protocol_def main_initial_def lf_initial_def as_producer_def as_consumer_def)
  moreover have "lf_msg_size (g_queue a) = 4" using arg_cong [OF i, of "\<lambda>r. map_option lf_msg_size (snd r)"] s(1) by (simp add: lfqueue_init_def)
  ultimately show ?thesis
    using ap by (simp add: main_inv_def main_initial_def counting_def numbers_def objects_apart_def)
qed

text \<open>
  C16: The receiving task never counts an error: after every interleaving of the two tasks, the numbers sent are 1, 2, 3, ... (up
  to the wrap of 32 bits), the numbers received are a prefix of them, and \<open>g_error_count\<close> is zero.
\<close>

theorem app_main_no_errors:
  assumes "app_main_queue st q0 = Some (g_queue a)" and "st \<noteq> NULL" and "unat st + 32 < 2 ^ 32" and "objects_apart l a"
    and "main_reachable l (main_initial a) y"
  shows "g_error_count (ms_app y) = 0 \<and> ms_sent y = map (\<lambda>i. of_nat (Suc i)) [0..<length (ms_sent y)] \<and>
    prefix (ms_received y) (ms_sent y)"
proof -
  note D = main_invD [OF main_inv_reachable [OF assms(5) main_inv_initial [OF assms(1-4)]]]
  show ?thesis unfolding numbers_def [symmetric] using D(3,5) received_prefix [OF D(4)] by (simp add: counting_def)
qed

definition sample_layout :: main_layout where
  "sample_layout = \<lparr>ly_buf0 = 0x20001000, ly_str0 = 0x08001000, ly_buf1 = 0x20002000, ly_str1 = 0x08001010\<rparr>"

definition sample_main :: main_app where
  "sample_main = \<lparr>g_reached_main = 0, g_queue = \<lparr>lf_storage = 0x20000100, lf_msg_size = 4, lf_capacity = 8, lf_read_index = 0, lf_write_index = 0\<rparr>,
     main_rtt = rtt_sample, g_task1_sent = 0, g_task2_recv = 0, g_last_sent = 0, g_last_recv = 0, g_error_count = 0\<rparr>"

lemma sample_main_apart: "objects_apart sample_layout sample_main"
  using byte_addrs_apart [of "0x20000100" 32 "0x20001000" 10] byte_addrs_apart [of "0x20000100" 32 "0x20002000" 10]
    byte_addrs_apart [of "0x20000100" 32 "0x20000400" 256]
  by (simp add: objects_apart_def sample_layout_def sample_main_def storage_def rtt_sample_def buffer_addrs_def channel_ok_def)

text \<open>Four steps of task 0 publish the first number.\<close>

theorem app_main_no_errors_witness:
  "\<exists>y. main_reachable sample_layout (main_initial sample_main) y \<and> ms_sent y = [1] \<and> g_error_count (ms_app y) = 0 \<and>
    prefix (ms_received y) (ms_sent y)"
proof -
  let ?x0 = "main_initial sample_main"
  let ?x1 = "?x0\<lparr>ms_pc0 := T0_Ask\<rparr>"
  let ?x2 = "?x1\<lparr>ms_app := (ms_app ?x1)\<lparr>g_last_sent := 1\<rparr>, ms_pc0 := T0_Store 0x20000100\<rparr>"
  let ?x3 = "?x2\<lparr>ms_app := set_mem (store_u32 0x20000100 1 (main_mem (ms_app ?x2))) (ms_app ?x2), ms_pc0 := T0_Publish 0x20000100\<rparr>"
  let ?x4 = "?x3\<lparr>ms_app := (ms_app ?x3)\<lparr>g_queue := (g_queue (ms_app ?x3))\<lparr>lf_write_index := 1\<rparr>\<rparr>, ms_pc0 := T0_Clock, ms_sent := [1]\<rparr>"
  have step: "main_step sample_layout x y"
    if "main_task0 (ly_buf0 sample_layout) (ly_str0 sample_layout) 0 (ms_pc0 x) (ms_value0 x) (ms_app x) = Some (pc, v, a)"
      "y = x\<lparr>ms_app := a, ms_pc0 := pc, ms_value0 := v, ms_sent := ms_sent x @ published (ms_pc0 x) (ms_value0 x)\<rparr>" for x y pc v a
    using main_step.task0 [OF that(1)] that(2) by simp
  have s1: "main_step sample_layout ?x0 ?x1" by (rule step) (simp_all add: main_initial_def published_def)
  have s2: "main_step sample_layout ?x1 ?x2"
    by (rule step) (simp_all add: main_initial_def sample_main_def get_write_location_def lfqueue_next_index_def published_def)
  have s3: "main_step sample_layout ?x2 ?x3" by (rule step) (simp_all add: main_initial_def published_def)
  have s4: "main_step sample_layout ?x3 ?x4"
    by (rule step) (simp_all add: main_initial_def sample_main_def set_mem_def update_write_index_def lfqueue_next_index_def published_def)
  note r = main_next [OF main_next [OF main_next [OF main_next [OF main_start s1] s2] s3] s4]
  have "app_main_queue 0x20000100 (g_queue sample_main) = Some (g_queue sample_main)"
    by (simp add: app_main_queue_def lfqueue_init_def sample_main_def)
  from app_main_no_errors [OF this _ _ sample_main_apart r] r show ?thesis by (intro exI [of _ ?x4]) simp
qed

end
