(* ===== verification/App_Led.thy ===== *)
theory App_Led
  imports Boot Object_View
begin

text \<open>
  \<open>app/app_LED.c\<close>: two tasks that compete for a mutex and light one of two LEDs while they hold it. The tasks are
  sequences of steps, one per kernel service and per register write, interleaved with ticks and context switches.
  The output pins follow the set and reset halves of the port's \<open>BSRR\<close> register, as the chip documents.
\<close>

unbundle bit_operations_syntax

subsection \<open>Model\<close>

abbreviation (input) RCC_APB2ENR :: addr where "RCC_APB2ENR \<equiv> 0x40021018"
abbreviation (input) RCC_APB2ENR_IOPAEN :: u32 where "RCC_APB2ENR_IOPAEN \<equiv> push_bit 2 1"
abbreviation (input) GPIOA_CRH :: addr where "GPIOA_CRH \<equiv> 0x40010804"
abbreviation GPIOA_BSRR :: addr where "GPIOA_BSRR \<equiv> 0x40010810"
abbreviation GPIOA_PIN9 :: u32 where "GPIOA_PIN9 \<equiv> push_bit 9 1"
abbreviation GPIOA_PIN12 :: u32 where "GPIOA_PIN12 \<equiv> push_bit 12 1"
abbreviation (input) GPIOA_CRH_PIN9_MASK :: u32 where "GPIOA_CRH_PIN9_MASK \<equiv> push_bit 4 0xF"
abbreviation (input) GPIOA_CRH_PIN9_OUT :: u32 where "GPIOA_CRH_PIN9_OUT \<equiv> push_bit 4 0x2"
abbreviation (input) GPIOA_CRH_PIN12_MASK :: u32 where "GPIOA_CRH_PIN12_MASK \<equiv> push_bit 16 0xF"
abbreviation (input) GPIOA_CRH_PIN12_OUT :: u32 where "GPIOA_CRH_PIN12_OUT \<equiv> push_bit 16 0x2"

definition led_gpio_init :: "cpu \<Rightarrow> cpu" where
  "led_gpio_init c =
     (let c = io_or RCC_APB2ENR RCC_APB2ENR_IOPAEN c;
          c = io_write GPIOA_CRH ((io c GPIOA_CRH AND NOT GPIOA_CRH_PIN9_MASK) OR GPIOA_CRH_PIN9_OUT) c
      in io_write GPIOA_CRH ((io c GPIOA_CRH AND NOT GPIOA_CRH_PIN12_MASK) OR GPIOA_CRH_PIN12_OUT) c)"

definition led_on :: "u32 \<Rightarrow> cpu \<Rightarrow> cpu" where
  "led_on pin c = io_write GPIOA_BSRR pin c"

definition led_off :: "u32 \<Rightarrow> cpu \<Rightarrow> cpu" where
  "led_off pin c = io_write GPIOA_BSRR (push_bit 16 pin) c"

record led_app =
  led_cpu :: cpu
  g_task0_blinks :: u32
  g_task1_blinks :: u32

abbreviation led_kernel :: "led_app \<Rightarrow> kstate" where "led_kernel a \<equiv> kst (led_cpu a)"

definition led_set_kernel :: "kstate \<Rightarrow> led_app \<Rightarrow> led_app" where
  "led_set_kernel k a = a\<lparr>led_cpu := (led_cpu a)\<lparr>kst := k\<rparr>\<rparr>"

definition led_io :: "(cpu \<Rightarrow> cpu) \<Rightarrow> led_app \<Rightarrow> led_app" where
  "led_io f a = a\<lparr>led_cpu := f (led_cpu a)\<rparr>"

text \<open>Where a task is in its loop. The results of the services are ignored.\<close>

datatype led_pc = L_Lock | L_On | L_Wait | L_Off | L_Unlock | L_Count | L_Pause

fun led_task :: "addr \<Rightarrow> u32 \<Rightarrow> (led_app \<Rightarrow> led_app) \<Rightarrow> led_pc \<Rightarrow> led_app \<Rightarrow> (led_pc \<times> led_app) option" where
  "led_task m pin count L_Lock a = do {
     (_, k) \<leftarrow> os_kernel_mutex_lock m (led_kernel a);
     Some (L_On, led_set_kernel k a)
   }"
| "led_task m pin count L_On a = Some (L_Wait, led_io (led_on pin) a)"
| "led_task m pin count L_Wait a = do {
     k \<leftarrow> os_kernel_delay_ticks 200 (led_kernel a);
     Some (L_Off, led_set_kernel k a)
   }"
| "led_task m pin count L_Off a = Some (L_Unlock, led_io (led_off pin) a)"
| "led_task m pin count L_Unlock a = do {
     (_, k) \<leftarrow> os_kernel_mutex_unlock m (led_kernel a);
     Some (L_Count, led_set_kernel k a)
   }"
| "led_task m pin count L_Count a = Some (L_Pause, count a)"
| "led_task m pin count L_Pause a = do {
     k \<leftarrow> os_kernel_delay_ticks 200 (led_kernel a);
     Some (L_Lock, led_set_kernel k a)
   }"

definition app_LED_task0 :: "addr \<Rightarrow> led_pc \<Rightarrow> led_app \<Rightarrow> (led_pc \<times> led_app) option" where
  "app_LED_task0 g_led_mutex = led_task g_led_mutex GPIOA_PIN9 (\<lambda>a. a\<lparr>g_task0_blinks := g_task0_blinks a + 1\<rparr>)"

definition app_LED_task1 :: "addr \<Rightarrow> led_pc \<Rightarrow> led_app \<Rightarrow> (led_pc \<times> led_app) option" where
  "app_LED_task1 g_led_mutex = led_task g_led_mutex GPIOA_PIN12 (\<lambda>a. a\<lparr>g_task1_blinks := g_task1_blinks a + 1\<rparr>)"

definition app_LED_main :: "addr \<Rightarrow> addr \<Rightarrow> addr \<Rightarrow> addr \<Rightarrow> addr \<Rightarrow> addr \<Rightarrow> u32 list \<Rightarrow> cpu \<Rightarrow> cpu option" where
  "app_LED_main tr ex g_led_mutex entry0 entry1 args rest c =
     run_calls tr ex [Init_mutex g_led_mutex, Create_task OS_TASK_MEDIUM entry0 0 256 args rest,
       Create_task OS_TASK_MEDIUM entry1 1 256 args rest] (led_gpio_init c)"

subsection \<open>The output pins\<close>

text \<open>A write to \<open>BSRR\<close> resets the pins of its upper half and sets those of its lower half; the pins are low after reset.\<close>

definition gpio_write :: "u32 \<Rightarrow> u32 \<Rightarrow> u32" where
  "gpio_write v out = (out AND NOT (drop_bit 16 v)) OR (v AND mask 16)"

fun gpio_out :: "addr \<Rightarrow> (addr \<times> u32) list \<Rightarrow> u32 \<Rightarrow> u32" where
  "gpio_out bsrr [] out = out"
| "gpio_out bsrr ((a, v) # ws) out = gpio_out bsrr ws (if a = bsrr then gpio_write v out else out)"

definition led_lit :: "nat \<Rightarrow> cpu \<Rightarrow> bool" where
  "led_lit n c \<longleftrightarrow> bit (gpio_out GPIOA_BSRR (io_log c) 0) n"

lemma gpio_out_append: "gpio_out b (us @ ws) out = gpio_out b ws (gpio_out b us out)"
  by (induction b us out rule: gpio_out.induct) simp_all

lemma gpio_out_silent: "b \<notin> fst ` set ws \<Longrightarrow> gpio_out b ws out = out"
  by (induction b ws out rule: gpio_out.induct) auto

lemma bit_gpio_write: "i < 16 \<Longrightarrow> bit (gpio_write v out) i \<longleftrightarrow> bit v i \<or> bit out i \<and> \<not> bit v (16 + i)"
  by (auto simp: gpio_write_def bit_simps)

lemma led_lit_on:
  assumes "n < 16" and "i < 16"
  shows "led_lit i (led_on (push_bit n 1) c) \<longleftrightarrow> i = n \<or> led_lit i c"
  using assms by (auto simp: led_lit_def led_on_def io_write_def gpio_out_append bit_gpio_write bit_simps)

lemma led_lit_off:
  assumes "n < 16" and "i < 16"
  shows "led_lit i (led_off (push_bit n 1) c) \<longleftrightarrow> i \<noteq> n \<and> led_lit i c"
  using assms by (auto simp: led_lit_def led_off_def io_write_def gpio_out_append bit_gpio_write bit_simps)

subsection \<open>The two tasks at work\<close>

record led_sys =
  led_state :: led_app
  led_pcs :: "addr \<Rightarrow> led_pc"

abbreviation led_k :: "led_sys \<Rightarrow> kstate" where "led_k x \<equiv> led_kernel (led_state x)"

definition led_task_of :: "addr \<Rightarrow> addr \<Rightarrow> addr \<Rightarrow> led_pc \<Rightarrow> led_app \<Rightarrow> (led_pc \<times> led_app) option" where
  "led_task_of m t0 t = (if t = t0 then app_LED_task0 m else app_LED_task1 m)"

inductive led_step :: "addr \<Rightarrow> addr \<Rightarrow> addr \<Rightarrow> addr \<Rightarrow> led_sys \<Rightarrow> led_sys \<Rightarrow> bool" for idle m t0 t1 where
  run: "may_call idle (led_k x) \<Longrightarrow> g_current (led_k x) = t \<Longrightarrow> t \<in> {t0, t1} \<Longrightarrow>
    led_task_of m t0 t (led_pcs x t) (led_state x) = Some (pc, a) \<Longrightarrow>
    led_step idle m t0 t1 x (x\<lparr>led_state := a, led_pcs := (led_pcs x)(t := pc)\<rparr>)"
| tick: "SysTick_Handler (led_k x) = Some k \<Longrightarrow> led_step idle m t0 t1 x (x\<lparr>led_state := led_set_kernel k (led_state x)\<rparr>)"
| switch: "pendsv (led_k x) \<Longrightarrow> os_commit_switch ((led_k x)\<lparr>pendsv := False\<rparr>) = Some k \<Longrightarrow>
    led_step idle m t0 t1 x (x\<lparr>led_state := led_set_kernel k (led_state x)\<rparr>)"

inductive led_reachable :: "addr \<Rightarrow> addr \<Rightarrow> addr \<Rightarrow> addr \<Rightarrow> led_sys \<Rightarrow> led_sys \<Rightarrow> bool" for idle m t0 t1 x0 where
  led_start: "led_reachable idle m t0 t1 x0 x0"
| led_next: "led_reachable idle m t0 t1 x0 x \<Longrightarrow> led_step idle m t0 t1 x y \<Longrightarrow> led_reachable idle m t0 t1 x0 y"

definition led_initial :: "cpu \<Rightarrow> led_sys" where
  "led_initial c = \<lparr>led_state = \<lparr>led_cpu = led_gpio_init c, g_task0_blinks = 0, g_task1_blinks = 0\<rparr>, led_pcs = (\<lambda>_. L_Lock)\<rparr>"

text \<open>The tasks that have asked for the mutex and not unlocked it.\<close>

definition locked :: "addr set \<Rightarrow> (addr \<Rightarrow> led_pc) \<Rightarrow> addr set" where
  "locked T p = {t \<in> T. p t \<in> {L_On, L_Wait, L_Off, L_Unlock}}"

definition led_pin :: "addr \<Rightarrow> addr \<Rightarrow> nat" where
  "led_pin t0 t = (if t = t0 then 9 else 12)"

text \<open>The part of the invariant about the mutex.\<close>

definition led_mutex_inv :: "addr \<Rightarrow> addr \<Rightarrow> addr set \<Rightarrow> kstate \<Rightarrow> (addr \<Rightarrow> led_pc) \<Rightarrow> bool" where
  "led_mutex_inv idle m T k p \<longleftrightarrow> (\<exists>v. sees idle k v \<and> exclusive v m (locked T p) \<and> (\<forall>t\<in>v_waiting v (MutexQ m). p t = L_On))"

text \<open>An LED is lit exactly while its task is between switching it on and switching it off.\<close>

definition led_inv :: "addr \<Rightarrow> addr \<Rightarrow> addr \<Rightarrow> addr \<Rightarrow> led_sys \<Rightarrow> bool" where
  "led_inv idle m t0 t1 x \<longleftrightarrow> led_mutex_inv idle m {t0, t1} (led_k x) (led_pcs x) \<and>
     (\<forall>t\<in>{t0, t1}. led_lit (led_pin t0 t) (led_cpu (led_state x)) \<longleftrightarrow> led_pcs x t \<in> {L_Wait, L_Off})"

lemma locked_upd:
  assumes "t \<in> T"
  shows "locked T (p(t := pc)) = (if pc \<in> {L_On, L_Wait, L_Off, L_Unlock} then insert t (locked T p) else locked T p - {t})"
  using assms by (auto simp: locked_def)

lemma led_task_run:
  assumes "led_task_of m t0 t pc a = Some (pc', a')"
  obtains (lock) r k where "pc = L_Lock" "pc' = L_On" "os_kernel_mutex_lock m (led_kernel a) = Some (r, k)" "a' = led_set_kernel k a"
  | (on) "pc = L_On" "pc' = L_Wait" "a' = led_io (led_on (push_bit (led_pin t0 t) 1)) a"
  | (wait) k where "pc = L_Wait" "pc' = L_Off" "os_kernel_delay_ticks 200 (led_kernel a) = Some k" "a' = led_set_kernel k a"
  | (off) "pc = L_Off" "pc' = L_Unlock" "a' = led_io (led_off (push_bit (led_pin t0 t) 1)) a"
  | (unlock) r k where "pc = L_Unlock" "pc' = L_Count" "os_kernel_mutex_unlock m (led_kernel a) = Some (r, k)" "a' = led_set_kernel k a"
  | (count) "pc = L_Count" "pc' = L_Pause" "led_cpu a' = led_cpu a"
  | (pause) k where "pc = L_Pause" "pc' = L_Lock" "os_kernel_delay_ticks 200 (led_kernel a) = Some k" "a' = led_set_kernel k a"
  using assms
  by (cases pc; cases "t = t0")
    (auto simp: led_task_of_def app_LED_task0_def app_LED_task1_def led_pin_def bind_eq_Some_conv)

lemma led_mutex_invI:
  "sees idle k v \<Longrightarrow> exclusive v m (locked T p) \<Longrightarrow> \<forall>t\<in>v_waiting v (MutexQ m). p t = L_On \<Longrightarrow> led_mutex_inv idle m T k p"
  unfolding led_mutex_inv_def by blast

lemma led_mutex_run:
  assumes I: "led_mutex_inv idle m T (led_kernel a) p" and k: "may_call idle (led_kernel a)" and m: "m \<noteq> NULL"
    and t: "g_current (led_kernel a) = t" "t \<in> T" and s: "led_task_of m t0 t (p t) a = Some (pc, a')"
  shows "led_mutex_inv idle m T (led_kernel a') (p(t := pc))"
proof -
  from I obtain v where v: "sees idle (led_kernel a) v" "exclusive v m (locked T p)" "\<forall>t\<in>v_waiting v (MutexQ m). p t = L_On"
    by (auto simp: led_mutex_inv_def)
  have nw: "t \<notin> v_waiting v (MutexQ m)" using kernel_objects.not_waiting [OF v(1) k] t(1) by blast
  have w: "\<forall>u\<in>W. (p(t := pc)) u = L_On" if "W \<subseteq> v_waiting v (MutexQ m)" for W using that nw v(3) by auto
  have same: ?thesis if "sees idle (led_kernel a') v" "locked T (p(t := pc)) = locked T p"
    unfolding led_mutex_inv_def that(2) using that(1) v(2) w [OF subset_refl] by blast
  have L: "t \<in> locked T p \<longleftrightarrow> p t \<in> {L_On, L_Wait, L_Off, L_Unlock}" using t(2) by (simp add: locked_def)
  from s show ?thesis
  proof (cases rule: led_task_run)
    case (lock r k')
    from kernel_objects.lock_exclusive [OF v(1) k m lock(3) v(2)] L t(1) lock(1) obtain v' where
      v': "sees idle k' v'" "exclusive v' m (insert t (locked T p))" "v_waiting v' (MutexQ m) \<subseteq> insert t (v_waiting v (MutexQ m))" by auto
    then have "\<forall>u\<in>v_waiting v' (MutexQ m). (p(t := pc)) u = L_On" using v(3) lock(2) by auto
    with v'(1,2) lock t(2) show ?thesis by (intro led_mutex_invI [of idle _ v']) (simp_all add: led_set_kernel_def locked_upd)
  next
    case (unlock r k')
    from kernel_objects.unlock_exclusive [OF v(1) k m unlock(3) v(2)] L t(1) unlock(1) obtain v' where
      v': "sees idle k' v'" "exclusive v' m (locked T p - {t})" "v_waiting v' (MutexQ m) \<subseteq> v_waiting v (MutexQ m)" by auto
    with unlock t(2) w [OF v'(3)] show ?thesis by (intro led_mutex_invI [of idle _ v']) (simp_all add: led_set_kernel_def locked_upd)
  next
    case (wait k')
    show ?thesis by (rule same) (use wait sees_delay [OF v(1) k wait(3)] L t(2) in \<open>auto simp: led_set_kernel_def locked_upd\<close>)
  next
    case (pause k')
    show ?thesis by (rule same) (use pause sees_delay [OF v(1) k pause(3)] L t(2) in \<open>auto simp: led_set_kernel_def locked_upd\<close>)
  next
    case on
    show ?thesis by (rule same) (use on v(1) L t(2) in \<open>auto simp: led_io_def led_on_def io_write_def locked_upd\<close>)
  next
    case off
    show ?thesis by (rule same) (use off v(1) L t(2) in \<open>auto simp: led_io_def led_off_def io_write_def locked_upd\<close>)
  next
    case count
    show ?thesis by (rule same) (use count v(1) L t(2) in \<open>auto simp: locked_upd\<close>)
  qed
qed

lemma led_lit_run:
  assumes s: "led_task_of m t0 t pc a = Some (pc', a')" and L: "\<forall>u\<in>{t0, t1}. led_lit (led_pin t0 u) (led_cpu a) \<longleftrightarrow> p u \<in> {L_Wait, L_Off}"
    and t: "t \<in> {t0, t1}" "p t = pc" "t0 \<noteq> t1"
  shows "\<forall>u\<in>{t0, t1}. led_lit (led_pin t0 u) (led_cpu a') \<longleftrightarrow> (p(t := pc')) u \<in> {L_Wait, L_Off}"
proof
  fix u
  assume u: "u \<in> {t0, t1}"
  have n: "led_pin t0 u < 16" for u by (simp add: led_pin_def)
  have e: "led_pin t0 u = led_pin t0 t \<longleftrightarrow> u = t" using u t by (auto simp: led_pin_def)
  have k: "led_lit i (led_cpu (led_set_kernel k a)) = led_lit i (led_cpu a)" for i k by (simp add: led_lit_def led_set_kernel_def)
  note L = L [rule_format, OF u]
  from s show "led_lit (led_pin t0 u) (led_cpu a') \<longleftrightarrow> (p(t := pc')) u \<in> {L_Wait, L_Off}"
    by (cases rule: led_task_run) (use L t(2) e n k led_lit_on [OF n n] led_lit_off [OF n n] in \<open>auto simp: led_io_def\<close>)
qed

lemma led_inv_step:
  assumes "led_step idle m t0 t1 x y" and I: "led_inv idle m t0 t1 x" and m: "m \<noteq> NULL" and t: "t0 \<noteq> t1"
  shows "led_inv idle m t0 t1 y"
  using assms(1)
proof cases
  case (run t pc a)
  from I have "led_mutex_inv idle m {t0, t1} (led_k x) (led_pcs x)"
    "\<forall>t\<in>{t0, t1}. led_lit (led_pin t0 t) (led_cpu (led_state x)) \<longleftrightarrow> led_pcs x t \<in> {L_Wait, L_Off}" by (simp_all add: led_inv_def)
  from led_mutex_run [OF this(1) run(2) m run(3,4,5)] led_lit_run [OF run(5) this(2) run(4) refl t] run(1) show ?thesis
    by (simp add: led_inv_def)
next
  case (tick k)
  have "sees idle k v" if "sees idle (led_k x) v" for v using sees_tick [OF that] tick(2) by simp
  with I tick(1) show ?thesis by (auto simp: led_inv_def led_mutex_inv_def led_set_kernel_def led_lit_def)
next
  case (switch k)
  have "sees idle k v" if "sees idle (led_k x) v" for v using sees_switch [OF that] switch(3) by simp
  with I switch(1) show ?thesis by (auto simp: led_inv_def led_mutex_inv_def led_set_kernel_def led_lit_def)
qed

lemma led_inv_reachable:
  "led_reachable idle m t0 t1 x y \<Longrightarrow> led_inv idle m t0 t1 x \<Longrightarrow> m \<noteq> NULL \<Longrightarrow> t0 \<noteq> t1 \<Longrightarrow> led_inv idle m t0 t1 y"
  by (induction rule: led_reachable.induct) (auto intro: led_inv_step)

lemma led_inv_initial:
  assumes "kernel_up idle (kst c)" and x: "mutex_at (kst c) m = Some x" "mtx_owner x = NULL" "mtx_waiters x = emptyq"
    and s: "GPIOA_BSRR \<notin> fst ` set (io_log c)"
  shows "led_inv idle m t0 t1 (led_initial c)"
proof -
  have k: "kst (led_gpio_init c) = kst c" by (simp add: led_gpio_init_def Let_def io_or_def io_write_def)
  from assms(1) obtain v where v: "sees idle (kst c) v" by (auto simp: kernel_up_def)
  from sees_mutex_init [OF v x(1,3)] have "v_waiting v (MutexQ m) = {}" by blast
  moreover have "v_owner v m = NULL" using sees_owner [OF v x(1)] x(2) by simp
  ultimately have "led_mutex_inv idle m {t0, t1} (kst c) (\<lambda>_. L_Lock)"
    using v by (auto simp: led_mutex_inv_def exclusive_def locked_def)
  moreover have "\<not> led_lit i (led_gpio_init c)" for i
  proof -
    have "GPIOA_BSRR \<notin> fst ` set (io_log (led_gpio_init c))" using s by (auto simp: led_gpio_init_def Let_def io_or_def io_write_def)
    from gpio_out_silent [OF this] show ?thesis by (simp add: led_lit_def)
  qed
  ultimately show ?thesis by (simp add: led_inv_def led_initial_def k)
qed

text \<open>
  C17: Only one LED is ever lit at a time: once the mutex is initialised, whatever the interleaving of the two tasks with ticks
  and context switches, pins 9 and 12 are never high together.
\<close>

theorem led_exclusive:
  assumes "kernel_up idle (kst c)" and "mutex_at (kst c) m = Some x" and "mtx_owner x = NULL" and "mtx_waiters x = emptyq"
    and "GPIOA_BSRR \<notin> fst ` set (io_log c)" and "t0 \<noteq> t1" and "led_reachable idle m t0 t1 (led_initial c) y"
  shows "\<not> (led_lit 9 (led_cpu (led_state y)) \<and> led_lit 12 (led_cpu (led_state y)))"
proof
  assume l: "led_lit 9 (led_cpu (led_state y)) \<and> led_lit 12 (led_cpu (led_state y))"
  have "m \<noteq> NULL" using assms(2) by auto
  from led_inv_reachable [OF assms(7) led_inv_initial [OF assms(1-5)] this assms(6)]
  have M: "led_mutex_inv idle m {t0, t1} (led_k y) (led_pcs y)"
    and L: "led_lit (led_pin t0 t) (led_cpu (led_state y)) \<longleftrightarrow> led_pcs y t \<in> {L_Wait, L_Off}" if "t \<in> {t0, t1}" for t
    using that by (auto simp: led_inv_def)
  have p: "led_pcs y t0 \<in> {L_Wait, L_Off}" "led_pcs y t1 \<in> {L_Wait, L_Off}" using l L [of t0] L [of t1] assms(6) by (simp_all add: led_pin_def)
  from M obtain v where v: "exclusive v m (locked {t0, t1} (led_pcs y))" "\<forall>t\<in>v_waiting v (MutexQ m). led_pcs y t = L_On"
    by (auto simp: led_mutex_inv_def)
  have "{t0, t1} \<subseteq> locked {t0, t1} (led_pcs y) - v_waiting v (MutexQ m)" using p v(2) by (auto simp: locked_def)
  with v(1) assms(6) show False by (auto simp: exclusive_def split: if_splits)
qed

theorem led_exclusive_witness:
  "\<exists>y. led_reachable 0x100 0x1100 0x200 0x300 (led_initial (reset_cpu sample)) y \<and>
    led_lit 9 (led_cpu (led_state y)) \<and> \<not> led_lit 12 (led_cpu (led_state y))"
proof -
  let ?x = "led_initial (reset_cpu sample)"
  have "map_option (\<lambda>(pc, a). (pc, may_call 0x100 (led_kernel a), g_current (led_kernel a)))
      (led_task_of 0x1100 0x200 0x200 L_Lock (led_state ?x)) = Some (L_On, True, 0x200)" by code_simp
  then obtain a where a: "led_task_of 0x1100 0x200 0x200 L_Lock (led_state ?x) = Some (L_On, a)" "may_call 0x100 (led_kernel a)"
    "g_current (led_kernel a) = 0x200" by auto
  let ?y = "?x\<lparr>led_state := a, led_pcs := (led_pcs ?x)(0x200 := L_On)\<rparr>"
  let ?z = "?y\<lparr>led_state := led_io (led_on GPIOA_PIN9) a, led_pcs := (led_pcs ?y)(0x200 := L_Wait)\<rparr>"
  have k: "led_k ?x = sample" by (simp add: led_initial_def led_gpio_init_def io_or_def io_write_def reset_cpu_def)
  have "led_step 0x100 0x1100 0x200 0x300 ?x ?y"
    by (rule led_step.run) (use a k in \<open>simp_all add: may_call_def led_initial_def\<close>)
  moreover have "led_step 0x100 0x1100 0x200 0x300 ?y ?z"
    by (rule led_step.run) (use a in \<open>simp_all add: led_task_of_def app_LED_task0_def\<close>)
  ultimately have r: "led_reachable 0x100 0x1100 0x200 0x300 ?x ?z" by (blast intro: led_start led_next)
  have "led_lit 9 (led_cpu (led_state ?z))" using led_lit_on [of 9 9 "led_cpu a"] by (simp add: led_io_def)
  moreover have "mutex_at (kst (reset_cpu sample)) 0x1100 = Some \<lparr>mtx_owner = NULL, mtx_next_mutex = NULL, mtx_waiters = emptyq\<rparr>"
    by (simp add: reset_cpu_def sample_mutex)
  then have "\<not> (led_lit 9 (led_cpu (led_state ?z)) \<and> led_lit 12 (led_cpu (led_state ?z)))"
    by (rule led_exclusive [OF _ _ _ _ _ _ r, rotated]) (use sample_up in \<open>simp_all add: reset_cpu_def\<close>)
  ultimately show ?thesis using r by blast
qed

end
