(* ===== verification/App_Blink.thy ===== *)
theory App_Blink
  imports App_Led Rtt Boot_Properties
begin

text \<open>
  Three more programs. \<open>app/app_LED_onboard.c\<close> blinks the LED of the board, which is on while its pin is low.
  \<open>benchmark/bench_yield_app.c\<close> measures how long a yield takes: a pinger notes the time and sets a flag, a worker sees the
  flag after it has been switched to and computes the difference. \<open>app/app_test_rtt.c\<close> writes to the debug channel in a loop that
  starts before the scheduler does, so that the scheduler never starts.
\<close>

unbundle bit_operations_syntax

subsection \<open>The LED of the board\<close>

abbreviation (input) RCC_APB2ENR_IOPCEN :: u32 where "RCC_APB2ENR_IOPCEN \<equiv> push_bit 4 1"
abbreviation (input) GPIOC_CRH :: addr where "GPIOC_CRH \<equiv> 0x40011004"
abbreviation GPIOC_BSRR :: addr where "GPIOC_BSRR \<equiv> 0x40011010"
abbreviation GPIOC_PIN13 :: u32 where "GPIOC_PIN13 \<equiv> push_bit 13 1"
abbreviation (input) GPIOC_CRH_PIN13_MASK :: u32 where "GPIOC_CRH_PIN13_MASK \<equiv> push_bit 20 0xF"
abbreviation (input) GPIOC_CRH_PIN13_OUT :: u32 where "GPIOC_CRH_PIN13_OUT \<equiv> push_bit 20 0x2"

definition onboard_gpio_init :: "cpu \<Rightarrow> cpu" where
  "onboard_gpio_init c =
     (let c = io_or RCC_APB2ENR RCC_APB2ENR_IOPCEN c
      in io_write GPIOC_CRH ((io c GPIOC_CRH AND NOT GPIOC_CRH_PIN13_MASK) OR GPIOC_CRH_PIN13_OUT) c)"

definition onboard_led_on :: "cpu \<Rightarrow> cpu" where
  "onboard_led_on c = io_write GPIOC_BSRR (push_bit 16 GPIOC_PIN13) c"

definition onboard_led_off :: "cpu \<Rightarrow> cpu" where
  "onboard_led_off c = io_write GPIOC_BSRR GPIOC_PIN13 c"

datatype blink_pc = B_On | B_Wait | B_Off | B_Pause | B_Count

fun onboard_task0 :: "blink_pc \<Rightarrow> cpu \<times> u32 \<Rightarrow> (blink_pc \<times> cpu \<times> u32) option" where
  "onboard_task0 B_On (c, g_blink_count) = Some (B_Wait, onboard_led_on c, g_blink_count)"
| "onboard_task0 B_Wait (c, g_blink_count) = do {
     k \<leftarrow> os_kernel_delay_ticks (os_ticks_from_ms 500) (kst c);
     Some (B_Off, c\<lparr>kst := k\<rparr>, g_blink_count)
   }"
| "onboard_task0 B_Off (c, g_blink_count) = Some (B_Pause, onboard_led_off c, g_blink_count)"
| "onboard_task0 B_Pause (c, g_blink_count) = do {
     k \<leftarrow> os_kernel_delay_ticks (os_ticks_from_ms 500) (kst c);
     Some (B_Count, c\<lparr>kst := k\<rparr>, g_blink_count)
   }"
| "onboard_task0 B_Count (c, g_blink_count) = Some (B_On, c, g_blink_count + 1)"

definition onboard_main :: "addr \<Rightarrow> addr \<Rightarrow> addr \<Rightarrow> addr \<Rightarrow> u32 list \<Rightarrow> cpu \<Rightarrow> cpu option" where
  "onboard_main tr ex entry args rest c =
     run_calls tr ex [Create_task OS_TASK_MEDIUM entry NULL 256 args rest] (onboard_gpio_init c)"

text \<open>The LED is on while pin 13 is low.\<close>

definition onboard_lit :: "cpu \<Rightarrow> bool" where
  "onboard_lit c \<longleftrightarrow> \<not> bit (gpio_out GPIOC_BSRR (io_log c) 0) 13"

lemma onboard_lit_on [simp]: "onboard_lit (onboard_led_on c)"
  by (simp add: onboard_lit_def onboard_led_on_def io_write_def gpio_out_append bit_gpio_write bit_simps)

lemma onboard_lit_off [simp]: "\<not> onboard_lit (onboard_led_off c)"
  by (simp add: onboard_lit_def onboard_led_off_def io_write_def gpio_out_append bit_gpio_write bit_simps)

lemma onboard_lit_kernel [simp]: "onboard_lit (c\<lparr>kst := k\<rparr>) = onboard_lit c"
  by (simp add: onboard_lit_def)

text \<open>Once the LED has been switched for the first time, it is lit exactly in the first half of each round.\<close>

fun blink_ok :: "blink_pc \<Rightarrow> cpu \<times> u32 \<Rightarrow> bool" where
  "blink_ok pc (c, n) = (case pc of B_On \<Rightarrow> n \<noteq> 0 \<longrightarrow> \<not> onboard_lit c | B_Wait \<Rightarrow> onboard_lit c | B_Off \<Rightarrow> onboard_lit c
     | B_Pause \<Rightarrow> \<not> onboard_lit c | B_Count \<Rightarrow> \<not> onboard_lit c)"

lemma onboard_task0_blinks:
  assumes "blink_ok pc s" and "onboard_task0 pc s = Some (pc', s')"
  shows "blink_ok pc' s'"
  using assms by (cases s; cases pc) (auto simp: bind_eq_Some_conv)

subsection \<open>The yield benchmark\<close>

record bench_app =
  g_yield_start_cycle :: u32
  g_yield_end_cycle :: u32
  g_yield_latency_cycles :: u32
  g_worker_ready :: u32
  g_ping :: u32

datatype worker_pc = W_Ready | W_Poll | W_Yield | W_End | W_Latency | W_Clear

datatype pinger_pc = N_Create | N_Poll | N_Yield | N_Start | N_Ping | N_Rest

text \<open>\<open>now\<close> is what the cycle counter shows. Creating the worker and yielding change no variable of the program.\<close>

fun worker_task :: "u32 \<Rightarrow> worker_pc \<Rightarrow> bench_app \<Rightarrow> worker_pc \<times> bench_app" where
  "worker_task now W_Ready a = (W_Poll, a\<lparr>g_worker_ready := 1\<rparr>)"
| "worker_task now W_Poll a = (if g_ping a = 0 then W_Yield else W_End, a)"
| "worker_task now W_Yield a = (W_Poll, a)"
| "worker_task now W_End a = (W_Latency, a\<lparr>g_yield_end_cycle := now\<rparr>)"
| "worker_task now W_Latency a = (W_Clear, a\<lparr>g_yield_latency_cycles := g_yield_end_cycle a - g_yield_start_cycle a\<rparr>)"
| "worker_task now W_Clear a = (W_Poll, a\<lparr>g_ping := 0\<rparr>)"

fun pinger_task :: "u32 \<Rightarrow> pinger_pc \<Rightarrow> bench_app \<Rightarrow> pinger_pc \<times> bench_app" where
  "pinger_task now N_Create a = (N_Poll, a)"
| "pinger_task now N_Poll a = (if g_worker_ready a = 0 then N_Yield else N_Start, a)"
| "pinger_task now N_Yield a = (N_Poll, a)"
| "pinger_task now N_Start a = (N_Ping, a\<lparr>g_yield_start_cycle := now\<rparr>)"
| "pinger_task now N_Ping a = (N_Rest, a\<lparr>g_ping := 1\<rparr>)"
| "pinger_task now N_Rest a = (N_Rest, a)"

definition bench_reset :: "bench_app \<Rightarrow> bench_app" where
  "bench_reset a = a\<lparr>g_worker_ready := 0, g_ping := 0\<rparr>"

definition bench_main :: "addr \<Rightarrow> addr \<Rightarrow> addr \<Rightarrow> addr \<Rightarrow> u32 list \<Rightarrow> cpu \<times> bench_app \<Rightarrow> (cpu \<times> bench_app) option" where
  "bench_main tr ex pinger args rest s = do {
     let (c, a) = s;
     let c = os_bench_clock_init c;
     let a = bench_reset a;
     c \<leftarrow> run_calls tr ex [Create_task OS_TASK_MEDIUM pinger 0 256 args rest] c;
     Some (c, a)
   }"

text \<open>The two tasks in any order; the worker exists once the pinger has created it.\<close>

record bench_sys =
  be_app :: bench_app
  be_worker :: "worker_pc option"
  be_pinger :: pinger_pc

inductive bench_step :: "bench_sys \<Rightarrow> bench_sys \<Rightarrow> bool" where
  pinger: "pinger_task now (be_pinger x) (be_app x) = (pc, a) \<Longrightarrow>
    bench_step x (x\<lparr>be_app := a, be_pinger := pc, be_worker := (if be_pinger x = N_Create then Some W_Ready else be_worker x)\<rparr>)"
| worker: "be_worker x = Some pc \<Longrightarrow> worker_task now pc (be_app x) = (pc', a) \<Longrightarrow>
    bench_step x (x\<lparr>be_app := a, be_worker := Some pc'\<rparr>)"

inductive bench_reachable :: "bench_sys \<Rightarrow> bench_sys \<Rightarrow> bool" for x0 where
  bench_start: "bench_reachable x0 x0"
| bench_next: "bench_reachable x0 x \<Longrightarrow> bench_step x y \<Longrightarrow> bench_reachable x0 y"

definition bench_initial :: "bench_app \<Rightarrow> bench_sys" where
  "bench_initial a = \<lparr>be_app = bench_reset a, be_worker = None, be_pinger = N_Create\<rparr>"

text \<open>The worker measures only after the pinger has set the flag, and the start it uses is the one the pinger noted.\<close>

definition bench_inv :: "bench_sys \<Rightarrow> bool" where
  "bench_inv x \<longleftrightarrow> (be_pinger x \<noteq> N_Rest \<longrightarrow> g_ping (be_app x) = 0 \<and> be_worker x \<in> {None, Some W_Ready, Some W_Poll, Some W_Yield}) \<and>
     (be_worker x = Some W_Clear \<longrightarrow>
       g_yield_latency_cycles (be_app x) = g_yield_end_cycle (be_app x) - g_yield_start_cycle (be_app x))"

lemma bench_inv_step: "bench_step x y \<Longrightarrow> bench_inv x \<Longrightarrow> bench_inv y"
proof (induction rule: bench_step.induct)
  case (pinger now x pc a)
  then show ?case by (cases "be_pinger x") (auto simp: bench_inv_def split: if_splits)
next
  case (worker x pc now pc' a)
  then show ?case by (cases pc) (auto simp: bench_inv_def split: if_splits)
qed

lemma bench_latency:
  assumes "bench_reachable (bench_initial a) y" and "be_worker y = Some W_Clear"
  shows "be_pinger y = N_Rest \<and> g_yield_latency_cycles (be_app y) = g_yield_end_cycle (be_app y) - g_yield_start_cycle (be_app y)"
proof -
  have "bench_inv (bench_initial a)" by (simp add: bench_inv_def bench_initial_def bench_reset_def)
  with assms(1) have "bench_inv y" by (induction rule: bench_reachable.induct) (auto intro: bench_inv_step)
  with assms(2) show ?thesis by (auto simp: bench_inv_def)
qed

subsection \<open>The test of the debug channel\<close>

text \<open>One round of the loop; \<open>str\<close> is where the text is. Nobody else uses the kernel, so that the debug channel's view of it is
  the processor's.\<close>

definition test_rtt_round :: "addr \<Rightarrow> addr \<Rightarrow> addr \<Rightarrow> u32 list \<Rightarrow> cpu \<times> rtt_state \<Rightarrow> (cpu \<times> rtt_state) option" where
  "test_rtt_round tr ex str rest = (\<lambda>(c, r). do {
     c \<leftarrow> os_delay_ticks tr ex (os_ticks_from_ms 2000) rest c;
     let c = exception_return c;
     let r = os_rtt_write str 12 (r\<lparr>rtt_kernel := kst c\<rparr>);
     Some (c\<lparr>kst := rtt_kernel r\<rparr>, r)
   })"

partial_function (option) test_rtt_loop :: "addr \<Rightarrow> addr \<Rightarrow> addr \<Rightarrow> u32 list \<Rightarrow> cpu \<times> rtt_state \<Rightarrow> (cpu \<times> rtt_state) option" where
  "test_rtt_loop tr ex str rest s = do { s \<leftarrow> test_rtt_round tr ex str rest s; test_rtt_loop tr ex str rest s }"

definition test_rtt_main :: "addr \<Rightarrow> addr \<Rightarrow> addr \<Rightarrow> u32 list \<Rightarrow> cpu \<times> rtt_state \<Rightarrow> (u32 \<times> cpu \<times> rtt_state) option" where
  "test_rtt_main tr ex str rest s = do {
     let g_reached_main = 0xA5A5A5A5;
     s \<leftarrow> test_rtt_loop tr ex str rest s;
     Some (g_reached_main, s)
   }"

text \<open>The loop never ends, so that start-up never gets to \<open>os_start\<close>.\<close>

lemma test_rtt_loop_None: "test_rtt_loop tr ex str rest s = None"
proof -
  have "False" if "test_rtt_loop tr ex str rest s = Some z" for z
    by (rule test_rtt_loop.raw_induct [OF _ that]) (auto split: bind_splits)
  then show ?thesis by (cases "test_rtt_loop tr ex str rest s") auto
qed

lemma test_rtt_never_starts:
  "Reset_Handler im (\<lambda>c. map_option (\<lambda>(g, c, r). c) (test_rtt_main tr ex str rest' (c, r))) clock hz args rest c = None"
  by (auto simp: Reset_Handler_def os_boot_main_def test_rtt_main_def test_rtt_loop_None split: bind_splits)

text \<open>Before the scheduler starts a delay returns at once and leaves the tasks alone.\<close>

lemma early_delay:
  assumes "control c = 0" and "msp c \<noteq> 32" and "length rest = 6" and "g_current (kst c) = NULL" and "n \<noteq> 0"
  shows "\<exists>c'. os_delay_ticks tr ex n rest c = Some c' \<and> sched_same (kst c) (kst (exception_return c'))"
proof -
  let ?s = "store_words (msp c - 32) (syscall_number OS_SYSCALL_DELAY_TICKS # n # rest) (kst c)"
  have S: "sched_same (kst c) ?s" by (rule sched_same_store_words)
  then have "g_current (?s\<lparr>primask := 1\<rparr>) = NULL" using assms(4) by (simp add: sched_same_def)
  then have d: "os_kernel_delay_ticks n ?s = Some ?s"
    using assms(5) by (simp add: os_kernel_delay_ticks_def os_port_irq_save_def os_port_irq_restore_def os_task_block_locked_def
        del: store_words.simps)
  have "os_delay_ticks tr ex n rest c =
      Some (c\<lparr>msp := msp c - 32, kst := store_word (msp c - 32) (of_int 0) ?s\<rparr>)"
    unfolding os_delay_ticks_def os_port_svc_call1_def using assms(1-3) d
    by (subst svc_main_eq) (simp_all add: syscall_switch_service del: store_words.simps syscall_number.simps)
  moreover have "sched_same (kst c) (store_word (msp c - 32) (of_int 0) ?s)"
    by (rule sched_same_trans [OF S sched_same_fields(5)])
  ultimately show ?thesis by (auto simp: exception_return_def)
qed

end
