(* ===== verification/App_Pi.thy ===== *)
theory App_Pi
  imports Boot_View Kernel_Safety
begin

text \<open>
  \<open>app/pi_test.c\<close>: the priority inversion scenario. A low task locks a mutex and creates a high task, which blocks on the
  mutex, and a medium task that would never give up the processor. The tasks are sequences of steps, one per
  kernel service and per assignment, interleaved with ticks and context switches.
\<close>

subsection \<open>Model\<close>

abbreviation PI_BUSY_ITERS :: u32 where "PI_BUSY_ITERS \<equiv> 50000"

record pi_app =
  pi_kernel :: kstate
  g_pi_low_locked :: u32
  g_pi_low_done :: u32
  g_pi_medium_spins :: u32
  g_pi_high_acquired :: u32

datatype high_pc = PH_Lock | PH_Acquired | PH_Unlock | PH_End

fun pi_high_task :: "addr \<Rightarrow> high_pc \<Rightarrow> pi_app \<Rightarrow> (high_pc \<times> pi_app) option" where
  "pi_high_task m PH_Lock a = do {
     (_, k) \<leftarrow> os_kernel_mutex_lock m (pi_kernel a);
     Some (PH_Acquired, a\<lparr>pi_kernel := k\<rparr>)
   }"
| "pi_high_task m PH_Acquired a = Some (PH_Unlock, a\<lparr>g_pi_high_acquired := 1\<rparr>)"
| "pi_high_task m PH_Unlock a = do {
     (_, k) \<leftarrow> os_kernel_mutex_unlock m (pi_kernel a);
     Some (PH_End, a\<lparr>pi_kernel := k\<rparr>)
   }"
| "pi_high_task m PH_End a = Some (PH_End, a)"

definition pi_medium_task :: "pi_app \<Rightarrow> pi_app" where
  "pi_medium_task a = a\<lparr>g_pi_medium_spins := g_pi_medium_spins a + 1\<rparr>"

text \<open>\<open>os_task_create\<close>, whose request lies at \<open>args\<close> on the stack of the caller.\<close>

definition pi_create :: "addr \<Rightarrow> addr \<Rightarrow> addr \<Rightarrow> os_task_priority_t \<Rightarrow> addr \<Rightarrow> kstate \<Rightarrow> (int \<times> kstate) option" where
  "pi_create tr ex args priority entry s = os_kernel_task_create tr ex args (s\<lparr>create_args := (create_args s)
     (args \<mapsto> \<lparr>arg_priority = priority, arg_entry = entry, arg_arg = NULL, arg_stack_words = 256\<rparr>)\<rparr>)"

datatype low_pc = PL_Lock | PL_Locked | PL_Create_high | PL_Create_medium | PL_Busy u32 | PL_Done | PL_Unlock | PL_End

fun pi_low_task :: "addr \<Rightarrow> addr \<Rightarrow> addr \<Rightarrow> addr \<Rightarrow> addr \<Rightarrow> addr \<Rightarrow> low_pc \<Rightarrow> pi_app \<Rightarrow> (low_pc \<times> pi_app) option" where
  "pi_low_task tr ex args high medium m PL_Lock a = do {
     (_, k) \<leftarrow> os_kernel_mutex_lock m (pi_kernel a);
     Some (PL_Locked, a\<lparr>pi_kernel := k\<rparr>)
   }"
| "pi_low_task tr ex args high medium m PL_Locked a = Some (PL_Create_high, a\<lparr>g_pi_low_locked := 1\<rparr>)"
| "pi_low_task tr ex args high medium m PL_Create_high a = do {
     (_, k) \<leftarrow> pi_create tr ex args OS_TASK_HIGH high (pi_kernel a);
     Some (PL_Create_medium, a\<lparr>pi_kernel := k\<rparr>)
   }"
| "pi_low_task tr ex args high medium m PL_Create_medium a = do {
     (_, k) \<leftarrow> pi_create tr ex args OS_TASK_MEDIUM medium (pi_kernel a);
     Some (PL_Busy 0, a\<lparr>pi_kernel := k\<rparr>)
   }"
| "pi_low_task tr ex args high medium m (PL_Busy i) a = Some (if i < PI_BUSY_ITERS then PL_Busy (i + 1) else PL_Done, a)"
| "pi_low_task tr ex args high medium m PL_Done a = Some (PL_Unlock, a\<lparr>g_pi_low_done := 1\<rparr>)"
| "pi_low_task tr ex args high medium m PL_Unlock a = do {
     (_, k) \<leftarrow> os_kernel_mutex_unlock m (pi_kernel a);
     Some (PL_End, a\<lparr>pi_kernel := k\<rparr>)
   }"
| "pi_low_task tr ex args high medium m PL_End a = Some (PL_End, a)"

text \<open>The first part of the result is \<open>g_reached_main\<close>.\<close>

definition pi_main :: "addr \<Rightarrow> addr \<Rightarrow> addr \<Rightarrow> addr \<Rightarrow> addr \<Rightarrow> u32 list \<Rightarrow> cpu \<Rightarrow> (u32 \<times> cpu) option" where
  "pi_main tr ex g_pi_mutex low args rest c = do {
     let g_reached_main = 0xA5A5A5A5;
     c \<leftarrow> run_calls tr ex [Init_mutex g_pi_mutex, Create_task OS_TASK_LOW low NULL 256 args rest] c;
     Some (g_reached_main, c)
   }"

subsection \<open>The tasks at work\<close>

datatype pi_pc = Low low_pc | High high_pc | Medium

record pi_sys =
  pi_state :: pi_app
  pi_pcs :: "addr \<rightharpoonup> pi_pc"
  pi_steps :: nat

abbreviation pi_k :: "pi_sys \<Rightarrow> kstate" where "pi_k y \<equiv> pi_kernel (pi_state y)"

text \<open>The code a new task runs.\<close>

fun pi_starts :: "low_pc \<Rightarrow> pi_pc option" where
  "pi_starts PL_Create_high = Some (High PH_Lock)"
| "pi_starts PL_Create_medium = Some Medium"
| "pi_starts _ = None"

definition pi_born :: "pi_pc option \<Rightarrow> kstate \<Rightarrow> kstate \<Rightarrow> (addr \<rightharpoonup> pi_pc) \<Rightarrow> addr \<rightharpoonup> pi_pc" where
  "pi_born q s s' pcs = (\<lambda>u. if tcb_at s u = None \<and> tcb_at s' u \<noteq> None then q else pcs u)"

text \<open>One step of the current task at \<open>pc\<close>.\<close>

definition pi_run :: "addr \<Rightarrow> addr \<Rightarrow> addr \<Rightarrow> addr \<Rightarrow> addr \<Rightarrow> addr \<Rightarrow> pi_pc \<Rightarrow> pi_sys \<Rightarrow> pi_sys option" where
  "pi_run tr ex args high medium m pc y = (let t = g_current (pi_k y); n = Suc (pi_steps y) in case pc of
     Low p \<Rightarrow> do {
       (p', a) \<leftarrow> pi_low_task tr ex args high medium m p (pi_state y);
       Some \<lparr>pi_state = a, pi_pcs = pi_born (pi_starts p) (pi_k y) (pi_kernel a) ((pi_pcs y)(t \<mapsto> Low p')), pi_steps = n\<rparr>
     }
   | High p \<Rightarrow> do {
       (p', a) \<leftarrow> pi_high_task m p (pi_state y);
       Some \<lparr>pi_state = a, pi_pcs = (pi_pcs y)(t \<mapsto> High p'), pi_steps = n\<rparr>
     }
   | Medium \<Rightarrow> Some \<lparr>pi_state = pi_medium_task (pi_state y), pi_pcs = pi_pcs y, pi_steps = n\<rparr>)"

inductive pi_step :: "addr \<Rightarrow> addr \<Rightarrow> addr \<Rightarrow> addr \<Rightarrow> addr \<Rightarrow> addr \<Rightarrow> pi_sys \<Rightarrow> pi_sys \<Rightarrow> bool"
    for tr ex args high medium m where
  run: "\<not> pendsv (pi_k y) \<Longrightarrow> pi_pcs y (g_current (pi_k y)) = Some pc \<Longrightarrow> pi_run tr ex args high medium m pc y = Some z \<Longrightarrow>
    pi_step tr ex args high medium m y z"
| tick: "SysTick_Handler (pi_k y) = Some k \<Longrightarrow>
    pi_step tr ex args high medium m y (y\<lparr>pi_state := (pi_state y)\<lparr>pi_kernel := k\<rparr>\<rparr>)"
| switch: "pendsv (pi_k y) \<Longrightarrow> os_commit_switch ((pi_k y)\<lparr>pendsv := False\<rparr>) = Some k \<Longrightarrow>
    pi_step tr ex args high medium m y (y\<lparr>pi_state := (pi_state y)\<lparr>pi_kernel := k\<rparr>\<rparr>)"

inductive pi_reachable :: "addr \<Rightarrow> addr \<Rightarrow> addr \<Rightarrow> addr \<Rightarrow> addr \<Rightarrow> addr \<Rightarrow> pi_sys \<Rightarrow> pi_sys \<Rightarrow> bool"
    for tr ex args high medium m x where
  pi_here: "pi_reachable tr ex args high medium m x x"
| pi_next: "pi_reachable tr ex args high medium m x y \<Longrightarrow> pi_step tr ex args high medium m y z \<Longrightarrow>
    pi_reachable tr ex args high medium m x z"

definition pi_initial :: "addr \<Rightarrow> kstate \<Rightarrow> pi_sys" where
  "pi_initial low s = \<lparr>pi_state = \<lparr>pi_kernel = s, g_pi_low_locked = 0, g_pi_low_done = 0,
     g_pi_medium_spins = 0, g_pi_high_acquired = 0\<rparr>, pi_pcs = [low \<mapsto> Low PL_Lock], pi_steps = 0\<rparr>"

subsection \<open>The phases of the scenario\<close>

text \<open>In each phase one task is the most urgent. The arguments are the places of the tasks in their code, the view of the
  tasks, the owner and the link of the mutex, its waiters, the most urgent task, how many tasks will be created, and
  the number of steps until the high task has the mutex.\<close>

inductive pi_phase :: "addr \<Rightarrow> addr \<Rightarrow> addr \<Rightarrow> (addr \<rightharpoonup> pi_pc) \<Rightarrow> (addr \<rightharpoonup> task_view) \<Rightarrow> addr \<times> addr \<Rightarrow> addr list \<Rightarrow>
    addr \<Rightarrow> nat \<Rightarrow> nat \<Rightarrow> bool"
    for idle l m where
  alone: "pi_phase idle l m [l \<mapsto> Low PL_Lock]
    [idle \<mapsto> (OS_TASK_IDLE, OS_TASK_IDLE, False, NULL), l \<mapsto> (OS_TASK_LOW, OS_TASK_LOW, False, NULL)] (NULL, n) [] l 2 50009"
| locked: "(p, k) \<in> {(PL_Locked, 50008), (PL_Create_high, 50007)} \<Longrightarrow> pi_phase idle l m [l \<mapsto> Low p]
    [idle \<mapsto> (OS_TASK_IDLE, OS_TASK_IDLE, False, NULL), l \<mapsto> (OS_TASK_LOW, OS_TASK_LOW, False, m)] (l, NULL) [] l 2 k"
| high_started: "h \<notin> {idle, l} \<Longrightarrow> pi_phase idle l m [l \<mapsto> Low PL_Create_medium, h \<mapsto> High PH_Lock]
    [idle \<mapsto> (OS_TASK_IDLE, OS_TASK_IDLE, False, NULL), l \<mapsto> (OS_TASK_LOW, OS_TASK_LOW, False, m),
     h \<mapsto> (OS_TASK_HIGH, OS_TASK_HIGH, False, NULL)] (l, NULL) [] h 1 50006"
| boosted: "h \<notin> {idle, l} \<Longrightarrow> pi_phase idle l m [l \<mapsto> Low PL_Create_medium, h \<mapsto> High PH_Acquired]
    [idle \<mapsto> (OS_TASK_IDLE, OS_TASK_IDLE, False, NULL), l \<mapsto> (OS_TASK_HIGH, OS_TASK_LOW, False, m),
     h \<mapsto> (OS_TASK_HIGH, OS_TASK_HIGH, True, m)] (l, NULL) [h] l 1 50005"
| critical: "h \<notin> {idle, l} \<Longrightarrow> x \<notin> {idle, l, h} \<Longrightarrow>
    p = PL_Busy i \<and> i \<le> PI_BUSY_ITERS \<and> k = 50004 - unat i \<or> p = PL_Done \<and> k = 3 \<or> p = PL_Unlock \<and> k = 2 \<Longrightarrow>
    pi_phase idle l m [l \<mapsto> Low p, h \<mapsto> High PH_Acquired, x \<mapsto> Medium]
    [idle \<mapsto> (OS_TASK_IDLE, OS_TASK_IDLE, False, NULL), l \<mapsto> (OS_TASK_HIGH, OS_TASK_LOW, False, m),
     h \<mapsto> (OS_TASK_HIGH, OS_TASK_HIGH, True, m), x \<mapsto> (OS_TASK_MEDIUM, OS_TASK_MEDIUM, False, NULL)] (l, NULL) [h] l 0 k"
| handed: "h \<notin> {idle, l} \<Longrightarrow> x \<notin> {idle, l, h} \<Longrightarrow> (p, k) \<in> {(PH_Acquired, 1), (PH_Unlock, 0)} \<Longrightarrow>
    pi_phase idle l m [l \<mapsto> Low PL_End, h \<mapsto> High p, x \<mapsto> Medium]
    [idle \<mapsto> (OS_TASK_IDLE, OS_TASK_IDLE, False, NULL), l \<mapsto> (OS_TASK_LOW, OS_TASK_LOW, False, NULL),
     h \<mapsto> (OS_TASK_HIGH, OS_TASK_HIGH, False, m), x \<mapsto> (OS_TASK_MEDIUM, OS_TASK_MEDIUM, False, NULL)] (h, NULL) [] h 0 k"
| finished: "h \<notin> {idle, l} \<Longrightarrow> x \<notin> {idle, l, h} \<Longrightarrow>
    pi_phase idle l m [l \<mapsto> Low PL_End, h \<mapsto> High PH_End, x \<mapsto> Medium]
    [idle \<mapsto> (OS_TASK_IDLE, OS_TASK_IDLE, False, NULL), l \<mapsto> (OS_TASK_LOW, OS_TASK_LOW, False, NULL),
     h \<mapsto> (OS_TASK_HIGH, OS_TASK_HIGH, False, NULL), x \<mapsto> (OS_TASK_MEDIUM, OS_TASK_MEDIUM, False, NULL)] (NULL, NULL) [] h 0 0"

definition pi_inv :: "addr \<Rightarrow> addr \<Rightarrow> addr \<Rightarrow> addr \<Rightarrow> addr \<Rightarrow> pi_sys \<Rightarrow> bool" where
  "pi_inv idle l m kb ub y \<longleftrightarrow> (\<exists>a xs ys b o' n c k. calm kb ub (pi_k y) a xs ys \<and> settled a b \<and> mutex_view a m = Some (o', n) \<and>
     pi_phase idle l m (pi_pcs y) (views a) (o', n) (waitq a (MutexQ m)) b c k \<and> c \<le> length xs \<and> c \<le> length ys \<and>
     g_pi_medium_spins (pi_state y) = 0 \<and> (k = 0 \<or> pi_steps y + k = 50009) \<and> (g_pi_high_acquired (pi_state y) = 1 \<longleftrightarrow> k = 0))"

lemma pi_invI:
  assumes "calm kb ub (pi_k y) a xs ys" and "settled a b" and "mutex_view a m = Some (o', n)"
    and "pi_phase idle l m (pi_pcs y) (views a) (o', n) (waitq a (MutexQ m)) b c k" and "c \<le> length xs" and "c \<le> length ys"
    and "g_pi_medium_spins (pi_state y) = 0" and "k = 0 \<or> pi_steps y + k = 50009" and "g_pi_high_acquired (pi_state y) = 1 \<longleftrightarrow> k = 0"
  shows "pi_inv idle l m kb ub y"
  using assms unfolding pi_inv_def by blast

text \<open>Ticks and context switches change nothing the scenario depends on.\<close>

lemma pi_inv_same:
  assumes I: "pi_inv idle l m kb ub y"
    and f: "\<And>a xs ys b. calm kb ub (pi_k y) a xs ys \<Longrightarrow> settled a b \<Longrightarrow>
      \<exists>s' a'. f (pi_k y) = Some s' \<and> calm kb ub s' a' xs ys \<and> same_view a a' \<and> settled a' b"
    and k: "f (pi_k y) = Some k"
  shows "pi_inv idle l m kb ub (y\<lparr>pi_state := (pi_state y)\<lparr>pi_kernel := k\<rparr>\<rparr>)"
proof -
  from I obtain a xs ys b o' n c j where a: "calm kb ub (pi_k y) a xs ys" "settled a b" "mutex_view a m = Some (o', n)"
    "pi_phase idle l m (pi_pcs y) (views a) (o', n) (waitq a (MutexQ m)) b c j" "c \<le> length xs" "c \<le> length ys"
    "g_pi_medium_spins (pi_state y) = 0" "j = 0 \<or> pi_steps y + j = 50009" "g_pi_high_acquired (pi_state y) = 1 \<longleftrightarrow> j = 0"
    unfolding pi_inv_def by blast
  from f [OF a(1,2)] k obtain a' where a': "calm kb ub k a' xs ys" "same_view a a'" "settled a' b" by auto
  show ?thesis
    by (rule pi_invI [where a = a' and xs = xs and ys = ys and b = b and c = c and k = j and o' = o' and n = n])
      (use a a' in \<open>simp_all add: same_view_def\<close>)
qed

lemma tcb_views: "kernel_rel s a \<Longrightarrow> tcb_at s x = None \<longleftrightarrow> x \<notin> dom (views a)"
  using kernel_rel_tcb_None [of s a x] by (simp add: views_def domIff)

lemma born_same:
  assumes "kernel_rel s a" and "kernel_rel s' a'" and "dom (views a') = dom (views a)"
  shows "pi_born q s s' pcs = pcs"
  using assms(3) by (simp add: pi_born_def tcb_views [OF assms(1)] tcb_views [OF assms(2)] fun_eq_iff)

lemma born_new:
  assumes "kernel_rel s a" and "kernel_rel s' a'" and "views a' = (views a)(u \<mapsto> v)" and "views a u = None"
  shows "pi_born q s s' pcs = pcs(u := q)"
  using assms(3,4) by (auto simp: pi_born_def tcb_views [OF assms(1)] tcb_views [OF assms(2)] fun_eq_iff)

text \<open>Creating a task from the scenario.\<close>

lemma calm_args:
  fixes f :: "addr \<rightharpoonup> os_task_create_args_t"
  assumes "calm kb ub s a xs ys"
  defines "s1 \<equiv> s\<lparr>create_args := f\<rparr>"
  shows "calm kb ub s1 (a\<lparr>kern := core s1\<rparr>) xs ys" and "same_view a (a\<lparr>kern := core s1\<rparr>)"
    and "g_current (kern (a\<lparr>kern := core s1\<rparr>)) = g_current (kern a)"
proof -
  from assms have R: "kernel_rel s a" and I: "kernel_inv a" and P: "pools_ok kb ub s xs ys" and T: "timeoutq a = []"
    by (simp_all add: calm_def)
  have S: "sched_same s s1" by (simp add: sched_same_def s1_def kstate_simps)
  have "get_pool s1 = get_pool s" unfolding s1_def by (rule ext, rename_tac q, case_tac q) simp_all
  then have "pools_ok kb ub s1 xs ys" by (rule pools_ok_frame [OF P]) (simp_all add: s1_def kstate_simps)
  then show "calm kb ub s1 (a\<lparr>kern := core s1\<rparr>) xs ys"
    using kernel_rel_same [OF R S] I T by (simp add: calm_def)
  have k: "kern a = core s" using R by (simp add: kernel_rel_def)
  show "same_view a (a\<lparr>kern := core s1\<rparr>)" "g_current (kern (a\<lparr>kern := core s1\<rparr>)) = g_current (kern a)"
    using S by (simp_all add: k same_view_def views_def mutex_view_def tcb_at_core mutex_at_core sched_same_def)
      (simp add: core_def s1_def)
qed

lemma pi_create_calm:
  assumes C: "calm kb ub s a xs ys" and n: "Suc c \<le> length xs" "Suc c \<le> length ys" and v: "args \<noteq> NULL" "entry \<noteq> NULL" "p \<le> OS_TASK_IDLE"
    and t: "\<And>u. views a u = None \<Longrightarrow> best ((views a)(u \<mapsto> (p, p, False, NULL))) (t u)" and g: "g_current (kern a) \<noteq> NULL"
  shows "\<exists>s' a' u xs' ys'. pi_create tr ex args p entry s = Some (0, s') \<and> calm kb ub s' a' xs' ys' \<and> c \<le> length xs' \<and> c \<le> length ys' \<and>
    views a' = (views a)(u \<mapsto> (p, p, False, NULL)) \<and> mutex_view a' = mutex_view a \<and>
    (\<forall>m. waitq a' (MutexQ m) = waitq a (MutexQ m)) \<and> settled a' (t u) \<and> views a u = None"
proof -
  let ?r = "\<lparr>arg_priority = p, arg_entry = entry, arg_arg = NULL, arg_stack_words = 256\<rparr>"
  let ?s = "s\<lparr>create_args := (create_args s)(args \<mapsto> ?r)\<rparr>"
  let ?a = "a\<lparr>kern := core ?s\<rparr>"
  from n obtain u us stk vs where xs: "xs = u # us" "ys = stk # vs" by (cases xs; cases ys) auto
  note A = calm_args [OF C, of "(create_args s)(args \<mapsto> ?r)"]
  have V: "views ?a = views a" "mutex_view ?a = mutex_view a" "\<And>m. waitq ?a (MutexQ m) = waitq a (MutexQ m)"
    using A(2) by (simp_all add: same_view_def)
  have "tcb_at s u = None" using C xs by (simp add: calm_def pools_ok_def)
  then have u: "views a u = None" using C kernel_rel_tcb_None [of s a u] by (simp add: calm_def views_def)
  have b: "best ((views ?a)(u \<mapsto> (arg_priority ?r, arg_priority ?r, False, NULL))) (t u)" using t [OF u] V by simp
  have g': "g_current (kern ?a) \<noteq> NULL" using A(3) g by simp
  from calm_create [OF A(1) [unfolded xs] v(1), of ?r, OF _ _ _ _ _ b g', of tr ex] v obtain s' a' where
    "os_kernel_task_create tr ex args ?s = Some (0, s')" "calm kb ub s' a' us vs"
    "views a' = (views a)(u \<mapsto> (p, p, False, NULL))" "mutex_view a' = mutex_view a"
    "\<forall>m. waitq a' (MutexQ m) = waitq a (MutexQ m)" "settled a' (t u)"
    using V by (auto simp: OS_TASK_STACK_WORDS_def)
  then show ?thesis
    using n xs u by (intro exI [of _ s'] exI [of _ a'] exI [of _ u] exI [of _ us] exI [of _ vs]) (simp add: pi_create_def)
qed

subsection \<open>One step of the current task\<close>

text \<open>The state of a scenario in which \<open>b\<close> runs.\<close>

definition pi_runs :: "addr \<Rightarrow> addr \<Rightarrow> pi_sys \<Rightarrow> astate \<Rightarrow> addr list \<Rightarrow> addr list \<Rightarrow> addr \<Rightarrow> bool" where
  "pi_runs kb ub y a xs ys b \<longleftrightarrow> calm kb ub (pi_k y) a xs ys \<and> settled a b \<and> g_current (kern a) = b \<and>
     g_current (pi_k y) = b \<and> kernel_rel (pi_k y) a \<and> b \<noteq> NULL \<and> g_pi_medium_spins (pi_state y) = 0"

lemma pi_runsI:
  assumes C: "calm kb ub (pi_k y) a xs ys" and b: "settled a b" "\<not> pendsv (pi_k y)" and "g_pi_medium_spins (pi_state y) = 0"
  shows "pi_runs kb ub y a xs ys b"
proof -
  have R: "kernel_rel (pi_k y) a" using C by (simp add: calm_def)
  show ?thesis using assms R kernel_rel_globals [OF R] by (auto simp: pi_runs_def settled_def)
qed

lemma run_alone:
  assumes y: "pi_runs kb ub y a xs ys l" and m: "mutex_view a m = Some (NULL, n)"
    and p: "pi_pcs y = [l \<mapsto> Low PL_Lock]" and w: "waitq a (MutexQ m) = []"
    and v: "views a = [idle \<mapsto> (OS_TASK_IDLE, OS_TASK_IDLE, False, NULL), l \<mapsto> (OS_TASK_LOW, OS_TASK_LOW, False, NULL)]"
    and f: "2 \<le> length xs" "2 \<le> length ys" "pi_steps y + 50009 = 50009" "g_pi_high_acquired (pi_state y) \<noteq> 1"
  shows "\<exists>z. pi_run tr ex args high medium m (Low PL_Lock) y = Some z \<and> pi_inv idle l m kb ub z"
proof -
  from y have Y: "calm kb ub (pi_k y) a xs ys" "settled a l" "g_current (kern a) = l" "g_current (pi_k y) = l"
    "kernel_rel (pi_k y) a" "g_pi_medium_spins (pi_state y) = 0" by (simp_all add: pi_runs_def)
  from calm_lock_free [OF Y(1-3) _ m] v obtain s' a' where s': "os_kernel_mutex_lock m (pi_k y) = Some (0, s')"
    "calm kb ub s' a' xs ys" "settled a' l" "views a' = (views a)(l \<mapsto> (OS_TASK_LOW, OS_TASK_LOW, False, m))"
    "mutex_view a' = (mutex_view a)(m \<mapsto> (l, NULL))" "waitq a' = waitq a" by auto
  let ?z = "\<lparr>pi_state = (pi_state y)\<lparr>pi_kernel := s'\<rparr>, pi_pcs = [l \<mapsto> Low PL_Locked], pi_steps = Suc (pi_steps y)\<rparr>"
  have "pi_born None (pi_k y) s' [l \<mapsto> Low PL_Locked] = [l \<mapsto> Low PL_Locked]"
    by (rule born_same [OF Y(5), of s' a']) (use s' v in \<open>simp_all add: calm_def\<close>)
  then have "pi_run tr ex args high medium m (Low PL_Lock) y = Some ?z"
    using s'(1) Y(4) p by (simp add: pi_run_def)
  moreover have "pi_inv idle l m kb ub ?z"
    by (rule pi_invI [of _ _ _ a' xs ys l _ l NULL _ _ 2 50008])
      (use s' v w f Y locked [of PL_Locked 50008 idle l m] in simp_all)
  ultimately show ?thesis by blast
qed

lemma run_create_high:
  assumes y: "pi_runs kb ub y a xs ys l" and m: "mutex_view a m = Some (l, NULL)"
    and p: "pi_pcs y = [l \<mapsto> Low PL_Create_high]" and w: "waitq a (MutexQ m) = []"
    and v: "views a = [idle \<mapsto> (OS_TASK_IDLE, OS_TASK_IDLE, False, NULL), l \<mapsto> (OS_TASK_LOW, OS_TASK_LOW, False, m)]"
    and f: "2 \<le> length xs" "2 \<le> length ys" "pi_steps y + 50007 = 50009" "g_pi_high_acquired (pi_state y) \<noteq> 1"
    and e: "args \<noteq> NULL" "high \<noteq> NULL"
  shows "\<exists>z. pi_run tr ex args high medium m (Low PL_Create_high) y = Some z \<and> pi_inv idle l m kb ub z"
proof -
  from y have Y: "calm kb ub (pi_k y) a xs ys" "settled a l" "g_current (kern a) = l" "g_current (pi_k y) = l"
    "kernel_rel (pi_k y) a" "g_pi_medium_spins (pi_state y) = 0" "l \<noteq> NULL" by (simp_all add: pi_runs_def)
  have b: "best ((views a)(u \<mapsto> (OS_TASK_HIGH, OS_TASK_HIGH, False, NULL))) u" if "views a u = None" for u
    using that by (auto simp: best_def v split: if_splits)
  have n: "Suc 1 \<le> length xs" "Suc 1 \<le> length ys" using f by simp_all
  from pi_create_calm [OF Y(1) n e(1,2), of OS_TASK_HIGH "\<lambda>u. u" tr ex] b Y(3,7) obtain s' a' u xs' ys' where
    s': "pi_create tr ex args OS_TASK_HIGH high (pi_k y) = Some (0, s')" "calm kb ub s' a' xs' ys'" "1 \<le> length xs'" "1 \<le> length ys'"
      "views a' = (views a)(u \<mapsto> (OS_TASK_HIGH, OS_TASK_HIGH, False, NULL))" "mutex_view a' = mutex_view a"
      "\<forall>m. waitq a' (MutexQ m) = waitq a (MutexQ m)" "settled a' u" "views a u = None" by auto
  have ne: "u \<notin> {idle, l}" using s'(9) by (auto simp: v split: if_splits)
  let ?z = "\<lparr>pi_state = (pi_state y)\<lparr>pi_kernel := s'\<rparr>, pi_pcs = [l \<mapsto> Low PL_Create_medium, u \<mapsto> High PH_Lock], pi_steps = Suc (pi_steps y)\<rparr>"
  have "pi_born (Some (High PH_Lock)) (pi_k y) s' [l \<mapsto> Low PL_Create_medium] = [l \<mapsto> Low PL_Create_medium, u \<mapsto> High PH_Lock]"
    by (rule born_new [OF Y(5) _ s'(5,9)]) (use s'(2) in \<open>simp add: calm_def\<close>)
  then have "pi_run tr ex args high medium m (Low PL_Create_high) y = Some ?z"
    using s'(1) Y(4) p by (simp add: pi_run_def)
  moreover have "pi_inv idle l m kb ub ?z"
    by (rule pi_invI [of _ _ _ a' xs' ys' u _ l NULL _ _ 1 50006])
      (use s' v w f m Y high_started [OF ne, of m] in simp_all)
  ultimately show ?thesis by blast
qed

lemma run_high_lock:
  assumes y: "pi_runs kb ub y a xs ys h" and m: "mutex_view a m = Some (l, NULL)" and h: "h \<notin> {idle, l}" and l: "l \<noteq> NULL"
    and p: "pi_pcs y = [l \<mapsto> Low PL_Create_medium, h \<mapsto> High PH_Lock]" and w: "waitq a (MutexQ m) = []"
    and v: "views a = [idle \<mapsto> (OS_TASK_IDLE, OS_TASK_IDLE, False, NULL), l \<mapsto> (OS_TASK_LOW, OS_TASK_LOW, False, m),
      h \<mapsto> (OS_TASK_HIGH, OS_TASK_HIGH, False, NULL)]"
    and f: "1 \<le> length xs" "1 \<le> length ys" "pi_steps y + 50006 = 50009" "g_pi_high_acquired (pi_state y) \<noteq> 1"
  shows "\<exists>z. pi_run tr ex args high medium m (High PH_Lock) y = Some z \<and> pi_inv idle l m kb ub z"
proof -
  from y have Y: "calm kb ub (pi_k y) a xs ys" "g_current (kern a) = h" "g_current (pi_k y) = h" "g_pi_medium_spins (pi_state y) = 0"
    by (simp_all add: pi_runs_def)
  have vh: "views a h = Some (OS_TASK_HIGH, OS_TASK_HIGH, False, NULL)" "views a l = Some (OS_TASK_LOW, OS_TASK_LOW, False, m)" "l \<noteq> h"
    using v h by auto
  let ?V = "(views a)(l \<mapsto> (min OS_TASK_HIGH OS_TASK_LOW, OS_TASK_LOW, False, m), h \<mapsto> (OS_TASK_HIGH, OS_TASK_HIGH, True, m))"
  have V: "?V = [idle \<mapsto> (OS_TASK_IDLE, OS_TASK_IDLE, False, NULL), l \<mapsto> (OS_TASK_HIGH, OS_TASK_LOW, False, m),
      h \<mapsto> (OS_TASK_HIGH, OS_TASK_HIGH, True, m)]" using h by (auto simp: v)
  have "best ?V l" unfolding V using h by (auto simp: best_def)
  from calm_lock_wait [OF Y(1,2) vh(1) m l vh(3,2) this] obtain s' a' where s': "os_kernel_mutex_lock m (pi_k y) = Some (0, s')"
    "calm kb ub s' a' xs ys" "settled a' l" "views a' = ?V" "mutex_view a' = (mutex_view a)(m \<mapsto> (l, NULL))"
    "waitq a' (MutexQ m) = [h]" using w by (auto simp: insert_prio_def)
  let ?z = "\<lparr>pi_state = (pi_state y)\<lparr>pi_kernel := s'\<rparr>, pi_pcs = [l \<mapsto> Low PL_Create_medium, h \<mapsto> High PH_Acquired], pi_steps = Suc (pi_steps y)\<rparr>"
  have "pi_run tr ex args high medium m (High PH_Lock) y = Some ?z"
    using s'(1) Y(3) p by (simp add: pi_run_def)
  moreover have "pi_inv idle l m kb ub ?z"
    by (rule pi_invI [of _ _ _ a' xs ys l _ l NULL _ _ 1 50005])
      (use s' V f Y boosted [OF h, of m] in simp_all)
  ultimately show ?thesis by blast
qed

lemma run_create_medium:
  assumes y: "pi_runs kb ub y a xs ys l" and m: "mutex_view a m = Some (l, NULL)" and h: "h \<notin> {idle, l}" and l: "l \<noteq> idle"
    and p: "pi_pcs y = [l \<mapsto> Low PL_Create_medium, h \<mapsto> High PH_Acquired]" and w: "waitq a (MutexQ m) = [h]"
    and v: "views a = [idle \<mapsto> (OS_TASK_IDLE, OS_TASK_IDLE, False, NULL), l \<mapsto> (OS_TASK_HIGH, OS_TASK_LOW, False, m),
      h \<mapsto> (OS_TASK_HIGH, OS_TASK_HIGH, True, m)]"
    and f: "1 \<le> length xs" "1 \<le> length ys" "pi_steps y + 50005 = 50009" "g_pi_high_acquired (pi_state y) \<noteq> 1"
    and e: "args \<noteq> NULL" "medium \<noteq> NULL"
  shows "\<exists>z. pi_run tr ex args high medium m (Low PL_Create_medium) y = Some z \<and> pi_inv idle l m kb ub z"
proof -
  from y have Y: "calm kb ub (pi_k y) a xs ys" "settled a l" "g_current (kern a) = l" "g_current (pi_k y) = l"
    "kernel_rel (pi_k y) a" "g_pi_medium_spins (pi_state y) = 0" "l \<noteq> NULL" by (simp_all add: pi_runs_def)
  have b: "best ((views a)(u \<mapsto> (OS_TASK_MEDIUM, OS_TASK_MEDIUM, False, NULL))) l" if "views a u = None" for u
    using that h by (auto simp: best_def v split: if_splits)
  have n: "Suc 0 \<le> length xs" "Suc 0 \<le> length ys" using f by simp_all
  from pi_create_calm [OF Y(1) n e(1,2), of OS_TASK_MEDIUM "\<lambda>_. l" tr ex] b Y(3,7) obtain s' a' u xs' ys' where
    s': "pi_create tr ex args OS_TASK_MEDIUM medium (pi_k y) = Some (0, s')" "calm kb ub s' a' xs' ys'"
      "views a' = (views a)(u \<mapsto> (OS_TASK_MEDIUM, OS_TASK_MEDIUM, False, NULL))" "mutex_view a' = mutex_view a"
      "\<forall>m. waitq a' (MutexQ m) = waitq a (MutexQ m)" "settled a' l" "views a u = None" by auto
  have ne: "u \<notin> {idle, l, h}" using s'(7) by (auto simp: v split: if_splits)
  let ?P = "[l \<mapsto> Low (PL_Busy 0), h \<mapsto> High PH_Acquired]"
  let ?z = "\<lparr>pi_state = (pi_state y)\<lparr>pi_kernel := s'\<rparr>, pi_pcs = ?P(u \<mapsto> Medium), pi_steps = Suc (pi_steps y)\<rparr>"
  have "pi_born (Some Medium) (pi_k y) s' ?P = ?P(u \<mapsto> Medium)"
    by (rule born_new [OF Y(5) _ s'(3,7)]) (use s'(2) in \<open>simp add: calm_def\<close>)
  moreover have "(pi_pcs y)(l \<mapsto> Low (PL_Busy 0)) = ?P" using h by (auto simp: p)
  ultimately have "pi_run tr ex args high medium m (Low PL_Create_medium) y = Some ?z"
    using s'(1) Y(4) by (simp add: pi_run_def)
  moreover have "pi_inv idle l m kb ub ?z"
    by (rule pi_invI [of _ _ _ a' xs' ys' l _ l NULL _ _ 0 50004])
      (use s' v w f m Y critical [OF h ne, of "PL_Busy 0" 0 50004 m] in simp_all)
  ultimately show ?thesis by blast
qed

lemma run_low_unlock:
  assumes y: "pi_runs kb ub y a xs ys l" and m: "mutex_view a m = Some (l, NULL)"
    and h: "h \<notin> {idle, l}" "x \<notin> {idle, l, h}" and l: "l \<noteq> idle"
    and p: "pi_pcs y = [l \<mapsto> Low PL_Unlock, h \<mapsto> High PH_Acquired, x \<mapsto> Medium]" and w: "waitq a (MutexQ m) = [h]"
    and v: "views a = [idle \<mapsto> (OS_TASK_IDLE, OS_TASK_IDLE, False, NULL), l \<mapsto> (OS_TASK_HIGH, OS_TASK_LOW, False, m),
      h \<mapsto> (OS_TASK_HIGH, OS_TASK_HIGH, True, m), x \<mapsto> (OS_TASK_MEDIUM, OS_TASK_MEDIUM, False, NULL)]"
    and f: "pi_steps y + 2 = 50009" "g_pi_high_acquired (pi_state y) \<noteq> 1"
  shows "\<exists>z. pi_run tr ex args high medium m (Low PL_Unlock) y = Some z \<and> pi_inv idle l m kb ub z"
proof -
  from y have Y: "calm kb ub (pi_k y) a xs ys" "g_current (kern a) = l" "g_current (pi_k y) = l"
    "kernel_rel (pi_k y) a" "g_pi_medium_spins (pi_state y) = 0" by (simp_all add: pi_runs_def)
  have vl: "views a l = Some (OS_TASK_HIGH, OS_TASK_LOW, False, m)" "views a h = Some (OS_TASK_HIGH, OS_TASK_HIGH, True, m)"
    using v h l by auto
  let ?V = "(views a)(l \<mapsto> (OS_TASK_LOW, OS_TASK_LOW, False, NULL), h \<mapsto> (OS_TASK_HIGH, OS_TASK_HIGH, False, m))"
  have V: "?V = [idle \<mapsto> (OS_TASK_IDLE, OS_TASK_IDLE, False, NULL), l \<mapsto> (OS_TASK_LOW, OS_TASK_LOW, False, NULL),
      h \<mapsto> (OS_TASK_HIGH, OS_TASK_HIGH, False, m), x \<mapsto> (OS_TASK_MEDIUM, OS_TASK_MEDIUM, False, NULL)]"
    using h by (auto simp: v)
  have "best ?V h" unfolding V using h by (auto simp: best_def)
  from calm_unlock_wake [OF Y(1,2) vl(1) m w vl(2) this] obtain s' a' where s': "os_kernel_mutex_unlock m (pi_k y) = Some (0, s')"
    "calm kb ub s' a' xs ys" "settled a' h" "views a' = ?V" "mutex_view a' = (mutex_view a)(m \<mapsto> (h, NULL))"
    "waitq a' (MutexQ m) = []" by auto
  let ?P = "[l \<mapsto> Low PL_End, h \<mapsto> High PH_Acquired, x \<mapsto> Medium]"
  let ?z = "\<lparr>pi_state = (pi_state y)\<lparr>pi_kernel := s'\<rparr>, pi_pcs = ?P, pi_steps = Suc (pi_steps y)\<rparr>"
  have "dom (views a') = dom (views a)" using s'(4) vl by (auto simp: domIff)
  then have "pi_born None (pi_k y) s' ?P = ?P" using s'(2) by (intro born_same [OF Y(4), of s' a']) (simp_all add: calm_def)
  moreover have "(pi_pcs y)(l \<mapsto> Low PL_End) = ?P" using h by (auto simp: p)
  ultimately have "pi_run tr ex args high medium m (Low PL_Unlock) y = Some ?z"
    using s'(1) Y(3) by (simp add: pi_run_def)
  moreover have "pi_inv idle l m kb ub ?z"
    by (rule pi_invI [of _ _ _ a' xs ys h _ h NULL _ _ 0 1])
      (use s' V f Y handed [OF h, of PH_Acquired 1 m] in simp_all)
  ultimately show ?thesis by blast
qed

lemma run_high_unlock:
  assumes y: "pi_runs kb ub y a xs ys h" and m: "mutex_view a m = Some (h, NULL)"
    and h: "h \<notin> {idle, l}" "x \<notin> {idle, l, h}"
    and p: "pi_pcs y = [l \<mapsto> Low PL_End, h \<mapsto> High PH_Unlock, x \<mapsto> Medium]" and w: "waitq a (MutexQ m) = []"
    and v: "views a = [idle \<mapsto> (OS_TASK_IDLE, OS_TASK_IDLE, False, NULL), l \<mapsto> (OS_TASK_LOW, OS_TASK_LOW, False, NULL),
      h \<mapsto> (OS_TASK_HIGH, OS_TASK_HIGH, False, m), x \<mapsto> (OS_TASK_MEDIUM, OS_TASK_MEDIUM, False, NULL)]"
    and f: "g_pi_high_acquired (pi_state y) = 1"
  shows "\<exists>z. pi_run tr ex args high medium m (High PH_Unlock) y = Some z \<and> pi_inv idle l m kb ub z"
proof -
  from y have Y: "calm kb ub (pi_k y) a xs ys" "settled a h" "g_current (kern a) = h" "g_current (pi_k y) = h"
    "g_pi_medium_spins (pi_state y) = 0" by (simp_all add: pi_runs_def)
  have vh: "views a h = Some (OS_TASK_HIGH, OS_TASK_HIGH, False, m)" using v h by auto
  let ?V = "(views a)(h \<mapsto> (OS_TASK_HIGH, OS_TASK_HIGH, False, NULL))"
  have V: "?V = [idle \<mapsto> (OS_TASK_IDLE, OS_TASK_IDLE, False, NULL), l \<mapsto> (OS_TASK_LOW, OS_TASK_LOW, False, NULL),
      h \<mapsto> (OS_TASK_HIGH, OS_TASK_HIGH, False, NULL), x \<mapsto> (OS_TASK_MEDIUM, OS_TASK_MEDIUM, False, NULL)]"
    using h by (auto simp: v)
  have "best ?V h" unfolding V using h by (auto simp: best_def)
  from calm_unlock_free [OF Y(1-3) vh m w this] obtain s' a' where s': "os_kernel_mutex_unlock m (pi_k y) = Some (0, s')"
    "calm kb ub s' a' xs ys" "settled a' h" "views a' = ?V" "mutex_view a' = (mutex_view a)(m \<mapsto> (NULL, NULL))"
    "waitq a' (MutexQ m) = []" by auto
  let ?P = "[l \<mapsto> Low PL_End, h \<mapsto> High PH_End, x \<mapsto> Medium]"
  let ?z = "\<lparr>pi_state = (pi_state y)\<lparr>pi_kernel := s'\<rparr>, pi_pcs = ?P, pi_steps = Suc (pi_steps y)\<rparr>"
  have "(pi_pcs y)(h \<mapsto> High PH_End) = ?P" using h by (auto simp: p)
  then have "pi_run tr ex args high medium m (High PH_Unlock) y = Some ?z"
    using s'(1) Y(4) by (simp add: pi_run_def)
  moreover have "pi_inv idle l m kb ub ?z"
    by (rule pi_invI [of _ _ _ a' xs ys h _ NULL NULL _ _ 0 0])
      (use s' V f Y finished [OF h, of m] in simp_all)
  ultimately show ?thesis by blast
qed

text \<open>A step that only changes variables of the application.\<close>

lemma born_refl [simp]: "pi_born q s s pcs = pcs"
  by (rule ext) (auto simp: pi_born_def)

lemma run_local:
  assumes y: "pi_runs kb ub y a xs ys b" and m: "mutex_view a m = Some (o', n)"
    and run: "pi_run tr ex args high medium m pc y = Some z"
    and z: "pi_k z = pi_k y" "g_pi_medium_spins (pi_state z) = 0" "pi_steps z = Suc (pi_steps y)"
    and f: "c \<le> length xs" "c \<le> length ys" "k = 0 \<or> Suc (pi_steps y) + k = 50009" "g_pi_high_acquired (pi_state z) = 1 \<longleftrightarrow> k = 0"
    and ph: "pi_phase idle l m (pi_pcs z) (views a) (o', n) (waitq a (MutexQ m)) b c k"
  shows "\<exists>z. pi_run tr ex args high medium m pc y = Some z \<and> pi_inv idle l m kb ub z"
proof -
  have "pi_inv idle l m kb ub z"
    by (rule pi_invI [OF _ _ m ph, of kb ub xs ys]) (use y z f in \<open>auto simp: pi_runs_def\<close>)
  with run show ?thesis by blast
qed

lemma run_critical:
  assumes y: "pi_runs kb ub y a xs ys l" and m: "mutex_view a m = Some (l, NULL)"
    and h: "h \<notin> {idle, l}" "x \<notin> {idle, l, h}" and l: "l \<noteq> idle"
    and c: "p = PL_Busy i \<and> i \<le> PI_BUSY_ITERS \<and> k = 50004 - unat i \<or> p = PL_Done \<and> k = 3 \<or> p = PL_Unlock \<and> k = 2"
    and p: "pi_pcs y = [l \<mapsto> Low p, h \<mapsto> High PH_Acquired, x \<mapsto> Medium]" and w: "waitq a (MutexQ m) = [h]"
    and v: "views a = [idle \<mapsto> (OS_TASK_IDLE, OS_TASK_IDLE, False, NULL), l \<mapsto> (OS_TASK_HIGH, OS_TASK_LOW, False, m),
      h \<mapsto> (OS_TASK_HIGH, OS_TASK_HIGH, True, m), x \<mapsto> (OS_TASK_MEDIUM, OS_TASK_MEDIUM, False, NULL)]"
    and f: "pi_steps y + k = 50009" "g_pi_high_acquired (pi_state y) \<noteq> 1"
  shows "\<exists>z. pi_run tr ex args high medium m (Low p) y = Some z \<and> pi_inv idle l m kb ub z"
proof -
  from y have Y: "g_current (pi_k y) = l" "g_pi_medium_spins (pi_state y) = 0" by (simp_all add: pi_runs_def)
  let ?P = "\<lambda>p. [l \<mapsto> Low p, h \<mapsto> High PH_Acquired, x \<mapsto> Medium]"
  have P: "(pi_pcs y)(l \<mapsto> Low q) = ?P q" for q using h by (auto simp: p)
  note loc = run_local [OF y m, where c = 0 and idle = idle and l = l]
  consider (busy) "p = PL_Busy i" "i \<le> PI_BUSY_ITERS" "k = 50004 - unat i" | (fin) "p = PL_Done" "k = 3" | (unlock) "p = PL_Unlock" "k = 2"
    using c by blast
  then show ?thesis
  proof cases
    case busy
    let ?q = "if i < PI_BUSY_ITERS then PL_Busy (i + 1) else PL_Done"
    let ?z = "\<lparr>pi_state = pi_state y, pi_pcs = ?P ?q, pi_steps = Suc (pi_steps y)\<rparr>"
    have run: "pi_run tr ex args high medium m (Low p) y = Some ?z" using busy(1) Y P by (simp add: pi_run_def)
    have i: "unat i \<le> 50000" using busy(2) by (simp add: word_le_nat_alt)
    have k: "pi_steps y + (50004 - unat i) = 50009" using f busy(3) by simp
    have "?q = PL_Busy (i + 1) \<and> i + 1 \<le> PI_BUSY_ITERS \<and> k - 1 = 50004 - unat (i + 1) \<or> ?q = PL_Done \<and> k - 1 = 3 \<or> ?q = PL_Unlock \<and> k - 1 = 2"
      using i busy(3) by (auto simp: word_less_nat_alt word_le_nat_alt unat_Suc_less unat_word_ariths)
    from critical [OF h this, of m] have ph: "pi_phase idle l m (pi_pcs ?z) (views a) (l, NULL) (waitq a (MutexQ m)) l 0 (k - 1)"
      using v w by simp
    show ?thesis by (rule loc [OF run _ _ _ _ _ _ _ ph]) (use Y f k i busy(3) in auto)
  next
    case fin
    let ?z = "\<lparr>pi_state = (pi_state y)\<lparr>g_pi_low_done := 1\<rparr>, pi_pcs = ?P PL_Unlock, pi_steps = Suc (pi_steps y)\<rparr>"
    have run: "pi_run tr ex args high medium m (Low p) y = Some ?z" using fin(1) Y P by (simp add: pi_run_def)
    show ?thesis
      by (rule loc [OF run, where k = 2]) (use Y f v w fin critical [OF h, of PL_Unlock 0 2 m] in auto)
  next
    case unlock
    with run_low_unlock [OF y m h l _ w v, of tr ex args high medium] p f show ?thesis by simp
  qed
qed

lemma run_handed:
  assumes y: "pi_runs kb ub y a xs ys h" and m: "mutex_view a m = Some (h, NULL)"
    and h: "h \<notin> {idle, l}" "x \<notin> {idle, l, h}" and c: "(p, k) \<in> {(PH_Acquired, 1), (PH_Unlock, 0)}"
    and p: "pi_pcs y = [l \<mapsto> Low PL_End, h \<mapsto> High p, x \<mapsto> Medium]" and w: "waitq a (MutexQ m) = []"
    and v: "views a = [idle \<mapsto> (OS_TASK_IDLE, OS_TASK_IDLE, False, NULL), l \<mapsto> (OS_TASK_LOW, OS_TASK_LOW, False, NULL),
      h \<mapsto> (OS_TASK_HIGH, OS_TASK_HIGH, False, m), x \<mapsto> (OS_TASK_MEDIUM, OS_TASK_MEDIUM, False, NULL)]"
    and f: "g_pi_high_acquired (pi_state y) = 1 \<longleftrightarrow> k = 0"
  shows "\<exists>z. pi_run tr ex args high medium m (High p) y = Some z \<and> pi_inv idle l m kb ub z"
proof (cases "p = PH_Acquired")
  case True
  from y have Y: "g_current (pi_k y) = h" "g_pi_medium_spins (pi_state y) = 0" by (simp_all add: pi_runs_def)
  let ?P = "[l \<mapsto> Low PL_End, h \<mapsto> High PH_Unlock, x \<mapsto> Medium]"
  let ?z = "\<lparr>pi_state = (pi_state y)\<lparr>g_pi_high_acquired := 1\<rparr>, pi_pcs = ?P, pi_steps = Suc (pi_steps y)\<rparr>"
  have "(pi_pcs y)(h \<mapsto> High PH_Unlock) = ?P" using h by (auto simp: p)
  then have run: "pi_run tr ex args high medium m (High p) y = Some ?z" using True Y by (simp add: pi_run_def)
  show ?thesis
    by (rule run_local [OF y m run, where k = 0 and c = 0]) (use Y v w handed [OF h, of PH_Unlock 0 m] in auto)
next
  case False
  with run_high_unlock [OF y m h _ w v, of tr ex args high medium] c p f show ?thesis by auto
qed

lemma run_locked:
  assumes y: "pi_runs kb ub y a xs ys l" and m: "mutex_view a m = Some (l, NULL)"
    and p: "(p, k) \<in> {(PL_Locked, 50008), (PL_Create_high, 50007)}" and w: "waitq a (MutexQ m) = []" and c: "pi_pcs y = [l \<mapsto> Low p]"
    and v: "views a = [idle \<mapsto> (OS_TASK_IDLE, OS_TASK_IDLE, False, NULL), l \<mapsto> (OS_TASK_LOW, OS_TASK_LOW, False, m)]"
    and f: "2 \<le> length xs" "2 \<le> length ys" "pi_steps y + k = 50009" "g_pi_high_acquired (pi_state y) \<noteq> 1"
    and e: "args \<noteq> NULL" "high \<noteq> NULL"
  shows "\<exists>z. pi_run tr ex args high medium m (Low p) y = Some z \<and> pi_inv idle l m kb ub z"
proof (cases "p = PL_Create_high")
  case True
  with p f(3) have "pi_steps y + 50007 = 50009" by auto
  with True run_create_high [OF y m _ w v f(1,2) _ f(4) e, of tr ex medium] c show ?thesis by auto
next
  case False
  let ?z = "\<lparr>pi_state = (pi_state y)\<lparr>g_pi_low_locked := 1\<rparr>, pi_pcs = [l \<mapsto> Low PL_Create_high], pi_steps = Suc (pi_steps y)\<rparr>"
  have q: "p = PL_Locked" "k = 50008" using False p by auto
  from y have Y: "g_current (pi_k y) = l" "g_pi_medium_spins (pi_state y) = 0" by (simp_all add: pi_runs_def)
  then have run: "pi_run tr ex args high medium m (Low p) y = Some ?z" using q c by (simp add: pi_run_def)
  show ?thesis
    by (rule run_local [OF y m run, where k = 50007 and c = 2])
      (use Y v w f q locked [of PL_Create_high 50007 idle l m] in auto)
qed

lemma run_finished:
  assumes y: "pi_runs kb ub y a xs ys h" and m: "mutex_view a m = Some (NULL, NULL)"
    and h: "h \<notin> {idle, l}" "x \<notin> {idle, l, h}"
    and p: "pi_pcs y = [l \<mapsto> Low PL_End, h \<mapsto> High PH_End, x \<mapsto> Medium]" and w: "waitq a (MutexQ m) = []"
    and v: "views a = [idle \<mapsto> (OS_TASK_IDLE, OS_TASK_IDLE, False, NULL), l \<mapsto> (OS_TASK_LOW, OS_TASK_LOW, False, NULL),
      h \<mapsto> (OS_TASK_HIGH, OS_TASK_HIGH, False, NULL), x \<mapsto> (OS_TASK_MEDIUM, OS_TASK_MEDIUM, False, NULL)]"
    and f: "g_pi_high_acquired (pi_state y) = 1"
  shows "\<exists>z. pi_run tr ex args high medium m (High PH_End) y = Some z \<and> pi_inv idle l m kb ub z"
proof -
  from y have Y: "g_current (pi_k y) = h" "g_pi_medium_spins (pi_state y) = 0" by (simp_all add: pi_runs_def)
  have "(pi_pcs y)(h \<mapsto> High PH_End) = pi_pcs y" using h by (auto simp: p)
  then have run: "pi_run tr ex args high medium m (High PH_End) y =
      Some \<lparr>pi_state = pi_state y, pi_pcs = pi_pcs y, pi_steps = Suc (pi_steps y)\<rparr>" using Y by (simp add: pi_run_def)
  show ?thesis
    by (rule run_local [OF y m run, where k = 0 and c = 0]) (use Y v w p f finished [OF h, of m] in auto)
qed

lemma pi_run_inv:
  assumes I: "pi_inv idle l m kb ub y" and n: "\<not> pendsv (pi_k y)"
    and e: "l \<notin> {idle, NULL}" "args \<noteq> NULL" "high \<noteq> NULL" "medium \<noteq> NULL"
  shows "\<exists>pc z. pi_pcs y (g_current (pi_k y)) = Some pc \<and> pi_run tr ex args high medium m pc y = Some z \<and> pi_inv idle l m kb ub z"
proof -
  from I obtain a xs ys b o' n' c k where a: "calm kb ub (pi_k y) a xs ys" "settled a b" and m: "mutex_view a m = Some (o', n')"
    and ph: "pi_phase idle l m (pi_pcs y) (views a) (o', n') (waitq a (MutexQ m)) b c k" and f: "c \<le> length xs" "c \<le> length ys"
    "g_pi_medium_spins (pi_state y) = 0" "k = 0 \<or> pi_steps y + k = 50009" "g_pi_high_acquired (pi_state y) = 1 \<longleftrightarrow> k = 0"
    unfolding pi_inv_def by blast
  have Y: "pi_runs kb ub y a xs ys b" by (rule pi_runsI [OF a n f(3)])
  then have g: "g_current (pi_k y) = b" by (simp add: pi_runs_def)
  have l: "l \<noteq> idle" "l \<noteq> NULL" using e(1) by auto
  have "\<exists>pc. pi_pcs y b = Some pc \<and> (\<exists>z. pi_run tr ex args high medium m pc y = Some z \<and> pi_inv idle l m kb ub z)"
    using ph
  proof cases
    case alone
    with run_alone [of kb ub y a xs ys l m n' idle tr ex args high medium] Y m f show ?thesis by auto
  next
    case (locked p)
    with run_locked [of kb ub y a xs ys l m p k idle args high tr ex medium] Y m f e show ?thesis by auto
  next
    case high_started
    with run_high_lock [of kb ub y a xs ys b m l idle tr ex args high medium] Y m f l show ?thesis by auto
  next
    case (boosted h)
    with run_create_medium [of kb ub y a xs ys l m h idle args medium tr ex high] Y m f e l show ?thesis by auto
  next
    case (critical h x p i)
    then have "k \<noteq> 0" by (auto simp: word_le_nat_alt)
    with f have k: "pi_steps y + k = 50009" "g_pi_high_acquired (pi_state y) \<noteq> 1" by auto
    have "pi_pcs y l = Some (Low p)" using critical by auto
    with run_critical [of kb ub y a xs ys l m h idle x p i k tr ex args high medium] Y m l k critical show ?thesis by auto
  next
    case (handed x p)
    then have "pi_pcs y b = Some (High p)" by auto
    with run_handed [of kb ub y a xs ys b m idle l x p k tr ex args high medium] Y m f handed show ?thesis by auto
  next
    case (finished x)
    then have "pi_pcs y b = Some (High PH_End)" by auto
    with run_finished [of kb ub y a xs ys b m idle l x tr ex args high medium] Y m f finished show ?thesis by auto
  qed
  with g show ?thesis by blast
qed

subsection \<open>The scenario from its start\<close>

text \<open>The kernel has started with the idle task and the low task, the mutex is free, and two more tasks can be created.\<close>

definition pi_ready :: "addr \<Rightarrow> addr \<Rightarrow> addr \<Rightarrow> addr \<Rightarrow> addr \<Rightarrow> kstate \<Rightarrow> bool" where
  "pi_ready idle l m kb ub s \<longleftrightarrow> l \<notin> {idle, NULL} \<and> (\<exists>a xs ys n. calm kb ub s a xs ys \<and> settled a l \<and> mutex_view a m = Some (NULL, n) \<and>
     waitq a (MutexQ m) = [] \<and> 2 \<le> length xs \<and> 2 \<le> length ys \<and>
     views a = [idle \<mapsto> (OS_TASK_IDLE, OS_TASK_IDLE, False, NULL), l \<mapsto> (OS_TASK_LOW, OS_TASK_LOW, False, NULL)])"

lemma pi_initial_inv: "pi_ready idle l m kb ub s \<Longrightarrow> pi_inv idle l m kb ub (pi_initial l s)"
  unfolding pi_ready_def
  by (elim conjE exE, rule pi_invI [where k = 50009 and c = 2], simp add: pi_initial_def) (auto simp: pi_initial_def alone)

lemma pi_step_inv:
  assumes I: "pi_inv idle l m kb ub y" and s: "pi_step tr ex args high medium m y z"
    and e: "l \<notin> {idle, NULL}" "args \<noteq> NULL" "high \<noteq> NULL" "medium \<noteq> NULL"
  shows "pi_inv idle l m kb ub z"
  using s
proof cases
  case (run pc)
  with pi_run_inv [OF I run(1) e, of tr ex] show ?thesis by auto
next
  case (tick k)
  show ?thesis unfolding tick by (rule pi_inv_same [where f = SysTick_Handler, OF I calm_tick tick(2)])
next
  case (switch k)
  show ?thesis unfolding switch by (rule pi_inv_same [where f = "\<lambda>s. os_commit_switch (s\<lparr>pendsv := False\<rparr>)", OF I calm_switch switch(3)])
qed

lemma pi_reachable_inv:
  assumes "pi_reachable tr ex args high medium m x y" and "pi_inv idle l m kb ub x"
    and e: "l \<notin> {idle, NULL}" "args \<noteq> NULL" "high \<noteq> NULL" "medium \<noteq> NULL"
  shows "pi_inv idle l m kb ub y"
  using assms(1,2) by (induction rule: pi_reachable.induct) (auto intro: pi_step_inv [OF _ _ e])

lemma pi_main_ready:
  assumes B: "boot_inv kb ub T c" and f: "kst_boot kb ub T (kst c) (l # x # x' # xs) (stk # stk' # stk'' # ys)"
    and V: "boot_sees [idle \<mapsto> (OS_TASK_IDLE, OS_TASK_IDLE, False, NULL)] M (kst c)"
    and n: "length rest = 6" "args \<noteq> NULL" "low \<noteq> NULL" and m: "m \<in> snd (snd T)"
    and h: "\<And>hw. clock = Some hw \<Longrightarrow> clock_starts hw"
  shows "\<exists>c' c''. pi_main tr ex m low args rest c = Some (0xA5A5A5A5, c') \<and> os_start im clock hz c' = Some c'' \<and>
    pi_ready idle l m kb ub (kst c'')"
proof -
  let ?I = "(OS_TASK_IDLE, OS_TASK_IDLE, False, NULL)" and ?L = "(OS_TASK_LOW, OS_TASK_LOW, False, NULL)"
  from boot_mutex_view [OF B f m V] obtain r s1 k where s1: "os_mutex_init m (kst c) = Some (r, s1)" "boot_inv kb ub T (c\<lparr>kst := s1\<rparr>)"
    "kst_boot kb ub T s1 (l # x # x' # xs) (stk # stk' # stk'' # ys)" "boot_sees [idle \<mapsto> ?I] (M(m \<mapsto> (NULL, k))) s1" by blast
  from boot_create_view [OF s1(2) _ n(1,2,3), of l "x # x' # xs" stk "stk' # stk'' # ys" OS_TASK_LOW 256 "[idle \<mapsto> ?I]" "M(m \<mapsto> (NULL, k))" tr ex NULL] s1
  obtain c2 where c2: "os_task_create tr ex OS_TASK_LOW low NULL 256 args rest (c\<lparr>kst := s1\<rparr>) = Some c2"
    "boot_inv kb ub T (exception_return c2)" "kst_boot kb ub T (kst (exception_return c2)) (x # x' # xs) (stk' # stk'' # ys)"
    "boot_sees [idle \<mapsto> ?I, l \<mapsto> ?L] (M(m \<mapsto> (NULL, k))) (kst (exception_return c2))" "[idle \<mapsto> ?I] l = None"
    by (auto simp: OS_TASK_STACK_WORDS_def)
  have li: "l \<noteq> idle" using c2(5) by auto
  have main: "pi_main tr ex m low args rest c = Some (0xA5A5A5A5, exception_return c2)" using s1(1) c2(1) by (simp add: pi_main_def)
  have "best [idle \<mapsto> ?I, l \<mapsto> ?L] l" using li by (auto simp: best_def)
  from boot_start_view [where l = im and hz = hz and clock = clock, OF c2(2,3,4) this h] obtain c3 a where c3: "os_start im clock hz (exception_return c2) = Some c3"
    "calm kb ub (kst c3) a (x # x' # xs) (stk' # stk'' # ys)" "settled a l" "views a = [idle \<mapsto> ?I, l \<mapsto> ?L]"
    "mutex_view a = M(m \<mapsto> (NULL, k))" by auto
  have "kernel_inv a" using c3(2) by (simp add: calm_def)
  then have "waitq a (MutexQ m) = []" by (rule no_waiters) (auto simp: c3(4) split: if_splits)
  moreover have "l \<noteq> NULL" using best_runnable [of a l] c3(3) by (auto simp: settled_def runnable_def)
  ultimately have "pi_ready idle l m kb ub (kst c3)"
    unfolding pi_ready_def using c3 li by (intro conjI exI [of _ a] exI [of _ "x # x' # xs"] exI [of _ "stk' # stk'' # ys"] exI [of _ k]) auto
  with main c3(1) show ?thesis by blast
qed

lemma pi_reset_ready:
  assumes im: "image_ok im (msp c)" and c: "control c = 0" "length (r4_r11 c) = 8" and n: "args \<noteq> NULL" "length rest = 6" "low \<noteq> NULL"
    and m: "m \<in> dom (mutex_at (kst c))" and h: "\<And>hw. clock = Some hw \<Longrightarrow> clock_starts hw"
    and kb: "kb = kernel_object_pool_storage im" and ub: "ub = user_stack_pool_storage im"
    and tr: "tr = task_start_trampoline im" and ex: "ex = task_exit_trap im"
  shows "\<exists>c'. Reset_Handler im (\<lambda>c. map_option snd (pi_main tr ex m low args rest c)) clock hz args rest c = Some c' \<and>
    pi_ready (pool_block kb 64 31) (pool_block kb 64 30) m kb ub (kst c')"
proof -
  let ?app = "\<lambda>c. map_option snd (pi_main tr ex m low args rest c)" and ?idle = "pool_block kb 64 31"
  from reset_reaches_boot [OF im, of ?app clock hz args rest c] obtain Q where
    Q: "Reset_Handler im ?app clock hz args rest c = os_boot_main im ?app clock hz args rest (c\<lparr>kst := zero_globals ((kst c)\<lparr>mem := Q\<rparr>)\<rparr>)" by blast
  let ?s = "(kst c)\<lparr>mem := Q\<rparr>" and ?c = "c\<lparr>kst := zero_globals ((kst c)\<lparr>mem := Q\<rparr>)\<rparr>"
  let ?c2 = "os_bench_clock_init (?c\<lparr>kst := os_kalloc_init kb ub (kst ?c)\<rparr>)" and ?T = "({} :: addr set, dom (sem_at ?s), dom (mutex_at ?s))"
  have F: "boot_inv kb ub ?T ?c2" "sched_same (kst ?c) (kst ?c2)"
    "kst_boot kb ub ?T (kst ?c2) (?idle # all_blocks kb 64 31) (pool_block ub 1024 7 # all_blocks ub 1024 7)"
    by (rule boot_fresh [of im ?c ?s]; use im c kb ub in simp)+
  let ?M = "\<lambda>m. map_option (\<lambda>x. (mtx_owner x, mtx_next_mutex x)) (mutex_at (zero_globals ?s) m)"
  have "boot_sees Map.empty ?M (kst ?c)" by (simp add: boot_sees_def) (simp add: zero_globals_def tcb_at_def)
  then have V: "boot_sees Map.empty ?M (kst ?c2)" using boot_sees_same [OF F(2)] by blast
  from boot_create_view [OF F(1,3) n(2,1), of "idle_task im" OS_TASK_IDLE 128 Map.empty ?M tr ex NULL] V im obtain c3 where
    c3: "os_task_create tr ex OS_TASK_IDLE (idle_task im) NULL 128 args rest ?c2 = Some c3" "boot_inv kb ub ?T (exception_return c3)"
      "kst_boot kb ub ?T (kst (exception_return c3)) (all_blocks kb 64 31) (all_blocks ub 1024 7)"
      "boot_sees [?idle \<mapsto> (OS_TASK_IDLE, OS_TASK_IDLE, False, NULL)] ?M (kst (exception_return c3))"
    by (auto simp: image_ok_def OS_TASK_STACK_WORDS_def)
  obtain x x' xs y y' y'' ys where e: "all_blocks kb 64 31 = pool_block kb 64 30 # x # x' # xs" "all_blocks ub 1024 7 = y # y' # y'' # ys"
    using all_blocks_Cons [of kb 64 30] all_blocks_Cons [of kb 64 29] all_blocks_Cons [of kb 64 28]
      all_blocks_Cons [of ub 1024 6] all_blocks_Cons [of ub 1024 5] all_blocks_Cons [of ub 1024 4] by auto
  have m': "m \<in> snd (snd ?T)" using m by (simp add: kstate_simps)
  from pi_main_ready [OF c3(2) c3(3) [unfolded e] c3(4) n(2,1,3) m' h, of clock tr ex "layout.truncate im" hz] obtain c4 c5 where
    c5: "pi_main tr ex m low args rest (exception_return c3) = Some (0xA5A5A5A5, c4)" "os_start (layout.truncate im) clock hz c4 = Some c5"
      "pi_ready ?idle (pool_block kb 64 30) m kb ub (kst c5)" by auto
  have "os_boot_main im ?app clock hz args rest ?c = Some c5"
    unfolding os_boot_main_def Let_def kb [symmetric] ub [symmetric] tr [symmetric] ex [symmetric] c3(1) bind.bind_lunit c5(1) option.map snd_conv
    by (rule c5(2))
  with Q c5(3) show ?thesis by auto
qed

text \<open>
  C6: No priority inversion. From reset on, under every interleaving of ticks and context switches with the steps of the tasks,
  the medium task never runs, not even while the high task waits for the mutex of the low one; after at most
  50009 steps of tasks the high task has acquired the mutex; and the system never gets stuck: a pending context
  switch returns, and otherwise the current task has a step.
\<close>

theorem pi_no_inversion:
  assumes "image_ok im (msp c)" and "control c = 0" and "length (r4_r11 c) = 8" and "args \<noteq> NULL" and "length rest = 6"
    and "m \<in> dom (mutex_at (kst c))" and "\<And>hw. clock = Some hw \<Longrightarrow> clock_starts hw"
    and "low \<noteq> NULL" and "medium \<noteq> NULL" and "high \<noteq> NULL" and "args' \<noteq> NULL"
    and "kb = kernel_object_pool_storage im" and "tr = task_start_trampoline im" and "ex = task_exit_trap im"
  shows "\<exists>c'. Reset_Handler im (\<lambda>c. map_option snd (pi_main tr ex m low args rest c)) clock hz args rest c = Some c' \<and>
    (\<forall>y. pi_reachable tr ex args' high medium m (pi_initial (pool_block kb 64 30) (kst c')) y \<longrightarrow>
      g_pi_medium_spins (pi_state y) = 0 \<and> (50009 \<le> pi_steps y \<longrightarrow> g_pi_high_acquired (pi_state y) = 1) \<and>
      (if pendsv (pi_k y) then \<exists>k. os_commit_switch ((pi_k y)\<lparr>pendsv := False\<rparr>) = Some k
       else \<exists>pc z. pi_pcs y (g_current (pi_k y)) = Some pc \<and> pi_run tr ex args' high medium m pc y = Some z))"
proof -
  let ?ub = "user_stack_pool_storage im" and ?idle = "pool_block kb 64 31" and ?l = "pool_block kb 64 30"
  from pi_reset_ready [OF assms(1-5,8,6), of clock kb ?ub tr ex hz] assms(7,12-14) obtain c' where
    c': "Reset_Handler im (\<lambda>c. map_option snd (pi_main tr ex m low args rest c)) clock hz args rest c = Some c'"
      "pi_ready ?idle ?l m kb ?ub (kst c')" by auto
  have l: "?l \<notin> {?idle, NULL}" using c'(2) by (simp add: pi_ready_def)
  show ?thesis
  proof (intro exI [of _ c'] conjI allI impI c'(1))
    fix y
    assume y: "pi_reachable tr ex args' high medium m (pi_initial ?l (kst c')) y"
    have I: "pi_inv ?idle ?l m kb ?ub y"
      by (rule pi_reachable_inv [OF y pi_initial_inv [OF c'(2)] l assms(11,10,9)])
    show "g_pi_medium_spins (pi_state y) = 0" using I by (auto simp: pi_inv_def)
    show "g_pi_high_acquired (pi_state y) = 1" if "50009 \<le> pi_steps y" using I that by (auto simp: pi_inv_def)
    from I obtain a xs ys b where a: "calm kb ?ub (pi_k y) a xs ys" "settled a b" by (auto simp: pi_inv_def)
    show "if pendsv (pi_k y) then \<exists>k. os_commit_switch ((pi_k y)\<lparr>pendsv := False\<rparr>) = Some k
       else \<exists>pc z. pi_pcs y (g_current (pi_k y)) = Some pc \<and> pi_run tr ex args' high medium m pc y = Some z"
      using calm_switch [OF a] pi_run_inv [OF I _ l assms(11,10,9), of tr ex] by auto
  qed
qed

theorem pi_no_inversion_witness:
  "\<exists>c'. Reset_Handler sample_image (\<lambda>c. map_option snd (pi_main 0x08000101 0x08000201 0x1000 0x08000401 0x20004F00 (replicate 6 0) c))
      (Some sample_clock) 72000000 0x20004F00 (replicate 6 0) (reset_cpu sample) = Some c' \<and>
    (\<forall>y. pi_reachable 0x08000101 0x08000201 0x20000F00 0x08000601 0x08000501 0x1000 (pi_initial (pool_block 0x20004100 64 30) (kst c')) y \<longrightarrow>
      g_pi_medium_spins (pi_state y) = 0 \<and> (50009 \<le> pi_steps y \<longrightarrow> g_pi_high_acquired (pi_state y) = 1) \<and>
      (if pendsv (pi_k y) then \<exists>k. os_commit_switch ((pi_k y)\<lparr>pendsv := False\<rparr>) = Some k
       else \<exists>pc z. pi_pcs y (g_current (pi_k y)) = Some pc \<and>
         pi_run 0x08000101 0x08000201 0x20000F00 0x08000601 0x08000501 0x1000 pc y = Some z))"
  by (rule pi_no_inversion [OF sample_image_ok])
    (simp_all add: reset_cpu_def sample_clock_starts sample_image_def sample_mutex)

end
