(* ===== verification/Spec2Isabelle.thy ===== *)
theory Spec2Isabelle
  imports Semaphore Mutex_Properties Timing Mempool_Properties Task_Properties Port_Properties Scheduler_Properties Kernel_Safety Priority_Inheritance Known_Defects Vectors Lfqueue Rtt Message_Queue_Properties App_Main App_Blink App_Pi
begin

text \<open>
  A model and a verification of a small preemptive real-time kernel for Cortex-M3 processors, with its
  communication primitives and its applications. File names are relative to \<open>src/\<close>.

  \<^bold>\<open>The program.\<close> Tasks run unprivileged and enter the kernel by supervisor calls. \<open>arch/arm_cm/port.c\<close> dispatches a call
  to a kernel service: \<open>os_kernel_task_create\<close>, \<open>os_kernel_yield\<close>, \<open>os_kernel_delay_ticks\<close>, taking and giving a semaphore,
  locking and unlocking a mutex. The services work on the queues of \<open>kernel/scheduler.c\<close>: one ready queue per
  priority, the waiters of every semaphore and mutex, the sleeping tasks, and the timeout queue. A service or
  the tick interrupt (\<open>kernel/tick.c\<close>) chooses the next task and requests PendSV, the exception in which the context is switched.
  Task control blocks and stacks come from two pools (\<open>kernel/mempool.c\<close>, \<open>kernel/kalloc.c\<close>). The message queue
  (\<open>kernel/queue.c\<close>) is user code on top of a mutex and two semaphores; the lock-free queue (\<open>kernel/lfqueue.c\<close>) and the debug channels
  (\<open>kernel/rtt.c\<close>) do without the kernel.

  \<^bold>\<open>How the code is modelled.\<close> A C function that changes state is a function on a state record that returns \<open>None\<close> where
  the C function has no result: it follows a pointer to no object, leaves an array, or loops forever. All
  variables of the kernel are fields of \<open>kstate\<close>; the structs its pointers lead to are in one typed store per struct,
  indexed by 32-bit addresses, so that aliasing of links is the aliasing of the code. Integers are words of their
  width. Loops over linked structures are partial functions with no fuel; that they return is a part of the
  refinement lemmas (\<open>\<exists>s'. f s = Some s' \<and> \<dots>\<close>), and loops over counters are total by a measure. \<open>cpu\<close> adds the registers
  the handlers use and the memory-mapped registers with the order in which they are written.

  \<^bold>\<open>The theories.\<close>
  \<^item> \<open>Prelude\<close>, \<open>Kernel_State\<close>, \<open>Sample_Kernel\<close>: C types and shared lemmas; the structs of the headers and the kernel
    state; a concrete kernel state to which theorems about arbitrary states are applied.
  \<^item> \<open>Linked_Lists\<close>, \<open>Task_Queue\<close>, \<open>Timeout_Queue\<close>, \<open>Scheduler\<close> (\<open>kernel/scheduler.c\<close>): doubly linked lists in the store, the functions
    statement by statement, and what list operation each one implements.
  \<^item> \<open>Kernel_Abstraction\<close>, \<open>Scheduler_Refinement\<close>: the abstract state, in which queues are lists. \<open>kernel_rel s a\<close> relates
    the two; each scheduler function returns and implements its \<open>a_\<dots>\<close> counterpart.
  \<^item> \<open>Kernel_Invariant\<close>, \<open>Kernel_Ok\<close>: every task is in exactly one queue, the one its state asks for; a positive count
    means no waiters; a free mutex has none; the waiters of a mutex are ordered by priority. Every operation keeps this.
  \<^item> \<open>Critical_Section\<close>: the locale of a service that masks interrupts, works and restores the mask, interpreted
    for the five services in \<open>Semaphore\<close>, \<open>Mutex\<close> and \<open>Tick\<close> (\<open>kernel/semaphore.c\<close>, \<open>kernel/mutex.c\<close>, \<open>kernel/tick.c\<close>).
  \<^item> \<open>Semaphore\<close>, \<open>Mutex\<close>, \<open>Mutex_Properties\<close>, \<open>Tick\<close>, \<open>Timing\<close>, \<open>Scheduler_Properties\<close>: the behaviour of each service on every branch,
    priority inheritance and its end, who wakes up when, choice of the most urgent task, round robin.
  \<^item> \<open>Mempool\<close>, \<open>Mempool_Properties\<close>: pools with the free list in the blocks, the locale \<open>allocator\<close> and its three interpretations.
  \<^item> \<open>Task\<close>, \<open>Task_Properties\<close> (\<open>kernel/task.c\<close>): creation of tasks with the initial stack frame.
  \<^item> \<open>Port\<close>, \<open>Port_Properties\<close> (\<open>arch/arm_cm/port.c\<close>, \<open>port.h\<close>): supervisor calls and the context switch, and that a task that is switched
    out resumes with its registers.
  \<^item> \<open>Hardware\<close>, \<open>Hardware_Properties\<close> (\<open>port.c\<close>, \<open>bsp/stm32f103\<close>, \<open>benchmark/bench_clock.c\<close>): memory protection, timer, clock tree.
  \<^item> \<open>Boot\<close>, \<open>Boot_Properties\<close> (\<open>arch/arm_cm/startup.c\<close>, \<open>kernel/main.c\<close>, \<open>os_start\<close>): from reset to the first context switch.
  \<^item> \<open>Vectors\<close> (\<open>arch/arm_cm/startup.c\<close>): the vector table with its weak handlers; which exception runs which handler, and that every fault
    halts the system.
  \<^item> \<open>Commit_Steps\<close>: \<open>os_commit_switch\<close> in steps of one access to memory each, which without interruption are the function of \<open>Scheduler\<close>.
  \<^item> \<open>Progress\<close>, \<open>System\<close>, \<open>Machine\<close>, \<open>Kernel_Safety\<close>: the whole kernel as a step relation in which tasks, supervisor calls, ticks and the
    steps of PendSV, access by access in \<open>os_commit_switch\<close>, are interleaved; its invariant holds in every state reachable from
    reset.
  \<^item> \<open>Priority_Inheritance\<close>: in every state reachable from reset by tasks that hold at most one mutex at a time, the priority of a
    task is the most urgent of its own and of those of the tasks that wait for it, and no task that can run is more
    urgent than the running one, unless a context switch is pending or in progress or the last tick came in the middle of
    \<open>os_commit_switch\<close>.
  \<^item> \<open>Priority_View\<close>, \<open>Boot_View\<close>: the kernel as an application with fixed priorities sees it, when it runs and when it starts: the one most
    urgent task is the one that runs.
  \<^item> \<open>Known_Defects\<close>: what the code does where it does not do what it means to, such as a kernel call that hangs in a program
    without deadlocks, a boost that ends with the first owner of a chain, and a preemption that is lost when a tick comes in
    the middle of \<open>os_commit_switch\<close>. The hypotheses of the other theorems exclude these situations.
  \<^item> \<open>Object_View\<close>: what a user of semaphores and mutexes may rely on, as the locale \<open>sync_objects\<close>, interpreted for the kernel.
  \<^item> \<open>Ring\<close>: the locale of a wrapping index, interpreted for the three circular buffers.
  \<^item> \<open>Message_Queue\<close>, \<open>Queue_Machine\<close>, \<open>Queue_Invariant\<close>, \<open>Message_Queue_Properties\<close> (\<open>kernel/queue.c\<close>, \<open>kernel/memory.c\<close>): the two calls as sequences of
    steps, their interleaving, and that the queue is a FIFO queue of bounded length.
  \<^item> \<open>Lfqueue\<close> (\<open>kernel/lfqueue.c\<close>), \<open>Rtt\<close> (\<open>kernel/rtt.c\<close>): the lock-free queue under every interleaving of one producer and one consumer;
    the transfers of the debug channels.
  \<^item> \<open>App_Main\<close> and \<open>Decimal\<close> (\<open>app/app_main.c\<close>), \<open>App_Led\<close> (\<open>app/app_LED.c\<close>), \<open>App_Blink\<close> (\<open>app/app_LED_onboard.c\<close>, \<open>benchmark/bench_yield_app.c\<close>,
    \<open>app/app_test_rtt.c\<close>), \<open>App_Pi\<close> (\<open>app/pi_test.c\<close>): the applications on top of these, as steps of their tasks. The numbers of the first arrive
    in order, the LEDs of the second are never lit together, and in the last one priority inheritance prevents the
    inversion it is written to test.

  \<^bold>\<open>Parameters.\<close> What the linker decides (\<open>layout\<close>, \<open>image\<close>, the addresses of the trampoline and of the exit trap), the status
  bits of the clock hardware as a function of the reads and writes so far (\<open>clock_hw\<close>; \<open>clock_starts\<close> says that an oscillator
  becomes ready, the PLL locks and the clock switches after finitely many reads when they have been asked to in the order
  the data sheet documents; \<open>None\<close> is the build for the simulator without \<open>clock_init\<close>) and the application's \<open>os_app_main\<close>. The start-up
  theorems take for the latter a list of calls that create tasks and initialise semaphores and mutexes, which is what
  the applications do.

  \<^bold>\<open>Where the model stops.\<close>
  \<^item> A memory access takes effect at once and in program order, as it does on the single core of the chip. Interrupts
    are steps between functions that run with interrupts masked, between handlers and, inside PendSV,
    between saving the context, the accesses of \<open>os_commit_switch\<close> and restoring the context. Saving and restoring are one
    step each: they access \<open>g_current\<close> and the saved stack pointer of that task, which a tick does not change. For the
    applications of \<open>App_Pi\<close> and \<open>App_Led\<close> and for the message queue a context switch is one step.
  \<^item> Memory is a store of words; words that overlap in part do not occur: the blocks of the pools have at least four bytes, and
    stacks at least sixteen words, where the properties ask for it. The variables and objects of the kernel are not words of
    this store, so that zeroing \<open>.bss\<close> is stated by \<open>zero_globals\<close> for them.
  \<^item> The processor stacks exactly eight words on exception entry: the ninth word it adds to align a stack pointer that is not a
    multiple of eight is left out. \<open>PendSV_Handler\<close> keeps the stack pointer in R1 across the call of \<open>os_current_tcb\<close>, as the code
    relies on, although the procedure call standard does not guarantee it. Enumerations have one byte, as the ABI of
    \<open>arm-none-eabi\<close> has it. \<open>user_access\<close> is what the protection unit allows; the architecture keeps the private peripheral
    bus, with the cycle counter, for privileged code in addition.
  \<^item> The tasks of \<open>Message_Queue\<close>, \<open>App_Led\<close> and \<open>App_Pi\<close> call the kernel services directly; that the supervisor call has the effect
    and the result of the service is proved in \<open>Port_Properties\<close>. Delays and yields of \<open>App_Main\<close> and of the benchmark are not steps of their
    own, because all interleavings are considered.
  \<^item> The lists of mutexes a task owns are not a part of the kernel's invariant, since a contended lock breaks them: it
    enters the mutex into the list of the waiting task while it is still in the list of the owner. \<open>os_kernel_mutex_unlock\<close> is
    therefore proved to return when the list of the caller ends, and the step relation has no step for a call that
    does not return. For tasks that hold at most one mutex at a time \<open>Priority_Inheritance\<close> shows that the lists are right, and
    \<open>Known_Defects\<close> has two tasks with nested locks for which a call does not return.
  \<^item> The count of a semaphore is assumed to be below \<open>2 ^ 31 - 1\<close> where a unit is added to it; delays are below \<open>2 ^ 31\<close> ticks where
    the time of waking up is stated.

  \<^bold>\<open>Not modelled.\<close> The empty endless loops of \<open>os_idle_task\<close> and \<open>os_task_exit_trap\<close>, which the step relation covers as tasks that only
  compute; the host side of the debug channels; the linker scripts, build files and test scripts.
\<close>

end
